(* ===== verification/Prelude.thy ===== *)
theory Prelude
  imports Main "HOL-Library.Word"
begin

text \<open>
  Shared material of the development: the outcome type of operations that can raise in C++,
  the collections of rewrite rules the component theories feed, and generic lemmas on lists,
  bits and two's complement numbers that several components use.
\<close>

unbundle bit_operations_syntax

section \<open>Outcomes of C++ operations\<close>

text \<open>
  An operation of the program that can fail returns a value of \<open>'a result\<close>: \<open>Inl\<close> with the
  way it fails, \<open>Inr\<close> with its value. \<open>LengthError\<close> is the exception that the standard
  containers throw for an impossible size, \<open>OutOfRange\<close> a read or write outside a container,
  \<open>AssertFail\<close> a failing \<open>log_assert\<close> or \<open>do_assert\<close>, \<open>Abort\<close> a call of \<open>log_abort\<close>,
  \<open>IntOverflow\<close> an operation on machine integers that is undefined in C++,
  \<open>NonTermination\<close> a loop that never ends, and \<open>LogError\<close> a call of \<open>log_error\<close> or
  \<open>log_cmd_error\<close> (both unwind to the command loop).
\<close>

datatype cxx_error =
  LengthError | OutOfRange | AssertFail | Abort | IntOverflow | NonTermination | LogError string

type_synonym 'a result = "cxx_error + 'a"

definition rbind :: "'a result \<Rightarrow> ('a \<Rightarrow> 'b result) \<Rightarrow> 'b result" where
  "rbind m f = (case m of Inl e \<Rightarrow> Inl e | Inr x \<Rightarrow> f x)"

definition rmap :: "('a \<Rightarrow> 'b) \<Rightarrow> 'a result \<Rightarrow> 'b result" where
  "rmap f m = rbind m (\<lambda>x. Inr (f x))"

lemma rbind_simps [simp]: "rbind (Inl e) f = Inl e" "rbind (Inr x) f = f x"
  by (simp_all add: rbind_def)

lemma rmap_simps [simp]: "rmap f (Inl e) = Inl e" "rmap f (Inr x) = Inr (f x)"
  by (simp_all add: rmap_def)

lemma rbind_eq_Inr_iff: "rbind m f = Inr y \<longleftrightarrow> (\<exists>x. m = Inr x \<and> f x = Inr y)"
  by (cases m) auto

lemma rmap_eq_Inr_iff: "rmap f m = Inr y \<longleftrightarrow> (\<exists>x. m = Inr x \<and> y = f x)"
  by (cases m) auto

text \<open>A loop over a list whose body can fail.\<close>

fun rfold :: "('a \<Rightarrow> 's \<Rightarrow> 's result) \<Rightarrow> 'a list \<Rightarrow> 's \<Rightarrow> 's result" where
  "rfold f [] s = Inr s"
| "rfold f (x # xs) s = rbind (f x s) (rfold f xs)"

lemma rfold_total:
  assumes "\<And>x s. x \<in> set xs \<Longrightarrow> I s \<Longrightarrow> \<exists>s'. f x s = Inr s' \<and> I s'" "I s"
  shows "\<exists>s'. rfold f xs s = Inr s' \<and> I s'"
  using assms
proof (induction xs arbitrary: s)
  case (Cons x xs)
  obtain s1 where "f x s = Inr s1" "I s1" using Cons.prems(1) [of x s] Cons.prems(2) by auto
  with Cons.IH [of s1] Cons.prems(1) show ?case by simp
qed simp

lemma rfold_keeps:
  assumes "rfold f xs s = Inr s'" "\<And>x s s'. x \<in> set xs \<Longrightarrow> I s \<Longrightarrow> f x s = Inr s' \<Longrightarrow> I s'" "I s"
  shows "I s'"
  using assms
proof (induction xs arbitrary: s)
  case (Cons x xs)
  then obtain s1 where "f x s = Inr s1" "rfold f xs s1 = Inr s'" by (auto simp: rbind_eq_Inr_iff)
  with Cons.IH [of s1] Cons.prems(2) [of x s s1] Cons.prems(2,3) show ?case by auto
qed simp

lemma rfold_fails:
  assumes "x \<in> set xs" "\<And>s. \<exists>err. f x s = Inl err"
  shows "\<exists>err. rfold f xs s = Inl err"
  using assms(1)
proof (induction xs arbitrary: s)
  case (Cons y ys)
  show ?case
  proof (cases "f y s")
    case (Inr s')
    then show ?thesis using Cons assms(2) [of s] by auto
  qed simp
qed simp

section \<open>Collections of rules\<close>

named_theorems const_rep \<open>what an operation on a constant does to its list of bits\<close>

named_theorems calc_eqs \<open>closed forms of the constant evaluation functions\<close>

section \<open>Numbers as lists of bits\<close>

text \<open>
  \<open>uval\<close> reads a list of truth values, least significant first, as an unsigned number and
  \<open>sval\<close> as a two's complement number; \<open>int_bits n v\<close> are the \<open>n\<close> low bits of \<open>v\<close>.
\<close>

definition uval :: "bool list \<Rightarrow> int" where
  "uval bs = horner_sum of_bool 2 bs"

definition sval :: "bool list \<Rightarrow> int" where
  "sval bs = (if bs \<noteq> [] \<and> last bs then uval bs - 2 ^ length bs else uval bs)"

definition int_bits :: "nat \<Rightarrow> int \<Rightarrow> bool list" where
  "int_bits n v = map (bit v) [0..<n]"

lemma length_int_bits [simp]: "length (int_bits n v) = n"
  by (simp add: int_bits_def)

lemma nth_int_bits [simp]: "i < n \<Longrightarrow> int_bits n v ! i = bit v i"
  by (simp add: int_bits_def)

lemma uval_Nil [simp]: "uval [] = 0"
  by (simp add: uval_def)

lemma uval_Cons [simp]: "uval (b # bs) = of_bool b + 2 * uval bs"
  by (simp add: uval_def)

lemma uval_append: "uval (bs @ cs) = uval bs + 2 ^ length bs * uval cs"
  by (induction bs) (simp_all add: algebra_simps)

lemma uval_nonneg [simp]: "0 \<le> uval bs"
  by (induction bs) simp_all

lemma uval_less: "uval bs < 2 ^ length bs"
proof (induction bs)
  case (Cons b bs)
  then have "2 * (uval bs + 1) \<le> 2 * 2 ^ length bs"
    by (intro mult_left_mono) auto
  then show ?case by (cases b) auto
qed simp

lemma bit_uval: "bit (uval bs) i \<longleftrightarrow> i < length bs \<and> bs ! i"
  unfolding uval_def by (simp add: bit_horner_sum_bit_iff)

lemma uval_int_bits: "uval (int_bits n v) = v mod 2 ^ n"
  by (simp add: uval_def int_bits_def horner_sum_bit_eq_take_bit take_bit_eq_mod)

lemma int_bits_uval: "int_bits n (uval bs) = take n bs @ replicate (n - length bs) False"
  by (rule nth_equalityI) (auto simp: bit_uval nth_append min_def)

lemma int_bits_cong: "v mod 2 ^ n = w mod 2 ^ n \<Longrightarrow> int_bits n v = int_bits n w"
proof -
  assume eq: "v mod 2 ^ n = w mod 2 ^ n"
  have "bit v i = bit w i" if "i < n" for i
    using that arg_cong [OF eq, of "\<lambda>x. bit x i"]
    by (simp add: bit_take_bit_iff flip: take_bit_eq_mod)
  then show ?thesis by (auto intro: nth_equalityI)
qed

lemma uval_inj: "length bs = length cs \<Longrightarrow> uval bs = uval cs \<Longrightarrow> bs = cs"
  by (metis append_Nil2 diff_self_eq_0 int_bits_uval replicate_0 take_all_iff order_refl)

lemma sval_mod: "sval bs mod 2 ^ length bs = uval bs"
proof -
  have "(uval bs - 2 ^ length bs) mod 2 ^ length bs = uval bs mod 2 ^ length bs"
    by (rule minus_mod_self2)
  then show ?thesis
    using uval_less [of bs] by (simp add: sval_def)
qed

lemma int_bits_Suc: "int_bits (Suc n) v = bit v 0 # int_bits n (drop_bit 1 v)"
  by (rule nth_equalityI) (auto simp: nth_Cons bit_drop_bit_eq split: nat.splits)

lemma not_bit_small: "0 \<le> x \<Longrightarrow> x < 2 ^ n \<Longrightarrow> n \<le> i \<Longrightarrow> \<not> bit (x :: int) i"
proof -
  assume "0 \<le> x" "x < 2 ^ n" "n \<le> i"
  then have "x < 2 ^ i"
    by (meson less_le_trans one_le_numeral power_increasing)
  then have "x div 2 ^ i = 0" using \<open>0 \<le> x\<close> by (intro div_pos_pos_trivial)
  then show ?thesis by (simp add: bit_iff_odd)
qed

lemma bit_sval: "bit (sval bs) i \<longleftrightarrow> (if i < length bs then bs ! i else bs \<noteq> [] \<and> last bs)"
proof (cases "i < length bs")
  case True
  then have "bit (sval bs) i = bit (take_bit (length bs) (sval bs)) i"
    by (simp add: bit_take_bit_iff)
  also have "\<dots> = bit (uval bs) i"
    by (simp add: take_bit_eq_mod sval_mod)
  finally show ?thesis using True by (simp add: bit_uval)
next
  case False
  show ?thesis
  proof (cases "bs \<noteq> [] \<and> last bs")
    case True
    then have "NOT (sval bs) = 2 ^ length bs - uval bs - 1"
      by (simp add: sval_def not_int_def)
    then have "\<not> bit (NOT (sval bs)) i"
      using not_bit_small [of "2 ^ length bs - uval bs - 1" "length bs" i] False uval_less [of bs]
        uval_nonneg [of bs] by simp
    with True False show ?thesis by (simp add: bit_not_int_iff)
  next
    case nosign: False
    then have "sval bs = uval bs" by (simp add: sval_def)
    with nosign False show ?thesis by (simp add: bit_uval)
  qed
qed

lemma bit_foldl_or:
  "bit (foldl (\<lambda>ret i. ret OR g i) acc xs) j \<longleftrightarrow> bit (acc :: 'a :: len word) j \<or> (\<exists>i \<in> set xs. bit (g i) j)"
  by (induction xs arbitrary: acc) (auto simp: bit_or_iff)

end
