(* ===== verification/Rtlil_Const.thy ===== *)
theory Rtlil_Const
  imports Prelude
begin

text \<open>
  Constants of the netlist language: \<open>RTLIL::State\<close> and \<open>RTLIL::Const\<close> of
  \<open>kernel/rtlil.h\<close> and \<open>kernel/rtlil.cc\<close>. A constant holds its bits either as a vector of
  six-valued states or as a byte string (most significant byte first); every operation of the
  class is modelled on the representation it finds, and \<open>to_bits\<close> is what both stand for.
\<close>

section \<open>States\<close>

datatype State = S0 | S1 | Sx | Sz | Sa | Sm

text \<open>The enumerators carry the values 0 to 5, and the code compares them as numbers.\<close>

fun state_code :: "State \<Rightarrow> nat" where
  "state_code S0 = 0"
| "state_code S1 = 1"
| "state_code Sx = 2"
| "state_code Sz = 3"
| "state_code Sa = 4"
| "state_code Sm = 5"

lemma state_code_inj [simp]: "state_code a = state_code b \<longleftrightarrow> a = b"
  by (cases a; cases b) simp_all

instantiation State :: linorder
begin

definition less_eq_State :: "State \<Rightarrow> State \<Rightarrow> bool" where
  "less_eq_State a b \<longleftrightarrow> state_code a \<le> state_code b"

definition less_State :: "State \<Rightarrow> State \<Rightarrow> bool" where
  "less_State a b \<longleftrightarrow> state_code a < state_code b"

instance
  by standard (auto simp: less_eq_State_def less_State_def)

end

definition is_def :: "State \<Rightarrow> bool" where
  "is_def s \<longleftrightarrow> s = S0 \<or> s = S1"

definition bool_state :: "bool \<Rightarrow> State" where
  "bool_state b = (if b then S1 else S0)"

lemma is_def_simps [simp]:
  "is_def S0" "is_def S1" "\<not> is_def Sx" "\<not> is_def Sz" "\<not> is_def Sa" "\<not> is_def Sm"
  by (simp_all add: is_def_def)

lemma bool_state_simps [simp]:
  "bool_state True = S1" "bool_state False = S0"
  "bool_state b = S1 \<longleftrightarrow> b" "bool_state b = S0 \<longleftrightarrow> \<not> b" "bool_state a = bool_state b \<longleftrightarrow> a = b"
  "is_def (bool_state b)"
  by (simp_all add: bool_state_def is_def_def)

lemma is_def_bool_state: "is_def s \<Longrightarrow> bool_state (s = S1) = s"
  by (auto simp: is_def_def)

section \<open>The two representations\<close>

text \<open>
  The tagged union of the class. A \<open>std::string\<close> is a list of bytes, Isabelle's \<open>string\<close>;
  the flags word is carried along and never looked at by the operations below.
\<close>

datatype backing = Bits "State list" | Str string

record Const =
  flags :: nat
  backing :: backing

definition CONST_FLAG_NONE :: nat where "CONST_FLAG_NONE = 0"
definition CONST_FLAG_STRING :: nat where "CONST_FLAG_STRING = 1"

definition is_bits :: "Const \<Rightarrow> bool" where
  "is_bits c = (case backing c of Bits _ \<Rightarrow> True | Str _ \<Rightarrow> False)"

definition is_str :: "Const \<Rightarrow> bool" where
  "is_str c = (case backing c of Bits _ \<Rightarrow> False | Str _ \<Rightarrow> True)"

definition byte_bit :: "char \<Rightarrow> nat \<Rightarrow> bool" where
  "byte_bit ch j = bit (of_char ch :: nat) j"

subsection \<open>Size, reading a bit, the list of all bits\<close>

definition const_size :: "Const \<Rightarrow> nat" where
  "const_size c = (case backing c of Str s \<Rightarrow> 8 * length s | Bits bv \<Rightarrow> length bv)"

definition const_empty :: "Const \<Rightarrow> bool" where
  "const_empty c = (case backing c of Str s \<Rightarrow> s = [] | Bits bv \<Rightarrow> bv = [])"

definition const_at :: "Const \<Rightarrow> nat \<Rightarrow> State" where
  "const_at c idx = (case backing c of
     Bits bv \<Rightarrow> bv ! idx
   | Str s \<Rightarrow> (let char_idx = length s - idx div 8 - 1
              in bool_state (byte_bit (s ! char_idx) (idx mod 8))))"

definition const_front :: "Const \<Rightarrow> State" where
  "const_front c = const_at c 0"

definition const_back :: "Const \<Rightarrow> State" where
  "const_back c = const_at c (const_size c - 1)"

definition to_bits :: "Const \<Rightarrow> State list" where
  "to_bits c = map (const_at c) [0..<const_size c]"

subsection \<open>Conversion to the bit vector representation and the mutators\<close>

definition byte_states :: "char \<Rightarrow> State list" where
  "byte_states ch = map (\<lambda>j. bool_state (byte_bit ch j)) [0..<8]"

definition bitvectorize_internal :: "Const \<Rightarrow> Const" where
  "bitvectorize_internal c = (case backing c of
     Bits _ \<Rightarrow> c
   | Str s \<Rightarrow> c\<lparr>backing := Bits (concat (map byte_states (rev s)))\<rparr>)"

definition bits_internal :: "Const \<Rightarrow> State list" where
  "bits_internal c = (case backing (bitvectorize_internal c) of Bits bv \<Rightarrow> bv | Str _ \<Rightarrow> [])"

definition set_bits_internal :: "Const \<Rightarrow> State list \<Rightarrow> Const" where
  "set_bits_internal c bv = (bitvectorize_internal c)\<lparr>backing := Bits bv\<rparr>"

definition const_set :: "Const \<Rightarrow> nat \<Rightarrow> State \<Rightarrow> Const result" where
  "const_set c i s =
     (let bv = bits_internal c
      in if i < length bv then Inr (set_bits_internal c (bv[i := s])) else Inl OutOfRange)"

definition resize_bits :: "State list \<Rightarrow> int \<Rightarrow> State \<Rightarrow> State list result" where
  "resize_bits bv sz fill =
     (if sz < 0 then Inl LengthError
      else Inr (take (nat sz) bv @ replicate (nat sz - length bv) fill))"

definition const_resize :: "Const \<Rightarrow> int \<Rightarrow> State \<Rightarrow> Const result" where
  "const_resize c sz fill =
     rmap (set_bits_internal c) (resize_bits (bits_internal c) sz fill)"

definition const_append :: "Const \<Rightarrow> Const \<Rightarrow> Const" where
  "const_append c d = set_bits_internal c (bits_internal c @ to_bits d)"

definition const_extu :: "Const \<Rightarrow> int \<Rightarrow> Const result" where
  "const_extu c width = const_resize c width S0"

definition const_exts :: "Const \<Rightarrow> int \<Rightarrow> Const result" where
  "const_exts c width = const_resize c width (if const_empty c then Sx else const_back c)"

subsection \<open>Constructors\<close>

text \<open>A \<open>long long\<close> is a 64 bit word; its right shift is arithmetic.\<close>

type_synonym long_long = "64 word"

definition low_byte :: "long_long \<Rightarrow> char" where
  "low_byte val = char_of (unat val)"

definition const_of_bits :: "State list \<Rightarrow> Const" where
  "const_of_bits bv = \<lparr>flags = CONST_FLAG_NONE, backing = Bits bv\<rparr>"

definition const_of_string :: "string \<Rightarrow> Const" where
  "const_of_string s = \<lparr>flags = CONST_FLAG_STRING, backing = Str s\<rparr>"

definition const_of_ll :: "long_long \<Rightarrow> Const" where
  "const_of_ll val = \<lparr>flags = CONST_FLAG_NONE, backing = Str
     [low_byte (signed_drop_bit 24 val), low_byte (signed_drop_bit 16 val),
      low_byte (signed_drop_bit 8 val), low_byte val]\<rparr>"

text \<open>The loop that stores the bytes of \<open>val\<close> from the end of the string forwards.\<close>

fun store_bytes :: "nat \<Rightarrow> long_long \<Rightarrow> nat \<Rightarrow> string \<Rightarrow> string" where
  "store_bytes 0 val i str = str"
| "store_bytes (Suc n) val i str =
     store_bytes n (signed_drop_bit 8 val) (Suc i) (str[length str - 1 - i := low_byte val])"

text \<open>The loop that pushes the bits of \<open>val\<close>, least significant first.\<close>

fun push_bits :: "nat \<Rightarrow> long_long \<Rightarrow> State list \<Rightarrow> State list" where
  "push_bits 0 val bv = bv"
| "push_bits (Suc n) val bv =
     push_bits n (signed_drop_bit 1 val) (bv @ [if val AND 1 \<noteq> 0 then S1 else S0])"

definition const_of_ll_width :: "long_long \<Rightarrow> int \<Rightarrow> Const result" where
  "const_of_ll_width val width =
     (if width < 0 then Inl LengthError
      else if width AND 7 = 0 then
        (let n = nat (width div 8);
             sign_byte = (if val <s 0 then char_of (255 :: nat) else char_of (0 :: nat))
         in Inr \<lparr>flags = CONST_FLAG_NONE,
                 backing = Str (store_bytes (min n 8) val 0 (replicate n sign_byte))\<rparr>)
      else Inr (const_of_bits (push_bits (nat width) val [])))"

definition const_fill :: "State \<Rightarrow> int \<Rightarrow> Const result" where
  "const_fill b width =
     (if width < 0 then Inl LengthError else Inr (const_of_bits (replicate (nat width) b)))"

definition const_of_bools :: "bool list \<Rightarrow> Const" where
  "const_of_bools bs = const_of_bits (map (\<lambda>b. if b then S1 else S0) bs)"

subsection \<open>Comparison\<close>

text \<open>The first position where two lists of bits differ decides the order.\<close>

fun first_diff_less :: "State list \<Rightarrow> State list \<Rightarrow> bool" where
  "first_diff_less (a # as) (b # bs) = (if a \<noteq> b then a < b else first_diff_less as bs)"
| "first_diff_less _ _ = False"

definition const_less :: "Const \<Rightarrow> Const \<Rightarrow> bool" where
  "const_less c d =
     (if const_size c \<noteq> const_size d then const_size c < const_size d
      else first_diff_less (to_bits c) (to_bits d))"

definition const_equal :: "Const \<Rightarrow> Const \<Rightarrow> bool" where
  "const_equal c d = (case (backing c, backing d) of
     (Str s, Str t) \<Rightarrow> s = t
   | (Bits v, Bits w) \<Rightarrow> v = w
   | _ \<Rightarrow> const_size c = const_size d \<and>
          list_all (\<lambda>i. const_at c i = const_at d i) [0..<const_size c])"

definition const_not_equal :: "Const \<Rightarrow> Const \<Rightarrow> bool" where
  "const_not_equal c d = (\<not> const_equal c d)"

subsection \<open>Conversion to machine integers\<close>

definition as_bool :: "Const \<Rightarrow> bool" where
  "as_bool c = (case backing c of
     Str s \<Rightarrow> list_ex (\<lambda>ch. ch \<noteq> char_of (0 :: nat)) s
   | Bits bv \<Rightarrow> list_ex (\<lambda>b. b = S1) bv)"

definition byte_word :: "char \<Rightarrow> 32 word" where
  "byte_word ch = word_of_int (of_char ch)"

definition as_int_word :: "Const \<Rightarrow> bool \<Rightarrow> 32 word" where
  "as_int_word c is_signed = (case backing c of
     Str s \<Rightarrow>
       (let n = length s;
            ret = foldl (\<lambda>ret i. ret OR push_bit ((i - 1) * 8) (byte_word (s ! (n - i)))) 0
                    (rev [1..<Suc (min 4 n)])
        in if is_signed \<and> 0 < n \<and> n < 4 \<and> byte_bit (s ! 0) 7
           then ret OR push_bit (n * 8) (- 1) else ret)
   | Bits bv \<Rightarrow>
       (let significant_bits = min (length bv) 32;
            ret = foldl (\<lambda>ret i. if bv ! i = S1 then ret OR push_bit i 1 else ret) 0
                    [0..<significant_bits]
        in if is_signed \<and> 0 < significant_bits \<and> significant_bits < 32 \<and> last bv = S1
           then ret OR push_bit significant_bits (- 1) else ret))"

definition as_int :: "Const \<Rightarrow> bool \<Rightarrow> int" where
  "as_int c is_signed = sint (as_int_word c is_signed)"

text \<open>The loop that skips copies of the leading bit, from the most significant bit down.\<close>

fun min_size_loop :: "Const \<Rightarrow> State \<Rightarrow> nat \<Rightarrow> nat" where
  "min_size_loop c leading_bit 0 = 0"
| "min_size_loop c leading_bit (Suc idx) =
     (if const_at c idx = leading_bit then min_size_loop c leading_bit idx else Suc idx)"

definition get_min_size :: "Const \<Rightarrow> bool \<Rightarrow> nat" where
  "get_min_size c is_signed =
     (if const_empty c then 0
      else let leading_bit = (if is_signed
                              then (if const_back c = Sx then S0 else const_back c) else S0);
               idx = min_size_loop c leading_bit (const_size c);
               idx = (if is_signed \<and> idx < const_size c then idx + 1 else idx)
           in if idx = 0 then 1 else idx)"

definition convertible_to_int :: "Const \<Rightarrow> bool \<Rightarrow> bool" where
  "convertible_to_int c is_signed =
     (let n = get_min_size c is_signed
      in if n \<le> 31 then True
         else if n = 32 then (if is_signed then True else const_back c \<noteq> S1)
         else False)"

definition try_as_int :: "Const \<Rightarrow> bool \<Rightarrow> int option" where
  "try_as_int c is_signed =
     (if \<not> convertible_to_int c is_signed then None else Some (as_int c is_signed))"

definition as_int_saturating :: "Const \<Rightarrow> bool \<Rightarrow> int result" where
  "as_int_saturating c is_signed =
     (if \<not> convertible_to_int c is_signed then
        (if \<not> is_signed then Inr (2 ^ 31 - 1)
         else let min_size = get_min_size c is_signed
              in if \<not> 0 < min_size then Inl AssertFail
                 else Inr (if state_code (const_at c (min_size - 1)) \<noteq> 0
                           then - (2 ^ 31) else 2 ^ 31 - 1))
      else Inr (as_int c is_signed))"

definition const_compress :: "Const \<Rightarrow> bool \<Rightarrow> Const result" where
  "const_compress c is_signed = const_resize c (int (get_min_size c is_signed)) S0"

definition as_int_compress :: "Const \<Rightarrow> bool \<Rightarrow> int option" where
  "as_int_compress c is_signed = try_as_int c is_signed"

subsection \<open>Conversion to and from strings\<close>

fun state_chars :: "string \<Rightarrow> State \<Rightarrow> string" where
  "state_chars any S0 = ''0''"
| "state_chars any S1 = ''1''"
| "state_chars any Sx = ''x''"
| "state_chars any Sz = ''z''"
| "state_chars any Sa = any"
| "state_chars any Sm = ''m''"

definition as_string :: "Const \<Rightarrow> string \<Rightarrow> string" where
  "as_string c any = concat (map (\<lambda>i. state_chars any (const_at c i)) (rev [0..<const_size c]))"

definition char_state :: "char \<Rightarrow> State" where
  "char_state ch =
     (if ch = CHR ''0'' then S0 else if ch = CHR ''1'' then S1
      else if ch = CHR ''x'' then Sx else if ch = CHR ''z'' then Sz
      else if ch = CHR ''m'' then Sm else Sa)"

definition from_string :: "string \<Rightarrow> Const" where
  "from_string str = const_of_bits (map char_state (rev str))"

text \<open>The byte made of the bits \<open>bv[i], \<dots>, bv[i + n - 1]\<close>; only \<open>S1\<close> counts as a one.\<close>

definition pack_byte :: "State list \<Rightarrow> char" where
  "pack_byte bs = char_of (foldl (\<lambda>ch j. if bs ! j = S1 then ch OR push_bit j 1 else ch)
                             (0 :: nat) [0..<length bs])"

definition append_nonzero :: "string \<Rightarrow> char \<Rightarrow> string" where
  "append_nonzero s ch = (if ch \<noteq> char_of (0 :: nat) then s @ [ch] else s)"

fun decode_loop :: "State list \<Rightarrow> nat \<Rightarrow> string \<Rightarrow> string" where
  "decode_loop bv 0 s = s"
| "decode_loop bv (Suc k) s =
     decode_loop bv k (append_nonzero s (pack_byte (take 8 (drop (k * 8) bv))))"

definition decode_string :: "Const \<Rightarrow> string" where
  "decode_string c = (case backing c of
     Str s \<Rightarrow> s
   | Bits bv \<Rightarrow>
       (let n = length bv; n_over_8 = n div 8; i = n_over_8 * 8;
            s = (if i < n then append_nonzero [] (pack_byte (drop i bv)) else [])
        in decode_loop bv n_over_8 s))"

subsection \<open>Predicates and slices\<close>

definition is_fully_zero :: "Const \<Rightarrow> bool" where
  "is_fully_zero c = (case backing c of
     Str s \<Rightarrow> list_all (\<lambda>ch. ch = char_of (0 :: nat)) s
   | Bits bv \<Rightarrow> list_all (\<lambda>b. b = S0) bv)"

definition is_fully_ones :: "Const \<Rightarrow> bool" where
  "is_fully_ones c = (case backing c of
     Str s \<Rightarrow> list_all (\<lambda>ch. ch = char_of (255 :: nat)) s
   | Bits bv \<Rightarrow> list_all (\<lambda>b. b = S1) bv)"

definition is_fully_def :: "Const \<Rightarrow> bool" where
  "is_fully_def c = (case backing c of
     Str s \<Rightarrow> True
   | Bits bv \<Rightarrow> list_all (\<lambda>b. b = S0 \<or> b = S1) bv)"

definition is_fully_undef :: "Const \<Rightarrow> bool" where
  "is_fully_undef c = (case backing c of
     Str s \<Rightarrow> s = []
   | Bits bv \<Rightarrow> list_all (\<lambda>b. b = Sx \<or> b = Sz) bv)"

definition is_fully_undef_x_only :: "Const \<Rightarrow> bool" where
  "is_fully_undef_x_only c = (case backing c of
     Str s \<Rightarrow> s = []
   | Bits bv \<Rightarrow> list_all (\<lambda>b. b = Sx) bv)"

text \<open>
  The result of \<open>is_onehot\<close> and the position it stores through its pointer (\<open>None\<close> while
  nothing has been stored).
\<close>

fun onehot_loop :: "State list \<Rightarrow> nat \<Rightarrow> bool \<Rightarrow> nat option \<Rightarrow> bool \<times> nat option" where
  "onehot_loop [] i found pos = (found, pos)"
| "onehot_loop (b # bs) i found pos =
     (if b \<noteq> S0 \<and> b \<noteq> S1 then (False, pos)
      else if b = S1 then
        (if found then (False, pos) else onehot_loop bs (Suc i) True (Some i))
      else onehot_loop bs (Suc i) found pos)"

definition is_onehot :: "Const \<Rightarrow> bool \<times> nat option" where
  "is_onehot c = onehot_loop (to_bits c) 0 False None"

definition const_extract :: "Const \<Rightarrow> int \<Rightarrow> int \<Rightarrow> State \<Rightarrow> Const result" where
  "const_extract c off len padding =
     (if len < 0 then Inl LengthError
      else if off < 0 \<and> 0 < len then Inl OutOfRange
      else Inr (const_of_bits (map (\<lambda>i. if i < const_size c then const_at c i else padding)
                                 [nat off..<nat off + nat len])))"

section \<open>What the two representations stand for\<close>

lemma length_byte_states [simp]: "length (byte_states ch) = 8"
  by (simp add: byte_states_def)

lemma to_bits_Bits: "backing c = Bits bv \<Longrightarrow> to_bits c = bv"
  by (rule nth_equalityI) (simp_all add: to_bits_def const_size_def const_at_def)

lemma str_bits_concat:
  "map (\<lambda>idx. bool_state (byte_bit (s ! (length s - idx div 8 - 1)) (idx mod 8)))
       [0..<8 * length s] = concat (map byte_states (rev s))"
proof (induction s)
  case (Cons ch s)
  let ?f = "\<lambda>s idx. bool_state (byte_bit (s ! (length s - idx div 8 - 1)) (idx mod 8))"
  have split: "[0..<8 * length (ch # s)] = [0..<8 * length s] @ map (\<lambda>j. 8 * length s + j) [0..<8]"
    using upt_add_eq_append [of 0 "8 * length s" 8] map_add_upt [of "8 * length s" 8]
    by (simp add: add.commute del: upt_Suc)
  have "?f (ch # s) idx = ?f s idx" if "idx < 8 * length s" for idx
  proof -
    have "idx div 8 < length s" using that by (simp add: div_less_iff_less_mult)
    then have "length (ch # s) - idx div 8 - 1 = Suc (length s - idx div 8 - 1)" by simp
    then show ?thesis by simp
  qed
  then have "map (?f (ch # s)) [0..<8 * length s] = map (?f s) [0..<8 * length s]"
    by (intro map_cong) auto
  moreover have "map (?f (ch # s) \<circ> (\<lambda>j. 8 * length s + j)) [0..<8] = byte_states ch"
    by (auto simp: byte_states_def)
  ultimately have "map (?f (ch # s)) [0..<8 * length (ch # s)] =
      map (?f s) [0..<8 * length s] @ byte_states ch"
    unfolding split map_append map_map by (simp only:)
  then show ?case unfolding Cons.IH by simp
qed simp

lemma to_bits_Str: "backing c = Str s \<Longrightarrow> to_bits c = concat (map byte_states (rev s))"
  unfolding str_bits_concat [of s, symmetric]
  by (rule nth_equalityI) (simp_all add: to_bits_def const_size_def const_at_def Let_def)

lemma bits_internal_to_bits [const_rep]: "bits_internal c = to_bits c"
  by (cases "backing c")
    (simp_all add: bits_internal_def bitvectorize_internal_def to_bits_Bits to_bits_Str)

lemma bitvectorize_to_bits [const_rep]: "to_bits (bitvectorize_internal c) = to_bits c"
  by (cases "backing c") (simp_all add: bitvectorize_internal_def to_bits_Bits to_bits_Str)

lemma set_bits_internal_to_bits [const_rep]: "to_bits (set_bits_internal c bv) = bv"
  by (rule to_bits_Bits) (simp add: set_bits_internal_def)

lemma const_of_bits_to_bits [const_rep, simp]: "to_bits (const_of_bits bv) = bv"
  by (rule to_bits_Bits) (simp add: const_of_bits_def)

lemma length_to_bits [const_rep, simp]: "length (to_bits c) = const_size c"
  by (simp add: to_bits_def)

lemma const_at_to_bits: "i < const_size c \<Longrightarrow> const_at c i = to_bits c ! i"
  by (simp add: to_bits_def)

lemma const_empty_to_bits [const_rep]: "const_empty c \<longleftrightarrow> to_bits c = []"
  by (cases "backing c") (auto simp: const_empty_def to_bits_def const_size_def)

lemma const_back_to_bits: "to_bits c \<noteq> [] \<Longrightarrow> const_back c = last (to_bits c)"
  using const_at_to_bits [of "const_size c - 1" c]
  by (cases "const_size c") (auto simp: const_back_def last_conv_nth simp flip: length_to_bits)

lemma const_front_to_bits: "to_bits c \<noteq> [] \<Longrightarrow> const_front c = hd (to_bits c)"
  using const_at_to_bits [of 0 c]
  by (cases "const_size c") (auto simp: const_front_def hd_conv_nth simp flip: length_to_bits)

lemma const_resize_to_bits [const_rep]:
  "rmap to_bits (const_resize c n fill) = resize_bits (to_bits c) n fill"
  by (cases "resize_bits (to_bits c) n fill")
    (simp_all add: const_resize_def bits_internal_to_bits set_bits_internal_to_bits)

lemma const_set_to_bits [const_rep]:
  "rmap to_bits (const_set c i s) =
     (if i < const_size c then Inr ((to_bits c)[i := s]) else Inl OutOfRange)"
  by (simp add: const_set_def Let_def bits_internal_to_bits set_bits_internal_to_bits)

lemma const_append_to_bits [const_rep]: "to_bits (const_append c d) = to_bits c @ to_bits d"
  by (simp add: const_append_def bits_internal_to_bits set_bits_internal_to_bits)


section \<open>Equality does not depend on the representation\<close>

lemma of_char_bits_eqI:
  assumes "\<And>j. j < 8 \<Longrightarrow> byte_bit a j = byte_bit b j"
  shows "a = b"
proof -
  have small: "\<not> byte_bit c j" if "8 \<le> j" for c j
  proof -
    have "(of_char c :: nat) < 2 ^ 8" using nat_of_char_less_256 [of c] by simp
    also have "(2 :: nat) ^ 8 \<le> 2 ^ j" using that by (intro power_increasing) auto
    finally show ?thesis
      by (simp add: byte_bit_def bit_iff_odd)
  qed
  have "(of_char a :: nat) = of_char b"
  proof (rule bit_eqI)
    fix j
    show "bit (of_char a :: nat) j = bit (of_char b :: nat) j"
      using assms [of j] small [of j a] small [of j b]
      by (cases "j < 8") (simp_all add: byte_bit_def)
  qed
  then show ?thesis by simp
qed

lemma byte_states_inj [simp]: "byte_states a = byte_states b \<longleftrightarrow> a = b"
  by (auto simp: byte_states_def list_eq_iff_nth_eq intro!: of_char_bits_eqI)

lemma concat_byte_states_inj:
  "concat (map byte_states s) = concat (map byte_states t) \<longleftrightarrow> s = t"
proof
  have len: "length (concat (map byte_states s)) = 8 * length s" for s
    by (induction s) simp_all
  assume eq: "concat (map byte_states s) = concat (map byte_states t)"
  then have "length s = length t"
    using len [of s] len [of t] by simp
  then show "s = t" using eq
    by (induction s t rule: list_induct2) auto
qed simp

lemma const_equal_iff_to_bits: "const_equal c d \<longleftrightarrow> to_bits c = to_bits d"
proof (cases "is_str c \<and> is_str d")
  case True
  then obtain s t where "backing c = Str s" "backing d = Str t"
    by (auto simp: is_str_def split: backing.splits)
  then show ?thesis
    by (simp add: const_equal_def to_bits_Str concat_byte_states_inj)
next
  case False
  have gen: "(const_size c = const_size d \<and>
      list_all (\<lambda>i. const_at c i = const_at d i) [0..<const_size c]) \<longleftrightarrow> to_bits c = to_bits d"
    by (auto simp: list_eq_iff_nth_eq list_all_iff const_at_to_bits)
  show ?thesis
    using False gen
    by (auto simp: const_equal_def is_str_def to_bits_Bits split: backing.splits)
qed

section \<open>Numbers as constants and constants as numbers\<close>

lemma push_bits_eq: "push_bits n val bv = bv @ map bool_state (int_bits n (sint val))"
proof (induction n arbitrary: val bv)
  case 0
  then show ?case by (simp add: int_bits_def)
next
  case (Suc n)
  have "(val AND 1 \<noteq> 0) = bit (sint val) 0"
    by (simp add: bit_sint_iff and_one_eq) (simp add: bit_iff_odd odd_iff_mod_2_eq_one)
  then show ?case
    by (simp add: Suc int_bits_Suc sint_signed_drop_bit_eq bool_state_def)
qed

lemma byte_bit_low_byte: "j < 8 \<Longrightarrow> byte_bit (low_byte val) j = bit (sint val) j"
  using bit_take_bit_iff [of 8 "unat val" j]
  by (simp add: byte_bit_def low_byte_def take_bit_eq_mod bit_unsigned_iff bit_sint_iff)

lemma length_store_bytes [simp]: "length (store_bytes n val i str) = length str"
  by (induction n val i str rule: store_bytes.induct) simp_all

lemma nth_store_bytes:
  "i + n \<le> length str \<Longrightarrow> p < length str \<Longrightarrow>
   store_bytes n val i str ! (length str - 1 - p) =
     (if i \<le> p \<and> p < i + n then low_byte (signed_drop_bit (8 * (p - i)) val)
      else str ! (length str - 1 - p))"
proof (induction n val i str rule: store_bytes.induct)
  case (2 n val i str)
  have eq: "length str - 1 - i = length str - 1 - p \<longleftrightarrow> i = p"
    using "2.prems" by auto
  have sh: "8 * (p - Suc i) + 8 = 8 * (p - i)" if "Suc i \<le> p"
    using that by auto
  show ?case using "2.IH" "2.prems" sh eq by (auto simp: nth_list_update)
qed auto

lemma const_of_ll_width_to_bits:
  "rmap to_bits (const_of_ll_width val width) =
     (if width < 0 then Inl LengthError
      else Inr (map bool_state (int_bits (nat width) (sint val))))"
proof (cases "width < 0 \<or> width AND 7 \<noteq> 0")
  case True
  then show ?thesis
    by (auto simp: const_of_ll_width_def push_bits_eq)
next
  case False
  define n where "n = nat (width div 8)"
  have "width mod 8 = 0"
    using False take_bit_eq_mask [of 3 width] by (simp add: mask_eq_exp_minus_1 take_bit_eq_mod)
  then obtain k where "width = 8 * k" by (auto simp: mod_eq_0_iff_dvd elim: dvdE)
  then have w: "nat width = 8 * n" by (simp add: n_def)
  define sb where "sb = (if val <s 0 then char_of (255 :: nat) else char_of (0 :: nat))"
  define s where "s = store_bytes (min n 8) val 0 (replicate n sb)"
  have len: "length s = n" by (simp add: s_def)
  have sb: "byte_bit sb j = bit (sint val) i" if "j < 8" "64 \<le> i" for i j
  proof -
    have "bit (255 :: nat) j" using that bit_mask_iff [of 8 j, where ?'a = nat]
      by (simp add: mask_eq_exp_minus_1)
    moreover have "bit (sint val) i \<longleftrightarrow> val <s 0"
      using that bit_last_iff [of val] bit_imp_le_length [of val i]
      by (auto simp: bit_sint_iff word_sless_alt)
    ultimately show ?thesis
      by (simp add: byte_bit_def sb_def)
  qed
  have "byte_bit (s ! (n - i div 8 - 1)) (i mod 8) = bit (sint val) i" if "i < 8 * n" for i
  proof -
    have "i div 8 < n" using that by (simp add: div_less_iff_less_mult)
    then have "s ! (n - i div 8 - 1) = (if i div 8 < 8 then low_byte (signed_drop_bit (8 * (i div 8)) val) else sb)"
      using nth_store_bytes [of 0 "min n 8" "replicate n sb" "i div 8" val]
      by (simp add: s_def)
    moreover have "bit (sint (signed_drop_bit (8 * (i div 8)) val)) (i mod 8) = bit (sint val) i"
      by (simp add: sint_signed_drop_bit_eq bit_drop_bit_eq)
    ultimately show ?thesis
      using sb [of "i mod 8" i] by (simp add: byte_bit_low_byte)
  qed
  then have "concat (map byte_states (rev s)) = map bool_state (int_bits (8 * n) (sint val))"
    unfolding str_bits_concat [symmetric] by (intro nth_equalityI) (simp_all add: len)
  then show ?thesis
    using False w by (simp add: const_of_ll_width_def Let_def to_bits_Str n_def [symmetric] sb_def [symmetric] s_def [symmetric])
qed

lemma const_of_ll_to_bits: "to_bits (const_of_ll val) = map bool_state (int_bits 32 (sint val))"
proof -
  have "const_of_ll_width val 32 = Inr (const_of_ll val)"
    by (simp add: const_of_ll_width_def const_of_ll_def Let_def numeral_eq_Suc)
  then show ?thesis using const_of_ll_width_to_bits [of val 32] by simp
qed

definition ubits :: "Const \<Rightarrow> bool list" where
  "ubits c = map (\<lambda>b. b = S1) (to_bits c)"

lemma length_ubits [simp]: "length (ubits c) = const_size c"
  by (simp add: ubits_def)

lemma bit_fold_bits:
  "bit (foldl (\<lambda>ret i. if bv ! i = S1 then ret OR push_bit i 1 else ret) (0 :: 32 word) [0..<n]) j
     \<longleftrightarrow> j < n \<and> j < 32 \<and> bv ! j = S1"
  by (induction n) (auto simp: bit_simps less_Suc_eq)

lemma not_byte_bit: "8 \<le> j \<Longrightarrow> \<not> byte_bit ch j"
  using not_bit_small [of "int (of_char ch)" 8 j] nat_of_char_less_256 [of ch]
  by (simp add: byte_bit_def bit_of_nat_iff_bit)

lemma bit_byte_word: "bit (byte_word ch) j = byte_bit ch j"
proof -
  have "bit (of_char ch :: int) j = byte_bit ch j"
    using bit_of_nat_iff_bit [of "of_char ch" j, where ?'a = int]
    by (simp add: byte_bit_def of_nat_of_char)
  then show ?thesis
    using not_byte_bit [of j ch]
    by (cases "j < 8") (auto simp: byte_word_def bit_word_of_int_iff)
qed

lemma bit_fold_bytes:
  assumes "n \<le> length s" "n \<le> 4"
  shows "bit (foldl (\<lambda>ret i. ret OR push_bit ((i - 1) * 8) (byte_word (s ! (length s - i)))) (0 :: 32 word)
          (rev [1..<Suc n])) j
     \<longleftrightarrow> j < 8 * n \<and> byte_bit (s ! (length s - 1 - j div 8)) (j mod 8)"
proof -
  have "bit (push_bit ((i - 1) * 8) (byte_word (s ! (length s - i)))) j \<longleftrightarrow>
      i - 1 = j div 8 \<and> byte_bit (s ! (length s - 1 - j div 8)) (j mod 8)"
    if "1 \<le> i" "i \<le> n" for i
  proof (cases "i - 1 = j div 8")
    case True
    then have "length s - i = length s - 1 - j div 8" "j - (i - 1) * 8 = j mod 8" "j < 32"
      using that assms by (auto simp: modulo_nat_def)
    with True show ?thesis by (simp add: bit_push_bit_iff bit_byte_word)
  next
    case False
    then have "j < (i - 1) * 8 \<or> 8 \<le> j - (i - 1) * 8" by auto
    then show ?thesis using False not_byte_bit by (auto simp: bit_push_bit_iff bit_byte_word)
  qed
  then have "(\<exists>i \<in> {1..<Suc n}. bit (push_bit ((i - 1) * 8) (byte_word (s ! (length s - i)))) j) \<longleftrightarrow>
      (\<exists>i \<in> {1..<Suc n}. i - 1 = j div 8 \<and> byte_bit (s ! (length s - 1 - j div 8)) (j mod 8))"
    by (intro bex_cong) auto
  also have "\<dots> \<longleftrightarrow> (\<exists>i \<in> {1..<Suc n}. i - 1 = j div 8) \<and>
      byte_bit (s ! (length s - 1 - j div 8)) (j mod 8)"
    by blast
  also have "(\<exists>i \<in> {1..<Suc n}. i - 1 = j div 8) \<longleftrightarrow> j < 8 * n"
    by (auto intro!: bexI [of _ "Suc (j div 8)"])
  finally show ?thesis unfolding bit_foldl_or set_rev set_upt by simp
qed

lemma ubits_Str: "backing c = Str s \<Longrightarrow> i < 8 * length s \<Longrightarrow>
    ubits c ! i = byte_bit (s ! (length s - 1 - i div 8)) (i mod 8)"
  by (simp add: ubits_def to_bits_def const_size_def const_at_def Let_def)

lemma last_ubits_Str: "backing c = Str s \<Longrightarrow> s \<noteq> [] \<Longrightarrow> last (ubits c) = byte_bit (s ! 0) 7"
  using ubits_Str [of c s "8 * length s - 1"]
  by (cases s) (auto simp: last_conv_nth const_size_def simp flip: length_0_conv)

lemma as_int_word_Str:
  assumes "backing c = Str s"
  shows "as_int_word c is_signed = word_of_int (if is_signed then sval (ubits c) else uval (ubits c))"
proof (rule bit_word_eqI)
  fix j
  assume "j < LENGTH(32)"
  then have j: "j < 32" by simp
  have sz: "const_size c = 8 * length s" using assms by (simp add: const_size_def)
  then have nil: "ubits c = [] \<longleftrightarrow> s = []" by (simp flip: length_0_conv)
  have "bit (as_int_word c is_signed) j \<longleftrightarrow>
     (j < 8 * min 4 (length s) \<and> byte_bit (s ! (length s - 1 - j div 8)) (j mod 8)) \<or>
     (is_signed \<and> 0 < length s \<and> length s < 4 \<and> byte_bit (s ! 0) 7 \<and> 8 * length s \<le> j)"
    using j assms bit_fold_bytes [of "min 4 (length s)" s j]
    by (auto simp: as_int_word_def Let_def bit_simps simp del: upt_Suc)
  also have "\<dots> = bit (if is_signed then sval (ubits c) else uval (ubits c)) j"
    using j sz nil ubits_Str [OF assms, of j] last_ubits_Str [OF assms]
    by (auto simp: bit_sval bit_uval)
  finally show "bit (as_int_word c is_signed) j =
      bit (word_of_int (if is_signed then sval (ubits c) else uval (ubits c)) :: 32 word) j"
    using j by (simp add: bit_word_of_int_iff)
qed

lemma as_int_word_Bits:
  assumes "backing c = Bits bv"
  shows "as_int_word c is_signed = word_of_int (if is_signed then sval (ubits c) else uval (ubits c))"
proof (rule bit_word_eqI)
  fix j
  assume "j < LENGTH(32)"
  then have j: "j < 32" by simp
  have u: "ubits c = map (\<lambda>b. b = S1) bv" using assms by (simp add: ubits_def to_bits_Bits)
  have "bit (as_int_word c is_signed) j \<longleftrightarrow>
     (j < length bv \<and> bv ! j = S1) \<or>
     (is_signed \<and> 0 < length bv \<and> length bv < 32 \<and> last bv = S1 \<and> length bv \<le> j)"
    using j assms bit_fold_bits [of bv "min (length bv) 32" j]
    by (auto simp: as_int_word_def Let_def bit_simps simp del: upt_Suc)
  also have "\<dots> = bit (if is_signed then sval (ubits c) else uval (ubits c)) j"
    using j by (auto simp: bit_sval bit_uval u last_map)
  finally show "bit (as_int_word c is_signed) j =
      bit (word_of_int (if is_signed then sval (ubits c) else uval (ubits c)) :: 32 word) j"
    using j by (simp add: bit_word_of_int_iff)
qed
lemma as_int_eq:
  "as_int c is_signed = signed_take_bit 31 (if is_signed then sval (ubits c) else uval (ubits c))"
  using as_int_word_Str [of c] as_int_word_Bits [of c]
  by (cases "backing c") (simp_all add: as_int_def signed_of_int)

subsection \<open>The least number of bits that holds the value\<close>

lemma is_fully_def_iff: "is_fully_def c \<longleftrightarrow> list_all is_def (to_bits c)"
proof (cases "backing c")
  case (Bits bv)
  then show ?thesis by (simp add: is_fully_def_def to_bits_Bits is_def_def [abs_def])
next
  case (Str s)
  then show ?thesis
    by (auto simp: is_fully_def_def to_bits_Str byte_states_def list_all_iff)
qed

lemma to_bits_def_states: "is_fully_def c \<Longrightarrow> to_bits c = map bool_state (ubits c)"
  by (auto simp: is_fully_def_iff ubits_def list_all_length is_def_bool_state intro!: nth_equalityI)

lemma const_at_def_states:
  "is_fully_def c \<Longrightarrow> i < const_size c \<Longrightarrow> const_at c i = bool_state (ubits c ! i)"
  by (simp add: const_at_to_bits to_bits_def_states)

lemma min_size_loop_le: "min_size_loop c b n \<le> n"
  by (induction n) auto

lemma min_size_loop_above: "min_size_loop c b n \<le> i \<Longrightarrow> i < n \<Longrightarrow> const_at c i = b"
  by (induction n) (auto simp: less_Suc_eq split: if_splits)

lemma min_size_loop_below: "min_size_loop c b n = Suc k \<Longrightarrow> const_at c k \<noteq> b"
  by (induction n) (auto split: if_splits)

lemma signed_min_size:
  assumes "is_fully_def c" "\<not> const_empty c"
  shows "get_min_size c True \<le> n + 1 \<longleftrightarrow> signed_take_bit n (sval (ubits c)) = sval (ubits c)"
proof -
  define b where "b = last (ubits c)"
  define idx where "idx = min_size_loop c (bool_state b) (const_size c)"
  have ne: "ubits c \<noteq> []" "to_bits c \<noteq> []"
    using assms by (auto simp: const_empty_to_bits ubits_def)
  then obtain k where k: "const_size c = Suc k"
    by (cases "const_size c") (auto simp flip: length_ubits)
  have bk: "const_back c = bool_state b"
    using ne assms(1) by (simp add: const_back_to_bits to_bits_def_states last_map b_def)
  then have "idx = min_size_loop c (bool_state b) k"
    by (simp add: idx_def k const_back_def)
  then have idx: "idx < const_size c"
    using min_size_loop_le [of c "bool_state b" k] k by simp
  have m: "get_min_size c True = idx + 1"
    using assms(2) bk idx by (cases b) (simp_all add: get_min_size_def idx_def Let_def)
  have bits: "bit (sval (ubits c)) j = (if j < const_size c then ubits c ! j else b)" for j
    using ne by (simp add: bit_sval b_def)
  have above: "bit (sval (ubits c)) j = b" if "idx \<le> j" for j
    using min_size_loop_above [of c "bool_state b" "const_size c" j] that
    by (auto simp: bits idx_def const_at_def_states [OF assms(1)])
  show ?thesis
  proof
    assume "get_min_size c True \<le> n + 1"
    then show "signed_take_bit n (sval (ubits c)) = sval (ubits c)"
      using m above by (intro bit_eqI) (auto simp: bit_signed_take_bit_iff min_def)
  next
    assume *: "signed_take_bit n (sval (ubits c)) = sval (ubits c)"
    then have same: "bit (sval (ubits c)) j = bit (sval (ubits c)) n" if "n \<le> j" for j
      using that bit_signed_take_bit_iff [of n "sval (ubits c)" j]
      by (simp add: min_def)
    have "idx \<le> n"
    proof (rule ccontr)
      assume "\<not> idx \<le> n"
      then obtain i where i: "idx = Suc i" "n \<le> i" by (cases idx) auto
      then have "const_at c i \<noteq> bool_state b"
        using min_size_loop_below [of c "bool_state b" "const_size c" i] by (simp add: idx_def)
      then have "bit (sval (ubits c)) i \<noteq> b"
        using i idx by (simp add: bits const_at_def_states [OF assms(1)])
      then show False using same [of i] same [of idx] above [of idx] i by simp
    qed
    then show "get_min_size c True \<le> n + 1" using m by simp
  qed
qed

lemma unsigned_min_size:
  assumes "is_fully_def c" "\<not> const_empty c" "0 < n"
  shows "get_min_size c False \<le> n \<longleftrightarrow> uval (ubits c) < 2 ^ n"
proof -
  define idx where "idx = min_size_loop c S0 (const_size c)"
  have m: "get_min_size c False = max idx 1"
    using assms(2) by (simp add: get_min_size_def idx_def Let_def)
  have bits: "bit (uval (ubits c)) j \<longleftrightarrow> j < const_size c \<and> const_at c j \<noteq> S0" for j
    by (auto simp: bit_uval const_at_def_states [OF assms(1)])
  have "idx \<le> n \<longleftrightarrow> take_bit n (uval (ubits c)) = uval (ubits c)"
  proof
    assume "idx \<le> n"
    then have "\<not> bit (uval (ubits c)) j" if "n \<le> j" for j
      using min_size_loop_above [of c S0 "const_size c" j] that by (auto simp: bits idx_def)
    then show "take_bit n (uval (ubits c)) = uval (ubits c)"
      by (intro bit_eqI) (auto simp: bit_take_bit_iff not_le [symmetric])
  next
    assume *: "take_bit n (uval (ubits c)) = uval (ubits c)"
    show "idx \<le> n"
    proof (rule ccontr)
      assume "\<not> idx \<le> n"
      then obtain i where i: "idx = Suc i" "n \<le> i" by (cases idx) auto
      then have "bit (uval (ubits c)) i"
        using min_size_loop_below [of c S0 "const_size c" i] min_size_loop_le [of c S0 "const_size c"]
        by (simp add: bits idx_def)
      moreover have "\<not> bit (take_bit n (uval (ubits c))) i" using i by (simp add: bit_take_bit_iff)
      ultimately show False using * by simp
    qed
  qed
  also have "\<dots> \<longleftrightarrow> uval (ubits c) < 2 ^ n"
    by (simp add: take_bit_int_eq_self_iff)
  finally show ?thesis using m assms(3) by simp
qed

text \<open>On a fully defined constant the checked signed conversion returns the value exactly when it fits
  into an \<open>int\<close>, and nothing otherwise, for every width.\<close>

lemma try_as_int_signed:
  assumes "is_fully_def c"
  shows "try_as_int c True =
    (if - (2 ^ 31) \<le> sval (ubits c) \<and> sval (ubits c) < 2 ^ 31 then Some (sval (ubits c)) else None)"
proof (cases "const_empty c")
  case True
  then have "ubits c = []" by (simp add: const_empty_to_bits ubits_def)
  with True show ?thesis
    by (simp add: try_as_int_def convertible_to_int_def get_min_size_def as_int_eq sval_def)
next
  case False
  have "convertible_to_int c True \<longleftrightarrow> get_min_size c True \<le> 31 + 1"
    by (auto simp: convertible_to_int_def Let_def)
  then have "convertible_to_int c True \<longleftrightarrow> signed_take_bit 31 (sval (ubits c)) = sval (ubits c)"
    using signed_min_size [OF assms False, of 31] by simp
  then show ?thesis
    by (auto simp: try_as_int_def as_int_eq signed_take_bit_int_eq_self_iff)
qed

text \<open>C40: The unsigned check of a fully defined constant accepts the values below \<open>2 ^ 31\<close>, and also those
  below \<open>2 ^ 32\<close> unless the constant is exactly 32 bits wide: it looks at the last bit of the
  constant where it means bit 31.\<close>

theorem convertible_unsigned:
  assumes "is_fully_def c"
  shows "convertible_to_int c False \<longleftrightarrow>
    uval (ubits c) < 2 ^ 31 \<or> (uval (ubits c) < 2 ^ 32 \<and> const_size c \<noteq> 32)"
proof (cases "const_empty c")
  case True
  then have "ubits c = []" by (simp add: const_empty_to_bits ubits_def)
  with True show ?thesis
    by (simp add: convertible_to_int_def get_min_size_def)
next
  case False
  let ?m = "get_min_size c False"
  have le31: "?m \<le> 31 \<longleftrightarrow> uval (ubits c) < 2 ^ 31" and le32: "?m \<le> 32 \<longleftrightarrow> uval (ubits c) < 2 ^ 32"
    using unsigned_min_size [OF assms False, of 31] unsigned_min_size [OF assms False, of 32] by simp_all
  have "const_back c \<noteq> S1 \<longleftrightarrow> const_size c \<noteq> 32" if m: "?m = 32"
  proof -
    have idx: "min_size_loop c S0 (const_size c) = Suc 31"
      using m False by (simp add: get_min_size_def Let_def split: if_splits)
    show ?thesis
    proof (cases "const_size c = 32")
      case True
      have "const_at c 31 \<noteq> S0" using min_size_loop_below [OF idx] .
      then show ?thesis
        using True const_at_def_states [OF assms, of 31] by (simp add: const_back_def bool_state_def split: if_splits)
    next
      case False
      then have "const_back c = S0"
        using min_size_loop_above [of c S0 "const_size c" "const_size c - 1"]
          min_size_loop_le [of c S0 "const_size c"] idx by (simp add: const_back_def)
      with False show ?thesis by simp
    qed
  qed
  then show ?thesis
    using le31 le32 by (auto simp: convertible_to_int_def Let_def)
qed

theorem convertible_unsigned_witness:
  "convertible_to_int (const_of_bits (replicate 31 S0 @ [S1, S0])) False \<and>
   as_int (const_of_bits (replicate 31 S0 @ [S1, S0])) False = - (2 ^ 31)"
proof -
  let ?c = "const_of_bits (replicate 31 S0 @ [S1, S0])"
  have "uval (ubits ?c) = 2 ^ 31" by (simp add: ubits_def numeral_eq_Suc)
  moreover have "const_size ?c = 33" "is_fully_def ?c"
    by (simp_all add: const_size_def const_of_bits_def is_fully_def_def list_all_iff)
  ultimately show ?thesis
    using convertible_unsigned [of ?c] by (simp add: as_int_eq signed_take_bit_eq_if_negative take_bit_eq_mod bit_iff_odd mask_eq_exp_minus_1)
qed

section \<open>Strings\<close>

lemma as_string_chars:
  "as_string c ''-'' = map (\<lambda>s. hd (state_chars ''-'' s)) (rev (to_bits c))"
proof -
  have one: "state_chars ''-'' s = [hd (state_chars ''-'' s)]" for s by (cases s) simp_all
  have "concat (map (\<lambda>s. state_chars ''-'' s) xs) = map (\<lambda>s. hd (state_chars ''-'' s)) xs" for xs
    by (induction xs) (simp, subst one, simp)
  from this [of "rev (to_bits c)"] show ?thesis
    by (simp add: as_string_def to_bits_def rev_map o_def)
qed

text \<open>Printing the bits of a constant and parsing the text back gives the same bits, for all six states.\<close>

lemma from_as_string: "to_bits (from_string (as_string c ''-'')) = to_bits c"
proof -
  have "char_state (hd (state_chars ''-'' s)) = s" for s
    by (cases s) (simp_all add: char_state_def)
  then show ?thesis by (simp add: from_string_def as_string_chars rev_map o_def)
qed

lemma bit_pack: "bit (foldl (\<lambda>ch j. if bs ! j = S1 then ch OR push_bit j 1 else ch) (0 :: nat) [0..<n]) i
    \<longleftrightarrow> i < n \<and> bs ! i = S1"
  by (induction n) (auto simp: bit_simps less_Suc_eq)

lemma pack_byte_states: "pack_byte (byte_states ch) = ch"
proof (rule of_char_bits_eqI)
  fix j :: nat
  assume "j < 8"
  then show "byte_bit (pack_byte (byte_states ch)) j = byte_bit ch j"
    using bit_pack [of "byte_states ch" 8 j] bit_take_bit_iff [of 8 _ j, where ?'a = nat]
    by (simp add: pack_byte_def byte_bit_def byte_states_def take_bit_eq_mod del: upt_Suc)
qed

lemma decode_loop_eq:
  "decode_loop bv k s = s @ filter (\<lambda>ch. ch \<noteq> char_of (0 :: nat))
     (map (\<lambda>i. pack_byte (take 8 (drop (i * 8) bv))) (rev [0..<k]))"
  by (induction k arbitrary: s) (simp_all add: append_nonzero_def)

lemma chunk_concat_bytes:
  "i < length s \<Longrightarrow> take 8 (drop (i * 8) (concat (map byte_states s))) = byte_states (s ! i)"
proof (induction s arbitrary: i)
  case (Cons ch s)
  then show ?case by (cases i) (simp_all add: add.commute [of 8] drop_append [of "_ + 8"])
qed simp

text \<open>A string stored as bits decodes to the string without its NUL characters, although the two
  representations compare equal.\<close>

lemma decode_string_bits:
  "decode_string (bitvectorize_internal (const_of_string s)) = filter (\<lambda>ch. ch \<noteq> char_of (0 :: nat)) s"
proof -
  let ?bv = "concat (map byte_states (rev s))"
  have len: "length ?bv = length s * 8"
    by (induction s) simp_all
  have "map (\<lambda>i. pack_byte (take 8 (drop (i * 8) ?bv))) (rev [0..<length s]) =
      map (\<lambda>i. rev s ! i) (rev [0..<length s])"
    by (intro map_cong) (auto simp: chunk_concat_bytes pack_byte_states)
  also have "\<dots> = s"
    by (simp add: rev_map [symmetric] map_nth [of "rev s", simplified])
  finally show ?thesis
    by (simp add: decode_string_def bitvectorize_internal_def const_of_string_def Let_def len decode_loop_eq)
qed

section \<open>The interface of a constant\<close>

text \<open>
  What clients of the class rely on: the bits a constant stands for determine what every
  accessor returns and what every mutator produces, so code written against the interface
  cannot tell the two representations apart.
\<close>

locale bit_container =
  fixes bits :: "'c \<Rightarrow> State list"
    and sz :: "'c \<Rightarrow> nat"
    and get :: "'c \<Rightarrow> nat \<Rightarrow> State"
    and upd :: "'c \<Rightarrow> nat \<Rightarrow> State \<Rightarrow> 'c result"
    and rsz :: "'c \<Rightarrow> int \<Rightarrow> State \<Rightarrow> 'c result"
    and app :: "'c \<Rightarrow> 'c \<Rightarrow> 'c"
    and eqv :: "'c \<Rightarrow> 'c \<Rightarrow> bool"
  assumes sz: "sz c = length (bits c)"
    and get: "i < sz c \<Longrightarrow> get c i = bits c ! i"
    and upd: "rmap bits (upd c i s) =
      (if i < sz c then Inr ((bits c)[i := s]) else Inl OutOfRange)"
    and rsz: "rmap bits (rsz c n s) = resize_bits (bits c) n s"
    and app: "bits (app c d) = bits c @ bits d"
    and eqv: "eqv c d \<longleftrightarrow> bits c = bits d"
begin

lemma upd_get:
  assumes "upd c i s = Inr d"
  shows "sz d = sz c \<and> (\<forall>j < sz c. get d j = (if j = i then s else get c j))"
proof -
  have "bits d = (bits c)[i := s]"
    using assms upd [of c i s] by (simp split: if_splits)
  then show ?thesis by (auto simp: sz get nth_list_update)
qed

lemma rsz_get:
  assumes "rsz c n s = Inr d"
  shows "sz d = nat n \<and> (\<forall>j < nat n. get d j = (if j < sz c then get c j else s))"
proof -
  have "bits d = take (nat n) (bits c) @ replicate (nat n - length (bits c)) s"
    using assms rsz [of c n s] by (simp add: resize_bits_def split: if_splits)
  then show ?thesis by (auto simp: sz get nth_append)
qed

lemma eqv_cong:
  assumes "eqv c d" "eqv c' d'"
  shows "sz c = sz d" "rmap bits (upd c i s) = rmap bits (upd d i s)"
    "rmap bits (rsz c n s) = rmap bits (rsz d n s)" "eqv (app c c') (app d d')"
  using assms by (simp_all add: eqv upd rsz app sz)

lemma eqv_equivp: "equivp eqv"
  by (auto intro!: equivpI reflpI sympI transpI simp: eqv)

end

interpretation cst: bit_container to_bits const_size const_at const_set const_resize const_append
    const_equal
  by unfold_locales
    (simp_all add: const_at_to_bits const_set_to_bits const_resize_to_bits const_append_to_bits
      const_equal_iff_to_bits)

section \<open>Guarantees\<close>

lemma sval_int_bits: "0 < n \<Longrightarrow> sval (int_bits n v) = signed_take_bit (n - 1) v"
proof (rule bit_eqI)
  fix i assume "0 < n"
  then obtain m where m: "n = Suc m" by (cases n) auto
  have "last (int_bits n v) = bit v m" "int_bits n v \<noteq> []"
    unfolding m by (simp_all add: int_bits_def)
  then show "bit (sval (int_bits n v)) i = bit (signed_take_bit (n - 1) v) i"
    by (auto simp: bit_sval bit_signed_take_bit_iff min_def m less_Suc_eq)
qed



text \<open>A constant made from a number with a width of up to 32 bits reads back, as a signed number, as
  that number reduced to the width.\<close>

lemma const_int_roundtrip:
  assumes "1 \<le> w" "w \<le> 32" "const_of_ll_width val w = Inr c"
  shows "as_int c True = signed_take_bit (nat w - 1) (sint val)"
proof -
  have "to_bits c = map bool_state (int_bits (nat w) (sint val))"
    using const_of_ll_width_to_bits [of val w] assms by simp
  then have "ubits c = int_bits (nat w) (sint val)"
    by (simp add: ubits_def o_def)
  then have "as_int c True = signed_take_bit 31 (signed_take_bit (nat w - 1) (sint val))"
    using sval_int_bits [of "nat w"] assms(1) by (simp add: as_int_eq)
  also have "\<dots> = signed_take_bit (nat w - 1) (sint val)"
    using assms(2) by (simp add: signed_take_bit_signed_take_bit min_absorb2)
  finally show ?thesis .
qed

end
