(* ===== verification/Calc.thy ===== *)
theory Calc
  imports Rtlil_Const "HOL-Library.Signed_Division"
begin

text \<open>
  Constant evaluation of the word-level operators: \<open>kernel/calc.cc\<close>. Each \<open>const_\<dots>\<close> function
  works on the bits of its arguments (least significant first); that this is all they see of a
  constant is the interface proved in \<open>Rtlil_Const\<close>. A result length below zero asks for the
  default length. \<open>BigInteger\<close> and \<open>BigUnsigned\<close> are unbounded integers and naturals.
\<close>

type_synonym bits = "State list"

section \<open>Extension and conversion to big integers\<close>

definition extend_bits :: "bits \<Rightarrow> nat \<Rightarrow> bool \<Rightarrow> bits" where
  "extend_bits arg width is_signed =
     (let padding = (if arg \<noteq> [] \<and> is_signed then last arg else S0)
      in take width arg @ replicate (width - length arg) padding)"

definition extend_u0 :: "bits \<Rightarrow> int \<Rightarrow> bool \<Rightarrow> bits result" where
  "extend_u0 arg width is_signed =
     (let padding = (if arg \<noteq> [] \<and> is_signed then last arg else S0)
      in resize_bits arg width padding)"

fun const2big_loop :: "State \<Rightarrow> bits \<Rightarrow> nat \<Rightarrow> nat \<Rightarrow> int \<Rightarrow> nat \<times> int" where
  "const2big_loop inv_sign_bit [] i mag undef_bit_pos = (mag, undef_bit_pos)"
| "const2big_loop inv_sign_bit (b # bs) i mag undef_bit_pos =
     (if b = S0 \<or> b = S1
      then const2big_loop inv_sign_bit bs (Suc i)
             (if b = inv_sign_bit then set_bit i mag else unset_bit i mag) undef_bit_pos
      else const2big_loop inv_sign_bit bs (Suc i) mag
             (if undef_bit_pos < 0 then int i else undef_bit_pos))"

definition const2big :: "bits \<Rightarrow> bool \<Rightarrow> int \<Rightarrow> int \<times> int" where
  "const2big val as_signed undef_bit_pos =
     (if as_signed \<and> val \<noteq> [] \<and> val ! (length val - 1) = S1
      then (case const2big_loop S0 (take (length val - 1) val) 0 0 undef_bit_pos of
              (mag, u) \<Rightarrow> (- int (mag + 1), u))
      else (case const2big_loop S1 val 0 0 undef_bit_pos of (mag, u) \<Rightarrow> (int mag, u)))"

definition big2const :: "int \<Rightarrow> nat \<Rightarrow> int \<Rightarrow> bits" where
  "big2const val result_len undef_bit_pos =
     (if undef_bit_pos \<ge> 0 then replicate result_len Sx
      else let mag = nat \<bar>val\<bar>
           in if mag \<noteq> 0 then
                (if val < 0
                 then map (\<lambda>i. if bit (mag - 1) i then S0 else S1) [0..<result_len]
                 else map (\<lambda>i. if bit mag i then S1 else S0) [0..<result_len])
              else replicate result_len S0)"

text \<open>Two conversions in a row share the position of the first undefined bit.\<close>

definition const2big2 :: "bits \<Rightarrow> bits \<Rightarrow> bool \<Rightarrow> bool \<Rightarrow> int \<times> int \<times> int" where
  "const2big2 arg1 arg2 signed1 signed2 =
     (case const2big arg1 signed1 (-1) of (a, u) \<Rightarrow>
      case const2big arg2 signed2 u of (b, u') \<Rightarrow> (a, b, u'))"

definition out_len :: "int \<Rightarrow> bits \<Rightarrow> bits \<Rightarrow> nat" where
  "out_len result_len arg1 arg2 =
     nat (if result_len \<ge> 0 then result_len else max (int (length arg1)) (int (length arg2)))"

text \<open>\<open>RTLIL::Const(State, int)\<close> on bits; the constructor throws on a negative width.\<close>

definition fill_bits :: "State \<Rightarrow> int \<Rightarrow> bits result" where
  "fill_bits b width = (if width < 0 then Inl LengthError else Inr (replicate (nat width) b))"

text \<open>A one-bit result that is padded with zeros up to the result length.\<close>

definition pad_result :: "State \<Rightarrow> int \<Rightarrow> bits" where
  "pad_result b result_len =
     (if 1 < result_len then b # replicate (nat result_len - 1) S0 else [b])"

section \<open>Bitwise and reduction operators\<close>

definition logic_and :: "State \<Rightarrow> State \<Rightarrow> State" where
  "logic_and a b =
     (if a = S0 then S0 else if b = S0 then S0
      else if a \<noteq> S1 then Sx else if b \<noteq> S1 then Sx else S1)"

definition logic_or :: "State \<Rightarrow> State \<Rightarrow> State" where
  "logic_or a b =
     (if a = S1 then S1 else if b = S1 then S1
      else if a \<noteq> S0 then Sx else if b \<noteq> S0 then Sx else S0)"

definition logic_xor :: "State \<Rightarrow> State \<Rightarrow> State" where
  "logic_xor a b =
     (if a \<noteq> S0 \<and> a \<noteq> S1 then Sx else if b \<noteq> S0 \<and> b \<noteq> S1 then Sx
      else if a \<noteq> b then S1 else S0)"

definition logic_xnor :: "State \<Rightarrow> State \<Rightarrow> State" where
  "logic_xnor a b =
     (if a \<noteq> S0 \<and> a \<noteq> S1 then Sx else if b \<noteq> S0 \<and> b \<noteq> S1 then Sx
      else if a = b then S1 else S0)"

definition const_not :: "bits \<Rightarrow> bool \<Rightarrow> int \<Rightarrow> bits" where
  "const_not arg1 signed1 result_len =
     (let n = (if result_len < 0 then length arg1 else nat result_len);
          arg1_ext = extend_bits arg1 n signed1
      in map (\<lambda>i. if i \<ge> length arg1_ext then S0
                  else if arg1_ext ! i = S0 then S1
                  else if arg1_ext ! i = S1 then S0 else Sx) [0..<n])"

definition logic_wrapper ::
    "(State \<Rightarrow> State \<Rightarrow> State) \<Rightarrow> bits \<Rightarrow> bits \<Rightarrow> bool \<Rightarrow> bool \<Rightarrow> int \<Rightarrow> bits" where
  "logic_wrapper logic_func arg1 arg2 signed1 signed2 result_len =
     (let n = out_len result_len arg1 arg2;
          arg1 = extend_bits arg1 n signed1;
          arg2 = extend_bits arg2 n signed2
      in map (\<lambda>i. logic_func (if i < length arg1 then arg1 ! i else S0)
                             (if i < length arg2 then arg2 ! i else S0)) [0..<n])"

definition const_and :: "bits \<Rightarrow> bits \<Rightarrow> bool \<Rightarrow> bool \<Rightarrow> int \<Rightarrow> bits" where
  "const_and arg1 arg2 signed1 signed2 result_len =
     logic_wrapper logic_and arg1 arg2 signed1 signed2 result_len"

definition const_or :: "bits \<Rightarrow> bits \<Rightarrow> bool \<Rightarrow> bool \<Rightarrow> int \<Rightarrow> bits" where
  "const_or arg1 arg2 signed1 signed2 result_len =
     logic_wrapper logic_or arg1 arg2 signed1 signed2 result_len"

definition const_xor :: "bits \<Rightarrow> bits \<Rightarrow> bool \<Rightarrow> bool \<Rightarrow> int \<Rightarrow> bits" where
  "const_xor arg1 arg2 signed1 signed2 result_len =
     logic_wrapper logic_xor arg1 arg2 signed1 signed2 result_len"

definition const_xnor :: "bits \<Rightarrow> bits \<Rightarrow> bool \<Rightarrow> bool \<Rightarrow> int \<Rightarrow> bits" where
  "const_xnor arg1 arg2 signed1 signed2 result_len =
     logic_wrapper logic_xnor arg1 arg2 signed1 signed2 result_len"

definition logic_reduce_wrapper :: "State \<Rightarrow> (State \<Rightarrow> State \<Rightarrow> State) \<Rightarrow> bits \<Rightarrow> int \<Rightarrow> bits" where
  "logic_reduce_wrapper initial logic_func arg1 result_len =
     pad_result (foldl logic_func initial arg1) result_len"

definition const_reduce_and :: "bits \<Rightarrow> int \<Rightarrow> bits" where
  "const_reduce_and arg1 result_len = logic_reduce_wrapper S1 logic_and arg1 result_len"

definition const_reduce_or :: "bits \<Rightarrow> int \<Rightarrow> bits" where
  "const_reduce_or arg1 result_len = logic_reduce_wrapper S0 logic_or arg1 result_len"

definition const_reduce_xor :: "bits \<Rightarrow> int \<Rightarrow> bits" where
  "const_reduce_xor arg1 result_len = logic_reduce_wrapper S0 logic_xor arg1 result_len"

definition flip_front :: "bits \<Rightarrow> bits" where
  "flip_front buf = (case buf of [] \<Rightarrow> []
     | b # bs \<Rightarrow> (if b = S0 then S1 else if b = S1 then S0 else b) # bs)"

definition const_reduce_xnor :: "bits \<Rightarrow> int \<Rightarrow> bits" where
  "const_reduce_xnor arg1 result_len =
     flip_front (logic_reduce_wrapper S0 logic_xor arg1 result_len)"

definition const_reduce_bool :: "bits \<Rightarrow> int \<Rightarrow> bits" where
  "const_reduce_bool arg1 result_len = logic_reduce_wrapper S0 logic_or arg1 result_len"

text \<open>The truth value of a number with possibly undefined bits.\<close>

definition truth_bit :: "int \<times> int \<Rightarrow> State" where
  "truth_bit p = (case p of (a, undef_bit_pos) \<Rightarrow>
     if a = 0 then (if undef_bit_pos \<ge> 0 then Sx else S0) else S1)"

definition const_logic_not :: "bits \<Rightarrow> bool \<Rightarrow> int \<Rightarrow> bits" where
  "const_logic_not arg1 signed1 result_len =
     (case const2big arg1 signed1 (-1) of (a, undef_bit_pos_a) \<Rightarrow>
        pad_result (if a = 0 then (if undef_bit_pos_a \<ge> 0 then Sx else S1) else S0) result_len)"

definition const_logic_and :: "bits \<Rightarrow> bits \<Rightarrow> bool \<Rightarrow> bool \<Rightarrow> int \<Rightarrow> bits" where
  "const_logic_and arg1 arg2 signed1 signed2 result_len =
     pad_result (logic_and (truth_bit (const2big arg1 signed1 (-1)))
                           (truth_bit (const2big arg2 signed2 (-1)))) result_len"

definition const_logic_or :: "bits \<Rightarrow> bits \<Rightarrow> bool \<Rightarrow> bool \<Rightarrow> int \<Rightarrow> bits" where
  "const_logic_or arg1 arg2 signed1 signed2 result_len =
     pad_result (logic_or (truth_bit (const2big arg1 signed1 (-1)))
                          (truth_bit (const2big arg2 signed2 (-1)))) result_len"

section \<open>Shifts\<close>

text \<open>
  \<open>direction\<close> is 1 for a right and -1 for a left shift. The fill with the leftmost bit reads
  \<open>arg1.back()\<close>, which does not exist when \<open>arg1\<close> is empty.
\<close>

definition const_shift_worker ::
    "bits \<Rightarrow> bits \<Rightarrow> bool \<Rightarrow> bool \<Rightarrow> int \<Rightarrow> int \<Rightarrow> State \<Rightarrow> bits result" where
  "const_shift_worker arg1 arg2 sign_ext signed2 direction result_len vacant_bits =
     (case const2big arg2 signed2 (-1) of (amount, undef_bit_pos) \<Rightarrow>
      let offset = amount * direction;
          n = (if result_len < 0 then length arg1 else nat result_len)
      in if undef_bit_pos \<ge> 0 then Inr (replicate n Sx)
         else if sign_ext \<and> arg1 = [] \<and> list_ex (\<lambda>i. 0 \<le> int i + offset) [0..<n]
         then Inl OutOfRange
         else Inr (map (\<lambda>i. let pos = int i + offset
                            in if pos < 0 then vacant_bits
                               else if pos \<ge> int (length arg1)
                               then (if sign_ext then last arg1 else vacant_bits)
                               else arg1 ! nat pos) [0..<n]))"

definition const_shl :: "bits \<Rightarrow> bits \<Rightarrow> bool \<Rightarrow> int \<Rightarrow> bits result" where
  "const_shl arg1 arg2 signed1 result_len =
     rbind (extend_u0 arg1 result_len signed1)
       (\<lambda>arg1_ext. const_shift_worker arg1_ext arg2 False False (-1) result_len S0)"

definition const_shr :: "bits \<Rightarrow> bits \<Rightarrow> bool \<Rightarrow> int \<Rightarrow> bits result" where
  "const_shr arg1 arg2 signed1 result_len =
     rbind (extend_u0 arg1 (max result_len (int (length arg1))) signed1)
       (\<lambda>arg1_ext. const_shift_worker arg1_ext arg2 False False 1 result_len S0)"

definition const_sshl :: "bits \<Rightarrow> bits \<Rightarrow> bool \<Rightarrow> int \<Rightarrow> bits result" where
  "const_sshl arg1 arg2 signed1 result_len =
     const_shift_worker arg1 arg2 signed1 False (-1) result_len S0"

definition const_sshr :: "bits \<Rightarrow> bits \<Rightarrow> bool \<Rightarrow> int \<Rightarrow> bits result" where
  "const_sshr arg1 arg2 signed1 result_len =
     const_shift_worker arg1 arg2 signed1 False 1 result_len S0"

definition const_shift :: "bits \<Rightarrow> bits \<Rightarrow> bool \<Rightarrow> bool \<Rightarrow> int \<Rightarrow> bits result" where
  "const_shift arg1 arg2 signed1 signed2 result_len =
     rbind (extend_u0 arg1 (max result_len (int (length arg1))) signed1)
       (\<lambda>arg1_ext. const_shift_worker arg1_ext arg2 False signed2 1 result_len S0)"

definition const_shiftx :: "bits \<Rightarrow> bits \<Rightarrow> bool \<Rightarrow> int \<Rightarrow> bits result" where
  "const_shiftx arg1 arg2 signed2 result_len =
     const_shift_worker arg1 arg2 False signed2 1 result_len Sx"

section \<open>Comparisons\<close>

definition compare_result ::
    "(int \<Rightarrow> int \<Rightarrow> bool) \<Rightarrow> bits \<Rightarrow> bits \<Rightarrow> bool \<Rightarrow> bool \<Rightarrow> int \<Rightarrow> bits" where
  "compare_result rel arg1 arg2 signed1 signed2 result_len =
     (case const2big2 arg1 arg2 signed1 signed2 of (a, b, undef_bit_pos) \<Rightarrow>
        pad_result (if undef_bit_pos \<ge> 0 then Sx else if rel a b then S1 else S0) result_len)"

definition const_lt :: "bits \<Rightarrow> bits \<Rightarrow> bool \<Rightarrow> bool \<Rightarrow> int \<Rightarrow> bits" where
  "const_lt arg1 arg2 signed1 signed2 result_len =
     compare_result (\<lambda>a b. a < b) arg1 arg2 signed1 signed2 result_len"

definition const_le :: "bits \<Rightarrow> bits \<Rightarrow> bool \<Rightarrow> bool \<Rightarrow> int \<Rightarrow> bits" where
  "const_le arg1 arg2 signed1 signed2 result_len =
     compare_result (\<lambda>a b. a \<le> b) arg1 arg2 signed1 signed2 result_len"

definition const_ge :: "bits \<Rightarrow> bits \<Rightarrow> bool \<Rightarrow> bool \<Rightarrow> int \<Rightarrow> bits" where
  "const_ge arg1 arg2 signed1 signed2 result_len =
     compare_result (\<lambda>a b. b \<le> a) arg1 arg2 signed1 signed2 result_len"

definition const_gt :: "bits \<Rightarrow> bits \<Rightarrow> bool \<Rightarrow> bool \<Rightarrow> int \<Rightarrow> bits" where
  "const_gt arg1 arg2 signed1 signed2 result_len =
     compare_result (\<lambda>a b. b < a) arg1 arg2 signed1 signed2 result_len"

text \<open>
  The loop of \<open>const_eq\<close>: \<open>None\<close> when it leaves with a definite mismatch, otherwise the
  matched status it ends with.
\<close>

fun eq_loop :: "bits \<Rightarrow> bits \<Rightarrow> State \<Rightarrow> State option" where
  "eq_loop (a # as) (b # bs) matched_status =
     (if a = S0 \<and> b = S1 then None
      else if a = S1 \<and> b = S0 then None
      else eq_loop as bs (if a > S1 \<or> b > S1 then Sx else matched_status))"
| "eq_loop _ _ matched_status = Some matched_status"

text \<open>\<open>result.set(0, status)\<close> on a result of length \<open>n\<close> that is all zeros.\<close>

definition set_front :: "State \<Rightarrow> nat \<Rightarrow> bits result" where
  "set_front status n = (if n = 0 then Inl OutOfRange else Inr ((replicate n S0)[0 := status]))"

definition const_eq :: "bits \<Rightarrow> bits \<Rightarrow> bool \<Rightarrow> bool \<Rightarrow> int \<Rightarrow> bits result" where
  "const_eq arg1 arg2 signed1 signed2 result_len =
     (let width = max (length arg1) (length arg2);
          arg1_ext = extend_bits arg1 width (signed1 \<and> signed2);
          arg2_ext = extend_bits arg2 width (signed1 \<and> signed2)
      in rbind (fill_bits S0 result_len)
           (\<lambda>result. case eq_loop arg1_ext arg2_ext S1 of
              None \<Rightarrow> Inr result
            | Some matched_status \<Rightarrow> set_front matched_status (length result)))"

text \<open>\<open>result.front()\<close> does not exist for an empty result.\<close>

definition invert_front :: "bits \<Rightarrow> bits result" where
  "invert_front result = (if result = [] then Inl OutOfRange else Inr (flip_front result))"

definition const_ne :: "bits \<Rightarrow> bits \<Rightarrow> bool \<Rightarrow> bool \<Rightarrow> int \<Rightarrow> bits result" where
  "const_ne arg1 arg2 signed1 signed2 result_len =
     rbind (const_eq arg1 arg2 signed1 signed2 result_len) invert_front"

definition const_eqx :: "bits \<Rightarrow> bits \<Rightarrow> bool \<Rightarrow> bool \<Rightarrow> int \<Rightarrow> bits result" where
  "const_eqx arg1 arg2 signed1 signed2 result_len =
     (let width = max (length arg1) (length arg2);
          arg1_ext = extend_bits arg1 width (signed1 \<and> signed2);
          arg2_ext = extend_bits arg2 width (signed1 \<and> signed2)
      in rbind (fill_bits S0 result_len)
           (\<lambda>result. if list_ex (\<lambda>i. arg1_ext ! i \<noteq> arg2_ext ! i) [0..<length arg1_ext]
                     then Inr result else set_front S1 (length result)))"

definition const_nex :: "bits \<Rightarrow> bits \<Rightarrow> bool \<Rightarrow> bool \<Rightarrow> int \<Rightarrow> bits result" where
  "const_nex arg1 arg2 signed1 signed2 result_len =
     rbind (const_eqx arg1 arg2 signed1 signed2 result_len) invert_front"

section \<open>Arithmetic\<close>

definition const_add :: "bits \<Rightarrow> bits \<Rightarrow> bool \<Rightarrow> bool \<Rightarrow> int \<Rightarrow> bits" where
  "const_add arg1 arg2 signed1 signed2 result_len =
     (case const2big2 arg1 arg2 signed1 signed2 of (a, b, undef_bit_pos) \<Rightarrow>
        big2const (a + b) (out_len result_len arg1 arg2) undef_bit_pos)"

definition const_sub :: "bits \<Rightarrow> bits \<Rightarrow> bool \<Rightarrow> bool \<Rightarrow> int \<Rightarrow> bits" where
  "const_sub arg1 arg2 signed1 signed2 result_len =
     (case const2big2 arg1 arg2 signed1 signed2 of (a, b, undef_bit_pos) \<Rightarrow>
        big2const (a - b) (out_len result_len arg1 arg2) undef_bit_pos)"

definition const_mul :: "bits \<Rightarrow> bits \<Rightarrow> bool \<Rightarrow> bool \<Rightarrow> int \<Rightarrow> bits" where
  "const_mul arg1 arg2 signed1 signed2 result_len =
     (case const2big2 arg1 arg2 signed1 signed2 of (a, b, undef_bit_pos) \<Rightarrow>
        big2const (a * b) (out_len result_len arg1 arg2) (min undef_bit_pos 0))"

definition const_div :: "bits \<Rightarrow> bits \<Rightarrow> bool \<Rightarrow> bool \<Rightarrow> int \<Rightarrow> bits result" where
  "const_div arg1 arg2 signed1 signed2 result_len =
     (case const2big2 arg1 arg2 signed1 signed2 of (a, b, undef_bit_pos) \<Rightarrow>
      if b = 0 then fill_bits Sx result_len
      else let result_neg = ((a < 0) \<noteq> (b < 0));
               a = (if a < 0 then - a else a);
               b = (if b < 0 then - b else b)
           in Inr (big2const (if result_neg then - (a div b) else a div b)
                     (out_len result_len arg1 arg2) (min undef_bit_pos 0)))"

definition const_mod :: "bits \<Rightarrow> bits \<Rightarrow> bool \<Rightarrow> bool \<Rightarrow> int \<Rightarrow> bits result" where
  "const_mod arg1 arg2 signed1 signed2 result_len =
     (case const2big2 arg1 arg2 signed1 signed2 of (a, b, undef_bit_pos) \<Rightarrow>
      if b = 0 then fill_bits Sx result_len
      else let result_neg = (a < 0);
               a = (if a < 0 then - a else a);
               b = (if b < 0 then - b else b)
           in Inr (big2const (if result_neg then - (a mod b) else a mod b)
                     (out_len result_len arg1 arg2) (min undef_bit_pos 0)))"

definition const_divfloor :: "bits \<Rightarrow> bits \<Rightarrow> bool \<Rightarrow> bool \<Rightarrow> int \<Rightarrow> bits result" where
  "const_divfloor arg1 arg2 signed1 signed2 result_len =
     (case const2big2 arg1 arg2 signed1 signed2 of (a, b, undef_bit_pos) \<Rightarrow>
      if b = 0 then fill_bits Sx result_len
      else let result_pos = ((a < 0) = (b < 0));
               a = (if a < 0 then - a else a);
               b = (if b < 0 then - b else b);
               result = (if result_pos \<or> a = 0 then a div b else - ((a + b - 1) div b))
           in Inr (big2const result (out_len result_len arg1 arg2) (min undef_bit_pos 0)))"

text \<open>The sign of a \<open>BigInteger\<close>: -1, 0 or 1.\<close>

definition const_modfloor :: "bits \<Rightarrow> bits \<Rightarrow> bool \<Rightarrow> bool \<Rightarrow> int \<Rightarrow> bits result" where
  "const_modfloor arg1 arg2 signed1 signed2 result_len =
     (case const2big2 arg1 arg2 signed1 signed2 of (a, b, undef_bit_pos) \<Rightarrow>
      if b = 0 then fill_bits Sx result_len
      else let a_sign = sgn a; b_sign = sgn b;
               a = (if a_sign = -1 then - a else a);
               b = (if b_sign = -1 then - b else b);
               truncated = (if a_sign = -1 then - (a mod b) else a mod b);
               modulo = (if truncated = 0 \<or> a_sign = b_sign then truncated
                         else if b_sign = -1 then truncated - b else truncated + b)
           in Inr (big2const modulo (out_len result_len arg1 arg2) (min undef_bit_pos 0)))"

fun pow_loop :: "int \<Rightarrow> int \<Rightarrow> int \<Rightarrow> int \<Rightarrow> int" where
  "pow_loop modulus y a b =
     (if b > 0
      then pow_loop modulus (if b mod 2 = 1 then (y * a) mod modulus else y)
             ((a * a) mod modulus) (b div 2)
      else y)"

declare pow_loop.simps [simp del]

definition const_pow :: "bits \<Rightarrow> bits \<Rightarrow> bool \<Rightarrow> bool \<Rightarrow> int \<Rightarrow> bits result" where
  "const_pow arg1 arg2 signed1 signed2 result_len =
     (case const2big2 arg1 arg2 signed1 signed2 of (a, b, undef_bit_pos) \<Rightarrow>
      if a = 0 \<and> b < 0 then fill_bits Sx result_len
      else if a = 0 \<and> b > 0 then fill_bits S0 result_len
      else let y = (if b < 0
                    then let y = (if a < -1 \<or> a > 1 then 0 else 1)
                         in if a = -1 then (if (- b) mod 2 = 0 then 1 else -1) else y
                    else 1);
               y = (if b > 0
                    then let modulus = 2 ^ nat (if result_len \<ge> 0 then result_len else 1024);
                             flip_result_sign = (a < 0 \<and> b mod 2 = 1);
                             a = (if a < 0 then a * (-1) else a);
                             y = pow_loop modulus y a b
                         in if flip_result_sign then y * (-1) else y
                    else y)
           in Inr (big2const y (out_len result_len arg1 arg2) (min undef_bit_pos 0)))"

definition const_pos :: "bits \<Rightarrow> bool \<Rightarrow> int \<Rightarrow> bits result" where
  "const_pos arg1 signed1 result_len = extend_u0 arg1 result_len signed1"

definition const_buf :: "bits \<Rightarrow> bool \<Rightarrow> int \<Rightarrow> bits result" where
  "const_buf arg1 signed1 result_len = extend_u0 arg1 result_len signed1"

definition const_neg :: "bits \<Rightarrow> bool \<Rightarrow> int \<Rightarrow> bits" where
  "const_neg arg1 signed1 result_len = const_sub [S0] arg1 True signed1 result_len"

section \<open>Multiplexers\<close>

definition const_mux :: "bits \<Rightarrow> bits \<Rightarrow> bits \<Rightarrow> bits result" where
  "const_mux arg1 arg2 arg3 =
     (if length arg2 \<noteq> length arg1 then Inl AssertFail
      else if arg3 = [] then Inl OutOfRange
      else if arg3 ! 0 = S0 then Inr arg1
      else if arg3 ! 0 = S1 then Inr arg2
      else Inr (map (\<lambda>i. if arg1 ! i \<noteq> arg2 ! i then Sx else arg1 ! i) [0..<length arg1]))"

text \<open>
  The selected slice of \<open>arg2\<close>. The test \<open>is_onehot\<close> guarantees that the search finds a one;
  the read past the end of \<open>arg2\<close> is out of range.
\<close>

fun pmux_loop :: "bits \<Rightarrow> bits \<Rightarrow> bits \<Rightarrow> nat \<Rightarrow> bits result" where
  "pmux_loop arg1 arg2 [] i = Inl Abort"
| "pmux_loop arg1 arg2 (s # ss) i =
     (if s = S1
      then (if length arg2 < (i + 1) * length arg1 then Inl OutOfRange
            else Inr (take (length arg1) (drop (i * length arg1) arg2)))
      else pmux_loop arg1 arg2 ss (Suc i))"

definition const_pmux :: "bits \<Rightarrow> bits \<Rightarrow> bits \<Rightarrow> bits result" where
  "const_pmux arg1 arg2 arg3 =
     (if list_all (\<lambda>b. b = S0) arg3 then Inr arg1
      else if \<not> fst (onehot_loop arg3 0 False None) then Inr (replicate (length arg1) Sx)
      else pmux_loop arg1 arg2 arg3 0)"

text \<open>The selector bits are used from the most significant one down.\<close>

fun bmux_loop :: "bits \<Rightarrow> bits \<Rightarrow> bits" where
  "bmux_loop t [] = t"
| "bmux_loop t (sel # sels) =
     bmux_loop
       (let h = length t div 2
        in if sel = S0 then take h t
           else if sel = S1 then drop h t
           else map (\<lambda>j. if t ! j = t ! (j + h) then t ! j else Sx) [0..<h]) sels"

definition const_bmux :: "bits \<Rightarrow> bits \<Rightarrow> bits" where
  "const_bmux arg1 arg2 = bmux_loop arg1 (rev arg2)"

definition demux_block :: "bits \<Rightarrow> bits \<Rightarrow> nat \<Rightarrow> bits" where
  "demux_block arg1 arg2 i =
     (let ne = list_ex (\<lambda>j. arg2 ! j = (if bit i j then S0 else S1)) [0..<length arg2];
          x = list_ex (\<lambda>j. arg2 ! j \<noteq> S0 \<and> arg2 ! j \<noteq> S1) [0..<length arg2]
      in if ne then replicate (length arg1) S0
         else if x then map (\<lambda>b. if b = S0 then S0 else Sx) arg1
         else arg1)"

definition const_demux :: "bits \<Rightarrow> bits \<Rightarrow> bits result" where
  "const_demux arg1 arg2 =
     (let s_width = length arg2
      in if 31 \<le> s_width then Inl IntOverflow
         else Inr (concat (map (demux_block arg1 arg2) [0..<2 ^ s_width])))"

definition const_bweqx :: "bits \<Rightarrow> bits \<Rightarrow> bits result" where
  "const_bweqx arg1 arg2 =
     (if length arg2 \<noteq> length arg1 then Inl AssertFail
      else Inr (map (\<lambda>i. if arg1 ! i = arg2 ! i then S1 else S0) [0..<length arg1]))"

definition const_bwmux :: "bits \<Rightarrow> bits \<Rightarrow> bits \<Rightarrow> bits result" where
  "const_bwmux arg1 arg2 arg3 =
     (if length arg2 \<noteq> length arg1 then Inl AssertFail
      else if length arg3 \<noteq> length arg1 then Inl AssertFail
      else Inr (map (\<lambda>i. if arg3 ! i \<noteq> Sx \<or> arg1 ! i = arg2 ! i
                         then (if arg3 ! i = S1 then arg2 ! i else arg1 ! i) else Sx)
                 [0..<length arg1]))"

end
