(* ===== verification/Calc_Laws.thy ===== *)
theory Calc_Laws
  imports Calc
begin

text \<open>
  What the operators of \<open>kernel/calc.cc\<close> compute. The first part reads bit vectors as integers
  (\<open>num\<close>) and gives closed forms of the operators on operands without undefined bits. The second
  part treats undefined bits: \<open>resolves s t\<close> says that \<open>t\<close> is a possible value of \<open>s\<close>, and the
  locales \<open>x_sound\<close> and \<open>strict_op\<close> state that an operator commutes with it. The guarantees are at
  the end.
\<close>

section \<open>Bit vectors as integers\<close>

definition ones :: "bits \<Rightarrow> bool list" where
  "ones bs = map (\<lambda>b. b = S1) bs"

definition num :: "bool \<Rightarrow> bits \<Rightarrow> int" where
  "num is_signed bs = (if is_signed then sval (ones bs) else uval (ones bs))"

lemma length_ones [simp]: "length (ones bs) = length bs" by (simp add: ones_def)
lemma ones_Nil_iff [simp]: "ones bs = [] \<longleftrightarrow> bs = []" by (simp add: ones_def)

lemma loop_pos:
  "snd (const2big_loop s bs i mag u) =
     (if 0 \<le> u then u else if list_all is_def bs then u else int (i + length (takeWhile is_def bs)))"
  by (induction s bs i mag u rule: const2big_loop.induct)
    (simp_all add: is_def_def [symmetric] split del: if_split, auto)

lemma loop_bit:
  "bit (fst (const2big_loop s bs i mag u)) j \<longleftrightarrow>
     (if i \<le> j \<and> j < i + length bs \<and> is_def (bs ! (j - i)) then bs ! (j - i) = s else bit mag j)"
proof (induction s bs i mag u rule: const2big_loop.induct)
  case (2 s b bs i mag u)
  show ?case
  proof (cases "j = i")
    case True
    then show ?thesis using 2 by (auto simp: is_def_def bit_set_bit_iff bit_unset_bit_iff)
  next
    case False
    then have "j - i = Suc (j - Suc i)" if "i \<le> j" using that by simp
    then show ?thesis using 2 False by (auto simp: is_def_def bit_set_bit_iff bit_unset_bit_iff less_Suc_eq_le)
  qed
qed auto

lemma loop_int:
  assumes "list_all is_def bs"
  shows "int (fst (const2big_loop S1 bs 0 0 u)) = uval (ones bs)"
    and "int (fst (const2big_loop S0 bs 0 0 u)) = uval (map Not (ones bs))"
  using assms
  by (auto intro!: bit_eqI simp: bit_of_nat_iff_bit bit_uval loop_bit list_all_length ones_def
      simp del: map_map split: if_splits) (metis is_def_def)

lemma uval_map_Not: "uval (map Not bs) = 2 ^ length bs - 1 - uval bs"
  by (induction bs) auto

lemma const2big_undef:
  assumes "\<not> list_all is_def bs \<or> 0 \<le> u"
  shows "0 \<le> snd (const2big bs s u)"
proof -
  have "list_all is_def bs" if "bs \<noteq> []" "bs ! (length bs - 1) = S1"
      "list_all is_def (take (length bs - 1) bs)"
  proof -
    from that(1) obtain cs b where "bs = cs @ [b]" by (metis append_butlast_last_id)
    with that show ?thesis by simp
  qed
  then show ?thesis using assms
    by (auto simp: const2big_def loop_pos split: prod.splits dest!: arg_cong [of _ "_ :: nat \<times> int" snd])
qed

lemma const2big_val:
  assumes "list_all is_def bs"
  shows "const2big bs s u = (num s bs, u)"
proof (cases "s \<and> bs \<noteq> [] \<and> last bs = S1")
  case True
  then obtain cs where bs: "bs = cs @ [S1]" by (metis append_butlast_last_id)
  then have "list_all is_def cs" using assms by simp
  then show ?thesis using True bs loop_int(2) [of cs u] loop_pos [of S0 cs 0 0 u]
    by (auto simp: const2big_def num_def sval_def ones_def uval_append uval_map_Not
        simp del: map_map split: prod.splits)
next
  case False
  then show ?thesis using assms loop_int(1) [of bs u] loop_pos [of S1 bs 0 0 u]
    by (auto simp: const2big_def num_def sval_def ones_def last_map last_conv_nth split: prod.splits)
qed

lemma big2const_eq:
  "big2const v n u = (if 0 \<le> u then replicate n Sx else map bool_state (int_bits n v))"
proof -
  have neg: "bit v i \<longleftrightarrow> \<not> bit (nat \<bar>v\<bar> - 1) i" if "v < 0" for i
  proof -
    have "int (nat \<bar>v\<bar> - 1) = NOT v" using that by (simp add: not_int_def nat_diff_distrib)
    then show ?thesis by (metis bit_not_int_iff bit_of_nat_iff_bit)
  qed
  have pos: "bit v i \<longleftrightarrow> bit (nat \<bar>v\<bar>) i" if "v \<ge> 0" for i
    using that by (metis abs_of_nonneg bit_of_nat_iff_bit int_nat_eq)
  show ?thesis using neg pos
    by (auto simp: big2const_def int_bits_def bool_state_def Let_def map_replicate_const o_def)
qed

section \<open>Closed forms of the arithmetic operators\<close>

definition known :: "bits \<Rightarrow> bits \<Rightarrow> bool" where
  "known a b \<longleftrightarrow> list_all is_def a \<and> list_all is_def b"

lemma const2big2_known: "known a b \<Longrightarrow> const2big2 a b s t = (num s a, num t b, -1)"
  by (simp add: const2big2_def known_def const2big_val)

lemma const2big2_unknown:
  assumes "\<not> known a b" "const2big2 a b s t = (x, y, u)"
  shows "0 \<le> u"
  using assms const2big_undef [of a "-1" s] const2big_undef [of b "snd (const2big a s (-1))" t]
  by (auto simp: const2big2_def known_def split: prod.splits)

lemma arith_known:
  assumes "known a b"
  shows
   "const_add a b s t n = map bool_state (int_bits (out_len n a b) (num s a + num t b))"
   "const_sub a b s t n = map bool_state (int_bits (out_len n a b) (num s a - num t b))"
   "const_mul a b s t n = map bool_state (int_bits (out_len n a b) (num s a * num t b))"
  using assms
  by (simp_all add: const_add_def const_sub_def const_mul_def const2big2_known big2const_eq)

lemma div_known:
  assumes "known a b" "num t b \<noteq> 0"
  shows
   "const_div a b s t n = Inr (map bool_state (int_bits (out_len n a b) (num s a sdiv num t b)))"
   "const_mod a b s t n = Inr (map bool_state (int_bits (out_len n a b) (num s a smod num t b)))"
  using assms
  by (auto simp add: const_div_def const_mod_def const2big2_known big2const_eq signed_divide_int_def
     signed_modulo_int_def sgn_if Let_def)

lemma divfloor_by_abs:
  fixes a b :: int
  assumes "b \<noteq> 0"
  shows "a div b = (if (a < 0) = (b < 0) \<or> a = 0 then \<bar>a\<bar> div \<bar>b\<bar>
    else - ((\<bar>a\<bar> + \<bar>b\<bar> - 1) div \<bar>b\<bar>))"
proof -
  have ceil: "- x div y = - ((x + y - 1) div y)" if "0 < x" "0 < y" for x y :: int
  proof -
    have "0 \<le> (x + y - 1) mod y" "(x + y - 1) mod y < y" using that by simp_all
    then show ?thesis
      by (intro int_div_pos_eq [where r = "y - 1 - (x + y - 1) mod y"])
        (simp_all add: minus_div_mult_eq_mod [symmetric] algebra_simps)
  qed
  show ?thesis
  proof (cases "(a < 0) = (b < 0) \<or> a = 0")
    case True
    then show ?thesis by (auto simp: abs_if)
  next
    case False
    then show ?thesis using ceil [of "-a" b] ceil [of a "-b"] assms
      by (cases "a < 0") (auto simp: abs_if div_minus_right)
  qed
qed

lemma modfloor_by_abs:
  fixes a b :: int
  assumes "b \<noteq> 0"
  shows "a mod b = (let t = sgn a * (\<bar>a\<bar> mod \<bar>b\<bar>)
    in if t = 0 \<or> sgn a = sgn b then t else t + b)"
proof (cases "a < 0")
  case True
  then show ?thesis using assms
   zmod_zminus1_eq_if [of "-a" b] mod_minus_right [of "-a" b]  mod_minus_right [of "a" b] 
    by (auto simp: abs_if Let_def sgn_if zmod_zminus1_eq_if zmod_zminus2_eq_if)
next
  case False
  have "a mod b \<noteq> b" using assms neg_mod_bound [of b a] pos_mod_bound [of b a] by force
  with False show ?thesis using assms
    by (auto simp: abs_if Let_def sgn_if zmod_zminus2_eq_if)
qed

lemma divfloor_known:
  assumes "known a b" "num t b \<noteq> 0"
  shows
   "const_divfloor a b s t n = Inr (map bool_state (int_bits (out_len n a b) (num s a div num t b)))"
   "const_modfloor a b s t n = Inr (map bool_state (int_bits (out_len n a b) (num s a mod num t b)))"
proof -
  have sg: "(sgn x = - 1) = (x < 0)" for x :: int by (simp add: sgn_if)
  show "const_divfloor a b s t n = Inr (map bool_state (int_bits (out_len n a b) (num s a div num t b)))"
    unfolding const_divfloor_def const2big2_known [OF assms(1)] big2const_eq
      divfloor_by_abs [OF assms(2), of "num s a"]
    using assms(2) by (simp add: abs_if [symmetric] Let_def)
  show "const_modfloor a b s t n = Inr (map bool_state (int_bits (out_len n a b) (num s a mod num t b)))"
    unfolding const_modfloor_def const2big2_known [OF assms(1)] big2const_eq
      modfloor_by_abs [OF assms(2), of "num s a"]
    using assms(2) by (cases "num s a < 0"; cases "num t b < 0") (simp_all add: sg sgn_if Let_def)
qed

lemma arith_unknown:
  assumes "\<not> known a b"
  shows
   "const_add a b s t n = replicate (out_len n a b) Sx"
   "const_sub a b s t n = replicate (out_len n a b) Sx"
   "const_mul a b s t n = replicate (out_len n a b) Sx"
   using const2big2_unknown [OF assms]
  by (auto simp: const_add_def const_sub_def const_mul_def big2const_eq split: prod.splits)


lemma pow_loop_eq:
  assumes "0 < m" "0 \<le> b" "0 \<le> y" "y < m \<or> y = 1" "0 \<le> a"
  shows "pow_loop m y a b mod m = (y * a ^ nat b) mod m"
  using assms
proof (induction m y a b rule: pow_loop.induct)
  case (1 m y a b)
  show ?case
  proof (cases "0 < b")
    case False
    then show ?thesis using "1.prems" pow_loop.simps [of m y a b] by simp
  next
    case True
    define k where "k = nat (b div 2)"
    have "b = 2 * int k + b mod 2" using True by (simp add: k_def)
    then have nb: "nat b = 2 * k + (if b mod 2 = 1 then 1 else 0)"
      by (cases "b mod 2 = 1") auto
    have "pow_loop m y a b mod m =
      ((if b mod 2 = 1 then (y * a) mod m else y) * ((a * a) mod m) ^ k) mod m"
      using True 1 by (simp add: pow_loop.simps [of m y a b] k_def)
    also have "\<dots> = (y * a ^ nat b) mod m"
    proof (cases "b mod 2 = 1")
      case True
      have "((y * a) mod m * ((a * a) mod m) ^ k) mod m = ((y * a) * (a * a) ^ k) mod m"
        by (rule mod_mult_cong [OF mod_mod_trivial power_mod])
      with True show ?thesis
        by (simp add: nb power_mult power2_eq_square mult.assoc power_mult_distrib)
    next
      case False
      have "(y * ((a * a) mod m) ^ k) mod m = (y * (a * a) ^ k) mod m"
        by (rule mod_mult_cong [OF refl power_mod])
      with False show ?thesis by (simp add: nb power_mult power2_eq_square)
    qed
    finally show ?thesis .
  qed
qed

lemma compare_known:
  assumes "known a b"
  shows
   "const_lt a b s t n = pad_result (bool_state (num s a < num t b)) n"
   "const_le a b s t n = pad_result (bool_state (num s a \<le> num t b)) n"
   "const_ge a b s t n = pad_result (bool_state (num s a \<ge> num t b)) n"
   "const_gt a b s t n = pad_result (bool_state (num s a > num t b)) n"
  using assms
  by (simp_all add: const_lt_def const_le_def const_ge_def const_gt_def compare_result_def const2big2_known bool_state_def)

lemma compare_unknown:
  assumes "\<not> known a b"
  shows
   "compare_result r a b s t n = pad_result Sx n"
   using const2big2_unknown [OF assms]
  by (auto simp: compare_result_def split: prod.splits)

lemma pow_known:
  assumes "known a b" "0 < num t b" "0 \<le> n"
  shows "const_pow a b s t n = Inr (map bool_state (int_bits (nat n) (num s a ^ nat (num t b))))"
proof (cases "num s a = 0")
  case True
  then show ?thesis using assms
    by (simp add: const_pow_def const2big2_known fill_bits_def zero_power int_bits_def map_replicate_const o_def)
next
  case False
  define A where "A = num s a"
  define B where "B = num t b"
  define y where "y = pow_loop (2 ^ nat n) 1 \<bar>A\<bar> B"
  define z where "z = (if A < 0 \<and> B mod 2 = 1 then - y else y)"
  have z: "const_pow a b s t n = Inr (map bool_state (int_bits (nat n) z))"
    using assms False
    by (simp add: const_pow_def const2big2_known big2const_eq Let_def A_def [symmetric]
        B_def [symmetric] out_len_def z_def y_def abs_if)
  have y: "y mod 2 ^ nat n = \<bar>A\<bar> ^ nat B mod 2 ^ nat n"
    using pow_loop_eq [of "2 ^ nat n" B 1 "\<bar>A\<bar>"] assms by (simp add: y_def B_def)
  have "z mod 2 ^ nat n = A ^ nat B mod 2 ^ nat n"
  proof (cases "A < 0")
    case True
    have "even (nat B) \<longleftrightarrow> B mod 2 \<noteq> 1" using assms B_def by (simp add: even_nat_iff) presburger
    then have "A ^ nat B = (if B mod 2 = 1 then - (\<bar>A\<bar> ^ nat B) else \<bar>A\<bar> ^ nat B)"
      using True by (auto simp: abs_if power_minus_odd)
    then show ?thesis using y True by (auto simp: z_def) (metis mod_minus_eq)
  next
    case False
    then show ?thesis using y by (simp add: z_def)
  qed
  then show ?thesis unfolding z A_def [symmetric] B_def [symmetric]
    using int_bits_cong by metis
qed

lemma pow_zero:
  assumes "known a b" "num t b = 0" "0 \<le> n"
  shows "const_pow a b s t n = Inr (map bool_state (int_bits (nat n) 1))"
  using assms by (simp add: const_pow_def const2big2_known big2const_eq Let_def out_len_def)

section \<open>Bitwise operators and comparisons\<close>

lemma length_extend_bits [simp]: "length (extend_bits a n s) = n"
  by (simp add: extend_bits_def Let_def)

lemma extend_bits_known:
  assumes "list_all is_def a"
  shows "extend_bits a n s = map bool_state (int_bits n (num s a))"
proof (rule nth_equalityI)
  fix i assume "i < length (extend_bits a n s)"
  then have i: "i < n" by simp
  have d: "a ! j = bool_state (a ! j = S1)" if "j < length a" for j
    using assms that by (simp add: list_all_length is_def_bool_state)
  have "a \<noteq> [] \<Longrightarrow> last a = bool_state (last a = S1)"
    using assms by (simp add: list_all_iff is_def_bool_state)
  then show "extend_bits a n s ! i = map bool_state (int_bits n (num s a)) ! i"
    using i d [of i]
    by (auto simp: extend_bits_def Let_def nth_append num_def bit_sval bit_uval ones_def last_map)
qed simp

lemma logic_known:
  assumes "known a b"
  shows
   "const_and a b s t n = map bool_state (int_bits (out_len n a b) (num s a AND num t b))"
   "const_or a b s t n = map bool_state (int_bits (out_len n a b) (num s a OR num t b))"
   "const_xor a b s t n = map bool_state (int_bits (out_len n a b) (num s a XOR num t b))"
   "const_xnor a b s t n = map bool_state (int_bits (out_len n a b) (NOT (num s a XOR num t b)))"
  using assms
  by (auto intro!: nth_equalityI simp: const_and_def const_or_def const_xor_def const_xnor_def
    logic_wrapper_def Let_def known_def extend_bits_known bit_simps bool_state_def logic_and_def logic_or_def
    logic_xor_def logic_xnor_def)

lemma not_known:
  assumes "list_all is_def a"
  shows "const_not a s n =
    map bool_state (int_bits (if n < 0 then length a else nat n) (NOT (num s a)))"
  using assms
  by (auto intro!: nth_equalityI simp: const_not_def Let_def extend_bits_known bit_simps bool_state_def)


definition resolves :: "State \<Rightarrow> State \<Rightarrow> bool" where
  "resolves s c \<longleftrightarrow> (is_def s \<longrightarrow> c = s)"

abbreviation resolves_bits :: "bits \<Rightarrow> bits \<Rightarrow> bool" where
  "resolves_bits \<equiv> list_all2 resolves"

abbreviation resolves_result :: "bits result \<Rightarrow> bits result \<Rightarrow> bool" where
  "resolves_result \<equiv> rel_sum (=) resolves_bits"

lemma resolves_refl [simp]: "resolves s s" by (simp add: resolves_def)
lemma resolves_Sx [simp]: "resolves Sx s" by (simp add: resolves_def)
lemma resolves_bits_refl [simp]: "resolves_bits a a" by (simp add: list_all2_refl)

lemma resolves_known: "resolves_bits a c \<Longrightarrow> list_all is_def a \<Longrightarrow> c = a"
  by (induction a c rule: list_all2_induct) (auto simp: resolves_def)

lemma resolves_known2: "known a b \<Longrightarrow> resolves_bits a c \<Longrightarrow> resolves_bits b d \<Longrightarrow> c = a \<and> d = b"
  by (auto simp: known_def resolves_known)

lemma resolves_replicate_Sx: "length c = n \<Longrightarrow> resolves_bits (replicate n Sx) c"
  by (auto simp: list_all2_conv_all_nth)

lemma resolves_pad: "resolves s c \<Longrightarrow> resolves_bits (pad_result s n) (pad_result c n)"
  by (auto simp: pad_result_def list_all2_refl)

lemma resolves_extend_bits:
  assumes "resolves_bits a c"
  shows "resolves_bits (extend_bits a n s) (extend_bits c n s)"
proof -
  have len: "length c = length a" using assms by (simp add: list_all2_lengthD)
  have "a \<noteq> [] \<Longrightarrow> resolves (last a) (last c)" 
    using assms len last_conv_nth [of a] last_conv_nth [of c]
    by (cases "c = []") (auto simp: list_all2_conv_all_nth)
  then show ?thesis using assms len 
    by (auto simp: list_all2_conv_all_nth extend_bits_def Let_def nth_append)
qed

lemma length_big2const [simp]: "length (big2const v n u) = n"
  by (simp add: big2const_eq)

lemma length_pad_result: "length (pad_result b n) = max 1 (nat n)"
  by (auto simp: pad_result_def)

lemma const2big_zero: "fst (const2big bs s u) = 0 \<longleftrightarrow> S1 \<notin> set bs"
proof (cases "s \<and> bs \<noteq> [] \<and> bs ! (length bs - 1) = S1")
  case True
  then have "S1 \<in> set bs" by (metis diff_less length_greater_0_conv nth_mem zero_less_one)
  with True show ?thesis by (auto simp: const2big_def split: prod.splits)
next
  case False
  have "fst (const2big_loop S1 bs 0 0 u) = 0 \<longleftrightarrow> S1 \<notin> set bs"
  proof -
    have "fst (const2big_loop S1 bs 0 0 u) = 0 \<longleftrightarrow> (\<forall>j. \<not> bit (fst (const2big_loop S1 bs 0 0 u)) j)"
      by (metis bit_0_eq bit_eq_iff bot_apply bot_bool_def)
    also have "\<dots> \<longleftrightarrow> (\<forall>j < length bs. bs ! j \<noteq> S1)"
      by (auto simp: loop_bit is_def_def)
    finally show ?thesis by (auto simp: in_set_conv_nth)
  qed
  with False show ?thesis by (auto simp: const2big_def split: prod.splits)
qed

lemma const2big_pos_iff: "0 \<le> snd (const2big bs s (-1)) \<longleftrightarrow> \<not> list_all is_def bs"
  using const2big_undef [of bs "-1" s] const2big_val [of bs s "-1"] by auto

definition bits_truth :: "bits \<Rightarrow> State" where
  "bits_truth bs = (if S1 \<in> set bs then S1 else if list_all is_def bs then S0 else Sx)"

lemma truth_bit_eq: "truth_bit (const2big bs s (-1)) = bits_truth bs"
  using const2big_zero [of bs s "-1"] const2big_pos_iff [of bs s]
  by (auto simp: truth_bit_def bits_truth_def split: prod.splits)

lemma reduce_or_eq: "const_reduce_or a n = pad_result (bits_truth a) n"
proof -
  have "foldl logic_or s a = (if s = S1 \<or> S1 \<in> set a then S1 else if s = S0 \<and> list_all is_def a then S0
    else if a = [] then s else Sx)" if "s = S0 \<or> s = S1 \<or> s = Sx" for s
    using that by (induction a arbitrary: s) (auto simp: logic_or_def is_def_def [symmetric], auto simp: is_def_def)
  then show ?thesis by (auto simp: const_reduce_or_def logic_reduce_wrapper_def bits_truth_def)
qed

lemma logic_ops_truth:
  "const_logic_and a b s t n = pad_result (logic_and (bits_truth a) (bits_truth b)) n"
  "const_logic_or a b s t n = pad_result (logic_or (bits_truth a) (bits_truth b)) n"
  "const_logic_not a s n = pad_result (case bits_truth a of S1 \<Rightarrow> S0 | S0 \<Rightarrow> S1 | _ \<Rightarrow> Sx) n"
  using const2big_zero [of a s "-1"] const2big_pos_iff [of a s]
  by (auto simp: const_logic_and_def const_logic_or_def truth_bit_eq const_logic_not_def bits_truth_def split: prod.splits)

lemma resolves_truth: "resolves_bits a c \<Longrightarrow> resolves (bits_truth a) (bits_truth c)"
proof -
  assume r: "resolves_bits a c"
  then have "S1 \<in> set a \<Longrightarrow> S1 \<in> set c"
    by (fastforce simp: list_all2_conv_all_nth in_set_conv_nth resolves_def)
  then show ?thesis using r resolves_known [OF r] by (auto simp: bits_truth_def resolves_def)
qed

lemma resolves_logic:
  assumes "resolves s c" "resolves t d"
  shows "resolves (logic_and s t) (logic_and c d)" "resolves (logic_or s t) (logic_or c d)"
   "resolves (logic_xor s t) (logic_xor c d)" "resolves (logic_xnor s t) (logic_xnor c d)"
  using assms
  by (cases s; cases t; simp add: resolves_def logic_and_def logic_or_def logic_xor_def logic_xnor_def split: if_splits)+

section \<open>Operators on undefined bits\<close>

locale x_sound =
  fixes f :: "bits \<Rightarrow> bits \<Rightarrow> bits result"
  assumes mono: "resolves_bits a c \<Longrightarrow> resolves_bits b d \<Longrightarrow> resolves_result (f a b) (f c d)"
begin

lemma stable:
  assumes "resolves_bits a c" "resolves_bits b d" "f a b = Inr r"
  obtains r' where "f c d = Inr r'" "length r' = length r"
    "\<And>i. i < length r \<Longrightarrow> is_def (r ! i) \<Longrightarrow> r' ! i = r ! i"
proof -
  have "resolves_result (Inr r) (f c d)" using mono [OF assms(1,2)] assms(3) by simp
  then obtain r' where "f c d = Inr r'" "resolves_bits r r'" by (cases "f c d") auto
  then show thesis by (intro that [of r']) (auto simp: list_all2_conv_all_nth resolves_def)
qed

lemma defined_stable:
  assumes "resolves_bits a c" "resolves_bits b d" "f a b = Inr r" "list_all is_def r"
  shows "f c d = Inr r"
  using mono [OF assms(1,2)] assms(3) resolves_known [OF _ assms(4)] by (cases "f c d") simp_all

end

locale strict_op =
  fixes f :: "bits \<Rightarrow> bits \<Rightarrow> bits result"
  assumes unknown: "\<not> known a b \<Longrightarrow> length c = length a \<Longrightarrow> length d = length b \<Longrightarrow>
    resolves_result (f a b) (f c d)"

begin

lemma strict_mono:
  assumes r: "resolves_bits a c" "resolves_bits b d"
  shows "resolves_result (f a b) (f c d)"
proof (cases "known a b")
  case True
  then have "c = a" "d = b" using resolves_known2 r by blast+
  then show ?thesis by (simp add: sum.rel_refl list_all2_refl)
next
  case False
  then show ?thesis using r by (intro unknown) (simp_all add: list_all2_lengthD)
qed

end

sublocale strict_op \<subseteq> x_sound f
  by unfold_locales (rule strict_mono)

lemma out_len_cong: "length c = length a \<Longrightarrow> length d = length b \<Longrightarrow> out_len n c d = out_len n a b"
  by (simp add: out_len_def)

lemma length_arith [simp]:
  "length (const_add a b s t n) = out_len n a b"
  "length (const_sub a b s t n) = out_len n a b"
  "length (const_mul a b s t n) = out_len n a b"
  by (simp_all add: const_add_def const_sub_def const_mul_def split: prod.splits)

interpretation add: strict_op "\<lambda>a b. Inr (const_add a b s t n)" for s t n
  by unfold_locales (simp add: arith_unknown resolves_replicate_Sx out_len_def)

interpretation sub: strict_op "\<lambda>a b. Inr (const_sub a b s t n)" for s t n
  by unfold_locales (simp add: arith_unknown resolves_replicate_Sx out_len_def)

interpretation mul: strict_op "\<lambda>a b. Inr (const_mul a b s t n)" for s t n
  by unfold_locales (simp add: arith_unknown resolves_replicate_Sx out_len_def)

interpretation cmp: strict_op "\<lambda>a b. Inr (compare_result r a b s t n)" for r s t n
proof
  fix a b c d :: bits
  assume "\<not> known a b"
  moreover obtain st where "compare_result r c d s t n = pad_result st n"
    unfolding compare_result_def split_def by blast
  ultimately show "resolves_result (Inr (compare_result r a b s t n)) (Inr (compare_result r c d s t n))"
    by (simp add: compare_unknown resolves_pad)
qed

definition div_like :: "(bits \<Rightarrow> bits \<Rightarrow> bool \<Rightarrow> bool \<Rightarrow> int \<Rightarrow> bits result) \<Rightarrow> bool" where
  "div_like f \<longleftrightarrow> (\<forall>a b s t n. 0 \<le> n \<longrightarrow> (\<exists>r. f a b s t n = Inr r \<and> length r = nat n \<and>
     (\<not> known a b \<longrightarrow> r = replicate (nat n) Sx)))"

lemma div_like_ops: "div_like const_div" "div_like const_mod" "div_like const_divfloor" "div_like const_modfloor"
  using const2big2_unknown
  by (auto simp: div_like_def const_div_def const_mod_def const_divfloor_def const_modfloor_def fill_bits_def
    Let_def out_len_def big2const_eq split: prod.splits)

lemma div_like_strict:
  assumes "div_like f" "0 \<le> n"
  shows "strict_op (\<lambda>a b. f a b s t n)"
proof
  fix a b c d :: bits
  assume "\<not> known a b"
  then have "f a b s t n = Inr (replicate (nat n) Sx)" 
    using assms by (force simp: div_like_def)
  moreover obtain r where "f c d s t n = Inr r" "length r = nat n" 
    using assms unfolding div_like_def by blast
  ultimately show "resolves_result (f a b s t n) (f c d s t n)" by (simp add: resolves_replicate_Sx)
qed

lemma logic_wrapper_sound:
  assumes "\<And>s c t d. resolves s c \<Longrightarrow> resolves t d \<Longrightarrow> resolves (g s t) (g c d)"
  shows "x_sound (\<lambda>a b. Inr (logic_wrapper g a b s t n))"
proof
  fix a c b d :: bits
  assume r: "resolves_bits a c" "resolves_bits b d"
  then have "out_len n c d = out_len n a b" by (intro out_len_cong) (simp_all add: list_all2_lengthD)
  then show "resolves_result (Inr (logic_wrapper g a b s t n)) (Inr (logic_wrapper g c d s t n))"
    using assms resolves_extend_bits [OF r(1), of _ s] resolves_extend_bits [OF r(2), of _ t]
    by (simp add: logic_wrapper_def Let_def list_all2_conv_all_nth)
qed

interpretation land: x_sound "\<lambda>a b. Inr (const_and a b s t n)" for s t n
  unfolding const_and_def by (rule logic_wrapper_sound) (rule resolves_logic)



definition clash :: "State \<Rightarrow> State \<Rightarrow> bool" where
  "clash a b \<longleftrightarrow> is_def a \<and> is_def b \<and> a \<noteq> b"

definition eq_status :: "bits \<Rightarrow> bits \<Rightarrow> State" where
  "eq_status a b = (if list_ex (\<lambda>(x, y). clash x y) (zip a b) then S0
     else if list_all (\<lambda>(x, y). is_def x \<and> is_def y) (zip a b) then S1 else Sx)"

lemma gt_S1: "S1 < s \<longleftrightarrow> \<not> is_def s"
  by (cases s) (simp_all add: less_State_def)

lemma eq_loop_eq:
  assumes "length a = length b" "m = S1 \<or> m = Sx"
  shows "eq_loop a b m = (if list_ex (\<lambda>(x, y). clash x y) (zip a b) then None
     else Some (if list_all (\<lambda>(x, y). is_def x \<and> is_def y) (zip a b) then m else Sx))"
  using assms
proof (induction a b arbitrary: m rule: list_induct2')
  case (4 x xs y ys)
  have "clash x y \<longleftrightarrow> x = S0 \<and> y = S1 \<or> x = S1 \<and> y = S0"
    by (cases x; cases y) (simp_all add: clash_def)
  with 4 show ?case by (auto simp: gt_S1)
qed auto

definition eq_exts :: "bits \<Rightarrow> bits \<Rightarrow> bool \<Rightarrow> bool \<Rightarrow> bits \<times> bits" where
  "eq_exts a b s t = (let w = max (length a) (length b)
     in (extend_bits a w (s \<and> t), extend_bits b w (s \<and> t)))"

lemma set_front_eq: "0 < n \<Longrightarrow> set_front x n = Inr (pad_result x (int n))"
  by (cases n) (auto simp: set_front_def pad_result_def)

lemma const_eq_status:
  assumes "1 \<le> n"
  shows "const_eq a b s t n = Inr (pad_result (case_prod eq_status (eq_exts a b s t)) n)"
proof -
  have "pad_result S0 n = replicate (nat n) S0"
    using assms by (cases "nat n") (auto simp: pad_result_def)
  then show ?thesis using assms
    by (auto simp: const_eq_def eq_exts_def Let_def fill_bits_def eq_loop_eq eq_status_def set_front_eq)
qed

lemma flip_front_pad: "flip_front (pad_result x n) = pad_result (if x = S0 then S1 else if x = S1 then S0 else x) n"
  by (simp add: flip_front_def pad_result_def)

lemma const_ne_status:
  assumes "1 \<le> n"
  shows "const_ne a b s t n = Inr (flip_front (pad_result (case_prod eq_status (eq_exts a b s t)) n))"
  using assms by (simp add: const_ne_def const_eq_status invert_front_def) (simp add: pad_result_def)

lemma int_bits_num_eq:
  assumes "length a \<le> w" "length b \<le> w" 
  shows "int_bits w (num s a) = int_bits w (num s b) \<longleftrightarrow> num s a = num s b"
proof
  assume e: "int_bits w (num s a) = int_bits w (num s b)"
  have same: "bit (num s a) j = bit (num s b) j" if "j < w" for j
    using arg_cong [OF e, of "\<lambda>x. x ! j"] that by simp
  have high: "bit (num s x) j = (0 < w \<and> bit (num s x) (w - 1) \<and> s)" if "length x \<le> w" "w \<le> j" for x j
  proof (cases "x = []")
    case False
    then have "length x - 1 < length x" "0 < w" using that by (cases x; simp)+
    with False that show ?thesis
      by (cases "length x = w") (auto simp: num_def bit_sval bit_uval last_conv_nth)
  qed (simp add: num_def bit_sval bit_uval)
  show "num s a = num s b"
  proof (rule bit_eqI)
    fix j show "bit (num s a) j = bit (num s b) j"
      using same [of j] same [of "w - 1"] high [OF assms(1), of j] high [OF assms(2), of j]
      by (cases "j < w") auto
  qed
qed simp

lemma eq_status_known:
  assumes "known a b" "length a = length b"
  shows "eq_status a b = bool_state (a = b)"
proof -
  have "list_ex (\<lambda>(x, y). clash x y) (zip a b) \<longleftrightarrow> a \<noteq> b"
    using assms by (auto simp: known_def list_ex_iff list_all_length clash_def set_zip list_eq_iff_nth_eq)
  moreover have "list_all (\<lambda>(x, y). is_def x \<and> is_def y) (zip a b)"
    using assms by (auto simp: known_def list_all_length)
  ultimately show ?thesis by (auto simp: eq_status_def)
qed

lemma known_extend: "known a b \<Longrightarrow> known (extend_bits a n s) (extend_bits b m t)"
  by (simp add: known_def extend_bits_known list_all_length)

lemma eq_known:
  assumes "known a b" "1 \<le> n"
  shows "const_eq a b s t n = Inr (pad_result (bool_state (num (s \<and> t) a = num (s \<and> t) b)) n)"
   and "const_ne a b s t n = Inr (pad_result (bool_state (num (s \<and> t) a \<noteq> num (s \<and> t) b)) n)"
proof -
  let ?w = "max (length a) (length b)"
  have "inj_on (map bool_state) UNIV" by (auto intro!: inj_onI dest: map_injective simp: inj_def)
  then have "extend_bits a ?w (s \<and> t) = extend_bits b ?w (s \<and> t) \<longleftrightarrow> num (s \<and> t) a = num (s \<and> t) b"
    using assms(1) int_bits_num_eq [of a ?w b "s \<and> t"]
    by (simp add: known_def extend_bits_known inj_on_eq_iff)
  then have "case_prod eq_status (eq_exts a b s t) = bool_state (num (s \<and> t) a = num (s \<and> t) b)"
    using assms(1) by (simp add: eq_exts_def Let_def eq_status_known known_extend)
  then show "const_eq a b s t n = Inr (pad_result (bool_state (num (s \<and> t) a = num (s \<and> t) b)) n)"
   and "const_ne a b s t n = Inr (pad_result (bool_state (num (s \<and> t) a \<noteq> num (s \<and> t) b)) n)"
    using assms(2) by (simp_all add: const_eq_status const_ne_status flip_front_pad bool_state_def)
qed

lemma resolves_eq_status:
  assumes "resolves_bits a c" "resolves_bits b d"
  shows "resolves (eq_status a b) (eq_status c d)"
proof -
  have "list_ex (\<lambda>(x, y). clash x y) (zip c d)" if "list_ex (\<lambda>(x, y). clash x y) (zip a b)"
    using assms that
    by (fastforce simp: list_ex_iff clash_def resolves_def list_all2_conv_all_nth set_zip)
  moreover have "list_all (\<lambda>(x, y). is_def x \<and> is_def y) (zip c d)" "zip c d = zip a b"
     if "list_all (\<lambda>(x, y). is_def x \<and> is_def y) (zip a b)"
    using assms that
    by (auto simp: resolves_def list_all2_conv_all_nth list_all_length intro!: nth_equalityI)
  ultimately show ?thesis by (auto simp: resolves_def eq_status_def)
qed

lemma resolves_eq_exts:
  assumes "resolves_bits a c" "resolves_bits b d"
  shows "resolves (case_prod eq_status (eq_exts a b s t)) (case_prod eq_status (eq_exts c d s t))"
  using assms list_all2_lengthD [OF assms(1)] list_all2_lengthD [OF assms(2)]
  by (auto simp: eq_exts_def Let_def intro!: resolves_eq_status resolves_extend_bits)

lemma eq_sound:
  assumes "1 \<le> n"
  shows "x_sound (\<lambda>a b. const_eq a b s t n)" "x_sound (\<lambda>a b. const_ne a b s t n)"
proof -
  show "x_sound (\<lambda>a b. const_eq a b s t n)"
    by unfold_locales (use assms resolves_eq_exts in \<open>simp add: const_eq_status resolves_pad\<close>)
  show "x_sound (\<lambda>a b. const_ne a b s t n)"
    by unfold_locales (use assms resolves_eq_exts in 
     \<open>fastforce simp: const_ne_status flip_front_pad resolves_def intro!: resolves_pad\<close>)
qed

section \<open>Shifts\<close>

lemma shift_known:
  assumes "list_all is_def b" 
  shows "const_shift_worker a b sx t dir n v =
    (let off = num t b * dir; len = (if n < 0 then length a else nat n)
     in if sx \<and> a = [] \<and> (\<exists>i < len. 0 \<le> int i + off) then Inl OutOfRange
        else Inr (map (\<lambda>i. let pos = int i + off in if pos < 0 then v
               else if pos \<ge> int (length a) then (if sx then last a else v) else a ! nat pos) [0..<len]))"
  using assms by (auto simp: const_shift_worker_def const2big_val Let_def list_ex_iff)

lemma shift_unknown:
  assumes "\<not> list_all is_def b"
  shows "const_shift_worker a b sx t dir n v = Inr (replicate (if n < 0 then length a else nat n) Sx)"
proof -
  obtain x u where "const2big b t (-1) = (x, u)" by fastforce
  then show ?thesis using const2big_undef [of b "-1" t] assms
    by (simp add: const_shift_worker_def Let_def)
qed

lemma bit_num_nonneg: "0 \<le> num False b" by (simp add: num_def)

lemma extend_u0_eq: "0 \<le> w \<Longrightarrow> extend_u0 a w s = Inr (extend_bits a (nat w) s)"
  by (simp add: extend_u0_def extend_bits_def Let_def resize_bits_def)

lemma amount_nat:
  assumes "0 \<le> n"
  obtains k m where "num False b = int k" "n = int m"
  using assms bit_num_nonneg [of b] nonneg_int_cases by metis

lemma shl_known:
  assumes "known a b" "0 \<le> n"
  shows "const_shl a b s n = Inr (map bool_state (int_bits (nat n) (push_bit (nat (num False b)) (num s a))))"
proof -
  from assms(2) obtain k m where "num False b = int k" "n = int m" by (rule amount_nat)
  then show ?thesis using assms
    by (auto simp: const_shl_def extend_u0_eq shift_known known_def Let_def extend_bits_known
        bit_push_bit_iff of_nat_diff [symmetric] intro!: nth_equalityI simp del: of_nat_diff)
qed

lemma shr_known:
  assumes "known a b" "0 \<le> n"
  shows "const_shr a b s n = Inr (map bool_state (int_bits (nat n)
    (drop_bit (nat (num False b)) (take_bit (max (nat n) (length a)) (num s a)))))"
proof -
  from assms(2) obtain k m where "num False b = int k" "n = int m" by (rule amount_nat)
  then show ?thesis using assms
    by (auto simp: const_shr_def extend_u0_eq shift_known known_def Let_def extend_bits_known
        bit_simps of_nat_max [symmetric] of_nat_add [symmetric] add.commute less_max_iff_disj
        intro!: nth_equalityI simp del: of_nat_max of_nat_add)
qed

lemma sshr_known:
  assumes "known a b" "0 \<le> n" "s \<Longrightarrow> a \<noteq> []"
  shows "const_sshr a b s n = Inr (map bool_state (int_bits (nat n)
    (drop_bit (nat (num False b)) (num s a))))"
proof -
  from assms(2) obtain k m where km: "num False b = int k" "n = int m" by (rule amount_nat)
  have d: "a ! j = bool_state (a ! j = S1)" if "j < length a" for j
    using assms that by (simp add: known_def list_all_length is_def_bool_state)
  have l: "a \<noteq> [] \<Longrightarrow> last a = bool_state (last a = S1)"
    using assms by (simp add: known_def list_all_iff is_def_bool_state)
  have v: "(if length a \<le> j then if s then last a else S0 else a ! j) = bool_state (bit (num s a) j)" for j
    using assms(3) d [of j] l by (auto simp: num_def bit_sval bit_uval ones_def last_map)
  have "a = [] \<Longrightarrow> \<not> s" using assms(3) by blast
  then have "const_sshr a b s n =
      Inr (map (\<lambda>i. if length a \<le> i + k then if s then last a else S0 else a ! (i + k)) [0..<m])"
    using assms(1) km
    by (auto simp add: const_sshr_def shift_known known_def Let_def of_nat_add [symmetric] simp del: of_nat_add)
  then show ?thesis unfolding v km int_bits_def by (simp add: bit_drop_bit_eq o_def add.commute)
qed

lemma shift_worker_sound:
  assumes "0 \<le> n" "sx \<Longrightarrow> a \<noteq> []" "resolves_bits a c" "resolves_bits b d"
  shows "resolves_result (const_shift_worker a b sx t dir n v) (const_shift_worker c d sx t dir n v)"
proof (cases "list_all is_def b")
  case False
  have "c = [] \<Longrightarrow> \<not> sx" using assms(2,3) by auto
  then obtain r where "const_shift_worker c d sx t dir n v = Inr r" "length r = nat n"
    using assms(1) by (cases "list_all is_def d") (auto simp: shift_known shift_unknown Let_def)
  with False show ?thesis using assms(1) by (simp add: shift_unknown resolves_replicate_Sx)
next
  case True
  have d: "d = b" using resolves_known [OF assms(4) True] .
  have len: "length c = length a" using assms(3) by (simp add: list_all2_lengthD)
  have l: "sx \<Longrightarrow> resolves (last a) (last c)" "a = [] \<Longrightarrow> \<not> sx" "c = [] \<Longrightarrow> \<not> sx"
    using assms(2,3) len last_conv_nth [of a] last_conv_nth [of c]
    by (cases "c = []"; auto simp: list_all2_conv_all_nth)+
  have nth: "i < length a \<Longrightarrow> resolves (a ! i) (c ! i)" for i
    using assms(3) by (simp add: list_all2_conv_all_nth)
  show ?thesis using True d len l nth
    by (auto simp: shift_known Let_def list_all2_conv_all_nth)
qed

lemma shift_sound:
  assumes "0 \<le> n"
  shows "x_sound (\<lambda>a b. const_shl a b s n)" "x_sound (\<lambda>a b. const_shr a b s n)"
    "x_sound (\<lambda>a b. const_shift a b s t n)" "x_sound (\<lambda>a b. const_shiftx a b t n)"
  using assms
  by (unfold_locales; simp add: const_shl_def const_shr_def const_shift_def const_shiftx_def extend_u0_eq list_all2_lengthD;
     intro shift_worker_sound resolves_extend_bits; simp)+

section \<open>Multiplexers\<close>

lemma mux_sound:
  assumes "resolves_bits a c" "resolves_bits b d" "resolves_bits e f"
  shows "resolves_result (const_mux a b e) (const_mux c d f)"
proof -
  note l = assms [THEN list_all2_lengthD]
  have "e \<noteq> [] \<Longrightarrow> resolves (e ! 0) (f ! 0)" using assms(3) by (auto simp: list_all2_conv_all_nth)
  then show ?thesis using assms l
    by (auto simp: const_mux_def list_all2_conv_all_nth) (auto simp: resolves_def is_def_def)
qed

definition bmux_half :: "bits \<Rightarrow> State \<Rightarrow> bits" where
  "bmux_half t sel = (let h = length t div 2
     in if sel = S0 then take h t else if sel = S1 then drop h t
        else map (\<lambda>j. if t ! j = t ! (j + h) then t ! j else Sx) [0..<h])"

lemma bmux_half_sound:
  assumes "resolves_bits t u" "resolves x y" "even (length t)"
  shows "resolves_bits (bmux_half t x) (bmux_half u y)"
proof -
  obtain h where h: "length t = h + h" using assms(3) by (metis evenE mult_2)
  have len: "length u = length t" using assms by (simp add: list_all2_lengthD)
  have nth: "i < h + h \<Longrightarrow> resolves (t ! i) (u ! i)" for i
    using assms(1) h by (simp add: list_all2_conv_all_nth)
  show ?thesis using nth nth [of "_ + h"] len h assms(2)
    by (cases x; cases y; fastforce simp: bmux_half_def Let_def list_all2_conv_all_nth resolves_def add.commute)
qed

lemma bmux_loop_Cons: "bmux_loop t (x # xs) = bmux_loop (bmux_half t x) xs"
  by (simp add: bmux_half_def)

lemma length_bmux_half: "even (length t) \<Longrightarrow> length (bmux_half t x) = length t div 2"
  by (auto simp: bmux_half_def Let_def)

lemma bmux_loop_sound:
  assumes "resolves_bits t u" "resolves_bits e f" "2 ^ length e dvd length t"
  shows "resolves_bits (bmux_loop t e) (bmux_loop u f)"
  using assms(2,1,3)
proof (induction e f arbitrary: t u rule: list_all2_induct)
  case (Cons x xs y ys)
  have ev: "even (length t)" using Cons.prems by (auto elim: dvd_mult_left)
  then have "2 ^ length xs dvd length (bmux_half t x)"
    using Cons.prems by (auto simp: length_bmux_half elim!: dvdE)
  then show ?case unfolding bmux_loop_Cons
    using Cons.prems Cons.hyps by (intro Cons.IH bmux_half_sound ev)
qed simp

lemma bmux_loop_known:
  assumes "list_all is_def e" "length t = w * 2 ^ length e"
  shows "bmux_loop t e = take w (drop (w * nat (uval (ones (rev e)))) t)"
  using assms
proof (induction e arbitrary: t)
  case (Cons x xs)
  define k where "k = nat (uval (ones (rev xs)))"
  let ?h = "w * 2 ^ length xs"
  have half: "bmux_half t x = take ?h (drop (if x = S1 then ?h else 0) t)"
    using Cons.prems by (auto simp: bmux_half_def is_def_def Let_def)
  have "k < 2 ^ length xs"
    using uval_less [of "ones (rev xs)"] by (simp add: k_def nat_less_iff)
  then have kw: "w * k + w \<le> ?h"
    using mult_le_mono2 [of "Suc k" "2 ^ length xs" w] by simp
  have u: "nat (uval (ones (rev (x # xs)))) = k + (if x = S1 then 2 ^ length xs else 0)"
    by (simp add: ones_def uval_append k_def nat_add_distrib)
  have "bmux_loop t (x # xs) = take w (drop (w * k) (bmux_half t x))"
    unfolding bmux_loop_Cons k_def using Cons.prems by (intro Cons.IH) (auto simp: length_bmux_half)
  also have "\<dots> = take w (drop (w * nat (uval (ones (rev (x # xs))))) t)"
    unfolding half u using kw by (simp add: drop_take algebra_simps min_absorb1)
  finally show ?case .
qed (simp add: ones_def)

lemma bmux_known:
  assumes "list_all is_def sel" "length a = w * 2 ^ length sel"
  shows "const_bmux a sel = take w (drop (w * nat (num False sel)) a)"
  using bmux_loop_known [of "rev sel" a w] assms by (simp add: const_bmux_def num_def)


lemma onehot_found: "fst (onehot_loop bs i True p) \<longleftrightarrow> bs = replicate (length bs) S0"
  by (induction bs i True p rule: onehot_loop.induct) auto

lemma pmux_onehot:
  assumes "fst (onehot_loop sel i False p)" "length b = (i + length sel) * length a"
  obtains k where "k < length sel" "sel = (replicate (length sel) S0)[k := S1]"
    "pmux_loop a b sel i = Inr (take (length a) (drop ((i + k) * length a) b))"
  using assms
proof (induction sel arbitrary: i p thesis)
  case (Cons x xs)
  show ?case
  proof (cases "x = S1")
    case True
    then have "xs = replicate (length xs) S0" using Cons.prems(2) by (simp add: onehot_found)
    with True show ?thesis using Cons.prems(1) [of 0] Cons.prems(3) by simp
  next
    case False
    then have "fst (onehot_loop xs (Suc i) False p)" and x: "x = S0"
      using Cons.prems(2) by (auto split: if_splits)
    moreover have "length b = (Suc i + length xs) * length a" using Cons.prems(3) by simp
    ultimately obtain k where "k < length xs" "xs = (replicate (length xs) S0)[k := S1]"
      "pmux_loop a b xs (Suc i) = Inr (take (length a) (drop ((Suc i + k) * length a) b))"
      using Cons.IH by blast
    with x show ?thesis using Cons.prems(1) [of "Suc k"] by simp
  qed
qed simp

lemma onehot_unit: "k < n \<Longrightarrow> fst (onehot_loop ((replicate n S0)[k := S1]) i False p)"
proof (induction n arbitrary: k i)
  case (Suc n)
  then show ?case by (cases k) (simp_all add: onehot_found)
qed simp

lemma unit_inj: "(replicate n S0)[k := S1] = (replicate n S0)[j := S1] \<Longrightarrow> k < n \<Longrightarrow> k = j"
  by (metis State.distinct(1) length_replicate nth_list_update_eq nth_list_update_neq nth_replicate)

lemma pmux_unit:
  assumes "k < n" "length b = n * length a"
  shows "const_pmux a b ((replicate n S0)[k := S1]) = Inr (take (length a) (drop (k * length a) b))"
proof -
  let ?sel = "(replicate n S0)[k := S1]"
  have "\<not> list_all (\<lambda>b. b = S0) ?sel"
    using assms(1) by (auto simp: list_all_length nth_list_update)
  moreover obtain j where "j < n" "?sel = (replicate n S0)[j := S1]"
    "pmux_loop a b ?sel 0 = Inr (take (length a) (drop (j * length a) b))"
    using pmux_onehot [OF onehot_unit [OF assms(1), of 0 None], of b a] assms(2) by auto
  ultimately show ?thesis
    using onehot_unit [OF assms(1)] unit_inj [of n k j] assms(1) by (simp add: const_pmux_def)
qed

lemma pmux_zero: "const_pmux a b (replicate n S0) = Inr a"
  by (simp add: const_pmux_def list_all_iff)

lemma onehot_def: "fst (onehot_loop sel i f p) \<Longrightarrow> list_all is_def sel"
  by (induction sel i f p rule: onehot_loop.induct) (auto simp: is_def_def split: if_splits)

lemma length_pmux:
  assumes "length b = length sel * length a"
  shows "\<exists>r. const_pmux a b sel = Inr r \<and> length r = length a"
proof (cases "list_all (\<lambda>b. b = S0) sel \<or> \<not> fst (onehot_loop sel 0 False None)")
  case False
  then obtain k where "k < length sel"
    "pmux_loop a b sel 0 = Inr (take (length a) (drop (k * length a) b))"
    using pmux_onehot [of sel 0 None b a] assms by auto
  moreover have "k * length a + length a \<le> length sel * length a"
    using mult_le_mono1 [of "Suc k" "length sel" "length a"] \<open>k < length sel\<close> by simp
  ultimately show ?thesis using False assms by (auto simp: const_pmux_def)
qed (auto simp: const_pmux_def)

lemma pmux_sound:
  assumes "resolves_bits a c" "resolves_bits b d" "resolves_bits e f" "length b = length e * length a"
  shows "resolves_result (const_pmux a b e) (const_pmux c d f)"
proof -
  note len = assms(1-3) [THEN list_all2_lengthD]
  show ?thesis
  proof (cases "list_all (\<lambda>b. b = S0) e \<or> fst (onehot_loop e 0 False None)")
    case True
    then have "list_all is_def e" using onehot_def [of e] by (auto simp: list_all_iff)
    then have f: "f = e" using resolves_known assms(3) by blast
    show ?thesis
    proof (cases "list_all (\<lambda>b. b = S0) e")
      case False
      with True obtain k where k: "k < length e" "e = (replicate (length e) S0)[k := S1]"
        using pmux_onehot [of e 0 None b a] assms(4) by auto
      have "length d = length e * length c" using assms(4) len by simp
      then have "const_pmux a b e = Inr (take (length a) (drop (k * length a) b))"
        "const_pmux c d e = Inr (take (length c) (drop (k * length c) d))"
        using pmux_unit [OF k(1) assms(4)] pmux_unit [OF k(1), of d c] k(2) by metis+
      then show ?thesis using assms(2) f len(1) by (simp add: list_all2_takeI list_all2_dropI)
    qed (use assms f in \<open>simp add: const_pmux_def\<close>)
  next
    case False
    then have "const_pmux a b e = Inr (replicate (length a) Sx)" by (simp add: const_pmux_def)
    moreover obtain r where "const_pmux c d f = Inr r" "length r = length c"
      using length_pmux [of d f c] assms(4) len by auto
    ultimately show ?thesis using len by (simp add: resolves_replicate_Sx)
  qed
qed

lemma nth_concat_blocks:
  assumes "\<And>i. i < n \<Longrightarrow> length (f i) = m" "i < n" "j < m"
  shows "concat (map f [0..<n]) ! (i * m + j) = f i ! j"
proof -
  have len: "length (concat (map f [0..<k])) = k * m" if "k \<le> n" for k
    using that assms(1) by (induction k) auto
  have "[0..<n] = [0..<i] @ i # [Suc i..<n]" 
    using assms(2) by (metis less_imp_add_positive upt_add_eq_append le0 upt_conv_Cons zero_le less_eq_nat.simps(1) add.left_neutral)
  then have "concat (map f [0..<n]) = concat (map f [0..<i]) @ f i @ concat (map f [Suc i..<n])"
    by simp
  then show ?thesis using len [of i] assms by (simp add: nth_append)
qed

lemma demux_select:
  assumes "list_all is_def sel" "length sel < 31" "i < 2 ^ length sel" "j < length a"
  shows "\<exists>r. const_demux a sel = Inr r \<and> length r = length a * 2 ^ length sel \<and>
    r ! (i * length a + j) = (if int i = num False sel then a ! j else S0)"
proof -
  define ne where "ne = (\<lambda>i :: nat. list_ex (\<lambda>j. sel ! j = (if bit i j then S0 else S1)) [0..<length sel])"
  let ?blk = "demux_block a sel"
  have x: "\<not> list_ex (\<lambda>j. sel ! j \<noteq> S0 \<and> sel ! j \<noteq> S1) [0..<length sel]"
    using assms(1) by (auto simp: list_all_length list_ex_iff is_def_def)
  have blk_def: "?blk i = (if ne i then replicate (length a) S0 else a)" for i
    using x by (simp add: demux_block_def ne_def)
  have r: "const_demux a sel = Inr (concat (map ?blk [0..<2 ^ length sel]))"
    using assms(2) by (simp add: const_demux_def)
  have "ne i \<longleftrightarrow> (\<exists>j < length sel. bit i j \<noteq> (sel ! j = S1))"
    using assms(1) by (force simp: ne_def list_ex_iff list_all_length is_def_def)
  also have "\<dots> \<longleftrightarrow> int_bits (length sel) (int i) \<noteq> ones sel"
    by (auto simp: list_eq_iff_nth_eq ones_def bit_of_nat_iff_bit)
  also have "\<dots> \<longleftrightarrow> int i \<noteq> num False sel"
    using uval_int_bits [of "length sel" "int i"] uval_inj [of "int_bits (length sel) (int i)" "ones sel"] assms(3)
    by (auto simp: num_def)
  finally have "?blk i ! j = (if int i = num False sel then a ! j else S0)"
    using assms(4) by (simp add: blk_def)
  moreover have "length (concat (map ?blk [0..<k])) = k * length a" for k
    by (induction k) (auto simp: blk_def)
  ultimately show ?thesis
    using r nth_concat_blocks [of "2 ^ length sel" ?blk "length a" i j] assms(3,4) by (simp add: blk_def mult.commute)
qed


lemma foldl_sound:
  assumes "\<And>s c t d. resolves s c \<Longrightarrow> resolves t d \<Longrightarrow> resolves (g s t) (g c d)"
    and "resolves_bits a c" "resolves s t"
  shows "resolves (foldl g s a) (foldl g t c)"
  using assms(2,3)
  by (induction a c arbitrary: s t rule: list_all2_induct) (auto intro: assms(1))

lemma flip_front_sound:
  "resolves_bits a c \<Longrightarrow> resolves_bits (flip_front a) (flip_front c)"
  by (cases a; cases c) (auto simp: flip_front_def resolves_def)

lemma unary_sound:
  assumes "resolves_bits a c"
  shows "resolves_bits (const_not a s n) (const_not c s n)"
    and "resolves_bits (const_reduce_and a n) (const_reduce_and c n)"
    and "resolves_bits (const_reduce_or a n) (const_reduce_or c n)"
    and "resolves_bits (const_reduce_xor a n) (const_reduce_xor c n)"
    and "resolves_bits (const_reduce_xnor a n) (const_reduce_xnor c n)"
    and "resolves_bits (const_reduce_bool a n) (const_reduce_bool c n)"
    and "resolves_bits (const_logic_not a s n) (const_logic_not c s n)"
    and "resolves_bits (const_neg a s n) (const_neg c s n)"
    and "resolves_result (const_pos a s m) (const_pos c s m)"
proof -
  have len: "length c = length a" using assms by (simp add: list_all2_lengthD)
  show "resolves_bits (const_not a s n) (const_not c s n)"
    using resolves_extend_bits [OF assms, of _ s] len
    by (auto simp: const_not_def Let_def list_all2_conv_all_nth; fastforce simp: resolves_def)
  show "resolves_bits (const_reduce_and a n) (const_reduce_and c n)"
    "resolves_bits (const_reduce_or a n) (const_reduce_or c n)"
    "resolves_bits (const_reduce_xor a n) (const_reduce_xor c n)"
    "resolves_bits (const_reduce_xnor a n) (const_reduce_xnor c n)"
    "resolves_bits (const_reduce_bool a n) (const_reduce_bool c n)"
    unfolding const_reduce_and_def const_reduce_or_def const_reduce_xor_def const_reduce_xnor_def
      const_reduce_bool_def logic_reduce_wrapper_def
    by (simp_all add: flip_front_sound resolves_pad foldl_sound assms resolves_logic)
  show "resolves_bits (const_logic_not a s n) (const_logic_not c s n)"
    unfolding logic_ops_truth(3) using resolves_truth [OF assms]
    by (intro resolves_pad) (auto simp: resolves_def bits_truth_def split: if_splits)
  show "resolves_bits (const_neg a s n) (const_neg c s n)"
    using sub.mono [OF resolves_bits_refl assms, of "[S0]" True s n] by (simp add: const_neg_def)
  show "resolves_result (const_pos a s m) (const_pos c s m)"
    using resolves_extend_bits [OF assms, of "nat m" s]
    by (cases "0 \<le> m") (auto simp: const_pos_def extend_u0_eq, simp add: extend_u0_def resize_bits_def)
qed

lemma logic_truth_sound:
  assumes "resolves_bits a c" "resolves_bits b d"
  shows "resolves_bits (const_logic_and a b s t n) (const_logic_and c d s t n)"
    "resolves_bits (const_logic_or a b s t n) (const_logic_or c d s t n)"
  unfolding logic_ops_truth by (intro resolves_pad resolves_logic resolves_truth assms)+

lemma demux_sound:
  assumes "resolves_bits a c" "resolves_bits e f"
  shows "resolves_result (const_demux a e) (const_demux c f)"
proof -
  note len = assms [THEN list_all2_lengthD]
  have nth: "resolves (a ! i) (c ! i)" if "i < length a" for i
    using assms(1) that by (simp add: list_all2_conv_all_nth)
  have ef: "e ! i = S0 \<Longrightarrow> f ! i = S0" "e ! i = S1 \<Longrightarrow> f ! i = S1" if "i < length e" for i
    using assms(2) that by (auto simp: list_all2_conv_all_nth resolves_def is_def_def)
  have "resolves_bits (demux_block a e i) (demux_block c f i)" for i
  proof (cases "list_ex (\<lambda>j. e ! j = (if bit i j then S0 else S1)) [0..<length e]")
    case True
    then obtain j where "j < length e" "e ! j = (if bit i j then S0 else S1)"
      by (auto simp: list_ex_iff)
    then have "j < length f" "f ! j = (if bit i j then S0 else S1)"
      using ef [of j] len by (auto split: if_splits)
    then have "list_ex (\<lambda>j. f ! j = (if bit i j then S0 else S1)) [0..<length f]"
      unfolding list_ex_iff by (intro bexI [of _ j]) simp_all
    with True show ?thesis using len by (simp add: demux_block_def Let_def)
  next
    case ne: False
    show ?thesis
    proof (cases "list_all is_def e")
      case True
      then have "f = e" using resolves_known assms(2) by blast
      moreover have "\<not> list_ex (\<lambda>j. e ! j \<noteq> S0 \<and> e ! j \<noteq> S1) [0..<length e]"
        using True by (auto simp: list_ex_iff list_all_length is_def_def)
      ultimately show ?thesis using ne assms(1) by (simp add: demux_block_def Let_def)
    next
      case False
      then have "list_ex (\<lambda>j. e ! j \<noteq> S0 \<and> e ! j \<noteq> S1) [0..<length e]"
        by (auto simp: list_all_length list_ex_iff is_def_def)
      with ne show ?thesis using nth len
        by (auto simp: demux_block_def Let_def list_all2_conv_all_nth resolves_def is_def_def)
    qed
  qed
  then have "resolves_bits (concat (map (demux_block a e) is)) (concat (map (demux_block c f) is))" for "is"
    by (induction "is") (auto intro: list_all2_appendI)
  then show ?thesis using len by (simp add: const_demux_def Let_def)
qed

section \<open>Guarantees\<close>

text \<open>C36: Addition, subtraction and multiplication of constants compute the integer result reduced to the
  result width when every bit of both operands is defined, for every mix of signedness and every
  width; a single undefined bit makes every result bit undefined.\<close>

theorem calc_add_sub_mul:
  "const_add a b s t n = (if known a b
     then map bool_state (int_bits (out_len n a b) (num s a + num t b)) else replicate (out_len n a b) Sx) \<and>
   const_sub a b s t n = (if known a b
     then map bool_state (int_bits (out_len n a b) (num s a - num t b)) else replicate (out_len n a b) Sx) \<and>
   const_mul a b s t n = (if known a b
     then map bool_state (int_bits (out_len n a b) (num s a * num t b)) else replicate (out_len n a b) Sx)"
  by (simp add: arith_known arith_unknown)

text \<open>C37: With a result width that is not negative, division and remainder round towards zero and their
  floor versions round down, on all signs; a zero divisor or an undefined bit in an operand makes the
  whole result undefined.\<close>

theorem calc_division:
  assumes "0 \<le> n"
  shows "const_div a b s t n = Inr (if known a b \<and> num t b \<noteq> 0
      then map bool_state (int_bits (nat n) (num s a sdiv num t b)) else replicate (nat n) Sx) \<and>
    const_mod a b s t n = Inr (if known a b \<and> num t b \<noteq> 0
      then map bool_state (int_bits (nat n) (num s a smod num t b)) else replicate (nat n) Sx) \<and>
    const_divfloor a b s t n = Inr (if known a b \<and> num t b \<noteq> 0
      then map bool_state (int_bits (nat n) (num s a div num t b)) else replicate (nat n) Sx) \<and>
    const_modfloor a b s t n = Inr (if known a b \<and> num t b \<noteq> 0
      then map bool_state (int_bits (nat n) (num s a mod num t b)) else replicate (nat n) Sx)"
proof -
  have out: "out_len n a b = nat n" using assms by (simp add: out_len_def)
  have zero: "const_div a b s t n = Inr (replicate (nat n) Sx)"
    "const_mod a b s t n = Inr (replicate (nat n) Sx)"
    "const_divfloor a b s t n = Inr (replicate (nat n) Sx)"
    "const_modfloor a b s t n = Inr (replicate (nat n) Sx)" if "known a b" "num t b = 0"
    using that assms
    by (simp_all add: const_div_def const_mod_def const_divfloor_def const_modfloor_def const2big2_known
        fill_bits_def)
  have unk: "const_div a b s t n = Inr (replicate (nat n) Sx)"
    "const_mod a b s t n = Inr (replicate (nat n) Sx)"
    "const_divfloor a b s t n = Inr (replicate (nat n) Sx)"
    "const_modfloor a b s t n = Inr (replicate (nat n) Sx)" if "\<not> known a b"
    using div_like_ops assms that unfolding div_like_def by metis+
  show ?thesis
    using zero unk div_known [of a b t s n] divfloor_known [of a b t s n] out by auto
qed

theorem calc_division_witness:
  "const_div [S1, S0, S0, S1] [S0, S1, S0] True True 4 = Inr [S1, S0, S1, S1] \<and>
   const_divfloor [S1, S0, S0, S1] [S0, S1, S0] True True 4 = Inr [S0, S0, S1, S1]"
proof -
  have "known [S1, S0, S0, S1] [S0, S1, S0]" by (simp add: known_def)
  moreover have "num True [S1, S0, S0, S1] = -7" "num True [S0, S1, S0] = 2"
    by (simp_all add: num_def sval_def ones_def)
  ultimately show ?thesis
    using calc_division [of 4 "[S1, S0, S0, S1]" "[S0, S1, S0]" True True]
    by (simp add: signed_divide_int_def) (simp add: int_bits_def upt_rec bool_state_def bit_iff_odd)
qed

text \<open>For defined operands and an exponent that is not negative, the modular square-and-multiply loop
  of the power operator computes the integer power reduced to the result width, also for a negative
  base.\<close>

lemma calc_power:
  assumes "known a b" "0 \<le> num t b" "0 \<le> n"
  shows "const_pow a b s t n = Inr (map bool_state (int_bits (nat n) (num s a ^ nat (num t b))))"
  using pow_known [OF assms(1) _ assms(3), of t s] pow_zero [OF assms(1) _ assms(3), of t s] assms(2)
  by (cases "num t b = 0") auto

text \<open>On defined operands the bitwise operators are the bitwise operations on the operands'
  values, sign- or zero-extended to the result width.\<close>

lemma calc_bitwise:
  assumes "known a b"
  shows "const_and a b s t n = map bool_state (int_bits (out_len n a b) (num s a AND num t b)) \<and>
    const_or a b s t n = map bool_state (int_bits (out_len n a b) (num s a OR num t b)) \<and>
    const_xor a b s t n = map bool_state (int_bits (out_len n a b) (num s a XOR num t b)) \<and>
    const_xnor a b s t n = map bool_state (int_bits (out_len n a b) (NOT (num s a XOR num t b))) \<and>
    const_not a s n = map bool_state (int_bits (if n < 0 then length a else nat n) (NOT (num s a)))"
  using logic_known [OF assms] not_known [of a] assms by (simp add: known_def)

text \<open>On defined operands the six comparison operators decide the corresponding relation of the
  integer values in the first result bit and clear the others; equality compares as signed numbers
  only when both operands are signed.\<close>

lemma calc_comparisons:
  assumes "known a b" "1 \<le> n"
  shows "const_lt a b s t n = pad_result (bool_state (num s a < num t b)) n \<and>
    const_le a b s t n = pad_result (bool_state (num s a \<le> num t b)) n \<and>
    const_ge a b s t n = pad_result (bool_state (num s a \<ge> num t b)) n \<and>
    const_gt a b s t n = pad_result (bool_state (num s a > num t b)) n \<and>
    const_eq a b s t n = Inr (pad_result (bool_state (num (s \<and> t) a = num (s \<and> t) b)) n) \<and>
    const_ne a b s t n = Inr (pad_result (bool_state (num (s \<and> t) a \<noteq> num (s \<and> t) b)) n)"
  using compare_known [OF assms(1)] eq_known [OF assms] by simp

text \<open>On defined operands the shift operators shift the value of the first operand by the unsigned
  value of the second, for shift amounts of any size: left shifts insert zeros, the arithmetic right
  shift repeats the sign, and the logical right shift works on the value cut to the larger of the
  operand and the result width.\<close>

lemma calc_shifts:
  assumes "known a b" "0 \<le> n" "a \<noteq> []"
  shows "const_shl a b s n = Inr (map bool_state (int_bits (nat n) (push_bit (nat (num False b)) (num s a)))) \<and>
    const_shr a b s n = Inr (map bool_state (int_bits (nat n)
      (drop_bit (nat (num False b)) (take_bit (max (nat n) (length a)) (num s a))))) \<and>
    const_sshr a b s n = Inr (map bool_state (int_bits (nat n) (drop_bit (nat (num False b)) (num s a))))"
  using shl_known [OF assms(1,2)] shr_known [OF assms(1,2)] sshr_known [OF assms(1,2)] assms(3) by simp

text \<open>A multiplexer tree with a defined select picks the slice of its input that the select
  numbers, and a one-hot multiplexer the slice of the selected position.\<close>

lemma calc_multiplexers:
  assumes "list_all is_def sel" "length a = w * 2 ^ length sel" "k < m" "length b = m * w" "length d = w"
  shows "const_bmux a sel = take w (drop (w * nat (num False sel)) a) \<and>
    const_pmux d b ((replicate m S0)[k := S1]) = Inr (take w (drop (k * w) b)) \<and>
    const_pmux d b (replicate m S0) = Inr d"
  using bmux_known [OF assms(1,2)] pmux_unit [OF assms(3), of b d] pmux_zero assms(4,5) by simp

end
