(* ===== verification/CellTypes.thy ===== *)
theory CellTypes
  imports Calc_Laws
begin

text \<open>
  The table of cell types and the evaluation of cells on constant inputs:
  \<open>kernel/celltypes.h\<close>. An \<open>IdString\<close> is its string, with the leading dollar sign of internal
  names; a \<open>pool\<close> of port names is a list read as a set, and the \<open>dict\<close> of cell types is a map,
  since the code only ever looks types up in it.
\<close>

section \<open>The table of cell types\<close>

record CellType =
  type :: string
  inputs :: "string list"
  outputs :: "string list"
  is_evaluable :: bool
  is_combinatorial :: bool
  is_synthesizable :: bool

type_synonym cell_types = "string \<rightharpoonup> CellType"

datatype PortDir = PD_UNKNOWN | PD_INPUT | PD_OUTPUT | PD_INOUT

definition setup_type ::
    "string \<Rightarrow> string list \<Rightarrow> string list \<Rightarrow> bool \<Rightarrow> cell_types \<Rightarrow> cell_types" where
  "setup_type ty ins outs evaluable ct =
     ct(ty \<mapsto> \<lparr>type = ty, inputs = ins, outputs = outs, is_evaluable = evaluable,
                is_combinatorial = False, is_synthesizable = False\<rparr>)"

text \<open>A port of a module: its wire's name, \<open>port_input\<close> and \<open>port_output\<close>.\<close>

definition setup_module :: "string \<Rightarrow> (string \<times> bool \<times> bool) list \<Rightarrow> cell_types \<Rightarrow> cell_types" where
  "setup_module name ports =
     setup_type name (map fst (filter (\<lambda>(_, i, _). i) ports))
       (map fst (filter (\<lambda>(_, _, out). out) ports)) False"

definition setup_design :: "(string \<times> (string \<times> bool \<times> bool) list) list \<Rightarrow> cell_types \<Rightarrow> cell_types" where
  "setup_design modules ct = fold (\<lambda>(name, ports). setup_module name ports) modules ct"

definition unary_ops :: "string list" where
  "unary_ops = [''$not'', ''$pos'', ''$buf'', ''$neg'', ''$reduce_and'', ''$reduce_or'',
     ''$reduce_xor'', ''$reduce_xnor'', ''$reduce_bool'', ''$logic_not'', ''$slice'', ''$lut'', ''$sop'']"

definition binary_ops :: "string list" where
  "binary_ops = [''$and'', ''$or'', ''$xor'', ''$xnor'', ''$shl'', ''$shr'', ''$sshl'', ''$sshr'',
     ''$shift'', ''$shiftx'', ''$lt'', ''$le'', ''$eq'', ''$ne'', ''$eqx'', ''$nex'', ''$ge'', ''$gt'',
     ''$add'', ''$sub'', ''$mul'', ''$div'', ''$mod'', ''$divfloor'', ''$modfloor'', ''$pow'',
     ''$logic_and'', ''$logic_or'', ''$concat'', ''$macc'', ''$bweqx'']"

text \<open>A list of calls of \<open>setup_type\<close>, run in order.\<close>

definition setup_all :: "(string \<times> string list \<times> string list \<times> bool) list \<Rightarrow> cell_types \<Rightarrow> cell_types" where
  "setup_all rows ct = fold (\<lambda>(ty, ins, outs, ev). setup_type ty ins outs ev) rows ct"

definition setup_internals_eval :: "cell_types \<Rightarrow> cell_types" where
  "setup_internals_eval ct = setup_all
     (map (\<lambda>ty. (ty, [''A''], [''Y''], True)) unary_ops @
      map (\<lambda>ty. (ty, [''A'', ''B''], [''Y''], True)) binary_ops @
      map (\<lambda>ty. (ty, [''A'', ''B'', ''S''], [''Y''], True)) [''$mux'', ''$pmux'', ''$bwmux''] @
      map (\<lambda>ty. (ty, [''A'', ''S''], [''Y''], True)) [''$bmux'', ''$demux''] @
      [(''$lcu'', [''P'', ''G'', ''CI''], [''CO''], True),
       (''$alu'', [''A'', ''B'', ''CI'', ''BI''], [''X'', ''Y'', ''CO''], True),
       (''$macc_v2'', [''A'', ''B'', ''C''], [''Y''], True),
       (''$fa'', [''A'', ''B'', ''C''], [''X'', ''Y''], True)]) ct"

definition setup_internals :: "cell_types \<Rightarrow> cell_types" where
  "setup_internals ct = setup_all
     [(''$tribuf'', [''A'', ''EN''], [''Y''], True),
      (''$assert'', [''A'', ''EN''], [], True),
      (''$assume'', [''A'', ''EN''], [], True),
      (''$live'', [''A'', ''EN''], [], True),
      (''$fair'', [''A'', ''EN''], [], True),
      (''$cover'', [''A'', ''EN''], [], True),
      (''$initstate'', [], [''Y''], True),
      (''$anyconst'', [], [''Y''], True),
      (''$anyseq'', [], [''Y''], True),
      (''$allconst'', [], [''Y''], True),
      (''$allseq'', [], [''Y''], True),
      (''$equiv'', [''A'', ''B''], [''Y''], True),
      (''$specify2'', [''EN'', ''SRC'', ''DST''], [], True),
      (''$specify3'', [''EN'', ''SRC'', ''DST'', ''DAT''], [], True),
      (''$specrule'', [''EN_SRC'', ''EN_DST'', ''SRC'', ''DST''], [], True),
      (''$print'', [''EN'', ''ARGS'', ''TRG''], [], False),
      (''$check'', [''A'', ''EN'', ''ARGS'', ''TRG''], [], False),
      (''$set_tag'', [''A'', ''SET'', ''CLR''], [''Y''], False),
      (''$get_tag'', [''A''], [''Y''], False),
      (''$overwrite_tag'', [''A'', ''SET'', ''CLR''], [], False),
      (''$original_tag'', [''A''], [''Y''], False),
      (''$future_ff'', [''A''], [''Y''], False),
      (''$scopeinfo'', [], [], False),
      (''$input_port'', [], [''Y''], False),
      (''$connect'', [''A'', ''B''], [], False)] (setup_internals_eval ct)"

definition setup_internals_ff :: "cell_types \<Rightarrow> cell_types" where
  "setup_internals_ff ct = setup_all
     [(''$sr'', [''SET'', ''CLR''], [''Q''], False),
      (''$ff'', [''D''], [''Q''], False),
      (''$dff'', [''CLK'', ''D''], [''Q''], False),
      (''$dffe'', [''CLK'', ''EN'', ''D''], [''Q''], False),
      (''$dffsr'', [''CLK'', ''SET'', ''CLR'', ''D''], [''Q''], False),
      (''$dffsre'', [''CLK'', ''SET'', ''CLR'', ''D'', ''EN''], [''Q''], False),
      (''$adff'', [''CLK'', ''ARST'', ''D''], [''Q''], False),
      (''$adffe'', [''CLK'', ''ARST'', ''D'', ''EN''], [''Q''], False),
      (''$aldff'', [''CLK'', ''ALOAD'', ''AD'', ''D''], [''Q''], False),
      (''$aldffe'', [''CLK'', ''ALOAD'', ''AD'', ''D'', ''EN''], [''Q''], False),
      (''$sdff'', [''CLK'', ''SRST'', ''D''], [''Q''], False),
      (''$sdffe'', [''CLK'', ''SRST'', ''D'', ''EN''], [''Q''], False),
      (''$sdffce'', [''CLK'', ''SRST'', ''D'', ''EN''], [''Q''], False),
      (''$dlatch'', [''EN'', ''D''], [''Q''], False),
      (''$adlatch'', [''EN'', ''D'', ''ARST''], [''Q''], False),
      (''$dlatchsr'', [''EN'', ''SET'', ''CLR'', ''D''], [''Q''], False)] ct"

definition setup_internals_anyinit :: "cell_types \<Rightarrow> cell_types" where
  "setup_internals_anyinit ct = setup_type ''$anyinit'' [''D''] [''Q''] False ct"

definition setup_internals_mem :: "cell_types \<Rightarrow> cell_types" where
  "setup_internals_mem ct = setup_all
     [(''$memrd'', [''CLK'', ''EN'', ''ADDR''], [''DATA''], False),
      (''$memrd_v2'', [''CLK'', ''EN'', ''ARST'', ''SRST'', ''ADDR''], [''DATA''], False),
      (''$memwr'', [''CLK'', ''EN'', ''ADDR'', ''DATA''], [], False),
      (''$memwr_v2'', [''CLK'', ''EN'', ''ADDR'', ''DATA''], [], False),
      (''$meminit'', [''ADDR'', ''DATA''], [], False),
      (''$meminit_v2'', [''ADDR'', ''DATA'', ''EN''], [], False),
      (''$mem'', [''RD_CLK'', ''RD_EN'', ''RD_ADDR'', ''WR_CLK'', ''WR_EN'', ''WR_ADDR'', ''WR_DATA''],
         [''RD_DATA''], False),
      (''$mem_v2'', [''RD_CLK'', ''RD_EN'', ''RD_ARST'', ''RD_SRST'', ''RD_ADDR'', ''WR_CLK'', ''WR_EN'',
         ''WR_ADDR'', ''WR_DATA''], [''RD_DATA''], False),
      (''$fsm'', [''CLK'', ''ARST'', ''CTRL_IN''], [''CTRL_OUT''], False)] (setup_internals_ff ct)"

definition setup_stdcells_eval :: "cell_types \<Rightarrow> cell_types" where
  "setup_stdcells_eval ct = setup_all
     [(''$_BUF_'', [''A''], [''Y''], True),
      (''$_NOT_'', [''A''], [''Y''], True),
      (''$_AND_'', [''A'', ''B''], [''Y''], True),
      (''$_NAND_'', [''A'', ''B''], [''Y''], True),
      (''$_OR_'', [''A'', ''B''], [''Y''], True),
      (''$_NOR_'', [''A'', ''B''], [''Y''], True),
      (''$_XOR_'', [''A'', ''B''], [''Y''], True),
      (''$_XNOR_'', [''A'', ''B''], [''Y''], True),
      (''$_ANDNOT_'', [''A'', ''B''], [''Y''], True),
      (''$_ORNOT_'', [''A'', ''B''], [''Y''], True),
      (''$_MUX_'', [''A'', ''B'', ''S''], [''Y''], True),
      (''$_NMUX_'', [''A'', ''B'', ''S''], [''Y''], True),
      (''$_MUX4_'', [''A'', ''B'', ''C'', ''D'', ''S'', ''T''], [''Y''], True),
      (''$_MUX8_'', [''A'', ''B'', ''C'', ''D'', ''E'', ''F'', ''G'', ''H'', ''S'', ''T'', ''U''], [''Y''], True),
      (''$_MUX16_'', [''A'', ''B'', ''C'', ''D'', ''E'', ''F'', ''G'', ''H''] @ [''I'', ''J'', ''K'', ''L'', ''M'',
         ''N'', ''O'', ''P''] @ [''S'', ''T'', ''U'', ''V''], [''Y''], True),
      (''$_AOI3_'', [''A'', ''B'', ''C''], [''Y''], True),
      (''$_OAI3_'', [''A'', ''B'', ''C''], [''Y''], True),
      (''$_AOI4_'', [''A'', ''B'', ''C'', ''D''], [''Y''], True),
      (''$_OAI4_'', [''A'', ''B'', ''C'', ''D''], [''Y''], True)] ct"

definition setup_stdcells :: "cell_types \<Rightarrow> cell_types" where
  "setup_stdcells ct = setup_type ''$_TBUF_'' [''A'', ''E''] [''Y''] True (setup_stdcells_eval ct)"

text \<open>
  The nested loops over polarities: \<open>combos\<close> lists the suffixes in the order of the loops, and
  a family registers one type per suffix.
\<close>

definition list_np :: string where "list_np = ''NP''"
definition list_01 :: string where "list_01 = ''01''"

fun combos :: "string list \<Rightarrow> string list" where
  "combos [] = [[]]"
| "combos (cs # css) = concat (map (\<lambda>c. map (\<lambda>r. c # r) (combos css)) cs)"

definition family ::
    "string \<Rightarrow> string list \<Rightarrow> string list \<Rightarrow> (string \<times> string list \<times> string list \<times> bool) list" where
  "family prefix loops ins =
     map (\<lambda>suffix. (prefix @ suffix @ ''_'', ins, [''Q''], False)) (combos loops)"

definition setup_stdcells_mem :: "cell_types \<Rightarrow> cell_types" where
  "setup_stdcells_mem ct = setup_all
     (family ''$_SR_'' [list_np, list_np] [''S'', ''R''] @
      [(''$_FF_'', [''D''], [''Q''], False)] @
      family ''$_DFF_'' [list_np] [''C'', ''D''] @
      family ''$_DFFE_'' [list_np, list_np] [''C'', ''D'', ''E''] @
      family ''$_DFF_'' [list_np, list_np, list_01] [''C'', ''R'', ''D''] @
      family ''$_DFFE_'' [list_np, list_np, list_01, list_np] [''C'', ''R'', ''D'', ''E''] @
      family ''$_ALDFF_'' [list_np, list_np] [''C'', ''L'', ''AD'', ''D''] @
      family ''$_ALDFFE_'' [list_np, list_np, list_np] [''C'', ''L'', ''AD'', ''D'', ''E''] @
      family ''$_DFFSR_'' [list_np, list_np, list_np] [''C'', ''S'', ''R'', ''D''] @
      family ''$_DFFSRE_'' [list_np, list_np, list_np, list_np] [''C'', ''S'', ''R'', ''D'', ''E''] @
      family ''$_SDFF_'' [list_np, list_np, list_01] [''C'', ''R'', ''D''] @
      family ''$_SDFFE_'' [list_np, list_np, list_01, list_np] [''C'', ''R'', ''D'', ''E''] @
      family ''$_SDFFCE_'' [list_np, list_np, list_01, list_np] [''C'', ''R'', ''D'', ''E''] @
      family ''$_DLATCH_'' [list_np] [''E'', ''D''] @
      family ''$_DLATCH_'' [list_np, list_np, list_01] [''E'', ''R'', ''D''] @
      family ''$_DLATCHSR_'' [list_np, list_np, list_np] [''E'', ''S'', ''R'', ''D'']) ct"

text \<open>\<open>CellTypes::setup\<close> with an optional design.\<close>

definition setup_celltypes ::
    "(string \<times> (string \<times> bool \<times> bool) list) list option \<Rightarrow> cell_types \<Rightarrow> cell_types" where
  "setup_celltypes design ct =
     setup_stdcells_mem (setup_stdcells (setup_internals_anyinit (setup_internals_mem (setup_internals
       (case design of None \<Rightarrow> ct | Some modules \<Rightarrow> setup_design modules ct)))))"

definition clear :: "cell_types \<Rightarrow> cell_types" where
  "clear ct = Map.empty"

definition cell_known :: "cell_types \<Rightarrow> string \<Rightarrow> bool" where
  "cell_known ct ty = (ct ty \<noteq> None)"

definition cell_output :: "cell_types \<Rightarrow> string \<Rightarrow> string \<Rightarrow> bool" where
  "cell_output ct ty port = (case ct ty of None \<Rightarrow> False | Some c \<Rightarrow> port \<in> set (outputs c))"

definition cell_input :: "cell_types \<Rightarrow> string \<Rightarrow> string \<Rightarrow> bool" where
  "cell_input ct ty port = (case ct ty of None \<Rightarrow> False | Some c \<Rightarrow> port \<in> set (inputs c))"

text \<open>The cast of \<open>is_input + is_output * 2\<close> to the enumeration.\<close>

definition cell_port_dir :: "cell_types \<Rightarrow> string \<Rightarrow> string \<Rightarrow> PortDir" where
  "cell_port_dir ct ty port = (case ct ty of
     None \<Rightarrow> PD_UNKNOWN
   | Some c \<Rightarrow>
       [PD_UNKNOWN, PD_INPUT, PD_OUTPUT, PD_INOUT] !
         (of_bool (port \<in> set (inputs c)) + of_bool (port \<in> set (outputs c)) * 2))"

definition cell_evaluable :: "cell_types \<Rightarrow> string \<Rightarrow> bool" where
  "cell_evaluable ct ty = (case ct ty of None \<Rightarrow> False | Some c \<Rightarrow> is_evaluable c)"

section \<open>Evaluation of cells\<close>

text \<open>
  A cell here is its type and its parameters; the connections play no part in the evaluation.
  The outcome of an evaluation is the result bits and whether \<open>*errp\<close> was set; \<open>errp\<close> says
  whether the caller passed a pointer.
\<close>

record Cell =
  cell_type :: string
  parameters :: "string \<rightharpoonup> Const"

type_synonym eval_result = "(bits \<times> bool) result"

abbreviation ok :: "bits \<Rightarrow> eval_result" where
  "ok b \<equiv> Inr (b, False)"

definition lift_ok :: "bits result \<Rightarrow> eval_result" where
  "lift_ok r = rmap (\<lambda>b. (b, False)) r"

definition invert_state :: "State \<Rightarrow> State" where
  "invert_state b = (if b = S0 then S1 else if b = S1 then S0 else b)"

definition eval_not :: "bits \<Rightarrow> bits" where
  "eval_not v = map invert_state v"

definition keep_signs :: "string list" where
  "keep_signs = [''$sshr'', ''$sshl'', ''$shr'', ''$shl'', ''$shift'', ''$shiftx'', ''$pos'', ''$buf'', ''$neg'', ''$not'']"

text \<open>The chain of \<open>HANDLE_CELL_TYPE\<close> tests; \<open>None\<close> when no test applies.\<close>

definition eval_word_op :: "string \<Rightarrow> bits \<Rightarrow> bits \<Rightarrow> bool \<Rightarrow> bool \<Rightarrow> int \<Rightarrow> bits result option" where
  "eval_word_op ty a b s t n =
     (if ty = ''$not'' then Some (Inr (const_not a s n))
      else if ty = ''$and'' then Some (Inr (const_and a b s t n))
      else if ty = ''$or'' then Some (Inr (const_or a b s t n))
      else if ty = ''$xor'' then Some (Inr (const_xor a b s t n))
      else if ty = ''$xnor'' then Some (Inr (const_xnor a b s t n))
      else if ty = ''$reduce_and'' then Some (Inr (const_reduce_and a n))
      else if ty = ''$reduce_or'' then Some (Inr (const_reduce_or a n))
      else if ty = ''$reduce_xor'' then Some (Inr (const_reduce_xor a n))
      else if ty = ''$reduce_xnor'' then Some (Inr (const_reduce_xnor a n))
      else if ty = ''$reduce_bool'' then Some (Inr (const_reduce_bool a n))
      else if ty = ''$logic_not'' then Some (Inr (const_logic_not a s n))
      else if ty = ''$logic_and'' then Some (Inr (const_logic_and a b s t n))
      else if ty = ''$logic_or'' then Some (Inr (const_logic_or a b s t n))
      else if ty = ''$shl'' then Some (const_shl a b s n)
      else if ty = ''$shr'' then Some (const_shr a b s n)
      else if ty = ''$sshl'' then Some (const_sshl a b s n)
      else if ty = ''$sshr'' then Some (const_sshr a b s n)
      else if ty = ''$shift'' then Some (const_shift a b s t n)
      else if ty = ''$shiftx'' then Some (const_shiftx a b t n)
      else if ty = ''$lt'' then Some (Inr (const_lt a b s t n))
      else if ty = ''$le'' then Some (Inr (const_le a b s t n))
      else if ty = ''$eq'' then Some (const_eq a b s t n)
      else if ty = ''$ne'' then Some (const_ne a b s t n)
      else if ty = ''$eqx'' then Some (const_eqx a b s t n)
      else if ty = ''$nex'' then Some (const_nex a b s t n)
      else if ty = ''$ge'' then Some (Inr (const_ge a b s t n))
      else if ty = ''$gt'' then Some (Inr (const_gt a b s t n))
      else if ty = ''$add'' then Some (Inr (const_add a b s t n))
      else if ty = ''$sub'' then Some (Inr (const_sub a b s t n))
      else if ty = ''$mul'' then Some (Inr (const_mul a b s t n))
      else if ty = ''$div'' then Some (const_div a b s t n)
      else if ty = ''$mod'' then Some (const_mod a b s t n)
      else if ty = ''$divfloor'' then Some (const_divfloor a b s t n)
      else if ty = ''$modfloor'' then Some (const_modfloor a b s t n)
      else if ty = ''$pow'' then Some (const_pow a b s t n)
      else if ty = ''$pos'' then Some (const_pos a s n)
      else if ty = ''$neg'' then Some (Inr (const_neg a s n))
      else None)"

text \<open>The tests for the gate types that follow.\<close>

definition eval_gate :: "string \<Rightarrow> bits \<Rightarrow> bits \<Rightarrow> bits option" where
  "eval_gate ty a b =
     (if ty = ''$_BUF_'' \<or> ty = ''$buf'' then Some a
      else if ty = ''$_NOT_'' then Some (eval_not a)
      else if ty = ''$_AND_'' then Some (const_and a b False False 1)
      else if ty = ''$_NAND_'' then Some (eval_not (const_and a b False False 1))
      else if ty = ''$_OR_'' then Some (const_or a b False False 1)
      else if ty = ''$_NOR_'' then Some (eval_not (const_or a b False False 1))
      else if ty = ''$_XOR_'' then Some (const_xor a b False False 1)
      else if ty = ''$_XNOR_'' then Some (const_xnor a b False False 1)
      else if ty = ''$_ANDNOT_'' then Some (const_and a (eval_not b) False False 1)
      else if ty = ''$_ORNOT_'' then Some (const_or a (eval_not b) False False 1)
      else None)"

definition eval_type :: "string \<Rightarrow> bits \<Rightarrow> bits \<Rightarrow> bool \<Rightarrow> bool \<Rightarrow> int \<Rightarrow> bool \<Rightarrow> eval_result" where
  "eval_type type0 arg1 arg2 signed1 signed2 result_len errp =
     (let ty = (if type0 = ''$sshr'' \<and> \<not> signed1 then ''$shr'' else type0);
          ty = (if ty = ''$sshl'' \<and> \<not> signed1 then ''$shl'' else ty);
          both = (ty \<in> set keep_signs \<or> signed1 \<and> signed2);
          s1 = (both \<and> signed1); s2 = (both \<and> signed2)
      in case eval_word_op ty arg1 arg2 s1 s2 result_len of
           Some r \<Rightarrow> lift_ok r
         | None \<Rightarrow> (case eval_gate ty arg1 arg2 of
             Some b \<Rightarrow> ok b
           | None \<Rightarrow> if errp then Inr ([Sm], True) else Inl Abort))"

text \<open>\<open>parameters.at(name)\<close>, which throws when the parameter is missing.\<close>

definition param_at :: "Cell \<Rightarrow> string \<Rightarrow> Const result" where
  "param_at cell name = (case parameters cell name of None \<Rightarrow> Inl OutOfRange | Some c \<Rightarrow> Inr c)"

definition param_int :: "Cell \<Rightarrow> string \<Rightarrow> int result" where
  "param_int cell name = rmap (\<lambda>c. as_int c False) (param_at cell name)"

text \<open>The table of a lookup table cell, padded with zeros and cut to \<open>1 << width\<close> entries.\<close>

definition lut_table :: "bits \<Rightarrow> int \<Rightarrow> bits result" where
  "lut_table t width =
     (if width < 0 \<or> 31 \<le> width then Inl IntOverflow
      else let n = 2 ^ nat width in Inr (take n (t @ replicate (n - length t) S0)))"

text \<open>One product term: the inner loop over the inputs.\<close>

fun sop_row :: "bits \<Rightarrow> bits \<Rightarrow> nat \<Rightarrow> nat list \<Rightarrow> bool \<Rightarrow> bool \<Rightarrow> (bool \<times> bool) result" where
  "sop_row t arg1 base [] match match_x = Inr (match, match_x)"
| "sop_row t arg1 base (j # js) match match_x =
     (if length arg1 \<le> j then Inl OutOfRange
      else let a = arg1 ! j;
               n0 = (t ! (base + 2 * j) = S1); n1 = (t ! (base + 2 * j + 1) = S1);
               match_x = (match_x \<and> \<not> (n0 \<and> a = S1)); match = (match \<and> \<not> (n0 \<and> a \<noteq> S0));
               match_x = (match_x \<and> \<not> (n1 \<and> a = S0)); match = (match \<and> \<not> (n1 \<and> a \<noteq> S1))
           in sop_row t arg1 base js match match_x)"

fun sop_loop :: "bits \<Rightarrow> bits \<Rightarrow> nat \<Rightarrow> nat list \<Rightarrow> State \<Rightarrow> State result" where
  "sop_loop t arg1 width [] default_ret = Inr default_ret"
| "sop_loop t arg1 width (i # is) default_ret =
     rbind (sop_row t arg1 (2 * width * i) [0..<width] True True)
       (\<lambda>(match, match_x).
          if match then Inr S1
          else sop_loop t arg1 width is (if match_x then Sx else default_ret))"

definition eval_sop :: "bits \<Rightarrow> int \<Rightarrow> int \<Rightarrow> bits \<Rightarrow> bits result" where
  "eval_sop t width depth arg1 =
     (if \<bar>width * depth * 2\<bar> \<ge> 2 ^ 31 then Inl IntOverflow
      else let t = t @ replicate (nat (width * depth * 2) - length t) S0
           in rmap (\<lambda>s. [s]) (sop_loop t arg1 (nat width) [0..<nat depth] S0))"

definition eval_cell2 :: "Cell \<Rightarrow> bits \<Rightarrow> bits \<Rightarrow> bool \<Rightarrow> eval_result" where
  "eval_cell2 cell arg1 arg2 errp =
     (let ty = cell_type cell
      in if ty = ''$slice'' then
           rbind (param_int cell ''Y_WIDTH'') (\<lambda>width. rbind (param_int cell ''OFFSET'') (\<lambda>offset.
             lift_ok (rmap to_bits (const_extract (const_of_bits arg1) offset width S0))))
         else if ty = ''$concat'' then ok (arg1 @ arg2)
         else if ty = ''$bmux'' then ok (const_bmux arg1 arg2)
         else if ty = ''$demux'' then lift_ok (const_demux arg1 arg2)
         else if ty = ''$bweqx'' then lift_ok (const_bweqx arg1 arg2)
         else if ty = ''$lut'' then
           rbind (param_int cell ''WIDTH'') (\<lambda>width. rbind (param_at cell ''LUT'') (\<lambda>lut.
             rbind (lut_table (to_bits lut) width) (\<lambda>t. ok (const_bmux t arg1))))
         else if ty = ''$sop'' then
           rbind (param_int cell ''WIDTH'') (\<lambda>width. rbind (param_int cell ''DEPTH'') (\<lambda>depth.
             rbind (param_at cell ''TABLE'') (\<lambda>table.
               lift_ok (eval_sop (to_bits table) width depth arg1))))
         else let signed_a = (case parameters cell ''A_SIGNED'' of None \<Rightarrow> False | Some c \<Rightarrow> as_bool c);
                  signed_b = (case parameters cell ''B_SIGNED'' of None \<Rightarrow> False | Some c \<Rightarrow> as_bool c);
                  result_len = (case parameters cell ''Y_WIDTH'' of None \<Rightarrow> -1 | Some c \<Rightarrow> as_int c False)
              in eval_type ty arg1 arg2 signed_a signed_b result_len errp)"

definition eval_cell3 :: "Cell \<Rightarrow> bits \<Rightarrow> bits \<Rightarrow> bits \<Rightarrow> bool \<Rightarrow> eval_result" where
  "eval_cell3 cell arg1 arg2 arg3 errp =
     (let ty = cell_type cell
      in if ty = ''$mux'' \<or> ty = ''$_MUX_'' then lift_ok (const_mux arg1 arg2 arg3)
         else if ty = ''$_NMUX_'' then lift_ok (rmap eval_not (const_mux arg1 arg2 arg3))
         else if ty = ''$bwmux'' then lift_ok (const_bwmux arg1 arg2 arg3)
         else if ty = ''$pmux'' then lift_ok (const_pmux arg1 arg2 arg3)
         else if ty = ''$_AOI3_''
         then ok (eval_not (const_or (const_and arg1 arg2 False False 1) arg3 False False 1))
         else if ty = ''$_OAI3_''
         then ok (eval_not (const_and (const_or arg1 arg2 False False 1) arg3 False False 1))
         else if arg3 \<noteq> [] then Inl AssertFail
         else eval_cell2 cell arg1 arg2 errp)"

definition eval_cell4 :: "Cell \<Rightarrow> bits \<Rightarrow> bits \<Rightarrow> bits \<Rightarrow> bits \<Rightarrow> bool \<Rightarrow> eval_result" where
  "eval_cell4 cell arg1 arg2 arg3 arg4 errp =
     (let ty = cell_type cell
      in if ty = ''$_AOI4_''
         then ok (eval_not (const_or (const_and arg1 arg2 False False 1)
                                     (const_and arg3 arg4 False False 1) False False 1))
         else if ty = ''$_OAI4_''
         then ok (eval_not (const_and (const_or arg1 arg2 False False 1)
                                      (const_or arg3 arg4 False False 1) False False 1))
         else if arg4 \<noteq> [] then Inl AssertFail
         else eval_cell3 cell arg1 arg2 arg3 errp)"

section \<open>Undefined bits\<close>

lemma rel_if: "(c \<Longrightarrow> R x x') \<Longrightarrow> (\<not> c \<Longrightarrow> R y y') \<Longrightarrow> R (if c then x else y) (if c then x' else y')"
  by simp

lemma eval_not_sound: "resolves_bits a c \<Longrightarrow> resolves_bits (eval_not a) (eval_not c)"
  by (auto simp: list_all2_conv_all_nth eval_not_def invert_state_def resolves_def)

definition x_exact_ops :: "string list" where
  "x_exact_ops = [''$eqx'', ''$nex'', ''$pow'']"

lemma logic_op_sound:
  assumes "resolves_bits a c" "resolves_bits b d"
  shows "resolves_bits (const_and a b s t n) (const_and c d s t n)"
    and "resolves_bits (const_or a b s t n) (const_or c d s t n)"
    and "resolves_bits (const_xor a b s t n) (const_xor c d s t n)"
    and "resolves_bits (const_xnor a b s t n) (const_xnor c d s t n)"
  using logic_wrapper_sound [THEN x_sound.mono, OF resolves_logic(1) assms]
    logic_wrapper_sound [THEN x_sound.mono, OF resolves_logic(2) assms]
    logic_wrapper_sound [THEN x_sound.mono, OF resolves_logic(3) assms]
    logic_wrapper_sound [THEN x_sound.mono, OF resolves_logic(4) assms]
  by (simp_all add: const_and_def const_or_def const_xor_def const_xnor_def)

lemma strict_sound:
  assumes "resolves_bits a c" "resolves_bits b d"
  shows "resolves_bits (const_add a b s t n) (const_add c d s t n)"
    and "resolves_bits (const_sub a b s t n) (const_sub c d s t n)"
    and "resolves_bits (const_mul a b s t n) (const_mul c d s t n)"
    and "resolves_bits (const_lt a b s t n) (const_lt c d s t n)"
    and "resolves_bits (const_le a b s t n) (const_le c d s t n)"
    and "resolves_bits (const_ge a b s t n) (const_ge c d s t n)"
    and "resolves_bits (const_gt a b s t n) (const_gt c d s t n)"
  using add.mono [OF assms] sub.mono [OF assms] mul.mono [OF assms] cmp.mono [OF assms]
  by (simp_all add: const_lt_def const_le_def const_ge_def const_gt_def)

lemma partial_sound:
  assumes "resolves_bits a c" "resolves_bits b d" "1 \<le> n"
  shows "resolves_result (const_shl a b s n) (const_shl c d s n)"
    and "resolves_result (const_shr a b s n) (const_shr c d s n)"
    and "resolves_result (const_shift a b s t n) (const_shift c d s t n)"
    and "resolves_result (const_shiftx a b t n) (const_shiftx c d t n)"
    and "resolves_result (const_eq a b s t n) (const_eq c d s t n)"
    and "resolves_result (const_ne a b s t n) (const_ne c d s t n)"
    and "resolves_result (const_div a b s t n) (const_div c d s t n)"
    and "resolves_result (const_mod a b s t n) (const_mod c d s t n)"
    and "resolves_result (const_divfloor a b s t n) (const_divfloor c d s t n)"
    and "resolves_result (const_modfloor a b s t n) (const_modfloor c d s t n)"
    and "a \<noteq> [] \<Longrightarrow> resolves_result (const_sshl a b s n) (const_sshl c d s n)"
    and "a \<noteq> [] \<Longrightarrow> resolves_result (const_sshr a b s n) (const_sshr c d s n)"
proof -
  have n: "0 \<le> n" using assms(3) by simp
  show "resolves_result (const_shl a b s n) (const_shl c d s n)"
    "resolves_result (const_shr a b s n) (const_shr c d s n)"
    "resolves_result (const_shift a b s t n) (const_shift c d s t n)"
    "resolves_result (const_shiftx a b t n) (const_shiftx c d t n)"
    using shift_sound [OF n, THEN x_sound.mono, OF assms(1,2)] by blast+
  show "resolves_result (const_eq a b s t n) (const_eq c d s t n)"
    "resolves_result (const_ne a b s t n) (const_ne c d s t n)"
    using eq_sound [OF assms(3), THEN x_sound.mono, OF assms(1,2)] by blast+
  show "resolves_result (const_div a b s t n) (const_div c d s t n)"
    "resolves_result (const_mod a b s t n) (const_mod c d s t n)"
    "resolves_result (const_divfloor a b s t n) (const_divfloor c d s t n)"
    "resolves_result (const_modfloor a b s t n) (const_modfloor c d s t n)"
    using div_like_ops [THEN div_like_strict, OF n, THEN strict_op.strict_mono, OF assms(1,2)]
    by blast+
  show "a \<noteq> [] \<Longrightarrow> resolves_result (const_sshl a b s n) (const_sshl c d s n)"
    "a \<noteq> [] \<Longrightarrow> resolves_result (const_sshr a b s n) (const_sshr c d s n)"
    unfolding const_sshl_def const_sshr_def using n assms(1,2) by (intro shift_worker_sound; simp)+
qed

lemma eval_word_op_sound:
  assumes "resolves_bits a c" "resolves_bits b d" "1 \<le> n" "ty \<notin> set x_exact_ops"
    "ty = ''$sshl'' \<or> ty = ''$sshr'' \<Longrightarrow> a \<noteq> []"
  shows "rel_option resolves_result (eval_word_op ty a b s t n) (eval_word_op ty c d s t n)"
  unfolding eval_word_op_def
  by (intro rel_if [of _ "rel_option resolves_result"])
    (use assms in \<open>simp_all add: x_exact_ops_def unary_sound logic_op_sound strict_sound partial_sound
       logic_truth_sound\<close>)

lemma eval_gate_sound:
  assumes "resolves_bits a c" "resolves_bits b d"
  shows "rel_option resolves_bits (eval_gate ty a b) (eval_gate ty c d)"
  unfolding eval_gate_def
  by (intro rel_if [of _ "rel_option resolves_bits"])
    (use assms in \<open>simp_all add: eval_not_sound logic_op_sound\<close>)

abbreviation resolves_eval :: "eval_result \<Rightarrow> eval_result \<Rightarrow> bool" where
  "resolves_eval \<equiv> rel_sum (=) (rel_prod resolves_bits (=))"

lemma lift_ok_sound: "resolves_result r q \<Longrightarrow> resolves_eval (lift_ok r) (lift_ok q)"
  by (cases r; cases q) (auto simp: lift_ok_def)

lemma eval_type_sound:
  assumes "resolves_bits a c" "resolves_bits b d" "1 \<le> n" "ty \<notin> set x_exact_ops" "a \<noteq> []"
  shows "resolves_eval (eval_type ty a b s t n e) (eval_type ty c d s t n e)"
proof -
  define ty2 where "ty2 = (if ty = ''$sshr'' \<and> \<not> s then ''$shr'' else ty)"
  define ty3 where "ty3 = (if ty2 = ''$sshl'' \<and> \<not> s then ''$shl'' else ty2)"
  have "ty3 \<notin> set x_exact_ops"
    using assms(4) by (auto simp: ty3_def ty2_def x_exact_ops_def)
  then have word: "rel_option resolves_result (eval_word_op ty3 a b s' t' n) (eval_word_op ty3 c d s' t' n)" for s' t'
    using assms by (intro eval_word_op_sound) auto
  have gate: "rel_option resolves_bits (eval_gate ty3 a b) (eval_gate ty3 c d)"
    using assms by (intro eval_gate_sound)
  define s3 where "s3 = ((ty3 \<in> set keep_signs \<or> s \<and> t) \<and> s)"
  define t3 where "t3 = ((ty3 \<in> set keep_signs \<or> s \<and> t) \<and> t)"
  show ?thesis
    unfolding eval_type_def Let_def ty2_def [symmetric] ty3_def [symmetric] s3_def [symmetric]
      t3_def [symmetric]
    by (rule option.rel_cases [OF word [of s3 t3]]; rule option.rel_cases [OF gate])
      (simp_all add: lift_ok_sound)
qed

section \<open>Lookup tables and sums of products\<close>

lemma lut_table_nth:
  assumes "0 \<le> w" "w < 31" "i < 2 ^ nat w"
  shows "\<exists>t. lut_table lut w = Inr t \<and> length t = 2 ^ nat w \<and>
    t ! i = (if i < length lut then lut ! i else S0)"
  using assms by (auto simp: lut_table_def Let_def nth_append)

lemma num_less: "num False bs < 2 ^ length bs"
  using uval_less [of "ones bs"] by (simp add: num_def)

lemma eval_lut_known:
  assumes "list_all is_def arg1" "length arg1 < 31" "cell_type cell = ''$lut''"
    "param_int cell ''WIDTH'' = Inr (int (length arg1))" "parameters cell ''LUT'' = Some lut"
  shows "eval_cell2 cell arg1 arg2 e =
    ok [let i = nat (num False arg1) in if i < const_size lut then const_at lut i else S0]"
proof -
  define i where "i = nat (num False arg1)"
  have i: "i < 2 ^ length arg1" 
    using num_less [of arg1] bit_num_nonneg [of arg1] by (simp add: i_def nat_less_iff)
  then obtain t where t: "lut_table (to_bits lut) (int (length arg1)) = Inr t" "length t = 2 ^ length arg1"
    "t ! i = (if i < const_size lut then to_bits lut ! i else S0)"
    using lut_table_nth [of "int (length arg1)" i "to_bits lut"] assms(2) by (auto simp: cst.sz [symmetric])
  have "const_bmux t arg1 = take 1 (drop i t)"
    using bmux_known [OF assms(1), of t 1] t(2) by (simp add: i_def)
  also have "\<dots> = [t ! i]" using i t(2) by (simp add: take_Suc_conv_app_nth hd_drop_conv_nth take_Suc)
  finally show ?thesis using assms t
    by (simp add: eval_cell2_def param_at_def i_def [symmetric] Let_def to_bits_def)
qed

definition row_match :: "bits \<Rightarrow> nat \<Rightarrow> nat \<Rightarrow> bits \<Rightarrow> bool" where
  "row_match t width i a \<longleftrightarrow> (\<forall>j < width.
     (t ! (2 * width * i + 2 * j) = S1 \<longrightarrow> a ! j = S0) \<and>
     (t ! (2 * width * i + 2 * j + 1) = S1 \<longrightarrow> a ! j = S1))"

lemma sop_row_eq:
  assumes "\<forall>j \<in> set js. j < length a"
  shows "sop_row t a base js m mx = Inr
    (m \<and> (\<forall>j \<in> set js. (t ! (base + 2 * j) = S1 \<longrightarrow> a ! j = S0) \<and> (t ! (base + 2 * j + 1) = S1 \<longrightarrow> a ! j = S1)),
     mx \<and> (\<forall>j \<in> set js. (t ! (base + 2 * j) = S1 \<longrightarrow> a ! j \<noteq> S1) \<and> (t ! (base + 2 * j + 1) = S1 \<longrightarrow> a ! j \<noteq> S0)))"
  using assms
  by (induction js arbitrary: m mx) (auto simp: Let_def)

lemma sop_row_known:
  assumes "list_all is_def a" "width \<le> length a"
  shows "sop_row t a (2 * width * i) [0..<width] True True = Inr (row_match t width i a, row_match t width i a)"
proof -
  have "a ! j \<noteq> S1 \<longleftrightarrow> a ! j = S0" "a ! j \<noteq> S0 \<longleftrightarrow> a ! j = S1" if "j < width" for j
    using assms that unfolding list_all_length is_def_def
    by (metis State.distinct(1) less_le_trans)+
  then show ?thesis using assms(2) by (auto simp: sop_row_eq row_match_def)
qed

lemma sop_loop_known:
  assumes "list_all is_def a" "width \<le> length a"
  shows "sop_loop t a width is S0 = Inr (bool_state (\<exists>i \<in> set is. row_match t width i a))"
  using assms by (induction "is") (auto simp: sop_row_known simp del: sop_row.simps)

lemma eval_sop_known:
  assumes "list_all is_def a" "width \<le> length a" "width * depth * 2 < 2 ^ 31"
  shows "eval_sop t (int width) (int depth) a =
    Inr [bool_state (\<exists>i < depth. row_match (t @ replicate (width * depth * 2 - length t) S0) width i a)]"
proof -
  have "int width * int depth * 2 = int (width * depth * 2)" by simp
  moreover have "int (width * depth * 2) < int (2 ^ 31)"
    using assms(3) by (simp only: of_nat_less_iff)
  ultimately show ?thesis using assms
    by (simp add: eval_sop_def Let_def sop_loop_known nat_mult_distrib Bex_def conj_commute)
qed

section \<open>The table\<close>

definition ct_row :: "string \<Rightarrow> string list \<times> string list \<times> bool \<Rightarrow> CellType" where
  "ct_row ty r = (case r of (ins, outs, ev) \<Rightarrow> \<lparr>type = ty, inputs = ins, outputs = outs, is_evaluable = ev,
                is_combinatorial = False, is_synthesizable = False\<rparr>)"

lemma setup_all_lookup:
  "setup_all rows ct ty = (case map_of (rev rows) ty of None \<Rightarrow> ct ty | Some r \<Rightarrow> Some (ct_row ty r))"
  by (induction rows arbitrary: ct)
    (auto simp: setup_all_def setup_type_def ct_row_def map_add_def split: option.splits)

lemma setup_all_append: "setup_all (xs @ ys) ct = setup_all ys (setup_all xs ct)"
  by (simp add: setup_all_def)

definition separated :: "cell_types \<Rightarrow> bool" where
  "separated ct \<longleftrightarrow> (\<forall>ty c. ct ty = Some c \<longrightarrow> set (inputs c) \<inter> set (outputs c) = {})"

lemma setup_all_separated:
  assumes "separated ct" "list_all (\<lambda>(_, ins, outs, _). list_all (\<lambda>p. p \<notin> set outs) ins) rows"
  shows "separated (setup_all rows ct)"
  using assms(2,1)
proof (induction rows arbitrary: ct)
  case (Cons r rows)
  obtain ty ins outs ev where r: "r = (ty, ins, outs, ev)" by (cases r) auto
  have "separated (setup_type ty ins outs ev ct)"
    using Cons.prems by (auto simp: separated_def setup_type_def r list_all_iff)
  then show ?case using Cons by (simp add: setup_all_def r)
qed (simp add: setup_all_def)

lemma family_separated:
  "''Q'' \<notin> set ins \<Longrightarrow> list_all (\<lambda>(_, ins, outs, _). list_all (\<lambda>p. p \<notin> set outs) ins) (family pre loops ins)"
  by (auto simp: family_def list_all_iff)

lemma setup_builtin_separated: 
  assumes "separated ct"
  shows "separated (setup_stdcells_mem (setup_stdcells (setup_internals_anyinit (setup_internals_mem (setup_internals ct)))))"
proof -
  have 1: "separated (setup_internals ct)"
    unfolding setup_internals_def setup_internals_eval_def unary_ops_def binary_ops_def
    by (intro setup_all_separated assms; simp)
  have 2: "separated (setup_internals_mem (setup_internals ct))"
    unfolding setup_internals_mem_def setup_internals_ff_def by (intro setup_all_separated 1; simp)
  have 3: "separated (setup_internals_anyinit (setup_internals_mem (setup_internals ct)))"
    using setup_all_separated [OF 2, of "[(''$anyinit'', [''D''], [''Q''], False)]"]
    by (simp add: setup_internals_anyinit_def setup_all_def)
  have 4: "separated (setup_stdcells (setup_internals_anyinit (setup_internals_mem (setup_internals ct))))"
    using setup_all_separated [of "setup_stdcells_eval (setup_internals_anyinit (setup_internals_mem (setup_internals ct)))"
      "[(''$_TBUF_'', [''A'', ''E''], [''Y''], True)]"] setup_all_separated [OF 3]
    by (simp add: setup_stdcells_def setup_stdcells_eval_def setup_all_def [of "[_]"])
  show ?thesis
    unfolding setup_stdcells_mem_def by (intro setup_all_separated 4) (simp add: family_separated)
qed

definition no_inout :: "(string \<times> bool \<times> bool) list \<Rightarrow> bool" where
  "no_inout ports \<longleftrightarrow>
     set (map fst (filter (\<lambda>(_, i, _). i) ports)) \<inter> set (map fst (filter (\<lambda>(_, _, out). out) ports)) = {}"

lemma setup_design_separated:
  assumes "separated ct" "list_all (\<lambda>m. no_inout (snd m)) modules"
  shows "separated (setup_design modules ct)"
  using assms(2,1)
proof (induction modules arbitrary: ct)
  case (Cons m modules)
  obtain name ports where m: "m = (name, ports)" by (cases m)
  have "separated (setup_module name ports ct)"
    using Cons.prems
    by (simp add: separated_def setup_module_def setup_type_def m no_inout_def)
  then show ?case using Cons by (simp add: setup_design_def m)
qed (simp add: setup_design_def)

lemma separated_port_dir: "separated ct \<Longrightarrow> cell_port_dir ct ty p \<noteq> PD_INOUT"
  by (auto simp: separated_def cell_port_dir_def split: option.splits)

definition word_ops :: "string list" where
  "word_ops = filter (\<lambda>ty. ty \<notin> set [''$slice'', ''$lut'', ''$sop'', ''$concat'', ''$macc'', ''$bweqx''])
     (unary_ops @ binary_ops)"

lemma word_ops_handled:
  "list_all (\<lambda>ty. eval_word_op ty a b s t n \<noteq> None \<or> eval_gate ty a b \<noteq> None) word_ops"
  by (simp add: word_ops_def unary_ops_def binary_ops_def eval_word_op_def eval_gate_def)

section \<open>Guarantees\<close>



text \<open>The power operator is not sound in that sense: with a base whose undefined bit reads as zero and
  a positive exponent it answers with defined zeros, which a resolution of the bit contradicts.\<close>

lemma eval_pow_ignores_undefined:
  "eval_type ''$pow'' [Sx] [S1] False False 1 False = Inr ([S0], False) \<and>
   eval_type ''$pow'' [S1] [S1] False False 1 False = Inr ([S1], False)"
proof -
  have u: "const2big2 [Sx] [S1] False False = (0, 1, 0)" by (simp add: const2big2_def const2big_def set_bit_eq)
  have "const_pow [Sx] [S1] False False 1 = Inr [S0]" by (simp add: const_pow_def u fill_bits_def)
  moreover have "const_pow [S1] [S1] False False 1 = Inr [S1]"
    using pow_known [of "[S1]" "[S1]" False 1 False]
    by (simp add: known_def num_def ones_def int_bits_def bool_state_def)
  ultimately show ?thesis
    by (simp add: eval_type_def eval_word_op_def lift_ok_def keep_signs_def Let_def)
qed

text \<open>A lookup table cell with a defined input answers with the table bit the input numbers, and with
  zero past the end of a short table.\<close>

lemma eval_lut:
  assumes "list_all is_def arg1" "length arg1 < 31" "cell_type cell = ''$lut''"
    "param_int cell ''WIDTH'' = Inr (int (length arg1))" "parameters cell ''LUT'' = Some lut"
  shows "eval_cell2 cell arg1 arg2 e =
    Inr ([let i = nat (num False arg1) in if i < const_size lut then const_at lut i else S0], False)"
  using eval_lut_known [OF assms] .

text \<open>A sum-of-products cell with a defined input answers one exactly when some product term of its
  table, padded with zeros to its size, accepts the input.\<close>

lemma eval_sum_of_products:
  assumes "list_all is_def arg1" "width \<le> length arg1" "width * rows * 2 < 2 ^ 31"
  shows "eval_sop t (int width) (int rows) arg1 =
    Inr [bool_state (\<exists>i < rows. row_match (t @ replicate (width * rows * 2 - length t) S0) width i arg1)]"
  using eval_sop_known [OF assms] .

text \<open>In the table of cell types set up for a design whose modules have no port in both
  directions, no port of any type, built in or a module, has both directions.\<close>

lemma celltypes_directions:
  assumes "list_all (\<lambda>m. no_inout (snd m)) modules"
  shows "cell_port_dir (setup_celltypes (Some modules) Map.empty) ty port \<noteq> PD_INOUT"
proof (rule separated_port_dir)
  have "separated Map.empty" by (simp add: separated_def)
  from setup_builtin_separated [OF setup_design_separated [OF this assms]]
  show "separated (setup_celltypes (Some modules) Map.empty)" by (simp add: setup_celltypes_def)
qed

section \<open>Widths of results\<close>

text \<open>A result, when there is one, has the given width.\<close>

definition has_width :: "int \<Rightarrow> bits result \<Rightarrow> bool" where
  "has_width n r \<longleftrightarrow> (\<forall>v. r = Inr v \<longrightarrow> int (length v) = n)"

lemma has_width_Inr [simp]: "has_width n (Inr v) \<longleftrightarrow> int (length v) = n"
  by (simp add: has_width_def)

lemma has_width_Inl [simp]: "has_width n (Inl e)"
  by (simp add: has_width_def)

lemma has_width_rbind: "(\<And>v. m = Inr v \<Longrightarrow> has_width n (f v)) \<Longrightarrow> has_width n (rbind m f)"
  by (cases m) simp_all

lemma pred_if: "(c \<Longrightarrow> P x) \<Longrightarrow> (\<not> c \<Longrightarrow> P y) \<Longrightarrow> P (if c then x else y)"
  by simp

lemma out_len_pos: "1 \<le> n \<Longrightarrow> int (out_len n a b) = n"
  by (simp add: out_len_def)

lemma pad_width: "1 \<le> n \<Longrightarrow> int (length (pad_result b n)) = n"
  by (simp add: length_pad_result)

lemma bitwise_width:
  assumes "1 \<le> n"
  shows "int (length (const_not a s n)) = n" "int (length (const_and a b s t n)) = n" "int (length (const_or a b s t n)) = n"
    "int (length (const_xor a b s t n)) = n" "int (length (const_xnor a b s t n)) = n"
  using assms by (simp_all add: const_not_def const_and_def const_or_def const_xor_def const_xnor_def logic_wrapper_def Let_def out_len_def)

lemma length_flip_front [simp]: "length (flip_front v) = length v"
  by (cases v) (simp_all add: flip_front_def)

lemma one_bit_width:
  assumes "1 \<le> n"
  shows "int (length (const_reduce_and a n)) = n" "int (length (const_reduce_or a n)) = n" "int (length (const_reduce_xor a n)) = n"
    "int (length (const_reduce_xnor a n)) = n" "int (length (const_reduce_bool a n)) = n" "int (length (const_logic_not a s n)) = n"
    "int (length (const_logic_and a b s t n)) = n" "int (length (const_logic_or a b s t n)) = n"
    "int (length (const_lt a b s t n)) = n" "int (length (const_le a b s t n)) = n" "int (length (const_ge a b s t n)) = n"
    "int (length (const_gt a b s t n)) = n"
  using assms by (simp_all add: const_reduce_and_def const_reduce_or_def const_reduce_xor_def const_reduce_xnor_def
      const_reduce_bool_def logic_reduce_wrapper_def const_logic_not_def const_logic_and_def const_logic_or_def const_lt_def
      const_le_def const_ge_def const_gt_def compare_result_def pad_width split: prod.splits)

lemma fill_width: "has_width n (fill_bits b n)"
  by (simp add: fill_bits_def)

lemma extend_u0_width: "has_width n (extend_u0 a n s)"
  by (cases "nat n \<le> length a") (simp_all add: extend_u0_def resize_bits_def Let_def)

lemma shift_worker_width: "1 \<le> n \<Longrightarrow> has_width n (const_shift_worker a b s t dir n x)"
  by (simp add: const_shift_worker_def Let_def split: prod.splits)

lemma shift_width:
  assumes "1 \<le> n"
  shows "has_width n (const_shl a b s n)" "has_width n (const_shr a b s n)" "has_width n (const_sshl a b s n)"
    "has_width n (const_sshr a b s n)" "has_width n (const_shift a b s t n)" "has_width n (const_shiftx a b t n)"
  unfolding const_shl_def const_shr_def const_sshl_def const_sshr_def const_shift_def const_shiftx_def
  by (intro has_width_rbind shift_worker_width assms)+

lemma set_front_width: "int k = n \<Longrightarrow> has_width n (set_front b k)"
  by (simp add: set_front_def)

lemma equality_width: "has_width n (const_eq a b s t n)" "has_width n (const_eqx a b s t n)"
  unfolding const_eq_def const_eqx_def Let_def
  by (intro has_width_rbind; auto simp: fill_bits_def set_front_width split: if_splits option.splits)+

lemma inequality_width: "has_width n (const_ne a b s t n)" "has_width n (const_nex a b s t n)"
  unfolding const_ne_def const_nex_def
  by (intro has_width_rbind; use equality_width [of n a b s t] in \<open>simp add: has_width_def invert_front_def\<close>)+

lemma division_width:
  assumes "1 \<le> n"
  shows "has_width n (const_div a b s t n)" "has_width n (const_mod a b s t n)" "has_width n (const_divfloor a b s t n)"
    "has_width n (const_modfloor a b s t n)" "has_width n (const_pow a b s t n)"
  unfolding const_div_def const_mod_def const_divfloor_def const_modfloor_def const_pow_def Let_def
  using assms by (simp_all add: fill_width out_len_pos split: prod.splits)

lemma eval_word_op_width:
  assumes "1 \<le> n"
  shows "pred_option (has_width n) (eval_word_op ty a b s t n)"
  unfolding eval_word_op_def
  by (intro pred_if [of _ "pred_option (has_width n)"])
    (use assms in \<open>simp_all add: bitwise_width one_bit_width shift_width equality_width inequality_width division_width out_len_pos
       extend_u0_width const_pos_def const_neg_def\<close>)



end
