(* ===== verification/Hashlib.thy ===== *)
theory Hashlib
  imports Prelude
begin

text \<open>
  The hash tables of \<open>kernel/hashlib.h\<close>: \<open>hashtable_size\<close>, \<open>dict\<close> and \<open>pool\<close>. Both classes keep a
  vector of entries, each with the index of the next entry of its bucket, and a vector of bucket
  heads. They share their algorithms word for word except that \<open>dict\<close> looks at the first
  component of an entry and checks the head of a bucket before it erases; \<open>table_ops\<close> carries
  these differences, the hash function of the key type and the growth policy of \<open>std::vector\<close>.
\<close>

section \<open>The representation\<close>

record 'e entry =
  udata :: 'e
  nxt :: int

record 'e table =
  hashtable :: "int list"
  entries :: "'e entry list"
  capacity :: nat

record ('k, 'e) table_ops =
  key_of :: "'e \<Rightarrow> 'k"
  hash_of :: "'k \<Rightarrow> 32 word"
  grow :: "nat \<Rightarrow> nat"
  check_head :: bool

definition hashtable_size_trigger :: nat where "hashtable_size_trigger = 2"
definition hashtable_size_factor :: nat where "hashtable_size_factor = 3"

definition zero_and_some_primes :: "nat list" where
  "zero_and_some_primes = [
     0, 23, 29, 37, 47, 59, 79, 101, 127, 163, 211, 269, 337, 431, 541, 677,
     853, 1069, 1361, 1709, 2137, 2677, 3347, 4201, 5261, 6577, 8231, 10289,
     12889, 16127, 20161, 25219, 31531, 39419, 49277, 61603, 77017, 96281,
     120371, 150473, 188107, 235159, 293957, 367453, 459317, 574157, 717697,
     897133, 1121423, 1401791, 1752239, 2190299, 2737937, 3422429, 4278037,
     5347553, 6684443, 8355563, 10444457, 13055587, 16319519, 20399411,
     25499291, 31874149, 39842687, 49803361, 62254207, 77817767, 97272239,
     121590311, 151987889, 189984863, 237481091, 296851369, 371064217,
     463830313, 579787991, 724735009, 905918777, 1132398479, 1415498113,
     1769372713, 2211715897, 2764644887, 3455806139]"

text \<open>An \<open>unsigned int\<close> has four bytes, so the search ends with the exception.\<close>

definition hashtable_size :: "32 word \<Rightarrow> nat result" where
  "hashtable_size min_size =
     (case find (\<lambda>p. p \<ge> unat min_size) zero_and_some_primes of
        Some p \<Rightarrow> Inr p | None \<Rightarrow> Inl LengthError)"

definition table_empty :: "'e table" where
  "table_empty = \<lparr>hashtable = [], entries = [], capacity = 0\<rparr>"

text \<open>\<open>entries.emplace_back\<close>: the vector grows when it is full.\<close>

definition emplace_back :: "('k, 'e) table_ops \<Rightarrow> 'e \<Rightarrow> int \<Rightarrow> 'e table \<Rightarrow> 'e table" where
  "emplace_back ops e next t =
     t\<lparr>entries := entries t @ [\<lparr>udata = e, nxt = next\<rparr>],
       capacity := (if length (entries t) < capacity t then capacity t else grow ops (capacity t))\<rparr>"

section \<open>The private operations\<close>

definition do_hash :: "('k, 'e) table_ops \<Rightarrow> int list \<Rightarrow> 'k \<Rightarrow> nat" where
  "do_hash ops ht key =
     (if ht = [] then 0 else unat (hash_of ops key mod of_nat (length ht)))"

text \<open>One round of the loop of \<open>do_rehash\<close>: entry \<open>i\<close> becomes the head of its bucket.\<close>

definition rehash_step ::
    "('k, 'e) table_ops \<Rightarrow> nat \<Rightarrow> int list \<times> 'e entry list \<Rightarrow> (int list \<times> 'e entry list) result" where
  "rehash_step ops i st = (case st of (ht, es) \<Rightarrow>
     if \<not> (-1 \<le> nxt (es ! i) \<and> nxt (es ! i) < int (length es)) then Inl AssertFail
     else let hash = do_hash ops ht (key_of ops (udata (es ! i)))
          in if length ht \<le> hash then Inl OutOfRange
             else Inr (ht[hash := int i], es[i := (es ! i)\<lparr>nxt := ht ! hash\<rparr>]))"

fun rehash_loop ::
    "('k, 'e) table_ops \<Rightarrow> nat list \<Rightarrow> int list \<times> 'e entry list \<Rightarrow> (int list \<times> 'e entry list) result" where
  "rehash_loop ops [] st = Inr st"
| "rehash_loop ops (i # is) st = rbind (rehash_step ops i st) (rehash_loop ops is)"

definition do_rehash :: "('k, 'e) table_ops \<Rightarrow> 'e table \<Rightarrow> 'e table result" where
  "do_rehash ops t =
     rbind (hashtable_size (of_nat (capacity t * hashtable_size_factor))) (\<lambda>size.
       rmap (\<lambda>(ht, es). t\<lparr>hashtable := ht, entries := es\<rparr>)
         (rehash_loop ops [0..<length (entries t)] (replicate size (-1), entries t)))"

text \<open>
  A walk along \<open>next\<close> links. Its fuel is one more than the number of entries: a walk that takes
  more steps has visited an entry twice and goes on forever.
\<close>

fun lookup_walk :: "('k, 'e) table_ops \<Rightarrow> 'e entry list \<Rightarrow> 'k \<Rightarrow> nat \<Rightarrow> int \<Rightarrow> int result" where
  "lookup_walk ops es key 0 index = Inl NonTermination"
| "lookup_walk ops es key (Suc fuel) index =
     (if index < 0 then Inr index
      else if int (length es) \<le> index then Inl OutOfRange
      else if key_of ops (udata (es ! nat index)) = key then Inr index
      else let index = nxt (es ! nat index)
           in if -1 \<le> index \<and> index < int (length es) then lookup_walk ops es key fuel index
              else Inl AssertFail)"

definition do_lookup_internal :: "('k, 'e) table_ops \<Rightarrow> 'e table \<Rightarrow> 'k \<Rightarrow> nat \<Rightarrow> int result" where
  "do_lookup_internal ops t key hash =
     (if length (hashtable t) \<le> hash then Inl OutOfRange
      else lookup_walk ops (entries t) key (length (entries t) + 1) (hashtable t ! hash))"

definition do_lookup_no_rehash :: "('k, 'e) table_ops \<Rightarrow> 'e table \<Rightarrow> 'k \<Rightarrow> nat \<Rightarrow> int result" where
  "do_lookup_no_rehash ops t key hash =
     (if hashtable t = [] then Inr (-1) else do_lookup_internal ops t key hash)"

text \<open>\<open>do_lookup\<close> may rehash; it returns the table, the hash it leaves behind and the index.\<close>

definition do_lookup :: "('k, 'e) table_ops \<Rightarrow> 'e table \<Rightarrow> 'k \<Rightarrow> nat \<Rightarrow> ('e table \<times> nat \<times> int) result" where
  "do_lookup ops t key hash =
     (if hashtable t = [] then Inr (t, hash, -1)
      else if length (entries t) * hashtable_size_trigger > length (hashtable t)
      then rbind (do_rehash ops t) (\<lambda>t.
             let hash = do_hash ops (hashtable t) key
             in rmap (\<lambda>i. (t, hash, i)) (do_lookup_internal ops t key hash))
      else rmap (\<lambda>i. (t, hash, i)) (do_lookup_internal ops t key hash))"

definition do_insert :: "('k, 'e) table_ops \<Rightarrow> 'e table \<Rightarrow> 'e \<Rightarrow> nat \<Rightarrow> ('e table \<times> int) result" where
  "do_insert ops t value hash =
     (if hashtable t = []
      then rmap (\<lambda>t. (t, int (length (entries t)) - 1)) (do_rehash ops (emplace_back ops value (-1) t))
      else if length (hashtable t) \<le> hash then Inl OutOfRange
      else let t = emplace_back ops value (hashtable t ! hash) t
           in Inr (t\<lparr>hashtable := (hashtable t)[hash := int (length (entries t)) - 1]\<rparr>,
                   int (length (entries t)) - 1))"

text \<open>The search for the entry whose link points to \<open>index\<close>.\<close>

fun pred_walk :: "'e entry list \<Rightarrow> int \<Rightarrow> nat \<Rightarrow> int \<Rightarrow> nat result" where
  "pred_walk es index 0 k = Inl NonTermination"
| "pred_walk es index (Suc fuel) k =
     (if k < 0 \<or> int (length es) \<le> k then Inl OutOfRange
      else if nxt (es ! nat k) = index then Inr (nat k)
      else let k = nxt (es ! nat k)
           in if 0 \<le> k \<and> k < int (length es) then pred_walk es index fuel k else Inl AssertFail)"

text \<open>
  Makes whatever points to \<open>index\<close> in the given bucket, its head or an entry, point to
  \<open>target\<close> instead; both halves of \<open>do_erase\<close> start with it.
\<close>

definition redirect ::
    "('k, 'e) table_ops \<Rightarrow> int list \<times> 'e entry list \<Rightarrow> nat \<Rightarrow> int \<Rightarrow> int \<Rightarrow>
     (int list \<times> 'e entry list) result" where
  "redirect ops st hash index target = (case st of (ht, es) \<Rightarrow>
     if length ht \<le> hash then Inl OutOfRange
     else let k = ht ! hash
          in if check_head ops \<and> \<not> (0 \<le> k \<and> k < int (length es)) then Inl AssertFail
             else if k = index then Inr (ht[hash := target], es)
             else rmap (\<lambda>k. (ht, es[k := (es ! k)\<lparr>nxt := target\<rparr>]))
                    (pred_walk es index (length es + 1) k))"

definition do_erase :: "('k, 'e) table_ops \<Rightarrow> 'e table \<Rightarrow> int \<Rightarrow> nat \<Rightarrow> ('e table \<times> nat) result" where
  "do_erase ops t index hash =
     (if int (length (entries t)) \<le> index then Inl AssertFail
      else if hashtable t = [] \<or> index < 0 then Inr (t, 0)
      else rbind (redirect ops (hashtable t, entries t) hash index (nxt (entries t ! nat index)))
        (\<lambda>(ht, es). let back_idx = length es - 1
          in rmap (\<lambda>(ht, es). let es = butlast es
                     in (t\<lparr>hashtable := (if es = [] then [] else ht), entries := es\<rparr>, 1))
               (if nat index = back_idx then Inr (ht, es)
                else let back_hash = do_hash ops ht (key_of ops (udata (es ! back_idx)))
                     in rmap (\<lambda>(ht, es). (ht, es[nat index := es ! back_idx]))
                          (redirect ops (ht, es) back_hash (int back_idx) index))))"

section \<open>The public operations\<close>

definition table_insert :: "('k, 'e) table_ops \<Rightarrow> 'e table \<Rightarrow> 'e \<Rightarrow> ('e table \<times> int \<times> bool) result" where
  "table_insert ops t value =
     rbind (do_lookup ops t (key_of ops value) (do_hash ops (hashtable t) (key_of ops value)))
       (\<lambda>(t, hash, i). if i \<ge> 0 then Inr (t, i, False)
          else rmap (\<lambda>(t, i). (t, i, True)) (do_insert ops t value hash))"

fun table_insert_all :: "('k, 'e) table_ops \<Rightarrow> 'e table \<Rightarrow> 'e list \<Rightarrow> 'e table result" where
  "table_insert_all ops t [] = Inr t"
| "table_insert_all ops t (e # es) =
     rbind (table_insert ops t e) (\<lambda>(t, _). table_insert_all ops t es)"

definition table_erase :: "('k, 'e) table_ops \<Rightarrow> 'e table \<Rightarrow> 'k \<Rightarrow> ('e table \<times> nat) result" where
  "table_erase ops t key =
     rbind (do_lookup ops t key (do_hash ops (hashtable t) key))
       (\<lambda>(t, hash, index). do_erase ops t index hash)"

text \<open>\<open>erase(iterator)\<close>; the iterator it returns is one index below.\<close>

definition table_erase_it :: "('k, 'e) table_ops \<Rightarrow> 'e table \<Rightarrow> int \<Rightarrow> ('e table \<times> int) result" where
  "table_erase_it ops t index =
     (if index < 0 \<or> int (length (entries t)) \<le> index then Inl OutOfRange
      else rmap (\<lambda>(t, _). (t, index - 1))
             (do_erase ops t index
                (do_hash ops (hashtable t) (key_of ops (udata (entries t ! nat index))))))"

definition table_index_const :: "('k, 'e) table_ops \<Rightarrow> 'e table \<Rightarrow> 'k \<Rightarrow> int result" where
  "table_index_const ops t key = do_lookup_no_rehash ops t key (do_hash ops (hashtable t) key)"

definition table_count :: "('k, 'e) table_ops \<Rightarrow> 'e table \<Rightarrow> 'k \<Rightarrow> nat result" where
  "table_count ops t key = rmap (\<lambda>i. if i < 0 then 0 else 1) (table_index_const ops t key)"

definition table_count_it :: "('k, 'e) table_ops \<Rightarrow> 'e table \<Rightarrow> 'k \<Rightarrow> int \<Rightarrow> nat result" where
  "table_count_it ops t key it =
     rmap (\<lambda>i. if i < 0 \<or> i > it then 0 else 1) (table_index_const ops t key)"

text \<open>\<open>find\<close>; \<open>end()\<close> is the index -1.\<close>

definition table_find :: "('k, 'e) table_ops \<Rightarrow> 'e table \<Rightarrow> 'k \<Rightarrow> ('e table \<times> int) result" where
  "table_find ops t key =
     rmap (\<lambda>(t, _, i). (t, if i < 0 then -1 else i))
       (do_lookup ops t key (do_hash ops (hashtable t) key))"

definition table_find_const :: "('k, 'e) table_ops \<Rightarrow> 'e table \<Rightarrow> 'k \<Rightarrow> int result" where
  "table_find_const ops t key = rmap (\<lambda>i. if i < 0 then -1 else i) (table_index_const ops t key)"

definition table_clear :: "'e table \<Rightarrow> 'e table" where
  "table_clear t = t\<lparr>hashtable := [], entries := []\<rparr>"

definition table_reserve :: "'e table \<Rightarrow> nat \<Rightarrow> 'e table" where
  "table_reserve t n = t\<lparr>capacity := max n (capacity t)\<rparr>"

text \<open>The assignment operator: the vector keeps its memory when that is large enough.\<close>

definition table_assign :: "('k, 'e) table_ops \<Rightarrow> 'e table \<Rightarrow> 'e table \<Rightarrow> 'e table result" where
  "table_assign ops t other =
     do_rehash ops (t\<lparr>entries := entries other,
                      capacity := max (capacity t) (length (entries other))\<rparr>)"

definition table_copy :: "('k, 'e) table_ops \<Rightarrow> 'e table \<Rightarrow> 'e table result" where
  "table_copy ops other = table_assign ops table_empty other"

definition table_swap :: "'e table \<Rightarrow> 'e table \<Rightarrow> 'e table \<times> 'e table" where
  "table_swap t other = (other, t)"

text \<open>
  \<open>sort\<close>: the entries end up in descending order of their keys. \<open>std::sort\<close> moves whole entries,
  links included; the keys of a table are distinct, so the order it produces is determined.
\<close>

definition table_sort :: "('k :: linorder, 'e) table_ops \<Rightarrow> 'e table \<Rightarrow> 'e table result" where
  "table_sort ops t =
     do_rehash ops (t\<lparr>entries := rev (sort_key (\<lambda>e. key_of ops (udata e)) (entries t))\<rparr>)"

text \<open>The order in which \<open>begin()\<close> to \<open>end()\<close> and the \<open>element(n)\<close> iterators visit the entries.\<close>

definition table_begin :: "'e table \<Rightarrow> int" where
  "table_begin t = int (length (entries t)) - 1"

definition table_element :: "'e table \<Rightarrow> nat \<Rightarrow> int" where
  "table_element t n = int (length (entries t)) - 1 - int n"

definition table_iterate :: "'e table \<Rightarrow> 'e list" where
  "table_iterate t = map udata (rev (entries t))"

subsection \<open>Dictionaries\<close>

type_synonym ('k, 'v) dict = "('k \<times> 'v) table"

definition dict_ops :: "('k \<Rightarrow> 32 word) \<Rightarrow> (nat \<Rightarrow> nat) \<Rightarrow> ('k, 'k \<times> 'v) table_ops" where
  "dict_ops hash gr = \<lparr>key_of = fst, hash_of = hash, grow = gr, check_head = True\<rparr>"

text \<open>
  \<open>at\<close> in its three forms and the subscript operator. A reference into the table is the index
  of its entry; \<open>dict_store\<close> is the assignment through it.
\<close>

definition dict_at :: "('k, 'k \<times> 'v) table_ops \<Rightarrow> ('k, 'v) dict \<Rightarrow> 'k \<Rightarrow> (('k, 'v) dict \<times> 'v) result" where
  "dict_at ops t key =
     rbind (do_lookup ops t key (do_hash ops (hashtable t) key))
       (\<lambda>(t, _, i). if i < 0 then Inl OutOfRange else Inr (t, snd (udata (entries t ! nat i))))"

definition dict_at_const :: "('k, 'k \<times> 'v) table_ops \<Rightarrow> ('k, 'v) dict \<Rightarrow> 'k \<Rightarrow> 'v result" where
  "dict_at_const ops t key =
     rbind (table_index_const ops t key)
       (\<lambda>i. if i < 0 then Inl OutOfRange else Inr (snd (udata (entries t ! nat i))))"

definition dict_at_default :: "('k, 'k \<times> 'v) table_ops \<Rightarrow> ('k, 'v) dict \<Rightarrow> 'k \<Rightarrow> 'v \<Rightarrow> 'v result" where
  "dict_at_default ops t key defval =
     rmap (\<lambda>i. if i < 0 then defval else snd (udata (entries t ! nat i))) (table_index_const ops t key)"

definition dict_subscript ::
    "('k, 'k \<times> 'v) table_ops \<Rightarrow> 'v \<Rightarrow> ('k, 'v) dict \<Rightarrow> 'k \<Rightarrow> (('k, 'v) dict \<times> int) result" where
  "dict_subscript ops init t key =
     rbind (do_lookup ops t key (do_hash ops (hashtable t) key))
       (\<lambda>(t, hash, i). if i < 0 then do_insert ops t (key, init) hash else Inr (t, i))"

definition dict_store :: "('k, 'v) dict \<Rightarrow> int \<Rightarrow> 'v \<Rightarrow> ('k, 'v) dict" where
  "dict_store t i v =
     t\<lparr>entries := (entries t)[nat i := (entries t ! nat i)\<lparr>udata := (fst (udata (entries t ! nat i)), v)\<rparr>]\<rparr>"

text \<open>\<open>d[key] = v\<close>.\<close>

definition dict_set ::
    "('k, 'k \<times> 'v) table_ops \<Rightarrow> 'v \<Rightarrow> ('k, 'v) dict \<Rightarrow> 'k \<Rightarrow> 'v \<Rightarrow> ('k, 'v) dict result" where
  "dict_set ops init t key v = rmap (\<lambda>(t, i). dict_store t i v) (dict_subscript ops init t key)"

fun dict_eq_loop ::
    "('k, 'k \<times> 'v) table_ops \<Rightarrow> ('k, 'v) dict \<Rightarrow> ('k \<times> 'v) list \<Rightarrow> bool result" where
  "dict_eq_loop ops other [] = Inr True"
| "dict_eq_loop ops other ((k, v) # es) =
     rbind (table_find_const ops other k)
       (\<lambda>i. if i = -1 \<or> snd (udata (entries other ! nat i)) \<noteq> v then Inr False
            else dict_eq_loop ops other es)"

definition dict_eq ::
    "('k, 'k \<times> 'v) table_ops \<Rightarrow> ('k, 'v) dict \<Rightarrow> ('k, 'v) dict \<Rightarrow> bool result" where
  "dict_eq ops t other =
     (if length (entries t) \<noteq> length (entries other) then Inr False
      else dict_eq_loop ops other (map udata (entries t)))"

subsection \<open>Pools\<close>

definition pool_ops :: "('k \<Rightarrow> 32 word) \<Rightarrow> (nat \<Rightarrow> nat) \<Rightarrow> ('k, 'k) table_ops" where
  "pool_ops hash gr = \<lparr>key_of = (\<lambda>k. k), hash_of = hash, grow = gr, check_head = False\<rparr>"

definition pool_subscript :: "('k, 'k) table_ops \<Rightarrow> 'k table \<Rightarrow> 'k \<Rightarrow> ('k table \<times> bool) result" where
  "pool_subscript ops t key =
     rmap (\<lambda>(t, _, i). (t, 0 \<le> i)) (do_lookup ops t key (do_hash ops (hashtable t) key))"

definition pool_pop :: "('k, 'k) table_ops \<Rightarrow> 'k table \<Rightarrow> ('k table \<times> 'k) result" where
  "pool_pop ops t =
     (let it = table_begin t
      in rmap (\<lambda>(t', _). (t', udata (entries t ! nat it))) (table_erase_it ops t it))"

fun pool_eq_loop :: "('k, 'k) table_ops \<Rightarrow> 'k table \<Rightarrow> 'k list \<Rightarrow> bool result" where
  "pool_eq_loop ops other [] = Inr True"
| "pool_eq_loop ops other (k # ks) =
     rbind (table_count ops other k) (\<lambda>n. if n = 0 then Inr False else pool_eq_loop ops other ks)"

definition pool_eq :: "('k, 'k) table_ops \<Rightarrow> 'k table \<Rightarrow> 'k table \<Rightarrow> bool result" where
  "pool_eq ops t other =
     (if length (entries t) \<noteq> length (entries other) then Inr False
      else pool_eq_loop ops other (map udata (entries t)))"

section \<open>Chains\<close>

fun is_chain :: "'e entry list \<Rightarrow> int \<Rightarrow> nat list \<Rightarrow> bool" where
  "is_chain es s [] \<longleftrightarrow> s = -1"
| "is_chain es s (i # is) \<longleftrightarrow> s = int i \<and> i < length es \<and> is_chain es (nxt (es ! i)) is"

definition entry_key :: "('k, 'e) table_ops \<Rightarrow> 'e entry list \<Rightarrow> nat \<Rightarrow> 'k" where
  "entry_key ops es i = key_of ops (udata (es ! i))"

definition chains :: "('k, 'e) table_ops \<Rightarrow> int list \<Rightarrow> 'e entry list \<Rightarrow> (nat \<Rightarrow> nat list) \<Rightarrow> nat set \<Rightarrow> bool" where
  "chains ops ht es C I \<longleftrightarrow> (\<forall>h < length ht. is_chain es (ht ! h) (C h) \<and> distinct (C h) \<and>
     set (C h) = {i \<in> I. do_hash ops ht (entry_key ops es i) = h})"

definition table_wf :: "('k, 'e) table_ops \<Rightarrow> 'e table \<Rightarrow> bool" where
  "table_wf ops t \<longleftrightarrow>
     (entries t \<noteq> [] \<longrightarrow> hashtable t \<noteq> []) \<and> length (hashtable t) < 2 ^ 32 \<and>
     length (entries t) \<le> capacity t \<and>
     distinct (map (\<lambda>e. key_of ops (udata e)) (entries t)) \<and>
     (\<exists>C. chains ops (hashtable t) (entries t) C {..<length (entries t)})"

lemma do_hash_less: "ht \<noteq> [] \<Longrightarrow> length ht < 2 ^ 32 \<Longrightarrow> do_hash ops ht k < length ht"
proof -
  assume ht: "ht \<noteq> []" "length ht < 2 ^ 32"
  then have "unat (of_nat (length ht) :: 32 word) = length ht" by (simp add: unat_of_nat)
  then show ?thesis using ht by (simp add: do_hash_def unat_mod)
qed

lemma do_hash_cong: "length ht = length ht' \<Longrightarrow> do_hash ops ht = do_hash ops ht'"
  by (auto simp: do_hash_def fun_eq_iff)

lemma do_hash_update [simp]: "do_hash ops (ht[i := x]) = do_hash ops ht"
  by (rule do_hash_cong) simp

lemma is_chain_less: "is_chain es s is \<Longrightarrow> i \<in> set is \<Longrightarrow> i < length es"
  by (induction "is" arbitrary: s) auto

lemma is_chain_append: "is_chain es s is \<Longrightarrow> is_chain (es @ xs) s is"
  by (induction "is" arbitrary: s) (auto simp: nth_append)

lemma is_chain_cong:
  "is_chain es s is \<Longrightarrow> length es \<le> length es' \<Longrightarrow> (\<And>i. i \<in> set is \<Longrightarrow> nxt (es' ! i) = nxt (es ! i)) \<Longrightarrow>
   is_chain es' s is"
  by (induction "is" arbitrary: s) auto

lemma is_chain_head: "is_chain es s is \<Longrightarrow> -1 \<le> s \<and> s < int (length es)"
  by (cases "is") auto

lemma is_chain_next:
  "is_chain es s is \<Longrightarrow> i \<in> set is \<Longrightarrow> -1 \<le> nxt (es ! i) \<and> nxt (es ! i) < int (length es)"
  by (induction "is" arbitrary: s) (auto dest: is_chain_head)

lemma is_chain_split:
  "is_chain es s (xs @ i # ys) \<Longrightarrow> is_chain es (nxt (es ! i)) ys"
  by (induction xs arbitrary: s) auto

section \<open>Lookup\<close>

lemma lookup_walk_chain:
  assumes "is_chain es s is" "length is < fuel"
  shows "lookup_walk ops es key fuel s =
    Inr (case find (\<lambda>i. entry_key ops es i = key) is of None \<Rightarrow> -1 | Some i \<Rightarrow> int i)"
  using assms
proof (induction "is" arbitrary: s fuel)
  case Nil
  then show ?case by (cases fuel) simp_all
next
  case (Cons i "is")
  then obtain f where f: "fuel = Suc f" "length is < f" by (cases fuel) auto
  have "-1 \<le> nxt (es ! i) \<and> nxt (es ! i) < int (length es)"
    using is_chain_next [OF Cons.prems(1)] by simp
  then show ?case using Cons f by (auto simp: entry_key_def)
qed

lemma chain_length:
  assumes "chains ops ht es C {..<length es}" "h < length ht"
  shows "length (C h) \<le> length es"
proof -
  have "distinct (C h)" "set (C h) \<subseteq> {..<length es}" using assms by (auto simp: chains_def)
  then show ?thesis by (metis card_lessThan card_mono distinct_card finite_lessThan)
qed

definition index_of :: "('k, 'e) table_ops \<Rightarrow> 'e entry list \<Rightarrow> 'k \<Rightarrow> int" where
  "index_of ops es key =
     (case find (\<lambda>i. entry_key ops es i = key) [0..<length es] of None \<Rightarrow> -1 | Some i \<Rightarrow> int i)"

lemma entry_key_inj:
  assumes "distinct (map (\<lambda>e. key_of ops (udata e)) es)" "i < length es" "j < length es"
    "entry_key ops es i = entry_key ops es j"
  shows "i = j"
  using assms by (auto simp: entry_key_def distinct_conv_nth)

lemma find_unique:
  assumes "\<And>j. j \<in> set xs \<Longrightarrow> P j \<Longrightarrow> j = i" "i \<in> set xs" "P i"
  shows "find P xs = Some i"
proof (cases "find P xs")
  case None
  then show ?thesis using assms(2,3) by (simp add: find_None_iff)
next
  case (Some j)
  then have "j \<in> set xs" "P j" by (auto simp: find_Some_iff)
  then show ?thesis using assms(1) Some by blast
qed

lemma index_of_nth:
  assumes "distinct (map (\<lambda>e. key_of ops (udata e)) es)" "i < length es"
  shows "index_of ops es (entry_key ops es i) = int i"
proof -
  have "find (\<lambda>j. entry_key ops es j = entry_key ops es i) [0..<length es] = Some i"
    using entry_key_inj [OF assms(1)] assms(2) by (intro find_unique) auto
  then show ?thesis by (simp add: index_of_def)
qed

lemma index_of_none: "(\<And>i. i < length es \<Longrightarrow> entry_key ops es i \<noteq> key) \<Longrightarrow> index_of ops es key = -1"
proof -
  assume "\<And>i. i < length es \<Longrightarrow> entry_key ops es i \<noteq> key"
  then have "find (\<lambda>i. entry_key ops es i = key) [0..<length es] = None"
    by (simp add: find_None_iff)
  then show ?thesis by (simp add: index_of_def)
qed

lemma index_of_Nil [simp]: "index_of ops [] key = -1"
  by (simp add: index_of_def)

lemma index_of_cases:
  obtains (present) i where "i < length es" "entry_key ops es i = key" "index_of ops es key = int i"
  | (absent) "\<And>i. i < length es \<Longrightarrow> entry_key ops es i \<noteq> key" "index_of ops es key = -1"
proof (cases "find (\<lambda>i. entry_key ops es i = key) [0..<length es]")
  case None
  then have "\<And>i. i < length es \<Longrightarrow> entry_key ops es i \<noteq> key" by (simp add: find_None_iff)
  then show ?thesis by (intro absent index_of_none)
next
  case (Some i)
  then have "i < length es" "entry_key ops es i = key" by (auto simp: find_Some_iff)
  then show ?thesis using Some by (intro present [of i]) (auto simp: index_of_def)
qed

lemma lookup_internal_wf:
  assumes "table_wf ops t" "hashtable t \<noteq> []"
  shows "do_lookup_internal ops t key (do_hash ops (hashtable t) key) = Inr (index_of ops (entries t) key)"
proof -
  let ?h = "do_hash ops (hashtable t) key" and ?es = "entries t"
  obtain C where C: "chains ops (hashtable t) ?es C {..<length ?es}" and
    d: "distinct (map (\<lambda>e. key_of ops (udata e)) ?es)" and l: "length (hashtable t) < 2 ^ 32"
    using assms(1) unfolding table_wf_def by blast
  have h: "?h < length (hashtable t)" by (rule do_hash_less [OF assms(2) l])
  then have ch: "is_chain ?es (hashtable t ! ?h) (C ?h)"
    "set (C ?h) = {i. i < length ?es \<and> do_hash ops (hashtable t) (entry_key ops ?es i) = ?h}"
    using C unfolding chains_def by (blast, simp)
  have "find (\<lambda>i. entry_key ops ?es i = key) (C ?h) = find (\<lambda>i. entry_key ops ?es i = key) [0..<length ?es]"
  proof (cases rule: index_of_cases [of ?es ops key])
    case (present i)
    then show ?thesis 
      using find_unique [of "C ?h" "\<lambda>i. entry_key ops ?es i = key" i]
        find_unique [of "[0..<length ?es]" "\<lambda>i. entry_key ops ?es i = key" i]
        entry_key_inj [OF d] ch(2) by auto
  next
    case absent
    then have "find (\<lambda>i. entry_key ops ?es i = key) (C ?h) = None"
      "find (\<lambda>i. entry_key ops ?es i = key) [0..<length ?es] = None"
      using ch(2) by (auto simp: find_None_iff)
    then show ?thesis by simp
  qed
  then show ?thesis
    using lookup_walk_chain [OF ch(1), of "length ?es + 1" ops key] chain_length [OF C h] h
    by (simp add: do_lookup_internal_def index_of_def del: lookup_walk.simps)
qed

section \<open>Rehashing\<close>

lemma rehash_step_chains:
  assumes "chains ops ht es C {..<i}" "i < length es" "ht \<noteq> []" "length ht < 2 ^ 32"
    "-1 \<le> nxt (es ! i)" "nxt (es ! i) < int (length es)"
  obtains ht' es' C' where "rehash_step ops i (ht, es) = Inr (ht', es')" "chains ops ht' es' C' {..<Suc i}"
    "length ht' = length ht" "map udata es' = map udata es" "\<And>j. j > i \<Longrightarrow> es' ! j = es ! j"
    "length es' = length es"
proof -
  define h where "h = do_hash ops ht (entry_key ops es i)"
  define es' where "es' = es[i := (es ! i)\<lparr>nxt := ht ! h\<rparr>]"
  have h: "h < length ht" unfolding h_def by (rule do_hash_less [OF assms(3,4)])
  have key: "entry_key ops es' j = entry_key ops es j" if "j < length es" for j
    using that by (cases "j = i") (simp_all add: entry_key_def es'_def)
  have nx: "nxt (es' ! j) = nxt (es ! j)" if "j \<noteq> i" for j using that by (simp add: es'_def)
  have len: "length es' = length es" by (simp add: es'_def)
  have nxi: "nxt (es' ! i) = ht ! h" using assms(2) by (simp add: es'_def)
  have old: "is_chain es (ht ! g) (C g)" "distinct (C g)"
    "set (C g) = {j \<in> {..<i}. do_hash ops ht (entry_key ops es j) = g}" if "g < length ht" for g
    using assms(1) that by (simp_all add: chains_def)
  have ch: "is_chain es' (ht ! g) (C g)" if "g < length ht" for g
  proof (rule is_chain_cong [OF old(1) [OF that]])
    fix j assume "j \<in> set (C g)"
    then have "j \<noteq> i" using old(3) [OF that] by auto
    then show "nxt (es' ! j) = nxt (es ! j)" by (rule nx)
  qed (simp add: es'_def)
  have "chains ops (ht[h := int i]) es' (C(h := i # C h)) {..<Suc i}"
    unfolding chains_def length_list_update do_hash_update
  proof (intro allI impI)
    fix g assume g: "g < length ht"
    have sets: "{j \<in> {..<Suc i}. do_hash ops ht (entry_key ops es' j) = g} =
        (if g = h then insert i (set (C g)) else set (C g))"
      using old(3) [OF g] key assms(2) by (auto simp: less_Suc_eq h_def)
    show "is_chain es' (ht[h := int i] ! g) ((C(h := i # C h)) g) \<and> distinct ((C(h := i # C h)) g) \<and>
        set ((C(h := i # C h)) g) = {j \<in> {..<Suc i}. do_hash ops ht (entry_key ops es' j) = g}"
      unfolding sets using ch [OF g] old(2,3) [OF g] h nxi assms(2) len by (cases "g = h") simp_all
  qed
  moreover have "rehash_step ops i (ht, es) = Inr (ht[h := int i], es')"
    using assms(5,6) h by (simp add: rehash_step_def h_def entry_key_def es'_def Let_def)
  ultimately show thesis
    using that [of "ht[h := int i]" es' "C(h := i # C h)"] assms(2)
    by (simp add: es'_def map_update list_update_same_conv)
qed

lemma rehash_loop_chains:
  assumes "chains ops ht es C {..<i}" "i \<le> length es" "ht \<noteq> []" "length ht < 2 ^ 32"
    "\<And>j. i \<le> j \<Longrightarrow> j < length es \<Longrightarrow> -1 \<le> nxt (es ! j) \<and> nxt (es ! j) < int (length es)"
  shows "\<exists>ht' es' C'. rehash_loop ops [i..<length es] (ht, es) = Inr (ht', es') \<and>
    chains ops ht' es' C' {..<length es'} \<and> length ht' = length ht \<and> map udata es' = map udata es"
  using assms
proof (induction "length es - i" arbitrary: i ht es C)
  case 0
  then show ?case by auto
next
  case (Suc n)
  then have i: "i < length es" by simp
  obtain ht' es' C' where st: "rehash_step ops i (ht, es) = Inr (ht', es')"
    "chains ops ht' es' C' {..<Suc i}" "length ht' = length ht" "map udata es' = map udata es"
    "\<And>j. j > i \<Longrightarrow> es' ! j = es ! j" "length es' = length es"
    using rehash_step_chains [OF Suc.prems(1) i Suc.prems(3,4)] Suc.prems(5) [of i] i by auto
  have "\<exists>ht'' es'' C''. rehash_loop ops [Suc i..<length es'] (ht', es') = Inr (ht'', es'') \<and>
    chains ops ht'' es'' C'' {..<length es''} \<and> length ht'' = length ht' \<and> map udata es'' = map udata es'"
  proof (rule Suc.hyps(1) [OF _ st(2)])
    show "ht' \<noteq> []" using st(3) Suc.prems(3) by auto
    show "length ht' < 2 ^ 32" using st(3) Suc.prems(4) by simp
  qed (use Suc.hyps(2) Suc.prems(5) st i in \<open>auto\<close>)
  then show ?case using st i by (simp add: upt_conv_Cons)
qed

definition max_prime :: nat where "max_prime = 3455806139"

lemma hashtable_size_ok:
  assumes "unat n \<le> max_prime"
  obtains p where "hashtable_size n = Inr p" "unat n \<le> p" "p < 2 ^ 32"
proof -
  have "max_prime \<in> set zero_and_some_primes" by (simp add: max_prime_def zero_and_some_primes_def)
  then obtain p where p: "find (\<lambda>p. p \<ge> unat n) zero_and_some_primes = Some p"
    using assms by (cases "find (\<lambda>p. p \<ge> unat n) zero_and_some_primes") (auto simp: find_None_iff)
  then have "unat n \<le> p" "p \<in> set zero_and_some_primes" by (auto simp: find_Some_iff)
  moreover have "\<forall>p \<in> set zero_and_some_primes. p < 2 ^ 32" by (simp add: zero_and_some_primes_def)
  ultimately show thesis using that p by (simp add: hashtable_size_def)
qed

definition room :: "nat \<Rightarrow> bool" where
  "room c \<longleftrightarrow> c * hashtable_size_factor \<le> max_prime"

definition links_ok :: "'e entry list \<Rightarrow> bool" where
  "links_ok es \<longleftrightarrow> (\<forall>e \<in> set es. -1 \<le> nxt e \<and> nxt e < int (length es))"

lemma do_rehash_ok:
  assumes "room (capacity t)" "length (entries t) \<le> capacity t" "links_ok (entries t)"
    "distinct (map (\<lambda>e. key_of ops (udata e)) (entries t))"
  obtains t' where "do_rehash ops t = Inr t'" "table_wf ops t'" "capacity t' = capacity t"
    "map udata (entries t') = map udata (entries t)" "capacity t * 3 \<le> length (hashtable t')"
proof -
  let ?n = "of_nat (capacity t * hashtable_size_factor) :: 32 word"
  have n: "unat ?n = capacity t * 3"
    using assms(1)
    by (simp add: room_def max_prime_def hashtable_size_factor_def unat_of_nat del: of_nat_mult)
  with assms(1) obtain p where p: "hashtable_size ?n = Inr p" "capacity t * 3 \<le> p" "p < 2 ^ 32"
    using hashtable_size_ok [of ?n] by (auto simp: room_def hashtable_size_factor_def)
  show thesis
  proof (cases "p = 0")
    case True
    then have "entries t = []" using p(2) assms(2) by simp
    then have "do_rehash ops t = Inr (t\<lparr>hashtable := [], entries := []\<rparr>)"
      using p(1) True by (simp add: do_rehash_def)
    moreover have "table_wf ops (t\<lparr>hashtable := [], entries := []\<rparr>)"
      by (simp add: table_wf_def chains_def)
    ultimately show thesis using that \<open>entries t = []\<close> p(2) True by simp
  next
    case False
    have init: "chains ops (replicate p (-1)) (entries t) (\<lambda>_. []) {..<0}" by (simp add: chains_def)
    have "\<exists>ht' es' C'. rehash_loop ops [0..<length (entries t)] (replicate p (-1), entries t) = Inr (ht', es') \<and>
      chains ops ht' es' C' {..<length es'} \<and> length ht' = length (replicate p (-1 :: int)) \<and>
      map udata es' = map udata (entries t)"
      using False p(3) assms(3) by (intro rehash_loop_chains [OF init]) (auto simp: links_ok_def)
    then obtain ht' es' C' where r: "rehash_loop ops [0..<length (entries t)] (replicate p (-1), entries t) = Inr (ht', es')"
      "chains ops ht' es' C' {..<length es'}" "length ht' = p" "map udata es' = map udata (entries t)"
      by auto
    have len: "length es' = length (entries t)" using r(4) by (metis length_map)
    have "map (\<lambda>e. key_of ops (udata e)) es' = map (\<lambda>e. key_of ops (udata e)) (entries t)"
      using arg_cong [OF r(4), of "map (key_of ops)"] by (simp add: o_def)
    then have "table_wf ops (t\<lparr>hashtable := ht', entries := es'\<rparr>)"
      using r False p(3) assms(2,4) len by (auto simp: table_wf_def)
    then show thesis
      using that [of "t\<lparr>hashtable := ht', entries := es'\<rparr>"] r p by (simp add: do_rehash_def)
  qed
qed

lemma wf_links_ok:
  assumes "table_wf ops t"
  shows "links_ok (entries t)"
  unfolding links_ok_def
proof
  fix e assume "e \<in> set (entries t)"
  then obtain i where i: "i < length (entries t)" "e = entries t ! i" by (auto simp: in_set_conv_nth)
  then have ht: "hashtable t \<noteq> []" "length (hashtable t) < 2 ^ 32"
    using assms unfolding table_wf_def by auto
  obtain C where C: "chains ops (hashtable t) (entries t) C {..<length (entries t)}"
    using assms unfolding table_wf_def by blast
  let ?h = "do_hash ops (hashtable t) (entry_key ops (entries t) i)"
  have "?h < length (hashtable t)" by (rule do_hash_less [OF ht])
  then have "is_chain (entries t) (hashtable t ! ?h) (C ?h)" "i \<in> set (C ?h)"
    using C i unfolding chains_def by auto
  then show "-1 \<le> nxt e \<and> nxt e < int (length (entries t))"
    using is_chain_next i(2) by blast
qed

lemma index_of_cong:
  assumes "map udata es = map udata es'"
  shows "index_of ops es key = index_of ops es' key"
proof -
  have len: "length es = length es'" using assms by (metis length_map)
  have k: "entry_key ops es i = entry_key ops es' i" if "i < length es" for i
    using arg_cong [OF assms, of "\<lambda>xs. xs ! i"] that len by (simp add: entry_key_def)
  have "find (\<lambda>i. entry_key ops es i = key) [0..<length es] = find (\<lambda>i. entry_key ops es' i = key) [0..<length es']"
    unfolding len [symmetric] using k by (intro find_cong) auto
  then show ?thesis by (simp add: index_of_def)
qed

lemma wf_distinct: "table_wf ops t \<Longrightarrow> distinct (map (\<lambda>e. key_of ops (udata e)) (entries t))"
  and wf_capacity: "table_wf ops t \<Longrightarrow> length (entries t) \<le> capacity t"
  and wf_nonempty: "table_wf ops t \<Longrightarrow> entries t \<noteq> [] \<Longrightarrow> hashtable t \<noteq> []"
  and wf_size: "table_wf ops t \<Longrightarrow> length (hashtable t) < 2 ^ 32"
  by (simp_all add: table_wf_def)

lemma do_lookup_ok:
  assumes "table_wf ops t" "room (capacity t)"
  obtains t' where
    "do_lookup ops t key (do_hash ops (hashtable t) key) =
       Inr (t', do_hash ops (hashtable t') key, index_of ops (entries t) key)"
    "table_wf ops t'" "capacity t' = capacity t" "map udata (entries t') = map udata (entries t)"
proof (cases "hashtable t = []")
  case True
  then have "entries t = []" using wf_nonempty [OF assms(1)] by blast
  then show thesis using that [of t] True assms(1) by (simp add: do_lookup_def)
next
  case False
  show thesis
  proof (cases "length (entries t) * hashtable_size_trigger > length (hashtable t)")
    case True
    obtain t' where t': "do_rehash ops t = Inr t'" "table_wf ops t'" "capacity t' = capacity t"
      "map udata (entries t') = map udata (entries t)"
      using do_rehash_ok [OF assms(2) wf_capacity wf_links_ok wf_distinct, OF assms(1) assms(1) assms(1)]
      by blast
    have "entries t \<noteq> []" using True by auto
    then have "entries t' \<noteq> []" using t'(4) by (metis map_is_Nil_conv)
    then have "hashtable t' \<noteq> []" using t'(2) by (simp add: wf_nonempty)
    then have "do_lookup_internal ops t' key (do_hash ops (hashtable t') key) = Inr (index_of ops (entries t) key)"
      using lookup_internal_wf [OF t'(2)] index_of_cong [OF t'(4)] by metis
    then show thesis using that [of t'] t' True False by (simp add: do_lookup_def Let_def)
  next
    case small: False
    then show thesis
      using that [of t] assms(1) False lookup_internal_wf [OF assms(1) False] by (simp add: do_lookup_def)
  qed
qed

lemma index_const_ok:
  assumes "table_wf ops t"
  shows "table_index_const ops t key = Inr (index_of ops (entries t) key)"
proof (cases "hashtable t = []")
  case True
  then have "entries t = []" using wf_nonempty [OF assms(1)] by blast
  then show ?thesis using True by (simp add: table_index_const_def do_lookup_no_rehash_def)
next
  case False
  then show ?thesis
    using lookup_internal_wf [OF assms] by (simp add: table_index_const_def do_lookup_no_rehash_def)
qed

section \<open>Insertion\<close>

definition next_room :: "('k, 'e) table_ops \<Rightarrow> 'e table \<Rightarrow> bool" where
  "next_room ops t \<longleftrightarrow> room (capacity t) \<and> room (grow ops (capacity t)) \<and> capacity t < grow ops (capacity t)"

lemma do_insert_ok:
  assumes "table_wf ops t" "next_room ops t" "index_of ops (entries t) (key_of ops e) = -1"
  obtains t' where "do_insert ops t e (do_hash ops (hashtable t) (key_of ops e)) = Inr (t', int (length (entries t)))"
    "table_wf ops t'" "map udata (entries t') = map udata (entries t) @ [e]"
    "capacity t' = capacity (emplace_back ops e x t)"
proof -
  let ?k = "key_of ops e"
  have absent: "\<And>i. i < length (entries t) \<Longrightarrow> entry_key ops (entries t) i \<noteq> ?k"
    using assms(3) by (cases rule: index_of_cases [of "entries t" ops ?k]) auto
  define b where "b = (\<lambda>x. emplace_back ops e x t)"
  have cap: "capacity (b x) = capacity (b y)" "length (entries (b x)) \<le> capacity (b x)" "room (capacity (b x))" for x y
    using assms(1,2) wf_capacity [OF assms(1)] by (auto simp: b_def emplace_back_def next_room_def)
  have "?k \<notin> (\<lambda>e. key_of ops (udata e)) ` set (entries t)"
    using absent unfolding entry_key_def by (metis imageE in_set_conv_nth)
  then have dist: "distinct (map (\<lambda>e. key_of ops (udata e)) (entries (b x)))" for x
    using wf_distinct [OF assms(1)] by (simp add: b_def emplace_back_def)
  show thesis
  proof (cases "hashtable t = []")
    case True
    then have es: "entries t = []" using wf_nonempty [OF assms(1)] by blast
    have "links_ok (entries (b (-1)))" by (simp add: links_ok_def b_def emplace_back_def es)
    then obtain t' where t': "do_rehash ops (b (-1)) = Inr t'" "table_wf ops t'" "capacity t' = capacity (b (-1))"
      "map udata (entries t') = map udata (entries (b (-1)))"
      using do_rehash_ok [OF cap(3) cap(2) _ dist] by blast
    have "length (entries t') = 1" using arg_cong [OF t'(4), of length] by (simp add: b_def emplace_back_def es)
    then show thesis using that [of t'] t' True cap(1) es
      by (simp add: do_insert_def b_def) (simp add: emplace_back_def)
  next
    case False
    let ?h = "do_hash ops (hashtable t) ?k"
    let ?n = "length (entries t)"
    let ?t' = "(b (hashtable t ! ?h))\<lparr>hashtable := (hashtable t)[?h := int ?n]\<rparr>"
    have h: "?h < length (hashtable t)" by (rule do_hash_less [OF False wf_size [OF assms(1)]])
    obtain C where C: "chains ops (hashtable t) (entries t) C {..<?n}"
      using assms(1) unfolding table_wf_def by blast
    have es: "entries ?t' = entries t @ [\<lparr>udata = e, nxt = hashtable t ! ?h\<rparr>]"
      by (simp add: b_def emplace_back_def)
    have "chains ops (hashtable ?t') (entries ?t') (C(?h := ?n # C ?h)) {..<Suc ?n}"
      unfolding chains_def
    proof (intro allI impI)
      fix g assume g: "g < length (hashtable ?t')"
      have c: "is_chain (entries t) (hashtable t ! g) (C g)" "distinct (C g)"
        "set (C g) = {j \<in> {..<?n}. do_hash ops (hashtable t) (entry_key ops (entries t) j) = g}"
        using C g by (simp_all add: chains_def)
      have k: "entry_key ops (entries ?t') j = (if j = ?n then ?k else entry_key ops (entries t) j)"
        if "j < Suc ?n" for j using that by (simp add: es entry_key_def nth_append)
      have sets: "{j \<in> {..<Suc ?n}. do_hash ops (hashtable ?t') (entry_key ops (entries ?t') j) = g} =
          (if g = ?h then insert ?n (set (C g)) else set (C g))"
      proof (rule set_eqI)
        fix j
        have "do_hash ops (hashtable ?t') = do_hash ops (hashtable t)" by simp
        then show "j \<in> {j \<in> {..<Suc ?n}. do_hash ops (hashtable ?t') (entry_key ops (entries ?t') j) = g} \<longleftrightarrow>
            j \<in> (if g = ?h then insert ?n (set (C g)) else set (C g))"
          using k [of j] c(3) by (cases "j < ?n"; cases "j = ?n") (auto simp del: table.simps)
      qed
      show "is_chain (entries ?t') (hashtable ?t' ! g) ((C(?h := ?n # C ?h)) g) \<and>
          distinct ((C(?h := ?n # C ?h)) g) \<and>
          set ((C(?h := ?n # C ?h)) g) =
            {j \<in> {..<Suc ?n}. do_hash ops (hashtable ?t') (entry_key ops (entries ?t') j) = g}"
        unfolding sets using c h es is_chain_append [OF c(1)]
        by (cases "g = ?h") (simp_all add: nth_append)
    qed
    then have wf: "table_wf ops ?t'"
      using False wf_size [OF assms(1)] cap(2) [of "hashtable t ! ?h"] dist [of "hashtable t ! ?h"] es
      by (auto simp: table_wf_def)
    have "do_insert ops t e ?h = Inr (?t', int ?n)"
      using False h by (simp add: do_insert_def b_def Let_def) (simp add: emplace_back_def)
    moreover have "capacity ?t' = capacity (emplace_back ops e x t)"
      by (simp add: b_def emplace_back_def)
    ultimately show thesis using that [of ?t'] wf es by simp
  qed
qed

section \<open>Erasing\<close>

fun is_path :: "'e entry list \<Rightarrow> int \<Rightarrow> nat list \<Rightarrow> int \<Rightarrow> bool" where
  "is_path es s [] e \<longleftrightarrow> s = e"
| "is_path es s (i # is) e \<longleftrightarrow> s = int i \<and> i < length es \<and> is_path es (nxt (es ! i)) is e"

lemma is_chain_append_iff:
  "is_chain es s (xs @ ys) \<longleftrightarrow> (\<exists>e. is_path es s xs e \<and> is_chain es e ys)"
  by (induction xs arbitrary: s) auto

lemma is_path_cong:
  "is_path es s is e \<Longrightarrow> length es \<le> length es' \<Longrightarrow> (\<And>i. i \<in> set is \<Longrightarrow> nxt (es' ! i) = nxt (es ! i)) \<Longrightarrow>
   is_path es' s is e"
  by (induction "is" arbitrary: s) auto

lemma is_path_snoc: "is_path es s (xs @ [x]) e \<longleftrightarrow> is_path es s xs (int x) \<and> x < length es \<and> nxt (es ! x) = e"
  by (induction xs arbitrary: s) auto

lemma pred_walk_path:
  assumes "is_path es s (x # xs) (int i)" "distinct (x # xs @ [i])" "length xs < fuel"
  shows "pred_walk es (int i) fuel s = Inr (last (x # xs))"
  using assms
proof (induction xs arbitrary: x s fuel)
  case Nil
  then show ?case by (cases fuel) auto
next
  case (Cons y ys)
  then obtain f where f: "fuel = Suc f" "length ys < f" by (cases fuel) auto
  have "nxt (es ! x) = int y" "y < length es" "is_path es (nxt (es ! x)) (y # ys) (int i)"
    using Cons.prems(1) by auto
  then show ?case using Cons.IH [of "nxt (es ! x)" y f] Cons.prems f by auto
qed

lemma redirect_path:
  assumes "is_path es (ht ! h) xs (int i)" "distinct (xs @ [i])" "h < length ht" "i < length es"
  obtains ht' es' where "redirect ops (ht, es) h (int i) target = Inr (ht', es')"
    "length ht' = length ht" "\<And>g. g \<noteq> h \<Longrightarrow> ht' ! g = ht ! g" "map udata es' = map udata es"
    "\<And>j. j \<notin> set xs \<Longrightarrow> es' ! j = es ! j" "is_path es' (ht' ! h) xs target"
proof (cases xs rule: rev_cases)
  case Nil
  then show thesis using that [of "ht[h := target]" es] assms by (simp add: redirect_def)
next
  case (snoc zs z)
  then obtain x ys where xs: "xs = x # ys" by (metis append_is_Nil_conv list.distinct(1) list.exhaust)
  have s: "ht ! h = int x" "x < length es" using assms(1) xs by auto
  have zz: "is_path es (ht ! h) zs (int z)" "z < length es" "nxt (es ! z) = int i"
    using assms(1) snoc by (simp_all add: is_path_snoc)
  have sub: "set xs \<subseteq> {..<length es}"
  proof -
    have "j \<in> set js \<Longrightarrow> is_path es s js e \<Longrightarrow> j < length es" for j js s e
      by (induction js arbitrary: s) auto
    then show ?thesis using assms(1) by blast
  qed
  have "length xs \<le> length es"
    using assms(2) card_mono [OF finite_lessThan sub] distinct_card [of xs] by simp
  moreover have "last (x # ys) = z" using xs snoc by (metis last_snoc)
  ultimately have w: "pred_walk es (int i) (length es + 1) (ht ! h) = Inr z"
    using pred_walk_path [of es "ht ! h" x ys i "length es + 1"] assms(1,2) xs
    by (simp del: pred_walk.simps last.simps)
  let ?es' = "es[z := (es ! z)\<lparr>nxt := target\<rparr>]"
  have "is_path ?es' (ht ! h) zs (int z)"
  proof (rule is_path_cong [OF zz(1)])
    fix j assume "j \<in> set zs"
    then have "j \<noteq> z" using assms(2) snoc by auto
    then show "nxt (?es' ! j) = nxt (es ! j)" by simp
  qed simp
  then have "is_path ?es' (ht ! h) xs target" using zz(2) snoc by (simp add: is_path_snoc)
  moreover have "ht ! h \<noteq> int i" using s assms(2) xs by simp
  ultimately show thesis
    using that [of ht ?es'] assms(3) w s snoc zz(2)
    by (simp add: redirect_def map_update list_update_same_conv del: pred_walk.simps)
qed

lemma is_path_upd: "is_path es s is e \<Longrightarrow> i \<notin> set is \<Longrightarrow> is_path (es[i := x]) s is e"
  by (erule is_path_cong) (simp, metis nth_list_update_neq)

lemma is_chain_upd: "is_chain es s is \<Longrightarrow> i \<notin> set is \<Longrightarrow> is_chain (es[i := x]) s is"
  by (erule is_chain_cong) (simp, metis nth_list_update_neq)

lemma entry_key_cong: "map udata es' = map udata es \<Longrightarrow> j < length es \<Longrightarrow> entry_key ops es' j = entry_key ops es j"
  by (metis entry_key_def length_map nth_map)

lemma chainsD:
  assumes "chains ops ht es C I" "g < length ht"
  shows "is_chain es (ht ! g) (C g)" "distinct (C g)" "set (C g) = {i \<in> I. do_hash ops ht (entry_key ops es i) = g}"
  using assms by (simp_all add: chains_def)

lemma redirect_chains:
  assumes C: "chains ops ht es C I" and I: "I \<subseteq> {..<length es}" and i: "i \<in> I"
    and ht: "ht \<noteq> []" "length ht < 2 ^ 32"
  defines "h \<equiv> do_hash ops ht (entry_key ops es i)"
  obtains ht' es' xs ys where "redirect ops (ht, es) h (int i) target = Inr (ht', es')"
    "C h = xs @ i # ys" "length ht' = length ht" "map udata es' = map udata es"
    "\<And>j. j \<notin> set xs \<Longrightarrow> es' ! j = es ! j" "is_path es' (ht' ! h) xs target" "is_chain es' (nxt (es ! i)) ys"
    "\<And>g. g < length ht \<Longrightarrow> g \<noteq> h \<Longrightarrow> is_chain es' (ht' ! g) (C g)"
proof -
  have h: "h < length ht" unfolding h_def by (rule do_hash_less [OF ht])
  have Ch: "is_chain es (ht ! h) (C h)" "distinct (C h)" "i \<in> set (C h)"
    using chainsD [OF C h] i by (auto simp: h_def)
  then obtain xs ys where xy: "C h = xs @ i # ys" by (meson split_list)
  then have p: "is_path es (ht ! h) xs (int i)" "i < length es" "is_chain es (nxt (es ! i)) ys"
    using Ch(1) by (auto simp: is_chain_append_iff)
  have "distinct (xs @ [i])" using Ch(2) xy by simp
  from redirect_path [OF p(1) this h p(2)] obtain ht' es' where r:
    "redirect ops (ht, es) h (int i) target = Inr (ht', es')"
    "length ht' = length ht" "\<And>g. g \<noteq> h \<Longrightarrow> ht' ! g = ht ! g" "map udata es' = map udata es"
    "\<And>j. j \<notin> set xs \<Longrightarrow> es' ! j = es ! j" "is_path es' (ht' ! h) xs target"
    by metis
  have len: "length es' = length es" using r(4) by (metis length_map)
  have "j \<notin> set xs" if "j \<in> set ys" for j using Ch(2) xy that by auto
  then have "is_chain es' (nxt (es ! i)) ys"
    using len r(5) by (intro is_chain_cong [OF p(3)]) simp_all
  moreover have "is_chain es' (ht' ! g) (C g)" if g: "g < length ht" "g \<noteq> h" for g
  proof -
    have "j \<notin> set xs" if "j \<in> set (C g)" for j
      using that chainsD(3) [OF C h] chainsD(3) [OF C g(1)] xy g(2) by auto
    then show ?thesis
      unfolding r(3) [OF g(2)] using len r(5) by (intro is_chain_cong [OF chainsD(1) [OF C g(1)]]) simp_all
  qed
  ultimately show thesis using that [of ht' es' xs ys] r xy by blast
qed

lemma unlink_chains:
  assumes C: "chains ops ht es C I" and I: "I \<subseteq> {..<length es}" and i: "i \<in> I"
    and ht: "ht \<noteq> []" "length ht < 2 ^ 32"
  obtains ht' es' C' where
    "redirect ops (ht, es) (do_hash ops ht (entry_key ops es i)) (int i) (nxt (es ! i)) = Inr (ht', es')"
    "length ht' = length ht" "map udata es' = map udata es" "chains ops ht' es' C' (I - {i})"
proof -
  define h where "h = do_hash ops ht (entry_key ops es i)"
  have h: "h < length ht" unfolding h_def by (rule do_hash_less [OF ht])
  obtain ht' es' xs ys where r: "redirect ops (ht, es) h (int i) (nxt (es ! i)) = Inr (ht', es')"
    "C h = xs @ i # ys" "length ht' = length ht" "map udata es' = map udata es"
    "is_path es' (ht' ! h) xs (nxt (es ! i))" "is_chain es' (nxt (es ! i)) ys"
    "\<And>g. g < length ht \<Longrightarrow> g \<noteq> h \<Longrightarrow> is_chain es' (ht' ! g) (C g)"
    using redirect_chains [OF C I i ht, where target = "nxt (es ! i)", folded h_def] by metis
  have key: "entry_key ops es' j = entry_key ops es j" if "j \<in> I" for j
    using entry_key_cong [OF r(4)] I that by blast
  have "chains ops ht' es' (C(h := xs @ ys)) (I - {i})"
    unfolding chains_def
  proof (intro allI impI)
    fix g assume "g < length ht'"
    then have g: "g < length ht" using r(3) by simp
    have hash: "do_hash ops ht' = do_hash ops ht" by (rule do_hash_cong) (rule r(3))
    have sets: "{j \<in> I - {i}. do_hash ops ht' (entry_key ops es' j) = g} = set (C g) - {i}"
      unfolding hash using chainsD(3) [OF C g] key by auto
    show "is_chain es' (ht' ! g) ((C(h := xs @ ys)) g) \<and> distinct ((C(h := xs @ ys)) g) \<and>
       set ((C(h := xs @ ys)) g) = {j \<in> I - {i}. do_hash ops ht' (entry_key ops es' j) = g}"
    proof (cases "g = h")
      case True
      then show ?thesis unfolding sets
        using chainsD(2) [OF C g] r(2,5,6) by (auto simp: is_chain_append_iff)
    next
      case False
      then have "i \<notin> set (C g)" using chainsD(3) [OF C g] by (auto simp: h_def)
      then show ?thesis unfolding sets using False chainsD(2) [OF C g] r(7) [OF g] by simp
    qed
  qed
  then show thesis using that r unfolding h_def by blast
qed

lemma relabel_chains:
  assumes C: "chains ops ht es C I" and I: "I \<subseteq> {..<length es}" and b: "b \<in> I"
    and i: "i \<notin> I" "i < length es" and ht: "ht \<noteq> []" "length ht < 2 ^ 32"
  obtains ht' es' C' where
    "redirect ops (ht, es) (do_hash ops ht (entry_key ops es b)) (int b) (int i) = Inr (ht', es')"
    "length ht' = length ht" "map udata es' = map udata es"
    "chains ops ht' (es'[i := es' ! b]) C' (insert i (I - {b}))"
proof -
  define h where "h = do_hash ops ht (entry_key ops es b)"
  have h: "h < length ht" unfolding h_def by (rule do_hash_less [OF ht])
  obtain ht' es' us vs where r: "redirect ops (ht, es) h (int b) (int i) = Inr (ht', es')"
    "C h = us @ b # vs" "length ht' = length ht" "map udata es' = map udata es"
    "\<And>j. j \<notin> set us \<Longrightarrow> es' ! j = es ! j"
    "is_path es' (ht' ! h) us (int i)" "is_chain es' (nxt (es ! b)) vs"
    "\<And>g. g < length ht \<Longrightarrow> g \<noteq> h \<Longrightarrow> is_chain es' (ht' ! g) (C g)"
    using redirect_chains [OF C I b ht, where target = "int i", folded h_def] by metis
  let ?es = "es'[i := es' ! b]"
  have len: "length es' = length es" using r(4) by (metis length_map)
  have bi: "b \<noteq> i" "b < length es" using b i I by auto
  have notin: "i \<notin> set (C g)" if "g < length ht" for g using chainsD(3) [OF C that] i by auto
  have "b \<notin> set us" using chainsD(2) [OF C h] r(2) by simp
  then have nb: "nxt (?es ! i) = nxt (es ! b)" using r(5) i(2) len by simp
  have key: "entry_key ops ?es j = (if j = i then entry_key ops es b else entry_key ops es j)" if "j < length es" for j
    using entry_key_cong [OF r(4), of j ops] entry_key_cong [OF r(4), of b ops] that bi len
    by (simp add: entry_key_def nth_list_update)
  have "chains ops ht' ?es (C(h := us @ i # vs)) (insert i (I - {b}))"
    unfolding chains_def
  proof (intro allI impI)
    fix g assume "g < length ht'"
    then have g: "g < length ht" using r(3) by simp
    have hash: "do_hash ops ht' = do_hash ops ht" by (rule do_hash_cong) (rule r(3))
    have sets: "{j \<in> insert i (I - {b}). do_hash ops ht' (entry_key ops ?es j) = g} =
        (if g = h then insert i (set (C g) - {b}) else set (C g))"
    proof (rule set_eqI)
      fix j
      show "j \<in> {j \<in> insert i (I - {b}). do_hash ops ht' (entry_key ops ?es j) = g} \<longleftrightarrow>
          j \<in> (if g = h then insert i (set (C g) - {b}) else set (C g))"
        unfolding hash using chainsD(3) [OF C g] key [of j] i I bi
        by (cases "j = i"; cases "j = b") (auto simp: h_def)
    qed
    show "is_chain ?es (ht' ! g) ((C(h := us @ i # vs)) g) \<and> distinct ((C(h := us @ i # vs)) g) \<and>
       set ((C(h := us @ i # vs)) g) = {j \<in> insert i (I - {b}). do_hash ops ht' (entry_key ops ?es j) = g}"
    proof (cases "g = h")
      case True
      have iu: "i \<notin> set us" "i \<notin> set vs" using notin [OF h] r(2) by auto
      have "is_path ?es (ht' ! h) us (int i)"
        by (rule is_path_upd [OF r(6) iu(1)])
      moreover have "is_chain ?es (nxt (es ! b)) vs"
        by (rule is_chain_upd [OF r(7) iu(2)])
      ultimately have "is_chain ?es (ht' ! h) (us @ i # vs)"
        using nb i(2) len by (auto simp: is_chain_append_iff)
      then show ?thesis unfolding sets
        using True chainsD(2) [OF C h] r(2) iu by auto
    next
      case False
      have "is_chain ?es (ht' ! g) (C g)"
        by (rule is_chain_upd [OF r(8) [OF g False] notin [OF g]])
      then show ?thesis unfolding sets using False chainsD(2) [OF C g] by simp
    qed
  qed
  then show thesis using that r unfolding h_def by blast
qed

lemma butlast_chains:
  assumes C: "chains ops ht es C {..<length es - 1}"
  shows "chains ops ht (butlast es) C {..<length (butlast es)}"
  unfolding chains_def
proof (intro allI impI)
  fix g assume g: "g < length ht"
  have key: "entry_key ops (butlast es) j = entry_key ops es j" if "j < length es - 1" for j
    using that by (simp add: entry_key_def nth_butlast)
  have sub: "j < length es - 1" if "j \<in> set (C g)" for j using chainsD(3) [OF C g] that by auto
  have "is_chain (butlast es) s is" if "is_chain es s is" "\<And>j. j \<in> set is \<Longrightarrow> j < length es - 1" for s "is"
    using that by (induction "is" arbitrary: s) (auto simp: nth_butlast)
  from this [OF chainsD(1) [OF C g] sub] show "is_chain (butlast es) (ht ! g) (C g) \<and> distinct (C g) \<and>
      set (C g) = {i \<in> {..<length (butlast es)}. do_hash ops ht (entry_key ops (butlast es) i) = g}"
    using chainsD(2,3) [OF C g] key by auto
qed

definition swap_out :: "nat \<Rightarrow> 'a list \<Rightarrow> 'a list" where
  "swap_out i xs = butlast (xs[i := last xs])"

lemma swap_out_last: "xs \<noteq> [] \<Longrightarrow> swap_out (length xs - 1) xs = butlast xs"
  by (simp add: swap_out_def last_conv_nth)

lemma do_erase_nat:
  assumes "i < length (entries t)" "hashtable t \<noteq> []"
    and "redirect ops (hashtable t, entries t) h (int i) (nxt (entries t ! i)) = Inr (ht, es)"
  shows "do_erase ops t (int i) h =
    rmap (\<lambda>(ht, es). (t\<lparr>hashtable := (if butlast es = [] then [] else ht), entries := butlast es\<rparr>, 1))
      (if i = length es - 1 then Inr (ht, es)
       else rmap (\<lambda>(ht, es'). (ht, es'[i := es' ! (length es - 1)]))
              (redirect ops (ht, es) (do_hash ops ht (entry_key ops es (length es - 1)))
                 (int (length es - 1)) (int i)))"
  using assms by (simp add: do_erase_def Let_def entry_key_def)

lemma do_erase_chains:
  assumes C: "chains ops ht es C {..<length es}" and i: "i < length es"
    and ht: "ht \<noteq> []" "length ht < 2 ^ 32"
    and t: "hashtable t = ht" "entries t = es"
  obtains ht' es' C' where
    "do_erase ops t (int i) (do_hash ops ht (entry_key ops es i)) =
       Inr (t\<lparr>hashtable := (if es' = [] then [] else ht'), entries := es'\<rparr>, 1)"
    "length ht' = length ht" "map udata es' = swap_out i (map udata es)"
    "chains ops ht' es' C' {..<length es'}"
proof -
  obtain ht1 es1 C1 where one:
    "redirect ops (ht, es) (do_hash ops ht (entry_key ops es i)) (int i) (nxt (es ! i)) = Inr (ht1, es1)"
    "length ht1 = length ht" "map udata es1 = map udata es" "chains ops ht1 es1 C1 ({..<length es} - {i})"
    using unlink_chains [OF C subset_refl _ ht] i by (metis lessThan_iff)
  have len: "length es1 = length es" using one(3) by (metis length_map)
  have u: "udata (es1 ! j) = udata (es ! j)" if "j < length es" for j
    using arg_cong [OF one(3), of "\<lambda>xs. xs ! j"] that len by simp
  have ne: "es1 \<noteq> []" using i len by auto
  show thesis
  proof (cases "i = length es - 1")
    case True
    then have I: "{..<length es} - {i} = {..<length es1 - 1}" using i len by auto
    have "do_erase ops t (int i) (do_hash ops ht (entry_key ops es i)) =
        Inr (t\<lparr>hashtable := (if butlast es1 = [] then [] else ht1), entries := butlast es1\<rparr>, 1)"
      using do_erase_nat [of i t ops _ ht1 es1] one(1) i ht t len True by simp
    moreover have "map udata (butlast es1) = swap_out i (map udata es)"
      using True one(3) swap_out_last [of "map udata es"] ne len by (cases es) (auto simp: map_butlast)
    ultimately show thesis
      using that [of "butlast es1" ht1 C1] butlast_chains [OF one(4) [unfolded I]] one(2) by simp
  next
    case False
    define b where "b = length es - 1"
    have b: "b \<in> {..<length es} - {i}" using i False by (auto simp: b_def)
    have ht1: "ht1 \<noteq> []" "length ht1 < 2 ^ 32" using one(2) ht by auto
    obtain ht2 es2 C2 where two:
      "redirect ops (ht1, es1) (do_hash ops ht1 (entry_key ops es1 b)) (int b) (int i) = Inr (ht2, es2)"
      "length ht2 = length ht1" "map udata es2 = map udata es1"
      "chains ops ht2 (es2[i := es2 ! b]) C2 (insert i ({..<length es} - {i} - {b}))"
      using relabel_chains [OF one(4) _ b _ _ ht1, of i] i len by auto
    have len2: "length es2 = length es" using two(3) len by (metis length_map)
    let ?es' = "es2[i := es2 ! b]"
    have I: "insert i ({..<length es} - {i} - {b}) = {..<length ?es' - 1}"
      using i False len2 by (auto simp: b_def)
    have "do_erase ops t (int i) (do_hash ops ht (entry_key ops es i)) =
        Inr (t\<lparr>hashtable := (if butlast ?es' = [] then [] else ht2), entries := butlast ?es'\<rparr>, 1)"
      using do_erase_nat [of i t ops _ ht1 es1] one(1) i ht t len False two(1) by (simp add: b_def)
    moreover have "map udata (butlast ?es') = swap_out i (map udata es)"
    proof -
      have "map udata ?es' = (map udata es)[i := map udata es ! b]"
        using two(3) one(3) b len2 by (simp add: map_update) (metis DiffD1 lessThan_iff nth_map)
      moreover have "last (map udata es) = map udata es ! b"
        using i by (subst last_conv_nth) (auto simp: b_def)
      ultimately show ?thesis by (simp add: swap_out_def map_butlast)
    qed
    ultimately show thesis
      using that [of "butlast ?es'" ht2 C2] butlast_chains [OF two(4) [unfolded I]] one(2) two(2) by simp
  qed
qed

section \<open>The table as a map\<close>

definition table_map :: "('k, 'e) table_ops \<Rightarrow> 'e table \<Rightarrow> 'k \<rightharpoonup> 'e" where
  "table_map ops t = map_of (map (\<lambda>e. (key_of ops (udata e), udata e)) (entries t))"

definition table_ok :: "('k, 'e) table_ops \<Rightarrow> 'e table \<Rightarrow> bool" where
  "table_ok ops t \<longleftrightarrow> table_wf ops t \<and> room (capacity t)"

definition can_grow :: "('k, 'e) table_ops \<Rightarrow> 'e table \<Rightarrow> bool" where
  "can_grow ops t \<longleftrightarrow> capacity t < grow ops (capacity t) \<and> room (grow ops (capacity t))"

lemma keyed_Some:
  assumes "distinct (map kf xs)"
  shows "map_of (map (\<lambda>e. (kf e, e)) xs) k = Some e \<longleftrightarrow> e \<in> set xs \<and> kf e = k"
proof -
  have "distinct (map fst (map (\<lambda>e. (kf e, e)) xs))" using assms by (simp add: o_def)
  then show ?thesis by (auto simp: map_of_eq_Some_iff)
qed

lemma table_map_udata: "table_map ops t = map_of (map (\<lambda>e. (key_of ops e, e)) (map udata (entries t)))"
  by (simp add: table_map_def o_def)

lemma distinct_udata: "distinct (map (\<lambda>e. key_of ops (udata e)) es) \<Longrightarrow> distinct (map (key_of ops) (map udata es))"
  by (simp add: o_def)

lemma table_map_Some:
  "table_wf ops t \<Longrightarrow> table_map ops t k = Some e \<longleftrightarrow> e \<in> set (map udata (entries t)) \<and> key_of ops e = k"
  unfolding table_map_udata by (intro keyed_Some distinct_udata wf_distinct)

lemma table_map_index:
  assumes "table_wf ops t"
  shows "table_map ops t k =
    (if index_of ops (entries t) k < 0 then None else Some (udata (entries t ! nat (index_of ops (entries t) k))))"
proof (cases rule: index_of_cases [of "entries t" ops k])
  case (present i)
  then show ?thesis using table_map_Some [OF assms] by (simp add: entry_key_def)
next
  case absent
  have "table_map ops t k \<noteq> Some e" for e
  proof
    assume "table_map ops t k = Some e"
    then obtain i where "i < length (entries t)" "e = udata (entries t ! i)" "key_of ops e = k"
      using table_map_Some [OF assms, of k e] by (auto simp: in_set_conv_nth)
    then show False using absent(1) [of i] by (simp add: entry_key_def)
  qed
  then show ?thesis using absent(2) by (cases "table_map ops t k") auto
qed

lemma table_map_cong: "map udata (entries t) = map udata (entries t') \<Longrightarrow> table_map ops t = table_map ops t'"
  by (simp add: table_map_udata)

lemma index_of_neg: "table_wf ops t \<Longrightarrow> index_of ops (entries t) k < 0 \<longleftrightarrow> table_map ops t k = None"
  by (simp add: table_map_index)

lemma table_insert_ok:
  assumes "table_ok ops t" "can_grow ops t"
  obtains t' i where "table_insert ops t e = Inr (t', i, table_map ops t (key_of ops e) = None)"
    "table_ok ops t'" "0 \<le> i" "i < int (length (entries t'))" "key_of ops (udata (entries t' ! nat i)) = key_of ops e"
    "map udata (entries t') = map udata (entries t) @ (if table_map ops t (key_of ops e) = None then [e] else [])"
    "table_map ops t' = (if table_map ops t (key_of ops e) = None then (table_map ops t)(key_of ops e \<mapsto> e) else table_map ops t)"
    "capacity t' \<in> {capacity t, grow ops (capacity t)}"
proof -
  let ?k = "key_of ops e"
  have wf: "table_wf ops t" and rm: "room (capacity t)" using assms(1) by (simp_all add: table_ok_def)
  obtain t1 where t1: "do_lookup ops t ?k (do_hash ops (hashtable t) ?k) =
       Inr (t1, do_hash ops (hashtable t1) ?k, index_of ops (entries t) ?k)"
    "table_wf ops t1" "capacity t1 = capacity t" "map udata (entries t1) = map udata (entries t)"
    using do_lookup_ok [OF wf rm] by metis
  have idx: "index_of ops (entries t1) ?k = index_of ops (entries t) ?k" by (rule index_of_cong [OF t1(4)])
  have m1: "table_map ops t1 = table_map ops t" by (rule table_map_cong [OF t1(4)])
  show thesis
  proof (cases rule: index_of_cases [of "entries t1" ops ?k])
    case (present i)
    then obtain v where "table_map ops t ?k = Some v" using idx m1 table_map_index [OF t1(2), of ?k] by simp
    then show thesis
      using that [of t1 "int i"] t1 present rm m1 idx
      by (simp add: table_insert_def table_ok_def entry_key_def)
  next
    case absent
    have none: "table_map ops t ?k = None" using absent(2) m1 table_map_index [OF t1(2), of ?k] by simp
    have nr: "next_room ops t1" using assms(2) rm t1(3) by (simp add: next_room_def can_grow_def)
    obtain t2 where t2: "do_insert ops t1 e (do_hash ops (hashtable t1) ?k) = Inr (t2, int (length (entries t1)))"
      "table_wf ops t2" "map udata (entries t2) = map udata (entries t1) @ [e]"
      "capacity t2 = capacity (emplace_back ops e 0 t1)"
      using do_insert_ok [OF t1(2) nr absent(2)] by metis
    have len: "length (entries t2) = length (entries t1) + 1" using arg_cong [OF t2(3), of length] by simp
    have ok: "table_ok ops t2"
      using t2(2,4) nr by (simp add: table_ok_def emplace_back_def next_room_def)
    have last: "udata (entries t2 ! length (entries t1)) = e"
      using arg_cong [OF t2(3), of "\<lambda>xs. xs ! length (entries t1)"] len by (simp add: nth_append)
    have "table_map ops t2 = (table_map ops t)(?k \<mapsto> e)"
    proof
      fix k
      have "table_map ops t2 k = Some v \<longleftrightarrow> ((table_map ops t)(?k \<mapsto> e)) k = Some v" for v
        unfolding table_map_Some [OF t2(2)] t2(3) m1 [symmetric]
        using table_map_Some [OF t1(2), of k v] none m1 table_map_Some [OF t1(2), of ?k] by auto
      then show "table_map ops t2 k = ((table_map ops t)(?k \<mapsto> e)) k" by (metis option.exhaust)
    qed
    then show thesis
      using that [of t2 "int (length (entries t1))"] t1 t2 absent(2) idx none ok last len
      by (simp add: table_insert_def emplace_back_def)
  qed
qed

lemma set_swap_out:
  assumes "distinct xs" "i < length xs"
  shows "set (swap_out i xs) = set xs - {xs ! i}" and "distinct (swap_out i xs)"
proof -
  from assms(2) have ne: "xs \<noteq> []" by auto
  then obtain ys y where xs: "xs = ys @ [y]" by (metis append_butlast_last_id)
  have "set (swap_out i xs) = set xs - {xs ! i} \<and> distinct (swap_out i xs)"
  proof (cases "i = length ys")
    case True
    then show ?thesis using assms(1) xs by (auto simp: swap_out_def)
  next
    case False
    then have i: "i < length ys" using assms(2) xs by simp
    then have "ys = take i ys @ ys ! i # drop (Suc i) ys" by (simp add: id_take_nth_drop)
    moreover have "swap_out i xs = ys[i := y]"
      using i xs by (simp add: swap_out_def list_update_append)
    ultimately show ?thesis using assms(1) i xs
      by (auto simp: set_update_distinct nth_append distinct_list_update)
  qed
  then show "set (swap_out i xs) = set xs - {xs ! i}" "distinct (swap_out i xs)" by simp_all
qed

lemma erase_at_ok:
  assumes "table_ok ops t" "i < length (entries t)"
  obtains t' where
    "do_erase ops t (int i) (do_hash ops (hashtable t) (entry_key ops (entries t) i)) = Inr (t', 1)"
    "table_ok ops t'" "map udata (entries t') = swap_out i (map udata (entries t))"
    "table_map ops t' = (table_map ops t)(entry_key ops (entries t) i := None)"
proof -
  have wf: "table_wf ops t" and rm: "room (capacity t)" using assms(1) by (simp_all add: table_ok_def)
  have "entries t \<noteq> []" using assms(2) by auto
  then have ht: "hashtable t \<noteq> []" by (rule wf_nonempty [OF wf])
  obtain C where C: "chains ops (hashtable t) (entries t) C {..<length (entries t)}"
    using wf unfolding table_wf_def by blast
  obtain ht' es' C' where e:
    "do_erase ops t (int i) (do_hash ops (hashtable t) (entry_key ops (entries t) i)) =
       Inr (t\<lparr>hashtable := (if es' = [] then [] else ht'), entries := es'\<rparr>, 1)"
    "length ht' = length (hashtable t)" "map udata es' = swap_out i (map udata (entries t))"
    "chains ops ht' es' C' {..<length es'}"
    using do_erase_chains [OF C assms(2) ht wf_size [OF wf] refl refl] by metis
  let ?t' = "t\<lparr>hashtable := (if es' = [] then [] else ht'), entries := es'\<rparr>"
  let ?us = "map udata (entries t)"
  have dk: "distinct (map (key_of ops) ?us)" using wf_distinct [OF wf] by (simp add: o_def)
  then have du: "distinct ?us" by (rule distinct_map [THEN iffD1, THEN conjunct1])
  have sets: "set (map udata es') = set ?us - {?us ! i}" "distinct (map udata es')"
    unfolding e(3) using set_swap_out [OF du, of i] assms(2) by simp_all
  have "distinct (map (key_of ops) (map udata es'))"
    unfolding distinct_map [of "key_of ops"] sets(1)
    using sets(2) dk [unfolded distinct_map [of "key_of ops"]] inj_on_subset by blast
  then have d': "distinct (map (\<lambda>e. key_of ops (udata e)) es')" by (simp add: o_def)
  have "length es' \<le> capacity t"
  proof -
    have "length es' = length (entries t) - 1" using arg_cong [OF e(3), of length] by (simp add: swap_out_def)
    then show ?thesis using wf_capacity [OF wf] by simp
  qed
  then have wf': "table_wf ops ?t'"
    using e(2,4) d' ht wf_size [OF wf] by (auto simp: table_wf_def chains_def)
  have "table_map ops ?t' = (table_map ops t)(entry_key ops (entries t) i := None)"
  proof
    fix k
    have inj: "a = ?us ! i" if "a \<in> set ?us" "key_of ops a = entry_key ops (entries t) i" for a
    proof -
      from that(1) obtain j where "j < length (entries t)" "a = ?us ! j" by (auto simp: in_set_conv_nth)
      then show ?thesis using that(2) entry_key_inj [OF wf_distinct [OF wf], of j i] assms(2)
        by (simp add: entry_key_def)
    qed
    have "table_map ops ?t' k = Some v \<longleftrightarrow> ((table_map ops t)(entry_key ops (entries t) i := None)) k = Some v" for v
      using table_map_Some [OF wf', of k v] table_map_Some [OF wf, of k v] sets(1) inj [of v] assms(2)
      by (auto simp: entry_key_def)
    then show "table_map ops ?t' k = ((table_map ops t)(entry_key ops (entries t) i := None)) k"
      by (metis option.exhaust)
  qed
  then show thesis using that [of ?t'] e(1,3) wf' rm by (simp add: table_ok_def)
qed

lemma table_erase_ok:
  assumes "table_ok ops t"
  obtains t' where "table_erase ops t k = Inr (t', if table_map ops t k = None then 0 else 1)"
    "table_ok ops t'" "table_map ops t' = (table_map ops t)(k := None)"
proof -
  have wf: "table_wf ops t" and rm: "room (capacity t)" using assms(1) by (simp_all add: table_ok_def)
  obtain t1 where t1: "do_lookup ops t k (do_hash ops (hashtable t) k) =
       Inr (t1, do_hash ops (hashtable t1) k, index_of ops (entries t) k)"
    "table_wf ops t1" "capacity t1 = capacity t" "map udata (entries t1) = map udata (entries t)"
    using do_lookup_ok [OF wf rm] by metis
  have idx: "index_of ops (entries t1) k = index_of ops (entries t) k" by (rule index_of_cong [OF t1(4)])
  have m1: "table_map ops t1 = table_map ops t" by (rule table_map_cong [OF t1(4)])
  have ok1: "table_ok ops t1" using t1 rm by (simp add: table_ok_def)
  show thesis
  proof (cases rule: index_of_cases [of "entries t1" ops k])
    case (present i)
    then have "table_map ops t k \<noteq> None" using m1 table_map_index [OF t1(2), of k] by simp
    moreover obtain t2 where "do_erase ops t1 (int i) (do_hash ops (hashtable t1) (entry_key ops (entries t1) i)) = Inr (t2, 1)"
      "table_ok ops t2" "table_map ops t2 = (table_map ops t1)(entry_key ops (entries t1) i := None)"
      using erase_at_ok [OF ok1 present(1)] by metis
    ultimately show thesis using that [of t2] t1(1) present idx m1 by (simp add: table_erase_def)
  next
    case absent
    have none: "table_map ops t k = None" using absent(2) m1 table_map_index [OF t1(2), of k] by simp
    have "do_erase ops t1 (-1) (do_hash ops (hashtable t1) k) = Inr (t1, 0)"
      by (simp add: do_erase_def)
    then show thesis using that [of t1] t1(1) absent(2) idx m1 none ok1
      by (simp add: table_erase_def fun_upd_idem)
  qed
qed

lemma table_count_ok: "table_ok ops t \<Longrightarrow> table_count ops t k = Inr (if table_map ops t k = None then 0 else 1)"
  by (simp add: table_ok_def table_count_def index_const_ok index_of_neg)

section \<open>The interface of a table\<close>

locale keyed_store =
  fixes inv :: "'t \<Rightarrow> bool"
    and free :: "'t \<Rightarrow> bool"
    and abs :: "'t \<Rightarrow> 'k \<rightharpoonup> 'e"
    and key :: "'e \<Rightarrow> 'k"
    and ins :: "'t \<Rightarrow> 'e \<Rightarrow> ('t \<times> int \<times> bool) result"
    and era :: "'t \<Rightarrow> 'k \<Rightarrow> ('t \<times> nat) result"
    and cnt :: "'t \<Rightarrow> 'k \<Rightarrow> nat result"
  assumes ins: "inv t \<Longrightarrow> free t \<Longrightarrow> \<exists>t' i. ins t e = Inr (t', i, abs t (key e) = None) \<and> inv t' \<and>
      abs t' = (if abs t (key e) = None then (abs t)(key e \<mapsto> e) else abs t)"
    and era: "inv t \<Longrightarrow> \<exists>t'. era t k = Inr (t', if abs t k = None then 0 else 1) \<and> inv t' \<and>
      abs t' = (abs t)(k := None)"
    and cnt: "inv t \<Longrightarrow> cnt t k = Inr (if abs t k = None then 0 else 1)"
begin

lemma count_after_insert:
  assumes "inv t" "free t"
  shows "rbind (ins t e) (\<lambda>(t', _). cnt t' k) = (if k = key e then Inr 1 else cnt t k)"
proof -
  obtain t' i where t': "ins t e = Inr (t', i, abs t (key e) = None)" "inv t'"
      "abs t' = (if abs t (key e) = None then (abs t)(key e \<mapsto> e) else abs t)"
    using ins [OF assms] by blast
  then show ?thesis using cnt [OF t'(2), of k] cnt [OF assms(1), of k] by auto
qed

lemma count_after_erase:
  assumes "inv t"
  shows "rbind (era t k) (\<lambda>(t', _). cnt t' k') = (if k' = k then Inr 0 else cnt t k')"
proof -
  obtain t' where t': "era t k = Inr (t', if abs t k = None then 0 else 1)" "inv t'"
      "abs t' = (abs t)(k := None)"
    using era [OF assms] by blast
  then show ?thesis using cnt [OF t'(2), of k'] cnt [OF assms, of k'] by simp
qed

end

lemma table_keyed_store:
  "keyed_store (table_ok ops) (can_grow ops) (table_map ops) (key_of ops) (table_insert ops) (table_erase ops) (table_count ops)"
proof
  fix t e assume "table_ok ops t" "can_grow ops t"
  then show "\<exists>t' i. table_insert ops t e = Inr (t', i, table_map ops t (key_of ops e) = None) \<and> table_ok ops t' \<and>
      table_map ops t' = (if table_map ops t (key_of ops e) = None then (table_map ops t)(key_of ops e \<mapsto> e) else table_map ops t)"
    by (rule table_insert_ok) blast
next
  fix t k assume "table_ok ops t"
  then show "\<exists>t'. table_erase ops t k = Inr (t', if table_map ops t k = None then 0 else 1) \<and> table_ok ops t' \<and>
      table_map ops t' = (table_map ops t)(k := None)"
    by (rule table_erase_ok) blast
qed (rule table_count_ok)

interpretation tab: keyed_store "table_ok ops" "can_grow ops" "table_map ops" "key_of ops" "table_insert ops"
    "table_erase ops" "table_count ops" for ops
  by (rule table_keyed_store)

section \<open>Copying, sorting, comparing\<close>

lemma rehash_same_map:
  assumes "table_ok ops t" "room c" "length es \<le> c" "set es = set (entries t)" "length es = length (entries t)"
    "distinct (map (\<lambda>e. key_of ops (udata e)) es)"
  shows "\<exists>t'. do_rehash ops (u\<lparr>entries := es, capacity := c\<rparr>) = Inr t' \<and> table_ok ops t' \<and>
    table_map ops t' = table_map ops t \<and> map udata (entries t') = map udata es"
proof -
  have wf: "table_wf ops t" using assms(1) by (simp add: table_ok_def)
  have "links_ok es" using wf_links_ok [OF wf] assms(4,5) by (simp add: links_ok_def)
  then obtain t' where t': "do_rehash ops (u\<lparr>entries := es, capacity := c\<rparr>) = Inr t'" "table_wf ops t'"
      "capacity t' = c" "map udata (entries t') = map udata es"
    using do_rehash_ok [of "u\<lparr>entries := es, capacity := c\<rparr>" ops] assms by auto
  have "table_map ops t' k = Some v \<longleftrightarrow> table_map ops t k = Some v" for k v
    unfolding table_map_Some [OF wf] table_map_Some [OF t'(2)] t'(4) using assms(4) by simp
  then have "table_map ops t' = table_map ops t" by (metis (full_types) ext option.exhaust)
  then show ?thesis using t' assms(2) by (simp add: table_ok_def)
qed

lemma table_assign_ok:
  assumes "table_ok ops other" "room (capacity t)"
  shows "\<exists>t'. table_assign ops t other = Inr t' \<and> table_ok ops t' \<and>
    table_map ops t' = table_map ops other \<and> table_iterate t' = table_iterate other"
proof -
  have wf: "table_wf ops other" using assms(1) by (simp add: table_ok_def)
  have "room (length (entries other))"
    using assms(1) wf_capacity [OF wf] by (simp add: table_ok_def room_def hashtable_size_factor_def)
  then have "room (max (capacity t) (length (entries other)))" using assms(2) by (simp add: max_def)
  from rehash_same_map [OF assms(1) this _ refl refl wf_distinct [OF wf], of t]
  show ?thesis by (auto simp: table_assign_def table_iterate_def rev_map [symmetric])
qed

lemma table_sort_ok:
  assumes "table_ok ops t"
  shows "\<exists>t'. table_sort ops t = Inr t' \<and> table_ok ops t' \<and> table_map ops t' = table_map ops t \<and>
    sorted (map (key_of ops) (table_iterate t'))"
proof -
  have wf: "table_wf ops t" and rm: "room (capacity t)" using assms by (simp_all add: table_ok_def)
  let ?es = "rev (sort_key (\<lambda>e. key_of ops (udata e)) (entries t))"
  have "distinct (map (\<lambda>e. key_of ops (udata e)) ?es)"
    using wf_distinct [OF wf] by (simp add: distinct_map)
  from rehash_same_map [OF assms rm _ _ _ this, of t] obtain t' where
    "table_sort ops t = Inr t'" "table_ok ops t'" "table_map ops t' = table_map ops t"
    "map udata (entries t') = map udata ?es"
    using wf_capacity [OF wf] by (auto simp: table_sort_def)
  moreover from this(4) have "map (key_of ops) (table_iterate t') = map (\<lambda>e. key_of ops (udata e)) (sort_key (\<lambda>e. key_of ops (udata e)) (entries t))"
    using arg_cong [of "map udata (entries t')" "map udata ?es" "\<lambda>xs. map (key_of ops) (rev xs)"]
    by (simp add: table_iterate_def rev_map [symmetric] o_def)
  ultimately show ?thesis by (auto simp: sorted_sort_key)
qed

definition dict_map :: "('k, 'k \<times> 'v) table_ops \<Rightarrow> ('k, 'v) dict \<Rightarrow> 'k \<rightharpoonup> 'v" where
  "dict_map ops t k = map_option snd (table_map ops t k)"

lemma dict_at_const_ok:
  assumes "table_ok ops t"
  shows "dict_at_const ops t k = (case dict_map ops t k of None \<Rightarrow> Inl OutOfRange | Some v \<Rightarrow> Inr v)"
    and "dict_at_default ops t k d = Inr (case dict_map ops t k of None \<Rightarrow> d | Some v \<Rightarrow> v)"
proof -
  have wf: "table_wf ops t" using assms by (simp add: table_ok_def)
  show "dict_at_const ops t k = (case dict_map ops t k of None \<Rightarrow> Inl OutOfRange | Some v \<Rightarrow> Inr v)"
    "dict_at_default ops t k d = Inr (case dict_map ops t k of None \<Rightarrow> d | Some v \<Rightarrow> v)"
    by (simp_all add: dict_at_const_def dict_at_default_def index_const_ok [OF wf] dict_map_def table_map_index [OF wf])
qed

lemma dict_map_Some:
  assumes "table_ok ops t" "key_of ops = fst"
  shows "dict_map ops t k = Some v \<longleftrightarrow> (k, v) \<in> set (map udata (entries t))"
proof -
  have wf: "table_wf ops t" using assms(1) by (simp add: table_ok_def)
  have "dict_map ops t k = Some v \<longleftrightarrow> (\<exists>e. table_map ops t k = Some e \<and> snd e = v)"
    by (cases "table_map ops t k") (auto simp: dict_map_def)
  also have "\<dots> \<longleftrightarrow> (k, v) \<in> set (map udata (entries t))"
    unfolding table_map_Some [OF wf] assms(2) by (metis fst_conv prod.collapse snd_conv)
  finally show ?thesis .
qed

lemma dict_eq_loop_ok:
  assumes "table_ok ops u"
  shows "dict_eq_loop ops u es = Inr (list_all (\<lambda>(k, v). dict_map ops u k = Some v) es)"
proof (induction es)
  case (Cons p es)
  obtain k v where p: "p = (k, v)" by (cases p)
  have wf: "table_wf ops u" using assms by (simp add: table_ok_def)
  show ?case
  proof (cases rule: index_of_cases [of "entries u" ops k])
    case (present i)
    then have "dict_map ops u k = Some (snd (udata (entries u ! i)))"
      by (simp add: dict_map_def table_map_index [OF wf])
    then show ?thesis using Cons present(3)
      by (simp add: p table_find_const_def index_const_ok [OF wf])
  next
    case absent
    then have "dict_map ops u k = None" by (simp add: dict_map_def table_map_index [OF wf])
    then show ?thesis using absent(2)
      by (simp add: p table_find_const_def index_const_ok [OF wf])
  qed
qed simp

lemma dict_eq_ok:
  assumes "table_ok ops t" "table_ok ops u" "key_of ops = fst"
  shows "dict_eq ops t u = Inr (dict_map ops t = dict_map ops u)"
proof -
  let ?T = "map udata (entries t)" and ?U = "map udata (entries u)"
  have d: "distinct ?T" "distinct ?U"
    using assms wf_distinct [of ops t] wf_distinct [of ops u] 
    by (auto simp: table_ok_def distinct_map inj_on_def)
  have maps: "dict_map ops t = dict_map ops u \<longleftrightarrow> set ?T = set ?U"
  proof
    assume "dict_map ops t = dict_map ops u"
    then show "set ?T = set ?U"
      using dict_map_Some [OF assms(1,3)] dict_map_Some [OF assms(2,3)] by (metis set_eqI surj_pair)
  next
    assume "set ?T = set ?U"
    then have "dict_map ops t k = Some v \<longleftrightarrow> dict_map ops u k = Some v" for k v
      unfolding dict_map_Some [OF assms(1,3)] dict_map_Some [OF assms(2,3)] by simp
    then show "dict_map ops t = dict_map ops u" by (metis (full_types) ext option.exhaust)
  qed
  have sub: "list_all (\<lambda>(k, v). dict_map ops u k = Some v) ?T \<longleftrightarrow> set ?T \<subseteq> set ?U"
    unfolding list_all_iff dict_map_Some [OF assms(2,3)] by auto
  show ?thesis
  proof (cases "length ?T = length ?U")
    case True
    then have "card (set ?T) = card (set ?U)" using d by (metis distinct_card)
    then have "set ?T \<subseteq> set ?U \<longleftrightarrow> set ?T = set ?U" by (metis List.finite_set card_subset_eq subset_refl)
    then show ?thesis using True sub maps by (simp add: dict_eq_def dict_eq_loop_ok [OF assms(2)])
  next
    case False
    then have "set ?T \<noteq> set ?U" using d by (metis distinct_card)
    then show ?thesis using False maps by (simp add: dict_eq_def)
  qed
qed

lemma dict_subscript_ok:
  assumes "table_ok ops t" "can_grow ops t" "key_of ops = fst"
  obtains t' i where "dict_subscript ops d t k = Inr (t', i)" "table_ok ops t'" "0 \<le> i" "i < int (length (entries t'))"
    "udata (entries t' ! nat i) = (k, case dict_map ops t k of None \<Rightarrow> d | Some v \<Rightarrow> v)"
    "dict_map ops t' = (if dict_map ops t k = None then (dict_map ops t)(k \<mapsto> d) else dict_map ops t)"
proof -
  have "dict_subscript ops d t k = rmap (\<lambda>(t, i, _). (t, i)) (table_insert ops t (k, d))"
    using assms(3)
    by (auto simp: dict_subscript_def table_insert_def rmap_def rbind_def split: sum.splits prod.splits)
  moreover obtain t' i where t': "table_insert ops t (k, d) = Inr (t', i, table_map ops t k = None)"
    "table_ok ops t'" "0 \<le> i" "i < int (length (entries t'))" "fst (udata (entries t' ! nat i)) = k"
    "table_map ops t' = (if table_map ops t k = None then (table_map ops t)(k \<mapsto> (k, d)) else table_map ops t)"
    using table_insert_ok [OF assms(1,2), of "(k, d)", unfolded assms(3) fst_conv] by blast
  moreover have m: "dict_map ops t' = (if dict_map ops t k = None then (dict_map ops t)(k \<mapsto> d) else dict_map ops t)"
    using t'(6) by (auto simp: dict_map_def fun_eq_iff)
  moreover have "udata (entries t' ! nat i) = (k, case dict_map ops t k of None \<Rightarrow> d | Some v \<Rightarrow> v)"
  proof -
    have "dict_map ops t' k = Some (snd (udata (entries t' ! nat i)))"
      unfolding dict_map_Some [OF t'(2) assms(3)] using t'(3,4,5) by (auto intro!: imageI nth_mem)
    then show ?thesis using m t'(5) by (auto simp: prod_eq_iff split: option.splits if_splits)
  qed
  ultimately show thesis using that [of t' i] by simp
qed

lemma wf_same_shape:
  assumes "table_wf ops t" "length es = length (entries t)"
    and same: "\<And>i. i < length es \<Longrightarrow> nxt (es ! i) = nxt (entries t ! i) \<and> entry_key ops es i = entry_key ops (entries t) i"
  shows "table_wf ops (t\<lparr>entries := es\<rparr>)"
proof -
  obtain C where C: "chains ops (hashtable t) (entries t) C {..<length (entries t)}"
    using assms(1) unfolding table_wf_def by blast
  have "chains ops (hashtable t) es C {..<length es}"
    unfolding chains_def
  proof (intro allI impI)
    fix g assume g: "g < length (hashtable t)"
    have lt: "i < length es" if "i \<in> set (C g)" for i using chainsD(3) [OF C g] that assms(2) by auto
    have "is_chain es (hashtable t ! g) (C g)"
      using chainsD(1) [OF C g] assms(2) same lt by (auto intro: is_chain_cong [of "entries t"])
    moreover have "set (C g) = {i \<in> {..<length es}. do_hash ops (hashtable t) (entry_key ops es i) = g}"
      unfolding chainsD(3) [OF C g] using same assms(2) by auto
    ultimately show "is_chain es (hashtable t ! g) (C g) \<and> distinct (C g) \<and>
      set (C g) = {i \<in> {..<length es}. do_hash ops (hashtable t) (entry_key ops es i) = g}"
      using chainsD(2) [OF C g] by simp
  qed
  moreover have "map (\<lambda>e. key_of ops (udata e)) es = map (\<lambda>e. key_of ops (udata e)) (entries t)"
    using assms(2) same by (auto simp: entry_key_def intro!: nth_equalityI)
  ultimately show ?thesis using assms(1,2) by (auto simp: table_wf_def)
qed

lemma map_of_list_update:
  assumes "distinct (map fst xs)" "m < length xs"
  shows "map_of (xs[m := (fst (xs ! m), w)]) = (map_of xs)(fst (xs ! m) \<mapsto> w)"
  using assms
proof (induction xs arbitrary: m)
  case (Cons p ps)
  show ?case
  proof (cases m)
    case 0
    then show ?thesis by (cases p) (auto simp: fun_eq_iff)
  next
    case (Suc l)
    then have "fst (ps ! l) \<in> fst ` set ps" using Cons.prems(2) by simp
    moreover have "fst p \<notin> fst ` set ps" using Cons.prems(1) by simp
    ultimately have "fst (ps ! l) \<noteq> fst p" by metis
    then show ?thesis using Cons Suc by (cases p) (auto simp: fun_eq_iff)
  qed
qed simp

lemma dict_map_map_of:
  assumes "table_ok ops u" "key_of ops = fst"
  shows "dict_map ops u = map_of (map udata (entries u))"
proof
  fix k
  have "distinct (map fst (map udata (entries u)))"
    using wf_distinct [of ops u] assms by (simp add: table_ok_def o_def)
  then have "dict_map ops u k = Some w \<longleftrightarrow> map_of (map udata (entries u)) k = Some w" for w
    using dict_map_Some [OF assms] by (simp add: map_of_eq_Some_iff del: map_map)
  then show "dict_map ops u k = map_of (map udata (entries u)) k" by (metis option.exhaust)
qed

lemma dict_store_ok:
  assumes "table_ok ops t" "key_of ops = fst" "0 \<le> i" "i < int (length (entries t))"
  shows "table_ok ops (dict_store t i v)"
    and "dict_map ops (dict_store t i v) = (dict_map ops t)(fst (udata (entries t ! nat i)) \<mapsto> v)"
proof -
  let ?n = "nat i" and ?k = "fst (udata (entries t ! nat i))"
  have n: "?n < length (entries t)" using assms(3,4) by simp
  let ?es = "(entries t)[?n := (entries t ! ?n)\<lparr>udata := (?k, v)\<rparr>]"
  have st: "dict_store t i v = t\<lparr>entries := ?es\<rparr>" by (simp add: dict_store_def)
  have "table_wf ops (t\<lparr>entries := ?es\<rparr>)"
  proof (rule wf_same_shape)
    fix j assume "j < length ?es"
    then show "nxt (?es ! j) = nxt (entries t ! j) \<and> entry_key ops ?es j = entry_key ops (entries t) j"
      using assms(2) by (cases "j = ?n") (simp_all add: entry_key_def)
  qed (use assms(1) in \<open>simp_all add: table_ok_def\<close>)
  then show ok: "table_ok ops (dict_store t i v)" using assms(1) by (simp add: table_ok_def st)
  have wf: "table_wf ops t" using assms(1) by (simp add: table_ok_def)
  have us: "map udata ?es = (map udata (entries t))[?n := (?k, v)]" by (simp add: map_update)
  have dk: "distinct (map fst (map udata (entries t)))" using wf_distinct [OF wf] assms(2) by (simp add: o_def)
  show "dict_map ops (dict_store t i v) = (dict_map ops t)(?k \<mapsto> v)"
    unfolding dict_map_map_of [OF ok assms(2)] dict_map_map_of [OF assms(1,2)]
    using map_of_list_update [OF dk, of ?n v] n us by (simp add: st)
qed

lemma dict_set_ok:
  assumes "table_ok ops t" "can_grow ops t" "key_of ops = fst"
  obtains t' where "dict_set ops d t k v = Inr t'" "table_ok ops t'" "dict_map ops t' = (dict_map ops t)(k \<mapsto> v)"
proof -
  obtain t1 i where t1: "dict_subscript ops d t k = Inr (t1, i)" "table_ok ops t1" "0 \<le> i" "i < int (length (entries t1))"
    "udata (entries t1 ! nat i) = (k, case dict_map ops t k of None \<Rightarrow> d | Some v \<Rightarrow> v)"
    "dict_map ops t1 = (if dict_map ops t k = None then (dict_map ops t)(k \<mapsto> d) else dict_map ops t)"
    using dict_subscript_ok [OF assms] by metis
  then show thesis
    using that [of "dict_store t1 i v"] dict_store_ok [OF t1(2) assms(3) t1(3,4), of v]
    by (auto simp: dict_set_def)
qed

lemma pool_dom: "table_ok ops t \<Longrightarrow> key_of ops = (\<lambda>k. k) \<Longrightarrow> dom (table_map ops t) = set (map udata (entries t))"
  using table_map_Some [of ops t] by (auto simp: table_ok_def)

lemma pool_eq_loop_ok:
  assumes "table_ok ops u"
  shows "pool_eq_loop ops u ks = Inr (set ks \<subseteq> dom (table_map ops u))"
  by (induction ks) (auto simp: table_count_ok [OF assms])

lemma pool_eq_ok:
  assumes "table_ok ops t" "table_ok ops u" "key_of ops = (\<lambda>k. k)"
  shows "pool_eq ops t u = Inr (dom (table_map ops t) = dom (table_map ops u))"
proof -
  let ?T = "map udata (entries t)" and ?U = "map udata (entries u)"
  have d: "distinct ?T" "distinct ?U"
    using assms wf_distinct [of ops t] wf_distinct [of ops u] by (simp_all add: table_ok_def)
  note doms = pool_dom [OF assms(1,3)] pool_dom [OF assms(2,3)]
  show ?thesis
  proof (cases "length ?T = length ?U")
    case True
    then have "card (set ?T) = card (set ?U)" using d by (metis distinct_card)
    then have "set ?T \<subseteq> set ?U \<longleftrightarrow> set ?T = set ?U" by (metis List.finite_set card_subset_eq subset_refl)
    then show ?thesis using True doms by (simp add: pool_eq_def pool_eq_loop_ok [OF assms(2)])
  next
    case False
    then have "set ?T \<noteq> set ?U" using d by (metis distinct_card)
    then show ?thesis using False doms by (simp add: pool_eq_def)
  qed
qed

lemma pool_pop_ok:
  assumes "table_ok ops t" "entries t \<noteq> []" "key_of ops = (\<lambda>k. k)"
  obtains t' where "pool_pop ops t = Inr (t', hd (table_iterate t))" "table_ok ops t'"
    "table_iterate t' = tl (table_iterate t)"
proof -
  let ?n = "length (entries t) - 1"
  have n: "?n < length (entries t)" "nat (int (length (entries t)) - 1) = ?n"
    "int ?n = int (length (entries t)) - 1" using assms(2) by (cases "entries t"; simp)+
  obtain t' where t': "do_erase ops t (int ?n) (do_hash ops (hashtable t) (entry_key ops (entries t) ?n)) = Inr (t', 1)"
    "table_ok ops t'" "map udata (entries t') = swap_out ?n (map udata (entries t))"
    using erase_at_ok [OF assms(1) n(1)] by metis
  have it: "table_iterate t' = tl (table_iterate t)"
  proof -
    have "map udata (entries t') = butlast (map udata (entries t))"
      using t'(3) swap_out_last [of "map udata (entries t)"] assms(2) by simp
    then show ?thesis by (simp add: table_iterate_def rev_map [symmetric] butlast_rev [symmetric])
       (metis butlast_rev rev_rev_ident)
  qed
  have "hd (table_iterate t) = udata (entries t ! ?n)"
    using assms(2) by (simp add: table_iterate_def hd_map hd_rev last_conv_nth)
  then have "pool_pop ops t = Inr (t', hd (table_iterate t))"
    using t'(1) n assms(2) by (simp add: pool_pop_def table_begin_def table_erase_it_def entry_key_def Let_def)
  then show thesis using that t'(2) it by blast
qed

section \<open>Guarantees\<close>

lemma empty_ok [simp, intro]: "table_ok ops table_empty"
  by (auto simp: table_ok_def table_wf_def table_empty_def room_def chains_def)

lemma empty_grows: "0 < grow ops 0 \<Longrightarrow> room (grow ops 0) \<Longrightarrow> can_grow ops table_empty"
  by (simp add: can_grow_def table_empty_def)

lemma empty_map [simp]: "table_map ops table_empty = Map.empty"
  by (simp add: table_map_def table_empty_def)

lemma empty_entries: "entries table_empty = []"
  by (simp add: table_empty_def)

text \<open>C25: Storing through the subscript of a dictionary refines the update of a map: the call returns, keeps the
  chains well formed, and afterwards every lookup answers as before except at the stored key,
  whether the key was there, a new entry was chained or the table was rehashed on the way.\<close>

theorem dict_refines_map:
  assumes "table_ok ops t" "can_grow ops t" "key_of ops = fst"
  shows "\<exists>t'. dict_set ops d t k v = Inr t' \<and> table_ok ops t' \<and>
    (\<forall>k'. dict_at_const ops t' k' = (if k' = k then Inr v else dict_at_const ops t k'))"
proof -
  obtain t' where t': "dict_set ops d t k v = Inr t'" "table_ok ops t'" "dict_map ops t' = (dict_map ops t)(k \<mapsto> v)"
    using dict_set_ok [OF assms] by metis
  then show ?thesis
    using dict_at_const_ok(1) [OF assms(1)] dict_at_const_ok(1) [OF t'(2)] by simp
qed

theorem dict_refines_map_witness:
  "\<exists>t'. dict_set (dict_ops (\<lambda>_. 7) (\<lambda>c. 2 * c + 1)) 0 table_empty CHR ''a'' (5 :: nat) = Inr t' \<and>
    dict_at_const (dict_ops (\<lambda>_. 7) (\<lambda>c. 2 * c + 1)) t' CHR ''a'' = Inr 5"
proof -
  let ?ops = "dict_ops (\<lambda>_. 7) (\<lambda>c. 2 * c + 1) :: (char, char \<times> nat) table_ops"
  have "can_grow ?ops table_empty" "key_of ?ops = fst"
    by (simp_all add: empty_grows dict_ops_def room_def hashtable_size_factor_def max_prime_def)
  from dict_refines_map [OF empty_ok this, of 0 "CHR ''a''" 5] show ?thesis by metis
qed

text \<open>Erasing a key from a dictionary or a pool reports how many entries went, keeps the chains well
  formed although the last entry is moved into the gap, and afterwards the key is absent and every
  other key answers as before.\<close>

lemma table_erase_removes:
  assumes "table_ok ops t"
  shows "\<exists>t' n. table_erase ops t k = Inr (t', n) \<and> table_ok ops t' \<and> table_count ops t k = Inr n \<and>
    (\<forall>k'. table_count ops t' k' = (if k' = k then Inr 0 else table_count ops t k'))"
proof -
  obtain t' where t': "table_erase ops t k = Inr (t', if table_map ops t k = None then 0 else 1)" "table_ok ops t'"
    using table_erase_ok [OF assms] by metis
  have "table_count ops t' k' = (if k' = k then Inr 0 else table_count ops t k')" for k'
    using tab.count_after_erase [OF assms, of k k'] t'(1) by simp
  then show ?thesis using t' table_count_ok [OF assms] by blast
qed

text \<open>Inserting into a dictionary or a pool returns, keeps the chains well formed, says whether the key was
  new, makes the key present and leaves every other key as it was; an entry that is already there
  is kept, and the returned iterator points to the entry of the key.\<close>

lemma table_insert_adds:
  assumes "table_ok ops t" "can_grow ops t"
  shows "\<exists>t' i. table_insert ops t e = Inr (t', i, table_count ops t (key_of ops e) = Inr 0) \<and> table_ok ops t' \<and>
    0 \<le> i \<and> i < int (length (entries t')) \<and> key_of ops (udata (entries t' ! nat i)) = key_of ops e \<and>
    (\<forall>k. table_count ops t' k = (if k = key_of ops e then Inr 1 else table_count ops t k))"
proof -
  obtain t' i where t': "table_insert ops t e = Inr (t', i, table_map ops t (key_of ops e) = None)" "table_ok ops t'"
    "0 \<le> i" "i < int (length (entries t'))" "key_of ops (udata (entries t' ! nat i)) = key_of ops e"
    using table_insert_ok [OF assms] by metis
  have "table_count ops t' k = (if k = key_of ops e then Inr 1 else table_count ops t k)" for k
    using tab.count_after_insert [OF assms, of e k] t'(1) by simp
  then show ?thesis using t' table_count_ok [OF assms(1)] by (intro exI [of _ t'] exI [of _ i]) simp
qed

text \<open>Comparing two dictionaries decides whether they hold the same map, and comparing two pools
  whether they hold the same set, whatever the order of insertion, the hash values and the sizes of
  the tables.\<close>

lemma table_equality:
  assumes "table_ok (dict_ops h g) t" "table_ok (dict_ops h g) u" "table_ok (pool_ops h' g') p" "table_ok (pool_ops h' g') q"
  shows "dict_eq (dict_ops h g) t u = Inr (\<forall>k. dict_at_const (dict_ops h g) t k = dict_at_const (dict_ops h g) u k) \<and>
    pool_eq (pool_ops h' g') p q = Inr (set (table_iterate p) = set (table_iterate q))"
proof -
  have "dict_map (dict_ops h g) t = dict_map (dict_ops h g) u \<longleftrightarrow>
      (\<forall>k. dict_at_const (dict_ops h g) t k = dict_at_const (dict_ops h g) u k)"
    unfolding dict_at_const_ok(1) [OF assms(1)] dict_at_const_ok(1) [OF assms(2)]
    by (auto simp: fun_eq_iff split: option.splits) (metis option.exhaust)
  moreover have "key_of (dict_ops h g) = fst" "key_of (pool_ops h' g') = (\<lambda>k. k)"
    by (simp_all add: dict_ops_def pool_ops_def)
  ultimately show ?thesis
    using dict_eq_ok [OF assms(1,2)] pool_eq_ok [OF assms(3,4)] pool_dom [OF assms(3)] pool_dom [OF assms(4)]
    by (simp add: table_iterate_def)
qed

text \<open>Assigning a table copies its content and its iteration order, and sorting keeps the content and
  iterates by increasing key; both leave well formed chains.\<close>

lemma table_assign_and_sort:
  fixes ops :: "('k :: linorder, 'e) table_ops"
  assumes "table_ok ops t" "table_ok ops u"
  shows "(\<exists>t'. table_assign ops t u = Inr t' \<and> table_ok ops t' \<and> table_map ops t' = table_map ops u \<and>
      table_iterate t' = table_iterate u) \<and>
    (\<exists>t'. table_sort ops t = Inr t' \<and> table_ok ops t' \<and> table_map ops t' = table_map ops t \<and>
      sorted (map (key_of ops) (table_iterate t')))"
  using table_assign_ok [OF assms(2)] table_sort_ok [OF assms(1)] assms(1) by (simp add: table_ok_def)

text \<open>Taking an element out of a pool that is not empty returns the first element of its iteration and
  leaves the others, in their order.\<close>

lemma pool_pop_first:
  assumes "table_ok ops t" "entries t \<noteq> []" "key_of ops = (\<lambda>k. k)"
  shows "\<exists>t'. pool_pop ops t = Inr (t', hd (table_iterate t)) \<and> table_ok ops t' \<and> table_iterate t' = tl (table_iterate t)"
  using pool_pop_ok [OF assms] by metis

end
