(* ===== verification/Mfp.thy ===== *)
theory Mfp
  imports Hashlib
begin

text \<open>
  The numbering of keys \<open>idict\<close> and the union-find structure \<open>mfp\<close> of \<open>kernel/hashlib.h\<close>. An
  \<open>idict\<close> is a pool whose keys are numbered in the order of insertion; an \<open>mfp\<close> adds to it a
  vector of parents, -1 for a root. Finding the root compresses the path that was walked, also
  in the const methods, and concurrent calls may interleave; the last section follows them.
\<close>

section \<open>Numbering of keys\<close>

definition idict_call :: "('k, 'k) table_ops \<Rightarrow> int \<Rightarrow> 'k table \<Rightarrow> 'k \<Rightarrow> ('k table \<times> int) result" where
  "idict_call ops offset t key =
     rbind (do_lookup ops t key (do_hash ops (hashtable t) key))
       (\<lambda>(t, hash, i). if i < 0 then rmap (\<lambda>(t, i). (t, i + offset)) (do_insert ops t key hash)
          else Inr (t, i + offset))"

definition idict_at :: "('k, 'k) table_ops \<Rightarrow> int \<Rightarrow> 'k table \<Rightarrow> 'k \<Rightarrow> int result" where
  "idict_at ops offset t key =
     rbind (table_index_const ops t key)
       (\<lambda>i. if i < 0 then Inl OutOfRange else Inr (i + offset))"

definition idict_at_default :: "('k, 'k) table_ops \<Rightarrow> int \<Rightarrow> 'k table \<Rightarrow> 'k \<Rightarrow> int \<Rightarrow> int result" where
  "idict_at_default ops offset t key defval =
     rmap (\<lambda>i. if i < 0 then defval else i + offset) (table_index_const ops t key)"

definition idict_count :: "('k, 'k) table_ops \<Rightarrow> 'k table \<Rightarrow> 'k \<Rightarrow> nat result" where
  "idict_count ops t key = rmap (\<lambda>i. if i < 0 then 0 else 1) (table_index_const ops t key)"

definition idict_expect :: "('k, 'k) table_ops \<Rightarrow> int \<Rightarrow> 'k table \<Rightarrow> 'k \<Rightarrow> int \<Rightarrow> 'k table result" where
  "idict_expect ops offset t key i =
     rbind (idict_call ops offset t key) (\<lambda>(t, j). if i \<noteq> j then Inl OutOfRange else Inr t)"

definition idict_get :: "int \<Rightarrow> 'k table \<Rightarrow> int \<Rightarrow> 'k result" where
  "idict_get offset t index =
     (if index - offset < 0 \<or> int (length (entries t)) \<le> index - offset then Inl OutOfRange
      else Inr (udata (entries t ! nat (index - offset))))"

section \<open>Parents\<close>

text \<open>
  The first loop of \<open>ifind\<close>, its fuel one more than the number of nodes, and the second one
  that redirects the nodes it passes.
\<close>

fun climb :: "int list \<Rightarrow> nat \<Rightarrow> int \<Rightarrow> int result" where
  "climb parents 0 p = Inl NonTermination"
| "climb parents (Suc fuel) p =
     (if p < 0 \<or> int (length parents) \<le> p then Inl OutOfRange
      else let pp = parents ! nat p in if pp < 0 then Inr p else climb parents fuel pp)"

fun compress_path :: "int list \<Rightarrow> nat \<Rightarrow> int \<Rightarrow> int \<Rightarrow> int list result" where
  "compress_path parents 0 k p = Inl NonTermination"
| "compress_path parents (Suc fuel) k p =
     (if k = p then Inr parents
      else if k < 0 \<or> int (length parents) \<le> k then Inl OutOfRange
      else compress_path (parents[nat k := p]) fuel (parents ! nat k) p)"

definition ifind :: "int list \<Rightarrow> int \<Rightarrow> (int list \<times> int) result" where
  "ifind parents i =
     rbind (climb parents (length parents + 1) i)
       (\<lambda>p. rmap (\<lambda>parents. (parents, p)) (compress_path parents (length parents + 1) i p))"

definition imerge :: "int list \<Rightarrow> int \<Rightarrow> int \<Rightarrow> int list result" where
  "imerge parents i j =
     rbind (ifind parents i) (\<lambda>(parents, i).
       rmap (\<lambda>(parents, j). if i \<noteq> j then parents[nat i := j] else parents) (ifind parents j))"

fun promote_walk :: "int list \<Rightarrow> nat \<Rightarrow> int \<Rightarrow> int \<Rightarrow> int list result" where
  "promote_walk parents 0 k i = Inl NonTermination"
| "promote_walk parents (Suc fuel) k i =
     (if k = -1 then Inr parents
      else if k < 0 \<or> int (length parents) \<le> k then Inl OutOfRange
      else promote_walk (parents[nat k := i]) fuel (parents ! nat k) i)"

definition ipromote :: "int list \<Rightarrow> int \<Rightarrow> int list result" where
  "ipromote parents i =
     rbind (promote_walk parents (length parents + 2) i i)
       (\<lambda>parents. if i < 0 \<or> int (length parents) \<le> i then Inl OutOfRange
                  else Inr (parents[nat i := -1]))"

section \<open>The structure over keys\<close>

record 'k mfp =
  database :: "'k table"
  parents :: "int list"

definition mfp_empty :: "'k mfp" where
  "mfp_empty = \<lparr>database = table_empty, parents = []\<rparr>"

definition mfp_call :: "('k, 'k) table_ops \<Rightarrow> 'k mfp \<Rightarrow> 'k \<Rightarrow> ('k mfp \<times> int) result" where
  "mfp_call ops m key =
     rmap (\<lambda>(db, i).
         (\<lparr>database = db,
           parents = (if length (parents m) < length (entries db) then parents m @ [-1] else parents m)\<rparr>, i))
       (idict_call ops 0 (database m) key)"

definition mfp_get :: "'k mfp \<Rightarrow> int \<Rightarrow> 'k result" where
  "mfp_get m index = idict_get 0 (database m) index"

definition mfp_lookup :: "('k, 'k) table_ops \<Rightarrow> 'k mfp \<Rightarrow> 'k \<Rightarrow> ('k mfp \<times> int) result" where
  "mfp_lookup ops m a =
     rbind (mfp_call ops m a) (\<lambda>(m, i). rmap (\<lambda>(ps, r). (m\<lparr>parents := ps\<rparr>, r)) (ifind (parents m) i))"

definition mfp_find :: "('k, 'k) table_ops \<Rightarrow> 'k mfp \<Rightarrow> 'k \<Rightarrow> ('k mfp \<times> 'k) result" where
  "mfp_find ops m a =
     rbind (idict_at_default ops 0 (database m) a (-1)) (\<lambda>i.
       if i < 0 then Inr (m, a)
       else rbind (ifind (parents m) i) (\<lambda>(ps, r).
              let m = m\<lparr>parents := ps\<rparr> in rmap (\<lambda>k. (m, k)) (mfp_get m r)))"

text \<open>
  C++ leaves open which argument of \<open>imerge((*this)(a), (*this)(b))\<close> is evaluated first;
  \<open>left_first\<close> says which order the compiler picks.
\<close>

definition mfp_merge :: "('k, 'k) table_ops \<Rightarrow> bool \<Rightarrow> 'k mfp \<Rightarrow> 'k \<Rightarrow> 'k \<Rightarrow> 'k mfp result" where
  "mfp_merge ops left_first m a b =
     rbind (if left_first
            then rbind (mfp_call ops m a) (\<lambda>(m, i). rmap (\<lambda>(m, j). (m, i, j)) (mfp_call ops m b))
            else rbind (mfp_call ops m b) (\<lambda>(m, j). rmap (\<lambda>(m, i). (m, i, j)) (mfp_call ops m a)))
       (\<lambda>(m, i, j). rmap (\<lambda>ps. m\<lparr>parents := ps\<rparr>) (imerge (parents m) i j))"

definition mfp_promote :: "('k, 'k) table_ops \<Rightarrow> 'k mfp \<Rightarrow> 'k \<Rightarrow> 'k mfp result" where
  "mfp_promote ops m a =
     rbind (idict_at_default ops 0 (database m) a (-1)) (\<lambda>i.
       if i \<ge> 0 then rmap (\<lambda>ps. m\<lparr>parents := ps\<rparr>) (ipromote (parents m) i) else Inr m)"

definition mfp_clear :: "'k mfp \<Rightarrow> 'k mfp" where
  "mfp_clear m = \<lparr>database = table_clear (database m), parents = []\<rparr>"

definition mfp_swap :: "'k mfp \<Rightarrow> 'k mfp \<Rightarrow> 'k mfp \<times> 'k mfp" where
  "mfp_swap m other = (other, m)"

section \<open>Concurrent calls of ifind\<close>

text \<open>
  A thread inside \<open>ifind\<close>: in the first loop with the index it was called with and the node it
  has reached, at the head of the second loop, between the load and the store of the second
  loop, or returned. One step of a thread makes at most one atomic access to \<open>parents\<close>.
\<close>

datatype thread = Climb int int | Compress int int int | Store int int int int | Done int int

inductive find_step :: "int list \<times> thread \<Rightarrow> int list \<times> thread \<Rightarrow> bool" where
  climb_root: "0 \<le> p \<Longrightarrow> p < int (length ps) \<Longrightarrow> ps ! nat p < 0 \<Longrightarrow>
     find_step (ps, Climb i p) (ps, Compress i i p)"
| climb_up: "0 \<le> p \<Longrightarrow> p < int (length ps) \<Longrightarrow> 0 \<le> ps ! nat p \<Longrightarrow>
     find_step (ps, Climb i p) (ps, Climb i (ps ! nat p))"
| finish: "find_step (ps, Compress i p p) (ps, Done i p)"
| load: "k \<noteq> p \<Longrightarrow> 0 \<le> k \<Longrightarrow> k < int (length ps) \<Longrightarrow>
     find_step (ps, Compress i k p) (ps, Store i k p (ps ! nat k))"
| store: "0 \<le> k \<Longrightarrow> k < int (length ps) \<Longrightarrow>
     find_step (ps, Store i k p next_k) (ps[nat k := p], Compress i next_k p)"

inductive conc_step :: "int list \<times> thread list \<Rightarrow> int list \<times> thread list \<Rightarrow> bool" where
  "n < length ts \<Longrightarrow> find_step (ps, ts ! n) (ps', t') \<Longrightarrow> conc_step (ps, ts) (ps', ts[n := t'])"

inductive_cases find_stepE: "find_step s s'"

section \<open>Roots\<close>

fun root_path :: "int list \<Rightarrow> nat \<Rightarrow> nat list \<Rightarrow> nat \<Rightarrow> bool" where
  "root_path ps i [] r \<longleftrightarrow> i = r \<and> i < length ps \<and> ps ! i = -1"
| "root_path ps i (x # xs) r \<longleftrightarrow> x = i \<and> i < length ps \<and> 0 \<le> ps ! i \<and> root_path ps (nat (ps ! i)) xs r"

definition root_of :: "int list \<Rightarrow> nat \<Rightarrow> nat \<Rightarrow> bool" where
  "root_of ps i r \<longleftrightarrow> (\<exists>xs. root_path ps i xs r)"

definition forest :: "int list \<Rightarrow> bool" where
  "forest ps \<longleftrightarrow> (\<forall>i < length ps. \<exists>r. root_of ps i r)"

lemma root_path_det: "root_path ps i xs r \<Longrightarrow> root_path ps i ys s \<Longrightarrow> xs = ys \<and> r = s"
proof (induction xs arbitrary: i ys)
  case Nil
  then show ?case by (cases ys) auto
next
  case (Cons x xs)
  then show ?case by (cases ys) auto
qed

lemma root_of_det: "root_of ps i r \<Longrightarrow> root_of ps i s \<Longrightarrow> r = s"
  using root_path_det by (auto simp: root_of_def)

lemma root_path_suffix: "root_path ps i (us @ x # vs) r \<Longrightarrow> root_path ps x (x # vs) r"
  by (induction us arbitrary: i) auto

lemma root_path_distinct: "root_path ps i xs r \<Longrightarrow> distinct xs"
proof (induction xs arbitrary: i)
  case (Cons x xs)
  have "x \<notin> set xs"
  proof
    assume "x \<in> set xs"
    then obtain us vs where xs: "xs = us @ x # vs" by (meson split_list)
    then have "root_path ps i ((x # us) @ x # vs) r" using Cons.prems by auto
    then have "root_path ps x (x # vs) r" by (rule root_path_suffix)
    moreover have "root_path ps x (x # xs) r" using Cons.prems by simp
    ultimately have "x # vs = x # xs" using root_path_det by blast
    then show False using xs by simp
  qed
  then show ?case using Cons by auto
qed simp

lemma root_path_root: "root_path ps i xs r \<Longrightarrow> r < length ps \<and> ps ! r = -1 \<and> r \<notin> set xs"
  by (induction xs arbitrary: i) auto

lemma root_path_less: "root_path ps i xs r \<Longrightarrow> x \<in> set xs \<Longrightarrow> x < length ps"
  by (induction xs arbitrary: i) auto

lemma root_path_start: "root_path ps i xs r \<Longrightarrow> i < length ps"
  by (cases xs) auto

lemma root_path_mem: "root_path ps i xs r \<Longrightarrow> x \<in> set xs \<Longrightarrow> root_of ps x r"
  using root_path_suffix by (metis root_of_def split_list)

lemma root_path_length: "root_path ps i xs r \<Longrightarrow> length xs < length ps"
proof -
  assume p: "root_path ps i xs r"
  then have "set (r # xs) \<subseteq> {..<length ps}" "distinct (r # xs)"
    using root_path_root root_path_less root_path_distinct by auto
  then have "card (set (r # xs)) \<le> length ps" by (metis card_lessThan card_mono finite_lessThan)
  with \<open>distinct (r # xs)\<close> show ?thesis by (simp add: distinct_card)
qed

lemma root_of_step:
  "i < length ps \<Longrightarrow> 0 \<le> ps ! i \<Longrightarrow> root_of ps i r \<longleftrightarrow> root_of ps (nat (ps ! i)) r"
proof
  assume "i < length ps" "0 \<le> ps ! i" "root_of ps i r"
  then obtain xs where "root_path ps i xs r" by (auto simp: root_of_def)
  with \<open>0 \<le> ps ! i\<close> show "root_of ps (nat (ps ! i)) r" by (cases xs) (auto simp: root_of_def)
next
  assume *: "i < length ps" "0 \<le> ps ! i" "root_of ps (nat (ps ! i)) r"
  then obtain xs where "root_path ps (nat (ps ! i)) xs r" by (auto simp: root_of_def)
  with * have "root_path ps i (i # xs) r" by simp
  then show "root_of ps i r" unfolding root_of_def by blast
qed

lemma root_of_root: "i < length ps \<Longrightarrow> ps ! i = -1 \<Longrightarrow> root_of ps i i"
  unfolding root_of_def by (intro exI [of _ "[]"]) simp

lemma climb_path:
  assumes "root_path ps i xs r" "length xs < fuel"
  shows "climb ps fuel (int i) = Inr (int r)"
  using assms
proof (induction xs arbitrary: i fuel)
  case Nil
  then show ?case by (cases fuel) auto
next
  case (Cons x xs)
  then obtain f where "fuel = Suc f" by (cases fuel) auto
  with Cons.prems Cons.IH [of "nat (ps ! i)" f] show ?case by (auto simp: Let_def)
qed

definition redirected :: "int list \<Rightarrow> nat set \<Rightarrow> int \<Rightarrow> int list \<Rightarrow> bool" where
  "redirected ps X v ps' \<longleftrightarrow> length ps' = length ps \<and> (\<forall>j < length ps. ps' ! j = (if j \<in> X then v else ps ! j))"

lemma redirected_det: "redirected ps X v ps' \<Longrightarrow> redirected ps X v ps'' \<Longrightarrow> ps' = ps''"
  by (auto simp: redirected_def intro: nth_equalityI)

lemma root_path_cong:
  "root_path ps i xs r \<Longrightarrow> length ps' = length ps \<Longrightarrow> (\<And>x. x \<in> insert r (set xs) \<Longrightarrow> ps' ! x = ps ! x) \<Longrightarrow>
   root_path ps' i xs r"
  by (induction xs arbitrary: i) auto

lemma compress_path_path:
  assumes "root_path ps i xs r" "length xs < fuel"
  shows "\<exists>ps'. compress_path ps fuel (int i) (int r) = Inr ps' \<and> redirected ps (set xs) (int r) ps'"
  using assms
proof (induction xs arbitrary: i ps fuel)
  case Nil
  then show ?case by (cases fuel) (auto simp: redirected_def)
next
  case (Cons x xs)
  then obtain f where f: "fuel = Suc f" "length xs < f" by (cases fuel) auto
  have x: "x = i" "i < length ps" "0 \<le> ps ! i" and p: "root_path ps (nat (ps ! i)) xs r"
    using Cons.prems(1) by auto
  have nin: "i \<notin> set xs" "r \<noteq> i" "r \<notin> set xs"
    using root_path_distinct [OF Cons.prems(1)] root_path_root [OF Cons.prems(1)] x by auto
  have "root_path (ps[i := int r]) (nat (ps ! i)) xs r"
    by (rule root_path_cong [OF p]) (use nin in \<open>auto, metis nth_list_update_neq\<close>)
  from Cons.IH [OF this f(2)] obtain ps' where
    "compress_path (ps[i := int r]) f (int (nat (ps ! i))) (int r) = Inr ps'"
    "redirected (ps[i := int r]) (set xs) (int r) ps'" by blast
  then show ?case using f x nin by (auto simp: redirected_def nth_list_update)
qed

lemma redirect_roots:
  assumes p: "root_path ps i xs r" and c: "redirected ps (set xs) (int r) ps'" and j: "root_of ps j s"
  shows "root_of ps' j s"
proof -
  obtain ys where "root_path ps j ys s" using j by (auto simp: root_of_def)
  moreover have len: "length ps' = length ps" using c by (simp add: redirected_def)
  moreover have at: "ps' ! x = (if x \<in> set xs then int r else ps ! x)" if "x < length ps" for x
    using c that by (simp add: redirected_def)
  have rr: "r < length ps" "ps ! r = -1" "r \<notin> set xs" using root_path_root [OF p] by auto
  then have rroot: "root_of ps' r r" using at [of r] len by (intro root_of_root) auto
  have on: "root_of ps' x r" if "x \<in> set xs" for x
    using root_of_step [of x ps' r] at [of x] root_path_less [OF p that] that len rroot by simp
  from calculation(1) show ?thesis
  proof (induction ys arbitrary: j)
    case Nil
    then have "s \<notin> set xs" using root_path_mem [OF p, of s] root_of_det root_of_root [of s ps] rr by force
    then show ?case using Nil at [of s] len by (intro iffD1 [OF arg_cong [of s j "\<lambda>j. root_of ps' j s"]] root_of_root) auto
  next
    case (Cons y ys)
    show ?case
    proof (cases "j \<in> set xs")
      case True
      then have "root_of ps j r" using root_path_mem [OF p] by blast
      moreover have "root_of ps j s" using Cons.prems unfolding root_of_def by blast
      ultimately show ?thesis using on [OF True] root_of_det by blast
    next
      case False
      then show ?thesis using Cons at [of j] len root_of_step [of j ps' s] by auto
    qed
  qed
qed

definition same_roots :: "int list \<Rightarrow> int list \<Rightarrow> bool" where
  "same_roots ps ps' \<longleftrightarrow> length ps' = length ps \<and> (\<forall>j r. root_of ps j r \<longrightarrow> root_of ps' j r)"

lemma same_roots_forest: "same_roots ps ps' \<Longrightarrow> forest ps \<Longrightarrow> forest ps'"
  unfolding same_roots_def forest_def by metis

lemma root_of_less: "root_of ps i r \<Longrightarrow> i < length ps \<and> r < length ps \<and> ps ! r = -1"
  using root_path_start root_path_root by (auto simp: root_of_def)

lemma ifind_ok:
  assumes "root_of ps i r"
  obtains ps' where "ifind ps (int i) = Inr (ps', int r)" "same_roots ps ps'"
proof -
  obtain xs where p: "root_path ps i xs r" using assms by (auto simp: root_of_def)
  have l: "length xs < length ps + 1" using root_path_length [OF p] by simp
  obtain ps' where ps': "compress_path ps (length ps + 1) (int i) (int r) = Inr ps'" "redirected ps (set xs) (int r) ps'"
    using compress_path_path [OF p l] by blast
  have "same_roots ps ps'"
    using redirect_roots [OF p ps'(2)] ps'(2) by (simp add: same_roots_def redirected_def)
  then show thesis using that ps' climb_path [OF p l] by (simp add: ifind_def del: climb.simps compress_path.simps)
qed

lemma link_roots:
  assumes f: "forest ps" and i: "root_of ps i i" and j: "root_of ps j j" and ij: "i \<noteq> j"
    and x: "root_of ps x r"
  shows "root_of (ps[i := int j]) x (if r = i then j else r)"
proof -
  let ?ps = "ps[i := int j]"
  have lt: "i < length ps" "j < length ps" "ps ! j = -1" using root_of_less i j by auto
  have jj: "root_of ?ps j j" using lt ij by (intro root_of_root) auto
  have ii: "root_of ?ps i j" using root_of_step [of i ?ps j] lt jj by simp
  obtain ys where "root_path ps x ys r" using x by (auto simp: root_of_def)
  then show ?thesis
  proof (induction ys arbitrary: x)
    case Nil
    then show ?case using ii by (cases "r = i") (auto intro!: root_of_root)
  next
    case (Cons y ys)
    have "x \<noteq> i" using Cons.prems i root_of_less [OF i] by auto
    then show ?case using Cons root_of_step [of x ?ps] by auto
  qed
qed

lemma imerge_ok:
  assumes "forest ps" "root_of ps i r" "root_of ps j s"
  obtains ps' where "imerge ps (int i) (int j) = Inr ps'" "length ps' = length ps" "forest ps'"
    "\<And>x t. root_of ps x t \<Longrightarrow> root_of ps' x (if t = r then s else t)"
proof -
  obtain ps1 where p1: "ifind ps (int i) = Inr (ps1, int r)" "same_roots ps ps1"
    using ifind_ok [OF assms(2)] by blast
  have j1: "root_of ps1 j s" using p1(2) assms(3) by (simp add: same_roots_def)
  obtain ps2 where p2: "ifind ps1 (int j) = Inr (ps2, int s)" "same_roots ps1 ps2"
    using ifind_ok [OF j1] by blast
  have tr: "root_of ps x t \<Longrightarrow> root_of ps2 x t" for x t using p1(2) p2(2) by (simp add: same_roots_def)
  have f2: "forest ps2" using same_roots_forest p1(2) p2(2) assms(1) by blast
  have len: "length ps2 = length ps" using p1(2) p2(2) by (simp add: same_roots_def)
  have rr: "root_of ps2 r r" "root_of ps2 s s"
    using tr root_of_root root_of_less assms(2,3) by blast+
  show thesis
  proof (cases "r = s")
    case True
    then have "imerge ps (int i) (int j) = Inr ps2" using p1 p2 by (simp add: imerge_def)
    then show thesis using that [of ps2] len f2 tr True by auto
  next
    case False
    let ?ps = "ps2[r := int s]"
    have "imerge ps (int i) (int j) = Inr ?ps" using p1 p2 False by (simp add: imerge_def)
    moreover have roots: "root_of ?ps x (if t = r then s else t)" if "root_of ps2 x t" for x t
      by (rule link_roots [OF f2 rr False that])
    moreover have "forest ?ps" using f2 roots by (force simp: forest_def)
    ultimately show thesis using that [of ?ps] len tr by auto
  qed
qed

lemma promote_walk_path:
  assumes "root_path ps k xs r" "length xs + 1 < fuel"
  shows "\<exists>ps'. promote_walk ps fuel (int k) i = Inr ps' \<and> redirected ps (insert r (set xs)) i ps'"
  using assms
proof (induction xs arbitrary: k ps fuel)
  case Nil
  then obtain f where "fuel = Suc (Suc f)" by (metis One_nat_def add_lessD1 less_imp_Suc_add list.size(3) plus_1_eq_Suc add_Suc_right)
  then show ?case using Nil by (auto simp: redirected_def)
next
  case (Cons x xs)
  then obtain f where f: "fuel = Suc f" "length xs + 1 < f" by (cases fuel) auto
  have x: "x = k" "k < length ps" "0 \<le> ps ! k" and p: "root_path ps (nat (ps ! k)) xs r"
    using Cons.prems(1) by auto
  have nin: "k \<notin> set xs" "r \<noteq> k"
    using root_path_distinct [OF Cons.prems(1)] root_path_root [OF Cons.prems(1)] x by auto
  have "root_path (ps[k := i]) (nat (ps ! k)) xs r"
    by (rule root_path_cong [OF p]) (use nin in \<open>auto, metis nth_list_update_neq\<close>)
  from Cons.IH [OF this f(2)] obtain ps' where
    "promote_walk (ps[k := i]) f (int (nat (ps ! k))) i = Inr ps'"
    "redirected (ps[k := i]) (insert r (set xs)) i ps'" by blast
  then show ?case using f x nin by (auto simp: redirected_def nth_list_update)
qed

lemma ipromote_ok:
  assumes "forest ps" "root_of ps i r"
  obtains ps' where "ipromote ps (int i) = Inr ps'" "length ps' = length ps" "forest ps'"
    "\<And>x t. root_of ps x t \<Longrightarrow> root_of ps' x (if t = r then i else t)"
proof -
  obtain xs where p: "root_path ps i xs r" using assms(2) by (auto simp: root_of_def)
  have "length xs + 1 < length ps + 2" using root_path_length [OF p] by simp
  then obtain ps1 where ps1: "promote_walk ps (length ps + 2) (int i) (int i) = Inr ps1"
    "redirected ps (insert r (set xs)) (int i) ps1" using promote_walk_path [OF p] by blast
  let ?ps = "ps1[i := -1]"
  have i: "i < length ps" using root_of_less assms(2) by blast
  have len: "length ?ps = length ps" using ps1(2) by (simp add: redirected_def)
  have iroot: "root_of ?ps i i" using i len by (intro root_of_root) auto
  have at: "?ps ! x = (if x = i then -1 else if x \<in> insert r (set xs) then int i else ps ! x)" if "x < length ps" for x
    using ps1(2) that by (auto simp: redirected_def nth_list_update)
  have i_in: "i \<in> insert r (set xs)" using p by (cases xs) auto
  have roots: "root_of ?ps x (if t = r then i else t)" if x: "root_of ps x t" for x t
  proof -
    obtain ys where "root_path ps x ys t" using x by (auto simp: root_of_def)
    then show ?thesis
    proof (induction ys arbitrary: x)
      case Nil
      show ?case
      proof (cases "t = r")
        case True
        then show ?thesis using Nil iroot at [of r] len i root_of_step [of r ?ps i] by (cases "r = i") auto
      next
        case False
        have "root_of ps t t" using Nil by (intro root_of_root) auto
        then have "t \<notin> set xs" using root_path_mem [OF p, of t] root_of_det False by blast
        with False have "t \<notin> insert r (set xs)" by simp
        then have "t \<noteq> i" using i_in by auto
        then show ?thesis using Nil False at [of t] len \<open>t \<notin> insert r (set xs)\<close> by (auto intro!: root_of_root)
      qed
    next
      case (Cons y ys)
      show ?case
      proof (cases "x \<in> insert r (set xs)")
        case True
        then have "root_of ps x r" using root_path_mem [OF p] root_of_root root_path_root [OF p] by blast
        moreover have "root_of ps x t" using Cons.prems unfolding root_of_def by blast
        ultimately have "t = r" using root_of_det by blast
        then show ?thesis
          using True at [of x] Cons.prems iroot root_of_step [of x ?ps i] len by (cases "x = i") auto
      next
        case False
        then have "x \<noteq> i" using i_in by auto
        then show ?thesis using Cons False at [of x] len root_of_step [of x ?ps] by auto
      qed
    qed
  qed
  then have "forest ?ps" using assms(1) len by (force simp: forest_def)
  moreover have "ipromote ps (int i) = Inr ?ps"
    using ps1 i by (simp add: ipromote_def redirected_def del: promote_walk.simps)
  ultimately show thesis using that [of ?ps] len roots by blast
qed

section \<open>Representatives of keys\<close>

definition rep_of :: "'k list \<Rightarrow> int list \<Rightarrow> 'k \<Rightarrow> 'k" where
  "rep_of us ps x = (case find (\<lambda>i. us ! i = x) [0..<length us] of
     None \<Rightarrow> x
   | Some i \<Rightarrow> (case climb ps (length ps + 1) (int i) of Inr p \<Rightarrow> us ! nat p | Inl _ \<Rightarrow> x))"

definition mfp_rep :: "'k mfp \<Rightarrow> 'k \<Rightarrow> 'k" where
  "mfp_rep m x = rep_of (map udata (entries (database m))) (parents m) x"

definition mfp_ok :: "('k, 'k) table_ops \<Rightarrow> 'k mfp \<Rightarrow> bool" where
  "mfp_ok ops m \<longleftrightarrow> table_ok ops (database m) \<and> key_of ops = (\<lambda>k. k) \<and>
     length (parents m) = length (entries (database m)) \<and> forest (parents m)"

lemma root_of_climb: "root_of ps i r \<Longrightarrow> climb ps (length ps + 1) (int i) = Inr (int r)"
  unfolding root_of_def using climb_path root_path_length by (metis add.commute less_add_one order.strict_trans)

lemma rep_of_nth:
  assumes "distinct us" "i < length us" "root_of ps i r"
  shows "rep_of us ps (us ! i) = us ! r"
proof -
  have "find (\<lambda>j. us ! j = us ! i) [0..<length us] = Some i"
    using assms(1,2) by (intro find_unique) (auto simp: nth_eq_iff_index_eq)
  then show ?thesis using root_of_climb [OF assms(3)] by (simp add: rep_of_def del: climb.simps)
qed

lemma rep_of_absent: "x \<notin> set us \<Longrightarrow> rep_of us ps x = x"
proof -
  assume "x \<notin> set us"
  then have "find (\<lambda>i. us ! i = x) [0..<length us] = None" by (auto simp: find_None_iff in_set_conv_nth)
  then show ?thesis by (simp add: rep_of_def)
qed

lemma root_path_append: "root_path ps i xs r \<Longrightarrow> root_path (ps @ qs) i xs r"
  by (induction xs arbitrary: i) (auto simp: nth_append)

lemma root_of_append: "root_of ps i r \<Longrightarrow> root_of (ps @ qs) i r"
  unfolding root_of_def by (elim exE) (rule exI, erule root_path_append)

lemma forest_append:
  assumes "forest ps"
  shows "forest (ps @ [-1])"
  unfolding forest_def
proof (intro allI impI)
  fix i assume "i < length (ps @ [-1])"
  then consider "i < length ps" | "i = length ps" by fastforce
  then show "\<exists>r. root_of (ps @ [-1]) i r"
  proof cases
    case 1
    then show ?thesis using assms root_of_append unfolding forest_def by blast
  next
    case 2
    then have "root_of (ps @ [-1]) i i" by (intro root_of_root) simp_all
    then show ?thesis by blast
  qed
qed

lemma rep_of_append:
  assumes "distinct (us @ [a])" "length ps = length us" "forest ps"
  shows "rep_of (us @ [a]) (ps @ [-1]) = rep_of us ps"
proof
  fix x
  show "rep_of (us @ [a]) (ps @ [-1]) x = rep_of us ps x"
  proof (cases "x \<in> set us")
    case True
    then obtain i where i: "i < length us" "x = us ! i" by (auto simp: in_set_conv_nth)
    then obtain r where r: "root_of ps i r" using assms(2,3) by (auto simp: forest_def)
    have "r < length us" using root_of_less [OF r] assms(2) by simp
    then show ?thesis
      using rep_of_nth [OF assms(1), of i "ps @ [-1]" r] rep_of_nth [of us i ps r] i r root_of_append [OF r] assms(1)
      by (simp add: nth_append)
  next
    case False
    show ?thesis
    proof (cases "x = a")
      case True
      have "root_of (ps @ [-1]) (length us) (length us)" using assms(2) by (intro root_of_root) (auto simp: nth_append)
      then show ?thesis
        using rep_of_nth [OF assms(1), of "length us" "ps @ [-1]" "length us"] True rep_of_absent [OF False]
        by simp
    next
      case other: False
      then show ?thesis using False rep_of_absent [of x "us @ [a]"] rep_of_absent [OF False] by simp
    qed
  qed
qed

lemma rep_of_map:
  assumes "distinct us" "length ps = length us" "forest ps"
    and "\<And>x t. root_of ps x t \<Longrightarrow> root_of ps' x (if t = r then s else t)"
    and "r < length us"
  shows "rep_of us ps' x = (if rep_of us ps x = us ! r \<and> x \<in> set us then us ! s else rep_of us ps x)"
proof (cases "x \<in> set us")
  case True
  then obtain i where i: "i < length us" "x = us ! i" by (auto simp: in_set_conv_nth)
  then obtain t where t: "root_of ps i t" using assms(2,3) by (auto simp: forest_def)
  have "t < length us" using root_of_less [OF t] assms(2) by simp
  then show ?thesis
    using rep_of_nth [OF assms(1) i(1) t] rep_of_nth [OF assms(1) i(1) assms(4) [OF t]] i True assms(1,5)
    by (simp add: nth_eq_iff_index_eq)
qed (simp add: rep_of_absent)

lemma mfp_distinct:
  assumes "mfp_ok ops m"
  shows "distinct (map udata (entries (database m)))"
  using wf_distinct [of ops "database m"] assms by (simp add: mfp_ok_def table_ok_def)

lemma mfp_call_ok:
  assumes "mfp_ok ops m" "can_grow ops (database m)"
  obtains m' i where "mfp_call ops m a = Inr (m', int i)" "mfp_ok ops m'" "mfp_rep m' = mfp_rep m"
    "i < length (entries (database m'))" "udata (entries (database m') ! i) = a"
    "\<exists>vs. map udata (entries (database m')) = map udata (entries (database m)) @ vs"
    "capacity (database m') \<in> {capacity (database m), grow ops (capacity (database m))}"
proof -
  have ok: "table_ok ops (database m)" and id: "key_of ops = (\<lambda>k. k)" and
    len: "length (parents m) = length (entries (database m))" and f: "forest (parents m)"
    using assms(1) by (simp_all add: mfp_ok_def)
  have "idict_call ops 0 (database m) a = rmap (\<lambda>(t, i, _). (t, i)) (table_insert ops (database m) a)"
    using id by (auto simp: idict_call_def table_insert_def rmap_def rbind_def split: sum.splits prod.splits)
  moreover obtain t i where t: "table_insert ops (database m) a = Inr (t, i, table_map ops (database m) a = None)"
    "table_ok ops t" "0 \<le> i" "i < int (length (entries t))" "udata (entries t ! nat i) = a"
    "map udata (entries t) = map udata (entries (database m)) @ (if table_map ops (database m) a = None then [a] else [])"
    "capacity t \<in> {capacity (database m), grow ops (capacity (database m))}"
    using table_insert_ok [OF assms(1) [unfolded mfp_ok_def, THEN conjunct1] assms(2), of a, unfolded id] by blast
  ultimately have call: "mfp_call ops m a = Inr (\<lparr>database = t,
      parents = (if length (parents m) < length (entries t) then parents m @ [-1] else parents m)\<rparr>, int (nat i))"
    (is "_ = Inr (?m', _)") by (simp add: mfp_call_def)
  have lt: "length (entries t) = length (entries (database m)) + (if table_map ops (database m) a = None then 1 else 0)"
    using arg_cong [OF t(6), of length] by simp
  have "mfp_ok ops ?m' \<and> mfp_rep ?m' = mfp_rep m"
  proof (cases "table_map ops (database m) a = None")
    case True
    have d: "distinct (map udata (entries (database m)) @ [a])"
      using t(2,6) wf_distinct [of ops t] True id by (simp add: table_ok_def)
    show ?thesis
      using True lt len t(2,6) id forest_append [OF f] rep_of_append [OF d _ f]
      by (simp add: mfp_ok_def mfp_rep_def fun_eq_iff)
  next
    case False
    then obtain y where "table_map ops (database m) a = Some y" by blast
    then show ?thesis using lt len t(2,6) id f by (simp add: mfp_ok_def mfp_rep_def fun_eq_iff)
  qed
  then show thesis using that [of ?m' "nat i"] call t(3,4,5,6,7) by (simp add: nat_less_iff)
qed

lemma mfp_index:
  assumes "mfp_ok ops m"
  obtains (present) i where "i < length (entries (database m))" "udata (entries (database m) ! i) = a"
      "idict_at_default ops 0 (database m) a (-1) = Inr (int i)"
  | (absent) "a \<notin> set (map udata (entries (database m)))" "idict_at_default ops 0 (database m) a (-1) = Inr (-1)"
proof -
  have wf: "table_wf ops (database m)" and id: "key_of ops = (\<lambda>k. k)"
    using assms by (simp_all add: mfp_ok_def table_ok_def)
  have at: "idict_at_default ops 0 (database m) a (-1) = Inr (let i = index_of ops (entries (database m)) a in if i < 0 then -1 else i)"
    by (simp add: idict_at_default_def index_const_ok [OF wf] Let_def)
  show thesis
  proof (cases rule: index_of_cases [of "entries (database m)" ops a])
    case (present i)
    then show thesis using that(1) [of i] at id by (simp add: entry_key_def)
  next
    case absent
    then have "a \<notin> set (map udata (entries (database m)))"
      using id by (fastforce simp: entry_key_def in_set_conv_nth)
    then show thesis using that(2) at absent(2) by simp
  qed
qed

lemma mfp_root:
  assumes "mfp_ok ops m" "i < length (entries (database m))"
  obtains r where "root_of (parents m) i r" "r < length (entries (database m))"
    "mfp_rep m (udata (entries (database m) ! i)) = udata (entries (database m) ! r)"
proof -
  obtain r where r: "root_of (parents m) i r" using assms by (auto simp: mfp_ok_def forest_def)
  then have "r < length (entries (database m))" using root_of_less [OF r] assms(1) by (auto simp: mfp_ok_def)
  then show thesis
    using that r rep_of_nth [OF mfp_distinct [OF assms(1)], of i "parents m" r] assms(2)
    by (simp add: mfp_rep_def)
qed

lemma mfp_rep_idem:
  assumes "mfp_ok ops m"
  shows "mfp_rep m (mfp_rep m x) = mfp_rep m x"
proof (cases rule: mfp_index [OF assms, of x])
  case (1 i)
  obtain r where r: "root_of (parents m) i r" "r < length (entries (database m))"
      "mfp_rep m x = udata (entries (database m) ! r)"
    using mfp_root [OF assms 1(1)] 1(2) by metis
  then have "root_of (parents m) r r" using root_of_less [OF r(1)] by (intro root_of_root) simp_all
  then have "mfp_rep m (udata (entries (database m) ! r)) = udata (entries (database m) ! r)"
    using rep_of_nth [OF mfp_distinct [OF assms], of r "parents m" r] r(2) by (simp add: mfp_rep_def)
  then show ?thesis using r(3) by simp
next
  case 2
  then show ?thesis by (simp add: mfp_rep_def rep_of_absent)
qed

lemma same_roots_rep:
  assumes "mfp_ok ops m" "same_roots (parents m) ps"
  shows "mfp_ok ops (m\<lparr>parents := ps\<rparr>)" "mfp_rep (m\<lparr>parents := ps\<rparr>) = mfp_rep m"
proof -
  show "mfp_ok ops (m\<lparr>parents := ps\<rparr>)"
    using assms same_roots_forest [OF assms(2)] by (auto simp: mfp_ok_def same_roots_def)
  show "mfp_rep (m\<lparr>parents := ps\<rparr>) = mfp_rep m"
  proof
    fix x
    show "mfp_rep (m\<lparr>parents := ps\<rparr>) x = mfp_rep m x"
    proof (cases "x \<in> set (map udata (entries (database m)))")
      case True
      then obtain i where i: "i < length (entries (database m))" "x = udata (entries (database m) ! i)"
        by (auto simp: in_set_conv_nth)
      obtain r where r: "root_of (parents m) i r" "r < length (entries (database m))" "mfp_rep m x = udata (entries (database m) ! r)"
        using mfp_root [OF assms(1) i(1)] i(2) by metis
      have "root_of ps i r" using assms(2) r(1) by (simp add: same_roots_def)
      then show ?thesis
        using rep_of_nth [OF mfp_distinct [OF assms(1)], of i ps r] i r by (simp add: mfp_rep_def)
    qed (simp add: mfp_rep_def rep_of_absent)
  qed
qed

lemma mfp_find_ok:
  assumes "mfp_ok ops m"
  shows "\<exists>m'. mfp_find ops m a = Inr (m', mfp_rep m a) \<and> mfp_ok ops m' \<and> mfp_rep m' = mfp_rep m \<and>
    database m' = database m"
proof (cases rule: mfp_index [OF assms, of a])
  case (1 i)
  obtain r where r: "root_of (parents m) i r" "r < length (entries (database m))" "mfp_rep m a = udata (entries (database m) ! r)"
    using mfp_root [OF assms 1(1)] 1(2) by metis
  obtain ps where "ifind (parents m) (int i) = Inr (ps, int r)" "same_roots (parents m) ps"
    using ifind_ok [OF r(1)] by blast
  then show ?thesis using 1 r same_roots_rep [OF assms]
    by (auto simp: mfp_find_def mfp_get_def idict_get_def Let_def)
next
  case 2
  then show ?thesis using assms by (simp add: mfp_find_def mfp_rep_def rep_of_absent)
qed

lemma relinked_rep:
  assumes "mfp_ok ops m" "length ps = length (parents m)" "forest ps"
    "r < length (entries (database m))" "s < length (entries (database m))"
    and roots: "\<And>x t. root_of (parents m) x t \<Longrightarrow> root_of ps x (if t = r then s else t)"
  shows "mfp_ok ops (m\<lparr>parents := ps\<rparr>)"
    "mfp_rep (m\<lparr>parents := ps\<rparr>) = (\<lambda>x. if mfp_rep m x = udata (entries (database m) ! r)
       then udata (entries (database m) ! s) else mfp_rep m x)"
proof -
  show "mfp_ok ops (m\<lparr>parents := ps\<rparr>)" using assms(1-3) by (simp add: mfp_ok_def)
  let ?us = "map udata (entries (database m))"
  have r: "udata (entries (database m) ! r) = ?us ! r" "?us ! r \<in> set ?us" using assms(4) by simp_all
  have "mfp_rep (m\<lparr>parents := ps\<rparr>) x =
      (if mfp_rep m x = ?us ! r \<and> x \<in> set ?us then ?us ! s else mfp_rep m x)" for x
    unfolding mfp_rep_def
    using rep_of_map [OF mfp_distinct [OF assms(1)] _ _ roots, where x = x] assms(1,4) by (simp add: mfp_ok_def)
  moreover have "mfp_rep m x = ?us ! r \<Longrightarrow> x \<in> set ?us" for x
    using r(2) rep_of_absent [of x ?us "parents m"] by (auto simp: mfp_rep_def)
  ultimately show "mfp_rep (m\<lparr>parents := ps\<rparr>) = (\<lambda>x. if mfp_rep m x = udata (entries (database m) ! r)
       then udata (entries (database m) ! s) else mfp_rep m x)"
    using r(1) assms(5) by (auto simp: fun_eq_iff)
qed

definition grow_twice :: "('k, 'k) table_ops \<Rightarrow> 'k mfp \<Rightarrow> bool" where
  "grow_twice ops m \<longleftrightarrow> (let c = capacity (database m); c' = grow ops c
     in c < c' \<and> c' < grow ops c' \<and> room c' \<and> room (grow ops c'))"

lemma two_calls:
  assumes "mfp_ok ops m" "grow_twice ops m"
  obtains m1 m2 i j where "mfp_call ops m a = Inr (m1, int i)" "mfp_call ops m1 b = Inr (m2, int j)"
    "mfp_ok ops m2" "mfp_rep m2 = mfp_rep m"
    "i < length (entries (database m2))" "udata (entries (database m2) ! i) = a"
    "j < length (entries (database m2))" "udata (entries (database m2) ! j) = b"
proof -
  have "can_grow ops (database m)" using assms(2) by (simp add: grow_twice_def can_grow_def Let_def)
  then obtain m1 i where m1: "mfp_call ops m a = Inr (m1, int i)" "mfp_ok ops m1" "mfp_rep m1 = mfp_rep m"
    "i < length (entries (database m1))" "udata (entries (database m1) ! i) = a"
    "capacity (database m1) \<in> {capacity (database m), grow ops (capacity (database m))}"
    using mfp_call_ok [OF assms(1)] by metis
  have "can_grow ops (database m1)" using m1(6) assms(2) by (auto simp: grow_twice_def can_grow_def Let_def)
  then obtain m2 j vs where m2: "mfp_call ops m1 b = Inr (m2, int j)" "mfp_ok ops m2" "mfp_rep m2 = mfp_rep m1"
    "j < length (entries (database m2))" "udata (entries (database m2) ! j) = b"
    "map udata (entries (database m2)) = map udata (entries (database m1)) @ vs"
    using mfp_call_ok [OF m1(2)] by metis
  have "length (entries (database m1)) \<le> length (entries (database m2))"
    using arg_cong [OF m2(6), of length] by simp
  then have i2: "i < length (entries (database m2))" using m1(4) by simp
  then have "udata (entries (database m2) ! i) = a"
    using arg_cong [OF m2(6), of "\<lambda>xs. xs ! i"] m1(4,5) by (simp add: nth_append)
  then show thesis using that m1 m2 i2 by metis
qed

lemma mfp_merge_ok:
  assumes "mfp_ok ops m" "grow_twice ops m"
  shows "\<exists>m'. mfp_merge ops lf m a b = Inr m' \<and> mfp_ok ops m' \<and>
    mfp_rep m' = (\<lambda>x. if mfp_rep m x = mfp_rep m a then mfp_rep m b else mfp_rep m x)"
proof -
  let ?calls = "if lf
      then rbind (mfp_call ops m a) (\<lambda>(m, i). rmap (\<lambda>(m, j). (m, i, j)) (mfp_call ops m b))
      else rbind (mfp_call ops m b) (\<lambda>(m, j). rmap (\<lambda>(m, i). (m, i, j)) (mfp_call ops m a))"
  obtain m2 i j where m2: "?calls = Inr (m2, int i, int j)"
    "mfp_ok ops m2" "mfp_rep m2 = mfp_rep m"
    "i < length (entries (database m2))" "udata (entries (database m2) ! i) = a"
    "j < length (entries (database m2))" "udata (entries (database m2) ! j) = b"
  proof (cases lf)
    case True
    obtain m1 m2 i j where "mfp_call ops m a = Inr (m1, int i)" "mfp_call ops m1 b = Inr (m2, int j)"
      "mfp_ok ops m2" "mfp_rep m2 = mfp_rep m"
      "i < length (entries (database m2))" "udata (entries (database m2) ! i) = a"
      "j < length (entries (database m2))" "udata (entries (database m2) ! j) = b"
      by (rule two_calls [OF assms])
    then show thesis using True that [of m2 i j] by simp
  next
    case False
    obtain m1 m2 i j where "mfp_call ops m b = Inr (m1, int i)" "mfp_call ops m1 a = Inr (m2, int j)"
      "mfp_ok ops m2" "mfp_rep m2 = mfp_rep m"
      "i < length (entries (database m2))" "udata (entries (database m2) ! i) = b"
      "j < length (entries (database m2))" "udata (entries (database m2) ! j) = a"
      by (rule two_calls [OF assms])
    then show thesis using False that [of m2 j i] by simp
  qed
  obtain r where r: "root_of (parents m2) i r" "r < length (entries (database m2))" "mfp_rep m2 a = udata (entries (database m2) ! r)"
    using mfp_root [OF m2(2,4)] m2(5) by metis
  obtain s where s: "root_of (parents m2) j s" "s < length (entries (database m2))" "mfp_rep m2 b = udata (entries (database m2) ! s)"
    using mfp_root [OF m2(2,6)] m2(7) by metis
  obtain ps where ps: "imerge (parents m2) (int i) (int j) = Inr ps" "length ps = length (parents m2)" "forest ps"
    "\<And>x t. root_of (parents m2) x t \<Longrightarrow> root_of ps x (if t = r then s else t)"
    using imerge_ok [OF _ r(1) s(1)] m2(2) unfolding mfp_ok_def by metis
  from relinked_rep [OF m2(2) ps(2,3) r(2) s(2) ps(4)] show ?thesis
    using m2(1,3) ps(1) r(3) s(3) by (auto simp: mfp_merge_def fun_eq_iff)
qed

lemma mfp_promote_ok:
  assumes "mfp_ok ops m"
  shows "\<exists>m'. mfp_promote ops m a = Inr m' \<and> mfp_ok ops m' \<and>
    mfp_rep m' = (\<lambda>x. if mfp_rep m x = mfp_rep m a then a else mfp_rep m x) \<and> database m' = database m"
proof (cases rule: mfp_index [OF assms, of a])
  case (1 i)
  obtain r where r: "root_of (parents m) i r" "r < length (entries (database m))" "mfp_rep m a = udata (entries (database m) ! r)"
    using mfp_root [OF assms 1(1)] 1(2) by metis
  obtain ps where ps: "ipromote (parents m) (int i) = Inr ps" "length ps = length (parents m)" "forest ps"
    "\<And>x t. root_of (parents m) x t \<Longrightarrow> root_of ps x (if t = r then i else t)"
    using ipromote_ok [OF _ r(1)] assms unfolding mfp_ok_def by metis
  from relinked_rep [OF assms ps(2,3) r(2) 1(1) ps(4)] show ?thesis
    using 1 ps(1) r(3) by (auto simp: mfp_promote_def fun_eq_iff)
next
  case 2
  then have "mfp_rep m a = a" by (simp add: mfp_rep_def rep_of_absent)
  then show ?thesis using 2 assms by (auto simp: mfp_promote_def)
qed

section \<open>The interface of a union-find structure\<close>

locale union_find =
  fixes inv :: "'m \<Rightarrow> bool"
    and free :: "'m \<Rightarrow> bool"
    and rp :: "'m \<Rightarrow> 'k \<Rightarrow> 'k"
    and fnd :: "'m \<Rightarrow> 'k \<Rightarrow> ('m \<times> 'k) result"
    and mrg :: "'m \<Rightarrow> 'k \<Rightarrow> 'k \<Rightarrow> 'm result"
    and prm :: "'m \<Rightarrow> 'k \<Rightarrow> 'm result"
  assumes idem: "inv m \<Longrightarrow> rp m (rp m x) = rp m x"
    and fnd: "inv m \<Longrightarrow> \<exists>m'. fnd m a = Inr (m', rp m a) \<and> inv m' \<and> rp m' = rp m"
    and mrg: "inv m \<Longrightarrow> free m \<Longrightarrow> \<exists>m'. mrg m a b = Inr m' \<and> inv m' \<and>
      rp m' = (\<lambda>x. if rp m x = rp m a then rp m b else rp m x)"
    and prm: "inv m \<Longrightarrow> \<exists>m'. prm m a = Inr m' \<and> inv m' \<and>
      rp m' = (\<lambda>x. if rp m x = rp m a then a else rp m x)"
begin

lemma merge_joins:
  assumes "inv m" "free m" "mrg m a b = Inr m'"
  shows "rp m' x = rp m' y \<longleftrightarrow>
    rp m x = rp m y \<or> (rp m x \<in> {rp m a, rp m b} \<and> rp m y \<in> {rp m a, rp m b})"
  using mrg [OF assms(1,2), of a b] assms(3) by auto

lemma promote_classes:
  assumes "inv m" "prm m a = Inr m'"
  shows "rp m' a = a" "rp m' x = rp m' y \<longleftrightarrow> rp m x = rp m y"
proof -
  have rp: "rp m' = (\<lambda>x. if rp m x = rp m a then a else rp m x)" using prm [OF assms(1), of a] assms(2) by simp
  show "rp m' a = a" by (simp add: rp)
  show "rp m' x = rp m' y \<longleftrightarrow> rp m x = rp m y"
    using idem [OF assms(1), of x] idem [OF assms(1), of y] by (auto simp: rp)
qed

lemma find_keeps:
  assumes "inv m" "fnd m a = Inr (m', r)"
  shows "r = rp m a" "rmap snd (fnd m' b) = rmap snd (fnd m b)"
proof -
  have m': "r = rp m a" "inv m'" "rp m' = rp m" using fnd [OF assms(1), of a] assms(2) by auto
  show "r = rp m a" by (rule m')
  show "rmap snd (fnd m' b) = rmap snd (fnd m b)"
    using fnd [OF m'(2), of b] fnd [OF assms(1), of b] m'(3) by auto
qed

end

interpretation uf: union_find "mfp_ok ops" "grow_twice ops" mfp_rep "mfp_find ops" "mfp_merge ops lf" "mfp_promote ops" for ops lf
proof
  fix m a b x assume m: "mfp_ok ops m"
  then show "mfp_rep m (mfp_rep m x) = mfp_rep m x" by (rule mfp_rep_idem)
  from m show "\<exists>m'. mfp_find ops m a = Inr (m', mfp_rep m a) \<and> mfp_ok ops m' \<and> mfp_rep m' = mfp_rep m"
    using mfp_find_ok [OF m, of a] by (elim exE conjE) (intro exI conjI)
  from m show "\<exists>m'. mfp_promote ops m a = Inr m' \<and> mfp_ok ops m' \<and>
      mfp_rep m' = (\<lambda>x. if mfp_rep m x = mfp_rep m a then a else mfp_rep m x)"
    using mfp_promote_ok [OF m, of a] by (elim exE conjE) (intro exI conjI)
  assume "grow_twice ops m"
  with m show "\<exists>m'. mfp_merge ops lf m a b = Inr m' \<and> mfp_ok ops m' \<and>
      mfp_rep m' = (\<lambda>x. if mfp_rep m x = mfp_rep m a then mfp_rep m b else mfp_rep m x)"
    by (rule mfp_merge_ok)
qed

section \<open>Interleaved calls\<close>

definition depth :: "int list \<Rightarrow> nat \<Rightarrow> nat" where
  "depth ps x = length (THE xs. \<exists>r. root_path ps x xs r)"

lemma depth_path: "root_path ps x xs r \<Longrightarrow> depth ps x = length xs"
  unfolding depth_def using root_path_det by (intro arg_cong [where f = length] the_equality) blast+

definition node :: "int list \<Rightarrow> int \<Rightarrow> nat \<Rightarrow> bool" where
  "node ps x r \<longleftrightarrow> 0 \<le> x \<and> root_of ps (nat x) r"

definition shared_ok :: "int list \<Rightarrow> int list \<Rightarrow> bool" where
  "shared_ok ps0 ps \<longleftrightarrow> length ps = length ps0 \<and>
     (\<forall>x < length ps0. ps ! x = ps0 ! x \<or> (\<exists>r. root_of ps0 x r \<and> r \<noteq> x \<and> ps ! x = int r))"

fun thread_ok :: "int list \<Rightarrow> thread \<Rightarrow> bool" where
  "thread_ok ps0 (Climb i p) \<longleftrightarrow> (\<exists>r. node ps0 i r \<and> node ps0 p r)"
| "thread_ok ps0 (Compress i k p) \<longleftrightarrow> (\<exists>r. node ps0 i r \<and> node ps0 k r \<and> p = int r)"
| "thread_ok ps0 (Store i k p nk) \<longleftrightarrow> (\<exists>r. node ps0 i r \<and> node ps0 k r \<and> p = int r \<and> k \<noteq> p \<and> node ps0 nk r \<and>
     depth ps0 (nat nk) < depth ps0 (nat k))"
| "thread_ok ps0 (Done i p) \<longleftrightarrow> (\<exists>r. node ps0 i r \<and> p = int r)"

fun weight :: "int list \<Rightarrow> thread \<Rightarrow> nat" where
  "weight ps0 (Climb i p) = depth ps0 (nat p) + 3 * depth ps0 (nat i) + 3"
| "weight ps0 (Compress i k p) = 3 * depth ps0 (nat k) + 1"
| "weight ps0 (Store i k p nk) = 3 * depth ps0 (nat k)"
| "weight ps0 (Done i p) = 0"

lemma parent_step:
  assumes "shared_ok ps0 ps" "node ps0 x r" "0 \<le> ps ! nat x"
  shows "node ps0 (ps ! nat x) r" "depth ps0 (nat (ps ! nat x)) < depth ps0 (nat x)"
proof -
  obtain xs where p: "root_path ps0 (nat x) xs r" using assms(2) by (auto simp: node_def root_of_def)
  have lt: "nat x < length ps0" using root_path_start [OF p] .
  have "node ps0 (ps ! nat x) r \<and> depth ps0 (nat (ps ! nat x)) < depth ps0 (nat x)"
  proof (cases "ps ! nat x = ps0 ! nat x")
    case True
    then have "0 \<le> ps0 ! nat x" using assms(3) by simp
    then obtain ys where ys: "xs = nat x # ys" "root_path ps0 (nat (ps0 ! nat x)) ys r"
      using p by (cases xs) auto
    then show ?thesis
      using True assms(3) depth_path [OF p] depth_path [OF ys(2)] by (auto simp: node_def root_of_def)
  next
    case False
    then obtain s where s: "root_of ps0 (nat x) s" "s \<noteq> nat x" "ps ! nat x = int s"
      using assms(1) lt by (auto simp: shared_ok_def)
    then have "s = r" using root_of_det [OF s(1), of r] assms(2) by (simp add: node_def)
    have rp: "root_path ps0 r [] r" using root_path_root [OF p] by simp
    have "xs \<noteq> []" using p s(2) \<open>s = r\<close> by (cases xs) auto
    moreover have "root_of ps0 r r" using rp unfolding root_of_def by blast
    ultimately show ?thesis
      using s(3) \<open>s = r\<close> depth_path [OF rp] depth_path [OF p] by (auto simp: node_def)
  qed
  then show "node ps0 (ps ! nat x) r" "depth ps0 (nat (ps ! nat x)) < depth ps0 (nat x)" by simp_all
qed

lemma root_stays:
  assumes "shared_ok ps0 ps" "node ps0 x r"
  shows "ps ! nat x < 0 \<longleftrightarrow> x = int r"
proof -
  have x: "nat x < length ps0" "r < length ps0" "ps0 ! r = -1" using root_of_less assms(2) by (auto simp: node_def)
  show ?thesis
  proof
    assume neg: "ps ! nat x < 0"
    then have "ps ! nat x = ps0 ! nat x" using assms(1) x(1) by (force simp: shared_ok_def)
    moreover obtain xs where "root_path ps0 (nat x) xs r" using assms(2) by (auto simp: node_def root_of_def)
    ultimately have "nat x = r" using neg by (cases xs) auto
    then show "x = int r" using assms(2) by (auto simp: node_def)
  next
    assume "x = int r"
    moreover have "root_of ps0 r s \<Longrightarrow> s = r" for s using root_of_det root_of_root x by blast
    ultimately show "ps ! nat x < 0" using assms(1) x by (fastforce simp: shared_ok_def)
  qed
qed

lemma find_step_inv:
  assumes "find_step (ps, t) (ps', t')" "shared_ok ps0 ps" "thread_ok ps0 t"
  shows "shared_ok ps0 ps' \<and> thread_ok ps0 t' \<and> weight ps0 t' < weight ps0 t"
  using assms(1)
proof cases
  case (climb_root p i)
  then obtain r where r: "node ps0 i r" "node ps0 p r" using assms(3) by auto
  then have "p = int r" using root_stays [OF assms(2) r(2)] climb_root by simp
  then show ?thesis using climb_root r assms(2) by auto
next
  case (climb_up p i)
  then obtain r where r: "node ps0 i r" "node ps0 p r" using assms(3) by auto
  then show ?thesis using climb_up parent_step [OF assms(2) r(2)] assms(2) by auto
next
  case (finish i p)
  then show ?thesis using assms by auto
next
  case (load k p i)
  then obtain r where r: "node ps0 i r" "node ps0 k r" "p = int r" using assms(3) by auto
  then have "0 \<le> ps ! nat k" using root_stays [OF assms(2) r(2)] load by auto
  then show ?thesis using load r parent_step [OF assms(2) r(2)] assms(2) by auto
next
  case (store k i p next_k)
  then obtain r where r: "node ps0 i r" "node ps0 k r" "p = int r" "k \<noteq> p" "node ps0 next_k r"
    "depth ps0 (nat next_k) < depth ps0 (nat k)" using assms(3) by auto
  have "shared_ok ps0 (ps[nat k := p])"
    unfolding shared_ok_def
  proof (intro conjI allI impI)
    show "length (ps[nat k := p]) = length ps0" using assms(2) by (simp add: shared_ok_def)
    fix x assume x: "x < length ps0"
    show "ps[nat k := p] ! x = ps0 ! x \<or> (\<exists>r. root_of ps0 x r \<and> r \<noteq> x \<and> ps[nat k := p] ! x = int r)"
    proof (cases "x = nat k")
      case True
      then show ?thesis using r(2,3,4) x assms(2) by (auto simp: node_def shared_ok_def)
    next
      case False
      then show ?thesis using assms(2) x by (auto simp: shared_ok_def)
    qed
  qed
  then show ?thesis using store r by auto
qed

definition conc_ok :: "int list \<Rightarrow> int list \<times> thread list \<Rightarrow> bool" where
  "conc_ok ps0 s \<longleftrightarrow> shared_ok ps0 (fst s) \<and> list_all (thread_ok ps0) (snd s)"

definition total_weight :: "int list \<Rightarrow> int list \<times> thread list \<Rightarrow> nat" where
  "total_weight ps0 s = sum_list (map (weight ps0) (snd s))"

lemma conc_step_inv:
  assumes "conc_step s s'" "conc_ok ps0 s"
  shows "conc_ok ps0 s' \<and> total_weight ps0 s' < total_weight ps0 s"
  using assms
proof (induction rule: conc_step.induct)
  case (1 n ts ps ps' t')
  have t: "thread_ok ps0 (ts ! n)" using 1 by (simp add: conc_ok_def list_all_length)
  have s: "shared_ok ps0 ps" using 1 by (simp add: conc_ok_def)
  note inv = find_step_inv [OF 1(2) s t]
  have eq: "sum_list (map (weight ps0) (ts[n := u])) =
      sum_list (map (weight ps0) (take n ts)) + weight ps0 u + sum_list (map (weight ps0) (drop (Suc n) ts))" for u
    using 1(1) by (simp add: upd_conv_take_nth_drop)
  have "sum_list (map (weight ps0) (ts[n := t'])) < sum_list (map (weight ps0) ts)"
    using inv eq [of t'] eq [of "ts ! n"] by simp
  moreover have "list_all (thread_ok ps0) (ts[n := t'])"
    using 1 inv by (auto simp: conc_ok_def list_all_length nth_list_update)
  ultimately show ?case using inv by (simp add: conc_ok_def total_weight_def)
qed

lemma thread_progress:
  assumes "shared_ok ps0 ps" "thread_ok ps0 t" "\<And>i p. t \<noteq> Done i p"
  shows "\<exists>s'. find_step (ps, t) s'"
proof -
  have lt: "0 \<le> x \<and> x < int (length ps)" if "node ps0 x r" for x r
    using that root_of_less [of ps0 "nat x" r] assms(1) by (auto simp: node_def shared_ok_def)
  show ?thesis
  proof (cases t)
    case (Climb i p)
    then obtain r where "node ps0 p r" using assms(2) by auto
    then show ?thesis using lt [of p r] Climb climb_root [of p ps i] climb_up [of p ps i]
      by (cases "ps ! nat p < 0") (auto intro: exI)
  next
    case (Compress i k p)
    then obtain r where "node ps0 k r" using assms(2) by auto
    then show ?thesis using lt [of k r] Compress finish [of ps i p] load [of k p ps i]
      by (cases "k = p") (auto intro: exI)
  next
    case (Store i k p nk)
    then obtain r where "node ps0 k r" using assms(2) by auto
    then show ?thesis using lt [of k r] Store store [of k ps i p nk] by (auto intro: exI)
  next
    case (Done i p)
    then show ?thesis using assms(3) by blast
  qed
qed

fun caller :: "thread \<Rightarrow> int" where
  "caller (Climb i _) = i"
| "caller (Compress i _ _) = i"
| "caller (Store i _ _ _) = i"
| "caller (Done i _) = i"

lemma find_step_caller: "find_step (ps, t) (ps', t') \<Longrightarrow> caller t' = caller t"
  by (erule find_step.cases) auto

lemma conc_step_callers: "conc_step s s' \<Longrightarrow> map caller (snd s') = map caller (snd s)"
  by (induction rule: conc_step.induct) (simp add: find_step_caller map_update list_update_same_conv)

lemma conc_run:
  assumes "(conc_step ^^ n) s s'" "conc_ok ps0 s"
  shows "conc_ok ps0 s' \<and> n + total_weight ps0 s' \<le> total_weight ps0 s \<and> map caller (snd s') = map caller (snd s)"
  using assms
proof (induction n arbitrary: s')
  case (Suc n)
  then obtain s1 where s1: "(conc_step ^^ n) s s1" "conc_step s1 s'" by auto
  with Suc.IH [OF s1(1) Suc.prems(2)] conc_step_inv [OF s1(2)] conc_step_callers [OF s1(2)]
  show ?case by fastforce
qed simp

lemma shared_roots:
  assumes "shared_ok ps0 ps" "root_of ps0 x r"
  shows "root_of ps x r"
  using assms(2)
proof (induction "depth ps0 x" arbitrary: x rule: less_induct)
  case less
  have n: "node ps0 (int x) r" using less.prems by (simp add: node_def)
  have x: "x < length ps" "r < length ps" using root_of_less [OF less.prems] assms(1) by (simp_all add: shared_ok_def)
  show ?case
  proof (cases "0 \<le> ps ! x")
    case True
    have "node ps0 (ps ! x) r" "depth ps0 (nat (ps ! x)) < depth ps0 x"
      using parent_step [OF assms(1) n] True by simp_all
    then have "root_of ps (nat (ps ! x)) r" using less.hyps [of "nat (ps ! x)"] by (simp add: node_def)
    then show ?thesis using root_of_step [OF x(1) True] by simp
  next
    case False
    then have "x = r" using root_stays [OF assms(1) n] by simp
    moreover have "ps ! r = -1"
      using False root_of_less [OF less.prems] assms(1) \<open>x = r\<close> by (force simp: shared_ok_def)
    ultimately show ?thesis using x by (simp add: root_of_root)
  qed
qed

lemma start_ok:
  assumes "forest ps0" "list_all (\<lambda>i. 0 \<le> i \<and> i < int (length ps0)) is"
  shows "conc_ok ps0 (ps0, map (\<lambda>i. Climb i i) is)"
proof -
  have "\<exists>r. node ps0 i r \<and> node ps0 i r" if "i \<in> set is" for i
    using assms that by (auto simp: forest_def node_def list_all_iff nat_less_iff)
  then show ?thesis by (auto simp: conc_ok_def shared_ok_def list_all_iff)
qed

lemma concurrent_ifind:
  assumes "forest ps0" "list_all (\<lambda>i. 0 \<le> i \<and> i < int (length ps0)) is"
    and run: "(conc_step ^^ n) (ps0, map (\<lambda>i. Climb i i) is) (ps, ts)"
  shows "n \<le> sum_list (map (\<lambda>i. 4 * depth ps0 (nat i) + 3) is)"
    and "map caller ts = is"
    and "Done i p \<in> set ts \<Longrightarrow> root_of ps0 (nat i) (nat p)"
    and "same_roots ps0 ps"
    and "(\<nexists>s'. conc_step (ps, ts) s') \<Longrightarrow> (\<forall>t \<in> set ts. \<exists>i p. t = Done i p)"
proof -
  have ok: "conc_ok ps0 (ps, ts)" and w: "n + total_weight ps0 (ps, ts) \<le> total_weight ps0 (ps0, map (\<lambda>i. Climb i i) is)"
    and c: "map caller ts = map caller (map (\<lambda>i. Climb i i) is)"
    using conc_run [OF run start_ok [OF assms(1,2)]] by simp_all
  have "total_weight ps0 (ps0, map (\<lambda>i. Climb i i) is) = sum_list (map (\<lambda>i. 4 * depth ps0 (nat i) + 3) is)"
    by (simp add: total_weight_def o_def algebra_simps)
  then show "n \<le> sum_list (map (\<lambda>i. 4 * depth ps0 (nat i) + 3) is)" using w by simp
  show "map caller ts = is" using c by (simp add: o_def)
  show "Done i p \<in> set ts \<Longrightarrow> root_of ps0 (nat i) (nat p)"
    using ok by (fastforce simp: conc_ok_def list_all_iff node_def)
  show "same_roots ps0 ps"
    using ok shared_roots by (auto simp: same_roots_def conc_ok_def shared_ok_def)
  show "(\<nexists>s'. conc_step (ps, ts) s') \<Longrightarrow> (\<forall>t \<in> set ts. \<exists>i p. t = Done i p)"
  proof (rule ccontr)
    assume stuck: "\<nexists>s'. conc_step (ps, ts) s'" and "\<not> (\<forall>t \<in> set ts. \<exists>i p. t = Done i p)"
    then obtain t where t: "t \<in> set ts" "\<And>i p. t \<noteq> Done i p" by blast
    then obtain m where m: "m < length ts" "t = ts ! m" by (auto simp: in_set_conv_nth)
    obtain ps' t' where "find_step (ps, t) (ps', t')"
      using thread_progress [of ps0 ps t] ok t by (auto simp: conc_ok_def list_all_iff)
    then show False using stuck conc_step.intros [OF m(1)] m(2) by blast
  qed
qed

section \<open>Guarantees\<close>

text \<open>Looking up a representative returns for every key, never changes any representative although it
  shortens the paths it walked, and its answer is a fixed point; promoting a key makes it the
  representative of its class and leaves the classes as they are.\<close>

lemma mfp_find_and_promote:
  assumes "mfp_ok ops m"
  shows "(\<exists>m' r. mfp_find ops m a = Inr (m', r) \<and> mfp_ok ops m' \<and>
      (\<forall>b. rmap snd (mfp_find ops m' b) = rmap snd (mfp_find ops m b)) \<and> rmap snd (mfp_find ops m r) = Inr r) \<and>
    (\<exists>m'. mfp_promote ops m a = Inr m' \<and> mfp_ok ops m' \<and> rmap snd (mfp_find ops m' a) = Inr a \<and>
      (\<forall>x y. rmap snd (mfp_find ops m' x) = rmap snd (mfp_find ops m' y) \<longleftrightarrow>
        rmap snd (mfp_find ops m x) = rmap snd (mfp_find ops m y)))"
proof -
  have find: "rmap snd (mfp_find ops m x) = Inr (mfp_rep m x)" if "mfp_ok ops m" for m x
    using uf.fnd [OF that, of x] by auto
  obtain m1 where m1: "mfp_find ops m a = Inr (m1, mfp_rep m a)" "mfp_ok ops m1" "mfp_rep m1 = mfp_rep m"
    using uf.fnd [OF assms, of a] by blast
  obtain m2 where m2: "mfp_promote ops m a = Inr m2" "mfp_ok ops m2" using uf.prm [OF assms, of a] by blast
  show ?thesis
    using m1 m2 uf.promote_classes [OF assms m2(1)] uf.idem [OF assms] find [OF assms] find [OF m1(2)] find [OF m2(2)]
    by simp
qed

lemma mfp_empty_ok: "key_of ops = (\<lambda>k. k) \<Longrightarrow> mfp_ok ops mfp_empty"
  by (simp add: mfp_ok_def mfp_empty_def forest_def empty_entries)

text \<open>C24: Merging two keys returns, whichever order the compiler evaluates the two lookups in, and joins
  exactly their two classes: two keys share a representative afterwards when they did before or when
  each of them was with one of the merged keys.\<close>

theorem mfp_merge_joins_classes:
  assumes "mfp_ok ops m" "grow_twice ops m"
  shows "\<exists>m'. mfp_merge ops lf m a b = Inr m' \<and> mfp_ok ops m' \<and>
    (\<forall>x y. mfp_rep m' x = mfp_rep m' y \<longleftrightarrow> mfp_rep m x = mfp_rep m y \<or>
      (mfp_rep m x \<in> {mfp_rep m a, mfp_rep m b} \<and> mfp_rep m y \<in> {mfp_rep m a, mfp_rep m b}))"
proof -
  obtain m' where m': "mfp_merge ops lf m a b = Inr m'" "mfp_ok ops m'" using uf.mrg [OF assms, of lf a b] by blast
  with uf.merge_joins [OF assms m'(1)] show ?thesis by blast
qed

theorem mfp_merge_joins_classes_witness:
  "\<exists>m'. mfp_merge (pool_ops (\<lambda>_. 7) (\<lambda>c. 2 * c + 1)) True mfp_empty CHR ''a'' CHR ''b'' = Inr m' \<and>
    mfp_rep m' CHR ''a'' = mfp_rep m' CHR ''b'' \<and> mfp_rep m' CHR ''a'' \<noteq> mfp_rep m' CHR ''c''"
proof -
  let ?ops = "pool_ops (\<lambda>_ :: char. 7) (\<lambda>c. 2 * c + 1)"
  have "mfp_ok ?ops mfp_empty" by (rule mfp_empty_ok) (simp add: pool_ops_def)
  moreover have "grow_twice ?ops mfp_empty"
    by (simp add: grow_twice_def mfp_empty_def table_empty_def pool_ops_def room_def hashtable_size_factor_def max_prime_def)
  moreover have "mfp_rep mfp_empty x = (x :: char)" for x
    by (simp add: mfp_rep_def rep_of_def mfp_empty_def empty_entries)
  ultimately show ?thesis
    using mfp_merge_joins_classes [of ?ops mfp_empty True "CHR ''a''" "CHR ''b''"] by auto
qed



end
