(* ===== verification/Sigtools.thy ===== *)
theory Sigtools
  imports Mfp Rtlil_Const
begin

text \<open>
  Signal bits and the two structures of \<open>kernel/sigtools.h\<close> built on the hash tables:
  \<open>SigPool\<close>, a set of wire bits, and \<open>SigMap\<close>, which maps every bit of a module to the
  representative of the net it is connected to. A wire is identified by its name; a \<open>SigSpec\<close> is
  the list of its bits.
\<close>

datatype SigBit = WireBit string int | ConstBit State

type_synonym SigSpec = "SigBit list"

fun is_wire :: "SigBit \<Rightarrow> bool" where
  "is_wire (WireBit _ _) = True"
| "is_wire (ConstBit _) = False"

section \<open>SigPool\<close>

text \<open>The pool holds the wire and the offset of each bit.\<close>

type_synonym bitDef = "string \<times> int"

fun wire_def :: "SigBit \<Rightarrow> bitDef option" where
  "wire_def (WireBit w i) = Some (w, i)"
| "wire_def (ConstBit _) = None"

definition wire_defs :: "SigSpec \<Rightarrow> bitDef list" where
  "wire_defs sig = List.map_filter wire_def sig"

fun pool_erase_all :: "(bitDef, bitDef) table_ops \<Rightarrow> bitDef table \<Rightarrow> bitDef list \<Rightarrow> bitDef table result" where
  "pool_erase_all ops t [] = Inr t"
| "pool_erase_all ops t (b # bs) = rbind (table_erase ops t b) (\<lambda>(t, _). pool_erase_all ops t bs)"

definition sigpool_add :: "(bitDef, bitDef) table_ops \<Rightarrow> bitDef table \<Rightarrow> SigSpec \<Rightarrow> bitDef table result" where
  "sigpool_add ops t sig = table_insert_all ops t (wire_defs sig)"

definition sigpool_add_pool :: "(bitDef, bitDef) table_ops \<Rightarrow> bitDef table \<Rightarrow> bitDef table \<Rightarrow> bitDef table result" where
  "sigpool_add_pool ops t other = table_insert_all ops t (table_iterate other)"

definition sigpool_del :: "(bitDef, bitDef) table_ops \<Rightarrow> bitDef table \<Rightarrow> SigSpec \<Rightarrow> bitDef table result" where
  "sigpool_del ops t sig = pool_erase_all ops t (wire_defs sig)"

definition sigpool_del_pool :: "(bitDef, bitDef) table_ops \<Rightarrow> bitDef table \<Rightarrow> bitDef table \<Rightarrow> bitDef table result" where
  "sigpool_del_pool ops t other = pool_erase_all ops t (table_iterate other)"

fun expand_loop :: "(bitDef, bitDef) table_ops \<Rightarrow> bitDef table \<Rightarrow> (SigBit \<times> SigBit) list \<Rightarrow> bitDef table result" where
  "expand_loop ops t [] = Inr t"
| "expand_loop ops t ((f, g) # ps) =
     (case (wire_def f, wire_def g) of
        (Some bf, Some bt) \<Rightarrow>
          rbind (table_count ops t bf) (\<lambda>n.
            rbind (if n > 0 then rmap fst (table_insert ops t bt) else Inr t)
              (\<lambda>t. expand_loop ops t ps))
      | _ \<Rightarrow> expand_loop ops t ps)"

definition sigpool_expand ::
    "(bitDef, bitDef) table_ops \<Rightarrow> bitDef table \<Rightarrow> SigSpec \<Rightarrow> SigSpec \<Rightarrow> bitDef table result" where
  "sigpool_expand ops t from to =
     (if length from \<noteq> length to then Inl AssertFail else expand_loop ops t (zip from to))"

definition sigpool_check :: "(bitDef, bitDef) table_ops \<Rightarrow> bitDef table \<Rightarrow> SigBit \<Rightarrow> bool result" where
  "sigpool_check ops t b = (case wire_def b of
     None \<Rightarrow> Inr False | Some d \<Rightarrow> rmap (\<lambda>n. n > 0) (table_count ops t d))"

fun sigpool_extract :: "(bitDef, bitDef) table_ops \<Rightarrow> bitDef table \<Rightarrow> SigSpec \<Rightarrow> SigSpec result" where
  "sigpool_extract ops t [] = Inr []"
| "sigpool_extract ops t (b # sig) =
     rbind (sigpool_check ops t b) (\<lambda>c. rmap (\<lambda>r. if c then b # r else r) (sigpool_extract ops t sig))"

fun sigpool_remove :: "(bitDef, bitDef) table_ops \<Rightarrow> bitDef table \<Rightarrow> SigSpec \<Rightarrow> SigSpec result" where
  "sigpool_remove ops t [] = Inr []"
| "sigpool_remove ops t (b # sig) =
     rbind (sigpool_check ops t b)
       (\<lambda>c. rmap (\<lambda>r. if is_wire b \<and> \<not> c then b # r else r) (sigpool_remove ops t sig))"

fun sigpool_check_any :: "(bitDef, bitDef) table_ops \<Rightarrow> bitDef table \<Rightarrow> SigSpec \<Rightarrow> bool result" where
  "sigpool_check_any ops t [] = Inr False"
| "sigpool_check_any ops t (b # sig) =
     rbind (sigpool_check ops t b) (\<lambda>c. if c then Inr True else sigpool_check_any ops t sig)"

fun sigpool_check_all :: "(bitDef, bitDef) table_ops \<Rightarrow> bitDef table \<Rightarrow> SigSpec \<Rightarrow> bool result" where
  "sigpool_check_all ops t [] = Inr True"
| "sigpool_check_all ops t (b # sig) =
     rbind (sigpool_check ops t b)
       (\<lambda>c. if is_wire b \<and> \<not> c then Inr False else sigpool_check_all ops t sig)"

definition sigpool_export_one :: "bitDef table \<Rightarrow> SigSpec" where
  "sigpool_export_one t = (case table_iterate t of [] \<Rightarrow> [] | (w, i) # _ \<Rightarrow> [WireBit w i])"

section \<open>SigMap\<close>

type_synonym sig_ops = "(SigBit, SigBit) table_ops"

text \<open>\<open>apply\<close> on a bit and on a signal; the compressed paths are part of the state.\<close>

definition sigmap_bit :: "sig_ops \<Rightarrow> SigBit mfp \<Rightarrow> SigBit \<Rightarrow> (SigBit mfp \<times> SigBit) result" where
  "sigmap_bit ops m b = mfp_find ops m b"

fun sigmap_apply :: "sig_ops \<Rightarrow> SigBit mfp \<Rightarrow> SigSpec \<Rightarrow> (SigBit mfp \<times> SigSpec) result" where
  "sigmap_apply ops m [] = Inr (m, [])"
| "sigmap_apply ops m (b # sig) =
     rbind (sigmap_bit ops m b) (\<lambda>(m, r). rmap (\<lambda>(m, rs). (m, r # rs)) (sigmap_apply ops m sig))"

text \<open>One round of the loop of \<open>add(from, to)\<close>.\<close>

definition sigmap_add_bit :: "sig_ops \<Rightarrow> SigBit mfp \<Rightarrow> SigBit \<Rightarrow> SigBit \<Rightarrow> SigBit mfp result" where
  "sigmap_add_bit ops m from to =
     rbind (mfp_lookup ops m from) (\<lambda>(m, bfi). rbind (mfp_lookup ops m to) (\<lambda>(m, bti).
       rbind (mfp_get m bfi) (\<lambda>bf. rbind (mfp_get m bti) (\<lambda>bt.
         if is_wire bf \<or> is_wire bt then
           rbind (imerge (parents m) bfi bti) (\<lambda>ps.
             rbind (if \<not> is_wire bf then ipromote ps bfi else Inr ps) (\<lambda>ps.
               rbind (if \<not> is_wire bt then ipromote ps bti else Inr ps) (\<lambda>ps.
                 Inr (m\<lparr>parents := ps\<rparr>))))
         else Inr m))))"

fun sigmap_add_loop :: "sig_ops \<Rightarrow> SigBit mfp \<Rightarrow> (SigBit \<times> SigBit) list \<Rightarrow> SigBit mfp result" where
  "sigmap_add_loop ops m [] = Inr m"
| "sigmap_add_loop ops m ((f, t) # ps) =
     rbind (sigmap_add_bit ops m f t) (\<lambda>m. sigmap_add_loop ops m ps)"

definition sigmap_add :: "sig_ops \<Rightarrow> SigBit mfp \<Rightarrow> SigSpec \<Rightarrow> SigSpec \<Rightarrow> SigBit mfp result" where
  "sigmap_add ops m from to =
     (if length from \<noteq> length to then Inl AssertFail else sigmap_add_loop ops m (zip from to))"

text \<open>\<open>set(module)\<close> on the connections of the module.\<close>

fun sigmap_add_all :: "sig_ops \<Rightarrow> SigBit mfp \<Rightarrow> (SigSpec \<times> SigSpec) list \<Rightarrow> SigBit mfp result" where
  "sigmap_add_all ops m [] = Inr m"
| "sigmap_add_all ops m ((f, t) # cs) = rbind (sigmap_add ops m f t) (\<lambda>m. sigmap_add_all ops m cs)"

definition sigmap_set :: "sig_ops \<Rightarrow> SigBit mfp \<Rightarrow> (SigSpec \<times> SigSpec) list \<Rightarrow> SigBit mfp result" where
  "sigmap_set ops m connections =
     (let bitcount = sum_list (map (\<lambda>c. length (fst c)) connections);
          m = mfp_clear m;
          m = m\<lparr>database := table_reserve (database m) bitcount\<rparr>
      in sigmap_add_all ops m connections)"

text \<open>\<open>add\<close> of a bit or a signal on its own.\<close>

definition sigmap_add_single :: "sig_ops \<Rightarrow> SigBit mfp \<Rightarrow> SigBit \<Rightarrow> SigBit mfp result" where
  "sigmap_add_single ops m b =
     rbind (mfp_find ops m b) (\<lambda>(m, r). if is_wire r then mfp_promote ops m b else Inr m)"

fun sigmap_add_sig :: "sig_ops \<Rightarrow> SigBit mfp \<Rightarrow> SigSpec \<Rightarrow> SigBit mfp result" where
  "sigmap_add_sig ops m [] = Inr m"
| "sigmap_add_sig ops m (b # sig) = rbind (sigmap_add_single ops m b) (\<lambda>m. sigmap_add_sig ops m sig)"

text \<open>An \<open>idict\<close> is iterated in the order of its numbers.\<close>

definition sigmap_allbits :: "SigBit mfp \<Rightarrow> SigSpec" where
  "sigmap_allbits m = filter is_wire (map udata (entries (database m)))"

section \<open>Room for several insertions\<close>

definition grow_steps :: "('k, 'e) table_ops \<Rightarrow> nat \<Rightarrow> nat \<Rightarrow> bool" where
  "grow_steps ops n c \<longleftrightarrow> (\<forall>k < n. let x = (grow ops ^^ k) c in x < grow ops x \<and> room (grow ops x))"

lemma grow_steps_Suc:
  assumes "grow_steps ops (Suc n) c" "c' \<in> {c, grow ops c}"
  shows "grow_steps ops n c'"
proof -
  have "grow_steps ops n (grow ops c)"
    unfolding grow_steps_def
  proof (intro allI impI)
    fix k assume "k < n"
    then have "let x = (grow ops ^^ Suc k) c in x < grow ops x \<and> room (grow ops x)"
      using assms(1) Suc_mono unfolding grow_steps_def by blast
    then show "let x = (grow ops ^^ k) (grow ops c) in x < grow ops x \<and> room (grow ops x)"
      by (simp add: funpow_swap1)
  qed
  moreover have "grow_steps ops n c" using assms(1) by (simp add: grow_steps_def)
  ultimately show ?thesis using assms(2) by auto
qed

lemma grow_steps_can_grow: "grow_steps ops (Suc n) (capacity t) \<Longrightarrow> can_grow ops t"
  unfolding grow_steps_def can_grow_def Let_def by (drule spec [of _ 0]) simp

lemma mfp_call_parents:
  "mfp_call ops m a = Inr (m', i) \<Longrightarrow> parents m' = parents m \<or> parents m' = parents m @ [-1]"
  by (auto simp: mfp_call_def rmap_eq_Inr_iff)

lemma mfp_lookup_ok:
  assumes "mfp_ok ops m" "grow_steps ops (Suc n) (capacity (database m))"
  obtains m' r where "mfp_lookup ops m a = Inr (m', int r)" "mfp_ok ops m'" "mfp_rep m' = mfp_rep m"
    "grow_steps ops n (capacity (database m'))"
    "r < length (entries (database m'))" "udata (entries (database m') ! r) = mfp_rep m a"
    "root_of (parents m') r r" "\<And>x t. root_of (parents m) x t \<Longrightarrow> root_of (parents m') x t"
    "\<exists>vs. map udata (entries (database m')) = map udata (entries (database m)) @ vs"
proof -
  obtain m1 i vs where m1: "mfp_call ops m a = Inr (m1, int i)" "mfp_ok ops m1" "mfp_rep m1 = mfp_rep m"
    "i < length (entries (database m1))" "udata (entries (database m1) ! i) = a"
    "map udata (entries (database m1)) = map udata (entries (database m)) @ vs"
    "capacity (database m1) \<in> {capacity (database m), grow ops (capacity (database m))}"
    using mfp_call_ok [OF assms(1) grow_steps_can_grow [OF assms(2)]] by metis
  obtain r where r: "root_of (parents m1) i r" "r < length (entries (database m1))"
      "mfp_rep m1 a = udata (entries (database m1) ! r)"
    using mfp_root [OF m1(2,4)] m1(5) by metis
  obtain ps where ps: "ifind (parents m1) (int i) = Inr (ps, int r)" "same_roots (parents m1) ps"
    using ifind_ok [OF r(1)] by blast
  have tr: "root_of (parents m1) x t \<Longrightarrow> root_of ps x t" for x t using ps(2) by (simp add: same_roots_def)
  have up: "root_of (parents m) x t \<Longrightarrow> root_of ps x t" for x t
    using mfp_call_parents [OF m1(1)] tr root_of_append by metis
  have "root_of ps r r" using tr root_of_root root_of_less [OF r(1)] by blast
  moreover have "mfp_lookup ops m a = Inr (m1\<lparr>parents := ps\<rparr>, int r)"
    using m1(1) ps(1) by (simp add: mfp_lookup_def)
  ultimately show thesis
    using that [of "m1\<lparr>parents := ps\<rparr>" r] same_roots_rep [OF m1(2) ps(2)] m1(3,6) r(2,3) up
      grow_steps_Suc [OF assms(2) m1(7)] by simp
qed

definition join_reps :: "(SigBit \<Rightarrow> SigBit) \<Rightarrow> SigBit \<Rightarrow> SigBit \<Rightarrow> SigBit \<Rightarrow> SigBit" where
  "join_reps rp a b x =
     (if is_wire (rp a) \<or> is_wire (rp b)
      then if rp x = rp a \<or> rp x = rp b then (if is_wire (rp a) then rp b else rp a) else rp x
      else rp x)"

lemma root_merge_id:
  assumes "mfp_ok ops m" "r < length (entries (database m))" "root_of (parents m) r r"
  shows "mfp_rep m (udata (entries (database m) ! r)) = udata (entries (database m) ! r)"
  using rep_of_nth [OF mfp_distinct [OF assms(1)], of r "parents m" r] assms by (simp add: mfp_rep_def)

lemma promote_root_ok:
  assumes "mfp_ok ops m" "r < length (entries (database m))" "udata (entries (database m) ! r) = k"
  obtains ps where "ipromote (parents m) (int r) = Inr ps" "mfp_ok ops (m\<lparr>parents := ps\<rparr>)"
    "mfp_rep (m\<lparr>parents := ps\<rparr>) = (\<lambda>x. if mfp_rep m x = mfp_rep m k then k else mfp_rep m x)"
proof -
  obtain q where q: "root_of (parents m) r q" "q < length (entries (database m))" "mfp_rep m k = udata (entries (database m) ! q)"
    using mfp_root [OF assms(1,2)] assms(3) by metis
  obtain ps where ps: "ipromote (parents m) (int r) = Inr ps" "length ps = length (parents m)" "forest ps"
    "\<And>x t. root_of (parents m) x t \<Longrightarrow> root_of ps x (if t = q then r else t)"
    using ipromote_ok [OF _ q(1)] assms(1) unfolding mfp_ok_def by metis
  from relinked_rep [OF assms(1) ps(2,3) q(2) assms(2) ps(4)] show thesis
    using that [of ps] ps(1) q(3) assms(3) by (auto simp: fun_eq_iff)
qed

lemma sigmap_add_bit_ok:
  assumes "mfp_ok ops m" "grow_steps ops (Suc (Suc n)) (capacity (database m))"
  obtains m' where "sigmap_add_bit ops m a b = Inr m'" "mfp_ok ops m'" "mfp_rep m' = join_reps (mfp_rep m) a b"
    "grow_steps ops n (capacity (database m'))"
proof -
  obtain m1 r where m1: "mfp_lookup ops m a = Inr (m1, int r)" "mfp_ok ops m1" "mfp_rep m1 = mfp_rep m"
    "grow_steps ops (Suc n) (capacity (database m1))"
    "r < length (entries (database m1))" "udata (entries (database m1) ! r) = mfp_rep m a" "root_of (parents m1) r r"
    using mfp_lookup_ok [OF assms] by metis
  obtain m2 s vs where m2: "mfp_lookup ops m1 b = Inr (m2, int s)" "mfp_ok ops m2" "mfp_rep m2 = mfp_rep m1"
    "grow_steps ops n (capacity (database m2))"
    "s < length (entries (database m2))" "udata (entries (database m2) ! s) = mfp_rep m1 b" "root_of (parents m2) s s"
    "\<And>x t. root_of (parents m1) x t \<Longrightarrow> root_of (parents m2) x t"
    "map udata (entries (database m2)) = map udata (entries (database m1)) @ vs"
    using mfp_lookup_ok [OF m1(2,4)] by metis
  define bf where "bf = mfp_rep m a"
  define bt where "bt = mfp_rep m b"
  have r2: "r < length (entries (database m2))" using arg_cong [OF m2(9), of length] m1(5) by simp
  have rk: "udata (entries (database m2) ! r) = bf"
    using arg_cong [OF m2(9), of "\<lambda>xs. xs ! r"] m1(5,6) r2 by (simp add: nth_append bf_def)
  have sk: "udata (entries (database m2) ! s) = bt" using m2(6) m1(3) by (simp add: bt_def)
  have rep2: "mfp_rep m2 = mfp_rep m" using m2(3) m1(3) by simp
  have gets: "mfp_get m2 (int r) = Inr bf" "mfp_get m2 (int s) = Inr bt"
    using r2 m2(5) rk sk by (simp_all add: mfp_get_def idict_get_def)
  have ids: "mfp_rep m bf = bf" "mfp_rep m bt = bt" using mfp_rep_idem [OF assms(1)] by (simp_all add: bf_def bt_def)
  show thesis
  proof (cases "is_wire bf \<or> is_wire bt")
    case False
    then have "sigmap_add_bit ops m a b = Inr m2" using m1(1) m2(1) gets by (simp add: sigmap_add_bit_def)
    moreover have "join_reps (mfp_rep m) a b = mfp_rep m"
      using False by (auto simp: join_reps_def bf_def bt_def)
    ultimately show thesis using that [of m2] m2(2,4) rep2 by simp
  next
    case True
    have rr2: "root_of (parents m2) r r" using m2(8) m1(7) by blast
    obtain ps where ps: "imerge (parents m2) (int r) (int s) = Inr ps" "length ps = length (parents m2)" "forest ps"
      "\<And>x t. root_of (parents m2) x t \<Longrightarrow> root_of ps x (if t = r then s else t)"
      using imerge_ok [OF _ rr2 m2(7)] m2(2) unfolding mfp_ok_def by metis
    let ?m3 = "m2\<lparr>parents := ps\<rparr>"
    have m3: "mfp_ok ops ?m3" "mfp_rep ?m3 = (\<lambda>x. if mfp_rep m x = bf then bt else mfp_rep m x)"
      using relinked_rep [OF m2(2) ps(2,3) r2 m2(5) ps(4)] rk sk rep2 by (simp_all cong: if_cong)
    show thesis
    proof (cases "is_wire bf")
      case wf: True
      show thesis
      proof (cases "is_wire bt")
        case True
        then have "sigmap_add_bit ops m a b = Inr ?m3"
          using m1(1) m2(1) gets wf ps(1) by (simp add: sigmap_add_bit_def)
        moreover have "mfp_rep ?m3 = join_reps (mfp_rep m) a b"
          unfolding m3(2) using wf True by (auto simp: join_reps_def bf_def bt_def fun_eq_iff)
        ultimately show thesis using that [of ?m3] m3(1) m2(4) by simp
      next
        case False
        obtain qs where qs: "ipromote ps (int s) = Inr qs" "mfp_ok ops (?m3\<lparr>parents := qs\<rparr>)"
          "mfp_rep (?m3\<lparr>parents := qs\<rparr>) = (\<lambda>x. if mfp_rep ?m3 x = mfp_rep ?m3 bt then bt else mfp_rep ?m3 x)"
          using promote_root_ok [OF m3(1), of s bt] m2(5) sk by auto
        have "sigmap_add_bit ops m a b = Inr (m2\<lparr>parents := qs\<rparr>)"
          using m1(1) m2(1) gets wf False ps(1) qs(1) by (simp add: sigmap_add_bit_def)
        moreover have "mfp_rep (m2\<lparr>parents := qs\<rparr>) = join_reps (mfp_rep m) a b"
          using qs(3) wf ids unfolding m3(2) by (auto simp: join_reps_def bf_def [symmetric] bt_def [symmetric] fun_eq_iff)
        ultimately show thesis using that [of "m2\<lparr>parents := qs\<rparr>"] qs(2) m2(4) by simp
      qed
    next
      case False
      then have wt: "is_wire bt" using True by simp
      obtain qs where qs: "ipromote ps (int r) = Inr qs" "mfp_ok ops (?m3\<lparr>parents := qs\<rparr>)"
        "mfp_rep (?m3\<lparr>parents := qs\<rparr>) = (\<lambda>x. if mfp_rep ?m3 x = mfp_rep ?m3 bf then bf else mfp_rep ?m3 x)"
        using promote_root_ok [OF m3(1), of r bf] r2 rk by auto
      have "sigmap_add_bit ops m a b = Inr (m2\<lparr>parents := qs\<rparr>)"
        using m1(1) m2(1) gets wt False ps(1) qs(1) by (simp add: sigmap_add_bit_def)
      moreover have "mfp_rep (m2\<lparr>parents := qs\<rparr>) = join_reps (mfp_rep m) a b"
        using qs(3) wt False ids unfolding m3(2) by (auto simp: join_reps_def bf_def [symmetric] bt_def [symmetric] fun_eq_iff)
      ultimately show thesis using that [of "m2\<lparr>parents := qs\<rparr>"] qs(2) m2(4) by simp
    qed
  qed
qed

fun join_all :: "(SigBit \<Rightarrow> SigBit) \<Rightarrow> (SigBit \<times> SigBit) list \<Rightarrow> SigBit \<Rightarrow> SigBit" where
  "join_all rp [] = rp"
| "join_all rp ((a, b) # ps) = join_all (join_reps rp a b) ps"

lemma sigmap_add_loop_ok:
  assumes "mfp_ok ops m" "grow_steps ops (2 * length ps + n) (capacity (database m))"
  shows "\<exists>m'. sigmap_add_loop ops m ps = Inr m' \<and> mfp_ok ops m' \<and> mfp_rep m' = join_all (mfp_rep m) ps \<and>
    grow_steps ops n (capacity (database m'))"
  using assms
proof (induction ps arbitrary: m)
  case (Cons p ps)
  obtain a b where p: "p = (a, b)" by (cases p)
  have "grow_steps ops (Suc (Suc (2 * length ps + n))) (capacity (database m))" using Cons.prems(2) by simp
  then obtain m1 where "sigmap_add_bit ops m a b = Inr m1" "mfp_ok ops m1" "mfp_rep m1 = join_reps (mfp_rep m) a b"
    "grow_steps ops (2 * length ps + n) (capacity (database m1))"
    using sigmap_add_bit_ok [OF Cons.prems(1)] by blast
  then show ?case using Cons.IH [of m1] by (simp add: p)
qed auto

lemma sigmap_add_all_ok:
  assumes "mfp_ok ops m" "\<forall>(f, t) \<in> set cs. length f = length t"
    "grow_steps ops (2 * sum_list (map (\<lambda>c. length (fst c)) cs) + n) (capacity (database m))"
  shows "\<exists>m'. sigmap_add_all ops m cs = Inr m' \<and> mfp_ok ops m' \<and>
    mfp_rep m' = join_all (mfp_rep m) (concat (map (\<lambda>(f, t). zip f t) cs))"
  using assms
proof (induction cs arbitrary: m)
  case (Cons c cs)
  obtain f t where c: "c = (f, t)" by (cases c)
  have len: "length f = length t" using Cons.prems(2) c by auto
  have g: "grow_steps ops (2 * length (zip f t) + (2 * sum_list (map (\<lambda>c. length (fst c)) cs) + n)) (capacity (database m))"
    using Cons.prems(3) len by (simp add: c algebra_simps)
  obtain m1 where m1: "sigmap_add_loop ops m (zip f t) = Inr m1" "mfp_ok ops m1" "mfp_rep m1 = join_all (mfp_rep m) (zip f t)"
    "grow_steps ops (2 * sum_list (map (\<lambda>c. length (fst c)) cs) + n) (capacity (database m1))"
    using sigmap_add_loop_ok [OF Cons.prems(1) g] by blast
  have app: "join_all rp (xs @ ys) = join_all (join_all rp xs) ys" for rp xs ys
    by (induction rp xs rule: join_all.induct) auto
  show ?case using Cons.IH [OF m1(2) _ m1(4)] Cons.prems(2) m1(1,3) len by (auto simp: c sigmap_add_def app)
qed auto

lemma mfp_rep_empty: "entries (database m) = [] \<Longrightarrow> mfp_rep m = (\<lambda>x. x)"
  by (simp add: mfp_rep_def rep_of_def fun_eq_iff)

section \<open>Connected bits\<close>

definition connected :: "(SigBit \<times> SigBit) list \<Rightarrow> SigBit \<Rightarrow> SigBit \<Rightarrow> bool" where
  "connected ps = equivclp (\<lambda>x y. (x, y) \<in> set ps)"

lemma join_all_sound:
  assumes "set qs \<subseteq> set ps" "\<And>x. connected ps x (rp x)"
  shows "connected ps x (join_all rp qs x)"
  using assms
proof (induction rp qs arbitrary: x rule: join_all.induct)
  case (2 rp a b qs)
  have ab: "connected ps a b" using 2(2) unfolding connected_def by (intro r_into_equivclp) auto
  have "connected ps x (join_reps rp a b x)" for x
  proof -
    have "connected ps x (rp x)" "connected ps a (rp a)" "connected ps b (rp b)" using 2(3) by auto
    then show ?thesis using ab unfolding join_reps_def connected_def
      by (smt (verit) equivclp_sym equivclp_trans)
  qed
  then show ?case using 2 by auto
qed auto

lemma join_reps_const: "rp (ConstBit s) = ConstBit s \<Longrightarrow> join_reps rp a b (ConstBit s) = ConstBit s"
  by (cases "rp a"; cases "rp b") (simp_all add: join_reps_def)

lemma join_all_const: "(\<And>s. rp (ConstBit s) = ConstBit s) \<Longrightarrow> join_all rp ps (ConstBit s) = ConstBit s"
  by (induction rp ps rule: join_all.induct) (auto simp: join_reps_const)

lemma join_reps_keep: "rp x = rp y \<Longrightarrow> join_reps rp a b x = join_reps rp a b y"
  by (simp add: join_reps_def)

lemma join_all_keep: "rp x = rp y \<Longrightarrow> join_all rp ps x = join_all rp ps y"
  by (induction rp ps rule: join_all.induct) (auto intro: join_reps_keep)

definition no_short :: "(SigBit \<times> SigBit) list \<Rightarrow> bool" where
  "no_short ps \<longleftrightarrow> (\<forall>s t. connected ps (ConstBit s) (ConstBit t) \<longrightarrow> s = t)"

lemma join_all_joins:
  assumes "no_short ps" "set qs \<subseteq> set ps" "\<And>x. connected ps x (rp x)" "(a, b) \<in> set qs"
  shows "join_all rp qs a = join_all rp qs b"
  using assms
proof (induction rp qs rule: join_all.induct)
  case (2 rp c d qs)
  have step: "connected ps x (join_reps rp c d x)" for x
    using join_all_sound [of "[(c, d)]" ps rp x] 2(3,4) by simp
  show ?case
  proof (cases "(a, b) = (c, d)")
    case True
    have "join_reps rp c d c = join_reps rp c d d"
    proof (cases "is_wire (rp c) \<or> is_wire (rp d)")
      case False
      then obtain s t where st: "rp c = ConstBit s" "rp d = ConstBit t" by (cases "rp c"; cases "rp d") auto
      have "connected ps c d" using 2(3) unfolding connected_def by (intro r_into_equivclp) auto
      then have "connected ps (rp c) (rp d)" using 2(4) unfolding connected_def by (meson equivclp_sym equivclp_trans)
      then show ?thesis using st 2(2) by (simp add: no_short_def join_reps_def)
    qed (auto simp: join_reps_def)
    then show ?thesis using True join_all_keep [of "join_reps rp c d" c d qs] by simp
  next
    case False
    then show ?thesis using 2 step by auto
  qed
qed simp

lemma join_all_complete:
  assumes "no_short ps" "connected ps x y"
  shows "join_all (\<lambda>x. x) ps x = join_all (\<lambda>x. x) ps y"
  using assms(2) unfolding connected_def
proof (induction rule: equivclp_induct)
  case (step y z)
  have "connected ps x x" for x by (simp add: connected_def)
  then show ?case
    using step join_all_joins [OF assms(1) subset_refl, of "\<lambda>x. x" y z]
      join_all_joins [OF assms(1) subset_refl, of "\<lambda>x. x" z y] by auto
qed simp

section \<open>Guarantees\<close>

lemma connected_sym: "connected ps x y \<Longrightarrow> connected ps y x"
  unfolding connected_def by (rule equivclp_sym)

lemma connected_trans: "connected ps x y \<Longrightarrow> connected ps y z \<Longrightarrow> connected ps x z"
  unfolding connected_def by (rule equivclp_trans)

lemma cleared_ok:
  assumes "mfp_ok ops m" "room n"
  shows "mfp_ok ops ((mfp_clear m)\<lparr>database := table_reserve (database (mfp_clear m)) n\<rparr>)"
  using assms
  by (auto simp: mfp_ok_def mfp_clear_def table_clear_def table_reserve_def table_ok_def table_wf_def chains_def
      forest_def max_def)



end
