(* ===== verification/Odict.thy ===== *)
theory Odict
  imports Hashlib
begin

text \<open>
  Dictionaries and pools as lists. The passes iterate over \<open>dict\<close> and \<open>pool\<close>, so the order
  matters: a list in the order of insertion carries it. The last part shows that the hash tables of
  \<open>Hashlib\<close> implement these lists.
\<close>

section \<open>Operations\<close>

type_synonym ('k, 'v) odict = "('k \<times> 'v) list"

definition od_get :: "('k, 'v) odict \<Rightarrow> 'k \<Rightarrow> 'v option" where
  "od_get d k = map_of d k"

definition od_count :: "('k, 'v) odict \<Rightarrow> 'k \<Rightarrow> bool" where
  "od_count d k \<longleftrightarrow> k \<in> fst ` set d"

definition od_upd :: "('k, 'v) odict \<Rightarrow> 'k \<Rightarrow> 'v \<Rightarrow> ('k, 'v) odict" where
  "od_upd d k v = map (\<lambda>p. if fst p = k then (k, v) else p) d"

definition od_set :: "('k, 'v) odict \<Rightarrow> 'k \<Rightarrow> 'v \<Rightarrow> ('k, 'v) odict" where
  "od_set d k v =
     (if od_count d k then od_upd d k v else d @ [(k, v)])"

definition erase_key :: "('e \<Rightarrow> 'k) \<Rightarrow> 'k \<Rightarrow> 'e list \<Rightarrow> 'e list" where
  "erase_key key k xs =
     (case find (\<lambda>i. key (xs ! i) = k) [0..<length xs] of None \<Rightarrow> xs | Some i \<Rightarrow> swap_out i xs)"

definition op_insert :: "'a list \<Rightarrow> 'a \<Rightarrow> 'a list" where
  "op_insert p x = (if x \<in> set p then p else p @ [x])"

definition op_erase :: "'a list \<Rightarrow> 'a \<Rightarrow> 'a list" where
  "op_erase p x = erase_key (\<lambda>x. x) x p"

abbreviation iterate :: "'a list \<Rightarrow> 'a list" where
  "iterate \<equiv> rev"

section \<open>Laws\<close>

lemma od_upd_get: "map_of (od_upd d k v) k' = (if k' = k \<and> od_count d k then Some v else map_of d k')"
  by (induction d) (auto simp: od_upd_def od_count_def rev_image_eqI)

lemma od_upd_keys [simp]: "map fst (od_upd d k v) = map fst d"
  by (simp add: od_upd_def)

lemma od_get_set: "od_get (od_set d k v) k' = (if k' = k then Some v else od_get d k')"
proof (cases "od_count d k")
  case False
  then have "map_of d k = None" by (simp add: od_count_def map_of_eq_None_iff)
  with False show ?thesis by (simp add: od_set_def od_get_def map_add_def split: option.split)
qed (simp add: od_set_def od_get_def od_upd_get)

lemma od_count_get: "od_count d k \<longleftrightarrow> od_get d k \<noteq> None"
  by (simp add: od_count_def od_get_def map_of_eq_None_iff)

lemma od_keys_set: "map fst (od_set d k v) = op_insert (map fst d) k"
  by (simp add: od_set_def op_insert_def od_count_def)

lemma op_insert_set [simp]: "set (op_insert p x) = insert x (set p)"
  by (auto simp: op_insert_def)

lemma op_insert_distinct [simp]: "distinct p \<Longrightarrow> distinct (op_insert p x)"
  by (simp add: op_insert_def)

lemma find_index_cases:
  obtains (present) i where "find (\<lambda>i. P (xs ! i)) [0..<length xs] = Some i" "i < length xs" "P (xs ! i)"
  | (absent) "find (\<lambda>i. P (xs ! i)) [0..<length xs] = None" "\<forall>x \<in> set xs. \<not> P x"
proof (cases "find (\<lambda>i. P (xs ! i)) [0..<length xs]")
  case None
  then show thesis using absent by (force simp: find_None_iff in_set_conv_nth)
next
  case (Some i)
  then have "i < length xs" "P (xs ! i)" by (auto simp: find_Some_iff)
  with Some show thesis by (rule present)
qed

lemma op_erase_set: "distinct p \<Longrightarrow> set (op_erase p x) = set p - {x}"
  and op_erase_distinct: "distinct p \<Longrightarrow> distinct (op_erase p x)"
  by (cases rule: find_index_cases [of "\<lambda>y. y = x" p]; auto simp: op_erase_def erase_key_def set_swap_out)+

lemma erase_key_ok:
  assumes "distinct (map f d)"
  shows "set (erase_key f k d) = {p \<in> set d. f p \<noteq> k}" and "distinct (map f (erase_key f k d))"
proof -
  have d: "distinct d" using assms by (simp add: distinct_map)
  have inj: "inj_on f (set d)" using assms by (simp add: distinct_map)
  have "set (erase_key f k d) = {p \<in> set d. f p \<noteq> k} \<and> distinct (erase_key f k d)"
  proof (cases rule: find_index_cases [of "\<lambda>p. f p = k" d])
    case (present i)
    then have "p = d ! i" if "p \<in> set d" "f p = k" for p using inj_onD [OF inj, of p "d ! i"] that by simp
    then show ?thesis using present set_swap_out [OF d present(2)] by (auto simp: erase_key_def)
  next
    case absent
    then show ?thesis using d by (auto simp: erase_key_def)
  qed
  then show "set (erase_key f k d) = {p \<in> set d. f p \<noteq> k}" "distinct (map f (erase_key f k d))"
    using inj by (auto simp: distinct_map intro: inj_on_subset)
qed

lemma od_get_erase:
  assumes "distinct (map fst d)"
  shows "od_get (erase_key fst k d) k' = (if k' = k then None else od_get d k')"
proof -
  note e = erase_key_ok [OF assms, of k]
  show ?thesis
  proof (cases "od_get d k'")
    case None
    then have "od_get (erase_key fst k d) k' = None" using e(1) by (auto simp: od_get_def map_of_eq_None_iff)
    with None show ?thesis by simp
  next
    case (Some v)
    then have "(k', v) \<in> set d" by (simp add: od_get_def map_of_SomeD)
    then show ?thesis using e Some by (cases "k' = k") (auto simp: od_get_def map_of_eq_None_iff)
  qed
qed

lemma od_set_distinct: "distinct (map fst d) \<Longrightarrow> distinct (map fst (od_set d k v))"
  by (simp add: od_keys_set)

section \<open>The hash tables refine the lists\<close>

lemma table_insert_refines:
  assumes "table_ok ops t" "can_grow ops t" "key_of ops = (\<lambda>k. k)"
  shows "\<exists>t' i b. table_insert ops t x = Inr (t', i, b) \<and> table_ok ops t' \<and>
    map udata (entries t') = op_insert (map udata (entries t)) x \<and> b = (x \<notin> set (map udata (entries t)))"
proof -
  have dom: "table_map ops t x = None \<longleftrightarrow> x \<notin> set (map udata (entries t))"
    using pool_dom [OF assms(1,3)] by (auto simp: domIff)
  obtain t' i where "table_insert ops t x = Inr (t', i, table_map ops t x = None)" "table_ok ops t'"
    "map udata (entries t') = map udata (entries t) @ (if table_map ops t x = None then [x] else [])"
    using table_insert_ok [OF assms(1,2), of x, unfolded assms(3)] by blast
  then show ?thesis unfolding dom by (simp add: op_insert_def)
qed

lemma table_erase_refines:
  assumes "table_ok ops t"
  shows "\<exists>t' n. table_erase ops t k = Inr (t', n) \<and> table_ok ops t' \<and>
    map udata (entries t') = erase_key (key_of ops) k (map udata (entries t))"
proof -
  have wf: "table_wf ops t" and rm: "room (capacity t)" using assms(1) by (simp_all add: table_ok_def)
  obtain t1 where t1: "do_lookup ops t k (do_hash ops (hashtable t) k) =
       Inr (t1, do_hash ops (hashtable t1) k, index_of ops (entries t) k)"
    "table_wf ops t1" "capacity t1 = capacity t" "map udata (entries t1) = map udata (entries t)"
    using do_lookup_ok [OF wf rm] by metis
  have ok1: "table_ok ops t1" using t1 rm by (simp add: table_ok_def)
  have len: "length (entries t1) = length (entries t)" using arg_cong [OF t1(4), of length] by simp
  have idx: "index_of ops (entries t) k =
      (case find (\<lambda>i. key_of ops (map udata (entries t) ! i) = k) [0..<length (map udata (entries t))] of
         None \<Rightarrow> -1 | Some i \<Rightarrow> int i)"
    unfolding index_of_def entry_key_def length_map
    by (intro arg_cong [of _ _ "\<lambda>x. case x of None \<Rightarrow> -1 | Some i \<Rightarrow> int i"] find_cong) auto
  show ?thesis
  proof (cases rule: find_index_cases [of "\<lambda>e. key_of ops e = k" "map udata (entries t)"])
    case (present i)
    then have i: "i < length (entries t1)" "entry_key ops (entries t1) i = k"
      using len nth_map [of i "entries t1" udata] t1(4) by (simp_all add: entry_key_def)
    obtain t2 where t2: "do_erase ops t1 (int i) (do_hash ops (hashtable t1) (entry_key ops (entries t1) i)) = Inr (t2, 1)"
      "table_ok ops t2" "map udata (entries t2) = swap_out i (map udata (entries t1))"
      using erase_at_ok [OF ok1 i(1)] by metis
    then show ?thesis using t1 present(1) idx i by (simp add: table_erase_def erase_key_def)
  next
    case absent
    then have "do_erase ops t1 (-1) (do_hash ops (hashtable t1) k) = Inr (t1, 0)"
      by (simp add: do_erase_def)
    then show ?thesis using t1 absent(1) idx ok1 by (simp add: table_erase_def erase_key_def)
  qed
qed

lemma od_upd_nth:
  assumes "distinct (map fst d)" "i < length d" "fst (d ! i) = k"
  shows "d[i := (k, v)] = od_upd d k v"
proof (rule nth_equalityI)
  fix j assume "j < length (d[i := (k, v)])"
  then show "d[i := (k, v)] ! j = od_upd d k v ! j"
    using assms by (auto simp: od_upd_def nth_list_update distinct_conv_nth)
qed (simp add: od_upd_def)

lemma dict_set_refines:
  assumes "table_ok ops t" "can_grow ops t" "key_of ops = fst"
  shows "\<exists>t'. dict_set ops d t k v = Inr t' \<and> table_ok ops t' \<and>
    map udata (entries t') = od_set (map udata (entries t)) k v"
proof -
  have sub: "dict_subscript ops d t k = rmap (\<lambda>(t, i, _). (t, i)) (table_insert ops t (k, d))"
    using assms(3)
    by (auto simp: dict_subscript_def table_insert_def rmap_def rbind_def split: sum.splits prod.splits)
  obtain t1 i where t1: "table_insert ops t (k, d) = Inr (t1, i, table_map ops t k = None)"
    "table_ok ops t1" "0 \<le> i" "i < int (length (entries t1))" "fst (udata (entries t1 ! nat i)) = k"
    "map udata (entries t1) = map udata (entries t) @ (if table_map ops t k = None then [(k, d)] else [])"
    using table_insert_ok [OF assms(1,2), of "(k, d)", unfolded assms(3) fst_conv] by blast
  have n: "nat i < length (entries t1)" using t1(3,4) by simp
  have wf1: "table_wf ops t1" using t1(2) by (simp add: table_ok_def)
  have dk: "distinct (map fst (map udata (entries t1)))" using wf_distinct [OF wf1] assms(3) by (simp add: o_def)
  have count: "od_count (map udata (entries t)) k \<longleftrightarrow> table_map ops t k \<noteq> None"
    using assms(3) by (force simp: od_count_def table_map_def map_of_eq_None_iff)
  have "map udata (entries (dict_store t1 i v)) = (map udata (entries t1))[nat i := (k, v)]"
    using t1(5) by (simp add: dict_store_def map_update)
  also have "\<dots> = od_upd (map udata (entries t1)) k v"
    using od_upd_nth [OF dk, of "nat i" k v] n t1(5) by simp
  also have "\<dots> = od_set (map udata (entries t)) k v"
    using count t1(6) map_idI [of "map udata (entries t)" "\<lambda>p. if fst p = k then (k, v) else p"]
    by (auto simp: od_set_def od_upd_def od_count_def)
  finally show ?thesis
    using sub t1(1) dict_store_ok(1) [OF t1(2) assms(3) t1(3,4)] by (auto simp: dict_set_def)
qed


section \<open>Guarantees\<close>

text \<open>C39: The hash tables behave as lists in the order of insertion, iterated from the back: storing a new key
  appends it, storing a known key changes its value in place, and erasing a key moves the last
  entry into the gap. The models of the passes use the lists.\<close>

theorem table_refines_list:
  assumes "table_ok ops t" "can_grow ops t" "key_of ops = fst"
  shows "(\<exists>t'. dict_set ops d t k v = Inr t' \<and> table_ok ops t' \<and>
      table_iterate t' = iterate (od_set (iterate (table_iterate t)) k v)) \<and>
    (\<exists>t' n. table_erase ops t k = Inr (t', n) \<and> table_ok ops t' \<and>
      table_iterate t' = iterate (erase_key fst k (iterate (table_iterate t))))"
proof -
  have it: "iterate (table_iterate t) = map udata (entries t)"
    "table_iterate u = iterate (map udata (entries u))" for u :: "('a, 'b) dict"
    by (simp_all add: table_iterate_def rev_map)
  show ?thesis
    using dict_set_refines [OF assms, of d k v] table_erase_refines [OF assms(1), of k] assms(3)
    unfolding it by auto
qed

theorem table_refines_list_witness:
  "\<exists>t'. dict_set (dict_ops (\<lambda>_. 7) Suc) 0 table_empty CHR ''a'' (5 :: nat) = Inr t' \<and>
    table_iterate t' = [(CHR ''a'', 5)]"
proof -
  let ?ops = "dict_ops (\<lambda>_. 7) Suc :: (char, char \<times> nat) table_ops"
  have "can_grow ?ops table_empty" "key_of ?ops = fst"
    by (simp_all add: empty_grows dict_ops_def room_def hashtable_size_factor_def max_prime_def)
  from table_refines_list [OF empty_ok this, of 0 "CHR ''a''" 5] show ?thesis
    by (auto simp: table_iterate_def empty_entries od_set_def od_count_def)
qed

end
