(* ===== verification/Guide_Shared.thy ===== *)
theory Guide_Shared
  imports Rtlil_Const "HOL-Library.Sublist" "HOL-Library.List_Lexorder" "HOL-Library.Char_ord" "HOL-Library.Multiset"
begin

text \<open>
  The data types of \<open>passes/guide/check/shared.h\<close>, the helpers on names and paths of
  \<open>passes/guide/check/core.cc\<close>, and the values of \<open>libs/json11\<close> as far as the guide passes read and
  build them. An identifier is its string. The type variable \<open>'d\<close> stands for \<open>double\<close>: the
  operations on it are the fields of \<open>fp_ops\<close>, so that nothing depends on how numbers are rounded.
\<close>

section \<open>Strings\<close>

text \<open>\<open>s.find(sub) != npos\<close>.\<close>

fun contains :: "string \<Rightarrow> string \<Rightarrow> bool" where
  "contains [] sub = (sub = [])"
| "contains (c # s) sub = (prefix sub (c # s) \<or> contains s sub)"

lemma contains_sublist: "contains s sub \<longleftrightarrow> sublist sub s"
  by (induction s) (auto simp: sublist_Cons_right)

lemma contains_trans: "contains s t \<Longrightarrow> contains t u \<Longrightarrow> contains s u"
  unfolding contains_sublist sublist_def by (metis append.assoc)

text \<open>The positions \<open>find_last_of\<close> returns.\<close>

definition find_last_of :: "string \<Rightarrow> char \<Rightarrow> nat option" where
  "find_last_of s ch =
     (let is = filter (\<lambda>i. s ! i = ch) [0..<length s] in if is = [] then None else Some (last is))"

definition isalnum :: "char \<Rightarrow> bool" where
  "isalnum ch = (let n = (of_char ch :: nat) in (48 \<le> n \<and> n \<le> 57) \<or> (65 \<le> n \<and> n \<le> 90) \<or> (97 \<le> n \<and> n \<le> 122))"

definition to_lower :: "char \<Rightarrow> char" where
  "to_lower ch = (let n = (of_char ch :: nat) in if 65 \<le> n \<and> n \<le> 90 then char_of (n + 32) else ch)"

fun digits_loop :: "nat \<Rightarrow> string \<Rightarrow> string" where
  "digits_loop n acc =
     (let acc = char_of (48 + n mod 10) # acc in if n < 10 then acc else digits_loop (n div 10) acc)"

declare digits_loop.simps [simp del]

definition to_string :: "int \<Rightarrow> string" where
  "to_string n = (if n < 0 then CHR ''-'' # digits_loop (nat (- n)) [] else digits_loop (nat n) [])"

section \<open>Names and paths\<close>

definition strip_backslash :: "string \<Rightarrow> string" where
  "strip_backslash s = (case s of c # s' \<Rightarrow> if c = CHR 0x5C then s' else s | [] \<Rightarrow> [])"

definition escape_id :: "string \<Rightarrow> string" where
  "escape_id s = (case s of c # s' \<Rightarrow> if c \<noteq> CHR 0x5C \<and> c \<noteq> CHR ''$'' then CHR 0x5C # s else s | [] \<Rightarrow> [])"

definition unescape_id :: "string \<Rightarrow> string" where
  "unescape_id s = (case s of
     c # d # s' \<Rightarrow>
       if c = CHR 0x5C \<and> d \<noteq> CHR ''$'' \<and> d \<noteq> CHR 0x5C \<and> \<not> (CHR ''0'' \<le> d \<and> d \<le> CHR ''9'')
       then d # s' else s
   | _ \<Rightarrow> s)"

definition safe_char :: "char \<Rightarrow> bool" where
  "safe_char ch \<longleftrightarrow> isalnum ch \<or> ch = CHR ''_'' \<or> ch = CHR ''-'' \<or> ch = CHR ''.''"

definition sanitize_filename :: "string \<Rightarrow> string" where
  "sanitize_filename s = map (\<lambda>ch. if safe_char ch then ch else CHR ''_'') s"

definition path_dirname :: "string \<Rightarrow> string" where
  "path_dirname path = (case find_last_of path CHR ''/'' of None \<Rightarrow> ''.'' | Some pos \<Rightarrow> take pos path)"

definition pair_artifact_path :: "string \<Rightarrow> string \<Rightarrow> string \<Rightarrow> string \<Rightarrow> string \<Rightarrow> string" where
  "pair_artifact_path dir_name pre gold_name gate_name ext =
     dir_name @ ''/'' @ pre @ ''_'' @ sanitize_filename (strip_backslash gold_name) @ ''_'' @
     sanitize_filename (strip_backslash gate_name) @ ext"

definition get_pair_id :: "string \<Rightarrow> string \<Rightarrow> string" where
  "get_pair_id gold_mod gate_mod = strip_backslash gold_mod @ ''__vs__'' @ strip_backslash gate_mod"

section \<open>Floating point operations\<close>

record 'd fp_ops =
  fp_of_int :: "int \<Rightarrow> 'd"
  fp_to_int :: "'d \<Rightarrow> int"
  fp_add :: "'d \<Rightarrow> 'd \<Rightarrow> 'd"
  fp_sub :: "'d \<Rightarrow> 'd \<Rightarrow> 'd"
  fp_mul :: "'d \<Rightarrow> 'd \<Rightarrow> 'd"
  fp_less :: "'d \<Rightarrow> 'd \<Rightarrow> bool"
  fp_le :: "'d \<Rightarrow> 'd \<Rightarrow> bool"
  fp_eq :: "'d \<Rightarrow> 'd \<Rightarrow> bool"

abbreviation fp_bool :: "'d fp_ops \<Rightarrow> bool \<Rightarrow> 'd" where
  "fp_bool fp b \<equiv> (if b then fp_of_int fp 1 else fp_of_int fp 0)"

text \<open>An arithmetic the operations can be run with.\<close>

definition int_fp :: "int fp_ops" where
  "int_fp = \<lparr>fp_of_int = \<lambda>n. n, fp_to_int = \<lambda>n. n, fp_add = (+), fp_sub = (-), fp_mul = (*), fp_less = (<),
     fp_le = (\<le>), fp_eq = (=)\<rparr>"

section \<open>JSON values\<close>

datatype 'd Json =
  JNull | JNum 'd | JInt int | JBool bool | JStr string | JArr "'d Json list" | JObj "(string \<times> 'd Json) list"

fun string_value :: "'d Json \<Rightarrow> string" where
  "string_value (JStr s) = s"
| "string_value _ = []"

fun number_value :: "'d fp_ops \<Rightarrow> 'd Json \<Rightarrow> 'd" where
  "number_value fp (JNum x) = x"
| "number_value fp (JInt n) = fp_of_int fp n"
| "number_value fp _ = fp_of_int fp 0"

fun int_value :: "'d fp_ops \<Rightarrow> 'd Json \<Rightarrow> int" where
  "int_value fp (JNum x) = fp_to_int fp x"
| "int_value fp (JInt n) = n"
| "int_value fp _ = 0"

fun bool_value :: "'d Json \<Rightarrow> bool" where
  "bool_value (JBool b) = b"
| "bool_value _ = False"

fun array_items :: "'d Json \<Rightarrow> 'd Json list" where
  "array_items (JArr xs) = xs"
| "array_items _ = []"

fun object_items :: "'d Json \<Rightarrow> (string \<times> 'd Json) list" where
  "object_items (JObj xs) = xs"
| "object_items _ = []"

fun is_string :: "'d Json \<Rightarrow> bool" where
  "is_string (JStr _) = True"
| "is_string _ = False"

fun is_array :: "'d Json \<Rightarrow> bool" where
  "is_array (JArr _) = True"
| "is_array _ = False"

fun is_object :: "'d Json \<Rightarrow> bool" where
  "is_object (JObj _) = True"
| "is_object _ = False"

definition json_get :: "'d Json \<Rightarrow> string \<Rightarrow> 'd Json" where
  "json_get j key = (case map_of (object_items j) key of None \<Rightarrow> JNull | Some v \<Rightarrow> v)"

section \<open>The records\<close>

record SeqCheckConfig =
  k_induct :: int
  step_skip :: int
  weak_mode :: bool
  no_init :: bool

record MlDumpConfig =
  dump_sched :: bool
  dump_match :: bool
  dump_fail :: bool
  sched_jsonl :: string
  match_jsonl :: string
  fail_jsonl :: string

record PairRecord =
  pr_pair_id :: string
  pr_gold_mod :: string
  pr_gate_mod :: string
  gold_dff_cnt :: int
  gate_dff_cnt :: int
  has_submodule :: bool
  retimed :: bool
  mul_touched :: bool
  bb_const_in_cnt :: int

record MatchStats =
  exact_total :: int
  pi_cnt :: int
  po_cnt :: int
  dff_cnt :: int
  dff_po_cnt :: int
  subckt_cnt :: int
  unmatched_gold :: int
  unmatched_gate :: int
  match_file :: string

record 'd RunRecord =
  rr_pair_id :: string
  rr_action :: string
  rr_exit_status :: int
  rr_result_code :: int
  rr_proof_outcome :: string
  rr_runtime_ms :: 'd
  rr_log_file :: string

record 'd CommandResult =
  exit_status :: int
  raw_result_code :: int
  result_code :: int
  proof_outcome :: string
  runtime_ms :: 'd
  cr_output :: string
  log_file :: string

datatype MatchType = MT_NONE | PO | PI | DFF | DFF_PO | SUBCKT_PIPO

datatype ActionKind = CEC_MAP | CEC_NOMAP | DSEC_MAP | DSEC_NOMAP

definition PairRecord_init :: PairRecord where
  "PairRecord_init = \<lparr>pr_pair_id = [], pr_gold_mod = [], pr_gate_mod = [], gold_dff_cnt = 0,
     gate_dff_cnt = 0, has_submodule = False, retimed = False, mul_touched = False, bb_const_in_cnt = 0\<rparr>"

definition MatchStats_init :: MatchStats where
  "MatchStats_init = \<lparr>exact_total = 0, pi_cnt = 0, po_cnt = 0, dff_cnt = 0, dff_po_cnt = 0,
     subckt_cnt = 0, unmatched_gold = 0, unmatched_gate = 0, match_file = []\<rparr>"

definition CommandResult_init :: "'d fp_ops \<Rightarrow> 'd CommandResult" where
  "CommandResult_init fp = \<lparr>exit_status = -1, raw_result_code = 0, result_code = 0, proof_outcome = [],
     runtime_ms = fp_of_int fp 0, cr_output = [], log_file = []\<rparr>"

fun get_match_type_str :: "MatchType \<Rightarrow> string" where
  "get_match_type_str MT_NONE = ''NONE''"
| "get_match_type_str PO = ''PO''"
| "get_match_type_str PI = ''PI''"
| "get_match_type_str DFF = ''DFF''"
| "get_match_type_str DFF_PO = ''DFF_PO''"
| "get_match_type_str SUBCKT_PIPO = ''SUBCKT_PIPO''"

fun get_action_name :: "ActionKind \<Rightarrow> string" where
  "get_action_name CEC_MAP = ''cec_map''"
| "get_action_name CEC_NOMAP = ''cec_nomap''"
| "get_action_name DSEC_MAP = ''dsec_map''"
| "get_action_name DSEC_NOMAP = ''dsec_nomap''"

lemma get_action_name_inj [simp]: "get_action_name a = get_action_name b \<longleftrightarrow> a = b"
  by (cases a; cases b) simp_all

section \<open>The records as JSON\<close>

definition match_stats_to_json :: "MatchStats \<Rightarrow> 'd Json" where
  "match_stats_to_json stats = JObj
     [(''exact_total'', JInt (exact_total stats)), (''pi_cnt'', JInt (pi_cnt stats)),
      (''po_cnt'', JInt (po_cnt stats)), (''dff_cnt'', JInt (dff_cnt stats)),
      (''dff_po_cnt'', JInt (dff_po_cnt stats)), (''subckt_cnt'', JInt (subckt_cnt stats)),
      (''unmatched_gold'', JInt (unmatched_gold stats)), (''unmatched_gate'', JInt (unmatched_gate stats)),
      (''match_file'', JStr (match_file stats))]"

definition pair_record_to_json :: "PairRecord \<Rightarrow> 'd Json" where
  "pair_record_to_json r = JObj
     [(''pair_id'', JStr (pr_pair_id r)), (''gold_mod'', JStr (pr_gold_mod r)),
      (''gate_mod'', JStr (pr_gate_mod r)), (''gold_dff_cnt'', JInt (gold_dff_cnt r)),
      (''gate_dff_cnt'', JInt (gate_dff_cnt r)), (''has_submodule'', JBool (has_submodule r)),
      (''retimed'', JBool (retimed r)), (''mul_touched'', JBool (mul_touched r)),
      (''bb_const_in_cnt'', JInt (bb_const_in_cnt r))]"

definition run_record_to_json :: "'d RunRecord \<Rightarrow> 'd Json" where
  "run_record_to_json r = JObj
     [(''pair_id'', JStr (rr_pair_id r)), (''action'', JStr (rr_action r)),
      (''exit_status'', JInt (rr_exit_status r)), (''result_code'', JInt (rr_result_code r)),
      (''proof_outcome'', JStr (rr_proof_outcome r)), (''runtime_ms'', JNum (rr_runtime_ms r)),
      (''log_file'', JStr (rr_log_file r))]"

section \<open>Names can be used as file names\<close>

lemma sanitize_filename_safe: "list_all safe_char (sanitize_filename s)"
  by (auto simp: sanitize_filename_def list_all_iff safe_char_def)

lemma sanitize_filename_idem: "sanitize_filename (sanitize_filename s) = sanitize_filename s"
  by (simp add: sanitize_filename_def safe_char_def)

lemma sanitize_filename_id: "list_all safe_char s \<Longrightarrow> sanitize_filename s = s"
  by (induction s) (simp_all add: sanitize_filename_def)

lemma strip_escape_id: "s \<noteq> [] \<Longrightarrow> hd s \<noteq> CHR 0x5C \<Longrightarrow> strip_backslash (escape_id s) = s"
  by (cases s) (auto simp: strip_backslash_def escape_id_def)

section \<open>Printed numbers\<close>

definition digit_step :: "nat \<Rightarrow> char \<Rightarrow> nat" where
  "digit_step a ch = 10 * a + (of_char ch - 48)"

lemma digits_value: "foldl digit_step 0 (digits_loop n acc) = foldl digit_step n acc"
proof (induction n acc rule: digits_loop.induct)
  case (1 n acc)
  have d: "digit_step a (char_of (48 + n mod 10)) = 10 * a + n mod 10" for a
    using pos_mod_bound [of 10 "int n"] by (simp add: digit_step_def of_char_of)
  show ?case
  proof (cases "n < 10")
    case True
    then show ?thesis using d [of 0] by (simp add: digits_loop.simps [of n])
  next
    case False
    then show ?thesis using 1 d by (simp add: digits_loop.simps [of n] Let_def)
  qed
qed

lemma to_string_inj:
  assumes "0 \<le> m" "0 \<le> n"
  shows "to_string m = to_string n \<longleftrightarrow> m = n"
proof
  assume "to_string m = to_string n"
  then have "digits_loop (nat m) [] = digits_loop (nat n) []" using assms by (simp add: to_string_def)
  then have "foldl digit_step 0 (digits_loop (nat m) []) = foldl digit_step 0 (digits_loop (nat n) [])" by (rule arg_cong)
  then have "nat m = nat n" unfolding digits_value foldl_Nil .
  then show "m = n" using assms by simp
qed simp

section \<open>Sorting with a comparison function\<close>

fun insert_by :: "('a \<Rightarrow> 'a \<Rightarrow> bool) \<Rightarrow> 'a \<Rightarrow> 'a list \<Rightarrow> 'a list" where
  "insert_by lt x [] = [x]"
| "insert_by lt x (y # ys) = (if lt y x then y # insert_by lt x ys else x # y # ys)"

text \<open>\<open>std::sort\<close> with a comparison function.\<close>

definition sort_by :: "('a \<Rightarrow> 'a \<Rightarrow> bool) \<Rightarrow> 'a list \<Rightarrow> 'a list" where
  "sort_by lt xs = foldr (insert_by lt) xs []"

lemma insert_by_mset [simp]: "mset (insert_by lt x ys) = add_mset x (mset ys)"
  by (induction ys) auto

lemma sort_by_mset: "mset (sort_by lt xs) = mset xs"
  by (induction xs) (simp_all add: sort_by_def)

lemma sort_by_set: "set (sort_by lt xs) = set xs"
  by (metis set_mset_mset sort_by_mset)

lemma sort_by_length [simp]: "length (sort_by lt xs) = length xs"
  by (metis size_mset sort_by_mset)

lemma insert_by_set: "set (insert_by lt x ys) = insert x (set ys)"
  by (metis insert_by_mset set_mset_add_mset_insert set_mset_mset)

definition strict_on :: "'a set \<Rightarrow> ('a \<Rightarrow> 'a \<Rightarrow> bool) \<Rightarrow> bool" where
  "strict_on A lt \<longleftrightarrow> (\<forall>x \<in> A. \<not> lt x x) \<and> (\<forall>x \<in> A. \<forall>y \<in> A. \<forall>z \<in> A. lt x y \<longrightarrow> lt y z \<longrightarrow> lt x z) \<and>
     (\<forall>x \<in> A. \<forall>y \<in> A. x \<noteq> y \<longrightarrow> lt x y \<or> lt y x)"

lemma insert_by_sorted:
  assumes "strict_on A lt" "insert x (set ys) \<subseteq> A" "sorted_wrt lt ys" "x \<notin> set ys"
  shows "sorted_wrt lt (insert_by lt x ys)"
  using assms(2-4)
proof (induction ys)
  case (Cons y ys)
  then have xy: "x \<in> A" "y \<in> A" "x \<noteq> y" and sub: "set ys \<subseteq> A" by auto
  show ?case
  proof (cases "lt y x")
    case True
    then show ?thesis using Cons by (auto simp: insert_by_set)
  next
    case False
    then have "lt x y" using assms(1) xy unfolding strict_on_def by blast
    moreover have "lt x z" if "z \<in> set ys" for z
    proof -
      have "lt y z" "z \<in> A" using Cons.prems(2) that sub by auto
      then show ?thesis using \<open>lt x y\<close> assms(1) xy unfolding strict_on_def by blast
    qed
    ultimately show ?thesis using False Cons.prems by auto
  qed
qed simp

lemma sort_by_sorted:
  assumes "strict_on (set xs) lt" "distinct xs"
  shows "sorted_wrt lt (sort_by lt xs)"
proof -
  have "set zs \<subseteq> set xs \<Longrightarrow> distinct zs \<Longrightarrow> sorted_wrt lt (sort_by lt zs)" for zs
  proof (induction zs)
    case (Cons z zs)
    then show ?case
      using insert_by_sorted [OF assms(1), of z "sort_by lt zs"] sort_by_set [of lt zs]
      by (simp add: sort_by_def)
  qed (simp add: sort_by_def)
  then show ?thesis using assms(2) by blast
qed

end
