(* ===== verification/Netlist.thy ===== *)
theory Netlist
  imports CellTypes Sigtools Odict Guide_Shared
begin

text \<open>
  Designs as far as the guide passes read and change them: wires, cells, connections and boolean
  attributes of modules, with the operations of \<open>kernel/rtlil.cc\<close> on them. Objects are values and
  are found by their names; wires and cells are kept in the order of insertion (theory \<open>Odict\<close>) and
  iterated from the back. Modules are not in the buffered normal form, no monitors are registered
  and tracing is off.
\<close>

section \<open>The objects\<close>

record Wire =
  w_name :: string
  w_width :: nat
  port_id :: nat
  port_input :: bool
  port_output :: bool

record NCell =
  c_name :: string
  c_type :: string
  c_conns :: "(string, SigSpec) odict"
  c_params :: "(string, Const) odict"
  c_attrs :: "(string, Const) odict"

type_synonym SigSig = "SigSpec \<times> SigSpec"

text \<open>\<open>m_others\<close> are the names of the memories and processes.\<close>

record Module =
  m_name :: string
  m_wires :: "Wire list"
  m_cells :: "NCell list"
  m_connections :: "SigSig list"
  m_others :: "string list"
  m_ports :: "string list"
  m_attrs :: "(string, Const) odict"

type_synonym Design = "Module list"

section \<open>Attributes\<close>

definition set_bool_attribute :: "Module \<Rightarrow> string \<Rightarrow> bool \<Rightarrow> Module" where
  "set_bool_attribute m attr v = m\<lparr>m_attrs :=
     (if v then od_set (m_attrs m) attr (const_of_ll 1) else erase_key fst attr (m_attrs m))\<rparr>"

definition get_bool_attribute :: "Module \<Rightarrow> string \<Rightarrow> bool" where
  "get_bool_attribute m attr = (case od_get (m_attrs m) attr of None \<Rightarrow> False | Some c \<Rightarrow> as_bool c)"

section \<open>Designs\<close>

definition design_module :: "Design \<Rightarrow> string \<Rightarrow> Module option" where
  "design_module d name = find (\<lambda>m. m_name m = name) d"

definition design_modules :: "Design \<Rightarrow> Module list" where
  "design_modules d = iterate d"

definition design_add :: "Design \<Rightarrow> Module \<Rightarrow> Design result" where
  "design_add d m = (if design_module d (m_name m) \<noteq> None then Inl AssertFail else Inr (d @ [m]))"

definition design_remove :: "Design \<Rightarrow> string \<Rightarrow> Design result" where
  "design_remove d name =
     (if design_module d name = None then Inl OutOfRange else Inr (erase_key m_name name d))"

text \<open>Writing back a module that was changed in place.\<close>

definition design_update :: "Design \<Rightarrow> Module \<Rightarrow> Design" where
  "design_update d m = map (\<lambda>m'. if m_name m' = m_name m then m else m') d"

section \<open>Modules\<close>

definition module_wire :: "Module \<Rightarrow> string \<Rightarrow> Wire option" where
  "module_wire m name = find (\<lambda>w. w_name w = name) (m_wires m)"

definition module_cell :: "Module \<Rightarrow> string \<Rightarrow> NCell option" where
  "module_cell m name = find (\<lambda>c. c_name c = name) (m_cells m)"

definition count_id :: "Module \<Rightarrow> string \<Rightarrow> nat" where
  "count_id m name = of_bool (module_wire m name \<noteq> None) + of_bool (module_cell m name \<noteq> None) +
     of_bool (name \<in> set (m_others m))"

definition add_wire :: "Module \<Rightarrow> string \<Rightarrow> nat \<Rightarrow> Module result" where
  "add_wire m name width =
     (if name = [] \<or> count_id m name \<noteq> 0 then Inl AssertFail
      else Inr (m\<lparr>m_wires := m_wires m @
        [\<lparr>w_name = name, w_width = width, port_id = 0, port_input = False, port_output = False\<rparr>]\<rparr>))"

definition set_wire_ports :: "Module \<Rightarrow> string \<Rightarrow> bool \<Rightarrow> bool \<Rightarrow> Module" where
  "set_wire_ports m name inp out = m\<lparr>m_wires :=
     map (\<lambda>w. if w_name w = name then w\<lparr>port_input := inp, port_output := out\<rparr> else w) (m_wires m)\<rparr>"

definition add_cell :: "Module \<Rightarrow> NCell \<Rightarrow> Module result" where
  "add_cell m c =
     (if c_name c = [] \<or> count_id m (c_name c) \<noteq> 0 then Inl AssertFail else Inr (m\<lparr>m_cells := m_cells m @ [c]\<rparr>))"

definition remove_cell :: "Module \<Rightarrow> string \<Rightarrow> Module result" where
  "remove_cell m name =
     (if module_cell m name = None then Inl AssertFail
      else Inr (m\<lparr>m_cells := erase_key c_name name (m_cells m)\<rparr>))"

definition sig_of_wire :: "Wire \<Rightarrow> SigSpec" where
  "sig_of_wire w = map (\<lambda>i. WireBit (w_name w) (int i)) [0..<w_width w]"

text \<open>\<open>connect\<close> drops the bits whose left side is a constant and asserts that the widths agree.\<close>

definition connect :: "Module \<Rightarrow> SigSpec \<Rightarrow> SigSpec \<Rightarrow> Module result" where
  "connect m lhs rhs =
     (if list_all is_wire lhs
      then if length lhs \<noteq> length rhs then Inl AssertFail
           else Inr (m\<lparr>m_connections := m_connections m @ [(lhs, rhs)]\<rparr>)
      else if length rhs < length lhs then Inl OutOfRange
      else let keep = filter (\<lambda>(l, _). is_wire l) (zip lhs rhs)
           in if keep = [] then Inr m
              else Inr (m\<lparr>m_connections := m_connections m @ [(map fst keep, map snd keep)]\<rparr>))"

fun uniquify_loop :: "Module \<Rightarrow> string \<Rightarrow> nat \<Rightarrow> nat \<Rightarrow> string result" where
  "uniquify_loop m name index 0 = Inl NonTermination"
| "uniquify_loop m name index (Suc fuel) =
     (let new_name = name @ ''_'' @ to_string (int index)
      in if count_id m new_name = 0 then Inr new_name else uniquify_loop m name (Suc index) fuel)"

text \<open>The fuel is one more than the number of names in use, which is enough (\<open>uniquify_fresh\<close>).\<close>

definition all_ids :: "Module \<Rightarrow> string list" where
  "all_ids m = map w_name (m_wires m) @ map c_name (m_cells m) @ m_others m"

definition uniquify :: "Module \<Rightarrow> string \<Rightarrow> string result" where
  "uniquify m name = (if count_id m name = 0 then Inr name else uniquify_loop m name 1 (Suc (length (all_ids m))))"

text \<open>
  \<open>fixup_ports\<close>: identifiers are ordered by their internal numbers, which is the parameter \<open>idx\<close>.
\<close>

definition fixup_less :: "(string \<Rightarrow> nat) \<Rightarrow> Wire \<Rightarrow> Wire \<Rightarrow> bool" where
  "fixup_less idx a b =
     (if port_id a \<noteq> 0 \<and> port_id b = 0 then True
      else if port_id a = 0 \<and> port_id b \<noteq> 0 then False
      else if port_id a = port_id b then idx (w_name a) < idx (w_name b)
      else port_id a < port_id b)"

definition fixup_ports :: "(string \<Rightarrow> nat) \<Rightarrow> Module \<Rightarrow> Module" where
  "fixup_ports idx m =
     (let all_ports = map w_name (sort_by (fixup_less idx)
            (filter (\<lambda>w. port_input w \<or> port_output w) (iterate (m_wires m))))
      in m\<lparr>m_ports := all_ports,
           m_wires := map (\<lambda>w. w\<lparr>port_id :=
             (case find (\<lambda>i. all_ports ! i = w_name w) [0..<length all_ports] of
                None \<Rightarrow> 0 | Some i \<Rightarrow> Suc i)\<rparr>) (m_wires m)\<rparr>)"

section \<open>Cells\<close>

definition has_port :: "NCell \<Rightarrow> string \<Rightarrow> bool" where
  "has_port c port \<longleftrightarrow> od_count (c_conns c) port"

definition get_port :: "NCell \<Rightarrow> string \<Rightarrow> SigSpec result" where
  "get_port c port = (case od_get (c_conns c) port of None \<Rightarrow> Inl OutOfRange | Some sig \<Rightarrow> Inr sig)"

definition set_port :: "NCell \<Rightarrow> string \<Rightarrow> SigSpec \<Rightarrow> NCell" where
  "set_port c port sig = c\<lparr>c_conns := od_set (c_conns c) port sig\<rparr>"

definition param_bool :: "NCell \<Rightarrow> string \<Rightarrow> bool" where
  "param_bool c name = (case od_get (c_params c) name of None \<Rightarrow> False | Some v \<Rightarrow> as_bool v)"

definition cell_bool_attribute :: "NCell \<Rightarrow> string \<Rightarrow> bool" where
  "cell_bool_attribute c attr = (case od_get (c_attrs c) attr of None \<Rightarrow> False | Some v \<Rightarrow> as_bool v)"

definition set_cell_bool_attribute :: "NCell \<Rightarrow> string \<Rightarrow> bool \<Rightarrow> NCell" where
  "set_cell_bool_attribute c attr v = c\<lparr>c_attrs :=
     (if v then od_set (c_attrs c) attr (const_of_ll 1) else erase_key fst attr (c_attrs c))\<rparr>"

definition builtin_ff_cell_types :: "string list" where
  "builtin_ff_cell_types = [
     ''$sr'', ''$ff'', ''$dff'', ''$dffe'', ''$dffsr'', ''$dffsre'', ''$adff'', ''$adffe'',
     ''$aldff'', ''$aldffe'', ''$sdff'', ''$sdffe'', ''$sdffce'', ''$dlatch'', ''$adlatch'',
     ''$dlatchsr'', ''$_DFFE_NN_'', ''$_DFFE_NP_'', ''$_DFFE_PN_'', ''$_DFFE_PP_'',
     ''$_DFFSR_NNN_'', ''$_DFFSR_NNP_'', ''$_DFFSR_NPN_'', ''$_DFFSR_NPP_'', ''$_DFFSR_PNN_'',
     ''$_DFFSR_PNP_'', ''$_DFFSR_PPN_'', ''$_DFFSR_PPP_'', ''$_DFFSRE_NNNN_'', ''$_DFFSRE_NNNP_'',
     ''$_DFFSRE_NNPN_'', ''$_DFFSRE_NNPP_'', ''$_DFFSRE_NPNN_'', ''$_DFFSRE_NPNP_'',
     ''$_DFFSRE_NPPN_'', ''$_DFFSRE_NPPP_'', ''$_DFFSRE_PNNN_'', ''$_DFFSRE_PNNP_'',
     ''$_DFFSRE_PNPN_'', ''$_DFFSRE_PNPP_'', ''$_DFFSRE_PPNN_'', ''$_DFFSRE_PPNP_'',
     ''$_DFFSRE_PPPN_'', ''$_DFFSRE_PPPP_'', ''$_DFF_N_'', ''$_DFF_P_'', ''$_DFF_NN0_'',
     ''$_DFF_NN1_'', ''$_DFF_NP0_'', ''$_DFF_NP1_'', ''$_DFF_PN0_'', ''$_DFF_PN1_'',
     ''$_DFF_PP0_'', ''$_DFF_PP1_'', ''$_DFFE_NN0N_'', ''$_DFFE_NN0P_'', ''$_DFFE_NN1N_'',
     ''$_DFFE_NN1P_'', ''$_DFFE_NP0N_'', ''$_DFFE_NP0P_'', ''$_DFFE_NP1N_'', ''$_DFFE_NP1P_'',
     ''$_DFFE_PN0N_'', ''$_DFFE_PN0P_'', ''$_DFFE_PN1N_'', ''$_DFFE_PN1P_'', ''$_DFFE_PP0N_'',
     ''$_DFFE_PP0P_'', ''$_DFFE_PP1N_'', ''$_DFFE_PP1P_'', ''$_ALDFF_NN_'', ''$_ALDFF_NP_'',
     ''$_ALDFF_PN_'', ''$_ALDFF_PP_'', ''$_ALDFFE_NNN_'', ''$_ALDFFE_NNP_'', ''$_ALDFFE_NPN_'',
     ''$_ALDFFE_NPP_'', ''$_ALDFFE_PNN_'', ''$_ALDFFE_PNP_'', ''$_ALDFFE_PPN_'',
     ''$_ALDFFE_PPP_'', ''$_SDFF_NN0_'', ''$_SDFF_NN1_'', ''$_SDFF_NP0_'', ''$_SDFF_NP1_'',
     ''$_SDFF_PN0_'', ''$_SDFF_PN1_'', ''$_SDFF_PP0_'', ''$_SDFF_PP1_'', ''$_SDFFE_NN0N_'',
     ''$_SDFFE_NN0P_'', ''$_SDFFE_NN1N_'', ''$_SDFFE_NN1P_'', ''$_SDFFE_NP0N_'',
     ''$_SDFFE_NP0P_'', ''$_SDFFE_NP1N_'', ''$_SDFFE_NP1P_'', ''$_SDFFE_PN0N_'',
     ''$_SDFFE_PN0P_'', ''$_SDFFE_PN1N_'', ''$_SDFFE_PN1P_'', ''$_SDFFE_PP0N_'',
     ''$_SDFFE_PP0P_'', ''$_SDFFE_PP1N_'', ''$_SDFFE_PP1P_'', ''$_SDFFCE_NN0N_'',
     ''$_SDFFCE_NN0P_'', ''$_SDFFCE_NN1N_'', ''$_SDFFCE_NN1P_'', ''$_SDFFCE_NP0N_'',
     ''$_SDFFCE_NP0P_'', ''$_SDFFCE_NP1N_'', ''$_SDFFCE_NP1P_'', ''$_SDFFCE_PN0N_'',
     ''$_SDFFCE_PN0P_'', ''$_SDFFCE_PN1N_'', ''$_SDFFCE_PN1P_'', ''$_SDFFCE_PP0N_'',
     ''$_SDFFCE_PP0P_'', ''$_SDFFCE_PP1N_'', ''$_SDFFCE_PP1P_'', ''$_SR_NN_'', ''$_SR_NP_'',
     ''$_SR_PN_'', ''$_SR_PP_'', ''$_DLATCH_N_'', ''$_DLATCH_P_'', ''$_DLATCH_NN0_'',
     ''$_DLATCH_NN1_'', ''$_DLATCH_NP0_'', ''$_DLATCH_NP1_'', ''$_DLATCH_PN0_'',
     ''$_DLATCH_PN1_'', ''$_DLATCH_PP0_'', ''$_DLATCH_PP1_'', ''$_DLATCHSR_NNN_'',
     ''$_DLATCHSR_NNP_'', ''$_DLATCHSR_NPN_'', ''$_DLATCHSR_NPP_'', ''$_DLATCHSR_PNN_'',
     ''$_DLATCHSR_PNP_'', ''$_DLATCHSR_PPN_'', ''$_DLATCHSR_PPP_'', ''$_FF_'']"

definition is_builtin_ff :: "NCell \<Rightarrow> bool" where
  "is_builtin_ff c \<longleftrightarrow> c_type c \<in> set builtin_ff_cell_types"

section \<open>The signal map of a module\<close>

definition conn_bits :: "Module \<Rightarrow> (SigBit \<times> SigBit) list" where
  "conn_bits m = concat (map (\<lambda>(lhs, rhs). zip lhs rhs) (m_connections m))"

text \<open>
  \<open>SigMap sigmap(mod)\<close>: the representatives of \<open>Sigtools\<close>, computed without the table.
\<close>

definition module_sigmap :: "Module \<Rightarrow> SigBit \<Rightarrow> SigBit" where
  "module_sigmap m = join_all (\<lambda>x. x) (conn_bits m)"

section \<open>Boolean attributes\<close>

definition set_flag :: "(string, Const) odict \<Rightarrow> string \<Rightarrow> bool \<Rightarrow> (string, Const) odict" where
  "set_flag attrs attr v = (if v then od_set attrs attr (const_of_ll 1) else erase_key fst attr attrs)"

definition get_flag :: "(string, Const) odict \<Rightarrow> string \<Rightarrow> bool" where
  "get_flag attrs attr = (case od_get attrs attr of None \<Rightarrow> False | Some c \<Rightarrow> as_bool c)"

lemma bool_attribute_flags: "set_bool_attribute m attr v = m\<lparr>m_attrs := set_flag (m_attrs m) attr v\<rparr>"
    "get_bool_attribute m attr = get_flag (m_attrs m) attr"
  by (simp_all add: set_bool_attribute_def get_bool_attribute_def set_flag_def get_flag_def)

lemma as_bool_one: "as_bool (const_of_ll 1)"
  by code_simp

lemma get_set_flag:
  "distinct (map fst attrs) \<Longrightarrow> get_flag (set_flag attrs attr v) attr' = (if attr' = attr then v else get_flag attrs attr')"
  by (simp add: get_flag_def set_flag_def od_get_set od_get_erase as_bool_one)

lemma set_flag_distinct: "distinct (map fst attrs) \<Longrightarrow> distinct (map fst (set_flag attrs attr v))"
  by (simp add: set_flag_def od_set_distinct erase_key_ok(2))

section \<open>Designs\<close>

lemma design_module_name: "design_module d n = Some m \<Longrightarrow> m \<in> set d \<and> m_name m = n"
  by (auto simp: design_module_def find_Some_iff)

lemma design_module_None: "design_module d n = None \<longleftrightarrow> n \<notin> m_name ` set d"
  by (auto simp: design_module_def find_None_iff)

lemma design_update_module:
  "design_module (design_update d m) n = (if n = m_name m \<and> design_module d n \<noteq> None then Some m else design_module d n)"
  by (induction d) (auto simp: design_update_def design_module_def)

section \<open>Fresh names\<close>

lemma find_none: "find P xs = None \<longleftrightarrow> (\<forall>x \<in> set xs. \<not> P x)"
  by (simp add: find_None_iff) blast

lemma count_id_zero: "count_id m name = 0 \<longleftrightarrow> name \<notin> set (all_ids m)"
  by (auto simp: count_id_def module_wire_def module_cell_def all_ids_def find_none)

lemma uniquify_loop_fresh:
  assumes "length (all_ids m) < fuel + (index - 1)" "1 \<le> index"
    "\<And>i. 1 \<le> i \<Longrightarrow> i < index \<Longrightarrow> name @ ''_'' @ to_string (int i) \<in> set (all_ids m)"
  shows "\<exists>s. uniquify_loop m name index fuel = Inr s \<and> s \<notin> set (all_ids m)"
  using assms
proof (induction m name index fuel rule: uniquify_loop.induct)
  case (1 m name index)
  let ?f = "\<lambda>i. name @ ''_'' @ to_string (int i)"
  have "card {1..<index} \<le> card (set (all_ids m))"
  proof (rule card_inj_on_le)
    show "inj_on ?f {1..<index}" by (auto simp: inj_on_def to_string_inj)
    show "?f ` {1..<index} \<subseteq> set (all_ids m)" using "1.prems"(3) by auto
  qed simp
  then show ?case using "1.prems"(1) card_length [of "all_ids m"] by simp
next
  case (2 m name index fuel)
  show ?case
  proof (cases "count_id m (name @ ''_'' @ to_string (int index)) = 0")
    case True
    then show ?thesis by (simp add: count_id_zero Let_def)
  next
    case False
    have "name @ ''_'' @ to_string (int i) \<in> set (all_ids m)" if "1 \<le> i" "i < Suc index" for i
      using that 2(4) False by (cases "i = index") (auto simp: count_id_zero)
    then show ?thesis using 2(1) [OF refl False] 2(2,3) False by (simp add: Let_def)
  qed
qed

lemma uniquify_fresh: "\<exists>s. uniquify m name = Inr s \<and> s \<notin> set (all_ids m) \<and> count_id m s = 0"
proof (cases "count_id m name = 0")
  case True
  then show ?thesis by (simp add: uniquify_def count_id_zero)
next
  case False
  have "\<exists>s. uniquify_loop m name 1 (Suc (length (all_ids m))) = Inr s \<and> s \<notin> set (all_ids m)"
    by (rule uniquify_loop_fresh) auto
  then show ?thesis using False by (auto simp: uniquify_def count_id_zero)
qed

section \<open>The signal map\<close>

lemma sigmap_refines:
  assumes "mfp_ok ops s" "\<forall>(f, t) \<in> set (m_connections m). length f = length t"
    "n = sum_list (map (\<lambda>c. length (fst c)) (m_connections m))" "room n" "grow_steps ops (2 * n) (max n (capacity (database s)))"
  shows "\<exists>s'. sigmap_set ops s (m_connections m) = Inr s' \<and> mfp_ok ops s' \<and>
    (\<forall>b. rmap snd (sigmap_bit ops s' b) = Inr (module_sigmap m b))"
proof -
  let ?s = "(mfp_clear s)\<lparr>database := table_reserve (database (mfp_clear s)) n\<rparr>"
  have "grow_steps ops (2 * sum_list (map (\<lambda>c. length (fst c)) (m_connections m)) + 0) (capacity (database ?s))"
    using assms(3,5) by (simp add: mfp_clear_def table_clear_def table_reserve_def)
  then obtain s' where s': "sigmap_add_all ops ?s (m_connections m) = Inr s'" "mfp_ok ops s'"
      "mfp_rep s' = join_all (mfp_rep ?s) (conn_bits m)"
    using sigmap_add_all_ok [OF cleared_ok [OF assms(1,4)] assms(2)] unfolding conn_bits_def by blast
  have rep: "mfp_rep s' = module_sigmap m"
    using s'(3) mfp_rep_empty [of ?s] by (simp add: module_sigmap_def mfp_clear_def table_clear_def table_reserve_def)
  have "rmap snd (sigmap_bit ops s' b) = Inr (module_sigmap m b)" for b
    using mfp_find_ok [OF s'(2), of b] rep by (auto simp: sigmap_bit_def)
  moreover have "sigmap_set ops s (m_connections m) = Inr s'" using s'(1) assms(3) by (simp add: sigmap_set_def Let_def)
  ultimately show ?thesis using s'(2) by blast
qed

lemma join_reps_idem: "(\<And>x. rp (rp x) = rp x) \<Longrightarrow> join_reps rp a b (join_reps rp a b x) = join_reps rp a b x"
  by (simp add: join_reps_def)

lemma join_all_idem: "(\<And>x. rp (rp x) = rp x) \<Longrightarrow> join_all rp ps (join_all rp ps x) = join_all rp ps x"
  by (induction rp ps rule: join_all.induct) (auto simp: join_reps_idem)

lemma module_sigmap_idem [simp]: "module_sigmap m (module_sigmap m b) = module_sigmap m b"
  by (simp add: module_sigmap_def join_all_idem)

section \<open>Guarantees\<close>

text \<open>Making a name unique in a module always ends, however many suffixes are taken: it gives the name itself when it
  is free and otherwise the name with a numbered suffix, and no wire, cell, memory or process has
  the name it gives, so that a wire can be added under it.\<close>

lemma uniquify_ends:
  "\<exists>s. uniquify m name = Inr s \<and> count_id m s = 0 \<and> (count_id m name = 0 \<longrightarrow> s = name) \<and>
    (s = name \<or> (\<exists>i \<ge> 1. s = name @ ''_'' @ to_string (int i))) \<and> (name \<noteq> [] \<longrightarrow> (\<exists>m'. add_wire m s width = Inr m'))"
proof -
  obtain s where s: "uniquify m name = Inr s" "count_id m s = 0" using uniquify_fresh by blast
  have "\<exists>i \<ge> k. s = name @ ''_'' @ to_string (int i)" if "uniquify_loop m name k fuel = Inr s" for k fuel
    using that by (induction m name k fuel rule: uniquify_loop.induct) (auto simp: Let_def split: if_splits dest: Suc_leD)
  then have "s = name \<or> (\<exists>i \<ge> 1. s = name @ ''_'' @ to_string (int i))" using s(1)
    unfolding uniquify_def by (metis sum.inject(2))
  then show ?thesis using s by (auto simp: uniquify_def add_wire_def)
qed

end
