(* ===== verification/Guide_Sched.thy ===== *)
theory Guide_Sched
  imports Guide_Shared Odict
begin

text \<open>
  The learned cost model of \<open>passes/guide/check/scheduler.cc\<close>: the features of a pair of modules, the
  evaluation of a regression tree, the loading of a model file and the prediction. Reading and
  parsing a file is the parameter \<open>io\<close>; arithmetic on \<open>double\<close> is the parameter \<open>fp\<close>.
\<close>

section \<open>Models\<close>

record 'd GuideSchedTreeNode =
  feature_index :: int
  threshold :: 'd
  left :: int
  right :: int
  node_value :: 'd
  is_leaf :: bool

type_synonym 'd GuideSchedTree = "'d GuideSchedTreeNode list"

record 'd GuideSchedLinearAction =
  bias :: 'd
  weights :: "(string, 'd) odict"

record 'd GuideMatchModel =
  mm_loaded :: bool
  mm_path :: string
  mm_model_type :: string
  mm_feature_names :: "string list"
  mm_base_score :: 'd
  mm_learning_rate :: 'd
  mm_trees :: "'d GuideSchedTree list"

record 'd GuideSchedModel =
  loaded :: bool
  path :: string
  model_type :: string
  feature_names :: "string list"
  base_score :: 'd
  learning_rate :: 'd
  linear_actions :: "(string, 'd GuideSchedLinearAction) odict"
  trees :: "'d GuideSchedTree list"

definition GuideSchedModel_init :: "'d fp_ops \<Rightarrow> 'd GuideSchedModel" where
  "GuideSchedModel_init fp = \<lparr>loaded = False, path = [], model_type = [], feature_names = [],
     base_score = fp_of_int fp 0, learning_rate = fp_of_int fp 1, linear_actions = [], trees = []\<rparr>"

section \<open>Features\<close>

definition scheduler_pair_features :: "'d fp_ops \<Rightarrow> PairRecord \<Rightarrow> MatchStats \<Rightarrow> (string, 'd) odict" where
  "scheduler_pair_features fp pr ms =
    [(''has_dff'', fp_bool fp (gold_dff_cnt pr \<noteq> 0 \<or> gate_dff_cnt pr \<noteq> 0)),
     (''gold_dff_cnt'', fp_of_int fp (gold_dff_cnt pr)),
     (''gate_dff_cnt'', fp_of_int fp (gate_dff_cnt pr)),
     (''has_submodule'', fp_bool fp (has_submodule pr)),
     (''exact_total'', fp_of_int fp (exact_total ms)),
     (''pi_cnt'', fp_of_int fp (pi_cnt ms)),
     (''po_cnt'', fp_of_int fp (po_cnt ms)),
     (''dff_cnt'', fp_of_int fp (dff_cnt ms)),
     (''dff_po_cnt'', fp_of_int fp (dff_po_cnt ms)),
     (''subckt_cnt'', fp_of_int fp (subckt_cnt ms)),
     (''unmatched_gold'', fp_of_int fp (unmatched_gold ms)),
     (''unmatched_gate'', fp_of_int fp (unmatched_gate ms)),
     (''retimed'', fp_bool fp (retimed pr)),
     (''mul_touched'', fp_bool fp (mul_touched pr)),
     (''bb_const_in_cnt'', fp_of_int fp (bb_const_in_cnt pr))]"

definition scheduler_context_features ::
    "'d fp_ops \<Rightarrow> string \<Rightarrow> PairRecord \<Rightarrow> MatchStats \<Rightarrow> (string, 'd) odict" where
  "scheduler_context_features fp action pr ms =
     scheduler_pair_features fp pr ms @
     [(''act_cec_map'', fp_bool fp (action = ''cec_map'')),
      (''act_cec_nomap'', fp_bool fp (action = ''cec_nomap'')),
      (''act_dsec_map'', fp_bool fp (action = ''dsec_map'')),
      (''act_dsec_nomap'', fp_bool fp (action = ''dsec_nomap'')),
      (''is_dsec'', fp_bool fp (action = ''dsec_map'' \<or> action = ''dsec_nomap'')),
      (''use_map'', fp_bool fp (action = ''cec_map'' \<or> action = ''dsec_map''))]"

section \<open>Trees\<close>

definition in_range :: "'a list \<Rightarrow> int \<Rightarrow> bool" where
  "in_range xs i \<longleftrightarrow> 0 \<le> i \<and> i < int (length xs)"

definition tree_next :: "'d fp_ops \<Rightarrow> 'd GuideSchedTreeNode \<Rightarrow> 'd list \<Rightarrow> int" where
  "tree_next fp node features =
     (let feature_value = (if in_range features (feature_index node)
            then features ! nat (feature_index node) else fp_of_int fp 0)
      in if fp_le fp feature_value (threshold node) then left node else right node)"

fun tree_walk :: "'d fp_ops \<Rightarrow> 'd GuideSchedTree \<Rightarrow> 'd list \<Rightarrow> nat \<Rightarrow> int \<Rightarrow> 'd result" where
  "tree_walk fp nodes features 0 i = Inl NonTermination"
| "tree_walk fp nodes features (Suc fuel) i =
     (if in_range nodes i
      then let node = nodes ! nat i
           in if is_leaf node then Inr (node_value node)
              else tree_walk fp nodes features fuel (tree_next fp node features)
      else Inr (fp_of_int fp 0))"

text \<open>
  The loop of \<open>tree_predict\<close>. A walk longer than the number of nodes meets a node again and never
  ends (\<open>tree_walk_stuck\<close>), so this much fuel separates the walks that end from those that do not.
\<close>

definition tree_predict :: "'d fp_ops \<Rightarrow> 'd GuideSchedTree \<Rightarrow> 'd list \<Rightarrow> 'd result" where
  "tree_predict fp tree features = tree_walk fp tree features (Suc (length tree)) 0"

section \<open>Loading a model\<close>

text \<open>The contents of a file, when it can be opened, and the value or the message of the parser.\<close>

record 'd model_io =
  read_file :: "string \<Rightarrow> string option"
  parse_json :: "string \<Rightarrow> string + 'd Json"

definition load_json :: "'d model_io \<Rightarrow> string \<Rightarrow> 'd Json result" where
  "load_json io p =
     (case read_file io p of
        None \<Rightarrow> Inl (LogError ''Cannot open model file'')
      | Some text \<Rightarrow> (case parse_json io text of
          Inl err \<Rightarrow> Inl (LogError ''Cannot parse model file'') | Inr j \<Rightarrow> Inr j))"

definition json_strings :: "'d Json \<Rightarrow> string list" where
  "json_strings j = map string_value (filter is_string (array_items j))"

definition load_node :: "'d fp_ops \<Rightarrow> 'd Json \<Rightarrow> 'd GuideSchedTreeNode" where
  "load_node fp j = \<lparr>
     feature_index = int_value fp (json_get j ''feature_index''),
     threshold = number_value fp (json_get j ''threshold''),
     left = int_value fp (json_get j ''left''),
     right = int_value fp (json_get j ''right''),
     node_value = number_value fp (json_get j ''value''),
     is_leaf = bool_value (json_get j ''is_leaf'')\<rparr>"

fun load_trees :: "'d fp_ops \<Rightarrow> 'd Json list \<Rightarrow> 'd GuideSchedTree list result" where
  "load_trees fp [] = Inr []"
| "load_trees fp (t # ts) =
     (let nodes = map (load_node fp) (array_items (json_get t ''nodes''))
      in if nodes = [] then Inl (LogError ''Model contains an empty tree'')
         else rmap (Cons nodes) (load_trees fp ts))"

definition load_tree_model ::
    "'d model_io \<Rightarrow> 'd fp_ops \<Rightarrow> string \<Rightarrow> string \<Rightarrow> (string \<times> string list \<times> 'd \<times> 'd \<times> 'd GuideSchedTree list) result" where
  "load_tree_model io fp p expected_type =
     rbind (load_json io p) (\<lambda>json.
       let mt = string_value (json_get json ''model_type'')
       in if mt \<noteq> expected_type then Inl (LogError ''Unexpected model type'')
          else rbind (load_trees fp (array_items (json_get json ''trees''))) (\<lambda>ts.
            Inr (mt, json_strings (json_get json ''feature_names''),
                 number_value fp (json_get json ''base_score''),
                 number_value fp (json_get json ''learning_rate''), ts)))"

definition load_linear_action :: "'d fp_ops \<Rightarrow> 'd Json \<Rightarrow> 'd GuideSchedLinearAction" where
  "load_linear_action fp j = \<lparr>
     bias = number_value fp (json_get j ''bias''),
     weights = foldl (\<lambda>d (k, w). od_set d k (number_value fp w)) [] (object_items (json_get j ''weights''))\<rparr>"

definition load_linear_model :: "'d fp_ops \<Rightarrow> string \<Rightarrow> 'd Json \<Rightarrow> 'd GuideSchedModel" where
  "load_linear_model fp p json = (GuideSchedModel_init fp)\<lparr>
     path := p,
     model_type := string_value (json_get json ''model_type''),
     base_score := number_value fp (json_get json ''base_score''),
     learning_rate := number_value fp (json_get json ''learning_rate''),
     feature_names := json_strings (json_get json ''feature_names''),
     linear_actions := foldl (\<lambda>d (k, a). od_set d k (load_linear_action fp a)) []
       (object_items (json_get json ''actions''))\<rparr>"

text \<open>The value is the returned flag and the new contents of the model.\<close>

definition load_sched_model ::
    "'d model_io \<Rightarrow> 'd fp_ops \<Rightarrow> string \<Rightarrow> 'd GuideSchedModel \<Rightarrow> (bool \<times> 'd GuideSchedModel) result" where
  "load_sched_model io fp p model =
     (if p = [] then Inr (False, model)
      else if loaded model \<and> path model = p then Inr (True, model)
      else if model_type model = ''guide_sched_linear_v1''
      then rmap (\<lambda>json. (True, (load_linear_model fp p json)\<lparr>loaded := True\<rparr>)) (load_json io p)
      else rmap (\<lambda>(mt, names, base, rate, ts).
             (True, (GuideSchedModel_init fp)\<lparr>path := p, model_type := mt, feature_names := names,
                      base_score := base, learning_rate := rate, trees := ts, loaded := True\<rparr>))
             (load_tree_model io fp p ''guide_sched_gbdt_v1''))"

definition load_match_model ::
    "'d model_io \<Rightarrow> 'd fp_ops \<Rightarrow> string \<Rightarrow> 'd GuideMatchModel \<Rightarrow> (bool \<times> 'd GuideMatchModel) result" where
  "load_match_model io fp p model =
     (if p = [] then Inr (False, model)
      else if mm_loaded model \<and> mm_path model = p then Inr (True, model)
      else rmap (\<lambda>(mt, names, base, rate, ts).
             (True, \<lparr>mm_loaded = True, mm_path = p, mm_model_type = mt, mm_feature_names = names,
                      mm_base_score = base, mm_learning_rate = rate, mm_trees = ts\<rparr>))
             (load_tree_model io fp p ''guide_match_gbdt_v1''))"

section \<open>Prediction\<close>

definition feature_vector :: "'d fp_ops \<Rightarrow> string list \<Rightarrow> (string, 'd) odict \<Rightarrow> 'd list" where
  "feature_vector fp names by_name =
     map (\<lambda>n. case od_get by_name n of None \<Rightarrow> fp_of_int fp 0 | Some x \<Rightarrow> x) names"

fun sum_trees :: "'d fp_ops \<Rightarrow> 'd GuideSchedTree list \<Rightarrow> 'd list \<Rightarrow> 'd \<Rightarrow> 'd result" where
  "sum_trees fp [] features cost = Inr cost"
| "sum_trees fp (t # ts) features cost =
     rbind (tree_predict fp t features) (\<lambda>x. sum_trees fp ts features (fp_add fp cost x))"

definition predict_sched_cost ::
    "'d fp_ops \<Rightarrow> 'd GuideSchedModel \<Rightarrow> string \<Rightarrow> PairRecord \<Rightarrow> MatchStats \<Rightarrow> 'd result" where
  "predict_sched_cost fp model action pr ms =
     (if \<not> loaded model then Inr (fp_of_int fp 0)
      else if model_type model = ''guide_sched_linear_v1''
      then (case od_get (linear_actions model) action of
              None \<Rightarrow> Inr (fp_of_int fp 0)
            | Some a \<Rightarrow>
                let features = scheduler_context_features fp action pr ms
                in Inr (foldl (\<lambda>cost (k, w). fp_add fp cost (fp_mul fp w
                      (case od_get features k of None \<Rightarrow> fp_of_int fp 0 | Some x \<Rightarrow> x)))
                    (bias a) (iterate (weights a))))
      else sum_trees fp (trees model)
             (feature_vector fp (feature_names model) (scheduler_context_features fp action pr ms))
             (base_score model))"

section \<open>Walks through a tree\<close>

text \<open>The node reached after a number of steps, when the walk has not ended before.\<close>

fun tree_node :: "'d fp_ops \<Rightarrow> 'd GuideSchedTree \<Rightarrow> 'd list \<Rightarrow> nat \<Rightarrow> int \<Rightarrow> int" where
  "tree_node fp nodes fs 0 i = i"
| "tree_node fp nodes fs (Suc n) i =
     (let j = tree_node fp nodes fs n i in tree_next fp (nodes ! nat j) fs)"

lemma tree_node_add: "tree_node fp nodes fs (m + n) i = tree_node fp nodes fs m (tree_node fp nodes fs n i)"
  by (induction m) (simp_all add: Let_def)

lemma tree_walk_node:
  "tree_walk fp nodes fs n i = Inl e \<longleftrightarrow> e = NonTermination \<and>
    (\<forall>k < n. in_range nodes (tree_node fp nodes fs k i) \<and> \<not> is_leaf (nodes ! nat (tree_node fp nodes fs k i)))"
proof (induction fp nodes fs n i rule: tree_walk.induct)
  case (1 fp nodes fs i)
  then show ?case by auto
next
  case (2 fp nodes fs n i)
  have shift: "tree_node fp nodes fs (Suc k) i = tree_node fp nodes fs k (tree_next fp (nodes ! nat i) fs)" for k
    using tree_node_add [of fp nodes fs k 1 i] by (simp add: Let_def)
  have all: "(\<forall>k < Suc n. P k) \<longleftrightarrow> P 0 \<and> (\<forall>k < n. P (Suc k))" for P
    by (auto simp: less_Suc_eq_0_disj)
  show ?case
  proof (cases "in_range nodes i \<and> \<not> is_leaf (nodes ! nat i)")
    case True
    then have "tree_walk fp nodes fs (Suc n) i = tree_walk fp nodes fs n (tree_next fp (nodes ! nat i) fs)" by simp
    then show ?thesis unfolding all shift using 2 [OF _ refl] True by simp
  next
    case False
    then show ?thesis unfolding all by (cases "in_range nodes i") simp_all
  qed
qed

lemma tree_walk_stuck:
  assumes "tree_walk fp nodes fs (Suc (length nodes)) i = Inl e"
  shows "tree_walk fp nodes fs n i = Inl NonTermination"
proof -
  let ?at = "\<lambda>k. tree_node fp nodes fs k i" and ?N = "Suc (length nodes)"
  have go: "\<forall>k < ?N. in_range nodes (?at k) \<and> \<not> is_leaf (nodes ! nat (?at k))"
    using assms unfolding tree_walk_node by simp
  have "\<not> inj_on ?at {..<?N}"
  proof
    assume inj: "inj_on ?at {..<?N}"
    have sub: "?at ` {..<?N} \<subseteq> {0..<int (length nodes)}" using go by (auto simp: in_range_def)
    have "?N \<le> card {0..<int (length nodes)}" using card_inj_on_le [OF inj sub] by simp
    then show False by simp
  qed
  then obtain a b where ab: "a < b" "b < ?N" "?at a = ?at b"
    unfolding inj_on_def by (metis lessThan_iff linorder_neqE_nat)
  have per: "?at (k + (b - a)) = ?at k" if "a \<le> k" for k
  proof -
    have "?at (k + (b - a)) = ?at ((k - a) + b)" using that ab(1) by (intro arg_cong [of _ _ ?at]) simp
    also have "\<dots> = ?at k" using tree_node_add [of fp nodes fs "k - a" b i] tree_node_add [of fp nodes fs "k - a" a i] ab(3) that by simp
    finally show ?thesis .
  qed
  have "in_range nodes (?at k) \<and> \<not> is_leaf (nodes ! nat (?at k))" for k
  proof (induction k rule: less_induct)
    case (less k)
    show ?case
    proof (cases "k < b")
      case True
      then show ?thesis using go ab by simp
    next
      case False
      then have "?at k = ?at (k - (b - a))" using per [of "k - (b - a)"] ab(1) by simp
      then show ?thesis using less [of "k - (b - a)"] False ab(1) by simp
    qed
  qed
  then show ?thesis unfolding tree_walk_node by simp
qed

definition downward :: "'d GuideSchedTree \<Rightarrow> bool" where
  "downward nodes \<longleftrightarrow> (\<forall>i < length nodes. \<not> is_leaf (nodes ! i) \<longrightarrow>
     (\<forall>c \<in> {left (nodes ! i), right (nodes ! i)}. in_range nodes c \<longrightarrow> int i < c))"

lemma tree_walk_downward:
  assumes "downward nodes" "nat (int (length nodes) - i) < fuel"
  shows "\<exists>v. tree_walk fp nodes fs fuel i = Inr v \<and>
    (v = fp_of_int fp 0 \<or> (\<exists>node \<in> set nodes. is_leaf node \<and> v = node_value node))"
  using assms(2)
proof (induction fuel arbitrary: i)
  case (Suc fuel)
  show ?case
  proof (cases "in_range nodes i \<and> \<not> is_leaf (nodes ! nat i)")
    case True
    let ?j = "tree_next fp (nodes ! nat i) fs"
    have lr: "?j \<in> {left (nodes ! nat i), right (nodes ! nat i)}" by (simp add: tree_next_def Let_def)
    show ?thesis
    proof (cases "in_range nodes ?j")
      case True
      then have "i < ?j" using assms(1) lr \<open>in_range nodes i \<and> _\<close> unfolding downward_def in_range_def
        by (metis int_nat_eq nat_less_iff)
      then have "nat (int (length nodes) - ?j) < fuel" using Suc.prems True by (auto simp: in_range_def)
      from Suc.IH [OF this] show ?thesis using \<open>in_range nodes i \<and> _\<close> by simp
    next
      case False
      have "0 < fuel" using Suc.prems \<open>in_range nodes i \<and> _\<close> by (auto simp: in_range_def)
      then show ?thesis using False \<open>in_range nodes i \<and> _\<close> by (cases fuel) simp_all
    qed
  next
    case False
    then show ?thesis by (auto simp: in_range_def Let_def nat_less_iff intro!: bexI [of _ "nodes ! nat i"])
  qed
qed simp

section \<open>Guarantees\<close>

text \<open>Evaluating a tree whose inner nodes point only to later nodes always ends, with the value of a leaf or
  with zero; and for any tree the bounded walk of the model gives up only when the loop of the code
  would run forever.\<close>

lemma tree_predict_total:
  "(downward tree \<longrightarrow> (\<exists>v. tree_predict fp tree fs = Inr v \<and>
      (v = fp_of_int fp 0 \<or> (\<exists>node \<in> set tree. is_leaf node \<and> v = node_value node)))) \<and>
   (tree_predict fp tree fs = Inl e \<longrightarrow> (\<forall>n. tree_walk fp tree fs n 0 = Inl NonTermination))"
  using tree_walk_downward [of tree 0 "Suc (length tree)" fp fs] tree_walk_stuck [of fp tree fs 0 e]
  by (simp add: tree_predict_def del: tree_walk.simps)

lemma load_trees_ok:
  "(\<exists>ts'. load_trees fp ts = Inr ts') \<longleftrightarrow> (\<forall>t \<in> set ts. array_items (json_get t ''nodes'') \<noteq> [])"
  "load_trees fp ts = Inr ts' \<Longrightarrow> [] \<notin> set ts'"
proof -
  show "(\<exists>ts'. load_trees fp ts = Inr ts') \<longleftrightarrow> (\<forall>t \<in> set ts. array_items (json_get t ''nodes'') \<noteq> [])"
    by (induction fp ts rule: load_trees.induct) (auto simp: Let_def rmap_eq_Inr_iff)
  show "load_trees fp ts = Inr ts' \<Longrightarrow> [] \<notin> set ts'"
    by (induction fp ts arbitrary: ts' rule: load_trees.induct) (auto simp: Let_def rmap_eq_Inr_iff split: if_splits)
qed

text \<open>Loading a scheduler model into a model object that does not already hold a linear one succeeds exactly
  when the file can be read and parsed, declares the tree model type and has no empty tree; the
  result is a loaded tree model. A file of the linear type is always rejected, since its type is
  compared with the type of the object before the file is read.\<close>

lemma load_sched_model_errors:
  assumes "p \<noteq> []" "\<not> loaded model" "model_type model \<noteq> ''guide_sched_linear_v1''"
  shows "((\<exists>r. load_sched_model io fp p model = Inr r) \<longleftrightarrow>
      (\<exists>text json. read_file io p = Some text \<and> parse_json io text = Inr json \<and>
        string_value (json_get json ''model_type'') = ''guide_sched_gbdt_v1'' \<and>
        (\<forall>t \<in> set (array_items (json_get json ''trees'')). array_items (json_get t ''nodes'') \<noteq> []))) \<and>
    (\<forall>b m. load_sched_model io fp p model = Inr (b, m) \<longrightarrow> b \<and> loaded m \<and> path m = p \<and>
      model_type m = ''guide_sched_gbdt_v1'' \<and> [] \<notin> set (trees m) \<and> linear_actions m = [])"
proof -
  have "(\<exists>r. load_tree_model io fp p ''guide_sched_gbdt_v1'' = Inr r) \<longleftrightarrow>
      (\<exists>text json. read_file io p = Some text \<and> parse_json io text = Inr json \<and>
        string_value (json_get json ''model_type'') = ''guide_sched_gbdt_v1'' \<and>
        (\<forall>t \<in> set (array_items (json_get json ''trees'')). array_items (json_get t ''nodes'') \<noteq> []))"
    unfolding load_trees_ok(1) [of fp, symmetric]
    by (auto simp: load_tree_model_def load_json_def rbind_def Let_def split: option.splits sum.splits)
  moreover have "mt = ''guide_sched_gbdt_v1'' \<and> [] \<notin> set ts"
    if "load_tree_model io fp p ''guide_sched_gbdt_v1'' = Inr (mt, ns, b, r, ts)" for mt ns b r ts
    using that load_trees_ok(2) by (auto simp: load_tree_model_def rbind_eq_Inr_iff Let_def split: if_splits)
  ultimately show ?thesis
    using assms by (auto simp: load_sched_model_def rmap_eq_Inr_iff GuideSchedModel_init_def)
qed

end
