(* ===== verification/Guide_Fail.thy ===== *)
theory Guide_Fail
  imports Netlist Guide_Sched
begin

text \<open>
  The failure handling of \<open>passes/guide/check/fail_exec.cc\<close>: running external tools, reading the outcome of a
  proof attempt from their output, classifying failures, recording failure packets and turning
  packets into hints. What the operating system and the tools do is the parameter record
  \<open>tools\<close> over an abstract world \<open>'w\<close>; the output of a command is its text as it is read
  from the pipe, without NUL characters. Log lines are not modelled.
\<close>

section \<open>Environment, configuration and state\<close>

text \<open>
  \<open>run_cmd\<close>: \<open>popen\<close> to \<open>pclose\<close>, with the exit status when the command exited, its output and the
  time it took; \<open>None\<close> when the pipe cannot be opened. \<open>make_temp_file\<close>, \<open>create_directory\<close> and
  opening a file for writing are the next three; \<open>run_hash\<close> is the hash of a string.
\<close>

record ('w, 'd) tools =
  run_cmd :: "string \<Rightarrow> 'w \<Rightarrow> (int option \<times> string \<times> 'd) option \<times> 'w"
  make_temp_file :: "string \<Rightarrow> 'w \<Rightarrow> string \<times> 'w"
  create_directory :: "string \<Rightarrow> 'w \<Rightarrow> bool \<times> 'w"
  can_open :: "string \<Rightarrow> 'w \<Rightarrow> bool"
  run_hash :: "string \<Rightarrow> 64 word"
  base_tmpdir :: string
  smtbmc_local :: string
  smtbmc_local_ok :: bool

record 'd GuideTelemetry =
  pair_match_stats :: "string \<rightharpoonup> MatchStats"
  pair_records :: "string \<rightharpoonup> PairRecord"
  pair_applied_sugs :: "string \<rightharpoonup> int"
  retimed_mods :: "string list"
  multiplier_mods :: "string list"
  divider_mods :: "string list"
  match_suggestions :: "'d Json list"

record 'd CheckConfig =
  nocleanup :: bool
  abc_exe_file :: string
  tempdir_name :: string
  cfg_design :: Design
  gold_mod :: Module
  gate_mod :: Module
  gold_prefix :: string
  gate_prefix :: string
  lib_file :: string
  accept_sugs_file :: string
  external_match_file :: string
  seq_check_cfg :: SeqCheckConfig
  dump_cfg :: MlDumpConfig
  sched_model :: "'d GuideSchedModel option"
  match_model :: "'d GuideMatchModel option"

text \<open>
  What the passes change: the world, the lines of the JSONL files, the fingerprints that
  \<open>should_emit_failure_packet\<close> has seen per file, and the telemetry the configuration points to.
\<close>

record ('w, 'd) gstate =
  world :: 'w
  jsonl :: "string \<Rightarrow> 'd Json list"
  seen :: "string \<Rightarrow> string list"
  telemetry :: "'d GuideTelemetry option"

section \<open>Reading the output\<close>

definition add_unique_clue :: "string list \<Rightarrow> string \<Rightarrow> string list" where
  "add_unique_clue clues clue = (if clue \<in> set clues then clues else clues @ [clue])"

definition known_clues :: "string list" where
  "known_clues =
    [''Networks are NOT EQUIVALENT after structural hashing'',
     ''Networks are NOT EQUIVALENT after SAT'',
     ''Networks are NOT EQUIVALENT after fraiging'',
     ''Networks are NOT EQUIVALENT after partitioning'',
     ''Networks are NOT EQUIVALENT after framing'',
     ''Networks are NOT EQUIVALENT after simulation'',
     ''Networks are NOT EQUIVALENT. Output'',
     ''Networks are NOT EQUIVALENT'',
     ''Miter computation has failed'',
     ''BMC-Induct failed in weak mode'',
     ''BMC-Induct failed in BMC phase'',
     ''BMC-Induct failed in Induct phase'',
     ''Amulet Verify failed'',
     ''DivVerify failed'']"

definition extract_failure_clues :: "string \<Rightarrow> string list" where
  "extract_failure_clues out =
     foldl (\<lambda>clues clue. if contains out clue then add_unique_clue clues clue else clues) [] known_clues"

definition partition_unsafe_why :: "'d CommandResult \<Rightarrow> string" where
  "partition_unsafe_why r =
     (if contains (cr_output r) ''Constant-0 drivers added to'' then ''constant_completed_nets''
      else if contains (cr_output r) ''Name map: applied 0'' then ''name_map_not_applied''
      else if contains (cr_output r) ''Networks are equivalent after structural hashing.'' then ''structural_hash_only''
      else [])"

definition blocked_clues :: "string list" where
  "blocked_clues = [''Miter computation has failed'', ''BMC-Induct failed in weak mode'',
     ''BMC-Induct failed in BMC phase'', ''BMC-Induct failed in Induct phase'', ''Amulet Verify failed'',
     ''DivVerify failed'']"

definition infer_proof_outcome :: "'d CommandResult \<Rightarrow> string list \<Rightarrow> string" where
  "infer_proof_outcome r clues =
     (if \<exists>clue \<in> set clues. contains clue ''Networks are NOT EQUIVALENT'' then ''not_equivalent''
      else if contains (cr_output r) ''Networks are equivalent'' then ''equivalent''
      else if \<exists>clue \<in> set clues. clue \<in> set blocked_clues then ''blocked''
      else if exit_status r = 124 \<or> contains (map to_lower (cr_output r)) ''timeout'' then ''timeout''
      else if exit_status r \<noteq> 0 then ''tool_error''
      else ''unknown'')"

section \<open>Running commands\<close>

definition make_command_log_file ::
    "('w, 'd) tools \<Rightarrow> string \<Rightarrow> string \<Rightarrow> 'w \<Rightarrow> string \<times> 'w" where
  "make_command_log_file tls tempdir tag w =
     make_temp_file tls ((if tempdir = [] then base_tmpdir tls else tempdir) @ ''/'' @
       sanitize_filename tag @ ''-XXXXXX.log'') w"

definition failure_log_dir :: "('w, 'd) tools \<Rightarrow> MlDumpConfig \<Rightarrow> 'w \<Rightarrow> (string \<times> 'w) result" where
  "failure_log_dir tls cfg w =
     (if \<not> dump_fail cfg \<or> fail_jsonl cfg = [] then Inr ([], w)
      else let dir_name = path_dirname (fail_jsonl cfg) @ ''/failure_logs'';
               (okay, w) = create_directory tls dir_name w
           in if \<not> okay then Inl (LogError ''Cannot create failure log directory'') else Inr (dir_name, w))"

definition resolve_yosys_smtbmc_executable :: "('w, 'd) tools \<Rightarrow> string" where
  "resolve_yosys_smtbmc_executable tls = (if smtbmc_local_ok tls then smtbmc_local tls else ''yosys-smtbmc'')"

definition exec_capture ::
    "('w, 'd) tools \<Rightarrow> 'd fp_ops \<Rightarrow> string \<Rightarrow> string \<Rightarrow> string \<Rightarrow> string \<Rightarrow> 'w \<Rightarrow> ('d CommandResult \<times> 'w) result" where
  "exec_capture tls fp cmd tempdir tag log_dir w =
     rbind (if log_dir \<noteq> []
            then let (okay, w) = create_directory tls log_dir w
                 in if \<not> okay then Inl (LogError ''Cannot create command log directory'')
                    else Inr (make_temp_file tls (log_dir @ ''/'' @ sanitize_filename tag @ ''-XXXXXX.log'') w)
            else Inr (make_command_log_file tls tempdir tag w)) (\<lambda>(lf, w).
       case run_cmd tls (cmd @ '' 2>&1'') w of
         (None, w) \<Rightarrow> Inl (LogError ''Error executing command'')
       | (Some (status, out, ms), w) \<Rightarrow>
           Inr ((CommandResult_init fp)\<lparr>exit_status := (case status of None \<Rightarrow> -1 | Some st \<Rightarrow> st),
                  runtime_ms := ms, cr_output := out, log_file := lf\<rparr>, w))"

text \<open>\<open>exectue_and_check\<close> for a single text: the flag \<open>correct\<close>, the returned status and the capture.\<close>

definition execute_and_check_text ::
    "('w, 'd) tools \<Rightarrow> 'd fp_ops \<Rightarrow> string \<Rightarrow> string \<Rightarrow> string \<Rightarrow> string \<Rightarrow> string \<Rightarrow> 'w \<Rightarrow>
     (bool \<times> int \<times> 'd CommandResult \<times> 'w) result" where
  "execute_and_check_text tls fp cmd target tempdir tag log_dir w =
     rbind (exec_capture tls fp cmd tempdir tag log_dir w) (\<lambda>(r, w).
       let correct = contains (cr_output r) target;
           r = r\<lparr>raw_result_code := of_bool correct, result_code := of_bool correct\<rparr>;
           r = r\<lparr>proof_outcome := (if correct then ''equivalent''
                  else infer_proof_outcome r (extract_failure_clues (cr_output r)))\<rparr>
       in Inr (correct, exit_status r, r, w))"

definition target_code :: "string \<Rightarrow> (string \<times> int) list \<Rightarrow> int" where
  "target_code out targets = (case find (\<lambda>t. contains out (fst t)) targets of None \<Rightarrow> 0 | Some t \<Rightarrow> snd t)"

text \<open>\<open>exectue_and_check\<close> for a list of texts and codes: the first text found decides.\<close>

definition execute_and_check ::
    "('w, 'd) tools \<Rightarrow> 'd fp_ops \<Rightarrow> string \<Rightarrow> (string \<times> int) list \<Rightarrow> string \<Rightarrow> string \<Rightarrow> string \<Rightarrow> 'w \<Rightarrow>
     (int \<times> int \<times> 'd CommandResult \<times> 'w) result" where
  "execute_and_check tls fp cmd targets tempdir tag log_dir w =
     rbind (exec_capture tls fp cmd tempdir tag log_dir w) (\<lambda>(r, w).
       let code = target_code (cr_output r) targets;
           r = r\<lparr>raw_result_code := code, result_code := code\<rparr>;
           r = r\<lparr>proof_outcome := infer_proof_outcome r (extract_failure_clues (cr_output r))\<rparr>
       in Inr (code, exit_status r, r, w))"

definition exec_cmd ::
    "('w, 'd) tools \<Rightarrow> 'd fp_ops \<Rightarrow> string \<Rightarrow> string \<Rightarrow> string \<Rightarrow> string \<Rightarrow> 'w \<Rightarrow> (int \<times> 'd CommandResult \<times> 'w) result" where
  "exec_cmd tls fp cmd tempdir tag log_dir w =
     rbind (exec_capture tls fp cmd tempdir tag log_dir w) (\<lambda>(r, w).
       let r = r\<lparr>raw_result_code := exit_status r, result_code := exit_status r\<rparr>;
           r = r\<lparr>proof_outcome := infer_proof_outcome r (extract_failure_clues (cr_output r))\<rparr>
       in Inr (exit_status r, r, w))"

section \<open>Facts about the pair\<close>

definition get_match_stats :: "'d CheckConfig \<Rightarrow> 'd GuideTelemetry option \<Rightarrow> MatchStats" where
  "get_match_stats conf tel =
     (case tel of
        None \<Rightarrow> MatchStats_init
      | Some t \<Rightarrow> (case pair_match_stats t (get_pair_id (m_name (gold_mod conf)) (m_name (gate_mod conf))) of
          None \<Rightarrow> MatchStats_init | Some s \<Rightarrow> s))"

definition typed_match_total :: "MatchStats \<Rightarrow> int" where
  "typed_match_total st = pi_cnt st + po_cnt st + dff_cnt st + dff_po_cnt st + subckt_cnt st"

definition bs_blackbox :: string where
  "bs_blackbox = CHR 0x5C # ''blackbox''"

definition module_has_submodule :: "Design \<Rightarrow> Module \<Rightarrow> bool" where
  "module_has_submodule d m \<longleftrightarrow> (\<exists>c \<in> set (m_cells m).
     case design_module d (c_type c) of None \<Rightarrow> False | Some sub \<Rightarrow> \<not> get_bool_attribute sub bs_blackbox)"

definition is_dff_type :: "bool \<Rightarrow> string \<Rightarrow> bool" where
  "is_dff_type gate_side ty \<longleftrightarrow>
     ty \<in> set [''$ff'', ''$dff'', ''$dffe'', ''$_DFF_P_'', ''$_DFF_N_'', ''$_DFFE_PN'', ''$_DFFE_PP''] \<or>
     (gate_side \<and> contains ty ''DFF'')"

definition module_has_dff :: "Module \<Rightarrow> bool \<Rightarrow> bool" where
  "module_has_dff m gate_side \<longleftrightarrow> (\<exists>c \<in> set (m_cells m). is_dff_type gate_side (c_type c))"

definition count_module_dffs :: "Module \<Rightarrow> bool \<Rightarrow> int" where
  "count_module_dffs m gate_side = int (length (filter (\<lambda>c. is_dff_type gate_side (c_type c)) (m_cells m)))"

section \<open>Classifying a failure\<close>

record FailureTeacher =
  cls :: string
  matched_clues :: "string list"
  step_ids :: "string list"

definition teacher_rules :: "(string list \<times> string \<times> string list) list" where
  "teacher_rules =
    [([''Miter computation has failed''], ''abc_miter_failed'',
       [''retry_cec_nomap'', ''inspect_match_density'', ''replay_failing_action'']),
     ([''Networks are NOT EQUIVALENT after structural hashing''], ''abc_not_equivalent_struct_hash'',
       [''inspect_match_density'', ''inspect_counterexample'', ''replay_failing_action'']),
     ([''Networks are NOT EQUIVALENT after SAT''], ''abc_not_equivalent_sat'',
       [''inspect_counterexample'', ''inspect_upstream_transforms'', ''replay_failing_action'']),
     ([''Networks are NOT EQUIVALENT after fraiging''], ''abc_not_equivalent_fraiging'',
       [''inspect_counterexample'', ''inspect_upstream_transforms'', ''replay_failing_action'']),
     ([''Networks are NOT EQUIVALENT after partitioning''], ''abc_not_equivalent_partitioning'',
       [''inspect_partition_boundary'', ''inspect_counterexample'', ''replay_failing_action'']),
     ([''Networks are NOT EQUIVALENT after framing''], ''abc_not_equivalent_framing'',
       [''inspect_counterexample'', ''inspect_retime_pair'', ''replay_failing_action'']),
     ([''Networks are NOT EQUIVALENT after simulation''], ''abc_not_equivalent_simulation'',
       [''inspect_counterexample'', ''inspect_upstream_transforms'', ''replay_failing_action'']),
     ([''Networks are NOT EQUIVALENT. Output'', ''Networks are NOT EQUIVALENT''], ''abc_not_equivalent_generic'',
       [''inspect_counterexample'', ''inspect_upstream_transforms'', ''replay_failing_action'']),
     ([''BMC-Induct failed in weak mode''], ''bmc_weak_failed'',
       [''increase_bmc_skip'', ''increase_bmc_k'', ''inspect_retime_pair'']),
     ([''BMC-Induct failed in BMC phase''], ''bmc_bmc_phase_failed'',
       [''increase_bmc_skip'', ''increase_bmc_k'', ''inspect_retime_pair'']),
     ([''BMC-Induct failed in Induct phase''], ''bmc_induct_phase_failed'',
       [''increase_bmc_k'', ''inspect_retime_pair'', ''replay_failing_action'']),
     ([''Amulet Verify failed''], ''amulet_verify_failed'',
       [''check_multiplier_sign_width'', ''check_blackboxing_path'', ''replay_failing_action'']),
     ([''DivVerify failed''], ''divverify_verify_failed'',
       [''check_divider_sign_width'', ''check_blackboxing_path'', ''replay_failing_action''])]"

fun teacher_loop :: "string list \<Rightarrow> FailureTeacher option" where
  "teacher_loop [] = None"
| "teacher_loop (clue # clues) =
     (case find (\<lambda>(cs, _). clue \<in> set cs) teacher_rules of
        Some (_, c, st) \<Rightarrow> Some \<lparr>cls = c, matched_clues = [clue], step_ids = st\<rparr>
      | None \<Rightarrow> teacher_loop clues)"

definition failure_teacher :: "'d CommandResult \<Rightarrow> string list \<Rightarrow> FailureTeacher" where
  "failure_teacher r clues =
     (case teacher_loop clues of
        Some t \<Rightarrow> t
      | None \<Rightarrow> \<lparr>cls = (if log_file r = [] then ''missing_log_or_parse_error''
                        else if exit_status r \<noteq> 0 then ''tool_exit_nonzero'' else ''unknown''),
                  matched_clues = [], step_ids = [''inspect_command_log'', ''replay_failing_action'']\<rparr>)"

section \<open>Failure packets\<close>

definition packet_key :: "string \<Rightarrow> string \<Rightarrow> string \<Rightarrow> string \<Rightarrow> int \<Rightarrow> string list \<Rightarrow> string" where
  "packet_key pair_id stage action outcome code clues =
     pair_id @ ''|'' @ stage @ ''|'' @ action @ ''|'' @ outcome @ ''|'' @ to_string code @
     concat (map (\<lambda>c. ''|'' @ c) clues)"

definition hex_digit :: "nat \<Rightarrow> char" where
  "hex_digit n = (if n < 10 then char_of (48 + n) else char_of (87 + n))"

definition packet_id_from_key :: "('w, 'd) tools \<Rightarrow> string \<Rightarrow> string" where
  "packet_id_from_key tls key =
     ''fp_'' @ map (\<lambda>i. hex_digit (unat (drop_bit (4 * i) (run_hash tls key)) mod 16)) (rev [0..<16])"

definition packet_fingerprint :: "string \<Rightarrow> string \<Rightarrow> string" where
  "packet_fingerprint packet_id lf = packet_id @ ''|'' @ lf"

definition packet_engine :: "string \<Rightarrow> string" where
  "packet_engine stage =
     (if stage = ''ABC'' then ''abc'' else if stage = ''BMC'' then ''bmc''
      else if stage = ''AMULET'' then ''amulet'' else if stage = ''DIVVERIFY'' then ''divverify''
      else if stage = ''REGION'' then ''abc'' else ''unknown'')"

definition packet_scope :: "string \<Rightarrow> string" where
  "packet_scope stage =
     (if stage = ''BMC'' then ''bmc'' else if stage = ''AMULET'' then ''multiplier_subcheck''
      else if stage = ''DIVVERIFY'' then ''divider_subcheck'' else if stage = ''REGION'' then ''region_local''
      else ''pair'')"

definition packet_pair_record :: "'d CheckConfig \<Rightarrow> 'd GuideTelemetry option \<Rightarrow> PairRecord" where
  "packet_pair_record conf tel =
     (let gold = m_name (gold_mod conf); gate = m_name (gate_mod conf);
          pair_id = get_pair_id gold gate;
          known = (case tel of None \<Rightarrow> None | Some t \<Rightarrow> pair_records t pair_id)
      in case known of
           Some r \<Rightarrow> r
         | None \<Rightarrow> PairRecord_init\<lparr>
             pr_pair_id := pair_id,
             pr_gold_mod := strip_backslash gold,
             pr_gate_mod := strip_backslash gate,
             has_submodule := module_has_submodule (cfg_design conf) (gold_mod conf),
             retimed := (case tel of None \<Rightarrow> False | Some t \<Rightarrow> gold \<in> set (retimed_mods t) \<or> gate \<in> set (retimed_mods t)),
             mul_touched := (case tel of None \<Rightarrow> False
               | Some t \<Rightarrow> gold \<in> set (multiplier_mods t) \<or> gate \<in> set (multiplier_mods t)),
             gold_dff_cnt := count_module_dffs (gold_mod conf) False,
             gate_dff_cnt := count_module_dffs (gate_mod conf) True\<rparr>)"

definition string_array_to_json :: "string list \<Rightarrow> 'd Json" where
  "string_array_to_json xs = JArr (map JStr xs)"

definition append_jsonl :: "('w, 'd) tools \<Rightarrow> string \<Rightarrow> 'd Json \<Rightarrow> ('w, 'd) gstate \<Rightarrow> ('w, 'd) gstate result" where
  "append_jsonl tls p j st =
     (if p = [] then Inr st
      else if \<not> can_open tls p (world st) then Inl (LogError ''Cannot open JSONL file for append'')
      else Inr (st\<lparr>jsonl := (jsonl st)(p := jsonl st p @ [j])\<rparr>))"

definition should_emit_failure_packet :: "string \<Rightarrow> string \<Rightarrow> ('w, 'd) gstate \<Rightarrow> bool \<times> ('w, 'd) gstate" where
  "should_emit_failure_packet p finger st =
     (if p = [] then (True, st)
      else if finger \<in> set (seen st p) then (False, st)
      else (True, st\<lparr>seen := (seen st)(p := op_insert (seen st p) finger)\<rparr>))"

definition packet_outcome :: "'d CommandResult \<Rightarrow> string list \<Rightarrow> string" where
  "packet_outcome r clues = (if proof_outcome r = [] then infer_proof_outcome r clues else proof_outcome r)"

definition packet_json ::
    "string \<Rightarrow> string \<Rightarrow> PairRecord \<Rightarrow> string \<Rightarrow> string \<Rightarrow> string \<Rightarrow> string list \<Rightarrow> MatchStats \<Rightarrow> 'd CommandResult \<Rightarrow>
     'd RunRecord list \<Rightarrow> string \<Rightarrow> 'd Json" where
  "packet_json packet_id dsg pair pair_id stage action clues match r trace finger =
     (let teacher = failure_teacher r clues;
          recent = map rr_action trace;
          last_2 = drop (length recent - 2) recent
      in JObj
        [(''schema_version'', JInt 1),
         (''packet_id'', JStr packet_id),
         (''design'', JStr dsg),
         (''gold_mod'', JStr (pr_gold_mod pair)),
         (''gate_mod'', JStr (pr_gate_mod pair)),
         (''pair_id'', JStr pair_id),
         (''engine'', JStr (packet_engine stage)),
         (''scope'', JStr (packet_scope stage)),
         (''pair'', pair_record_to_json pair),
         (''stage'', JStr stage),
         (''action'', JStr action),
         (''clues'', string_array_to_json clues),
         (''match'', match_stats_to_json match),
         (''has_dff'', JBool (gold_dff_cnt pair \<noteq> 0 \<or> gate_dff_cnt pair \<noteq> 0)),
         (''has_submodule'', JBool (has_submodule pair)),
         (''exact_match_cnt'', JInt (exact_total match)),
         (''typed_match_cnt'', JInt (typed_match_total match)),
         (''exit_status'', JInt (exit_status r)),
         (''raw_result_code'', JInt (raw_result_code r)),
         (''result_code'', JInt (result_code r)),
         (''proof_outcome'', JStr (packet_outcome r clues)),
         (''runtime_ms'', JNum (runtime_ms r)),
         (''log_file'', JStr (log_file r)),
         (''fingerprint'', JStr finger),
         (''trace'', JArr (map run_record_to_json trace)),
         (''recent_actions'', string_array_to_json recent),
         (''last_2_actions'', string_array_to_json last_2),
         (''teacher_class'', JStr (cls teacher)),
         (''next_steps'', string_array_to_json (step_ids teacher)),
         (''teacher'', JObj
            [(''class'', JStr (cls teacher)),
             (''matched_clues'', string_array_to_json (matched_clues teacher)),
             (''allowed_step_ids'', string_array_to_json (step_ids teacher))])])"

definition emit_failure_packet ::
    "('w, 'd) tools \<Rightarrow> 'd CheckConfig \<Rightarrow> string \<Rightarrow> string \<Rightarrow> 'd CommandResult \<Rightarrow> 'd RunRecord list \<Rightarrow>
     ('w, 'd) gstate \<Rightarrow> ('w, 'd) gstate result" where
  "emit_failure_packet tls conf stage action r trace st =
     (let file = fail_jsonl (dump_cfg conf)
      in if \<not> dump_fail (dump_cfg conf) \<or> file = [] then Inr st
         else let pair = packet_pair_record conf (telemetry st);
                  clues = extract_failure_clues (cr_output r);
                  match = get_match_stats conf (telemetry st);
                  packet_id = packet_id_from_key tls (packet_key (pr_pair_id pair) stage action
                    (packet_outcome r clues) (raw_result_code r) clues);
                  finger = packet_fingerprint packet_id (log_file r);
                  (go, st) = should_emit_failure_packet file finger st
              in if \<not> go then Inr st
                 else append_jsonl tls file (packet_json packet_id (strip_backslash (m_name (gold_mod conf))) pair
                   (pr_pair_id pair) stage action clues match r trace finger) st)"

text \<open>The overload for the subchecks, which knows only the names of the modules.\<close>

definition emit_failure_packet_named ::
    "('w, 'd) tools \<Rightarrow> MlDumpConfig \<Rightarrow> string \<Rightarrow> string \<Rightarrow> string \<Rightarrow> string \<Rightarrow> string \<Rightarrow> 'd CommandResult \<Rightarrow>
     ('w, 'd) gstate \<Rightarrow> ('w, 'd) gstate result" where
  "emit_failure_packet_named tls cfg pair_id stage action gold gate r st =
     (let file = fail_jsonl cfg
      in if \<not> dump_fail cfg \<or> file = [] then Inr st
         else let clues = extract_failure_clues (cr_output r);
                  packet_id = packet_id_from_key tls (packet_key pair_id stage action
                    (packet_outcome r clues) (raw_result_code r) clues);
                  finger = packet_fingerprint packet_id (log_file r);
                  (go, st) = should_emit_failure_packet file finger st
              in if \<not> go then Inr st
                 else append_jsonl tls file (packet_json packet_id gold
                   (PairRecord_init\<lparr>pr_pair_id := pair_id, pr_gold_mod := gold, pr_gate_mod := gate\<rparr>)
                   pair_id stage action clues MatchStats_init r [] finger) st)"

section \<open>Hints\<close>

definition HINT_CONFIDENCE :: "(string \<times> string) list" where
  "HINT_CONFIDENCE =
    [(''abc_miter_failed'', ''medium''),
     (''abc_not_equivalent_struct_hash'', ''high''),
     (''abc_not_equivalent_sat'', ''high''),
     (''abc_not_equivalent_fraiging'', ''high''),
     (''abc_not_equivalent_partitioning'', ''medium''),
     (''abc_not_equivalent_framing'', ''high''),
     (''abc_not_equivalent_simulation'', ''high''),
     (''abc_not_equivalent_generic'', ''medium''),
     (''bmc_weak_failed'', ''medium''),
     (''bmc_bmc_phase_failed'', ''medium''),
     (''bmc_induct_phase_failed'', ''medium''),
     (''amulet_verify_failed'', ''high''),
     (''divverify_verify_failed'', ''high''),
     (''tool_exit_nonzero'', ''low''),
     (''missing_log_or_parse_error'', ''low''),
     (''unknown'', ''low'')]"

definition HINT_LIKELY_CAUSES :: "(string \<times> string list) list" where
  "HINT_LIKELY_CAUSES =
    [(''abc_miter_failed'',
       [''ABC could not build a usable miter for this pair'',
        ''the current match density may be too sparse or misleading'',
        ''the mapped fallback path may not fit this pair'']),
     (''abc_not_equivalent_struct_hash'',
       [''a shallow mismatch is already visible before deeper proof phases'',
        ''boundary naming or cutpoint alignment may be off'',
        ''the pair may contain a real combinational mismatch'']),
     (''abc_not_equivalent_sat'',
       [''SAT found a concrete mismatch after structural hashing did not settle the pair'',
        ''the mismatch is likely semantic rather than purely syntactic'',
        ''the failing cone is often small enough to inspect directly'']),
     (''abc_not_equivalent_fraiging'',
       [''fraiging detected a concrete mismatch after structural hashing did not settle the pair'',
        ''the mismatch likely comes from a functional difference in the mapped pair'',
        ''the fraiging-sensitive cone should be inspected before changing matching'']),
     (''abc_not_equivalent_partitioning'',
       [''partition-level proof detected a concrete mismatch'',
        ''the partition boundary assumptions may not hold for this pair'',
        ''inspect the partition cutpoints and boundary naming before changing policy'']),
     (''abc_not_equivalent_framing'',
       [''sequential framing detected a concrete mismatch'',
        ''retimed or framed structure may be misaligned on this pair'',
        ''inspect retimed alignment and sequential framing before changing proof path'']),
     (''abc_not_equivalent_simulation'',
       [''simulation found a counterexample on this pair'',
        ''the mismatch is concrete and reproducible'',
        ''the counterexample-bearing signals should be replayed before changing policy'']),
     (''abc_not_equivalent_generic'',
       [''the proof engines found a concrete mismatch on this pair'',
        ''upstream transforms or matching may have misaligned the pair'',
        ''the failing cone should be replayed before changing policy'']),
     (''bmc_weak_failed'',
       [''weak-mode induction did not close with the current warmup'',
        ''retimed structure may need different skip or depth settings'',
        ''sequential alignment may still be off on this pair'']),
     (''bmc_bmc_phase_failed'',
       [''the BMC phase did not close within the current warmup/depth budget'',
        ''retimed structure may still need more skip or depth'',
        ''the trace should be replayed before changing proof policy'']),
     (''bmc_induct_phase_failed'',
       [''the induction step failed even after the bounded phase ran'',
        ''the pair may need a different retime or warmup setup'',
        ''proof depth may still be too small for this pair'']),
     (''amulet_verify_failed'',
       [''the multiplier-specific flow rejected the current candidate'',
        ''signedness or width assumptions may be wrong'',
        ''the blackboxing or substitute path may not match the extracted cone'']),
     (''divverify_verify_failed'',
       [''the divider-specific flow rejected the current candidate'',
        ''signedness or width assumptions may be wrong'',
        ''the signature file may not match the extracted divider'']),
     (''tool_exit_nonzero'',
       [''the external tool exited unsuccessfully before a clear clue was extracted'',
        ''the command log is needed before changing the classification'']),
     (''missing_log_or_parse_error'',
       [''the packet did not retain enough logging to classify the failure cleanly'',
        ''the command should be replayed to recover the missing context'']),
     (''unknown'',
       [''the packet does not match a known failure class yet'',
        ''the command log needs manual inspection''])]"

definition HINT_STEP_REASON :: "(string \<times> string) list" where
  "HINT_STEP_REASON =
    [(''retry_cec_nomap'',
       ''Retry the pair without the current name map to see whether mapping sparsity is blocking the proof path.''),
     (''retry_dsec_map'',
       ''Escalate to the sequential engine on the mapped pair when combinational checks are inconclusive.''),
     (''inspect_match_density'',
       ''Inspect exact and typed match counts before changing the proof flow.''),
     (''increase_bmc_skip'',
       ''Give the BMC warmup more room before concluding the sequential proof path is blocked.''),
     (''increase_bmc_k'',
       ''Increase the search depth so the failing sequential proof has a chance to settle.''),
     (''inspect_retime_pair'',
       ''Inspect retimed structure and warmup alignment on this module pair.''),
     (''check_multiplier_sign_width'',
       ''Check multiplier signedness and width assumptions against the extracted cone.''),
     (''check_divider_sign_width'',
       ''Check divider signedness and width assumptions against the extracted cone.''),
     (''check_blackboxing_path'',
       ''Verify the multiplier blackboxing/substitution path before changing the proof result.''),
     (''replay_failing_action'',
       ''Replay the exact failing action with the captured log to confirm the failure mode.''),
     (''inspect_counterexample'',
       ''Inspect the earliest counterexample-bearing signals before changing transforms or matching.''),
     (''inspect_upstream_transforms'',
       ''Check whether preprocessing or structural rewrites changed the behavior or proof contract.''),
     (''inspect_partition_boundary'',
       ''Inspect partition boundary assumptions before trusting a local mismatch.''),
     (''inspect_command_log'',
       ''Read the captured command log before changing policy or classification.'')]"

definition json_string_val :: "'d Json \<Rightarrow> string \<Rightarrow> string \<Rightarrow> string" where
  "json_string_val obj key fallback =
     (case map_of (object_items obj) key of
        Some v \<Rightarrow> if is_string v then string_value v else fallback | None \<Rightarrow> fallback)"

definition hint_summarize :: "'d Json \<Rightarrow> string" where
  "hint_summarize packet =
     (let tc = json_string_val packet ''teacher_class'' ''unknown'';
          action = json_string_val packet ''action'' ''unknown_action'';
          stage = json_string_val packet ''stage'' ''UNKNOWN'';
          pid = json_string_val packet ''pair_id'' ''unknown_pair'';
          proof_outcome = json_string_val packet ''proof_outcome'' ''unknown'';
          clues = json_get packet ''clues''
      in
      if tc = ''abc_miter_failed'' then stage @ '' blocked on '' @ pid @ '' while running '' @ action @ ''; ABC could not build a usable miter.''
      else if tc = ''abc_not_equivalent_struct_hash'' then stage @ '' reported a mismatch for '' @ pid @ '' during structural hashing while running '' @ action @ ''.''
      else if tc = ''abc_not_equivalent_sat'' then stage @ '' reported a mismatch for '' @ pid @ '' after SAT while running '' @ action @ ''.''
      else if tc = ''abc_not_equivalent_fraiging'' then stage @ '' reported a mismatch for '' @ pid @ '' after fraiging while running '' @ action @ ''.''
      else if tc = ''abc_not_equivalent_partitioning'' then stage @ '' reported a mismatch for '' @ pid @ '' after partitioning while running '' @ action @ ''.''
      else if tc = ''abc_not_equivalent_framing'' then stage @ '' reported a mismatch for '' @ pid @ '' after framing while running '' @ action @ ''.''
      else if tc = ''abc_not_equivalent_simulation'' then stage @ '' reported a mismatch for '' @ pid @ '' after simulation while running '' @ action @ ''.''
      else if tc = ''abc_not_equivalent_generic'' then stage @ '' reported a mismatch for '' @ pid @ '' while running '' @ action @ ''; replay the failing pair before changing heuristics.''
      else if tc = ''bmc_weak_failed'' then stage @ '' blocked for '' @ pid @ '' while running '' @ action @ ''; weak-mode induction did not close.''
      else if tc = ''bmc_bmc_phase_failed'' then stage @ '' blocked for '' @ pid @ '' while running '' @ action @ ''; the bounded phase did not close cleanly.''
      else if tc = ''bmc_induct_phase_failed'' then stage @ '' blocked for '' @ pid @ '' while running '' @ action @ ''; the induction phase failed.''
      else if tc = ''amulet_verify_failed'' then stage @ '' blocked for '' @ pid @ '' while running '' @ action @ ''; the multiplier-specific verification path rejected the candidate.''
      else if tc = ''divverify_verify_failed'' then stage @ '' blocked for '' @ pid @ '' while running '' @ action @ ''; the divider-specific verification path rejected the candidate.''
      else if tc = ''tool_exit_nonzero'' then stage @ '' hit a tool-side execution error for '' @ pid @ '' while running '' @ action @ ''.''
      else if tc = ''missing_log_or_parse_error'' then stage @ '' failed for '' @ pid @ '' while running '' @ action @ ''; the packet is missing enough log context for a clean classification.''
      else if proof_outcome = ''timeout'' then stage @ '' timed out for '' @ pid @ '' while running '' @ action @ ''.''
      else if is_array clues \<and> array_items clues \<noteq> []
      then stage @ '' failed for '' @ pid @ '' while running '' @ action @ ''; primary clue: '' @
             string_value (hd (array_items clues)) @ ''.''
      else stage @ '' failed for '' @ pid @ '' while running '' @ action @
             ''; inspect the captured log before changing the proof path.'')"

definition hint_step_objs :: "string list \<Rightarrow> 'd Json" where
  "hint_step_objs ids = JArr (map (\<lambda>(rank, sid). JObj
     [(''id'', JStr sid), (''rank'', JInt (int rank)),
      (''reason'', JStr (case map_of HINT_STEP_REASON sid of Some reason \<Rightarrow> reason
         | None \<Rightarrow> ''Inspect the captured failure context before changing the proof path.''))])
     (zip [1..<Suc (length ids)] ids))"

definition hint_step_ids :: "'d Json \<Rightarrow> string list" where
  "hint_step_ids packet =
     (let teacher = json_get packet ''teacher'';
          ids = (if is_object teacher \<and> is_array (json_get teacher ''allowed_step_ids'')
                 then map string_value (array_items (json_get teacher ''allowed_step_ids''))
                 else if is_array (json_get packet ''next_steps'')
                 then map string_value (array_items (json_get packet ''next_steps'')) else [])
      in if ids = [] then [''inspect_command_log'', ''replay_failing_action''] else ids)"

definition failure_hint_from_packet :: "'d Json \<Rightarrow> 'd Json result" where
  "failure_hint_from_packet packet =
     (let tc = json_string_val packet ''teacher_class'' ''unknown'';
          confidence = (case map_of HINT_CONFIDENCE tc of Some c \<Rightarrow> c | None \<Rightarrow> ''low'')
      in case (case map_of HINT_LIKELY_CAUSES tc of Some cs \<Rightarrow> Some cs | None \<Rightarrow> map_of HINT_LIKELY_CAUSES ''unknown'') of
           None \<Rightarrow> Inl OutOfRange
         | Some causes \<Rightarrow> Inr (JObj
             [(''packet_id'', json_get packet ''packet_id''),
              (''pair_id'', json_get packet ''pair_id''),
              (''scope'', json_get packet ''scope''),
              (''engine'', json_get packet ''engine''),
              (''stage'', json_get packet ''stage''),
              (''action'', json_get packet ''action''),
              (''proof_outcome'', json_get packet ''proof_outcome''),
              (''failure_kind'', JStr tc),
              (''confidence'', JStr confidence),
              (''hint_summary'', JStr (hint_summarize packet)),
              (''likely_causes'', JArr (map JStr causes)),
              (''next_steps'', hint_step_objs (hint_step_ids packet)),
              (''teacher'', json_get packet ''teacher'')]))"

text \<open>
  \<open>write_failure_hints\<close> reads the packets back. The lines of a JSONL file are its values here, so
  a line that does not parse does not occur.
\<close>

definition write_failure_hints ::
    "('w, 'd) tools \<Rightarrow> string \<Rightarrow> string \<Rightarrow> ('w, 'd) gstate \<Rightarrow> ('w, 'd) gstate result" where
  "write_failure_hints tls fail_file hints_file st =
     (if fail_file = [] \<or> hints_file = [] \<or> \<not> can_open tls fail_file (world st) then Inr st
      else if \<not> can_open tls hints_file (world st) then Inl (LogError ''Cannot open for writing'')
      else let items = List.map_filter (\<lambda>p. case failure_hint_from_packet p of Inr h \<Rightarrow> Some h | Inl _ \<Rightarrow> None)
                 (jsonl st fail_file)
           in Inr (st\<lparr>jsonl := (jsonl st)(hints_file := [JObj
                [(''schema_version'', JInt 1), (''source_fail_jsonl'', JStr fail_file),
                 (''provider'', JObj [(''kind'', JStr ''rule''), (''model'', JNull)]),
                 (''items'', JArr items)]])\<rparr>))"

section \<open>Outcomes and classes\<close>

lemma known_clues_distinct: "distinct known_clues"
  by code_simp

lemma extract_failure_clues_filter: "extract_failure_clues out = filter (contains out) known_clues"
proof -
  have "foldl (\<lambda>cs c. if contains out c then add_unique_clue cs c else cs) acc xs = acc @ filter (contains out) xs"
    if "distinct (acc @ xs)" for acc xs
    using that
  proof (induction xs arbitrary: acc)
    case (Cons x xs)
    then show ?case using Cons.IH [of "acc @ [x]"] Cons.IH [of acc] by (auto simp: add_unique_clue_def)
  qed simp
  from this [of "[]" known_clues] show ?thesis
    using known_clues_distinct by (simp add: extract_failure_clues_def)
qed

lemma generic_clue_known: "''Networks are NOT EQUIVALENT'' \<in> set known_clues"
  by code_simp

lemma contains_refl [simp]: "contains s s"
  by (simp add: contains_sublist)

lemma not_equivalent_clue:
  "(\<exists>clue \<in> set (extract_failure_clues out). contains clue ''Networks are NOT EQUIVALENT'') \<longleftrightarrow>
    contains out ''Networks are NOT EQUIVALENT''"
  unfolding extract_failure_clues_filter
  using generic_clue_known contains_trans [of out _ "''Networks are NOT EQUIVALENT''"] contains_refl by auto

lemma teacher_tables:
  "list_all (\<lambda>(_, c, st). c \<in> set (map fst HINT_CONFIDENCE) \<and> c \<in> set (map fst HINT_LIKELY_CAUSES) \<and>
     list_all (\<lambda>s. s \<in> set (map fst HINT_STEP_REASON)) st \<and> st \<noteq> []) teacher_rules"
  by code_simp

lemma fallback_tables:
  "list_all (\<lambda>c. c \<in> set (map fst HINT_CONFIDENCE) \<and> c \<in> set (map fst HINT_LIKELY_CAUSES))
     [''missing_log_or_parse_error'', ''tool_exit_nonzero'', ''unknown'']"
  "list_all (\<lambda>s. s \<in> set (map fst HINT_STEP_REASON)) [''inspect_command_log'', ''replay_failing_action'']"
  by code_simp+

definition teacher_ok :: "FailureTeacher \<Rightarrow> bool" where
  "teacher_ok t \<longleftrightarrow> cls t \<in> set (map fst HINT_CONFIDENCE) \<and> cls t \<in> set (map fst HINT_LIKELY_CAUSES) \<and>
     list_all (\<lambda>s. s \<in> set (map fst HINT_STEP_REASON)) (step_ids t) \<and> step_ids t \<noteq> []"

lemma teacher_loop_ok: "teacher_loop clues = Some t \<Longrightarrow> teacher_ok t \<and> set (matched_clues t) \<subseteq> set clues"
proof (induction clues rule: teacher_loop.induct)
  case (2 clue clues)
  show ?case
  proof (cases "find (\<lambda>(cs, _). clue \<in> set cs) teacher_rules")
    case None
    then show ?thesis using 2 by auto
  next
    case (Some rule)
    then have "rule \<in> set teacher_rules" unfolding find_Some_iff by (metis nth_mem)
    moreover obtain cs c st where rule: "rule = (cs, c, st)" by (cases rule)
    moreover have "clue \<in> set cs" using Some rule by (auto simp: find_Some_iff)
    ultimately show ?thesis using Some 2(2) teacher_tables by (force simp: teacher_ok_def list_all_iff)
  qed
qed simp

lemma failure_teacher_ok: "teacher_ok (failure_teacher r clues)"
  using teacher_loop_ok [of clues] fallback_tables
  by (cases "teacher_loop clues") (auto simp: failure_teacher_def teacher_ok_def)

section \<open>Packets in the file\<close>

definition fingerprints :: "'d Json list \<Rightarrow> string list" where
  "fingerprints js = map (\<lambda>j. string_value (json_get j ''fingerprint'')) js"

definition packets_ok :: "('w, 'd) gstate \<Rightarrow> string \<Rightarrow> bool" where
  "packets_ok st p \<longleftrightarrow> distinct (fingerprints (jsonl st p)) \<and> set (fingerprints (jsonl st p)) \<subseteq> set (seen st p)"

lemma packet_json_get:
  assumes "pj = packet_json packet_id dsg pair pair_id stage action clues match r trace finger"
  shows "json_get pj ''fingerprint'' = JStr finger"
    and "json_get pj ''teacher_class'' = JStr (cls (failure_teacher r clues))"
    and "json_get (json_get pj ''teacher'') ''allowed_step_ids'' =
      string_array_to_json (step_ids (failure_teacher r clues))"
    and "is_object (json_get pj ''teacher'')"
    and "json_get pj ''pair_id'' = JStr pair_id" and "json_get pj ''stage'' = JStr stage"
    and "json_get pj ''action'' = JStr action" and "json_get pj ''packet_id'' = JStr packet_id"
    and "json_get pj ''proof_outcome'' = JStr (packet_outcome r clues)"
  unfolding assms packet_json_def Let_def json_get_def by simp_all

lemma emit_step:
  assumes "packets_ok st p" "string_value (json_get j ''fingerprint'') = finger" "p \<noteq> []"
    "should_emit_failure_packet p finger st = (go, st')"
    "(if \<not> go then Inr st' else append_jsonl tls p j st') = Inr st2"
  shows "packets_ok st2 p" and "finger \<in> set (seen st2 p)"
    and "jsonl st2 p = (if finger \<in> set (seen st p) then jsonl st p else jsonl st p @ [j])"
  using assms
  by (auto simp: should_emit_failure_packet_def append_jsonl_def packets_ok_def fingerprints_def image_subset_iff split: if_splits)

lemma hint_step_objs_ids: "map (\<lambda>s. json_get s ''id'') (array_items (hint_step_objs ids)) = map JStr ids"
proof -
  have "map (\<lambda>s. json_get s ''id'') (array_items (hint_step_objs ids)) = map (JStr \<circ> snd) (zip [1..<Suc (length ids)] ids)"
    unfolding hint_step_objs_def by (auto simp: json_get_def)
  also have "\<dots> = map JStr ids" by (simp add: map_map [symmetric] del: map_map upt_Suc)
  finally show ?thesis .
qed

lemma hint_step_objs_ranks:
  "map (\<lambda>s. json_get s ''rank'') (array_items (hint_step_objs ids)) = map (\<lambda>i. JInt (int i)) [1..<Suc (length ids)]"
proof -
  have "map (\<lambda>s. json_get s ''rank'') (array_items (hint_step_objs ids)) =
      map ((\<lambda>i. JInt (int i)) \<circ> fst) (zip [1..<Suc (length ids)] ids)"
    unfolding hint_step_objs_def by (auto simp: json_get_def)
  also have "\<dots> = map (\<lambda>i. JInt (int i)) [1..<Suc (length ids)]"
    by (simp only: map_map [symmetric] map_fst_zip length_upt diff_Suc_1)
  finally show ?thesis .
qed

lemma emit_failure_packet_facts:
  assumes "packets_ok st (fail_jsonl (dump_cfg conf))" "fail_jsonl (dump_cfg conf) \<noteq> []"
    "emit_failure_packet tls conf stage action r trace st = Inr st'"
  shows "packets_ok st' (fail_jsonl (dump_cfg conf)) \<and>
    emit_failure_packet tls conf stage action r trace st' = Inr st' \<and>
    (jsonl st' (fail_jsonl (dump_cfg conf)) = jsonl st (fail_jsonl (dump_cfg conf)) \<or>
     (\<exists>j. jsonl st' (fail_jsonl (dump_cfg conf)) = jsonl st (fail_jsonl (dump_cfg conf)) @ [j]))"
proof (cases "dump_fail (dump_cfg conf)")
  case False
  then show ?thesis using assms by (simp add: emit_failure_packet_def)
next
  case True
  let ?p = "fail_jsonl (dump_cfg conf)"
  define pair where "pair = packet_pair_record conf (telemetry st)"
  define clues where "clues = extract_failure_clues (cr_output r)"
  define pid where "pid = packet_id_from_key tls (packet_key (pr_pair_id pair) stage action
    (packet_outcome r clues) (raw_result_code r) clues)"
  define finger where "finger = packet_fingerprint pid (log_file r)"
  define j where "j = packet_json pid (strip_backslash (m_name (gold_mod conf))) pair (pr_pair_id pair) stage action
    clues (get_match_stats conf (telemetry st)) r trace finger"
  obtain go st1 where go: "should_emit_failure_packet ?p finger st = (go, st1)" by fastforce
  have step: "(if \<not> go then Inr st1 else append_jsonl tls ?p j st1) = Inr st'"
    using assms(2,3) True go
    by (cases go) (simp_all add: emit_failure_packet_def Let_def pair_def clues_def pid_def finger_def j_def)
  have f: "string_value (json_get j ''fingerprint'') = finger" by (simp add: packet_json_get [OF j_def])
  note st' = emit_step [OF assms(1) f assms(2) go step]
  have tel: "telemetry st' = telemetry st"
    using go step by (auto simp: should_emit_failure_packet_def append_jsonl_def split: if_splits)
  have "emit_failure_packet tls conf stage action r trace st' = Inr st'"
    using st'(2) True assms(2)
    by (simp add: emit_failure_packet_def Let_def should_emit_failure_packet_def tel pair_def clues_def pid_def finger_def)
  then show ?thesis using st' by auto
qed

lemma emit_failure_packet_ok:
  assumes "packets_ok st (fail_jsonl (dump_cfg conf))" "emit_failure_packet tls conf stage action r trace st = Inr st'"
  shows "packets_ok st' (fail_jsonl (dump_cfg conf))"
  using assms emit_failure_packet_facts [OF assms(1) _ assms(2)]
  by (cases "fail_jsonl (dump_cfg conf) = []") (auto simp: emit_failure_packet_def Let_def)

section \<open>Guarantees\<close>

text \<open>The outcome read from the output of a tool is negative exactly when the output reports a difference,
  whatever else it says, and positive exactly when the output reports equivalence and no
  difference.\<close>

lemma outcome_from_output:
  "(infer_proof_outcome r (extract_failure_clues (cr_output r)) = ''not_equivalent'' \<longleftrightarrow>
      contains (cr_output r) ''Networks are NOT EQUIVALENT'') \<and>
   (infer_proof_outcome r (extract_failure_clues (cr_output r)) = ''equivalent'' \<longleftrightarrow>
      contains (cr_output r) ''Networks are equivalent'' \<and> \<not> contains (cr_output r) ''Networks are NOT EQUIVALENT'')"
  unfolding infer_proof_outcome_def not_equivalent_clue by simp

text \<open>Every failure gets a class that both hint tables know and at least one next step, each with a recorded
  reason, so that the hints derived from it never fall back to the defaults.\<close>

lemma failure_class_has_hints:
  "cls (failure_teacher r clues) \<in> set (map fst HINT_CONFIDENCE) \<and>
   cls (failure_teacher r clues) \<in> set (map fst HINT_LIKELY_CAUSES) \<and>
   step_ids (failure_teacher r clues) \<noteq> [] \<and>
   set (step_ids (failure_teacher r clues)) \<subseteq> set (map fst HINT_STEP_REASON)"
  using failure_teacher_ok [of r clues] by (auto simp: teacher_ok_def list_all_iff)


definition witness_tools :: "(unit, int) tools" where
  "witness_tools = \<lparr>run_cmd = \<lambda>_ w. (Some (Some 0, ''Networks are NOT EQUIVALENT'', 3), w),
     make_temp_file = \<lambda>s w. (s, w), create_directory = \<lambda>_ w. (True, w), can_open = \<lambda>_ _. True,
     run_hash = \<lambda>_. 77, base_tmpdir = ''/tmp'', smtbmc_local = [], smtbmc_local_ok = False\<rparr>"

definition witness_state :: "(unit, int) gstate" where
  "witness_state = \<lparr>world = (), jsonl = \<lambda>_. [], seen = \<lambda>_. [], telemetry = None\<rparr>"

definition witness_module :: "string \<Rightarrow> Module" where
  "witness_module name = \<lparr>m_name = name, m_wires = [], m_cells = [], m_connections = [], m_others = [],
     m_ports = [], m_attrs = []\<rparr>"

definition witness_config :: "int CheckConfig" where
  "witness_config = \<lparr>nocleanup = False, abc_exe_file = ''abc'', tempdir_name = ''/tmp'',
     cfg_design = [], gold_mod = witness_module ''gold'', gate_mod = witness_module ''gate'',
     gold_prefix = ''gold_'', gate_prefix = ''gate_'', lib_file = [], accept_sugs_file = [], external_match_file = [],
     seq_check_cfg = \<lparr>k_induct = 20, step_skip = 0, weak_mode = False, no_init = False\<rparr>,
     dump_cfg = \<lparr>dump_sched = False, dump_match = False, dump_fail = True, sched_jsonl = [], match_jsonl = [],
       fail_jsonl = ''fail.jsonl''\<rparr>, sched_model = None, match_model = None\<rparr>"


text \<open>C33: A hint made from a recorded packet names the class of the failure and its pair, and lists exactly the
  steps chosen when the failure was classified, ranked in that order.\<close>

theorem packet_hint_roundtrip:
  "\<exists>h. failure_hint_from_packet (packet_json packet_id dsg pair pair_id stage action clues match r trace finger) = Inr h \<and>
    json_get h ''failure_kind'' = JStr (cls (failure_teacher r clues)) \<and>
    json_get h ''pair_id'' = JStr pair_id \<and> json_get h ''packet_id'' = JStr packet_id \<and>
    map (\<lambda>s. json_get s ''id'') (array_items (json_get h ''next_steps'')) = map JStr (step_ids (failure_teacher r clues)) \<and>
    map (\<lambda>s. json_get s ''rank'') (array_items (json_get h ''next_steps'')) =
      map (\<lambda>i. JInt (int i)) [1..<Suc (length (step_ids (failure_teacher r clues)))]"
proof -
  let ?pj = "packet_json packet_id dsg pair pair_id stage action clues match r trace finger"
  let ?t = "failure_teacher r clues"
  have ok: "teacher_ok ?t" by (rule failure_teacher_ok)
  have tc: "json_string_val ?pj ''teacher_class'' ''unknown'' = cls ?t"
    using packet_json_get(2) [OF refl, of packet_id dsg pair pair_id stage action clues match r trace finger]
    by (auto simp: json_string_val_def json_get_def split: option.splits)
  have ids: "hint_step_ids ?pj = step_ids ?t"
    using ok packet_json_get(3,4) [OF refl, of packet_id dsg pair pair_id stage action clues match r trace finger]
    by (simp add: hint_step_ids_def Let_def string_array_to_json_def o_def teacher_ok_def)
  obtain cs where cs: "map_of HINT_LIKELY_CAUSES (cls ?t) = Some cs"
    using ok unfolding teacher_ok_def by (metis domIff dom_map_of_conv_image_fst image_set not_None_eq)
  let ?h = "JObj
    [(''packet_id'', json_get ?pj ''packet_id''), (''pair_id'', json_get ?pj ''pair_id''),
     (''scope'', json_get ?pj ''scope''), (''engine'', json_get ?pj ''engine''),
     (''stage'', json_get ?pj ''stage''), (''action'', json_get ?pj ''action''),
     (''proof_outcome'', json_get ?pj ''proof_outcome''), (''failure_kind'', JStr (cls ?t)),
     (''confidence'', JStr (case map_of HINT_CONFIDENCE (cls ?t) of Some c \<Rightarrow> c | None \<Rightarrow> ''low'')),
     (''hint_summary'', JStr (hint_summarize ?pj)), (''likely_causes'', JArr (map JStr cs)),
     (''next_steps'', hint_step_objs (step_ids ?t)), (''teacher'', json_get ?pj ''teacher'')]"
  obtain h where hd: "h = ?h" by blast
  have h: "failure_hint_from_packet ?pj = Inr h"
    unfolding failure_hint_from_packet_def tc ids Let_def hd by (simp add: cs)
  have steps: "json_get h ''next_steps'' = hint_step_objs (step_ids ?t)" by (simp add: hd json_get_def)
  have kind: "json_get h ''failure_kind'' = JStr (cls ?t)" by (simp add: hd json_get_def)
  have named: "json_get h ''pair_id'' = json_get ?pj ''pair_id''" "json_get h ''packet_id'' = json_get ?pj ''packet_id''"
    by (simp_all add: hd json_get_def)
  show ?thesis
    by (rule exI [of _ h])
      (simp only: h steps kind named packet_json_get [OF refl] hint_step_objs_ids hint_step_objs_ranks simp_thms)
qed

end
