(* ===== verification/Guide_Plan.thy ===== *)
theory Guide_Plan
  imports Guide_Fail
begin

text \<open>
  Proving a pair of modules with external engines, from \<open>passes/guide/check/core.cc\<close>: the order in
  which the four ABC commands are tried, running them and reading their verdict, the sample that is
  dumped for training, and the bounded check with induction. Writing the input files of the engines
  is a parameter of \<open>abc_cec_module\<close> and \<open>bmcinduct_check\<close>.
\<close>

section \<open>The plan\<close>

definition collect_pair_record :: "'d CheckConfig \<Rightarrow> 'd GuideTelemetry option \<Rightarrow> int \<Rightarrow> PairRecord" where
  "collect_pair_record conf tel bbconsts =
     (let gold = m_name (gold_mod conf); gate = m_name (gate_mod conf)
      in PairRecord_init\<lparr>
           pr_pair_id := get_pair_id gold gate,
           pr_gold_mod := strip_backslash gold,
           pr_gate_mod := strip_backslash gate,
           gold_dff_cnt := count_module_dffs (gold_mod conf) False,
           gate_dff_cnt := count_module_dffs (gate_mod conf) True,
           bb_const_in_cnt := bbconsts,
           has_submodule := module_has_submodule (cfg_design conf) (gold_mod conf),
           retimed := (case tel of None \<Rightarrow> False | Some t \<Rightarrow> gold \<in> set (retimed_mods t) \<or> gate \<in> set (retimed_mods t)),
           mul_touched := (case tel of None \<Rightarrow> False
             | Some t \<Rightarrow> gold \<in> set (multiplier_mods t) \<or> gate \<in> set (multiplier_mods t))\<rparr>)"

definition heuristic_abc_plan :: "ActionKind list" where
  "heuristic_abc_plan = [CEC_MAP, CEC_NOMAP, DSEC_MAP, DSEC_NOMAP]"

definition model_loaded :: "'d CheckConfig \<Rightarrow> bool" where
  "model_loaded conf \<longleftrightarrow> (case sched_model conf of None \<Rightarrow> False | Some m \<Rightarrow> loaded m)"

fun rank_actions ::
    "'d fp_ops \<Rightarrow> 'd GuideSchedModel \<Rightarrow> PairRecord \<Rightarrow> MatchStats \<Rightarrow> ActionKind list \<Rightarrow> ('d \<times> ActionKind) list result" where
  "rank_actions fp model pr ms [] = Inr []"
| "rank_actions fp model pr ms (a # as) =
     rbind (predict_sched_cost fp model (get_action_name a) pr ms) (\<lambda>cost.
       rmap (Cons (cost, a)) (rank_actions fp model pr ms as))"

definition ranked_less :: "'d fp_ops \<Rightarrow> 'd \<times> ActionKind \<Rightarrow> 'd \<times> ActionKind \<Rightarrow> bool" where
  "ranked_less fp l r =
     (if \<not> fp_eq fp (fst l) (fst r) then fp_less fp (fst l) (fst r)
      else get_action_name (snd l) < get_action_name (snd r))"

definition learned_abc_plan ::
    "'d fp_ops \<Rightarrow> 'd CheckConfig \<Rightarrow> PairRecord \<Rightarrow> MatchStats \<Rightarrow> ActionKind list result" where
  "learned_abc_plan fp conf pr ms =
     (case sched_model conf of
        None \<Rightarrow> Inr heuristic_abc_plan
      | Some model \<Rightarrow>
          if \<not> loaded model then Inr heuristic_abc_plan
          else rmap (\<lambda>ranked. map snd (sort_by (ranked_less fp) ranked))
                 (rank_actions fp model pr ms heuristic_abc_plan))"

section \<open>Running one action\<close>

fun abc_command :: "ActionKind \<Rightarrow> string \<Rightarrow> string \<Rightarrow> string \<Rightarrow> string" where
  "abc_command CEC_MAP mf gof gaf = ''cec -M '' @ mf @ '' '' @ gaf @ '' '' @ gof"
| "abc_command CEC_NOMAP mf gof gaf = ''cec -n '' @ gaf @ '' '' @ gof"
| "abc_command DSEC_MAP mf gof gaf = ''dsec -M '' @ mf @ '' '' @ gaf @ '' '' @ gof"
| "abc_command DSEC_NOMAP mf gof gaf = ''dsec -n '' @ gaf @ '' '' @ gof"

definition shell_command :: "'d CheckConfig \<Rightarrow> string \<Rightarrow> string" where
  "shell_command conf abc_cmd = abc_exe_file conf @ '' -c '' @ [CHR 0x27] @ abc_cmd @ [CHR 0x27]"

definition out2result :: "(string \<times> int) list" where
  "out2result = [(''Networks are equivalent'', 1), (''Networks are NOT EQUIVALENT'', 2),
     (''Miter computation has failed'', 3)]"

text \<open>The outcome assigned after the run; a code outside 0 to 3 keeps the inferred one when the status is 0.\<close>

definition abc_outcome :: "int \<Rightarrow> int \<Rightarrow> string \<Rightarrow> string" where
  "abc_outcome rc status inferred =
     (if rc = 1 then ''equivalent'' else if rc = 2 then ''not_equivalent'' else if rc = 3 then ''blocked''
      else if rc = 0 then ''blocked'' else if status \<noteq> 0 then ''tool_error'' else inferred)"

definition run_abc_action ::
    "('w, 'd) tools \<Rightarrow> 'd fp_ops \<Rightarrow> 'd CheckConfig \<Rightarrow> bool \<Rightarrow> ActionKind \<Rightarrow> string \<Rightarrow> string \<Rightarrow> string \<Rightarrow>
     ('w, 'd) gstate \<Rightarrow> ('d RunRecord \<times> 'd CommandResult \<times> ('w, 'd) gstate) result" where
  "run_abc_action tls fp conf fatal action mf gof gaf st =
     (let cmd = shell_command conf (abc_command action mf gof gaf);
          act = get_action_name action;
          pair_id = get_pair_id (m_name (gold_mod conf)) (m_name (gate_mod conf))
      in rbind (failure_log_dir tls (dump_cfg conf) (world st)) (\<lambda>(log_dir, w).
         rbind (execute_and_check tls fp cmd out2result (tempdir_name conf)
                 (''abc-'' @ sanitize_filename pair_id @ ''-'' @ act) log_dir w) (\<lambda>(rc, status, r, w).
         let st = st\<lparr>world := w\<rparr>;
             r = r\<lparr>raw_result_code := rc, proof_outcome := abc_outcome rc status (proof_outcome r)\<rparr>
         in rbind (if status \<noteq> 0 \<or> rc = 0
                   then rbind (emit_failure_packet tls conf ''ABC'' act (r\<lparr>result_code := rc\<rparr>) [] st) (\<lambda>st.
                          if fatal then Inl (LogError ''Error executing ABC command'') else Inr st)
                   else Inr st) (\<lambda>st.
            Inr (\<lparr>rr_pair_id = pair_id, rr_action = act, rr_exit_status = exit_status r, rr_result_code = rc,
                   rr_proof_outcome = proof_outcome r, rr_runtime_ms = runtime_ms r, rr_log_file = log_file r\<rparr>,
                 r\<lparr>result_code := rc\<rparr>, st)))))"

section \<open>Running the plan\<close>

record 'd plan_state =
  ps_trace :: "'d RunRecord list"
  ran_dsec_map :: bool
  prev_result :: int
  solved :: bool
  last_cmd :: "'d CommandResult"
  last_act :: string

definition plan_state_init :: "'d fp_ops \<Rightarrow> 'd plan_state" where
  "plan_state_init fp = \<lparr>ps_trace = [], ran_dsec_map = False, prev_result = 0, solved = False,
     last_cmd = CommandResult_init fp, last_act = []\<rparr>"

text \<open>The actions that are passed over: \<open>guided\<close> is the mode without a model and without a dump.\<close>

definition skip_action :: "bool \<Rightarrow> bool \<Rightarrow> 'd plan_state \<Rightarrow> ActionKind \<Rightarrow> bool" where
  "skip_action has_dff guided ps action \<longleftrightarrow>
     (\<not> has_dff \<and> (action = DSEC_MAP \<or> action = DSEC_NOMAP)) \<or>
     (guided \<and>
       ((action = CEC_NOMAP \<and> prev_result ps \<noteq> 3) \<or>
        (action = DSEC_MAP \<and> \<not> (prev_result ps = 2 \<or> prev_result ps = 3)) \<or>
        (action = DSEC_NOMAP \<and> (\<not> ran_dsec_map ps \<or> prev_result ps \<noteq> 3))))"

definition record_run :: "ActionKind \<Rightarrow> 'd RunRecord \<Rightarrow> 'd CommandResult \<Rightarrow> 'd plan_state \<Rightarrow> 'd plan_state" where
  "record_run action rec cmd_res ps = ps\<lparr>
     ps_trace := ps_trace ps @ [rec],
     prev_result := rr_result_code rec,
     last_cmd := cmd_res,
     last_act := rr_action rec,
     ran_dsec_map := ran_dsec_map ps \<or> action = DSEC_MAP,
     solved := solved ps \<or> rr_result_code rec = 1\<rparr>"

text \<open>The loop over the plan; \<open>run\<close> is the function object that runs one action.\<close>

fun plan_loop ::
    "(ActionKind \<Rightarrow> 's \<Rightarrow> ('d RunRecord \<times> 'd CommandResult \<times> 's) result) \<Rightarrow> bool \<Rightarrow> bool \<Rightarrow> bool \<Rightarrow>
     ActionKind list \<Rightarrow> 'd plan_state \<Rightarrow> 's \<Rightarrow> ('d plan_state \<times> 's) result" where
  "plan_loop run has_dff exhaustive strict_order [] ps st = Inr (ps, st)"
| "plan_loop run has_dff exhaustive strict_order (action # plan) ps st =
     (if skip_action has_dff (\<not> exhaustive \<and> \<not> strict_order) ps action
      then plan_loop run has_dff exhaustive strict_order plan ps st
      else rbind (run action st) (\<lambda>(rec, cmd_res, st).
        let ps = record_run action rec cmd_res ps
        in if rr_result_code rec = 1 \<and> \<not> exhaustive then Inr (ps, st)
           else plan_loop run has_dff exhaustive strict_order plan ps st))"

definition run_abc_plan ::
    "('w, 'd) tools \<Rightarrow> 'd fp_ops \<Rightarrow> 'd CheckConfig \<Rightarrow> bool \<Rightarrow> PairRecord \<Rightarrow> ActionKind list \<Rightarrow> string \<Rightarrow> string \<Rightarrow> string \<Rightarrow>
     ('w, 'd) gstate \<Rightarrow> ('d plan_state \<times> ('w, 'd) gstate) result" where
  "run_abc_plan tls fp conf fatal pr plan mf gof gaf st =
     plan_loop (\<lambda>action. run_abc_action tls fp conf fatal action mf gof gaf)
       (gold_dff_cnt pr \<noteq> 0 \<or> gate_dff_cnt pr \<noteq> 0) (dump_sched (dump_cfg conf)) (model_loaded conf)
       plan (plan_state_init fp) st"

section \<open>The training sample\<close>

definition best_run :: "'d fp_ops \<Rightarrow> 'd RunRecord list \<Rightarrow> 'd RunRecord option" where
  "best_run fp trace = foldl (\<lambda>best r.
     if rr_result_code r = 1 \<and> (case best of None \<Rightarrow> True | Some b \<Rightarrow> fp_less fp (rr_runtime_ms r) (rr_runtime_ms b))
     then Some r else best) None trace"

definition dump_sched_sample ::
    "('w, 'd) tools \<Rightarrow> 'd fp_ops \<Rightarrow> 'd CheckConfig \<Rightarrow> PairRecord \<Rightarrow> MatchStats \<Rightarrow> 'd RunRecord list \<Rightarrow>
     ('w, 'd) gstate \<Rightarrow> ('w, 'd) gstate result" where
  "dump_sched_sample tls fp conf pr ms trace st =
     (if \<not> dump_sched (dump_cfg conf) \<or> sched_jsonl (dump_cfg conf) = [] then Inr st
      else append_jsonl tls (sched_jsonl (dump_cfg conf)) (JObj
        [(''pair'', pair_record_to_json pr), (''match'', match_stats_to_json ms),
         (''actions'', JArr (map run_record_to_json trace)),
         (''label_best_action'', JStr (case best_run fp trace of None \<Rightarrow> [] | Some r \<Rightarrow> rr_action r))]) st)"

section \<open>The check of a pair\<close>

text \<open>\<open>dump_blif\<close> writes a module to a file: its name and the number of constant inputs it added.\<close>

type_synonym ('w, 'd) blif_dumper =
  "Design \<Rightarrow> string \<Rightarrow> Module \<Rightarrow> string \<Rightarrow> ('w, 'd) gstate \<Rightarrow> (string \<times> int \<times> ('w, 'd) gstate) result"

definition record_pair :: "PairRecord \<Rightarrow> ('w, 'd) gstate \<Rightarrow> ('w, 'd) gstate" where
  "record_pair pr st = st\<lparr>telemetry := map_option (\<lambda>t.
     t\<lparr>pair_records := (pair_records t)(pr_pair_id pr \<mapsto> pr)\<rparr>) (telemetry st)\<rparr>"

definition abc_cec_module ::
    "('w, 'd) tools \<Rightarrow> 'd fp_ops \<Rightarrow> ('w, 'd) blif_dumper \<Rightarrow> 'd CheckConfig \<Rightarrow> bool \<Rightarrow> ('w, 'd) gstate \<Rightarrow>
     (bool \<times> 'd CommandResult \<times> ('w, 'd) gstate) result" where
  "abc_cec_module tls fp dump_blif conf fatal st =
     rbind (dump_blif (cfg_design conf) (tempdir_name conf) (gold_mod conf) (lib_file conf) st) (\<lambda>(gof, gold_ins, st).
     rbind (dump_blif (cfg_design conf) (tempdir_name conf) (gate_mod conf) (lib_file conf) st) (\<lambda>(gaf, gate_ins, st).
     let mf = tempdir_name conf @ ''/match_'' @ unescape_id (m_name (gold_mod conf)) @ ''_'' @
           unescape_id (m_name (gate_mod conf)) @ ''.txt'';
         pr = collect_pair_record conf (telemetry st) (gold_ins + gate_ins);
         st = record_pair pr st;
         ms = get_match_stats conf (telemetry st)
     in rbind (learned_abc_plan fp conf pr ms) (\<lambda>plan.
        rbind (run_abc_plan tls fp conf fatal pr plan mf gof gaf st) (\<lambda>(ps, st).
        rbind (dump_sched_sample tls fp conf pr ms (ps_trace ps) st) (\<lambda>st.
        rbind (if \<not> solved ps \<and> last_act ps \<noteq> []
               then emit_failure_packet tls conf ''ABC'' (last_act ps) (last_cmd ps) (ps_trace ps) st
               else Inr st) (\<lambda>st.
        Inr (solved ps, last_cmd ps, st)))))))"

section \<open>Bounded check and induction\<close>

type_synonym ('w, 'd) smt2_dumper =
  "Design \<Rightarrow> string \<Rightarrow> Module \<times> Module \<Rightarrow> string \<Rightarrow> ('w, 'd) gstate \<Rightarrow> (string \<times> ('w, 'd) gstate) result"

definition smtbmc_command :: "('w, 'd) tools \<Rightarrow> 'd CheckConfig \<Rightarrow> string" where
  "smtbmc_command tls conf =
     resolve_yosys_smtbmc_executable tls @ '' '' @ (if no_init (seq_check_cfg conf) then ''-noinit '' else []) @
     ''-m '' @ strip_backslash (m_name (gold_mod conf)) @ ''_vs_'' @ strip_backslash (m_name (gate_mod conf)) @ '' ''"

text \<open>One phase: run the engine and record a failure with the phrase that names the phase.\<close>

definition bmc_phase ::
    "('w, 'd) tools \<Rightarrow> 'd fp_ops \<Rightarrow> 'd CheckConfig \<Rightarrow> string \<Rightarrow> string \<Rightarrow> string \<Rightarrow> string \<Rightarrow> string \<Rightarrow>
     ('w, 'd) gstate \<Rightarrow> (bool \<times> ('w, 'd) gstate) result" where
  "bmc_phase tls fp conf log_dir cmd tag action phrase st =
     rbind (exec_cmd tls fp cmd (tempdir_name conf)
         (tag @ sanitize_filename (get_pair_id (m_name (gold_mod conf)) (m_name (gate_mod conf)))) log_dir (world st))
       (\<lambda>(ret, r, w). let st = st\<lparr>world := w\<rparr> in
          if ret \<noteq> 0
          then rmap (\<lambda>st. (False, st)) (emit_failure_packet tls conf ''BMC'' action
                 (r\<lparr>cr_output := cr_output r @ phrase @ [CHR 0x0A]\<rparr>) [] st)
          else Inr (True, st))"

definition bmcinduct_check ::
    "('w, 'd) tools \<Rightarrow> 'd fp_ops \<Rightarrow> ('w, 'd) smt2_dumper \<Rightarrow> 'd CheckConfig \<Rightarrow> ('w, 'd) gstate \<Rightarrow>
     (bool \<times> ('w, 'd) gstate) result" where
  "bmcinduct_check tls fp dump_smt2 conf st =
     rbind (dump_smt2 (cfg_design conf) (tempdir_name conf) (gold_mod conf, gate_mod conf) [] st) (\<lambda>(smt2_file, st).
     let cmd = smtbmc_command tls conf;
         skip = to_string (step_skip (seq_check_cfg conf));
         k = to_string (k_induct (seq_check_cfg conf))
     in rbind (failure_log_dir tls (dump_cfg conf) (world st)) (\<lambda>(log_dir, w).
        let st = st\<lparr>world := w\<rparr> in
        if weak_mode (seq_check_cfg conf)
        then bmc_phase tls fp conf log_dir (cmd @ ''-i -t '' @ skip @ '':'' @ k @ '' '' @ smt2_file)
               ''smtbmc-weak-'' ''weak'' ''BMC-Induct failed in weak mode.'' st
        else rbind (bmc_phase tls fp conf log_dir (cmd @ '' -t '' @ skip @ '':'' @ k @ '' '' @ smt2_file)
               ''smtbmc-bmc-'' ''bmc'' ''BMC-Induct failed in BMC phase.'' st) (\<lambda>(okay, st).
             if \<not> okay then Inr (False, st)
             else bmc_phase tls fp conf log_dir (cmd @ '' -i -t '' @ k @ '' '' @ smt2_file)
                    ''smtbmc-induct-'' ''induct'' ''BMC-Induct failed in Induct phase.'' st)))"

section \<open>The contract of an engine\<close>

text \<open>
  What the loop over the plan relies on: a run keeps an invariant of the state, is recorded under
  the name of its action with a code from 0 to 3 and the outcome that goes with the code, and
  code 1 means that the action reported equivalence (\<open>proved\<close>).
\<close>

definition code_outcome :: "int \<Rightarrow> string" where
  "code_outcome rc = (if rc = 1 then ''equivalent'' else if rc = 2 then ''not_equivalent'' else ''blocked'')"

definition plan_inv :: "'d plan_state \<Rightarrow> bool" where
  "plan_inv ps \<longleftrightarrow>
     (solved ps \<longleftrightarrow> (\<exists>r \<in> set (ps_trace ps). rr_result_code r = 1)) \<and>
     (ran_dsec_map ps \<longleftrightarrow> ''dsec_map'' \<in> rr_action ` set (ps_trace ps)) \<and>
     prev_result ps = (if ps_trace ps = [] then 0 else rr_result_code (last (ps_trace ps))) \<and>
     last_act ps = (if ps_trace ps = [] then [] else rr_action (last (ps_trace ps)))"

definition escalates :: "'d RunRecord \<Rightarrow> 'd RunRecord \<Rightarrow> bool" where
  "escalates r r' \<longleftrightarrow> rr_result_code r \<in> {2, 3} \<and>
     (rr_action r' = ''cec_nomap'' \<or> rr_action r' = ''dsec_nomap'' \<longrightarrow> rr_result_code r = 3)"

text \<open>
  \<open>runs_ok\<close>: the records of the actions that were run, one for each, with nothing sequential when
  there are no flip-flops, and stopping at the first success unless all actions are to be tried.
\<close>

definition runs_ok :: "(ActionKind \<Rightarrow> bool) \<Rightarrow> bool \<Rightarrow> bool \<Rightarrow> ActionKind list \<Rightarrow> 'd RunRecord list \<Rightarrow> bool" where
  "runs_ok proved has_dff exhaustive as rs \<longleftrightarrow>
     map rr_action rs = map get_action_name as \<and>
     (\<forall>r \<in> set rs. rr_result_code r \<in> {0..3} \<and> rr_proof_outcome r = code_outcome (rr_result_code r)) \<and>
     (\<forall>i < length rs. rr_result_code (rs ! i) = 1 \<longrightarrow> proved (as ! i)) \<and>
     (has_dff \<or> DSEC_MAP \<notin> set as \<and> DSEC_NOMAP \<notin> set as) \<and>
     (\<not> exhaustive \<longrightarrow> (\<forall>r \<in> set (butlast rs). rr_result_code r \<noteq> 1))"

definition last_cmd_ok :: "'d CommandResult \<Rightarrow> 'd RunRecord list \<Rightarrow> 'd CommandResult \<Rightarrow> bool" where
  "last_cmd_ok r0 rs r \<longleftrightarrow> (if rs = [] then r = r0 else result_code r = rr_result_code (last rs))"

lemma plan_inv_init: "plan_inv (plan_state_init fp)"
  by (simp add: plan_inv_def plan_state_init_def)

locale engine =
  fixes run :: "ActionKind \<Rightarrow> 's \<Rightarrow> ('d RunRecord \<times> 'd CommandResult \<times> 's) result"
    and okay :: "'s \<Rightarrow> bool"
    and proved :: "ActionKind \<Rightarrow> bool"
  assumes run_okay: "run a s = Inr (rec, res, s') \<Longrightarrow> okay s \<Longrightarrow> okay s'"
    and run_action: "run a s = Inr (rec, res, s') \<Longrightarrow> rr_action rec = get_action_name a"
    and run_code: "run a s = Inr (rec, res, s') \<Longrightarrow> rr_result_code rec \<in> {0..3} \<and>
      rr_proof_outcome rec = code_outcome (rr_result_code rec) \<and> result_code res = rr_result_code rec"
    and run_proved: "run a s = Inr (rec, res, s') \<Longrightarrow> rr_result_code rec = 1 \<Longrightarrow> proved a"
begin

lemma record_run_inv:
  assumes "run a s = Inr (rec, res, s')" "plan_inv ps"
  shows "plan_inv (record_run a rec res ps)"
  using assms(2) run_action [OF assms(1)] by (cases a) (auto simp: plan_inv_def record_run_def)

lemma plan_loop_step:
  assumes "plan_loop run d e m (a # plan) ps s = Inr (ps', s')"
  obtains (skip) "skip_action d (\<not> e \<and> \<not> m) ps a" "plan_loop run d e m plan ps s = Inr (ps', s')"
  | (stop) rec res where "\<not> skip_action d (\<not> e \<and> \<not> m) ps a" "run a s = Inr (rec, res, s')"
      "rr_result_code rec = 1" "\<not> e" "ps' = record_run a rec res ps"
  | (step) rec res s1 where "\<not> skip_action d (\<not> e \<and> \<not> m) ps a" "run a s = Inr (rec, res, s1)"
      "rr_result_code rec \<noteq> 1 \<or> e" "plan_loop run d e m plan (record_run a rec res ps) s1 = Inr (ps', s')"
proof (cases "skip_action d (\<not> e \<and> \<not> m) ps a")
  case True
  with skip assms show thesis by simp
next
  case False
  with assms obtain rec res s1 where run: "run a s = Inr (rec, res, s1)"
    "(if rr_result_code rec = 1 \<and> \<not> e then Inr (record_run a rec res ps, s1)
      else plan_loop run d e m plan (record_run a rec res ps) s1) = Inr (ps', s')"
    by (auto simp: rbind_eq_Inr_iff Let_def)
  show thesis
  proof (cases "rr_result_code rec = 1 \<and> \<not> e")
    case True
    with run show thesis using stop [OF False] by auto
  next
    case go: False
    with run show thesis by (intro step [OF False]) auto
  qed
qed

lemma plan_loop_okay: "plan_loop run d e m plan ps s = Inr (ps', s') \<Longrightarrow> okay s \<Longrightarrow> okay s'"
proof (induction plan arbitrary: ps s)
  case (Cons a plan)
  from Cons.prems(1) show ?case
    by (cases rule: plan_loop_step) (use Cons run_okay in blast)+
qed simp

lemma plan_loop_inv: "plan_loop run d e m plan ps s = Inr (ps', s') \<Longrightarrow> plan_inv ps \<Longrightarrow> plan_inv ps'"
proof (induction plan arbitrary: ps s)
  case (Cons a plan)
  from Cons.prems(1) show ?case
    by (cases rule: plan_loop_step) (use Cons record_run_inv in blast)+
qed simp

lemma plan_loop_trace:
  assumes "plan_loop run d e m plan ps s = Inr (ps', s')"
  shows "\<exists>as rs. ps_trace ps' = ps_trace ps @ rs \<and> runs_ok proved d e as rs \<and> subseq as plan \<and>
    last_cmd_ok (last_cmd ps) rs (last_cmd ps')"
  using assms
proof (induction plan arbitrary: ps s)
  case Nil
  then show ?case by (intro exI [of _ "[]"]) (simp add: runs_ok_def last_cmd_ok_def)
next
  case (Cons a plan)
  from Cons.prems show ?case
  proof (cases rule: plan_loop_step)
    case skip
    from Cons.IH [OF skip(2)] obtain as rs where "ps_trace ps' = ps_trace ps @ rs"
      "runs_ok proved d e as rs" "subseq as plan"
      "last_cmd_ok (last_cmd ps) rs (last_cmd ps')"
      by blast
    then show ?thesis by (intro exI [of _ as] exI [of _ rs]) auto
  next
    case (stop rec res)
    then show ?thesis
      using run_action [OF stop(2)] run_code [OF stop(2)] run_proved [OF stop(2)]
      by (intro exI [of _ "[a]"] exI [of _ "[rec]"])
        (auto simp: record_run_def skip_action_def runs_ok_def last_cmd_ok_def)
  next
    case (step rec res s1)
    from Cons.IH [OF step(4)] obtain as rs where IH: "ps_trace ps' = ps_trace ps @ rec # rs"
      "runs_ok proved d e as rs" "subseq as plan" "last_cmd_ok res rs (last_cmd ps')"
      by (auto simp: record_run_def)
    have "\<forall>i < length (rec # rs). rr_result_code ((rec # rs) ! i) = 1 \<longrightarrow> proved ((a # as) ! i)"
      using IH(2) run_proved [OF step(2)] by (auto simp: runs_ok_def nth_Cons split: nat.splits)
    then have "runs_ok proved d e (a # as) (rec # rs)"
      using IH(2) run_action [OF step(2)] run_code [OF step(2)] step(1,3)
      by (auto simp: skip_action_def runs_ok_def)
    moreover have "last_cmd_ok (last_cmd ps) (rec # rs) (last_cmd ps')"
      using IH(4) run_code [OF step(2)] by (auto simp: last_cmd_ok_def)
    ultimately show ?thesis using IH(1,3) by (intro exI [of _ "a # as"] exI [of _ "rec # rs"]) auto
  qed
qed

lemma plan_loop_escalates:
  assumes "plan_loop run d False False plan ps s = Inr (ps', s')" "CEC_MAP \<notin> set plan" "ps_trace ps \<noteq> []"
    "plan_inv ps" "successively escalates (ps_trace ps)"
  shows "successively escalates (ps_trace ps')"
  using assms
proof (induction plan arbitrary: ps s)
  case (Cons a plan)
  have esc: "successively escalates (ps_trace (record_run a rec res ps))"
    if "\<not> skip_action d (\<not> False \<and> \<not> False) ps a" "run a s = Inr (rec, res, s1)" for rec res s1
    using that(1) Cons.prems(2-5) run_action [OF that(2)]
    by (cases a) (auto simp: record_run_def successively_append_iff escalates_def skip_action_def plan_inv_def)
  from Cons.prems(1) show ?case
  proof (cases rule: plan_loop_step)
    case (step rec res s1)
    show ?thesis
      using Cons.IH [OF step(4)] esc [OF step(1,2)] record_run_inv [OF step(2) Cons.prems(4)] Cons.prems(2)
      by (simp add: record_run_def)
  qed (use Cons esc in auto)
qed simp

lemma plan_loop_guided:
  assumes "plan_loop run d False False (CEC_MAP # plan) (plan_state_init fp) s = Inr (ps', s')" "CEC_MAP \<notin> set plan"
  shows "ps_trace ps' \<noteq> [] \<and> rr_action (hd (ps_trace ps')) = ''cec_map'' \<and> successively escalates (ps_trace ps')"
  using assms(1)
proof (cases rule: plan_loop_step)
  case skip
  then show ?thesis by (simp add: skip_action_def)
next
  case (stop rec res)
  then show ?thesis using run_action [OF stop(2)] by (simp add: record_run_def plan_state_init_def)
next
  case (step rec res s1)
  let ?ps = "record_run CEC_MAP rec res (plan_state_init fp)"
  have tr: "ps_trace ?ps = [rec]" by (simp add: record_run_def plan_state_init_def)
  have "successively escalates (ps_trace ps')"
    using plan_loop_escalates [OF step(4) assms(2)] record_run_inv [OF step(2) plan_inv_init] tr by simp
  moreover obtain rs where "ps_trace ps' = rec # rs" using plan_loop_trace [OF step(4)] tr by auto
  ultimately show ?thesis using run_action [OF step(2)] by simp
qed

end

section \<open>ABC as the engine\<close>

text \<open>A run of the command of an action whose output says that the networks are equivalent.\<close>

definition abc_reports_equivalent ::
    "('w, 'd) tools \<Rightarrow> 'd CheckConfig \<Rightarrow> string \<Rightarrow> string \<Rightarrow> string \<Rightarrow> ActionKind \<Rightarrow> bool" where
  "abc_reports_equivalent tls conf mf gof gaf a \<longleftrightarrow> (\<exists>w status out ms w'.
     run_cmd tls (shell_command conf (abc_command a mf gof gaf) @ '' 2>&1'') w = (Some (status, out, ms), w') \<and>
     contains out ''Networks are equivalent'')"

lemma target_code_range: "target_code out out2result \<in> {0..3}"
  by (simp add: target_code_def out2result_def)

lemma target_code_1: "target_code out out2result = 1 \<longleftrightarrow> contains out ''Networks are equivalent''"
  by (simp add: target_code_def out2result_def)

lemma exec_capture_cmd:
  assumes "exec_capture tls fp cmd tempdir tag log_dir w = Inr (r, w')"
  shows "\<exists>w1 status ms. run_cmd tls (cmd @ '' 2>&1'') w1 = (Some (status, cr_output r, ms), w') \<and>
    exit_status r = (case status of None \<Rightarrow> -1 | Some st \<Rightarrow> st) \<and> runtime_ms r = ms"
proof -
  from assms obtain lf w1 where "(case run_cmd tls (cmd @ '' 2>&1'') w1 of
         (None, w) \<Rightarrow> Inl (LogError ''Error executing command'')
       | (Some (status, out, ms), w) \<Rightarrow>
           Inr ((CommandResult_init fp)\<lparr>exit_status := (case status of None \<Rightarrow> -1 | Some st \<Rightarrow> st),
                  runtime_ms := ms, cr_output := out, log_file := lf\<rparr>, w)) = Inr (r, w')"
    unfolding exec_capture_def rbind_eq_Inr_iff split_paired_Ex prod.case by blast
  then show ?thesis
    by (cases "run_cmd tls (cmd @ '' 2>&1'') w1"; cases "fst (run_cmd tls (cmd @ '' 2>&1'') w1)") fastforce+
qed

lemma run_abc_action_cases:
  assumes "run_abc_action tls fp conf fatal a mf gof gaf st = Inr (rec, res, st')"
  obtains w1 status out ms w2 rc where
    "run_cmd tls (shell_command conf (abc_command a mf gof gaf) @ '' 2>&1'') w1 = (Some (status, out, ms), w2)"
    "rc = target_code out out2result" "rr_action rec = get_action_name a" "rr_result_code rec = rc"
    "rr_proof_outcome rec = code_outcome rc" "result_code res = rc" "proof_outcome res = code_outcome rc"
    "st' = st\<lparr>world := w2\<rparr> \<or>
      (\<exists>r. emit_failure_packet tls conf ''ABC'' (get_action_name a) r [] (st\<lparr>world := w2\<rparr>) = Inr st')"
proof -
  let ?cmd = "shell_command conf (abc_command a mf gof gaf)" and ?act = "get_action_name a"
  let ?id = "get_pair_id (m_name (gold_mod conf)) (m_name (gate_mod conf))"
  from assms obtain log_dir w rc status r0 w2 where
    exe: "execute_and_check tls fp ?cmd out2result (tempdir_name conf)
      (''abc-'' @ sanitize_filename ?id @ ''-'' @ ?act) log_dir w = Inr (rc, status, r0, w2)"
    and fin: "(let st = st\<lparr>world := w2\<rparr>;
             r = r0\<lparr>raw_result_code := rc, proof_outcome := abc_outcome rc status (proof_outcome r0)\<rparr>
         in rbind (if status \<noteq> 0 \<or> rc = 0
                   then rbind (emit_failure_packet tls conf ''ABC'' ?act (r\<lparr>result_code := rc\<rparr>) [] st) (\<lambda>st.
                          if fatal then Inl (LogError ''Error executing ABC command'') else Inr st)
                   else Inr st) (\<lambda>st.
            Inr (\<lparr>rr_pair_id = ?id, rr_action = ?act, rr_exit_status = exit_status r, rr_result_code = rc,
                   rr_proof_outcome = proof_outcome r, rr_runtime_ms = runtime_ms r, rr_log_file = log_file r\<rparr>,
                 r\<lparr>result_code := rc\<rparr>, st))) = Inr (rec, res, st')"
    unfolding run_abc_action_def rbind_eq_Inr_iff [of "failure_log_dir tls (dump_cfg conf) (world st)"] Let_def
      split_paired_Ex prod.case rbind_eq_Inr_iff [of "execute_and_check tls fp _ _ _ _ _ _"]
    by blast
  from exe obtain r where
    cap: "exec_capture tls fp ?cmd (tempdir_name conf) (''abc-'' @ sanitize_filename ?id @ ''-'' @ ?act) log_dir w = Inr (r, w2)"
    and rc: "rc = target_code (cr_output r) out2result"
    by (auto simp: execute_and_check_def rbind_eq_Inr_iff Let_def)
  have rest: "rr_action rec = ?act" "rr_result_code rec = rc" "result_code res = rc"
      "rr_proof_outcome rec = abc_outcome rc status (proof_outcome r0)" "proof_outcome res = rr_proof_outcome rec"
      "st' = st\<lparr>world := w2\<rparr> \<or> (\<exists>r. emit_failure_packet tls conf ''ABC'' ?act r [] (st\<lparr>world := w2\<rparr>) = Inr st')"
    using fin by (auto simp: Let_def rbind_eq_Inr_iff split: if_splits)
  have "abc_outcome (target_code out out2result) status q = code_outcome (target_code out out2result)" for out status q
    by (auto simp: abc_outcome_def code_outcome_def target_code_def out2result_def)
  then show thesis using exec_capture_cmd [OF cap] rest rc that by metis
qed

interpretation abc: engine "\<lambda>a. run_abc_action tls fp conf fatal a mf gof gaf"
    "\<lambda>st. packets_ok st (fail_jsonl (dump_cfg conf))" "abc_reports_equivalent tls conf mf gof gaf"
  for tls fp conf fatal mf gof gaf
proof
  fix a s rec res s'
  assume run: "run_abc_action tls fp conf fatal a mf gof gaf s = Inr (rec, res, s')"
  show "rr_action rec = get_action_name a" using run by (rule run_abc_action_cases)
  show "rr_result_code rec \<in> {0..3} \<and> rr_proof_outcome rec = code_outcome (rr_result_code rec) \<and>
      result_code res = rr_result_code rec"
    using run by (rule run_abc_action_cases) (use target_code_range in simp)
  show "abc_reports_equivalent tls conf mf gof gaf a" if "rr_result_code rec = 1"
    using run by (rule run_abc_action_cases) (use that target_code_1 abc_reports_equivalent_def in fastforce)
  have world: "packets_ok (s\<lparr>world := w\<rparr>) p = packets_ok s p" for w p by (simp add: packets_ok_def)
  show "packets_ok s' (fail_jsonl (dump_cfg conf))" if "packets_ok s (fail_jsonl (dump_cfg conf))"
    using run by (rule run_abc_action_cases) (use that world emit_failure_packet_ok in metis)
qed

section \<open>The order of the plan\<close>

lemma rank_actions_ok:
  "rank_actions fp model pr ms as = Inr ranked \<Longrightarrow> map snd ranked = as \<and>
    (\<forall>(c, a) \<in> set ranked. predict_sched_cost fp model (get_action_name a) pr ms = Inr c)"
  by (induction fp model pr ms as arbitrary: ranked rule: rank_actions.induct)
    (auto simp: rbind_eq_Inr_iff rmap_eq_Inr_iff)

text \<open>The comparison is a strict order of the ranked actions when the costs are linearly ordered.\<close>

definition fp_linear :: "'d fp_ops \<Rightarrow> bool" where
  "fp_linear fp \<longleftrightarrow> (\<forall>x y. fp_eq fp x y \<longleftrightarrow> x = y) \<and> (\<forall>x. \<not> fp_less fp x x) \<and>
     (\<forall>x y z. fp_less fp x y \<longrightarrow> fp_less fp y z \<longrightarrow> fp_less fp x z) \<and> (\<forall>x y. x \<noteq> y \<longrightarrow> fp_less fp x y \<or> fp_less fp y x)"

lemma ranked_less_strict:
  assumes "fp_linear fp"
  shows "strict_on A (ranked_less fp)"
proof -
  have lin: "fp_eq fp x y \<longleftrightarrow> x = y" "\<not> fp_less fp x x" "fp_less fp x y \<Longrightarrow> fp_less fp y z \<Longrightarrow> fp_less fp x z"
    "x \<noteq> y \<Longrightarrow> fp_less fp x y \<or> fp_less fp y x" for x y z
    using assms unfolding fp_linear_def by blast+
  have "ranked_less fp x z" if "ranked_less fp x y" "ranked_less fp y z" for x y z
    using that lin(2,3) unfolding ranked_less_def lin(1) by (metis order.strict_trans)
  moreover have "ranked_less fp x y \<or> ranked_less fp y x" if "x \<noteq> y" for x y
    using that lin(4) unfolding ranked_less_def lin(1)
    by (metis get_action_name_inj linorder_less_linear prod.expand)
  moreover have "\<not> ranked_less fp x x" for x by (simp add: ranked_less_def lin)
  ultimately show ?thesis unfolding strict_on_def by blast
qed

lemma sum_trees_total:
  "\<forall>t \<in> set ts. downward t \<Longrightarrow> \<exists>c. sum_trees fp ts fs cost = Inr c"
proof (induction fp ts fs cost rule: sum_trees.induct)
  case (2 fp t ts fs cost)
  have "\<exists>v. tree_predict fp t fs = Inr v"
    using 2(2) tree_walk_downward [of t 0 "Suc (length t)" fp fs] by (auto simp: tree_predict_def simp del: tree_walk.simps)
  then show ?case using 2 by auto
qed simp

lemma predict_sched_cost_total:
  "\<forall>t \<in> set (trees model). downward t \<Longrightarrow> \<exists>c. predict_sched_cost fp model action pr ms = Inr c"
  using sum_trees_total [of "trees model"] by (auto simp: predict_sched_cost_def Let_def split: option.splits)

lemma rank_actions_total:
  "\<forall>t \<in> set (trees model). downward t \<Longrightarrow> \<exists>ranked. rank_actions fp model pr ms as = Inr ranked"
proof (induction as)
  case (Cons a as)
  with predict_sched_cost_total [of model fp "get_action_name a" pr ms] show ?case by auto
qed simp

lemma heuristic_abc_plan_all [simp]: "a \<in> set heuristic_abc_plan"
  by (cases a) (simp_all add: heuristic_abc_plan_def)

section \<open>Guarantees\<close>



lemma abc_verdict_ok:
  assumes "abc_cec_module tls fp dump_blif conf fatal st = Inr (verdict, res, st')"
  shows "(verdict \<longrightarrow> (\<exists>mf gof gaf. \<exists>a \<in> set heuristic_abc_plan. abc_reports_equivalent tls conf mf gof gaf a \<and>
      (a = DSEC_MAP \<or> a = DSEC_NOMAP \<longrightarrow>
        count_module_dffs (gold_mod conf) False \<noteq> 0 \<or> count_module_dffs (gate_mod conf) True \<noteq> 0))) \<and>
    (\<not> dump_sched (dump_cfg conf) \<longrightarrow> (verdict \<longleftrightarrow> result_code res = 1))"
proof -
  from assms obtain gof gaf mf st1 st2 pr ms plan ps where
    plan: "learned_abc_plan fp conf pr ms = Inr plan"
    and run: "run_abc_plan tls fp conf fatal pr plan mf gof gaf st1 = Inr (ps, st2)"
    and pr: "gold_dff_cnt pr = count_module_dffs (gold_mod conf) False" "gate_dff_cnt pr = count_module_dffs (gate_mod conf) True"
    and v: "verdict = solved ps" "res = last_cmd ps"
    unfolding abc_cec_module_def by (fastforce simp: rbind_eq_Inr_iff Let_def collect_pair_record_def)
  note run' = run [unfolded run_abc_plan_def]
  let ?d = "gold_dff_cnt pr \<noteq> 0 \<or> gate_dff_cnt pr \<noteq> 0" and ?e = "dump_sched (dump_cfg conf)"
  have inv: "plan_inv ps" by (rule abc.plan_loop_inv [OF run' plan_inv_init])
  obtain as where as: "subseq as plan" "runs_ok (abc_reports_equivalent tls conf mf gof gaf) ?d ?e as (ps_trace ps)"
    and lc: "last_cmd_ok (CommandResult_init fp) (ps_trace ps) res"
    using abc.plan_loop_trace [OF run'] v(2) by (auto simp: plan_state_init_def)
  have "\<exists>a \<in> set heuristic_abc_plan. abc_reports_equivalent tls conf mf gof gaf a \<and> (a = DSEC_MAP \<or> a = DSEC_NOMAP \<longrightarrow> ?d)"
    if "verdict"
  proof -
    from that v inv obtain i where i: "i < length (ps_trace ps)" "rr_result_code (ps_trace ps ! i) = 1"
      by (auto simp: plan_inv_def in_set_conv_nth)
    moreover have "length as = length (ps_trace ps)" using as(2) by (metis length_map runs_ok_def)
    moreover from this i have "as ! i \<in> set as" by simp
    ultimately show ?thesis using as(2) unfolding runs_ok_def by (intro bexI [of _ "as ! i"]) (auto simp del: nth_mem)
  qed
  moreover have "verdict \<longleftrightarrow> result_code res = 1" if "\<not> ?e"
  proof (cases "ps_trace ps = []")
    case True
    then show ?thesis using lc inv v by (simp add: last_cmd_ok_def plan_inv_def CommandResult_init_def)
  next
    case False
    then have "set (ps_trace ps) = insert (last (ps_trace ps)) (set (butlast (ps_trace ps)))"
      by (metis append_butlast_last_id list.simps(15) rotate1.simps(2) set_rotate1)
    then show ?thesis using lc inv v as(2) that False by (auto simp: last_cmd_ok_def plan_inv_def runs_ok_def)
  qed
  ultimately show ?thesis unfolding pr by blast
qed


definition solver_exits :: "('w, 'd) tools \<Rightarrow> 'd CheckConfig \<Rightarrow> string \<Rightarrow> string \<Rightarrow> int option \<Rightarrow> bool" where
  "solver_exits tls conf smt2 args status \<longleftrightarrow> (\<exists>w out ms w'.
     run_cmd tls (smtbmc_command tls conf @ args @ '' '' @ smt2 @ '' 2>&1'') w = (Some (status, out, ms), w'))"

lemma bmc_phase_exits:
  assumes "bmc_phase tls fp conf log_dir (smtbmc_command tls conf @ args @ '' '' @ smt2) tag action phrase st = Inr (b, st')"
  shows "\<exists>status. solver_exits tls conf smt2 args status \<and> (b \<longleftrightarrow> status = Some 0)"
proof -
  from assms obtain tg r w w2 where
    cap: "exec_capture tls fp (smtbmc_command tls conf @ args @ '' '' @ smt2) (tempdir_name conf) tg log_dir w = Inr (r, w2)"
    and b: "b \<longleftrightarrow> exit_status r = 0"
    unfolding bmc_phase_def exec_cmd_def
    by (fastforce simp: rbind_eq_Inr_iff rmap_eq_Inr_iff Let_def split: if_splits)
  from exec_capture_cmd [OF cap] obtain w1 status ms where
    "run_cmd tls (smtbmc_command tls conf @ args @ '' '' @ smt2 @ '' 2>&1'') w1 = (Some (status, cr_output r, ms), w2)"
    "exit_status r = (case status of None \<Rightarrow> -1 | Some st \<Rightarrow> st)" by auto
  with b show ?thesis unfolding solver_exits_def by (intro exI [of _ status]) (auto split: option.splits)
qed

text \<open>The check with bounded model checking and induction succeeds exactly when the solver commands it runs all
  exit with status zero: one induction run in weak mode, otherwise a bounded run and, when that one
  succeeds, an induction run.\<close>

lemma bmcinduct_verdict:
  assumes "bmcinduct_check tls fp dump_smt2 conf st = Inr (b, st')"
  shows "\<exists>smt2. let skip = to_string (step_skip (seq_check_cfg conf)); k = to_string (k_induct (seq_check_cfg conf))
    in if weak_mode (seq_check_cfg conf)
       then \<exists>s. solver_exits tls conf smt2 (''-i -t '' @ skip @ '':'' @ k) s \<and> (b \<longleftrightarrow> s = Some 0)
       else \<exists>s. solver_exits tls conf smt2 ('' -t '' @ skip @ '':'' @ k) s \<and>
         (if s = Some 0 then \<exists>s'. solver_exits tls conf smt2 ('' -i -t '' @ k) s' \<and> (b \<longleftrightarrow> s' = Some 0) else \<not> b)"
proof -
  let ?cmd = "smtbmc_command tls conf" and ?skip = "to_string (step_skip (seq_check_cfg conf))"
    and ?k = "to_string (k_induct (seq_check_cfg conf))"
  from assms obtain smt2 log_dir st1 where main:
    "(if weak_mode (seq_check_cfg conf)
        then bmc_phase tls fp conf log_dir (?cmd @ ''-i -t '' @ ?skip @ '':'' @ ?k @ '' '' @ smt2)
               ''smtbmc-weak-'' ''weak'' ''BMC-Induct failed in weak mode.'' st1
        else rbind (bmc_phase tls fp conf log_dir (?cmd @ '' -t '' @ ?skip @ '':'' @ ?k @ '' '' @ smt2)
               ''smtbmc-bmc-'' ''bmc'' ''BMC-Induct failed in BMC phase.'' st1) (\<lambda>(okay, st).
             if \<not> okay then Inr (False, st)
             else bmc_phase tls fp conf log_dir (?cmd @ '' -i -t '' @ ?k @ '' '' @ smt2)
                    ''smtbmc-induct-'' ''induct'' ''BMC-Induct failed in Induct phase.'' st)) = Inr (b, st')"
    unfolding bmcinduct_check_def rbind_eq_Inr_iff [of "dump_smt2 _ _ _ _ _"] rbind_eq_Inr_iff [of "failure_log_dir _ _ _"]
      Let_def split_paired_Ex prod.case by blast
  note exits = bmc_phase_exits [of tls fp conf log_dir "''-i -t '' @ ?skip @ '':'' @ ?k" smt2]
    bmc_phase_exits [of tls fp conf log_dir "'' -t '' @ ?skip @ '':'' @ ?k" smt2]
    bmc_phase_exits [of tls fp conf log_dir "'' -i -t '' @ ?k" smt2]
  show ?thesis
  proof (cases "weak_mode (seq_check_cfg conf)")
    case True
    with main have "\<exists>s. solver_exits tls conf smt2 (''-i -t '' @ ?skip @ '':'' @ ?k) s \<and> (b \<longleftrightarrow> s = Some 0)"
      by (intro exits(1)) simp
    with True show ?thesis unfolding Let_def by (intro exI [of _ smt2]) simp
  next
    case False
    then obtain okay st2 where bmc: "bmc_phase tls fp conf log_dir (?cmd @ '' -t '' @ ?skip @ '':'' @ ?k @ '' '' @ smt2)
               ''smtbmc-bmc-'' ''bmc'' ''BMC-Induct failed in BMC phase.'' st1 = Inr (okay, st2)"
      and ind: "if \<not> okay then \<not> b else bmc_phase tls fp conf log_dir (?cmd @ '' -i -t '' @ ?k @ '' '' @ smt2)
                    ''smtbmc-induct-'' ''induct'' ''BMC-Induct failed in Induct phase.'' st2 = Inr (b, st')"
      using main by (auto simp: rbind_eq_Inr_iff split: if_splits)
    obtain s where s: "solver_exits tls conf smt2 ('' -t '' @ ?skip @ '':'' @ ?k) s" "okay \<longleftrightarrow> s = Some 0"
      using bmc exits(2) by fastforce
    have "if s = Some 0 then \<exists>s'. solver_exits tls conf smt2 ('' -i -t '' @ ?k) s' \<and> (b \<longleftrightarrow> s' = Some 0) else \<not> b"
      using ind exits(3) s(2) by (cases okay) (fastforce, simp)
    with s(1) have "\<exists>s. solver_exits tls conf smt2 ('' -t '' @ ?skip @ '':'' @ ?k) s \<and>
      (if s = Some 0 then \<exists>s'. solver_exits tls conf smt2 ('' -i -t '' @ ?k) s' \<and> (b \<longleftrightarrow> s' = Some 0) else \<not> b)" by blast
    with False show ?thesis by (intro exI [of _ smt2]) (simp only: Let_def if_False)
  qed
qed


text \<open>Tools whose commands succeed and report equivalence.\<close>

definition proving_tools :: "(unit, int) tools" where
  "proving_tools = witness_tools\<lparr>run_cmd := \<lambda>_ w. (Some (Some 0, ''Networks are equivalent'', 3), w)\<rparr>"

definition dump_nothing :: "(unit, int) blif_dumper" where
  "dump_nothing d dir m lib st = Inr (dir @ ''/'' @ strip_backslash (m_name m) @ ''.blif'', 0, st)"

lemma proving_run:
  "\<exists>rec res. run_abc_action proving_tools int_fp witness_config True CEC_MAP mf gof gaf witness_state =
    Inr (rec, res, witness_state) \<and> rr_result_code rec = 1 \<and> rr_action rec = ''cec_map''"
  by (simp add: run_abc_action_def Let_def failure_log_dir_def witness_config_def proving_tools_def witness_tools_def
      execute_and_check_def exec_capture_def make_command_log_file_def target_code_def out2result_def witness_state_def
      CommandResult_init_def)

lemma proving_plan:
  "\<exists>ps. run_abc_plan proving_tools int_fp witness_config True pr heuristic_abc_plan mf gof gaf witness_state =
    Inr (ps, witness_state) \<and> solved ps"
proof -
  obtain rec res where run: "run_abc_action proving_tools int_fp witness_config True CEC_MAP mf gof gaf witness_state =
    Inr (rec, res, witness_state)" "rr_result_code rec = 1" using proving_run by blast
  have "\<not> dump_sched (dump_cfg witness_config)" by (simp add: witness_config_def)
  then show ?thesis
    using run by (simp add: run_abc_plan_def heuristic_abc_plan_def skip_action_def record_run_def)
qed



end
