(* ===== verification/Guide_Hier.thy ===== *)
theory Guide_Hier
  imports Guide_Plan
begin

text \<open>
  The treatment of the hierarchy in \<open>passes/guide/check/core.cc\<close>: importing library modules and
  flattening the instances of standard cells, pairing the modules of the two designs, and preparing
  a module and its black boxes for the BLIF writer. Other passes are called through the parameter
  \<open>run_pass\<close>, a command and the design it changes. The module and the prefixes the functions read
  from the configuration are arguments.
\<close>

type_synonym passes = "string \<Rightarrow> Design \<Rightarrow> Design result"

abbreviation bs :: "string \<Rightarrow> string" where
  "bs s \<equiv> CHR 0x5C # s"

section \<open>Library modules\<close>

text \<open>A module reached through a pointer; a pointer to a module that a pass removed is an error.\<close>

definition with_module :: "(Module \<Rightarrow> Module) \<Rightarrow> string \<Rightarrow> Design \<Rightarrow> Design result" where
  "with_module f name d =
     (case design_module d name of None \<Rightarrow> Inl Abort | Some m \<Rightarrow> Inr (design_update d (f m)))"

definition clone_design_for_passes :: "Design \<Rightarrow> Design result" where
  "clone_design_for_passes d = rfold (\<lambda>m copy. design_add copy m) (design_modules d) []"

definition lib_import_to_design :: "Design \<Rightarrow> Design \<Rightarrow> Design result" where
  "lib_import_to_design d lib = rfold (\<lambda>m d.
     rbind (if design_module d (m_name m) \<noteq> None then design_remove d (m_name m) else Inr d) (\<lambda>d.
       design_add d m)) (design_modules lib) d"

definition real_modules :: "Design \<Rightarrow> Design \<Rightarrow> string list" where
  "real_modules d lib = filter (\<lambda>n. n \<notin> m_name ` set lib) (map m_name (design_modules d))"

definition module_flag :: "Design \<Rightarrow> string \<Rightarrow> string \<Rightarrow> bool" where
  "module_flag d attr name = (case design_module d name of None \<Rightarrow> False | Some m \<Rightarrow> get_bool_attribute m attr)"

definition flatten_std_cells :: "passes \<Rightarrow> Design \<Rightarrow> Design \<Rightarrow> Design result" where
  "flatten_std_cells run_pass d lib =
     (let modules = real_modules d lib;
          keep_hierarchy_flags = map (module_flag d (bs ''keep_hierarchy'')) modules
      in rbind (rfold (with_module (\<lambda>m. set_bool_attribute m (bs ''keep_hierarchy'') True)) modules d) (\<lambda>d.
         rbind (rfold (\<lambda>name d. if module_flag d (bs ''blackbox'') name then Inr d
                                else run_pass (''flatten '' @ name) d) modules d) (\<lambda>d.
         rfold (\<lambda>(name, flag). with_module (\<lambda>m. set_bool_attribute m (bs ''keep_hierarchy'') flag) name)
           (zip modules keep_hierarchy_flags) d)))"

section \<open>Pairing modules\<close>

record ModMap =
  mod_map_gold :: "(string, string) odict"
  mod_map_gate :: "(string, string) odict"
  mapped_mods_gold :: "string list"
  mapped_mods_gate :: "string list"
  unmapped_mods_gate :: "string list"
  unmapped_mods_gold :: "string list"

definition ModMap_init :: ModMap where
  "ModMap_init = \<lparr>mod_map_gold = [], mod_map_gate = [], mapped_mods_gold = [], mapped_mods_gate = [],
     unmapped_mods_gate = [], unmapped_mods_gold = []\<rparr>"

text \<open>\<open>substr\<close> throws when the name is shorter than the prefix; the empty string is the empty identifier.\<close>

definition get_orignal_mod_name :: "string \<Rightarrow> string \<Rightarrow> string \<Rightarrow> string result" where
  "get_orignal_mod_name mod_name root_mod_name pre =
     (if mod_name = root_mod_name then Inr root_mod_name
      else if prefix (escape_id pre) mod_name
      then if length (strip_backslash mod_name) < length pre then Inl OutOfRange
           else Inr (escape_id (drop (length pre) (strip_backslash mod_name)))
      else Inr [])"

definition map_gold_module ::
    "Design \<Rightarrow> string \<Rightarrow> string \<Rightarrow> string \<Rightarrow> string \<Rightarrow> string \<Rightarrow> ModMap \<Rightarrow> ModMap result" where
  "map_gold_module d gold gate gold_pre gate_pre name mm =
     (if prefix (escape_id gold_pre) name \<or> name = gold
      then rbind (get_orignal_mod_name name gold gold_pre) (\<lambda>original_name.
        let gate_name = (if name = gold then gate else escape_id (gate_pre @ strip_backslash original_name))
        in if design_module d gate_name \<noteq> None
           then Inr (mm\<lparr>mod_map_gold := od_set (mod_map_gold mm) name gate_name,
                  mapped_mods_gold := op_insert (mapped_mods_gold mm) name,
                  mapped_mods_gate := op_insert (mapped_mods_gate mm) gate_name\<rparr>)
           else Inr (mm\<lparr>unmapped_mods_gold := op_insert (unmapped_mods_gold mm) name\<rparr>))
      else Inr mm)"

definition map_gate_module ::
    "Design \<Rightarrow> string \<Rightarrow> string \<Rightarrow> string \<Rightarrow> string \<Rightarrow> string \<Rightarrow> ModMap \<Rightarrow> ModMap result" where
  "map_gate_module d gold gate gold_pre gate_pre name mm =
     (if prefix (escape_id gate_pre) name \<or> name = gate
      then rbind (get_orignal_mod_name name gate gate_pre) (\<lambda>original_name.
        let gold_name = (if name = gate then gold else escape_id (gold_pre @ strip_backslash original_name))
        in if design_module d gold_name \<noteq> None
           then Inr (mm\<lparr>mod_map_gate := od_set (mod_map_gate mm) gold_name name,
                  mapped_mods_gold := op_insert (mapped_mods_gold mm) gold_name,
                  mapped_mods_gate := op_insert (mapped_mods_gate mm) name\<rparr>)
           else Inr (mm\<lparr>unmapped_mods_gate := op_insert (unmapped_mods_gate mm) name\<rparr>))
      else Inr mm)"

text \<open>The log loop reads the map with \<open>operator[]\<close>, which adds an empty name for a missing key.\<close>

definition log_pairs :: "ModMap \<Rightarrow> ModMap" where
  "log_pairs mm = mm\<lparr>mod_map_gold := foldl (\<lambda>mp name. if od_count mp name then mp else od_set mp name [])
     (mod_map_gold mm) (iterate (mapped_mods_gold mm))\<rparr>"

text \<open>Fields separated by white space, as the stream operator reads them.\<close>

definition is_space :: "char \<Rightarrow> bool" where
  "is_space c \<longleftrightarrow> c \<in> {CHR '' '', CHR 0x09, CHR 0x0A, CHR 0x0B, CHR 0x0C, CHR 0x0D}"

fun stream_fields :: "string \<Rightarrow> string \<Rightarrow> string list" where
  "stream_fields [] acc = (if acc = [] then [] else [rev acc])"
| "stream_fields (c # cs) acc =
     (if is_space c then (if acc = [] then stream_fields cs [] else rev acc # stream_fields cs []) else stream_fields cs (c # acc))"

definition external_module_match :: "Design \<Rightarrow> string \<Rightarrow> ModMap \<Rightarrow> ModMap" where
  "external_module_match d line mm =
     (if line = [] \<or> hd line = CHR ''#'' \<or> CHR ''.'' \<in> set line then mm
      else case stream_fields line [] of
        gold_name # gate_name # _ \<Rightarrow>
          let gld = escape_id gold_name; gte = escape_id gate_name
          in if design_module d gld = None \<or> design_module d gte = None then mm
             else if gld \<in> set (mapped_mods_gold mm) \<or> gte \<in> set (mapped_mods_gate mm) then mm
             else mm\<lparr>mod_map_gold := od_set (mod_map_gold mm) gld gte,
                     mapped_mods_gold := op_insert (mapped_mods_gold mm) gld,
                     mapped_mods_gate := op_insert (mapped_mods_gate mm) gte,
                     unmapped_mods_gold := op_erase (unmapped_mods_gold mm) gld,
                     unmapped_mods_gate := op_erase (unmapped_mods_gate mm) gte\<rparr>
      | _ \<Rightarrow> mm)"

definition make_sig :: "Module \<Rightarrow> string" where
  "make_sig m =
     (let ports = filter (\<lambda>w. port_id w \<noteq> 0) (iterate (m_wires m));
          in_w = sort (map w_width (filter port_input ports));
          out_w = sort (map w_width (filter port_output ports));
          print = (\<lambda>ws. concat (map (\<lambda>w. ''_'' @ to_string (int w)) ws))
      in ''in'' @ print in_w @ ''|out'' @ print out_w)"

definition collect_sigs :: "Design \<Rightarrow> string list \<Rightarrow> (string, string list) odict" where
  "collect_sigs d names = foldl (\<lambda>sigs gn. case design_module d gn of
       None \<Rightarrow> sigs
     | Some gm \<Rightarrow> let s = make_sig gm
         in od_set sigs s ((case od_get sigs s of None \<Rightarrow> [] | Some xs \<Rightarrow> xs) @ [gn])) [] names"

text \<open>One unmapped gold module: the map, the signatures left and the pairs found so far.\<close>

definition structural_match ::
    "Design \<Rightarrow> string \<Rightarrow> ModMap \<times> (string, string list) odict \<times> (string \<times> string) list \<Rightarrow>
     ModMap \<times> (string, string list) odict \<times> (string \<times> string) list" where
  "structural_match d gld = (\<lambda>(mm, gate_sigs, found).
     case design_module d gld of
       None \<Rightarrow> (mm, gate_sigs, found)
     | Some gm \<Rightarrow> let s = make_sig gm
         in case od_get gate_sigs s of
              Some (gname # rest) \<Rightarrow>
                (mm\<lparr>mod_map_gold := od_set (mod_map_gold mm) gld gname,
                    mapped_mods_gold := op_insert (mapped_mods_gold mm) gld,
                    mapped_mods_gate := op_insert (mapped_mods_gate mm) gname\<rparr>,
                 od_set gate_sigs s rest, found @ [(gld, gname)])
            | _ \<Rightarrow> (mm, gate_sigs, found))"

definition structural_fallback :: "Design \<Rightarrow> ModMap \<Rightarrow> ModMap" where
  "structural_fallback d mm =
     (if unmapped_mods_gold mm = [] \<or> unmapped_mods_gate mm = [] then mm
      else let gate_sigs = collect_sigs d (iterate (unmapped_mods_gate mm));
               (mm, _, found) = foldl (\<lambda>st gld. structural_match d gld st) (mm, gate_sigs, [])
                 (iterate (unmapped_mods_gold mm))
           in mm\<lparr>unmapped_mods_gold := foldl op_erase (unmapped_mods_gold mm) (map fst found),
                 unmapped_mods_gate := foldl op_erase (unmapped_mods_gate mm) (map snd found)\<rparr>)"

text \<open>\<open>ext\<close> are the lines of the external match file, when one is configured and can be opened.\<close>

definition hier_mod_map ::
    "Design \<Rightarrow> string \<Rightarrow> string \<Rightarrow> string \<Rightarrow> string \<Rightarrow> string list option \<Rightarrow> ModMap result" where
  "hier_mod_map d gold gate gold_pre gate_pre ext =
     (let names = map m_name (design_modules d)
      in rbind (rfold (map_gold_module d gold gate gold_pre gate_pre) names ModMap_init) (\<lambda>mm.
         rbind (rfold (map_gate_module d gold gate gold_pre gate_pre) names mm) (\<lambda>mm.
         let mm = log_pairs mm;
             mm = (case ext of None \<Rightarrow> mm | Some ls \<Rightarrow> foldl (\<lambda>mm l. external_module_match d l mm) mm ls)
         in Inr (structural_fallback d mm))))"

section \<open>Black boxes\<close>

definition bbconst_name :: "string \<Rightarrow> string \<Rightarrow> nat \<Rightarrow> string" where
  "bbconst_name cell port i =
     escape_id (''$bbconst$'' @ unescape_id cell @ ''$'' @ unescape_id port @ ''$'' @ to_string (int i))"

text \<open>The bits of one connection, from bit \<open>i\<close> on: the module, the new bits and the number of constants replaced.\<close>

fun bbconst_bits :: "string \<Rightarrow> string \<Rightarrow> nat \<Rightarrow> SigSpec \<Rightarrow> Module \<Rightarrow> (Module \<times> SigSpec \<times> int) result" where
  "bbconst_bits cell port i [] m = Inr (m, [], 0)"
| "bbconst_bits cell port i (b # sig) m =
     (if is_wire b
      then rmap (\<lambda>(m, sig, n). (m, b # sig, n)) (bbconst_bits cell port (Suc i) sig m)
      else let wire_id = bbconst_name cell port i
           in rbind (if module_wire m wire_id = None then add_wire m wire_id 1 else Inr m) (\<lambda>m.
              rbind (case module_wire m wire_id of None \<Rightarrow> Inl Abort
                     | Some w \<Rightarrow> connect m (sig_of_wire w) [b]) (\<lambda>m.
              rmap (\<lambda>(m, sig, n). (m, WireBit wire_id 0 # sig, n + 1)) (bbconst_bits cell port (Suc i) sig m))))"

definition bb_input_port :: "Module \<Rightarrow> string \<Rightarrow> bool" where
  "bb_input_port sub port \<longleftrightarrow>
     (case module_wire sub port of None \<Rightarrow> False | Some w \<Rightarrow> port_input w \<and> \<not> port_output w)"

fun bbconst_conns ::
    "string \<Rightarrow> Module \<Rightarrow> (string \<times> SigSpec) list \<Rightarrow> Module \<Rightarrow> (Module \<times> (string \<times> SigSpec) list \<times> int) result" where
  "bbconst_conns cell sub [] m = Inr (m, [], 0)"
| "bbconst_conns cell sub ((port, sig) # conns) m =
     (if bb_input_port sub port
      then rbind (bbconst_bits cell port 0 sig m) (\<lambda>(m, sig', n).
           rmap (\<lambda>(m, ups, k). (m, (if n \<noteq> 0 then (port, sig') # ups else ups), n + k)) (bbconst_conns cell sub conns m))
      else bbconst_conns cell sub conns m)"

definition update_cell :: "Module \<Rightarrow> string \<Rightarrow> (NCell \<Rightarrow> NCell) \<Rightarrow> Module" where
  "update_cell m name f = m\<lparr>m_cells := map (\<lambda>c. if c_name c = name then f c else c) (m_cells m)\<rparr>"

definition blackbox_of :: "Design \<Rightarrow> NCell \<Rightarrow> Module option" where
  "blackbox_of d c = (case design_module d (c_type c) of
     None \<Rightarrow> None | Some sub \<Rightarrow> if get_bool_attribute sub (bs ''blackbox'') then Some sub else None)"

definition bbconst_cell :: "Design \<Rightarrow> NCell \<Rightarrow> Module \<times> int \<Rightarrow> (Module \<times> int) result" where
  "bbconst_cell d c = (\<lambda>(m, inserted).
     case blackbox_of d c of
       None \<Rightarrow> Inr (m, inserted)
     | Some sub \<Rightarrow>
         rmap (\<lambda>(m, updates, n).
             (update_cell m (c_name c) (\<lambda>c. foldl (\<lambda>c (port, sig). set_port c port sig) c updates), inserted + n))
           (bbconst_conns (c_name c) sub (iterate (c_conns c)) m))"

definition materialize_blackbox_input_consts :: "Design \<Rightarrow> Module \<Rightarrow> (Module \<times> int) result" where
  "materialize_blackbox_input_consts d m = rfold (bbconst_cell d) (iterate (m_cells m)) (m, 0)"

section \<open>Writing a module\<close>

definition add_stub :: "Design \<Rightarrow> NCell \<Rightarrow> Design \<Rightarrow> Design result" where
  "add_stub d c copy =
     (if design_module copy (c_type c) \<noteq> None then Inr copy
      else case design_module d (c_type c) of
             None \<Rightarrow> Inr copy
           | Some sub \<Rightarrow> design_add copy (set_bool_attribute sub (bs ''blackbox'') True))"

definition blif_design :: "Design \<Rightarrow> Module \<Rightarrow> (Design \<times> int) result" where
  "blif_design d m =
     rbind (rfold (add_stub d) (iterate (m_cells m)) [m]) (\<lambda>copy.
     rbind (materialize_blackbox_input_consts copy m) (\<lambda>(m', inserted).
     Inr (design_update copy m', inserted)))"

definition blif_path :: "string \<Rightarrow> Module \<Rightarrow> string" where
  "blif_path dir m = dir @ ''/'' @ strip_backslash (m_name m) @ ''.blif''"

text \<open>\<open>write_blif\<close> is the pass that writes the prepared design; it changes the world only.\<close>

definition dump_blif_module ::
    "('w, 'd) tools \<Rightarrow> (string \<Rightarrow> Design \<Rightarrow> 'w \<Rightarrow> 'w result) \<Rightarrow> ('w, 'd) blif_dumper" where
  "dump_blif_module tls write_blif d dir m lib st =
     rbind (blif_design d m) (\<lambda>(copy, inserted).
     let (_, w) = create_directory tls dir (world st)
     in rbind (write_blif (''write_blif -blackbox -top '' @ strip_backslash (m_name m) @
            '' -false + __const0 -true + __const1 -undef + __constx '' @ blif_path dir m) copy w) (\<lambda>w.
        Inr (blif_path dir m, inserted, st\<lparr>world := w\<rparr>)))"

section \<open>The modules a local module needs\<close>

definition push_sub :: "Design \<Rightarrow> string list \<times> string list \<Rightarrow> NCell \<Rightarrow> string list \<times> string list" where
  "push_sub d = (\<lambda>(keep_mods, worklist) c.
     if design_module d (c_type c) = None \<or> c_type c \<in> set keep_mods then (keep_mods, worklist)
     else (op_insert keep_mods (c_type c), c_type c # worklist))"

definition push_subs :: "Design \<Rightarrow> string \<Rightarrow> string list \<times> string list \<Rightarrow> string list \<times> string list" where
  "push_subs d name st =
     (case design_module d name of None \<Rightarrow> st | Some cur \<Rightarrow> foldl (push_sub d) st (iterate (m_cells cur)))"

definition todo :: "Design \<Rightarrow> string list \<Rightarrow> string set" where
  "todo d keep = m_name ` set d - set keep"

lemma push_subs_measure:
  assumes "push_subs d n (keep, wl) = (keep', wl')"
  shows "length wl' + card (todo d keep') = length wl + card (todo d keep)"
proof -
  have one: "length wl2 + card (todo d keep2) = length wl1 + card (todo d keep1)"
    if "push_sub d (keep1, wl1) c = (keep2, wl2)" for keep1 wl1 c keep2 wl2
  proof (cases "design_module d (c_type c) = None \<or> c_type c \<in> set keep1")
    case False
    then have "todo d keep1 = insert (c_type c) (todo d keep2)" "c_type c \<notin> todo d keep2"
      using that by (auto simp: push_sub_def todo_def design_module_None)
    moreover have "finite (todo d keep2)" by (simp add: todo_def)
    ultimately show ?thesis using that False by (auto simp: push_sub_def)
  qed (use that in \<open>auto simp: push_sub_def\<close>)
  have "length (snd st') + card (todo d (fst st')) = length (snd st) + card (todo d (fst st))"
    if "foldl (push_sub d) st cs = st'" for cs st st'
    using that
  proof (induction cs arbitrary: st)
    case (Cons c cs)
    obtain k2 w2 where eq: "push_sub d st c = (k2, w2)" by fastforce
    then show ?case using Cons one [of "fst st" "snd st" c k2 w2] by fastforce
  qed simp
  from this [of "(keep, wl)" _ "(keep', wl')"] show ?thesis
    using assms by (auto simp: push_subs_def split: option.splits)
qed

text \<open>The worklist is a stack: its back is the head of the list.\<close>

function keep_loop :: "Design \<Rightarrow> string list \<times> string list \<Rightarrow> string list" where
  "keep_loop d (keep_mods, []) = keep_mods"
| "keep_loop d (keep_mods, name # worklist) = keep_loop d (push_subs d name (keep_mods, worklist))"
  by pat_completeness auto

termination
proof (relation "measure (\<lambda>(d, keep, wl). length wl + card (todo d keep))")
  fix d keep name wl
  show "((d, push_subs d name (keep, wl)), d, keep, name # wl) \<in> measure (\<lambda>(d, keep, wl). length wl + card (todo d keep))"
    using push_subs_measure [of d name keep wl] by (cases "push_subs d name (keep, wl)") auto
qed simp

definition ends_with :: "string \<Rightarrow> string \<Rightarrow> bool" where
  "ends_with s e \<longleftrightarrow> length e \<le> length s \<and> drop (length s - length e) s = e"

definition set_blackboxes :: "(string \<Rightarrow> bool) \<Rightarrow> Design \<Rightarrow> Design" where
  "set_blackboxes P d = map (\<lambda>m. if P (m_name m) then set_bool_attribute m (bs ''blackbox'') True else m) d"

definition materialize_in :: "string \<Rightarrow> Design \<Rightarrow> (Design \<times> int option) result" where
  "materialize_in name d =
     (case design_module d name of
        None \<Rightarrow> Inr (d, None)
      | Some m \<Rightarrow> rmap (\<lambda>(m, n). (design_update d m, Some n)) (materialize_blackbox_input_consts d m))"

definition prepare_blif_module_design :: "passes \<Rightarrow> Design \<Rightarrow> Module \<Rightarrow> string \<Rightarrow> (Design \<times> int option) result" where
  "prepare_blif_module_design run_pass d0 m lib =
     rbind (clone_design_for_passes d0) (\<lambda>d.
     let name = m_name m; before = map m_name d; local_shell = ends_with (strip_backslash name) ''__local''
     in rbind (if lib \<noteq> [] \<and> ends_with lib ''.v''
               then rbind (run_pass (''read_verilog -overwrite -noblackbox '' @ lib) d) (\<lambda>d.
                    rmap (\<lambda>d. (d, filter (\<lambda>n. n \<notin> set before) (map m_name d))) (run_pass ''proc'' d))
               else Inr (d, [])) (\<lambda>(d, lib_mods).
        if \<not> local_shell then materialize_in name (set_blackboxes (\<lambda>n. n \<noteq> name) d)
        else rbind (run_pass (''hierarchy -top '' @ name) d) (\<lambda>d.
             rbind (materialize_in name (set_blackboxes (\<lambda>n. n \<noteq> name \<and> n \<notin> set lib_mods) d)) (\<lambda>(d, inserted).
             rbind (run_pass (''flatten '' @ name) d) (\<lambda>d.
             let keep_mods = keep_loop d ([name], [name]);
                 rm_mods = filter (\<lambda>n. n \<notin> set keep_mods) (map m_name (design_modules d))
             in rbind (rfold (\<lambda>n d. design_remove d n) rm_mods d) (\<lambda>d.
                rmap (\<lambda>d. (d, inserted))
                  (rfold run_pass [''opt'', ''memory_map'', ''techmap'', ''dffunmap'', ''opt_clean''] d)))))))"

section \<open>Reachable modules\<close>

definition instantiates :: "Design \<Rightarrow> string \<Rightarrow> string \<Rightarrow> bool" where
  "instantiates d a b \<longleftrightarrow> (\<exists>m. design_module d a = Some m \<and> b \<in> c_type ` set (m_cells m) \<and> design_module d b \<noteq> None)"

lemma push_subs_sets:
  assumes "push_subs d n (keep, wl) = (keep', wl')"
  shows "set keep' = set keep \<union> {b. instantiates d n b}"
    and "set wl' = set wl \<union> ({b. instantiates d n b} - set keep)"
proof -
  have "set (fst st') = set (fst st) \<union> {b \<in> c_type ` set cs. design_module d b \<noteq> None} \<and>
      set (snd st') = set (snd st) \<union> ({b \<in> c_type ` set cs. design_module d b \<noteq> None} - set (fst st))"
    if "foldl (push_sub d) st cs = st'" for cs st st'
    using that
  proof (induction cs arbitrary: st)
    case (Cons c cs)
    from Cons.IH [of "push_sub d st c"] Cons.prems show ?case
      by (cases st) (auto simp: push_sub_def split: if_splits)
  qed auto
  from this [of "(keep, wl)" _ "(keep', wl')"]
  show "set keep' = set keep \<union> {b. instantiates d n b}" "set wl' = set wl \<union> ({b. instantiates d n b} - set keep)"
    using assms by (auto simp: push_subs_def instantiates_def split: option.splits)
qed

lemma keep_loop_reach:
  assumes "set (snd st) \<subseteq> set (fst st)" "\<forall>a \<in> set (fst st). (instantiates d)\<^sup>*\<^sup>* root a" "root \<in> set (fst st)"
    "\<forall>a \<in> set (fst st) - set (snd st). \<forall>b. instantiates d a b \<longrightarrow> b \<in> set (fst st)"
  shows "set (keep_loop d st) = {a. (instantiates d)\<^sup>*\<^sup>* root a}"
  using assms
proof (induction d st rule: keep_loop.induct)
  case (1 d keep)
  have "a \<in> set keep" if "(instantiates d)\<^sup>*\<^sup>* root a" for a
    using that
  proof (induction rule: rtranclp_induct)
    case base
    show ?case using 1(3) by simp
  next
    case (step a b)
    then show ?case using 1(4) by simp
  qed
  moreover have "(instantiates d)\<^sup>*\<^sup>* root a" if "a \<in> set keep" for a using 1(2) that by simp
  ultimately show ?case by (simp only: keep_loop.simps(1)) blast
next
  case (2 d keep n wl)
  obtain keep' wl' where eq: "push_subs d n (keep, wl) = (keep', wl')" by fastforce
  note sets = push_subs_sets [OF eq]
  have n: "(instantiates d)\<^sup>*\<^sup>* root n" using 2(2,3) by auto
  then have new: "(instantiates d)\<^sup>*\<^sup>* root b" if "instantiates d n b" for b using that by auto
  have "set (keep_loop d (keep', wl')) = {a. (instantiates d)\<^sup>*\<^sup>* root a}"
  proof (rule 2(1) [unfolded eq])
    show "set (snd (keep', wl')) \<subseteq> set (fst (keep', wl'))" using 2(2) sets by auto
    show "\<forall>a \<in> set (fst (keep', wl')). (instantiates d)\<^sup>*\<^sup>* root a" using 2(3) new unfolding sets(1) fst_conv by blast
    show "root \<in> set (fst (keep', wl'))" using 2(4) sets by auto
    have "b \<in> set keep'" if a: "a \<in> set keep'" "a \<notin> set wl'" and ab: "instantiates d a b" for a b
    proof (cases "a = n")
      case True
      then show ?thesis using ab sets(1) by blast
    next
      case False
      then have "a \<in> set keep" "a \<notin> set (n # wl)" using a sets by auto
      then have "b \<in> set keep" using 2(5) ab unfolding fst_conv snd_conv by blast
      then show ?thesis using sets(1) by blast
    qed
    then show "\<forall>a \<in> set (fst (keep', wl')) - set (snd (keep', wl')). \<forall>b. instantiates d a b \<longrightarrow> b \<in> set (fst (keep', wl'))"
      by auto
  qed
  then show ?case by (simp add: eq)
qed

section \<open>Flags of modules\<close>

definition attr_view :: "Design \<Rightarrow> string \<Rightarrow> (string, Const) odict option" where
  "attr_view d name = map_option m_attrs (design_module d name)"

definition attrs_distinct :: "Design \<Rightarrow> bool" where
  "attrs_distinct d \<longleftrightarrow> (\<forall>m \<in> set d. distinct (map fst (m_attrs m)))"

lemma module_flag_view: "module_flag d attr name = (case attr_view d name of None \<Rightarrow> False | Some A \<Rightarrow> get_flag A attr)"
  by (simp add: module_flag_def attr_view_def bool_attribute_flags split: option.split)

lemma set_module_flag:
  assumes "attr_view d n = Some A"
  shows "\<exists>d'. with_module (\<lambda>m. set_bool_attribute m attr v) n d = Inr d' \<and> attr_view d' = (attr_view d)(n \<mapsto> set_flag A attr v)"
proof -
  obtain m where m: "design_module d n = Some m" "m_attrs m = A" using assms by (auto simp: attr_view_def)
  moreover have "m_name m = n" using design_module_name [OF m(1)] by simp
  ultimately show ?thesis
    by (auto simp: with_module_def attr_view_def design_update_module bool_attribute_flags fun_eq_iff)
qed

lemma set_module_flags:
  assumes "distinct (map fst l)" "\<forall>n \<in> fst ` set l. attr_view d n \<noteq> None"
  shows "\<exists>d'. rfold (\<lambda>(n, v). with_module (\<lambda>m. set_bool_attribute m attr v) n) l d = Inr d' \<and>
    attr_view d' = (\<lambda>k. case map_of l k of None \<Rightarrow> attr_view d k | Some v \<Rightarrow> map_option (\<lambda>A. set_flag A attr v) (attr_view d k))"
  using assms
proof (induction l arbitrary: d)
  case (Cons p l)
  obtain n v where p: "p = (n, v)" by fastforce
  obtain A where A: "attr_view d n = Some A" using Cons.prems(2) p by auto
  obtain d1 where d1: "with_module (\<lambda>m. set_bool_attribute m attr v) n d = Inr d1"
    "attr_view d1 = (attr_view d)(n \<mapsto> set_flag A attr v)" using set_module_flag [OF A] by blast
  have "\<forall>n \<in> fst ` set l. attr_view d1 n \<noteq> None" using Cons.prems(2) d1(2) by auto
  then obtain d2 where d2: "rfold (\<lambda>(n, v). with_module (\<lambda>m. set_bool_attribute m attr v) n) l d1 = Inr d2"
    "attr_view d2 = (\<lambda>k. case map_of l k of None \<Rightarrow> attr_view d1 k | Some v \<Rightarrow> map_option (\<lambda>A. set_flag A attr v) (attr_view d1 k))"
    using Cons.IH [of d1] Cons.prems(1) by auto
  have "map_of l n = None" using Cons.prems(1) p by (auto simp: map_of_eq_None_iff)
  then show ?case using d1 d2 p A by (auto simp: fun_eq_iff split: option.splits)
qed simp

lemma rfold_map: "rfold f (map g xs) s = rfold (\<lambda>x. f (g x)) xs s"
  by (induction xs arbitrary: s) (simp_all add: rbind_def split: sum.splits)

lemma set_module_flags_fun:
  assumes "distinct ns" "\<forall>n \<in> set ns. attr_view d n \<noteq> None"
  shows "\<exists>d'. rfold (\<lambda>(n, v). with_module (\<lambda>m. set_bool_attribute m attr v) n) (map (\<lambda>n. (n, f n)) ns) d = Inr d' \<and>
    attr_view d' = (\<lambda>n. if n \<in> set ns then map_option (\<lambda>A. set_flag A attr (f n)) (attr_view d n) else attr_view d n)"
proof -
  have mo: "map_of (map (\<lambda>n. (n, f n)) ns) n = (if n \<in> set ns then Some (f n) else None)" for n
    by (auto simp: map_of_map_restrict restrict_map_def)
  have eq: "(\<lambda>n. case if n \<in> set ns then Some (f n) else None of None \<Rightarrow> attr_view d n
      | Some v \<Rightarrow> map_option (\<lambda>A. set_flag A attr v) (attr_view d n)) =
      (\<lambda>n. if n \<in> set ns then map_option (\<lambda>A. set_flag A attr (f n)) (attr_view d n) else attr_view d n)"
    by auto
  show ?thesis
    using set_module_flags [of "map (\<lambda>n. (n, f n)) ns" d attr, unfolded mo eq] assms by (auto simp: o_def)
qed

lemma flatten_loop:
  assumes "\<And>n d. \<exists>d'. run_pass (''flatten '' @ n) d = Inr d' \<and> attr_view d' = attr_view d"
  shows "\<exists>d'. rfold (\<lambda>name d. if module_flag d attr name then Inr d else run_pass (''flatten '' @ name) d) ns d = Inr d' \<and>
    attr_view d' = attr_view d"
proof (rule rfold_total [where I = "\<lambda>d'. attr_view d' = attr_view d"])
  fix x s
  assume "attr_view s = attr_view d"
  then show "\<exists>s'. (if module_flag s attr x then Inr s else run_pass (''flatten '' @ x) s) = Inr s' \<and> attr_view s' = attr_view d"
    using assms [of x s] by auto
qed simp

section \<open>Pairs by name\<close>

definition plain_prefix :: "string \<Rightarrow> bool" where
  "plain_prefix p \<longleftrightarrow> p \<noteq> [] \<and> hd p \<noteq> CHR 0x5C \<and> hd p \<noteq> CHR ''$''"

definition plain_names :: "Design \<Rightarrow> bool" where
  "plain_names d \<longleftrightarrow> (\<forall>m \<in> set d. CHR 0x5C \<notin> set (tl (m_name m)))"

text \<open>A gold module and the gate module its name stands for.\<close>

definition name_pair :: "string \<Rightarrow> string \<Rightarrow> string \<Rightarrow> string \<Rightarrow> string \<Rightarrow> string \<Rightarrow> bool" where
  "name_pair gold gate gp tp n t \<longleftrightarrow>
     (if n = gold then t = gate else t \<noteq> gate \<and> (\<exists>x. n = bs (gp @ x) \<and> t = bs (tp @ x)))"

definition roots_agree :: "string \<Rightarrow> string \<Rightarrow> string \<Rightarrow> string \<Rightarrow> bool" where
  "roots_agree gold gate gp tp \<longleftrightarrow> (\<forall>x. gold = bs (gp @ x) \<longleftrightarrow> gate = bs (tp @ x))"

lemma escape_plain: "plain_prefix p \<Longrightarrow> escape_id (p @ x) = bs (p @ x)"
  by (cases p) (auto simp: plain_prefix_def escape_id_def)

lemma original_name:
  assumes "plain_prefix gp" "n = bs (gp @ x)" "n \<noteq> root" "CHR 0x5C \<notin> set x"
  shows "\<exists>r. get_orignal_mod_name n root gp = Inr r \<and> strip_backslash r = x"
proof -
  have "prefix (escape_id gp) n" using escape_plain [OF assms(1), of "[]"] assms(2) by simp
  moreover have "strip_backslash n = gp @ x" using assms(2) by (simp add: strip_backslash_def)
  moreover have "strip_backslash (escape_id x) = x" using assms(4)
    by (cases x) (auto simp: strip_backslash_def escape_id_def)
  ultimately show ?thesis using assms(3) by (auto simp: get_orignal_mod_name_def)
qed

lemma counterpart:
  assumes "plain_prefix gp" "plain_prefix tp" "roots_agree gold gate gp tp" "CHR 0x5C \<notin> set (tl n)"
    and side: "prefix (escape_id gp) n \<or> n = gold"
  obtains r t where "get_orignal_mod_name n gold gp = Inr r"
    "t = (if n = gold then gate else escape_id (tp @ strip_backslash r))"
    "\<And>t'. name_pair gold gate gp tp n t' \<longleftrightarrow> t' = t"
proof (cases "n = gold")
  case True
  then show thesis using that [of gold gate] by (simp add: get_orignal_mod_name_def name_pair_def)
next
  case False
  then obtain x where x: "n = bs (gp @ x)"
    using side escape_plain [OF assms(1), of "[]"] by (auto simp: prefix_def)
  moreover from this have "CHR 0x5C \<notin> set x" using assms(4) by auto
  ultimately obtain r where r: "get_orignal_mod_name n gold gp = Inr r" "strip_backslash r = x"
    using original_name [OF assms(1)] False by blast
  have "gate \<noteq> bs (tp @ x)" using assms(3) False x by (auto simp: roots_agree_def)
  then have "name_pair gold gate gp tp n t' \<longleftrightarrow> t' = bs (tp @ x)" for t'
    using False x by (auto simp: name_pair_def)
  then show thesis using that [OF r(1), of "bs (tp @ x)"] False r(2) escape_plain [OF assms(2), of x] by simp
qed

lemma name_pair_side:
  "plain_prefix gp \<Longrightarrow> name_pair gold gate gp tp n t \<Longrightarrow> prefix (escape_id gp) n \<or> n = gold"
  using escape_plain [of gp "[]"] by (auto simp: name_pair_def prefix_def split: if_splits)

lemma name_pair_sym: "name_pair gold gate gp tp n t \<longleftrightarrow> name_pair gate gold tp gp t n"
  by (auto simp: name_pair_def)

text \<open>The state after some of the modules have been looked up by name, on the gold and on the gate side.\<close>

definition named_so_far :: "Design \<Rightarrow> (string \<Rightarrow> string \<Rightarrow> bool) \<Rightarrow> string set \<Rightarrow> string set \<Rightarrow> ModMap \<Rightarrow> bool" where
  "named_so_far d np G T mm \<longleftrightarrow>
     (let N = m_name ` set d in
       (\<forall>n t. od_get (mod_map_gold mm) n = Some t \<longleftrightarrow> n \<in> G \<and> np n t \<and> t \<in> N) \<and>
       set (mapped_mods_gold mm) = {n \<in> N. \<exists>t \<in> N. np n t \<and> (n \<in> G \<or> t \<in> T)} \<and>
       set (mapped_mods_gate mm) = {t \<in> N. \<exists>n \<in> N. np n t \<and> (n \<in> G \<or> t \<in> T)} \<and>
       set (unmapped_mods_gold mm) = {n \<in> G. (\<exists>t. np n t) \<and> (\<forall>t \<in> N. \<not> np n t)} \<and>
       set (unmapped_mods_gate mm) = {t \<in> T. (\<exists>n. np n t) \<and> (\<forall>n \<in> N. \<not> np n t)} \<and>
       distinct (mapped_mods_gold mm) \<and> distinct (mapped_mods_gate mm) \<and>
       distinct (unmapped_mods_gold mm) \<and> distinct (unmapped_mods_gate mm))"

lemma map_gold_step:
  assumes "plain_prefix gp" "plain_prefix tp" "roots_agree gold gate gp tp" "plain_names d" "n \<in> m_name ` set d"
    "named_so_far d (name_pair gold gate gp tp) G T mm" "G \<subseteq> m_name ` set d"
  shows "\<exists>mm'. map_gold_module d gold gate gp tp n mm = Inr mm' \<and>
    named_so_far d (name_pair gold gate gp tp) (insert n G) T mm'"
proof (cases "prefix (escape_id gp) n \<or> n = gold")
  case False
  then have "\<not> name_pair gold gate gp tp n t" for t using name_pair_side [OF assms(1)] by blast
  then have "named_so_far d (name_pair gold gate gp tp) (insert n G) T mm"
    using assms(6) by (auto simp: named_so_far_def Let_def)
  with False show ?thesis by (simp add: map_gold_module_def)
next
  case True
  have "CHR 0x5C \<notin> set (tl n)" using assms(4,5) by (auto simp: plain_names_def)
  from counterpart [OF assms(1-3) this True] obtain r t where
    r: "get_orignal_mod_name n gold gp = Inr r" "t = (if n = gold then gate else escape_id (tp @ strip_backslash r))"
    and np: "\<And>t'. name_pair gold gate gp tp n t' \<longleftrightarrow> t' = t" by blast
  show ?thesis
  proof (cases "t \<in> m_name ` set d")
    case t: True
    then have "map_gold_module d gold gate gp tp n mm = Inr (mm\<lparr>mod_map_gold := od_set (mod_map_gold mm) n t,
        mapped_mods_gold := op_insert (mapped_mods_gold mm) n, mapped_mods_gate := op_insert (mapped_mods_gate mm) t\<rparr>)"
      using True r by (simp add: map_gold_module_def design_module_None Let_def)
    moreover have "named_so_far d (name_pair gold gate gp tp) (insert n G) T (mm\<lparr>mod_map_gold := od_set (mod_map_gold mm) n t,
        mapped_mods_gold := op_insert (mapped_mods_gold mm) n, mapped_mods_gate := op_insert (mapped_mods_gate mm) t\<rparr>)"
      using assms(5-7) t np unfolding named_so_far_def Let_def by (auto simp: od_get_set)
    ultimately show ?thesis by blast
  next
    case t: False
    then have "map_gold_module d gold gate gp tp n mm =
        Inr (mm\<lparr>unmapped_mods_gold := op_insert (unmapped_mods_gold mm) n\<rparr>)"
      using True r by (simp add: map_gold_module_def design_module_None Let_def)
    moreover have "named_so_far d (name_pair gold gate gp tp) (insert n G) T
        (mm\<lparr>unmapped_mods_gold := op_insert (unmapped_mods_gold mm) n\<rparr>)"
      using assms(5-7) t np unfolding named_so_far_def Let_def by auto
    ultimately show ?thesis by blast
  qed
qed

lemma map_gate_step:
  assumes "plain_prefix gp" "plain_prefix tp" "roots_agree gold gate gp tp" "plain_names d" "t \<in> m_name ` set d"
    "named_so_far d (name_pair gold gate gp tp) (m_name ` set d) T mm" "T \<subseteq> m_name ` set d"
  shows "\<exists>mm'. map_gate_module d gold gate gp tp t mm = Inr mm' \<and>
    named_so_far d (name_pair gold gate gp tp) (m_name ` set d) (insert t T) mm'"
proof (cases "prefix (escape_id tp) t \<or> t = gate")
  case False
  then have "\<not> name_pair gold gate gp tp n t" for n using name_pair_side [OF assms(2)] name_pair_sym by metis
  then have "named_so_far d (name_pair gold gate gp tp) (m_name ` set d) (insert t T) mm"
    using assms(6) by (auto simp: named_so_far_def Let_def)
  with False show ?thesis by (simp add: map_gate_module_def)
next
  case True
  have ra: "roots_agree gate gold tp gp" using assms(3) by (simp add: roots_agree_def)
  have "CHR 0x5C \<notin> set (tl t)" using assms(4,5) by (auto simp: plain_names_def)
  from counterpart [OF assms(2,1) ra this True] obtain r n where
    r: "get_orignal_mod_name t gate tp = Inr r" "n = (if t = gate then gold else escape_id (gp @ strip_backslash r))"
    and np: "\<And>n'. name_pair gold gate gp tp n' t \<longleftrightarrow> n' = n" unfolding name_pair_sym [of gate gold] by blast
  show ?thesis
  proof (cases "n \<in> m_name ` set d")
    case n: True
    then have "map_gate_module d gold gate gp tp t mm = Inr (mm\<lparr>mod_map_gate := od_set (mod_map_gate mm) n t,
        mapped_mods_gold := op_insert (mapped_mods_gold mm) n, mapped_mods_gate := op_insert (mapped_mods_gate mm) t\<rparr>)"
      using True r by (simp add: map_gate_module_def design_module_None Let_def)
    moreover have "named_so_far d (name_pair gold gate gp tp) (m_name ` set d) (insert t T)
        (mm\<lparr>mod_map_gate := od_set (mod_map_gate mm) n t,
        mapped_mods_gold := op_insert (mapped_mods_gold mm) n, mapped_mods_gate := op_insert (mapped_mods_gate mm) t\<rparr>)"
      using assms(5-7) n np unfolding named_so_far_def Let_def by auto
    ultimately show ?thesis by blast
  next
    case n: False
    then have "map_gate_module d gold gate gp tp t mm =
        Inr (mm\<lparr>unmapped_mods_gate := op_insert (unmapped_mods_gate mm) t\<rparr>)"
      using True r by (simp add: map_gate_module_def design_module_None Let_def)
    moreover have "named_so_far d (name_pair gold gate gp tp) (m_name ` set d) (insert t T)
        (mm\<lparr>unmapped_mods_gate := op_insert (unmapped_mods_gate mm) t\<rparr>)"
      using assms(5-7) n np unfolding named_so_far_def Let_def by auto
    ultimately show ?thesis by blast
  qed
qed

lemma rfold_grow:
  assumes "\<And>x S s. x \<in> U \<Longrightarrow> S \<subseteq> U \<Longrightarrow> I S s \<Longrightarrow> \<exists>s'. f x s = Inr s' \<and> I (insert x S) s'"
    "set xs \<subseteq> U" "S \<subseteq> U" "I S s"
  shows "\<exists>s'. rfold f xs s = Inr s' \<and> I (S \<union> set xs) s'"
  using assms(2-4)
proof (induction xs arbitrary: S s)
  case (Cons x xs)
  obtain s1 where s1: "f x s = Inr s1" "I (insert x S) s1" using assms(1) [of x S s] Cons.prems by auto
  then show ?case using Cons.IH [of "insert x S" s1] Cons.prems by simp
qed simp

lemma name_stage:
  assumes "plain_prefix gp" "plain_prefix tp" "roots_agree gold gate gp tp" "plain_names d"
    "names = map m_name (design_modules d)"
  shows "\<exists>mm1 mm2. rfold (map_gold_module d gold gate gp tp) names ModMap_init = Inr mm1 \<and>
    rfold (map_gate_module d gold gate gp tp) names mm1 = Inr mm2 \<and>
    named_so_far d (name_pair gold gate gp tp) (m_name ` set d) (m_name ` set d) mm2"
proof -
  let ?np = "name_pair gold gate gp tp" and ?N = "m_name ` set d"
  have N: "set names = ?N" using assms(5) by (simp add: design_modules_def)
  have "named_so_far d ?np {} {} ModMap_init" by (simp add: named_so_far_def ModMap_init_def od_get_def)
  from rfold_grow [where U = ?N and I = "\<lambda>S mm. named_so_far d ?np S {} mm" and f = "map_gold_module d gold gate gp tp",
      OF map_gold_step [OF assms(1-4)] _ _ this, of names] N
  obtain mm1 where mm1: "rfold (map_gold_module d gold gate gp tp) names ModMap_init = Inr mm1"
    "named_so_far d ?np ?N {} mm1" by auto
  from rfold_grow [where U = ?N and I = "\<lambda>S mm. named_so_far d ?np ?N S mm" and f = "map_gate_module d gold gate gp tp",
      OF map_gate_step [OF assms(1-4)] _ _ mm1(2), of names] N mm1(1)
  show ?thesis by auto
qed

section \<open>Pairs are one to one\<close>

definition matching :: "Design \<Rightarrow> ModMap \<Rightarrow> bool" where
  "matching d mm \<longleftrightarrow>
     (\<forall>n t. od_get (mod_map_gold mm) n = Some t \<longrightarrow> design_module d n \<noteq> None \<and> design_module d t \<noteq> None) \<and>
     (\<forall>n n' t. od_get (mod_map_gold mm) n = Some t \<longrightarrow> od_get (mod_map_gold mm) n' = Some t \<longrightarrow> n = n') \<and>
     set (mapped_mods_gold mm) = {n. od_get (mod_map_gold mm) n \<noteq> None} \<and>
     set (mapped_mods_gate mm) = {t. \<exists>n. od_get (mod_map_gold mm) n = Some t}"

definition unmapped_apart :: "ModMap \<Rightarrow> bool" where
  "unmapped_apart mm \<longleftrightarrow>
     distinct (unmapped_mods_gold mm) \<and> distinct (unmapped_mods_gate mm) \<and>
     set (mapped_mods_gold mm) \<inter> set (unmapped_mods_gold mm) = {} \<and>
     set (mapped_mods_gate mm) \<inter> set (unmapped_mods_gate mm) = {}"

text \<open>What later steps keep: the pairs found before, and the modules that are accounted for.\<close>

definition extends :: "ModMap \<Rightarrow> ModMap \<Rightarrow> bool" where
  "extends mm mm' \<longleftrightarrow>
     (\<forall>n t. od_get (mod_map_gold mm) n = Some t \<longrightarrow> od_get (mod_map_gold mm') n = Some t) \<and>
     set (mapped_mods_gold mm) \<union> set (unmapped_mods_gold mm) \<subseteq> set (mapped_mods_gold mm') \<union> set (unmapped_mods_gold mm') \<and>
     set (mapped_mods_gate mm) \<union> set (unmapped_mods_gate mm) \<subseteq> set (mapped_mods_gate mm') \<union> set (unmapped_mods_gate mm')"

lemma extends_refl [simp]: "extends mm mm"
  by (simp add: extends_def)

lemma extends_trans: "extends mm mm' \<Longrightarrow> extends mm' mm'' \<Longrightarrow> extends mm mm''"
  unfolding extends_def by blast

lemma name_pair_fun:
  "roots_agree gold gate gp tp \<Longrightarrow> name_pair gold gate gp tp n t \<Longrightarrow> name_pair gold gate gp tp n' t \<Longrightarrow> n = n'"
  by (auto simp: name_pair_def roots_agree_def split: if_splits)

lemma named_matching:
  assumes "named_so_far d (name_pair gold gate gp tp) (m_name ` set d) (m_name ` set d) mm" "roots_agree gold gate gp tp"
  shows "matching d mm" and "unmapped_apart mm" and "log_pairs mm = mm"
proof -
  let ?np = "name_pair gold gate gp tp" and ?N = "m_name ` set d"
  have get: "od_get (mod_map_gold mm) n = Some t \<longleftrightarrow> n \<in> ?N \<and> ?np n t \<and> t \<in> ?N" for n t
    by (rule conjunct1 [OF assms(1) [unfolded named_so_far_def Let_def], THEN spec, THEN spec])
  have dom: "od_get (mod_map_gold mm) n \<noteq> None \<longleftrightarrow> n \<in> ?N \<and> (\<exists>t \<in> ?N. ?np n t)" for n
    using get [of n] by (cases "od_get (mod_map_gold mm) n") auto
  have sets: "set (mapped_mods_gold mm) = {n \<in> ?N. \<exists>t \<in> ?N. ?np n t}" "set (mapped_mods_gate mm) = {t \<in> ?N. \<exists>n \<in> ?N. ?np n t}"
    "set (unmapped_mods_gold mm) \<subseteq> {n. \<forall>t \<in> ?N. \<not> ?np n t}" "set (unmapped_mods_gate mm) \<subseteq> {t. \<forall>n \<in> ?N. \<not> ?np n t}"
    "distinct (unmapped_mods_gold mm)" "distinct (unmapped_mods_gate mm)"
    using assms(1) unfolding named_so_far_def Let_def by auto
  show "unmapped_apart mm" unfolding unmapped_apart_def using sets by blast
  show m: "matching d mm"
    unfolding matching_def get dom sets(1,2) design_module_None not_not using name_pair_fun [OF assms(2)] by blast
  have "od_count (mod_map_gold mm) n" if "n \<in> set (mapped_mods_gold mm)" for n
    using m that by (auto simp: matching_def od_count_get)
  then have "foldl (\<lambda>mp name. if od_count mp name then mp else od_set mp name []) (mod_map_gold mm) xs = mod_map_gold mm"
    if "set xs \<subseteq> set (mapped_mods_gold mm)" for xs
    using that by (induction xs) auto
  then show "log_pairs mm = mm" by (simp add: log_pairs_def)
qed

text \<open>Adding a pair of modules that are both still free.\<close>

definition add_pair :: "ModMap \<Rightarrow> string \<Rightarrow> string \<Rightarrow> ModMap" where
  "add_pair mm n t = mm\<lparr>mod_map_gold := od_set (mod_map_gold mm) n t,
     mapped_mods_gold := op_insert (mapped_mods_gold mm) n, mapped_mods_gate := op_insert (mapped_mods_gate mm) t\<rparr>"

lemma add_pair_matching:
  assumes "matching d mm" "design_module d n \<noteq> None" "design_module d t \<noteq> None"
    "n \<notin> set (mapped_mods_gold mm)" "t \<notin> set (mapped_mods_gate mm)"
  shows "matching d (add_pair mm n t)" and "extends mm (add_pair mm n t)"
proof -
  have g: "od_get (mod_map_gold (add_pair mm n t)) k = (if k = n then Some t else od_get (mod_map_gold mm) k)" for k
    by (simp add: add_pair_def od_get_set)
  have m: "set (mapped_mods_gold (add_pair mm n t)) = insert n (set (mapped_mods_gold mm))"
    "set (mapped_mods_gate (add_pair mm n t)) = insert t (set (mapped_mods_gate mm))"
    "unmapped_mods_gold (add_pair mm n t) = unmapped_mods_gold mm" "unmapped_mods_gate (add_pair mm n t) = unmapped_mods_gate mm"
    by (simp_all add: add_pair_def)
  have old: "set (mapped_mods_gold mm) = {n. od_get (mod_map_gold mm) n \<noteq> None}"
    "set (mapped_mods_gate mm) = {t. \<exists>n. od_get (mod_map_gold mm) n = Some t}"
    "\<And>n n' t. od_get (mod_map_gold mm) n = Some t \<Longrightarrow> od_get (mod_map_gold mm) n' = Some t \<Longrightarrow> n = n'"
    "\<And>n t. od_get (mod_map_gold mm) n = Some t \<Longrightarrow> design_module d n \<noteq> None \<and> design_module d t \<noteq> None"
    using assms(1) unfolding matching_def by blast+
  have free: "od_get (mod_map_gold mm) n = None" "\<And>k. od_get (mod_map_gold mm) k \<noteq> Some t" using assms(4,5) old by auto
  show "extends mm (add_pair mm n t)" unfolding extends_def g m using free by auto
  show "matching d (add_pair mm n t)"
    unfolding matching_def g m old(1,2)
  proof (intro conjI allI impI)
    fix a b assume "(if a = n then Some t else od_get (mod_map_gold mm) a) = Some b"
    then show "design_module d a \<noteq> None" "design_module d b \<noteq> None"
      using old(4) [of a b] assms(2,3) by (cases "a = n"; simp)+
  next
    fix a a' b
    assume "(if a = n then Some t else od_get (mod_map_gold mm) a) = Some b"
      "(if a' = n then Some t else od_get (mod_map_gold mm) a') = Some b"
    then show "a = a'" using old(3) [of a b a'] free(2) by (auto split: if_splits)
  next
    show "insert n {n. od_get (mod_map_gold mm) n \<noteq> None} =
      {k. (if k = n then Some t else od_get (mod_map_gold mm) k) \<noteq> None}" by auto
    have new: "(\<exists>k. (if k = n then Some t else od_get (mod_map_gold mm) k) = Some u) \<longleftrightarrow>
        u = t \<or> (\<exists>k. od_get (mod_map_gold mm) k = Some u)" for u
      using free(1) by (metis option.discI option.inject)
    show "insert t {t. \<exists>n. od_get (mod_map_gold mm) n = Some t} =
      {u. \<exists>k. (if k = n then Some t else od_get (mod_map_gold mm) k) = Some u}"
      unfolding new by blast
  qed
qed

lemma external_step:
  assumes "matching d mm" "unmapped_apart mm"
  shows "matching d (external_module_match d l mm) \<and> unmapped_apart (external_module_match d l mm) \<and>
    extends mm (external_module_match d l mm)"
proof (cases "external_module_match d l mm = mm")
  case False
  then obtain n t where nt: "design_module d n \<noteq> None" "design_module d t \<noteq> None"
    "n \<notin> set (mapped_mods_gold mm)" "t \<notin> set (mapped_mods_gate mm)"
    and eq: "external_module_match d l mm = (add_pair mm n t)\<lparr>unmapped_mods_gold := op_erase (unmapped_mods_gold mm) n,
      unmapped_mods_gate := op_erase (unmapped_mods_gate mm) t\<rparr>"
    unfolding external_module_match_def add_pair_def by (auto simp: Let_def split: if_splits list.splits)
  have d: "distinct (unmapped_mods_gold mm)" "distinct (unmapped_mods_gate mm)" using assms(2) by (simp_all add: unmapped_apart_def)
  note e = op_erase_set [OF d(1)] op_erase_set [OF d(2)] op_erase_distinct [OF d(1)] op_erase_distinct [OF d(2)]
  have "matching d (external_module_match d l mm)"
    using add_pair_matching(1) [OF assms(1) nt] unfolding eq by (simp add: matching_def)
  moreover have "extends mm (external_module_match d l mm)"
    using add_pair_matching(2) [OF assms(1) nt] unfolding eq by (auto simp: extends_def e add_pair_def)
  moreover have "unmapped_apart (external_module_match d l mm)"
    using assms(2) unfolding eq by (auto simp: unmapped_apart_def e add_pair_def)
  ultimately show ?thesis by blast
qed (use assms in simp)

lemma external_steps:
  assumes "matching d mm" "unmapped_apart mm" "mm' = foldl (\<lambda>mm l. external_module_match d l mm) mm ls"
  shows "matching d mm' \<and> unmapped_apart mm' \<and> extends mm mm'"
  using assms
proof (induction ls arbitrary: mm)
  case (Cons l ls)
  with external_step [OF Cons.prems(1,2), of l] show ?case
    using extends_trans by (metis foldl_Cons)
qed simp

text \<open>The names left in the table of signatures.\<close>

definition avail :: "(string, string list) odict \<Rightarrow> string list" where
  "avail sigs = concat (map snd sigs)"

lemma avail_set:
  assumes "distinct (map fst sigs)"
  shows "mset (avail (od_set sigs s ys)) + mset (case od_get sigs s of None \<Rightarrow> [] | Some xs \<Rightarrow> xs) = mset (avail sigs) + mset ys"
proof (cases "od_count sigs s")
  case False
  then show ?thesis by (simp add: od_set_def avail_def od_count_get)
next
  case True
  have upd: "s \<notin> fst ` set ss \<Longrightarrow> od_upd ss s ys = ss" for ss by (induction ss) (auto simp: od_upd_def)
  have "mset (avail (od_upd ss s ys)) + mset (case od_get ss s of None \<Rightarrow> [] | Some xs \<Rightarrow> xs) = mset (avail ss) + mset ys"
    if "distinct (map fst ss)" "s \<in> fst ` set ss" for ss
    using that
  proof (induction ss)
    case (Cons p ss)
    show ?case
    proof (cases "fst p = s")
      case True
      then have "od_upd ss s ys = ss" using Cons.prems upd by auto
      with True show ?thesis by (cases p) (simp add: od_upd_def avail_def od_get_def)
    next
      case False
      then show ?thesis using Cons by (cases p) (auto simp: od_upd_def avail_def od_get_def)
    qed
  qed simp
  then show ?thesis using True assms by (simp add: od_set_def od_count_def)
qed

lemma collect_sigs_avail:
  "distinct (map fst (collect_sigs d ns)) \<and> mset (avail (collect_sigs d ns)) = mset (filter (\<lambda>n. design_module d n \<noteq> None) ns)"
proof -
  let ?f = "\<lambda>sigs gn. case design_module d gn of None \<Rightarrow> sigs | Some gm \<Rightarrow> let s = make_sig gm
         in od_set sigs s ((case od_get sigs s of None \<Rightarrow> [] | Some xs \<Rightarrow> xs) @ [gn])"
  have step: "distinct (map fst (?f sigs n)) \<and>
      mset (avail (?f sigs n)) = mset (avail sigs) + mset (filter (\<lambda>n. design_module d n \<noteq> None) [n])"
    if "distinct (map fst sigs)" for sigs n
  proof (cases "design_module d n")
    case (Some gm)
    let ?old = "case od_get sigs (make_sig gm) of None \<Rightarrow> [] | Some xs \<Rightarrow> xs"
    have "mset (avail (od_set sigs (make_sig gm) (?old @ [n]))) + mset ?old = mset (avail sigs) + mset [n] + mset ?old"
      using avail_set [OF that, of "make_sig gm" "?old @ [n]"] by (simp add: union_commute)
    then show ?thesis using Some that by (simp only: add_right_cancel Let_def option.case od_set_distinct) simp
  qed (use that in simp)
  have "distinct (map fst (foldl ?f sigs ns)) \<and>
      mset (avail (foldl ?f sigs ns)) = mset (avail sigs) + mset (filter (\<lambda>n. design_module d n \<noteq> None) ns)"
    if "distinct (map fst sigs)" for sigs
    using that
  proof (induction ns arbitrary: sigs)
    case (Cons n ns)
    from step [OF Cons.prems, of n] Cons.IH [of "?f sigs n"] show ?case by auto
  qed simp
  from this [of "[]"] show ?thesis by (simp add: collect_sigs_def avail_def)
qed

text \<open>The loop over the unmapped gold modules: \<open>A\<close> and \<open>B\<close> are the unmapped modules at its start.\<close>

definition structural_inv ::
    "Design \<Rightarrow> ModMap \<Rightarrow> ModMap \<times> (string, string list) odict \<times> (string \<times> string) list \<Rightarrow> bool" where
  "structural_inv d mm0 = (\<lambda>(mm, sigs, found).
     matching d mm \<and> extends mm0 mm \<and>
     unmapped_mods_gold mm = unmapped_mods_gold mm0 \<and> unmapped_mods_gate mm = unmapped_mods_gate mm0 \<and>
     set (mapped_mods_gold mm) = set (mapped_mods_gold mm0) \<union> fst ` set found \<and>
     set (mapped_mods_gate mm) = set (mapped_mods_gate mm0) \<union> snd ` set found \<and>
     distinct (map fst sigs) \<and> distinct (avail sigs) \<and>
     set (avail sigs) \<subseteq> set (unmapped_mods_gate mm0) - snd ` set found \<and>
     (\<forall>t \<in> set (avail sigs). design_module d t \<noteq> None))"

lemma structural_step:
  assumes "structural_inv d mm0 (mm, sigs, found)" "unmapped_apart mm0" "gld \<in> set (unmapped_mods_gold mm0)"
    "gld \<notin> fst ` set found" "structural_match d gld (mm, sigs, found) = (mm', sigs', found')"
  shows "structural_inv d mm0 (mm', sigs', found') \<and> fst ` set found' \<subseteq> insert gld (fst ` set found)"
proof (cases "(mm', sigs', found') = (mm, sigs, found)")
  case False
  then obtain gm g rest where gm: "design_module d gld = Some gm" "od_get sigs (make_sig gm) = Some (g # rest)"
    and eq: "mm' = add_pair mm gld g" "sigs' = od_set sigs (make_sig gm) rest" "found' = found @ [(gld, g)]"
  proof (cases "design_module d gld")
    case (Some gm)
    then show thesis
    proof (cases "od_get sigs (make_sig gm)")
      case None
      with Some False assms(5) show thesis by (simp add: structural_match_def Let_def)
    next
      case (Some xs)
      show thesis
      proof (cases xs)
        case Nil
        with Some \<open>design_module d gld = Some gm\<close> False assms(5) show thesis by (simp add: structural_match_def Let_def)
      next
        case (Cons g rest)
        have "structural_match d gld (mm, sigs, found) =
            (add_pair mm gld g, od_set sigs (make_sig gm) rest, found @ [(gld, g)])"
          using Some Cons \<open>design_module d gld = Some gm\<close> by (simp add: structural_match_def Let_def add_pair_def)
        with that [of gm g rest] Some Cons \<open>design_module d gld = Some gm\<close> assms(5) show thesis by simp
      qed
    qed
  qed (use False assms(5) in \<open>simp add: structural_match_def\<close>)
  have inv: "matching d mm" "extends mm0 mm" "distinct (map fst sigs)" "distinct (avail sigs)"
    "set (avail sigs) \<subseteq> set (unmapped_mods_gate mm0) - snd ` set found" "\<forall>t \<in> set (avail sigs). design_module d t \<noteq> None"
    "set (mapped_mods_gold mm) = set (mapped_mods_gold mm0) \<union> fst ` set found"
    "set (mapped_mods_gate mm) = set (mapped_mods_gate mm0) \<union> snd ` set found"
    "unmapped_mods_gold mm = unmapped_mods_gold mm0" "unmapped_mods_gate mm = unmapped_mods_gate mm0"
    using assms(1) by (simp_all add: structural_inv_def)
  have av: "mset (g # avail sigs') = mset (avail sigs)"
    using avail_set [OF inv(3), of "make_sig gm" rest] gm(2) eq(2) by simp
  then have dis: "distinct (g # avail sigs')" and sub: "set (g # avail sigs') = set (avail sigs)"
    using inv(4) mset_eq_imp_distinct_iff [OF av] mset_eq_setD [OF av] by blast+
  have g: "g \<in> set (avail sigs)" "g \<notin> set (avail sigs')" using dis sub by auto
  have apart: "gld \<notin> set (mapped_mods_gold mm)" "g \<notin> set (mapped_mods_gate mm)"
    using assms(2-4) g(1) inv(5,7,8) by (auto simp: unmapped_apart_def)
  have "matching d mm'" "extends mm mm'"
    using add_pair_matching [OF inv(1) _ _ apart] gm(1) inv(6) g(1) unfolding eq(1) by simp_all
  moreover have "set (mapped_mods_gold mm') = set (mapped_mods_gold mm0) \<union> fst ` set found'"
    "set (mapped_mods_gate mm') = set (mapped_mods_gate mm0) \<union> snd ` set found'"
    "unmapped_mods_gold mm' = unmapped_mods_gold mm0" "unmapped_mods_gate mm' = unmapped_mods_gate mm0"
    using inv(7-10) by (auto simp: eq add_pair_def)
  moreover have "distinct (map fst sigs')" using inv(3) by (simp add: eq od_set_distinct)
  moreover have "set (avail sigs') \<subseteq> set (unmapped_mods_gate mm0) - snd ` set found'"
    using inv(5) sub g(2) by (auto simp: eq(3))
  ultimately have "structural_inv d mm0 (mm', sigs', found')"
    using dis sub inv(2,6) extends_trans unfolding structural_inv_def by auto
  then show ?thesis by (auto simp: eq(3))
qed (use assms(1) in auto)

lemma structural_loop:
  assumes "structural_inv d mm0 (mm, sigs, found)" "unmapped_apart mm0" "set xs \<subseteq> set (unmapped_mods_gold mm0)"
    "distinct xs" "set xs \<inter> fst ` set found = {}"
    "foldl (\<lambda>st gld. structural_match d gld st) (mm, sigs, found) xs = (mm', sigs', found')"
  shows "structural_inv d mm0 (mm', sigs', found')"
  using assms
proof (induction xs arbitrary: mm sigs found)
  case (Cons x xs)
  obtain mm1 sigs1 found1 where one: "structural_match d x (mm, sigs, found) = (mm1, sigs1, found1)"
    by (cases "structural_match d x (mm, sigs, found)") auto
  from structural_step [OF Cons.prems(1,2) _ _ one] Cons.prems(3,5)
  have "structural_inv d mm0 (mm1, sigs1, found1)" "fst ` set found1 \<subseteq> insert x (fst ` set found)" by auto
  moreover from this Cons.prems(4,5) have "set xs \<inter> fst ` set found1 = {}" by auto
  ultimately show ?case using Cons.IH [OF _ Cons.prems(2)] Cons.prems(3,4,6) one by simp
qed simp

lemma foldl_op_erase: "distinct p \<Longrightarrow> set (foldl op_erase p xs) = set p - set xs \<and> distinct (foldl op_erase p xs)"
  by (induction xs arbitrary: p) (auto simp: op_erase_set op_erase_distinct)

lemma structural_fallback_ok:
  assumes "matching d mm" "unmapped_apart mm"
  shows "matching d (structural_fallback d mm) \<and> unmapped_apart (structural_fallback d mm) \<and> extends mm (structural_fallback d mm)"
proof (cases "unmapped_mods_gold mm = [] \<or> unmapped_mods_gate mm = []")
  case True
  then show ?thesis using assms by (auto simp: structural_fallback_def)
next
  case False
  define sigs where "sigs = collect_sigs d (iterate (unmapped_mods_gate mm))"
  obtain mm1 sigs1 found where loop: "foldl (\<lambda>st gld. structural_match d gld st) (mm, sigs, [])
      (iterate (unmapped_mods_gold mm)) = (mm1, sigs1, found)" using prod_cases3 by blast
  have ua: "distinct (unmapped_mods_gold mm)" "distinct (unmapped_mods_gate mm)" using assms(2) by (simp_all add: unmapped_apart_def)
  note cs = collect_sigs_avail [of d "iterate (unmapped_mods_gate mm)", folded sigs_def]
  have "distinct (avail sigs)" using cs ua(2) by (metis distinct_filter distinct_rev mset_eq_imp_distinct_iff)
  moreover have "set (avail sigs) = {t \<in> set (unmapped_mods_gate mm). design_module d t \<noteq> None}"
    using mset_eq_setD [OF conjunct2 [OF cs]] by simp
  ultimately have "structural_inv d mm (mm, sigs, [])" using assms(1) cs by (auto simp: structural_inv_def)
  from structural_loop [OF this assms(2) _ _ _ loop] ua have inv: "structural_inv d mm (mm1, sigs1, found)" by simp
  have fb: "structural_fallback d mm = mm1\<lparr>unmapped_mods_gold := foldl op_erase (unmapped_mods_gold mm) (map fst found),
      unmapped_mods_gate := foldl op_erase (unmapped_mods_gate mm) (map snd found)\<rparr>"
    using False loop inv by (simp add: structural_fallback_def sigs_def structural_inv_def)
  note e = foldl_op_erase [OF ua(1), of "map fst found"] foldl_op_erase [OF ua(2), of "map snd found"]
  have "matching d (structural_fallback d mm)" using inv by (simp add: fb structural_inv_def matching_def)
  moreover have "unmapped_apart (structural_fallback d mm)"
    using inv assms(2) e by (auto simp: fb structural_inv_def unmapped_apart_def)
  moreover have "extends mm (structural_fallback d mm)" using inv e by (auto simp: fb structural_inv_def extends_def)
  ultimately show ?thesis by blast
qed

section \<open>Constants on the inputs of black boxes\<close>

text \<open>A new bit that carries the same value: the old one, or a wire connected to the old constant.\<close>

definition bit_driven :: "SigSig list \<Rightarrow> SigBit \<Rightarrow> SigBit \<Rightarrow> bool" where
  "bit_driven conns b b' \<longleftrightarrow> is_wire b' \<and> (if is_wire b then b' = b else ([b'], [b]) \<in> set conns)"

text \<open>Names with the prefix of the new wires belong to wires of width one.\<close>

definition bb_names :: "Module \<Rightarrow> bool" where
  "bb_names m \<longleftrightarrow> (\<forall>w \<in> set (m_wires m). prefix ''$bbconst$'' (w_name w) \<longrightarrow> w_width w = 1) \<and>
     (\<forall>n \<in> c_name ` set (m_cells m) \<union> set (m_others m). \<not> prefix ''$bbconst$'' n)"

lemma bbconst_name_prefix: "prefix ''$bbconst$'' (bbconst_name cell port i)"
  by (simp add: bbconst_name_def escape_id_def)

lemma bbconst_wire:
  assumes "bb_names m" "prefix ''$bbconst$'' n" "\<not> is_wire b"
  shows "\<exists>m1 w m2. (if module_wire m n = None then add_wire m n 1 else Inr m) = Inr m1 \<and> module_wire m1 n = Some w \<and>
    connect m1 (sig_of_wire w) [b] = Inr m2 \<and> bb_names m2 \<and> m_cells m2 = m_cells m \<and>
    m_connections m2 = m_connections m @ [([WireBit n 0], [b])]"
proof -
  have sig: "sig_of_wire w = [WireBit (w_name w) 0]" if "w_width w = 1" for w using that by (simp add: sig_of_wire_def)
  have con: "connect m' [WireBit n 0] [b] = Inr (m'\<lparr>m_connections := m_connections m' @ [([WireBit n 0], [b])]\<rparr>)" for m'
    by (simp add: connect_def)
  show ?thesis
  proof (cases "module_wire m n")
    case None
    let ?w = "\<lparr>w_name = n, w_width = 1, port_id = 0, port_input = False, port_output = False\<rparr>"
    have "n \<noteq> []" using assms(2) by auto
    moreover have "count_id m n = 0"
      using None assms(1,2) by (auto simp: count_id_zero all_ids_def bb_names_def module_wire_def find_none)
    ultimately have add: "add_wire m n 1 = Inr (m\<lparr>m_wires := m_wires m @ [?w]\<rparr>)" by (simp add: add_wire_def)
    have "find P (xs @ ys) = (case find P xs of None \<Rightarrow> find P ys | Some x \<Rightarrow> Some x)" for P :: "Wire \<Rightarrow> bool" and xs ys
      by (induction xs) auto
    then have "module_wire (m\<lparr>m_wires := m_wires m @ [?w]\<rparr>) n = Some ?w" using None by (simp add: module_wire_def)
    then show ?thesis using None add con sig [of ?w] assms(1) by (auto simp: bb_names_def)
  next
    case (Some w)
    then have "w \<in> set (m_wires m)" "w_name w = n" by (auto simp: module_wire_def find_Some_iff)
    moreover from this have "w_width w = 1" using assms(1,2) by (auto simp: bb_names_def)
    ultimately show ?thesis using Some con sig [of w] assms(1) by (auto simp: bb_names_def)
  qed
qed

lemma bbconst_bits_ok:
  assumes "bb_names m"
  shows "\<exists>m' sig' cs. bbconst_bits cell port i sig m = Inr (m', sig', int (length cs)) \<and> bb_names m' \<and> m_cells m' = m_cells m \<and>
    m_connections m' = m_connections m @ cs \<and> list_all2 (bit_driven cs) sig sig' \<and> (cs = [] \<longrightarrow> sig' = sig)"
  using assms
proof (induction sig arbitrary: i m)
  case (Cons b sig)
  show ?case
  proof (cases "is_wire b")
    case True
    from Cons.IH [OF Cons.prems, of "Suc i"] obtain m' sig' cs where
      "bbconst_bits cell port (Suc i) sig m = Inr (m', sig', int (length cs))" "bb_names m'" "m_cells m' = m_cells m"
      "m_connections m' = m_connections m @ cs" "list_all2 (bit_driven cs) sig sig'" "cs = [] \<longrightarrow> sig' = sig" by blast
    moreover have "bit_driven cs b b" using True by (simp add: bit_driven_def)
    ultimately show ?thesis using True by (intro exI [of _ m'] exI [of _ "b # sig'"] exI [of _ cs]) simp
  next
    case False
    let ?n = "bbconst_name cell port i"
    from bbconst_wire [OF Cons.prems bbconst_name_prefix False] obtain m1 w m2 where
      one: "(if module_wire m ?n = None then add_wire m ?n 1 else Inr m) = Inr m1" "module_wire m1 ?n = Some w"
      "connect m1 (sig_of_wire w) [b] = Inr m2" "bb_names m2" "m_cells m2 = m_cells m"
      "m_connections m2 = m_connections m @ [([WireBit ?n 0], [b])]" by blast
    from Cons.IH [OF one(4), of "Suc i"] obtain m' sig' cs where
      IH: "bbconst_bits cell port (Suc i) sig m2 = Inr (m', sig', int (length cs))" "bb_names m'" "m_cells m' = m_cells m2"
      "m_connections m' = m_connections m2 @ cs" "list_all2 (bit_driven cs) sig sig'" by blast
    let ?cs = "([WireBit ?n 0], [b]) # cs"
    have "list_all2 (bit_driven ?cs) sig sig'" using IH(5) by (rule list_all2_mono) (auto simp: bit_driven_def)
    moreover have "bbconst_bits cell port i (b # sig) m = Inr (m', WireBit ?n 0 # sig', int (length ?cs))"
      using False one(1-3) IH(1) by (simp add: Let_def)
    moreover have "bit_driven ?cs b (WireBit ?n 0)" using False by (simp add: bit_driven_def)
    ultimately show ?thesis using IH one
      by (intro exI [of _ m'] exI [of _ "WireBit ?n 0 # sig'"] exI [of _ ?cs]) simp
  qed
qed (auto intro!: exI [of _ "[]"])

definition port_driven :: "SigSig list \<Rightarrow> Module \<Rightarrow> string \<Rightarrow> SigSpec \<Rightarrow> SigSpec \<Rightarrow> bool" where
  "port_driven conns sub port sig sig' \<longleftrightarrow>
     (if bb_input_port sub port then list_all2 (bit_driven conns) sig sig' else sig' = sig)"

lemma port_driven_mono: "port_driven cs sub port sig sig' \<Longrightarrow> set cs \<subseteq> set cs' \<Longrightarrow> port_driven cs' sub port sig sig'"
  unfolding port_driven_def by (auto simp: bit_driven_def elim!: list_all2_mono split: if_splits)

lemma bbconst_conns_ok:
  assumes "bb_names m" "distinct (map fst conns)"
  shows "\<exists>m' ups cs. bbconst_conns cell sub conns m = Inr (m', ups, int (length cs)) \<and> bb_names m' \<and> m_cells m' = m_cells m \<and>
    m_connections m' = m_connections m @ cs \<and> fst ` set ups \<subseteq> fst ` set conns \<and> distinct (map fst ups) \<and>
    (\<forall>(port, sig) \<in> set conns. port_driven cs sub port sig (case map_of ups port of None \<Rightarrow> sig | Some s \<Rightarrow> s))"
  using assms
proof (induction conns arbitrary: m)
  case (Cons c conns)
  obtain port sig where c: "c = (port, sig)" by fastforce
  show ?case
  proof (cases "bb_input_port sub port")
    case False
    from Cons.IH [OF Cons.prems(1)] Cons.prems(2) obtain m' ups cs where
      IH: "bbconst_conns cell sub conns m = Inr (m', ups, int (length cs))" "bb_names m'" "m_cells m' = m_cells m"
      "m_connections m' = m_connections m @ cs" "fst ` set ups \<subseteq> fst ` set conns" "distinct (map fst ups)"
      "\<forall>(port, sig) \<in> set conns. port_driven cs sub port sig (case map_of ups port of None \<Rightarrow> sig | Some s \<Rightarrow> s)" by auto
    have "map_of ups port = None" using IH(5) Cons.prems(2) c by (auto simp: map_of_eq_None_iff)
    then show ?thesis using IH False c
      by (intro exI [of _ m'] exI [of _ ups] exI [of _ cs]) (auto simp: port_driven_def)
  next
    case True
    from bbconst_bits_ok [OF Cons.prems(1), of cell port 0 sig] obtain m1 sig1 cs1 where
      one: "bbconst_bits cell port 0 sig m = Inr (m1, sig1, int (length cs1))" "bb_names m1" "m_cells m1 = m_cells m"
      "m_connections m1 = m_connections m @ cs1" "list_all2 (bit_driven cs1) sig sig1" "cs1 = [] \<longrightarrow> sig1 = sig" by blast
    from Cons.IH [OF one(2)] Cons.prems(2) obtain m' ups cs where
      IH: "bbconst_conns cell sub conns m1 = Inr (m', ups, int (length cs))" "bb_names m'" "m_cells m' = m_cells m1"
      "m_connections m' = m_connections m1 @ cs" "fst ` set ups \<subseteq> fst ` set conns" "distinct (map fst ups)"
      "\<forall>(port, sig) \<in> set conns. port_driven cs sub port sig (case map_of ups port of None \<Rightarrow> sig | Some s \<Rightarrow> s)" by auto
    let ?ups = "if int (length cs1) \<noteq> 0 then (port, sig1) # ups else ups"
    have np: "port \<notin> fst ` set ups" "port \<notin> fst ` set conns" using IH(5) Cons.prems(2) c by auto
    have "port_driven (cs1 @ cs) sub port sig (case map_of ?ups port of None \<Rightarrow> sig | Some s \<Rightarrow> s)"
      using port_driven_mono [of cs1 sub port sig sig1 "cs1 @ cs"] one(5,6) True np(1)
      by (auto simp: port_driven_def map_of_eq_None_iff [THEN iffD2])
    moreover have "port_driven (cs1 @ cs) sub p s (case map_of ?ups p of None \<Rightarrow> s | Some s \<Rightarrow> s)" if "(p, s) \<in> set conns" for p s
    proof -
      have "p \<noteq> port" using that np(2) by (metis fst_conv image_eqI)
      then show ?thesis using IH(7) that port_driven_mono [of cs sub p s _ "cs1 @ cs"] by fastforce
    qed
    moreover have "bbconst_conns cell sub (c # conns) m = Inr (m', ?ups, int (length (cs1 @ cs)))"
      using True c one(1) IH(1) by simp
    ultimately show ?thesis using IH(2-6) one(3,4) np c
      by (intro exI [of _ m'] exI [of _ ?ups] exI [of _ "cs1 @ cs"]) auto
  qed
qed (auto intro!: exI [of _ "[]"])

text \<open>A cell after its constants have been replaced.\<close>

definition cell_driven :: "Design \<Rightarrow> SigSig list \<Rightarrow> NCell \<Rightarrow> NCell \<Rightarrow> bool" where
  "cell_driven d conns c c' \<longleftrightarrow> c_name c' = c_name c \<and> c_type c' = c_type c \<and> map fst (c_conns c') = map fst (c_conns c) \<and>
     (case blackbox_of d c of None \<Rightarrow> c' = c
      | Some sub \<Rightarrow> \<forall>port sig. od_get (c_conns c) port = Some sig \<longrightarrow>
          (\<exists>sig'. od_get (c_conns c') port = Some sig' \<and> port_driven conns sub port sig sig'))"

lemma cell_driven_mono: "cell_driven d cs c c' \<Longrightarrow> set cs \<subseteq> set cs' \<Longrightarrow> cell_driven d cs' c c'"
  unfolding cell_driven_def by (auto split: option.splits) (meson port_driven_mono)

lemma set_ports:
  assumes "distinct (map fst ups)" "fst ` set ups \<subseteq> fst ` set (c_conns c)" "c' = foldl (\<lambda>c (port, sig). set_port c port sig) c ups"
  shows "c_name c' = c_name c \<and> c_type c' = c_type c \<and> map fst (c_conns c') = map fst (c_conns c) \<and>
    (\<forall>port. od_get (c_conns c') port = (case map_of ups port of None \<Rightarrow> od_get (c_conns c) port | Some s \<Rightarrow> Some s))"
  using assms
proof (induction ups arbitrary: c)
  case (Cons u ups)
  obtain p s where u: "u = (p, s)" by fastforce
  let ?c = "set_port c p s"
  have keys: "map fst (c_conns ?c) = map fst (c_conns c)"
    using Cons.prems(2) u by (auto simp: set_port_def od_keys_set op_insert_def)
  have "fst ` set ups \<subseteq> fst ` set (c_conns ?c)" using Cons.prems(2) arg_cong [OF keys, of set] by auto
  moreover have "distinct (map fst ups)" "c' = foldl (\<lambda>c (port, sig). set_port c port sig) ?c ups" "map_of ups p = None"
    using Cons.prems(1,3) u by (auto simp: map_of_eq_None_iff)
  ultimately have "c_name c' = c_name ?c \<and> c_type c' = c_type ?c \<and> map fst (c_conns c') = map fst (c_conns ?c) \<and>
    (\<forall>port. od_get (c_conns c') port = (case map_of ups port of None \<Rightarrow> od_get (c_conns ?c) port | Some s \<Rightarrow> Some s))"
    using Cons.IH [of ?c] by blast
  then show ?case using u keys \<open>map_of ups p = None\<close> by (auto simp: set_port_def od_get_set split: option.splits)
qed simp

lemma bbconst_cell_ok:
  assumes "bb_names m" "distinct (map fst (c_conns c))"
  shows "\<exists>m' cs c'. bbconst_cell d c (m, k) = Inr (m', k + int (length cs)) \<and> bb_names m' \<and>
    m_connections m' = m_connections m @ cs \<and> cell_driven d cs c c' \<and>
    (distinct (map c_name (m_cells m)) \<longrightarrow> c \<in> set (m_cells m) \<longrightarrow>
      m_cells m' = map (\<lambda>x. if c_name x = c_name c then c' else x) (m_cells m))"
proof (cases "blackbox_of d c")
  case None
  have "map (\<lambda>x. if c_name x = c_name c then c else x) (m_cells m) = m_cells m"
    if "distinct (map c_name (m_cells m))" "c \<in> set (m_cells m)"
    using that by (intro map_idI) (auto simp: distinct_map dest: inj_onD)
  then show ?thesis using None assms(1)
    by (intro exI [of _ m] exI [of _ "[]"] exI [of _ c]) (simp add: bbconst_cell_def cell_driven_def)
next
  case (Some sub)
  have "distinct (map fst (iterate (c_conns c)))" using assms(2) by (simp add: rev_map [symmetric])
  from bbconst_conns_ok [OF assms(1) this, of "c_name c" sub] obtain m1 ups cs where
    one: "bbconst_conns (c_name c) sub (iterate (c_conns c)) m = Inr (m1, ups, int (length cs))" "bb_names m1"
    "m_cells m1 = m_cells m" "m_connections m1 = m_connections m @ cs" "fst ` set ups \<subseteq> fst ` set (c_conns c)"
    "distinct (map fst ups)"
    "\<forall>(port, sig) \<in> set (c_conns c). port_driven cs sub port sig (case map_of ups port of None \<Rightarrow> sig | Some s \<Rightarrow> s)"
    by auto
  let ?f = "\<lambda>c. foldl (\<lambda>c (port, sig). set_port c port sig) c ups"
  note sp = set_ports [OF one(6,5) refl]
  let ?m = "update_cell m1 (c_name c) ?f"
  have "cell_driven d cs c (?f c)"
    unfolding cell_driven_def Some option.case
  proof (intro conjI allI impI)
    fix port sig assume sig: "od_get (c_conns c) port = Some sig"
    then have "(port, sig) \<in> set (c_conns c)" by (simp add: od_get_def map_of_SomeD)
    then show "\<exists>sig'. od_get (c_conns (?f c)) port = Some sig' \<and> port_driven cs sub port sig sig'"
      using one(7) sp sig by (cases "map_of ups port") fastforce+
  qed (use sp in blast)+
  moreover have "m_cells ?m = map (\<lambda>x. if c_name x = c_name c then ?f c else x) (m_cells m)"
    if "distinct (map c_name (m_cells m))" "c \<in> set (m_cells m)"
    using that one(3) by (auto simp: update_cell_def distinct_map dest: inj_onD)
  moreover have "bb_names ?m"
  proof -
    have "c_name (?f x) = c_name x" for x
      by (induction ups arbitrary: x) (auto simp: set_port_def)
    then have "map c_name (m_cells ?m) = map c_name (m_cells m1)" by (simp add: update_cell_def)
    then have "c_name ` set (m_cells ?m) = c_name ` set (m_cells m1)" by (metis list.set_map)
    then show ?thesis using one(2) by (simp add: bb_names_def update_cell_def)
  qed
  moreover have "bbconst_cell d c (m, k) = Inr (?m, k + int (length cs))" using Some one(1) by (simp add: bbconst_cell_def)
  moreover have "m_connections ?m = m_connections m @ cs" using one(4) by (simp add: update_cell_def)
  ultimately show ?thesis by blast
qed

text \<open>Between two cells: the cells in \<open>S\<close> have been treated.\<close>

definition bb_progress :: "Design \<Rightarrow> Module \<Rightarrow> string set \<Rightarrow> Module \<times> int \<Rightarrow> bool" where
  "bb_progress d m0 S = (\<lambda>(m, n). bb_names m \<and>
     (\<exists>cs. m_connections m = m_connections m0 @ cs \<and> n = int (length cs) \<and>
       list_all2 (\<lambda>c c'. c_name c' = c_name c \<and> (if c_name c \<in> S then cell_driven d cs c c' else c' = c))
         (m_cells m0) (m_cells m)))"

lemma bb_progress_step:
  assumes "bb_progress d m0 S (m, n)" "c \<in> set (m_cells m0)" "c_name c \<notin> S" "distinct (map c_name (m_cells m0))"
    "distinct (map fst (c_conns c))"
  shows "\<exists>s'. bbconst_cell d c (m, n) = Inr s' \<and> bb_progress d m0 (insert (c_name c) S) s'"
proof -
  obtain cs where cs: "bb_names m" "m_connections m = m_connections m0 @ cs" "n = int (length cs)"
    "list_all2 (\<lambda>c c'. c_name c' = c_name c \<and> (if c_name c \<in> S then cell_driven d cs c c' else c' = c)) (m_cells m0) (m_cells m)"
    using assms(1) by (auto simp: bb_progress_def)
  have "list_all2 (\<lambda>x y. x = y) (map c_name (m_cells m0)) (map c_name (m_cells m))"
    unfolding list_all2_map1 list_all2_map2 using cs(4) by (rule list_all2_mono) auto
  then have names: "map c_name (m_cells m) = map c_name (m_cells m0)" by (simp add: list.rel_eq)
  have "c \<in> set (m_cells m)"
  proof -
    obtain i where "i < length (m_cells m0)" "m_cells m0 ! i = c" using assms(2) by (auto simp: in_set_conv_nth)
    then show ?thesis using list_all2_nthD [OF cs(4), of i] list_all2_lengthD [OF cs(4)] assms(3) by (auto simp: in_set_conv_nth)
  qed
  moreover have "distinct (map c_name (m_cells m))" using names assms(4) by simp
  moreover obtain m' cs' c' where
    one: "bbconst_cell d c (m, n) = Inr (m', n + int (length cs'))" "bb_names m'" "m_connections m' = m_connections m @ cs'"
    "cell_driven d cs' c c'"
    and cells: "distinct (map c_name (m_cells m)) \<longrightarrow> c \<in> set (m_cells m) \<longrightarrow>
      m_cells m' = map (\<lambda>x. if c_name x = c_name c then c' else x) (m_cells m)"
    using bbconst_cell_ok [OF cs(1) assms(5), of d n] by blast
  ultimately have upd: "m_cells m' = map (\<lambda>x. if c_name x = c_name c then c' else x) (m_cells m)" by blast
  have nc: "c_name c' = c_name c" using one(4) by (simp add: cell_driven_def)
  have "list_all2 (\<lambda>c c'. c_name c' = c_name c \<and> (if c_name c \<in> insert (c_name y) S then cell_driven d (cs @ cs') c c' else c' = c))
      (m_cells m0) (m_cells m')" if "y = c" for y
    unfolding upd list_all2_map2
  proof (rule list_all2_all_nthI)
    show "length (m_cells m0) = length (m_cells m)" by (rule list_all2_lengthD [OF cs(4)])
    fix i assume i: "i < length (m_cells m0)"
    note rel = list_all2_nthD [OF cs(4) i]
    show "c_name (if c_name (m_cells m ! i) = c_name c then c' else m_cells m ! i) = c_name (m_cells m0 ! i) \<and>
      (if c_name (m_cells m0 ! i) \<in> insert (c_name y) S
       then cell_driven d (cs @ cs') (m_cells m0 ! i) (if c_name (m_cells m ! i) = c_name c then c' else m_cells m ! i)
       else (if c_name (m_cells m ! i) = c_name c then c' else m_cells m ! i) = m_cells m0 ! i)"
    proof (cases "c_name (m_cells m0 ! i) = c_name c")
      case True
      then have "m_cells m0 ! i = c" using assms(2,4) i by (auto simp: distinct_map dest: inj_onD)
      then show ?thesis using rel that nc cell_driven_mono [OF one(4), of "cs @ cs'"] by auto
    next
      case False
      then show ?thesis using rel that cell_driven_mono [of d cs "m_cells m0 ! i" "m_cells m ! i" "cs @ cs'"] by auto
    qed
  qed
  then have "bb_progress d m0 (insert (c_name c) S) (m', n + int (length cs'))"
    using one(2,3) cs(2,3) by (auto simp: bb_progress_def)
  with one(1) show ?thesis by blast
qed

section \<open>Guarantees\<close>


text \<open>C3: Pairing the modules of the two designs never fails and gives a one-to-one map between existing modules,
  whose two sides are the mapped modules, disjoint from the unmapped ones. Every pair of modules
  whose names correspond is in it, and every module on the gold or gate side is either mapped or
  listed as unmapped, whatever the external match file says. It relies on prefixes that start with
  neither a backslash nor a dollar sign, on names without inner backslashes and on top modules that
  do not cross the prefixes.\<close>

theorem hier_mod_map_matching:
  assumes "plain_prefix gold_pre" "plain_prefix gate_pre" "roots_agree gold gate gold_pre gate_pre" "plain_names d"
  shows "\<exists>mm. hier_mod_map d gold gate gold_pre gate_pre ext = Inr mm \<and> matching d mm \<and> unmapped_apart mm \<and>
    (\<forall>n t. name_pair gold gate gold_pre gate_pre n t \<and> design_module d n \<noteq> None \<and> design_module d t \<noteq> None \<longrightarrow>
      od_get (mod_map_gold mm) n = Some t) \<and>
    (\<forall>n t. name_pair gold gate gold_pre gate_pre n t \<longrightarrow>
      (design_module d n \<noteq> None \<longrightarrow> n \<in> set (mapped_mods_gold mm) \<union> set (unmapped_mods_gold mm)) \<and>
      (design_module d t \<noteq> None \<longrightarrow> t \<in> set (mapped_mods_gate mm) \<union> set (unmapped_mods_gate mm)))"
proof -
  let ?np = "name_pair gold gate gold_pre gate_pre" and ?N = "m_name ` set d"
  obtain mm1 mm2 where
    s1: "rfold (map_gold_module d gold gate gold_pre gate_pre) (map m_name (design_modules d)) ModMap_init = Inr mm1"
    and s2: "rfold (map_gate_module d gold gate gold_pre gate_pre) (map m_name (design_modules d)) mm1 = Inr mm2"
    and named: "named_so_far d ?np ?N ?N mm2"
    using name_stage [OF assms refl] by blast
  note n2 = named_matching [OF named assms(3)]
  define mm3 where "mm3 = (case ext of None \<Rightarrow> mm2 | Some ls \<Rightarrow> foldl (\<lambda>mm l. external_module_match d l mm) mm2 ls)"
  have n3: "matching d mm3 \<and> unmapped_apart mm3 \<and> extends mm2 mm3"
    using external_steps [OF n2(1,2)] n2(1,2) by (cases ext) (auto simp: mm3_def)
  define mm where "mm = structural_fallback d mm3"
  have n4: "matching d mm" "unmapped_apart mm" "extends mm2 mm"
    using structural_fallback_ok [of d mm3] n3 extends_trans unfolding mm_def by blast+
  have "hier_mod_map d gold gate gold_pre gate_pre ext = Inr mm"
    unfolding hier_mod_map_def Let_def s1 by (simp add: s2 n2(3) mm_def mm3_def cong: option.case_cong)
  moreover have "od_get (mod_map_gold mm) n = Some t" if "?np n t" "n \<in> ?N" "t \<in> ?N" for n t
  proof -
    have "od_get (mod_map_gold mm2) n = Some t"
      using that conjunct1 [OF named [unfolded named_so_far_def Let_def], THEN spec, THEN spec, of n t] by simp
    then show ?thesis using n4(3) by (simp add: extends_def)
  qed
  moreover have "n \<in> set (mapped_mods_gold mm2) \<union> set (unmapped_mods_gold mm2)" if "?np n t" "n \<in> ?N" for n t
    using named that unfolding named_so_far_def Let_def by fastforce
  moreover have "t \<in> set (mapped_mods_gate mm2) \<union> set (unmapped_mods_gate mm2)" if "?np n t" "t \<in> ?N" for n t
    using named that unfolding named_so_far_def Let_def by fastforce
  ultimately show ?thesis
    using n4 unfolding extends_def design_module_None not_not by (intro exI [of _ mm]) blast
qed

text \<open>C35: The modules kept for a local module are exactly those it instantiates, directly or through other modules
  of the design, and collecting them ends for every design, recursive instantiation included.\<close>

theorem keep_loop_reachable:
  "set (keep_loop d ([root], [root])) = {n. (instantiates d)\<^sup>*\<^sup>* root n}"
  by (rule keep_loop_reach) auto



theorem hier_mod_map_matching_witness:
  "\<exists>mm. hier_mod_map (map (\<lambda>n. witness_module (bs n)) [''gold_top'', ''gate_top'', ''gold_u'', ''gate_u''])
      (bs ''gold_top'') (bs ''gate_top'') ''gold_'' ''gate_'' None = Inr mm \<and>
    od_get (mod_map_gold mm) (bs ''gold_u'') = Some (bs ''gate_u'')"
proof -
  let ?d = "map (\<lambda>n. witness_module (bs n)) [''gold_top'', ''gate_top'', ''gold_u'', ''gate_u'']"
  have pre: "plain_prefix ''gold_''" "plain_prefix ''gate_''" by (simp_all add: plain_prefix_def)
  have ra: "roots_agree (bs ''gold_top'') (bs ''gate_top'') ''gold_'' ''gate_''" by (auto simp: roots_agree_def)
  have pl: "plain_names ?d" by (simp add: plain_names_def witness_module_def)
  have np: "name_pair (bs ''gold_top'') (bs ''gate_top'') ''gold_'' ''gate_'' (bs ''gold_u'') (bs ''gate_u'')"
    by (simp add: name_pair_def)
  have "design_module ?d (bs ''gold_u'') \<noteq> None" "design_module ?d (bs ''gate_u'') \<noteq> None"
    by (simp_all add: design_module_def witness_module_def)
  with hier_mod_map_matching [OF pre ra pl, of None] np show ?thesis by blast
qed


section \<open>Colliding names\<close>

text \<open>The names of the new wires of different cells can be equal, since a dollar sign separates their parts.\<close>

lemma bbconst_names_collide:
  "bbconst_name (bs ''a$b'') (bs ''c'') i = bbconst_name (bs ''a'') (bs ''b$c'') i"
  by (simp add: bbconst_name_def unescape_id_def)

end
