(* ===== verification/Guide_Match.thy ===== *)
theory Guide_Match
  imports Guide_Hier
begin

text \<open>
  The matching of signals in \<open>passes/guide/check/match.cc\<close>: the named bits of a module and their
  kinds, the matches by name, from an external file and from accepted suggestions, and the
  suggestions that are dumped for the bits left over. A cell pointer is the name of the cell. The
  validation of a suggested flip-flop (\<open>select_local_dff_cutpoints\<close> and \<open>validate_partition_pair\<close>
  of \<open>check/region.cc\<close>) is the parameter \<open>validate\<close>.
\<close>

section \<open>Named bits\<close>

record NamedSig =
  ns_sig :: SigBit
  ns_type :: MatchType
  ns_wire_name :: string
  ns_bit_index :: int

record CutPoint =
  cp_name :: string
  gold_sig :: SigBit
  gate_sig :: SigBit
  cp_type :: MatchType
  gold_ff_cell :: "string option"
  gate_ff_cell :: "string option"
  gold_wire_name :: string
  gold_bit_index :: int
  gate_wire_name :: string
  gate_bit_index :: int

type_synonym ff_map = "(SigBit, string) odict"

definition yosys_celltypes :: cell_types where
  "yosys_celltypes = setup_celltypes None Map.empty"

definition cell_has_ff_ports :: "NCell \<Rightarrow> bool" where
  "cell_has_ff_ports c \<longleftrightarrow> has_port c (bs ''Q'') \<and> has_port c (bs ''D'') \<and>
     (is_builtin_ff c \<or> c_type c = ''$anyinit'' \<or> contains (c_type c) ''DFF'')"

definition port_bits :: "NCell \<Rightarrow> string \<Rightarrow> SigSpec" where
  "port_bits c port = (case get_port c port of Inr sig \<Rightarrow> sig | Inl _ \<Rightarrow> [])"

definition add_ff_bit :: "(SigBit \<Rightarrow> SigBit) \<Rightarrow> string \<Rightarrow> ff_map \<Rightarrow> SigBit \<Rightarrow> ff_map" where
  "add_ff_bit sigmap cell ffm qb = od_set (od_set ffm qb cell) (sigmap qb) cell"

definition scan_cell :: "(SigBit \<Rightarrow> SigBit) \<Rightarrow> NCell list \<times> ff_map \<Rightarrow> NCell \<Rightarrow> NCell list \<times> ff_map" where
  "scan_cell sigmap = (\<lambda>(subckts, ffm) c.
     if \<not> cell_known yosys_celltypes (c_type c) then (op_insert subckts c, ffm)
     else if \<not> cell_has_ff_ports c then (subckts, ffm)
     else (subckts, foldl (add_ff_bit sigmap (c_name c)) ffm (map sigmap (port_bits c (bs ''Q'')))))"

text \<open>One round over the connections; the flag tells whether a bit was added.\<close>

definition spread_bit :: "ff_map \<times> bool \<Rightarrow> SigBit \<times> SigBit \<Rightarrow> ff_map \<times> bool" where
  "spread_bit = (\<lambda>(ffm, changed) (lb, rb).
     case od_get ffm rb of
       Some cell \<Rightarrow> if is_wire rb \<and> \<not> od_count ffm lb then (od_set ffm lb cell, True) else (ffm, changed)
     | None \<Rightarrow> (ffm, changed))"

definition spread_round :: "(SigBit \<times> SigBit) list \<Rightarrow> ff_map \<Rightarrow> ff_map \<times> bool" where
  "spread_round conns ffm = foldl spread_bit (ffm, False) conns"

definition spread_todo :: "(SigBit \<times> SigBit) list \<Rightarrow> ff_map \<Rightarrow> SigBit set" where
  "spread_todo conns ffm = fst ` set conns - fst ` set ffm"

lemma od_set_keys: "fst ` set (od_set d k v) = insert k (fst ` set d)"
  using arg_cong [OF od_keys_set [of d k v], of set] by simp

lemma spread_bits_progress:
  assumes "foldl spread_bit (ffm, b) cs = (ffm', b')" "set cs \<subseteq> set conns"
  shows "fst ` set ffm \<subseteq> fst ` set ffm' \<and> (b' \<longrightarrow> b \<or> spread_todo conns ffm' \<subset> spread_todo conns ffm)"
  using assms
proof (induction cs arbitrary: ffm b)
  case (Cons c cs)
  obtain ffm1 b1 where one: "spread_bit (ffm, b) c = (ffm1, b1)" by fastforce
  have a: "fst ` set ffm \<subseteq> fst ` set ffm1 \<and> (b1 \<longrightarrow> b \<or> spread_todo conns ffm1 \<subset> spread_todo conns ffm)"
  proof (cases "ffm1 = ffm")
    case False
    then obtain cell where "ffm1 = od_set ffm (fst c) cell" "\<not> od_count ffm (fst c)"
      using one by (auto simp: spread_bit_def split: prod.splits option.splits if_splits)
    then show ?thesis using Cons.prems(2) by (auto simp: od_set_keys spread_todo_def od_count_def)
  next
    case True
    have "od_set ffm k v \<noteq> ffm" if "k \<notin> fst ` set ffm" for k v using od_set_keys [of ffm k v] that by (metis insertI1)
    then have "b1 \<longrightarrow> b" using one True
      by (auto simp: spread_bit_def od_count_def split: prod.splits option.splits if_splits)
    then show ?thesis using True by simp
  qed
  have b: "fst ` set ffm1 \<subseteq> fst ` set ffm' \<and> (b' \<longrightarrow> b1 \<or> spread_todo conns ffm' \<subset> spread_todo conns ffm1)"
    using Cons.IH [of ffm1 b1] Cons.prems one by simp
  have mono: "spread_todo conns y \<subseteq> spread_todo conns x" if "fst ` set x \<subseteq> fst ` set y" for x y
    unfolding spread_todo_def using that by (rule Diff_mono [OF order_refl])
  have "b \<or> spread_todo conns ffm' \<subset> spread_todo conns ffm" if b'
  proof (cases b1)
    case True
    then show ?thesis using a mono [of ffm1 ffm'] b by (meson subset_psubset_trans)
  next
    case False
    then show ?thesis using b that mono [of ffm ffm1] a by (meson psubset_subset_trans)
  qed
  then show ?case using a b by (meson order_trans)
qed simp

function spread_ffs :: "(SigBit \<times> SigBit) list \<Rightarrow> ff_map \<Rightarrow> ff_map" where
  "spread_ffs conns ffm =
     (let (ffm', changed) = spread_round conns ffm in if changed then spread_ffs conns ffm' else ffm')"
  by pat_completeness auto

termination
proof (relation "measure (\<lambda>(conns, ffm). card (spread_todo conns ffm))")
  fix conns ffm x y y'
  assume "x = spread_round conns ffm" "(y, y') = x" "y'"
  then have "spread_todo conns y \<subset> spread_todo conns ffm"
    using spread_bits_progress [of ffm False conns y y' conns] by (auto simp: spread_round_def)
  then show "((conns, y), conns, ffm) \<in> measure (\<lambda>(conns, ffm). card (spread_todo conns ffm))"
    by (simp add: psubset_card_mono spread_todo_def)
qed simp

declare spread_ffs.simps [simp del]

definition bit_type :: "bool \<Rightarrow> Wire \<Rightarrow> MatchType" where
  "bit_type is_ff w =
     (if port_input w then PI
      else if is_ff \<and> port_output w then DFF_PO else if is_ff then DFF else if port_output w then PO else MT_NONE)"

definition indexed_name :: "string \<Rightarrow> nat \<Rightarrow> nat \<Rightarrow> string" where
  "indexed_name base width i = (if width = 1 then base else base @ ''['' @ to_string (int i) @ '']'')"

definition note_ff :: "ff_map \<Rightarrow> SigBit \<Rightarrow> ff_map \<Rightarrow> ff_map" where
  "note_ff ffc bm q = (case od_get ffc bm of None \<Rightarrow> q | Some cell \<Rightarrow> od_set q bm cell)"

type_synonym named_sigs = "(string, NamedSig) odict"

definition name_wire ::
    "(SigBit \<Rightarrow> SigBit) \<Rightarrow> ff_map \<Rightarrow> Wire \<Rightarrow> named_sigs \<times> ff_map \<Rightarrow> (named_sigs \<times> ff_map) result" where
  "name_wire sigmap ffc w st =
     (if w_width w \<noteq> 0 \<and> port_output w \<and> port_input w then Inl AssertFail
      else Inr (foldl (\<lambda>(out, q) i.
        let bm = sigmap (sigmap (sig_of_wire w ! i)); is_ff = od_count ffc bm
        in (od_set out (indexed_name (w_name w) (w_width w) i)
              \<lparr>ns_sig = bm, ns_type = bit_type is_ff w, ns_wire_name = w_name w, ns_bit_index = int i\<rparr>,
            note_ff ffc bm q)) st [0..<w_width w]))"

definition name_subckt_port ::
    "(SigBit \<Rightarrow> SigBit) \<Rightarrow> ff_map \<Rightarrow> string \<Rightarrow> named_sigs \<times> ff_map \<Rightarrow> string \<times> SigSpec \<Rightarrow> named_sigs \<times> ff_map" where
  "name_subckt_port sigmap ffc cell st = (\<lambda>(port, sig).
     foldl (\<lambda>(out, q) i.
       let bm = sigmap (sigmap (sig ! i))
       in (od_set out (indexed_name (cell @ ''.'' @ port) (length sig) i)
             \<lparr>ns_sig = bm, ns_type = SUBCKT_PIPO, ns_wire_name = port, ns_bit_index = int i\<rparr>,
           note_ff ffc bm q)) st [0..<length sig])"

definition build_named_sigs :: "Module \<Rightarrow> (named_sigs \<times> ff_map) result" where
  "build_named_sigs m =
     (let sigmap = module_sigmap m;
          (subckts, ff_q_bits) = foldl (scan_cell sigmap) ([], []) (iterate (m_cells m));
          ffc = spread_ffs (map (\<lambda>(l, r). (sigmap l, sigmap r)) (conn_bits m)) ff_q_bits
      in rbind (rfold (name_wire sigmap ffc) (iterate (m_wires m)) ([], [])) (\<lambda>st.
         Inr (foldl (\<lambda>st c. foldl (name_subckt_port sigmap ffc (c_name c)) st (iterate (c_conns c))) st (iterate subckts))))"

section \<open>Scores\<close>

fun update_match_stats :: "MatchStats \<Rightarrow> MatchType \<Rightarrow> MatchStats" where
  "update_match_stats st PI = st\<lparr>pi_cnt := pi_cnt st + 1\<rparr>"
| "update_match_stats st PO = st\<lparr>po_cnt := po_cnt st + 1\<rparr>"
| "update_match_stats st DFF = st\<lparr>dff_cnt := dff_cnt st + 1\<rparr>"
| "update_match_stats st DFF_PO = st\<lparr>dff_po_cnt := dff_po_cnt st + 1\<rparr>"
| "update_match_stats st SUBCKT_PIPO = st\<lparr>subckt_cnt := subckt_cnt st + 1\<rparr>"
| "update_match_stats st MT_NONE = st"

definition normalize_match_name :: "string \<Rightarrow> string" where
  "normalize_match_name name = map (\<lambda>ch. if isalnum ch then ch else CHR ''_'') (strip_backslash name)"

definition last_match_token :: "string \<Rightarrow> string" where
  "last_match_token name =
     (let n = normalize_match_name name in case find_last_of n CHR ''_'' of None \<Rightarrow> n | Some pos \<Rightarrow> drop (Suc pos) n)"

definition score_match_candidate :: "NamedSig \<Rightarrow> NamedSig \<Rightarrow> int" where
  "score_match_candidate g k =
     (if ns_type g \<noteq> ns_type k then 0
      else (if ns_bit_index g = ns_bit_index k then 10 else 0) +
           (if ns_wire_name g = ns_wire_name k then 100 else 0) +
           (if normalize_match_name (ns_wire_name g) = normalize_match_name (ns_wire_name k) then 40 else 0) +
           (if last_match_token (ns_wire_name g) = last_match_token (ns_wire_name k) then 20 else 0))"

definition match_candidate_features :: "'d fp_ops \<Rightarrow> NamedSig \<Rightarrow> NamedSig \<Rightarrow> (string, 'd) odict" where
  "match_candidate_features fp g k =
     (let gl = int (length (strip_backslash (ns_wire_name g))); kl = int (length (strip_backslash (ns_wire_name k)))
      in [(''bit_index_equal'', fp_bool fp (ns_bit_index g = ns_bit_index k)),
          (''bit_index_absdiff'', fp_of_int fp \<bar>ns_bit_index g - ns_bit_index k\<bar>),
          (''wire_name_exact'', fp_bool fp (ns_wire_name g = ns_wire_name k)),
          (''wire_name_norm_exact'',
            fp_bool fp (normalize_match_name (ns_wire_name g) = normalize_match_name (ns_wire_name k))),
          (''same_last_token'', fp_bool fp (last_match_token (ns_wire_name g) = last_match_token (ns_wire_name k))),
          (''heuristic_score'', fp_of_int fp (score_match_candidate g k)),
          (''gold_name_len'', fp_of_int fp gl), (''gate_name_len'', fp_of_int fp kl),
          (''name_len_absdiff'', fp_of_int fp \<bar>gl - kl\<bar>),
          (''type_pi'', fp_bool fp (ns_type g = PI)), (''type_po'', fp_bool fp (ns_type g = PO)),
          (''type_dff'', fp_bool fp (ns_type g = DFF)), (''type_dff_po'', fp_bool fp (ns_type g = DFF_PO)),
          (''type_subckt_pipo'', fp_bool fp (ns_type g = SUBCKT_PIPO))])"

definition predict_match_score :: "'d fp_ops \<Rightarrow> 'd GuideMatchModel \<Rightarrow> NamedSig \<Rightarrow> NamedSig \<Rightarrow> 'd result" where
  "predict_match_score fp model g k =
     (if \<not> mm_loaded model then Inr (fp_of_int fp (score_match_candidate g k))
      else sum_trees fp (mm_trees model) (feature_vector fp (mm_feature_names model) (match_candidate_features fp g k))
             (mm_base_score model))"

definition match_suggestions_path :: "string \<Rightarrow> string" where
  "match_suggestions_path jl = (case find_last_of jl CHR ''/'' of
     None \<Rightarrow> ''match_suggestions.json'' | Some pos \<Rightarrow> take (Suc pos) jl @ ''match_suggestions.json'')"

definition match_artifact_dir :: "'d CheckConfig \<Rightarrow> string" where
  "match_artifact_dir conf =
     (if dump_match (dump_cfg conf) \<and> match_jsonl (dump_cfg conf) \<noteq> [] then path_dirname (match_jsonl (dump_cfg conf))
      else if accept_sugs_file conf \<noteq> [] then path_dirname (accept_sugs_file conf)
      else tempdir_name conf)"

section \<open>Matching by name\<close>

text \<open>
  The match state: the result so far, the matched names and the lines of the three match files,
  written only to the files that could be opened (\<open>match_files\<close>).
\<close>

type_synonym match_line = "string \<times> SigBit \<times> SigBit \<times> MatchType"

record match_files =
  f_open :: bool
  f_exact_open :: bool
  f_validated_open :: bool

record mstate =
  ms_stats :: MatchStats
  cut_points :: "CutPoint list"
  matched_gold :: "string list"
  matched_gate :: "string list"
  f_lines :: "match_line list"
  f_exact_lines :: "match_line list"
  f_validated_lines :: "match_line list"

definition mstate_init :: "string \<Rightarrow> mstate" where
  "mstate_init mf = \<lparr>ms_stats = MatchStats_init\<lparr>match_file := mf\<rparr>, cut_points = [], matched_gold = [], matched_gate = [],
     f_lines = [], f_exact_lines = [], f_validated_lines = []\<rparr>"

definition write_f :: "match_files \<Rightarrow> match_line \<Rightarrow> mstate \<Rightarrow> mstate" where
  "write_f fs l st = (if f_open fs then st\<lparr>f_lines := f_lines st @ [l]\<rparr> else st)"

definition write_exact :: "match_files \<Rightarrow> match_line \<Rightarrow> mstate \<Rightarrow> mstate" where
  "write_exact fs l st = (if f_exact_open fs then st\<lparr>f_exact_lines := f_exact_lines st @ [l]\<rparr> else st)"

definition write_validated :: "match_files \<Rightarrow> match_line \<Rightarrow> mstate \<Rightarrow> mstate" where
  "write_validated fs l st = (if f_validated_open fs then st\<lparr>f_validated_lines := f_validated_lines st @ [l]\<rparr> else st)"

definition make_cut :: "ff_map \<Rightarrow> ff_map \<Rightarrow> string \<Rightarrow> NamedSig \<Rightarrow> NamedSig \<Rightarrow> CutPoint" where
  "make_cut gq kq name g k = \<lparr>cp_name = name, gold_sig = ns_sig g, gate_sig = ns_sig k, cp_type = ns_type g,
     gold_ff_cell = od_get gq (ns_sig g), gate_ff_cell = od_get kq (ns_sig k),
     gold_wire_name = ns_wire_name g, gold_bit_index = ns_bit_index g,
     gate_wire_name = ns_wire_name k, gate_bit_index = ns_bit_index k\<rparr>"

definition add_match :: "string \<Rightarrow> string \<Rightarrow> CutPoint \<Rightarrow> mstate \<Rightarrow> mstate" where
  "add_match gname kname cp st = st\<lparr>
     matched_gold := op_insert (matched_gold st) gname,
     matched_gate := op_insert (matched_gate st) kname,
     ms_stats := (ms_stats st)\<lparr>exact_total := exact_total (ms_stats st) + 1\<rparr>,
     cut_points := cut_points st @ [cp]\<rparr>"

definition count_type :: "MatchType \<Rightarrow> mstate \<Rightarrow> mstate" where
  "count_type ty st = st\<lparr>ms_stats := update_match_stats (ms_stats st) ty\<rparr>"

definition count_unmatched :: "named_sigs \<Rightarrow> named_sigs \<Rightarrow> mstate \<Rightarrow> mstate" where
  "count_unmatched gold gate st = st\<lparr>ms_stats := (ms_stats st)\<lparr>
     unmatched_gold := int (length gold) - int (length (matched_gold st)),
     unmatched_gate := int (length gate) - int (length (matched_gate st))\<rparr>\<rparr>"

definition exact_match ::
    "match_files \<Rightarrow> named_sigs \<Rightarrow> ff_map \<Rightarrow> ff_map \<Rightarrow> mstate \<Rightarrow> string \<times> NamedSig \<Rightarrow> mstate" where
  "exact_match fs gate gq kq st = (\<lambda>(name, g).
     case od_get gate name of
       None \<Rightarrow> st
     | Some k \<Rightarrow>
         let l = (name, ns_sig g, ns_sig k, ns_type g);
             st = (if ns_type g \<noteq> MT_NONE then write_validated fs l (write_exact fs l (write_f fs l st)) else st)
         in count_type (ns_type g) (add_match name name (make_cut gq kq name g k) st))"

definition match_by_name :: "match_files \<Rightarrow> named_sigs \<Rightarrow> named_sigs \<Rightarrow> ff_map \<Rightarrow> ff_map \<Rightarrow> mstate \<Rightarrow> mstate" where
  "match_by_name fs gold gate gq kq st =
     count_unmatched gold gate (foldl (exact_match fs gate gq kq) st (iterate gold))"

section \<open>Matches from an external file\<close>

definition override_type :: "string \<Rightarrow> MatchType \<Rightarrow> MatchType" where
  "override_type tstr ty =
     (if tstr = ''PI'' then PI else if tstr = ''PO'' then PO else if tstr = ''DFF'' then DFF
      else if tstr = ''DFF_PO'' then DFF_PO else if tstr = ''SUBCKT_PIPO'' then SUBCKT_PIPO else ty)"

definition try_pair ::
    "match_files \<Rightarrow> named_sigs \<Rightarrow> named_sigs \<Rightarrow> string \<Rightarrow> mstate \<Rightarrow> string \<times> string \<Rightarrow> mstate" where
  "try_pair fs gold gate tstr st = (\<lambda>(gn, kn).
     case find (\<lambda>(ge, ke). strip_backslash (fst ge) = gn \<and> fst ge \<notin> set (matched_gold st) \<and>
                  strip_backslash (fst ke) = kn \<and> fst ke \<notin> set (matched_gate st))
            (List.product (iterate gold) (iterate gate)) of
       None \<Rightarrow> st
     | Some ((gname, g), (kname, k)) \<Rightarrow>
         let ty = override_type tstr (ns_type g); l = (gname, ns_sig g, ns_sig k, ty);
             cp = (make_cut [] [] gname g k)\<lparr>cp_type := ty\<rparr>
         in write_exact fs l (write_f fs l (add_match gname kname cp st)))"

definition before_bracket :: "string \<Rightarrow> string" where
  "before_bracket s = (case find_last_of s CHR ''['' of None \<Rightarrow> s | Some pos \<Rightarrow> take pos s)"

definition bit_pairs :: "string \<Rightarrow> string \<Rightarrow> (string \<times> string) list" where
  "bit_pairs gname kname = map (\<lambda>bi. let i = ''['' @ to_string (int bi) @ '']''
     in (before_bracket gname @ i, before_bracket kname @ i)) [0..<2048]"

text \<open>One line of the file; the first component of the state is the active section.\<close>

definition external_line ::
    "match_files \<Rightarrow> string \<Rightarrow> named_sigs \<Rightarrow> named_sigs \<Rightarrow> string \<times> mstate \<Rightarrow> string \<Rightarrow> string \<times> mstate" where
  "external_line fs pid gold gate = (\<lambda>(section, st) line.
     if line = [] \<or> hd line = CHR ''#'' then (section, st)
     else if hd line = CHR ''['' \<and> last line = CHR '']'' then (take (length line - 2) (drop 1 line), st)
     else case stream_fields line [] of
       gname # kname # rest \<Rightarrow>
         if section \<noteq> [] \<and> section \<noteq> pid then (section, st)
         else (section, foldl (try_pair fs gold gate (case rest of [] \<Rightarrow> [] | t # _ \<Rightarrow> t)) st
                ((gname, kname) # bit_pairs gname kname))
     | _ \<Rightarrow> (section, st))"

definition match_external ::
    "match_files \<Rightarrow> string \<Rightarrow> named_sigs \<Rightarrow> named_sigs \<Rightarrow> string list option \<Rightarrow> mstate \<Rightarrow> mstate" where
  "match_external fs pid gold gate ext st =
     (case ext of None \<Rightarrow> st
      | Some ls \<Rightarrow> count_unmatched gold gate (snd (foldl (external_line fs pid gold gate) ([], st) ls)))"

section \<open>Accepted suggestions\<close>

record 'd LocalValidateResult =
  lv_pair_id :: string
  lv_cut_cnt :: int
  lv_exact_cnt :: int
  lv_child_bnd_cnt :: int
  lv_unr_child_bnd_cnt :: int
  lv_bnd_map_exp :: int
  lv_bnd_map_app :: int
  lv_const_comp_net_cnt :: int
  lv_unr_int_bnd_cnt :: int
  lv_iface_in_cnt :: int
  lv_state_in_cnt :: int
  lv_child_in_cnt :: int
  lv_alias_in_cnt :: int
  lv_slice_res_cnt :: int
  lv_trace_res_in_cnt :: int
  lv_trace_prom_cnt :: int
  lv_prom_int_bnd_cnt :: int
  lv_unr_int_in_cnt :: int
  lv_unr_untrace_in_cnt :: int
  lv_const_comp_prom_cnt :: int
  lv_const_comp_promoted_cnt :: int
  lv_const_comp_trace_rem_cnt :: int
  lv_const_comp_trace_cnt :: int
  lv_const_comp_untrace_cnt :: int
  lv_preblif_res_cnt :: int
  lv_preblif_trace_cnt :: int
  lv_preblif_prom_cnt :: int
  lv_preblif_untrace_cnt :: int
  lv_preblif_promoted_cnt :: int
  lv_blif_res_cnt :: int
  lv_blif_trace_cnt :: int
  lv_blif_prom_cnt :: int
  lv_blif_opaque_out_cnt :: int
  lv_blif_lib_resolved_cnt :: int
  lv_blif_untrace_cnt :: int
  lv_blif_promoted_cnt :: int
  lv_prom_int_bnd_samps :: "string list"
  lv_unr_int_in_samps :: "string list"
  lv_const_comp_prom_samps :: "string list"
  lv_const_comp_rem_samps :: "string list"
  lv_const_comp_samps :: "string list"
  lv_preblif_res_samps :: "string list"
  lv_preblif_prom_samps :: "string list"
  lv_preblif_rem_samps :: "string list"
  lv_blif_res_samps :: "string list"
  lv_blif_prom_samps :: "string list"
  lv_blif_rem_samps :: "string list"
  lv_shell_refine_iter_cnt :: int
  lv_ran :: bool
  lv_proved :: bool
  lv_resid_hier :: bool
  lv_runtime_ms :: 'd
  lv_vali_backend :: string
  lv_used_bmc_fb :: bool
  lv_auth_ok :: bool
  lv_unsafe_why :: string
  lv_auth_why :: string
  lv_fb_why :: string

definition LocalValidateResult_init :: "'d fp_ops \<Rightarrow> 'd LocalValidateResult" where
  "LocalValidateResult_init fp = \<lparr>
    lv_pair_id = [], lv_cut_cnt = 0, lv_exact_cnt = 0, lv_child_bnd_cnt = 0, lv_unr_child_bnd_cnt = 0,
    lv_bnd_map_exp = 0, lv_bnd_map_app = 0, lv_const_comp_net_cnt = 0, lv_unr_int_bnd_cnt = 0,
    lv_iface_in_cnt = 0, lv_state_in_cnt = 0, lv_child_in_cnt = 0, lv_alias_in_cnt = 0, lv_slice_res_cnt = 0,
    lv_trace_res_in_cnt = 0, lv_trace_prom_cnt = 0, lv_prom_int_bnd_cnt = 0, lv_unr_int_in_cnt = 0,
    lv_unr_untrace_in_cnt = 0, lv_const_comp_prom_cnt = 0, lv_const_comp_promoted_cnt = 0,
    lv_const_comp_trace_rem_cnt = 0, lv_const_comp_trace_cnt = 0, lv_const_comp_untrace_cnt = 0,
    lv_preblif_res_cnt = 0, lv_preblif_trace_cnt = 0, lv_preblif_prom_cnt = 0, lv_preblif_untrace_cnt = 0,
    lv_preblif_promoted_cnt = 0, lv_blif_res_cnt = 0, lv_blif_trace_cnt = 0, lv_blif_prom_cnt = 0,
    lv_blif_opaque_out_cnt = 0, lv_blif_lib_resolved_cnt = 0, lv_blif_untrace_cnt = 0,
    lv_blif_promoted_cnt = 0, lv_prom_int_bnd_samps = [], lv_unr_int_in_samps = [],
    lv_const_comp_prom_samps = [], lv_const_comp_rem_samps = [], lv_const_comp_samps = [],
    lv_preblif_res_samps = [], lv_preblif_prom_samps = [], lv_preblif_rem_samps = [], lv_blif_res_samps = [],
    lv_blif_prom_samps = [], lv_blif_rem_samps = [], lv_shell_refine_iter_cnt = 0, lv_ran = False,
    lv_proved = False, lv_resid_hier = False, lv_runtime_ms = fp_of_int fp 0, lv_vali_backend = ''local_abc'',
    lv_used_bmc_fb = False, lv_auth_ok = True, lv_unsafe_why = [], lv_auth_why = [], lv_fb_why = []\<rparr>"

definition margin_json :: "'d fp_ops \<Rightarrow> string \<Rightarrow> string \<Rightarrow> string \<Rightarrow> string \<Rightarrow> string \<Rightarrow> 'd Json \<Rightarrow> 'd Json" where
  "margin_json fp dsg gold gate pair_id gold_name item = JObj
    [(''design'', JStr dsg), (''gold_mod'', JStr (strip_backslash gold)),
     (''gate_mod'', JStr (strip_backslash gate)), (''pair_id'', JStr pair_id),
     (''signal_name'', JStr (strip_backslash gold_name)),
     (''match_type'', JStr (string_value (json_get item ''type''))), (''source'', JStr ''ml_raw''),
     (''score'', JNum (number_value fp (json_get item ''score''))),
     (''margin'', JNum (number_value fp (json_get item ''score_margin''))),
     (''validator_result'', JStr ''skip''), (''skip_reason'', JStr ''margin_gate''),
     (''validator_backend'', JStr []), (''runtime_ms'', JNum (fp_of_int fp 0)), (''accepted'', JBool False),
     (''boundary_map_expected'', JInt 0), (''boundary_map_applied'', JInt 0),
     (''constant_completed_net_count'', JInt 0), (''module_interface_input_count'', JInt 0),
     (''state_cut_input_count'', JInt 0), (''child_boundary_input_count'', JInt 0),
     (''passthrough_alias_input_count'', JInt 0), (''slice_or_concat_residual_count'', JInt 0),
     (''traceable_residual_input_count'', JInt 0), (''promoted_from_trace_count'', JInt 0),
     (''constant_completed_promotable_count'', JInt 0),
     (''promoted_from_constant_completion_count'', JInt 0), (''promoted_internal_boundary_count'', JInt 0),
     (''unresolved_internal_input_count'', JInt 0), (''unresolved_untraceable_input_count'', JInt 0),
     (''constant_completed_traceable_remaining_count'', JInt 0),
     (''constant_completed_traceable_count'', JInt 0), (''constant_completed_untraceable_count'', JInt 0),
     (''preblif_residual_count'', JInt 0), (''preblif_traceable_residual_count'', JInt 0),
     (''preblif_promotable_residual_count'', JInt 0), (''preblif_untraceable_residual_count'', JInt 0),
     (''promoted_from_preblif_residual_count'', JInt 0), (''blif_residual_count'', JInt 0),
     (''blif_residual_traceable_count'', JInt 0), (''blif_residual_promotable_count'', JInt 0),
     (''blif_residual_opaque_cell_output_count'', JInt 0),
     (''blif_residual_library_resolved_count'', JInt 0), (''blif_residual_untraceable_count'', JInt 0),
     (''promoted_from_blif_residual_count'', JInt 0), (''shell_refinement_iterations'', JInt 0),
     (''promoted_internal_boundary_samples'', JArr []),
     (''promoted_from_constant_completion_samples'', JArr []),
     (''unresolved_internal_input_samples'', JArr []), (''constant_completed_remaining_samples'', JArr []),
     (''constant_completed_samples'', JArr []), (''preblif_residual_samples'', JArr []),
     (''preblif_promoted_samples'', JArr []), (''preblif_remaining_samples'', JArr []),
     (''blif_residual_samples'', JArr []), (''blif_promoted_samples'', JArr []),
     (''blif_remaining_samples'', JArr []), (''unresolved_internal_boundaries'', JInt 0),
     (''child_boundary_count'', JInt 0), (''unresolved_child_boundaries'', JInt 0)]"

definition validated_json ::
    "'d fp_ops \<Rightarrow> string \<Rightarrow> string \<Rightarrow> string \<Rightarrow> string \<Rightarrow> string \<Rightarrow> MatchType \<Rightarrow> 'd Json \<Rightarrow> 'd LocalValidateResult \<Rightarrow> 'd Json" where
  "validated_json fp dsg gold gate pair_id gold_name ty item v = JObj
    [(''design'', JStr dsg), (''gold_mod'', JStr (strip_backslash gold)),
     (''gate_mod'', JStr (strip_backslash gate)), (''pair_id'', JStr pair_id),
     (''signal_name'', JStr (strip_backslash gold_name)), (''match_type'', JStr (get_match_type_str ty)),
     (''source'', JStr ''ml_raw''), (''score'', JNum (number_value fp (json_get item ''score''))),
     (''margin'', JNum (number_value fp (json_get item ''score_margin''))),
     (''validator_result'', JStr (if lv_proved v then ''pass'' else ''fail'')),
     (''validator_backend'', JStr (lv_vali_backend v)), (''used_bmc_fallback'', JBool (lv_used_bmc_fb v)),
     (''authoritative_ok'', JBool (lv_auth_ok v)), (''authoritative_reason'', JStr (lv_auth_why v)),
     (''unsafe_reason'', JStr (lv_unsafe_why v)), (''fallback_reason'', JStr (lv_fb_why v)),
     (''runtime_ms'', JNum (lv_runtime_ms v)), (''accepted'', JBool (lv_proved v)),
     (''selected_cutpoints'', JInt (lv_cut_cnt v)), (''local_exact_total'', JInt (lv_exact_cnt v)),
     (''boundary_map_expected'', JInt (lv_bnd_map_exp v)),
     (''boundary_map_applied'', JInt (lv_bnd_map_app v)),
     (''constant_completed_net_count'', JInt (lv_const_comp_net_cnt v)),
     (''module_interface_input_count'', JInt (lv_iface_in_cnt v)),
     (''state_cut_input_count'', JInt (lv_state_in_cnt v)),
     (''child_boundary_input_count'', JInt (lv_child_in_cnt v)),
     (''passthrough_alias_input_count'', JInt (lv_alias_in_cnt v)),
     (''slice_or_concat_residual_count'', JInt (lv_slice_res_cnt v)),
     (''traceable_residual_input_count'', JInt (lv_trace_res_in_cnt v)),
     (''promoted_from_trace_count'', JInt (lv_trace_prom_cnt v)),
     (''constant_completed_promotable_count'', JInt (lv_const_comp_prom_cnt v)),
     (''promoted_from_constant_completion_count'', JInt (lv_const_comp_promoted_cnt v)),
     (''promoted_internal_boundary_count'', JInt (lv_prom_int_bnd_cnt v)),
     (''unresolved_internal_input_count'', JInt (lv_unr_int_in_cnt v)),
     (''unresolved_untraceable_input_count'', JInt (lv_unr_untrace_in_cnt v)),
     (''constant_completed_traceable_remaining_count'', JInt (lv_const_comp_trace_rem_cnt v)),
     (''constant_completed_traceable_count'', JInt (lv_const_comp_trace_cnt v)),
     (''constant_completed_untraceable_count'', JInt (lv_const_comp_untrace_cnt v)),
     (''preblif_residual_count'', JInt (lv_preblif_res_cnt v)),
     (''preblif_traceable_residual_count'', JInt (lv_preblif_trace_cnt v)),
     (''preblif_promotable_residual_count'', JInt (lv_preblif_prom_cnt v)),
     (''preblif_untraceable_residual_count'', JInt (lv_preblif_untrace_cnt v)),
     (''promoted_from_preblif_residual_count'', JInt (lv_preblif_promoted_cnt v)),
     (''blif_residual_count'', JInt (lv_blif_res_cnt v)),
     (''blif_residual_traceable_count'', JInt (lv_blif_trace_cnt v)),
     (''blif_residual_promotable_count'', JInt (lv_blif_prom_cnt v)),
     (''blif_residual_opaque_cell_output_count'', JInt (lv_blif_opaque_out_cnt v)),
     (''blif_residual_library_resolved_count'', JInt (lv_blif_lib_resolved_cnt v)),
     (''blif_residual_untraceable_count'', JInt (lv_blif_untrace_cnt v)),
     (''promoted_from_blif_residual_count'', JInt (lv_blif_promoted_cnt v)),
     (''shell_refinement_iterations'', JInt (lv_shell_refine_iter_cnt v)),
     (''promoted_internal_boundary_samples'', string_array_to_json (lv_prom_int_bnd_samps v)),
     (''promoted_from_constant_completion_samples'', string_array_to_json (lv_const_comp_prom_samps v)),
     (''unresolved_internal_input_samples'', string_array_to_json (lv_unr_int_in_samps v)),
     (''constant_completed_remaining_samples'', string_array_to_json (lv_const_comp_rem_samps v)),
     (''constant_completed_samples'', string_array_to_json (lv_const_comp_samps v)),
     (''preblif_residual_samples'', string_array_to_json (lv_preblif_res_samps v)),
     (''preblif_promoted_samples'', string_array_to_json (lv_preblif_prom_samps v)),
     (''preblif_remaining_samples'', string_array_to_json (lv_preblif_rem_samps v)),
     (''blif_residual_samples'', string_array_to_json (lv_blif_res_samps v)),
     (''blif_promoted_samples'', string_array_to_json (lv_blif_prom_samps v)),
     (''blif_remaining_samples'', string_array_to_json (lv_blif_rem_samps v)),
     (''unresolved_internal_boundaries'', JInt (lv_unr_int_bnd_cnt v)),
     (''child_boundary_count'', JInt (lv_child_bnd_cnt v)),
     (''unresolved_child_boundaries'', JInt (lv_unr_child_bnd_cnt v)), (''slice_mode'', JStr ''all_dff'')]"

definition load_match_suggestions_file :: "'d model_io \<Rightarrow> string \<Rightarrow> 'd Json list result" where
  "load_match_suggestions_file io p =
     (if p = [] then Inr []
      else rbind (load_json io p) (\<lambda>j.
        if is_array j then Inr (array_items j) else Inl (LogError ''Match suggestions file must contain a JSON array'')))"

type_synonym ('w, 'd) validator =
  "CutPoint list \<Rightarrow> CutPoint \<Rightarrow> ('w, 'd) gstate \<Rightarrow> ('d LocalValidateResult \<times> ('w, 'd) gstate) result"

text \<open>What a pair of modules and the configuration fix for this stage.\<close>

record ('w, 'd) match_env =
  me_tools :: "('w, 'd) tools"
  me_fp :: "'d fp_ops"
  me_conf :: "'d CheckConfig"
  me_gold_mod :: string
  me_gate_mod :: string
  me_files :: match_files
  me_validate :: "('w, 'd) validator"

abbreviation me_pair_id :: "('w, 'd) match_env \<Rightarrow> string" where
  "me_pair_id e \<equiv> get_pair_id (me_gold_mod e) (me_gate_mod e)"

definition vali_path :: "('w, 'd) match_env \<Rightarrow> string" where
  "vali_path e = pair_artifact_path (match_artifact_dir (me_conf e)) ''local_validate'' (me_gold_mod e) (me_gate_mod e) ''.jsonl''"

definition accept_match ::
    "('w, 'd) match_env \<Rightarrow> ff_map \<Rightarrow> ff_map \<Rightarrow> string \<Rightarrow> NamedSig \<Rightarrow> string \<Rightarrow> NamedSig \<Rightarrow> mstate \<Rightarrow> mstate" where
  "accept_match e gq kq gold_name g gate_name k st =
     (let l = (gold_name, ns_sig g, ns_sig k, ns_type g)
      in count_type (ns_type g) (add_match gold_name gate_name (make_cut gq kq gold_name g k)
           (write_validated (me_files e) l (write_f (me_files e) l st))))"

text \<open>One suggestion; the number is that of the suggestions applied.\<close>

definition accept_suggestion ::
    "('w, 'd) match_env \<Rightarrow> named_sigs \<Rightarrow> named_sigs \<Rightarrow> ff_map \<Rightarrow> ff_map \<Rightarrow> 'd Json \<Rightarrow>
     mstate \<times> nat \<times> ('w, 'd) gstate \<Rightarrow> (mstate \<times> nat \<times> ('w, 'd) gstate) result" where
  "accept_suggestion e gold gate gq kq item = (\<lambda>(st, n, gs).
     let dsg = strip_backslash (m_name (gold_mod (me_conf e)));
         gold_name = escape_id (string_value (json_get item ''gold_name''));
         gate_name = escape_id (string_value (json_get item ''suggested_gate_name''));
         skip = Inr (st, n, gs)
     in if \<not> is_object item \<or> string_value (json_get item ''pair_id'') \<noteq> me_pair_id e \<or>
           string_value (json_get item ''snapshot'') \<noteq> ''pre_async'' then skip
        else if fp_le (me_fp e) (number_value (me_fp e) (json_get item ''score_margin'')) (fp_of_int (me_fp e) 0)
        then rmap (\<lambda>gs. (st, n, gs)) (append_jsonl (me_tools e) (vali_path e)
               (margin_json (me_fp e) dsg (me_gold_mod e) (me_gate_mod e) (me_pair_id e) gold_name item) gs)
        else case (od_get gold gold_name, od_get gate gate_name) of
          (Some g, Some k) \<Rightarrow>
            if gold_name \<in> set (matched_gold st) \<or> gate_name \<in> set (matched_gate st) then skip
            else if ns_type g \<noteq> ns_type k \<or> ns_type g = MT_NONE then skip
            else if ns_type g = DFF \<or> ns_type g = DFF_PO
            then rbind (me_validate e (cut_points st) (make_cut gq kq gold_name g k) gs) (\<lambda>(v, gs).
                 rbind (append_jsonl (me_tools e) (vali_path e)
                   (validated_json (me_fp e) dsg (me_gold_mod e) (me_gate_mod e) (me_pair_id e) gold_name (ns_type g) item v) gs)
                   (\<lambda>gs. if \<not> lv_proved v then Inr (st, n, gs)
                          else Inr (accept_match e gq kq gold_name g gate_name k st, Suc n, gs)))
            else Inr (accept_match e gq kq gold_name g gate_name k st, Suc n, gs)
        | _ \<Rightarrow> skip)"

definition match_suggested ::
    "('w, 'd) match_env \<Rightarrow> 'd model_io \<Rightarrow> bool \<Rightarrow> named_sigs \<Rightarrow> named_sigs \<Rightarrow> ff_map \<Rightarrow> ff_map \<Rightarrow> mstate \<Rightarrow>
     ('w, 'd) gstate \<Rightarrow> (mstate \<times> ('w, 'd) gstate) result" where
  "match_suggested e io emit gold gate gq kq st gs =
     (if \<not> emit \<or> accept_sugs_file (me_conf e) = [] then Inr (st, gs)
      else rbind (load_match_suggestions_file io (accept_sugs_file (me_conf e))) (\<lambda>accepted.
           rbind (rfold (accept_suggestion e gold gate gq kq) accepted (st, 0, gs)) (\<lambda>(st, applied, gs).
           Inr (count_unmatched gold gate st,
                if applied = 0 then gs
                else gs\<lparr>telemetry := map_option (\<lambda>t. t\<lparr>pair_applied_sugs :=
                  (pair_applied_sugs t)(me_pair_id e \<mapsto> int applied)\<rparr>) (telemetry gs)\<rparr>))))"

section \<open>Dumping samples and suggestions\<close>

definition match_sample ::
    "('w, 'd) match_env \<Rightarrow> string \<Rightarrow> string \<Rightarrow> string \<Rightarrow> NamedSig \<Rightarrow> NamedSig \<Rightarrow> 'd Json \<Rightarrow> int \<Rightarrow> 'd Json" where
  "match_sample e snapshot gold_name gate_name g k score label = JObj
     [(''pair_id'', JStr (me_pair_id e)), (''snapshot'', JStr snapshot),
      (''gold_mod'', JStr (strip_backslash (me_gold_mod e))), (''gate_mod'', JStr (strip_backslash (me_gate_mod e))),
      (''gold_name'', JStr (strip_backslash gold_name)), (''gate_name'', JStr (strip_backslash gate_name)),
      (''type'', JStr (get_match_type_str (ns_type g))),
      (''gold_wire_name'', JStr (strip_backslash (ns_wire_name g))),
      (''gate_wire_name'', JStr (strip_backslash (ns_wire_name k))),
      (''gold_bit_index'', JInt (ns_bit_index g)), (''gate_bit_index'', JInt (ns_bit_index k)),
      (''score'', score), (''label'', JInt label)]"

definition candidate_score :: "('w, 'd) match_env \<Rightarrow> NamedSig \<Rightarrow> NamedSig \<Rightarrow> 'd result" where
  "candidate_score e g k =
     (case match_model (me_conf e) of
        Some model \<Rightarrow> if mm_loaded model then predict_match_score (me_fp e) model g k
                      else Inr (fp_of_int (me_fp e) (score_match_candidate g k))
      | None \<Rightarrow> Inr (fp_of_int (me_fp e) (score_match_candidate g k)))"

definition is_candidate :: "mstate \<Rightarrow> NamedSig \<Rightarrow> string \<times> NamedSig \<Rightarrow> bool" where
  "is_candidate st g = (\<lambda>(gate_name, k).
     gate_name \<notin> set (matched_gate st) \<and> ns_type k \<noteq> MT_NONE \<and> ns_type g = ns_type k \<and> ns_bit_index g = ns_bit_index k)"

definition rate_candidate ::
    "('w, 'd) match_env \<Rightarrow> string \<Rightarrow> string \<Rightarrow> NamedSig \<Rightarrow> string \<times> NamedSig \<Rightarrow>
     ('d \<times> string) list \<times> ('w, 'd) gstate \<Rightarrow> (('d \<times> string) list \<times> ('w, 'd) gstate) result" where
  "rate_candidate e snapshot gold_name g = (\<lambda>(gate_name, k) (cands, gs).
     rbind (candidate_score e g k) (\<lambda>score.
     rbind (append_jsonl (me_tools e) (match_jsonl (dump_cfg (me_conf e)))
       (match_sample e snapshot gold_name gate_name g k (JNum score) 0) gs) (\<lambda>gs.
     Inr (cands @ [(score, gate_name)], gs))))"

definition candidate_less :: "'d fp_ops \<Rightarrow> 'd \<times> string \<Rightarrow> 'd \<times> string \<Rightarrow> bool" where
  "candidate_less fp l r = (if \<not> fp_eq fp (fst l) (fst r) then fp_less fp (fst r) (fst l) else snd l < snd r)"

definition suggestion_json ::
    "('w, 'd) match_env \<Rightarrow> string \<Rightarrow> string \<Rightarrow> NamedSig \<Rightarrow> string \<Rightarrow> NamedSig \<Rightarrow> 'd \<Rightarrow> int \<Rightarrow> 'd Json" where
  "suggestion_json e snapshot gold_name g top_name tk score margin = JObj
     [(''pair_id'', JStr (me_pair_id e)), (''snapshot'', JStr snapshot),
      (''gold_mod'', JStr (strip_backslash (me_gold_mod e))), (''gate_mod'', JStr (strip_backslash (me_gate_mod e))),
      (''gold_name'', JStr (strip_backslash gold_name)),
      (''gold_wire_name'', JStr (strip_backslash (ns_wire_name g))), (''gold_bit_index'', JInt (ns_bit_index g)),
      (''type'', JStr (get_match_type_str (ns_type g))), (''suggested_gate_name'', JStr (strip_backslash top_name)),
      (''suggested_gate_wire_name'', JStr (strip_backslash (ns_wire_name tk))),
      (''suggested_gate_bit_index'', JInt (ns_bit_index tk)), (''score'', JNum score), (''score_margin'', JInt margin)]"

definition score_margin :: "'d fp_ops \<Rightarrow> ('d \<times> string) list \<Rightarrow> int" where
  "score_margin fp cands = (case cands of
     (a, _) # (b, _) # _ \<Rightarrow> fp_to_int fp (fp_sub fp a b) | (a, _) # _ \<Rightarrow> fp_to_int fp a | [] \<Rightarrow> 0)"

definition sugs_path :: "('w, 'd) match_env \<Rightarrow> string" where
  "sugs_path e = pair_artifact_path (match_artifact_dir (me_conf e)) ''match_suggestions'' (me_gold_mod e) (me_gate_mod e) ''.jsonl''"

definition record_suggestion :: "string \<Rightarrow> 'd Json \<Rightarrow> ('w, 'd) gstate \<Rightarrow> ('w, 'd) gstate" where
  "record_suggestion snapshot j gs =
     (if snapshot = ''pre_async''
      then gs\<lparr>telemetry := map_option (\<lambda>t. t\<lparr>match_suggestions := match_suggestions t @ [j]\<rparr>) (telemetry gs)\<rparr> else gs)"

text \<open>One gold bit. A matched one is written with the gate bit of the same name, which \<open>at\<close> requires to exist.\<close>

definition dump_bit ::
    "('w, 'd) match_env \<Rightarrow> string \<Rightarrow> named_sigs \<Rightarrow> mstate \<Rightarrow> string \<times> NamedSig \<Rightarrow>
     'd Json list \<times> ('w, 'd) gstate \<Rightarrow> ('d Json list \<times> ('w, 'd) gstate) result" where
  "dump_bit e snapshot gate st = (\<lambda>(gold_name, g) (sugs, gs).
     if ns_type g = MT_NONE then Inr (sugs, gs)
     else if gold_name \<in> set (matched_gold st)
     then (case od_get gate gold_name of
             None \<Rightarrow> Inl OutOfRange
           | Some k \<Rightarrow> rmap (\<lambda>gs. (sugs, gs)) (append_jsonl (me_tools e) (match_jsonl (dump_cfg (me_conf e)))
               (match_sample e snapshot gold_name gold_name g k (JInt 1000) 1) gs))
     else rbind (rfold (rate_candidate e snapshot gold_name g) (filter (is_candidate st g) (iterate gate)) ([], gs)) (\<lambda>(cands, gs).
       let cands = sort_by (candidate_less (me_fp e)) cands
       in case cands of
            (score, top_name) # _ \<Rightarrow>
              if fp_less (me_fp e) (fp_of_int (me_fp e) 0) score
              then (case od_get gate top_name of
                      None \<Rightarrow> Inl OutOfRange
                    | Some tk \<Rightarrow>
                        let j = suggestion_json e snapshot gold_name g top_name tk score (score_margin (me_fp e) cands)
                        in rmap (\<lambda>gs. (sugs @ [j], record_suggestion snapshot j gs))
                             (append_jsonl (me_tools e) (sugs_path e) j gs))
              else Inr (sugs, gs)
          | [] \<Rightarrow> Inr (sugs, gs)))"

definition write_match_suggestions :: "('w, 'd) tools \<Rightarrow> string \<Rightarrow> 'd Json list \<Rightarrow> ('w, 'd) gstate \<Rightarrow> ('w, 'd) gstate result" where
  "write_match_suggestions tls p sugs gs =
     (if \<not> can_open tls p (world gs) then Inl (LogError ''Cannot open match suggestions file'')
      else Inr (gs\<lparr>jsonl := (jsonl gs)(p := [JArr sugs])\<rparr>))"

definition dump_matches ::
    "('w, 'd) match_env \<Rightarrow> string \<Rightarrow> named_sigs \<Rightarrow> named_sigs \<Rightarrow> mstate \<Rightarrow> ('w, 'd) gstate \<Rightarrow> ('w, 'd) gstate result" where
  "dump_matches e snapshot gold gate st gs =
     (if \<not> dump_match (dump_cfg (me_conf e)) then Inr gs
      else rbind (rfold (dump_bit e snapshot gate st) (iterate gold) ([], gs)) (\<lambda>(sugs, gs).
        if sugs = [] then Inr gs
        else write_match_suggestions (me_tools e) (tempdir_name (me_conf e) @ ''/match_suggestions_'' @ snapshot @ ''_'' @
          sanitize_filename (me_pair_id e) @ ''.json'') sugs gs))"

section \<open>Matching a pair of modules\<close>

definition open_match_files :: "('w, 'd) tools \<Rightarrow> 'd CheckConfig \<Rightarrow> bool \<Rightarrow> string \<Rightarrow> string \<Rightarrow> string \<Rightarrow> 'w \<Rightarrow> match_files" where
  "open_match_files tls conf emit gold gate mf w =
     (let art = match_artifact_dir conf
      in \<lparr>f_open = emit \<and> can_open tls mf w,
          f_exact_open = emit \<and> can_open tls (pair_artifact_path art ''match_exact'' gold gate ''.txt'') w,
          f_validated_open = emit \<and> can_open tls (pair_artifact_path art ''match_validated'' gold gate ''.txt'') w\<rparr>)"

text \<open>\<open>ext\<close> are the lines of the external match file, when one is configured and can be opened.\<close>

definition match_signals_module ::
    "('w, 'd) tools \<Rightarrow> 'd fp_ops \<Rightarrow> 'd model_io \<Rightarrow> ('w, 'd) validator \<Rightarrow> 'd CheckConfig \<Rightarrow> string list option \<Rightarrow> bool \<Rightarrow>
     string \<Rightarrow> Module \<Rightarrow> Module \<Rightarrow> ('w, 'd) gstate \<Rightarrow> (mstate \<times> ('w, 'd) gstate) result" where
  "match_signals_module tls fp io validate conf ext emit snapshot gold_m gate_m gs =
     rbind (build_named_sigs gold_m) (\<lambda>(gold, gq).
     rbind (build_named_sigs gate_m) (\<lambda>(gate, kq).
     let gn = m_name gold_m; kn = m_name gate_m;
         mf = tempdir_name conf @ ''/match_'' @ unescape_id gn @ ''_'' @ unescape_id kn @ ''.txt'';
         fs = open_match_files tls conf emit gn kn mf (world gs);
         e = \<lparr>me_tools = tls, me_fp = fp, me_conf = conf, me_gold_mod = gn, me_gate_mod = kn, me_files = fs,
              me_validate = validate\<rparr>;
         st = match_by_name fs gold gate gq kq (mstate_init mf);
         st = match_external fs (strip_backslash gn @ '':'' @ strip_backslash kn) gold gate ext st
     in rbind (match_suggested e io emit gold gate gq kq st gs) (\<lambda>(st, gs).
        rmap (\<lambda>gs. (st, gs)) (dump_matches e snapshot gold gate st gs))))"

definition match_signals ::
    "('w, 'd) tools \<Rightarrow> 'd fp_ops \<Rightarrow> 'd model_io \<Rightarrow> (Module \<Rightarrow> Module \<Rightarrow> ('w, 'd) validator) \<Rightarrow> 'd CheckConfig \<Rightarrow>
     string list option \<Rightarrow> bool \<Rightarrow> string \<Rightarrow> Design \<Rightarrow> ModMap \<Rightarrow> ('w, 'd) gstate \<Rightarrow>
     ((string, CutPoint list) odict \<times> ('w, 'd) gstate) result" where
  "match_signals tls fp io validate conf ext emit snapshot d mm gs =
     rfold (\<lambda>(gold, gate) (cuts, gs).
       case (design_module d gold, design_module d gate) of
         (Some gm, Some km) \<Rightarrow>
           rbind (match_signals_module tls fp io (validate gm km) conf ext emit snapshot gm km gs) (\<lambda>(st, gs).
             Inr (od_set cuts gold (cut_points st),
                  if emit then gs\<lparr>telemetry := map_option (\<lambda>t. t\<lparr>pair_match_stats :=
                    (pair_match_stats t)(get_pair_id gold gate \<mapsto> ms_stats st)\<rparr>) (telemetry gs)\<rparr> else gs))
       | _ \<Rightarrow> Inl AssertFail) (iterate (mod_map_gold mm)) ([], gs)"

section \<open>The names are distinct\<close>

lemma foldl_keeps: "P st \<Longrightarrow> (\<And>st x. P st \<Longrightarrow> P (f st x)) \<Longrightarrow> P (foldl f st xs)"
  by (induction xs arbitrary: st) auto

abbreviation keys_distinct :: "named_sigs \<times> ff_map \<Rightarrow> bool" where
  "keys_distinct st \<equiv> distinct (map fst (fst st))"

lemma name_wire_distinct:
  assumes "name_wire sigmap ffc w st = Inr st'" "keys_distinct st"
  shows "keys_distinct st'"
proof -
  let ?f = "\<lambda>(out, q) i.
        let bm = sigmap (sigmap (sig_of_wire w ! i)); is_ff = od_count ffc bm
        in (od_set out (indexed_name (w_name w) (w_width w) i)
              \<lparr>ns_sig = bm, ns_type = bit_type is_ff w, ns_wire_name = w_name w, ns_bit_index = int i\<rparr>,
            note_ff ffc bm q)"
  have "keys_distinct (foldl ?f st [0..<w_width w])"
    using assms(2) by (rule foldl_keeps) (auto simp: Let_def od_set_distinct split: prod.splits)
  moreover have "st' = foldl ?f st [0..<w_width w]"
    using assms(1) unfolding name_wire_def by (auto simp only: sum.inject sum.distinct simp_thms split: if_splits)
  ultimately show ?thesis by simp
qed

lemma name_subckt_port_distinct:
  assumes "keys_distinct st"
  shows "keys_distinct (name_subckt_port sigmap ffc cell st c)"
  unfolding name_subckt_port_def split_beta
  by (rule foldl_keeps [where P = keys_distinct, OF assms]) (auto simp: Let_def od_set_distinct split: prod.splits)

lemma build_named_sigs_distinct:
  assumes "build_named_sigs m = Inr (out, q)"
  shows "distinct (map fst out)"
proof -
  let ?s = "module_sigmap m"
  obtain subckts ffq where scan: "foldl (scan_cell ?s) ([], []) (iterate (m_cells m)) = (subckts, ffq)" by fastforce
  define ffc where "ffc = spread_ffs (map (\<lambda>(l, r). (?s l, ?s r)) (conn_bits m)) ffq"
  obtain st where st: "rfold (name_wire ?s ffc) (iterate (m_wires m)) ([], []) = Inr st"
    and out: "(out, q) = foldl (\<lambda>st c. foldl (name_subckt_port ?s ffc (c_name c)) st (iterate (c_conns c))) st (iterate subckts)"
    using assms unfolding build_named_sigs_def Let_def scan prod.case ffc_def [symmetric] rbind_eq_Inr_iff by auto
  have "distinct (map fst (fst st))"
    using st by (rule rfold_keeps) (auto intro: name_wire_distinct)
  then have "distinct (map fst (fst (out, q)))"
    unfolding out by (intro foldl_keeps [where P = "\<lambda>st. distinct (map fst (fst st))"] name_subckt_port_distinct)
  then show ?thesis by simp
qed

section \<open>Matches are one to one\<close>

text \<open>A cut point belongs to a gold and a gate bit when it carries their signals and positions.\<close>

definition cut_of :: "named_sigs \<Rightarrow> named_sigs \<Rightarrow> CutPoint \<Rightarrow> string \<Rightarrow> string \<Rightarrow> bool" where
  "cut_of gold gate cp gname kname \<longleftrightarrow> (\<exists>g k. od_get gold gname = Some g \<and> od_get gate kname = Some k \<and>
     cp_name cp = gname \<and> gold_sig cp = ns_sig g \<and> gate_sig cp = ns_sig k \<and>
     gold_wire_name cp = ns_wire_name g \<and> gold_bit_index cp = ns_bit_index g \<and>
     gate_wire_name cp = ns_wire_name k \<and> gate_bit_index cp = ns_bit_index k)"

definition match_inv :: "named_sigs \<Rightarrow> named_sigs \<Rightarrow> mstate \<Rightarrow> bool" where
  "match_inv gold gate st \<longleftrightarrow>
     distinct (matched_gold st) \<and> distinct (matched_gate st) \<and>
     length (matched_gold st) = length (cut_points st) \<and> length (matched_gate st) = length (cut_points st) \<and>
     (\<forall>i < length (cut_points st). cut_of gold gate (cut_points st ! i) (matched_gold st ! i) (matched_gate st ! i)) \<and>
     exact_total (ms_stats st) = int (length (cut_points st))"

definition typed_cuts :: "mstate \<Rightarrow> int" where
  "typed_cuts st = int (length (filter (\<lambda>cp. cp_type cp \<noteq> MT_NONE) (cut_points st)))"

lemma write_simps [simp]:
  "matched_gold (write_f fs l st) = matched_gold st" "matched_gate (write_f fs l st) = matched_gate st"
  "cut_points (write_f fs l st) = cut_points st" "ms_stats (write_f fs l st) = ms_stats st"
  "matched_gold (write_exact fs l st) = matched_gold st" "matched_gate (write_exact fs l st) = matched_gate st"
  "cut_points (write_exact fs l st) = cut_points st" "ms_stats (write_exact fs l st) = ms_stats st"
  "matched_gold (write_validated fs l st) = matched_gold st" "matched_gate (write_validated fs l st) = matched_gate st"
  "cut_points (write_validated fs l st) = cut_points st" "ms_stats (write_validated fs l st) = ms_stats st"
  by (simp_all add: write_f_def write_exact_def write_validated_def)

lemma count_type_simps [simp]:
  "matched_gold (count_type ty st) = matched_gold st" "matched_gate (count_type ty st) = matched_gate st"
  "cut_points (count_type ty st) = cut_points st" "exact_total (ms_stats (count_type ty st)) = exact_total (ms_stats st)"
  "typed_match_total (ms_stats (count_type ty st)) = typed_match_total (ms_stats st) + (if ty = MT_NONE then 0 else 1)"
  by (cases ty; simp add: count_type_def typed_match_total_def)+

lemma match_inv_cong:
  "match_inv gold gate st \<Longrightarrow> matched_gold st' = matched_gold st \<Longrightarrow> matched_gate st' = matched_gate st \<Longrightarrow>
    cut_points st' = cut_points st \<Longrightarrow> exact_total (ms_stats st') = exact_total (ms_stats st) \<Longrightarrow> match_inv gold gate st'"
  by (simp add: match_inv_def)

lemma add_match_inv:
  assumes "match_inv gold gate st" "gname \<notin> set (matched_gold st)" "kname \<notin> set (matched_gate st)"
    "cut_of gold gate cp gname kname"
  shows "match_inv gold gate (add_match gname kname cp st)"
  using assms by (auto simp: match_inv_def add_match_def op_insert_def nth_append less_Suc_eq)

lemma make_cut_of:
  "od_get gold gname = Some g \<Longrightarrow> od_get gate kname = Some k \<Longrightarrow> cut_of gold gate (make_cut gq kq gname g k) gname kname"
  by (simp add: cut_of_def make_cut_def)

lemma exact_match_ok:
  assumes "match_inv gold gate st" "typed_match_total (ms_stats st) = typed_cuts st" "name \<notin> set (matched_gold st)"
    "name \<notin> set (matched_gate st)" "od_get gold name = Some g"
  shows "match_inv gold gate (exact_match fs gate gq kq st (name, g)) \<and>
    typed_match_total (ms_stats (exact_match fs gate gq kq st (name, g))) = typed_cuts (exact_match fs gate gq kq st (name, g)) \<and>
    set (matched_gold (exact_match fs gate gq kq st (name, g))) =
      set (matched_gold st) \<union> (if od_get gate name = None then {} else {name}) \<and>
    set (matched_gate (exact_match fs gate gq kq st (name, g))) =
      set (matched_gate st) \<union> (if od_get gate name = None then {} else {name})"
proof (cases "od_get gate name")
  case None
  then show ?thesis using assms by (simp add: exact_match_def)
next
  case (Some k)
  let ?l = "(name, ns_sig g, ns_sig k, ns_type g)"
  let ?st = "if ns_type g \<noteq> MT_NONE then write_validated fs ?l (write_exact fs ?l (write_f fs ?l st)) else st"
  let ?m = "add_match name name (make_cut gq kq name g k) ?st"
  have eq: "exact_match fs gate gq kq st (name, g) = count_type (ns_type g) ?m"
    using Some by (simp add: exact_match_def Let_def)
  have "match_inv gold gate ?st" by (rule match_inv_cong [OF assms(1)]) simp_all
  then have inv: "match_inv gold gate ?m"
    using assms(3,4) by (intro add_match_inv make_cut_of assms(5) Some) simp_all
  have "match_inv gold gate (count_type (ns_type g) ?m)" by (rule match_inv_cong [OF inv]) simp_all
  moreover have "typed_match_total (ms_stats ?m) = typed_match_total (ms_stats st)" by (simp add: add_match_def typed_match_total_def)
  moreover have "typed_cuts (count_type (ns_type g) ?m) = typed_cuts st + (if ns_type g = MT_NONE then 0 else 1)"
    by (simp add: typed_cuts_def add_match_def make_cut_def)
  ultimately show ?thesis using assms(2) Some unfolding eq by (simp add: add_match_def)
qed

lemma match_by_name_ok:
  assumes "distinct (map fst gold)" "st = match_by_name fs gold gate gq kq (mstate_init mf)"
  shows "match_inv gold gate st" and "typed_match_total (ms_stats st) = typed_cuts st"
    and "set (matched_gold st) = fst ` set gold \<inter> fst ` set gate" "set (matched_gate st) = fst ` set gold \<inter> fst ` set gate"
proof -
  have loop: "match_inv gold gate st1 \<and> typed_match_total (ms_stats st1) = typed_cuts st1 \<and>
      set (matched_gold st1) = set (matched_gold st0) \<union> (fst ` set xs \<inter> fst ` set gate) \<and>
      set (matched_gate st1) = set (matched_gate st0) \<union> (fst ` set xs \<inter> fst ` set gate)"
    if "match_inv gold gate st0" "typed_match_total (ms_stats st0) = typed_cuts st0" "set xs \<subseteq> set gold" "distinct (map fst xs)"
      "fst ` set xs \<inter> set (matched_gold st0) = {}" "fst ` set xs \<inter> set (matched_gate st0) = {}"
      "st1 = foldl (exact_match fs gate gq kq) st0 xs" for xs st0 st1
    using that
  proof (induction xs arbitrary: st0)
    case (Cons x xs)
    obtain name g where x: "x = (name, g)" by fastforce
    have "od_get gold name = Some g" using Cons.prems(3) x assms(1) by (simp add: od_get_def)
    note ok = exact_match_ok [OF Cons.prems(1,2) _ _ this, of fs gq kq]
    have one: "match_inv gold gate (exact_match fs gate gq kq st0 x)"
      "typed_match_total (ms_stats (exact_match fs gate gq kq st0 x)) = typed_cuts (exact_match fs gate gq kq st0 x)"
      "set (matched_gold (exact_match fs gate gq kq st0 x)) =
        set (matched_gold st0) \<union> (if od_get gate name = None then {} else {name})"
      "set (matched_gate (exact_match fs gate gq kq st0 x)) =
        set (matched_gate st0) \<union> (if od_get gate name = None then {} else {name})"
      using ok Cons.prems(5,6) x by auto
    have fresh: "name \<notin> fst ` set xs" using Cons.prems(4) x by simp
    have "od_get gate name = None \<longleftrightarrow> name \<notin> fst ` set gate" by (simp add: od_get_def map_of_eq_None_iff)
    then show ?case
      using Cons.IH [OF one(1,2)] Cons.prems(3-7) x one(3,4) fresh by auto
  qed simp
  let ?st = "foldl (exact_match fs gate gq kq) (mstate_init mf) (iterate gold)"
  have init: "match_inv gold gate (mstate_init mf)" "typed_match_total (ms_stats (mstate_init mf)) = typed_cuts (mstate_init mf)"
    "matched_gold (mstate_init mf) = []" "matched_gate (mstate_init mf) = []"
    by (simp_all add: mstate_init_def match_inv_def typed_cuts_def typed_match_total_def MatchStats_init_def)
  have "distinct (map fst (iterate gold))" using assms(1) by (simp add: rev_map [symmetric])
  then have fin: "match_inv gold gate ?st" "typed_match_total (ms_stats ?st) = typed_cuts ?st"
    "set (matched_gold ?st) = fst ` set gold \<inter> fst ` set gate" "set (matched_gate ?st) = fst ` set gold \<inter> fst ` set gate"
    using loop [OF init(1,2), of "iterate gold" ?st] init(3,4) by auto
  have st: "st = count_unmatched gold gate ?st" using assms(2) by (simp add: match_by_name_def)
  show "match_inv gold gate st" unfolding st by (rule match_inv_cong [OF fin(1)]) (simp_all add: count_unmatched_def)
  show "typed_match_total (ms_stats st) = typed_cuts st" "set (matched_gold st) = fst ` set gold \<inter> fst ` set gate"
    "set (matched_gate st) = fst ` set gold \<inter> fst ` set gate"
    using fin(2-4) by (simp_all add: st count_unmatched_def typed_match_total_def typed_cuts_def)
qed

lemma find_SomeD: "find P xs = Some x \<Longrightarrow> x \<in> set xs \<and> P x"
  by (auto simp: find_Some_iff)

lemma cut_of_type [simp]: "cut_of gold gate (cp\<lparr>cp_type := ty\<rparr>) gname kname = cut_of gold gate cp gname kname"
  by (simp add: cut_of_def)

text \<open>What every later stage keeps: the invariant and the names that were matched before it.\<close>

definition extends_match :: "named_sigs \<Rightarrow> named_sigs \<Rightarrow> mstate \<Rightarrow> mstate \<Rightarrow> bool" where
  "extends_match gold gate st st' \<longleftrightarrow> (match_inv gold gate st \<longrightarrow> match_inv gold gate st') \<and>
     set (matched_gold st) \<subseteq> set (matched_gold st') \<and> set (matched_gate st) \<subseteq> set (matched_gate st')"

lemma extends_match_refl [simp]: "extends_match gold gate st st"
  by (simp add: extends_match_def)

lemma extends_match_trans:
  "extends_match gold gate st st' \<Longrightarrow> extends_match gold gate st' st'' \<Longrightarrow> extends_match gold gate st st''"
  unfolding extends_match_def by blast

lemma extends_match_cong:
  "matched_gold st' = matched_gold st \<Longrightarrow> matched_gate st' = matched_gate st \<Longrightarrow> cut_points st' = cut_points st \<Longrightarrow>
    exact_total (ms_stats st') = exact_total (ms_stats st) \<Longrightarrow> extends_match gold gate st st'"
  by (simp add: extends_match_def match_inv_def)

lemma extends_match_foldl:
  "(\<And>st x. x \<in> set xs \<Longrightarrow> extends_match gold gate (proj st) (proj (f st x))) \<Longrightarrow> extends_match gold gate (proj st) (proj (foldl f st xs))"
proof (induction xs arbitrary: st)
  case (Cons x xs)
  have "extends_match gold gate (proj st) (proj (f st x))" by (rule Cons.prems) simp
  moreover have "extends_match gold gate (proj (f st x)) (proj (foldl f (f st x) xs))"
    by (rule Cons.IH) (rule Cons.prems, simp)
  ultimately show ?case unfolding foldl.simps by (rule extends_match_trans)
qed simp

lemma add_match_extends:
  assumes "gname \<notin> set (matched_gold st)" "kname \<notin> set (matched_gate st)" "cut_of gold gate cp gname kname"
  shows "extends_match gold gate st (add_match gname kname cp st)"
  using add_match_inv [OF _ assms] by (auto simp: extends_match_def add_match_def)

lemma count_unmatched_extends: "extends_match gold gate st (count_unmatched gold gate st)"
  by (rule extends_match_cong) (simp_all add: count_unmatched_def)

lemma try_pair_extends:
  assumes "distinct (map fst gold)" "distinct (map fst gate)"
  shows "extends_match gold gate st (try_pair fs gold gate tstr st p)"
proof -
  obtain gn kn where p: "p = (gn, kn)" by fastforce
  let ?P = "\<lambda>(ge, ke). strip_backslash (fst ge) = gn \<and> fst ge \<notin> set (matched_gold st) \<and>
                  strip_backslash (fst ke) = kn \<and> fst ke \<notin> set (matched_gate st)"
  show ?thesis
  proof (cases "find ?P (List.product (iterate gold) (iterate gate))")
    case None
    then show ?thesis by (simp add: try_pair_def p)
  next
    case (Some x)
    obtain gname g kname k where x: "x = ((gname, g), (kname, k))" by (metis prod.exhaust)
    have mem: "(gname, g) \<in> set gold" "(kname, k) \<in> set gate" "gname \<notin> set (matched_gold st)" "kname \<notin> set (matched_gate st)"
      using find_SomeD [OF Some] x by auto
    let ?ty = "override_type tstr (ns_type g)"
    let ?cp = "(make_cut [] [] gname g k)\<lparr>cp_type := ?ty\<rparr>"
    let ?l = "(gname, ns_sig g, ns_sig k, ?ty)"
    have eq: "try_pair fs gold gate tstr st p = write_exact fs ?l (write_f fs ?l (add_match gname kname ?cp st))"
      using Some by (simp add: try_pair_def p x Let_def)
    have "od_get gold gname = Some g" "od_get gate kname = Some k" using mem(1,2) assms by (simp_all add: od_get_def)
    then have "extends_match gold gate st (add_match gname kname ?cp st)"
      using mem(3,4) by (intro add_match_extends) (simp_all add: make_cut_of)
    then show ?thesis unfolding eq by (rule extends_match_trans) (simp add: extends_match_cong)
  qed
qed

lemma external_line_extends:
  assumes "distinct (map fst gold)" "distinct (map fst gate)"
  shows "extends_match gold gate (snd st) (snd (external_line fs pid gold gate st line))"
proof -
  have "extends_match gold gate s (foldl (try_pair fs gold gate t) s ps)" for s t ps
    using extends_match_foldl [where proj = "\<lambda>s. s" and f = "try_pair fs gold gate t"] try_pair_extends [OF assms] by blast
  then show ?thesis by (auto simp: external_line_def simp del: foldl.simps split: prod.splits list.splits)
qed

lemma match_external_extends:
  assumes "distinct (map fst gold)" "distinct (map fst gate)"
  shows "extends_match gold gate st (match_external fs pid gold gate ext st)"
proof (cases ext)
  case (Some ls)
  have "extends_match gold gate (snd s) (snd (foldl (external_line fs pid gold gate) s ls))" for s
    by (rule extends_match_foldl) (rule external_line_extends [OF assms])
  from this [of "([], st)"] have "extends_match gold gate st (snd (foldl (external_line fs pid gold gate) ([], st) ls))" by simp
  then show ?thesis
    unfolding match_external_def Some option.case snd_conv by (rule extends_match_trans) (rule count_unmatched_extends)
qed (simp add: match_external_def)

lemma accept_match_extends:
  assumes "od_get gold gname = Some g" "od_get gate kname = Some k" "gname \<notin> set (matched_gold st)" "kname \<notin> set (matched_gate st)"
  shows "extends_match gold gate st (accept_match e gq kq gname g kname k st)"
proof -
  let ?l = "(gname, ns_sig g, ns_sig k, ns_type g)"
  let ?st = "write_validated (me_files e) ?l (write_f (me_files e) ?l st)"
  have "extends_match gold gate st ?st" by (rule extends_match_cong) simp_all
  moreover have "extends_match gold gate ?st (add_match gname kname (make_cut gq kq gname g k) ?st)"
    using assms by (intro add_match_extends make_cut_of) simp_all
  moreover have "extends_match gold gate s (count_type (ns_type g) s)" for s by (rule extends_match_cong) simp_all
  ultimately show ?thesis unfolding accept_match_def Let_def by (meson extends_match_trans)
qed

text \<open>
  One accepted suggestion either leaves the matches alone or adds one, of a type the two bits share,
  that passed the validator when it is a flip-flop.
\<close>

definition validated_cut :: "('w, 'd) match_env \<Rightarrow> CutPoint list \<Rightarrow> CutPoint \<Rightarrow> bool" where
  "validated_cut e cps cp \<longleftrightarrow> cp_type cp \<noteq> MT_NONE \<and>
     (cp_type cp \<in> {DFF, DFF_PO} \<longrightarrow> (\<exists>gs v gs'. me_validate e cps cp gs = Inr (v, gs') \<and> lv_proved v))"

lemma accept_suggestion_cases:
  assumes "accept_suggestion e gold gate gq kq item (st, n, gs) = Inr (st', n', gs')" "st' \<noteq> st \<or> n' \<noteq> n"
  obtains gname g kname k where "st' = accept_match e gq kq gname g kname k st" "n' = Suc n" "od_get gold gname = Some g"
    "od_get gate kname = Some k" "gname \<notin> set (matched_gold st)" "kname \<notin> set (matched_gate st)"
    "ns_type k = ns_type g" "validated_cut e (cut_points st) (make_cut gq kq gname g k)"
proof -
  define gn where "gn = escape_id (string_value (json_get item ''gold_name''))"
  define kn where "kn = escape_id (string_value (json_get item ''suggested_gate_name''))"
  have ty: "cp_type (make_cut gq kq name g k) = ns_type g" for name g k by (simp add: make_cut_def)
  have "\<exists>g k. od_get gold gn = Some g \<and> od_get gate kn = Some k \<and> gn \<notin> set (matched_gold st) \<and>
      kn \<notin> set (matched_gate st) \<and> ns_type k = ns_type g \<and> ns_type g \<noteq> MT_NONE \<and>
      (ns_type g = DFF \<or> ns_type g = DFF_PO \<longrightarrow>
        (\<exists>gs v gs'. me_validate e (cut_points st) (make_cut gq kq gn g k) gs = Inr (v, gs') \<and> lv_proved v)) \<and>
      st' = accept_match e gq kq gn g kn k st \<and> n' = Suc n"
    using assms unfolding accept_suggestion_def Let_def prod.case gn_def [symmetric] kn_def [symmetric]
    by (auto simp: rbind_eq_Inr_iff rmap_eq_Inr_iff split: if_splits option.splits)
  then show thesis using that unfolding validated_cut_def ty by blast
qed

lemma accept_match_effect:
  "cut_points (accept_match e gq kq gname g kname k st) = cut_points st @ [make_cut gq kq gname g k]"
  "ns_type g \<noteq> MT_NONE \<Longrightarrow> typed_match_total (ms_stats (accept_match e gq kq gname g kname k st)) = typed_match_total (ms_stats st) + 1"
  "ns_type g \<noteq> MT_NONE \<Longrightarrow> typed_cuts (accept_match e gq kq gname g kname k st) = typed_cuts st + 1"
  by (simp_all add: accept_match_def Let_def add_match_def typed_match_total_def [of "exact_total_update _ _"]
      typed_cuts_def make_cut_def)
    (simp add: typed_match_total_def)

text \<open>The cut points that the suggestions added to \<open>cps\<close>, each checked with those before it.\<close>

definition validated_cuts :: "('w, 'd) match_env \<Rightarrow> CutPoint list \<Rightarrow> CutPoint list \<Rightarrow> bool" where
  "validated_cuts e cps new \<longleftrightarrow> (\<forall>i < length new. validated_cut e (cps @ take i new) (new ! i))"

lemma validated_cuts_snoc:
  "validated_cuts e cps new \<Longrightarrow> validated_cut e (cps @ new) cp \<Longrightarrow> validated_cuts e cps (new @ [cp])"
  by (auto simp: validated_cuts_def nth_append less_Suc_eq)

lemma accept_suggestions_ok:
  assumes "rfold (accept_suggestion e gold gate gq kq) items (st, 0, gs) = Inr (st', n', gs')"
  shows "extends_match gold gate st st'" "typed_match_total (ms_stats st') - typed_cuts st' = typed_match_total (ms_stats st) - typed_cuts st"
    "\<exists>new. cut_points st' = cut_points st @ new \<and> validated_cuts e (cut_points st) new \<and> n' = length new"
proof -
  let ?I = "\<lambda>(s, n, w :: ('a, 'b) gstate). extends_match gold gate st s \<and>
    typed_match_total (ms_stats s) - typed_cuts s = typed_match_total (ms_stats st) - typed_cuts st \<and>
    (\<exists>new. cut_points s = cut_points st @ new \<and> validated_cuts e (cut_points st) new \<and> n = length new)"
  have step: "?I (s', n', w')"
    if I: "?I (s, n, w)" and run: "accept_suggestion e gold gate gq kq item (s, n, w) = Inr (s', n', w')" for item s n w s' n' w'
  proof (cases "s' = s \<and> n' = n")
    case True
    then show ?thesis using I by simp
  next
    case False
    then have "s' \<noteq> s \<or> n' \<noteq> n" by blast
    from run this show ?thesis
    proof (cases rule: accept_suggestion_cases)
      case (1 gname g kname k)
      have "ns_type g \<noteq> MT_NONE" using 1(8) by (simp add: validated_cut_def make_cut_def)
      moreover obtain new where new: "cut_points s = cut_points st @ new" "validated_cuts e (cut_points st) new" "n = length new"
        using I by auto
      moreover have "validated_cuts e (cut_points st) (new @ [make_cut gq kq gname g k])"
        using new(2) 1(8) unfolding new(1) by (rule validated_cuts_snoc)
      moreover have "extends_match gold gate st s'"
        using I accept_match_extends [OF 1(3-6)] extends_match_trans unfolding 1(1) by fast
      ultimately show ?thesis using I by (simp add: 1(1,2) accept_match_effect)
    qed
  qed
  have "?I (st', n', gs')"
    using assms
  proof (rule rfold_keeps)
    fix item s s' assume "?I s" "accept_suggestion e gold gate gq kq item s = Inr s'"
    then show "?I s'" using step [of "fst s" "fst (snd s)" "snd (snd s)" item "fst s'" "fst (snd s')" "snd (snd s')"] by simp
  qed (simp add: validated_cuts_def)
  then show "extends_match gold gate st st'" "typed_match_total (ms_stats st') - typed_cuts st' = typed_match_total (ms_stats st) - typed_cuts st"
    "\<exists>new. cut_points st' = cut_points st @ new \<and> validated_cuts e (cut_points st) new \<and> n' = length new"
    by simp_all
qed

lemma match_suggested_ok:
  assumes "match_suggested e io emit gold gate gq kq st gs = Inr (st', gs')"
  shows "extends_match gold gate st st'" "typed_match_total (ms_stats st') - typed_cuts st' = typed_match_total (ms_stats st) - typed_cuts st"
    "\<exists>new. cut_points st' = cut_points st @ new \<and> validated_cuts e (cut_points st) new"
    "st' = st \<or> (\<exists>s. st' = count_unmatched gold gate s)"
proof -
  consider "st' = st" | items s n w where "rfold (accept_suggestion e gold gate gq kq) items (st, 0, gs) = Inr (s, n, w)"
      "st' = count_unmatched gold gate s"
    using assms by (auto simp: match_suggested_def rbind_eq_Inr_iff split: if_splits prod.splits)
  then have "extends_match gold gate st st' \<and>
    typed_match_total (ms_stats st') - typed_cuts st' = typed_match_total (ms_stats st) - typed_cuts st \<and>
    (\<exists>new. cut_points st' = cut_points st @ new \<and> validated_cuts e (cut_points st) new) \<and>
    (st' = st \<or> (\<exists>s. st' = count_unmatched gold gate s))"
  proof cases
    case 1
    then show ?thesis by (simp add: validated_cuts_def)
  next
    case 2
    have eq: "typed_match_total (ms_stats st') = typed_match_total (ms_stats s)" "typed_cuts st' = typed_cuts s"
      "cut_points st' = cut_points s"
      by (simp_all add: 2(2) count_unmatched_def typed_match_total_def typed_cuts_def)
    note ok = accept_suggestions_ok [OF 2(1)]
    have "extends_match gold gate st st'" unfolding 2(2) using ok(1) count_unmatched_extends by (rule extends_match_trans)
    then show ?thesis using ok(2,3) 2(2) unfolding eq by blast
  qed
  then show "extends_match gold gate st st'" "typed_match_total (ms_stats st') - typed_cuts st' = typed_match_total (ms_stats st) - typed_cuts st"
    "\<exists>new. cut_points st' = cut_points st @ new \<and> validated_cuts e (cut_points st) new"
    "st' = st \<or> (\<exists>s. st' = count_unmatched gold gate s)"
    by simp_all
qed

text \<open>The counts of unmatched names are right in a state that satisfies the invariant and was counted last.\<close>

definition counted :: "named_sigs \<Rightarrow> named_sigs \<Rightarrow> mstate \<Rightarrow> bool" where
  "counted gold gate st \<longleftrightarrow>
     unmatched_gold (ms_stats st) = int (length gold) - int (length (matched_gold st)) \<and>
     unmatched_gate (ms_stats st) = int (length gate) - int (length (matched_gate st))"

lemma counted_count: "counted gold gate (count_unmatched gold gate st)"
  by (simp add: counted_def count_unmatched_def)

lemma unmatched_card:
  assumes "distinct (map fst d)" "distinct xs" "set xs \<subseteq> fst ` set d"
  shows "int (length d) - int (length xs) = int (card (fst ` set d - set xs))"
proof -
  have "card (fst ` set d) = length d" using distinct_card [OF assms(1)] by simp
  moreover have "card (set xs) = length xs" using assms(2) by (rule distinct_card)
  moreover have "length xs \<le> length d" using card_mono [OF _ assms(3)] calculation by simp
  ultimately show ?thesis using assms(3) by (simp add: card_Diff_subset)
qed

lemma cut_of_names: "cut_of gold gate cp gname kname \<Longrightarrow> gname \<in> fst ` set gold \<and> kname \<in> fst ` set gate"
  by (auto simp: cut_of_def od_get_def dest!: map_of_SomeD intro: rev_image_eqI)

lemma match_inv_names:
  assumes "match_inv gold gate st"
  shows "set (matched_gold st) \<subseteq> fst ` set gold" "set (matched_gate st) \<subseteq> fst ` set gate"
proof -
  have "matched_gold st ! i \<in> fst ` set gold" "matched_gate st ! i \<in> fst ` set gate" if "i < length (cut_points st)" for i
    using assms that cut_of_names unfolding match_inv_def by blast+
  moreover have "length (matched_gold st) = length (cut_points st)" "length (matched_gate st) = length (cut_points st)"
    using assms by (simp_all add: match_inv_def)
  ultimately show "set (matched_gold st) \<subseteq> fst ` set gold" "set (matched_gate st) \<subseteq> fst ` set gate"
    by (auto simp: in_set_conv_nth)
qed

lemma match_stages_ok:
  assumes "build_named_sigs gold_m = Inr (gold, gq)" "build_named_sigs gate_m = Inr (gate, kq)"
    "match_suggested e io emit gold gate gq kq (match_external fs pid gold gate ext (match_by_name fs gold gate gq kq (mstate_init mf))) gs
      = Inr (st, gs')"
  shows "match_inv gold gate st" "fst ` set gold \<inter> fst ` set gate \<subseteq> set (matched_gold st) \<inter> set (matched_gate st)"
    "counted gold gate st" "ext = None \<Longrightarrow> typed_match_total (ms_stats st) = typed_cuts st"
proof -
  note dist = build_named_sigs_distinct [OF assms(1)] build_named_sigs_distinct [OF assms(2)]
  let ?a = "match_by_name fs gold gate gq kq (mstate_init mf)"
  let ?b = "match_external fs pid gold gate ext ?a"
  note a = match_by_name_ok [OF dist(1), of ?a fs gate gq kq mf, OF refl]
  note s = match_suggested_ok [OF assms(3)]
  have "extends_match gold gate ?a st" using match_external_extends [OF dist] s(1) by (rule extends_match_trans)
  then show "match_inv gold gate st" "fst ` set gold \<inter> fst ` set gate \<subseteq> set (matched_gold st) \<inter> set (matched_gate st)"
    using a by (simp_all add: extends_match_def)
  have "counted gold gate ?b" by (simp add: match_external_def match_by_name_def counted_count split: option.splits)
  then show "counted gold gate st" using s(4) counted_count by auto
  show "typed_match_total (ms_stats st) = typed_cuts st" if "ext = None"
    using s(2) a(2) that by (simp add: match_external_def)
qed

section \<open>Flip-flops reach every bit they drive\<close>

text \<open>The steps of the propagation: from a connected wire to the bit it drives.\<close>

definition drives :: "(SigBit \<times> SigBit) list \<Rightarrow> (SigBit \<times> SigBit) set" where
  "drives conns = {(r, l). (l, r) \<in> set conns \<and> is_wire r}"

definition spread_from :: "(SigBit \<times> SigBit) list \<Rightarrow> ff_map \<Rightarrow> ff_map \<Rightarrow> bool" where
  "spread_from conns ffm0 ffm \<longleftrightarrow> (\<forall>b c. od_get ffm b = Some c \<longrightarrow> (\<exists>q. od_get ffm0 q = Some c \<and> (q, b) \<in> (drives conns)\<^sup>*)) \<and>
     (\<forall>b c. od_get ffm0 b = Some c \<longrightarrow> od_get ffm b = Some c)"

lemma spread_from_refl: "spread_from conns ffm ffm"
  unfolding spread_from_def by blast

lemma spread_bit_cases:
  "spread_bit (ffm, ch) (l, r) = (ffm, ch) \<and> (is_wire r \<and> od_count ffm r \<longrightarrow> od_count ffm l) \<or>
   (\<exists>c. spread_bit (ffm, ch) (l, r) = (od_set ffm l c, True) \<and> od_get ffm r = Some c \<and> is_wire r \<and> od_get ffm l = None)"
  by (auto simp: spread_bit_def od_count_get split: option.splits)

lemma spread_bit_from:
  assumes "spread_from conns ffm0 (fst st)" "c \<in> set conns"
  shows "spread_from conns ffm0 (fst (spread_bit st c))"
proof -
  obtain ffm ch l r where st: "st = (ffm, ch)" "c = (l, r)" by (metis prod.exhaust)
  consider "fst (spread_bit st c) = ffm" | x where "fst (spread_bit st c) = od_set ffm l x" "od_get ffm r = Some x" "is_wire r" "od_get ffm l = None"
    using spread_bit_cases [of ffm ch l r] unfolding st by fastforce
  then show ?thesis
  proof cases
    case 2
    have step: "(r, l) \<in> drives conns" using assms(2) 2(3) by (simp add: drives_def st)
    obtain q where "od_get ffm0 q = Some x" "(q, r) \<in> (drives conns)\<^sup>*"
      using assms(1) 2(2) unfolding spread_from_def st fst_conv by blast
    moreover have "(q, l) \<in> (drives conns)\<^sup>*" using calculation(2) step by (rule rtrancl_into_rtrancl)
    ultimately show ?thesis
      using assms(1) 2(4) unfolding spread_from_def 2(1) [unfolded st] st fst_conv od_get_set by (auto split: if_splits)
  qed (use assms st in simp)
qed

lemma spread_round_from:
  assumes "spread_from conns ffm0 ffm" "set cs \<subseteq> set conns"
  shows "spread_from conns ffm0 (fst (foldl spread_bit (ffm, ch) cs))"
  using assms
proof (induction cs arbitrary: ffm ch)
  case (Cons c cs)
  then show ?case using spread_bit_from [of conns ffm0 "(ffm, ch)" c]
    by (cases "spread_bit (ffm, ch) c") simp
qed simp

lemma spread_unchanged:
  assumes "foldl spread_bit (ffm, ch) cs = (ffm', False)"
  shows "ffm' = ffm \<and> \<not> ch \<and> (\<forall>(l, r) \<in> set cs. is_wire r \<and> od_count ffm r \<longrightarrow> od_count ffm l)"
  using assms
proof (induction cs arbitrary: ffm ch)
  case (Cons c cs)
  obtain l r where c: "c = (l, r)" by fastforce
  show ?case using spread_bit_cases [of ffm ch l r] Cons.IH Cons.prems unfolding c by fastforce
qed simp

lemma spread_ffs_result:
  assumes "spread_from conns ffm0 ffm"
  shows "spread_from conns ffm0 (spread_ffs conns ffm) \<and>
    (\<forall>(l, r) \<in> set conns. is_wire r \<and> od_count (spread_ffs conns ffm) r \<longrightarrow> od_count (spread_ffs conns ffm) l)"
  using assms
proof (induction conns ffm rule: spread_ffs.induct)
  case (1 conns ffm)
  obtain ffm' ch where round: "spread_round conns ffm = (ffm', ch)" by fastforce
  have from': "spread_from conns ffm0 ffm'"
    using spread_round_from [OF 1(2) order_refl, of False] round by (simp add: spread_round_def)
  show ?case
  proof (cases ch)
    case True
    then show ?thesis using 1(1) [OF round [symmetric] refl] from' round by (simp add: spread_ffs.simps [of conns ffm])
  next
    case False
    then have "ffm' = ffm" "\<forall>(l, r) \<in> set conns. is_wire r \<and> od_count ffm r \<longrightarrow> od_count ffm l"
      using spread_unchanged [of ffm False conns ffm'] round by (simp_all add: spread_round_def)
    then show ?thesis using False round from' by (simp add: spread_ffs.simps [of conns ffm])
  qed
qed

section \<open>Guarantees\<close>

text \<open>C5: Matching the signals of two modules pairs names one to one: every cut point joins an existing bit of
  the gold module with an existing bit of the gate module, no name of either module is used twice,
  the total counts the cut points, every name the modules share is matched, and the numbers of
  unmatched names are exact. The counts per kind add up to the cut points that have a kind as long as
  no external file is read.\<close>

theorem match_signals_one_to_one:
  assumes "match_signals_module tls fp io validate conf ext emit snapshot gold_m gate_m gs = Inr (st, gs')"
    "build_named_sigs gold_m = Inr (gold, gq)" "build_named_sigs gate_m = Inr (gate, kq)"
  shows "match_inv gold gate st \<and>
    fst ` set gold \<inter> fst ` set gate \<subseteq> set (matched_gold st) \<inter> set (matched_gate st) \<and>
    unmatched_gold (ms_stats st) = int (card (fst ` set gold - set (matched_gold st))) \<and>
    unmatched_gate (ms_stats st) = int (card (fst ` set gate - set (matched_gate st))) \<and>
    (ext = None \<longrightarrow> typed_match_total (ms_stats st) = typed_cuts st)"
proof -
  obtain e fs pid mf gs1 where run: "match_suggested e io emit gold gate gq kq
      (match_external fs pid gold gate ext (match_by_name fs gold gate gq kq (mstate_init mf))) gs = Inr (st, gs1)"
    using assms(1) unfolding match_signals_module_def assms(2,3) Let_def
    by (auto simp: rbind_eq_Inr_iff rmap_eq_Inr_iff)
  note ok = match_stages_ok [OF assms(2,3) run]
  have "distinct (matched_gold st)" "distinct (matched_gate st)" using ok(1) by (simp_all add: match_inv_def)
  then have "unmatched_gold (ms_stats st) = int (card (fst ` set gold - set (matched_gold st)))"
    "unmatched_gate (ms_stats st) = int (card (fst ` set gate - set (matched_gate st)))"
    using ok(3) unmatched_card [OF build_named_sigs_distinct [OF assms(2)] _ match_inv_names(1) [OF ok(1)]]
      unmatched_card [OF build_named_sigs_distinct [OF assms(3)] _ match_inv_names(2) [OF ok(1)]]
    by (simp_all add: counted_def)
  then show ?thesis using ok(1,2,4) by blast
qed

text \<open>C7: Accepting suggestions only appends cut points, each of a kind, and a flip-flop is appended only after
  the local validation of that very cut point, run with the cut points before it, reported it proved.\<close>

theorem suggestions_validated:
  assumes "match_suggested e io emit gold gate gq kq st gs = Inr (st', gs')"
  shows "\<exists>new. cut_points st' = cut_points st @ new \<and>
    (\<forall>i < length new. cp_type (new ! i) \<noteq> MT_NONE \<and> (cp_type (new ! i) \<in> {DFF, DFF_PO} \<longrightarrow>
      (\<exists>w v w'. me_validate e (cut_points st @ take i new) (new ! i) w = Inr (v, w') \<and> lv_proved v)))"
  using match_suggested_ok(3) [OF assms] unfolding validated_cuts_def validated_cut_def .

text \<open>C31: Marking the bits that flip-flops drive ends, with exactly the bits that are reached from the bits marked
  at first by going from connected wires to what they drive: a bit marked at first keeps its
  flip-flop, and every other marked bit has that of a bit it is reached from.\<close>

theorem spread_ffs_reaches:
  "(od_count (spread_ffs conns ffm) b \<longleftrightarrow> (\<exists>q. od_count ffm q \<and> (q, b) \<in> (drives conns)\<^sup>*)) \<and>
   (\<forall>cell. od_get ffm b = Some cell \<longrightarrow> od_get (spread_ffs conns ffm) b = Some cell) \<and>
   (\<forall>cell. od_get (spread_ffs conns ffm) b = Some cell \<longrightarrow> (\<exists>q. od_get ffm q = Some cell \<and> (q, b) \<in> (drives conns)\<^sup>*))"
proof -
  have from': "spread_from conns ffm (spread_ffs conns ffm)"
    and closed: "\<forall>(l, r) \<in> set conns. is_wire r \<and> od_count (spread_ffs conns ffm) r \<longrightarrow> od_count (spread_ffs conns ffm) l"
    using spread_ffs_result [OF spread_from_refl, of conns ffm] by simp_all
  have "od_count (spread_ffs conns ffm) b" if "(q, b) \<in> (drives conns)\<^sup>*" "od_count ffm q" for q
    using that(1)
  proof (induction rule: rtrancl_induct)
    case base
    then show ?case using from' that(2) by (auto simp: spread_from_def od_count_get)
  next
    case (step y z)
    then show ?case using closed by (auto simp: drives_def)
  qed
  moreover have "\<exists>q. od_count ffm q \<and> (q, b) \<in> (drives conns)\<^sup>*" if "od_count (spread_ffs conns ffm) b"
    using from' that by (fastforce simp: spread_from_def od_count_get)
  ultimately show ?thesis using from' unfolding spread_from_def by blast
qed

theorem spread_ffs_reaches_witness:
  "od_count (spread_ffs [(WireBit ''a'' 0, WireBit ''q'' 0)] [(WireBit ''q'' 0, ''ff'')]) (WireBit ''a'' 0) \<and>
   od_get (spread_ffs [(WireBit ''a'' 0, WireBit ''q'' 0)] [(WireBit ''q'' 0, ''ff'')]) (WireBit ''q'' 0) = Some ''ff''"
proof -
  let ?conns = "[(WireBit ''a'' 0, WireBit ''q'' 0)]" and ?ffm = "[(WireBit ''q'' 0, ''ff'')]"
  have ff: "od_count ?ffm (WireBit ''q'' 0)" "od_get ?ffm (WireBit ''q'' 0) = Some ''ff''" by code_simp+
  have "(WireBit ''q'' 0, WireBit ''a'' 0) \<in> (drives ?conns)\<^sup>*" by (rule r_into_rtrancl) (simp add: drives_def)
  then show ?thesis using ff spread_ffs_reaches [of ?conns ?ffm "WireBit ''a'' 0"] spread_ffs_reaches [of ?conns ?ffm "WireBit ''q'' 0"]
    by blast
qed

text \<open>C32: With the dump of match samples switched on, a signal of a known kind that was matched with a gate
  signal of another name, as external files and suggestions do, makes the command fail, because the
  dump looks the gate signal up under the gold name.\<close>

theorem renamed_match_breaks_dump:
  assumes "dump_match (dump_cfg (me_conf e))" "(name, g) \<in> set gold" "ns_type g \<noteq> MT_NONE"
    "name \<in> set (matched_gold st)" "name \<notin> fst ` set gate"
  shows "\<exists>err. dump_matches e snapshot gold gate st gs = Inl err"
proof -
  have "od_get gate name = None" using assms(5) by (simp add: od_get_def map_of_eq_None_iff)
  then have "\<exists>err. dump_bit e snapshot gate st (name, g) s = Inl err" for s
    using assms(3,4) by (cases s) (simp add: dump_bit_def)
  then have "\<exists>err. rfold (dump_bit e snapshot gate st) (iterate gold) ([], gs) = Inl err"
    using assms(2) by (intro rfold_fails [of "(name, g)"]) simp_all
  then show ?thesis using assms(1) by (auto simp: dump_matches_def)
qed

section \<open>Concrete runs\<close>

text \<open>A module with one input; a pair of bits of flip-flops with different names, and a suggestion that joins them.\<close>

definition port_module :: "string \<Rightarrow> Module" where
  "port_module name = (witness_module name)\<lparr>m_wires := [\<lparr>w_name = bs ''a'', w_width = 1, port_id = 1, port_input = True,
     port_output = False\<rparr>]\<rparr>"

definition ff_bit :: "string \<Rightarrow> NamedSig" where
  "ff_bit name = \<lparr>ns_sig = WireBit name 0, ns_type = DFF, ns_wire_name = name, ns_bit_index = 0\<rparr>"

definition witness_suggestion :: "int Json" where
  "witness_suggestion = JObj [(''pair_id'', JStr (get_pair_id ''gold'' ''gate'')), (''snapshot'', JStr ''pre_async''),
     (''score_margin'', JInt 5), (''gold_name'', JStr ''q''), (''suggested_gate_name'', JStr ''r'')]"

definition proving_validator :: "(unit, int) validator" where
  "proving_validator cps cp gs = Inr ((LocalValidateResult_init int_fp)\<lparr>lv_proved := True\<rparr>, gs)"

definition witness_env :: "(unit, int) match_env" where
  "witness_env = \<lparr>me_tools = witness_tools, me_fp = int_fp, me_conf = witness_config\<lparr>accept_sugs_file := ''s.json''\<rparr>,
     me_gold_mod = ''gold'', me_gate_mod = ''gate'', me_files = \<lparr>f_open = True, f_exact_open = True, f_validated_open = True\<rparr>,
     me_validate = proving_validator\<rparr>"

definition suggestion_io :: "int model_io" where
  "suggestion_io = \<lparr>read_file = \<lambda>_. Some [], parse_json = \<lambda>_. Inr (JArr [witness_suggestion])\<rparr>"

lemma port_module_sigs:
  "build_named_sigs (port_module name) =
    Inr ([(bs ''a'', \<lparr>ns_sig = WireBit (bs ''a'') 0, ns_type = PI, ns_wire_name = bs ''a'', ns_bit_index = 0\<rparr>)], [])"
  by (simp add: build_named_sigs_def port_module_def witness_module_def module_sigmap_def conn_bits_def name_wire_def
      spread_ffs.simps spread_round_def Let_def sig_of_wire_def od_set_def od_count_def indexed_name_def bit_type_def
      note_ff_def od_get_def)

theorem match_signals_one_to_one_witness:
  "\<exists>st gs' gold gate. match_signals_module witness_tools int_fp suggestion_io proving_validator witness_config None False
     ''pre_async'' (port_module ''gold'') (port_module ''gate'') witness_state = Inr (st, gs') \<and>
     match_inv gold gate st \<and> length (cut_points st) = 1 \<and> unmatched_gold (ms_stats st) = 0"
proof -
  have "rmap (\<lambda>(st, _). (length (cut_points st), unmatched_gold (ms_stats st))) (match_signals_module witness_tools int_fp suggestion_io
     proving_validator witness_config None False ''pre_async'' (port_module ''gold'') (port_module ''gate'') witness_state) = Inr (1, 0)"
    by code_simp
  then obtain st gs' where run: "match_signals_module witness_tools int_fp suggestion_io proving_validator witness_config None False
     ''pre_async'' (port_module ''gold'') (port_module ''gate'') witness_state = Inr (st, gs')"
    "length (cut_points st) = 1" "unmatched_gold (ms_stats st) = 0"
    by (auto simp: rmap_eq_Inr_iff)
  show ?thesis using match_signals_one_to_one [OF run(1) port_module_sigs port_module_sigs] run by blast
qed

theorem suggestions_validated_witness:
  "\<exists>st' gs'. match_suggested witness_env suggestion_io True [(bs ''q'', ff_bit ''q'')] [(bs ''r'', ff_bit ''r'')] [] []
      (mstate_init ''m'') witness_state = Inr (st', gs') \<and>
    (\<exists>cp w v w'. cut_points st' = [cp] \<and> me_validate witness_env [] cp w = Inr (v, w') \<and> lv_proved v)"
proof -
  have "rmap (\<lambda>(st, _). map cp_type (cut_points st)) (match_suggested witness_env suggestion_io True [(bs ''q'', ff_bit ''q'')]
      [(bs ''r'', ff_bit ''r'')] [] [] (mstate_init ''m'') witness_state) = Inr [DFF]"
    by code_simp
  then obtain st' gs' where run: "match_suggested witness_env suggestion_io True [(bs ''q'', ff_bit ''q'')] [(bs ''r'', ff_bit ''r'')] [] []
      (mstate_init ''m'') witness_state = Inr (st', gs')" "map cp_type (cut_points st') = [DFF]"
    by (auto simp: rmap_eq_Inr_iff)
  then obtain cp where cp: "cut_points st' = [cp]" "cp_type cp = DFF" by auto
  have none: "cut_points (mstate_init ''m'') = []" by (simp add: mstate_init_def)
  have "\<exists>w v w'. me_validate witness_env [] cp w = Inr (v, w') \<and> lv_proved v"
    using suggestions_validated [OF run(1)] cp unfolding none by auto
  then show ?thesis using run(1) cp(1) by blast
qed

theorem renamed_match_breaks_dump_witness:
  "\<exists>err. dump_matches (witness_env\<lparr>me_conf := witness_config\<lparr>dump_cfg := (dump_cfg witness_config)\<lparr>dump_match := True\<rparr>\<rparr>\<rparr>)
    ''pre_async'' [(bs ''q'', ff_bit ''q'')] [(bs ''r'', ff_bit ''r'')]
    (accept_match witness_env [] [] (bs ''q'') (ff_bit ''q'') (bs ''r'') (ff_bit ''r'') (mstate_init ''m'')) witness_state = Inl err"
  by (rule renamed_match_breaks_dump [of _ "bs ''q''" "ff_bit ''q''"])
    (simp_all add: ff_bit_def accept_match_def add_match_def Let_def)

end
