(* ===== verification/Guide_Cut.thy ===== *)
theory Guide_Cut
  imports Guide_Match "HOL-Library.Sublist"
begin

text \<open>
  Cutting the flip-flops of a module at its matched signals: \<open>cutpoints_to_pi_po\<close> of
  \<open>passes/guide/check/match.cc\<close>, and the choice of the cut points to use in
  \<open>passes/guide/check/region.cc\<close>. The text of a signal (\<open>log_signal\<close>) is the parameter \<open>log_sig\<close>.
  The warnings are left out.
\<close>

section \<open>The choice of cut points\<close>

definition is_dff_cp :: "CutPoint \<Rightarrow> bool" where
  "is_dff_cp cp \<longleftrightarrow> cp_type cp = DFF \<or> cp_type cp = DFF_PO"

definition cp_key_of :: "(SigBit \<Rightarrow> string) \<Rightarrow> CutPoint \<Rightarrow> string" where
  "cp_key_of log_sig cp =
     (case (gold_ff_cell cp, gate_ff_cell cp) of
        (Some g, Some k) \<Rightarrow> ''ff:'' @ g @ ''||'' @ k
      | _ \<Rightarrow> ''sig:'' @ log_sig (gold_sig cp) @ ''||'' @ log_sig (gate_sig cp))"

definition prefer_cut :: "CutPoint \<Rightarrow> CutPoint \<Rightarrow> bool" where
  "prefer_cut candidate current \<longleftrightarrow> cp_type candidate = DFF \<and> cp_type current = DFF_PO"

definition select_cut :: "(SigBit \<Rightarrow> string) \<Rightarrow> (string, CutPoint) odict \<Rightarrow> CutPoint \<Rightarrow> (string, CutPoint) odict" where
  "select_cut log_sig selected cp =
     (case od_get selected (cp_key_of log_sig cp) of
        None \<Rightarrow> od_set selected (cp_key_of log_sig cp) cp
      | Some cur \<Rightarrow> if prefer_cut cp cur then od_set selected (cp_key_of log_sig cp) cp else selected)"

definition emit_cut ::
    "(SigBit \<Rightarrow> string) \<Rightarrow> (string, CutPoint) odict \<times> CutPoint list \<Rightarrow> CutPoint \<Rightarrow> (string, CutPoint) odict \<times> CutPoint list" where
  "emit_cut log_sig = (\<lambda>(selected, out) cp.
     case od_get selected (cp_key_of log_sig cp) of
       None \<Rightarrow> (selected, out)
     | Some cur \<Rightarrow>
         if cp_name cur \<noteq> cp_name cp \<or> cp_type cur \<noteq> cp_type cp then (selected, out)
         else (erase_key fst (cp_key_of log_sig cp) selected, out @ [cp]))"

definition dedup_local_dff_cutpoints :: "(SigBit \<Rightarrow> string) \<Rightarrow> CutPoint list \<Rightarrow> CutPoint list" where
  "dedup_local_dff_cutpoints log_sig cps =
     snd (foldl (emit_cut log_sig) (foldl (select_cut log_sig) [] cps, []) cps)"

definition select_local_dff_cutpoints :: "(SigBit \<Rightarrow> string) \<Rightarrow> CutPoint list \<Rightarrow> CutPoint option \<Rightarrow> CutPoint list" where
  "select_local_dff_cutpoints log_sig all_cps extra =
     (let out = filter is_dff_cp all_cps
      in dedup_local_dff_cutpoints log_sig (case extra of
           Some cp \<Rightarrow>
             if is_dff_cp cp \<and> \<not> list_ex (\<lambda>c. cp_name c = cp_name cp \<and> cp_type c = cp_type cp) out then out @ [cp] else out
         | None \<Rightarrow> out))"

definition select_region_state_cutpoints :: "(SigBit \<Rightarrow> string) \<Rightarrow> CutPoint list \<Rightarrow> CutPoint list" where
  "select_region_state_cutpoints log_sig all_cps = dedup_local_dff_cutpoints log_sig (filter (\<lambda>cp. cp_type cp = DFF) all_cps)"

definition select_region_child_boundary_cutpoints :: "CutPoint list \<Rightarrow> CutPoint list" where
  "select_region_child_boundary_cutpoints all_cps = filter (\<lambda>cp. cp_type cp = SUBCKT_PIPO) all_cps"

section \<open>The bits of a cut point\<close>

definition cp_ff :: "bool \<Rightarrow> CutPoint \<Rightarrow> string option" where
  "cp_ff use_gold cp = (if use_gold then gold_ff_cell cp else gate_ff_cell cp)"

definition cp_wire :: "bool \<Rightarrow> CutPoint \<Rightarrow> string" where
  "cp_wire use_gold cp = (if use_gold then gold_wire_name cp else gate_wire_name cp)"

definition cp_index :: "bool \<Rightarrow> CutPoint \<Rightarrow> int" where
  "cp_index use_gold cp = (if use_gold then gold_bit_index cp else gate_bit_index cp)"

definition q_bit :: "bool \<Rightarrow> CutPoint \<Rightarrow> SigBit" where
  "q_bit use_gold cp = WireBit (cp_wire use_gold cp) (cp_index use_gold cp)"

definition wire_in_range :: "bool \<Rightarrow> Module \<Rightarrow> CutPoint \<Rightarrow> bool" where
  "wire_in_range use_gold m cp \<longleftrightarrow> cp_wire use_gold cp \<noteq> [] \<and>
     (case module_wire m (cp_wire use_gold cp) of
        None \<Rightarrow> False | Some w \<Rightarrow> 0 \<le> cp_index use_gold cp \<and> cp_index use_gold cp < int (w_width w))"

text \<open>The position in \<open>D\<close> that belongs to a bit of \<open>Q\<close>.\<close>

definition d_index :: "SigSpec \<Rightarrow> nat \<Rightarrow> SigBit \<Rightarrow> int \<Rightarrow> nat option" where
  "d_index qsig dwidth qm qbit_index =
     (case (case find (\<lambda>i. qsig ! i = qm) [0..<length qsig] of
              Some i \<Rightarrow> Some i
            | None \<Rightarrow>
                if length qsig > 1
                then if qbit_index < 0 \<or> qbit_index \<ge> int (length qsig) then None else Some (nat qbit_index)
                else Some 0) of
        None \<Rightarrow> None | Some i \<Rightarrow> if i < dwidth then Some i else None)"

definition get_cutpoint_d_bit :: "Module \<Rightarrow> CutPoint \<Rightarrow> bool \<Rightarrow> SigBit option result" where
  "get_cutpoint_d_bit m cp use_gold =
     (let sigmap = module_sigmap m
      in case Option.bind (cp_ff use_gold cp) (module_cell m) of
           None \<Rightarrow> Inr None
         | Some c \<Rightarrow>
             if \<not> wire_in_range use_gold m cp then Inr None
             else rbind (get_port c (bs ''Q'')) (\<lambda>qs. rbind (get_port c (bs ''D'')) (\<lambda>ds.
               Inr (map_option (\<lambda>i. sigmap (ds ! i))
                 (d_index (map sigmap qs) (length ds) (sigmap (q_bit use_gold cp)) (cp_index use_gold cp))))))"

definition can_materialize_cutpoint :: "Module \<Rightarrow> CutPoint \<Rightarrow> bool \<Rightarrow> bool result" where
  "can_materialize_cutpoint m cp use_gold =
     (if cp_type cp = SUBCKT_PIPO then Inr False
      else rmap (\<lambda>r. case r of None \<Rightarrow> False | Some d \<Rightarrow> is_wire d) (get_cutpoint_d_bit m cp use_gold))"

definition filter_materializable_cutpoints :: "Module \<Rightarrow> Module \<Rightarrow> CutPoint list \<Rightarrow> CutPoint list result" where
  "filter_materializable_cutpoints gold_m gate_m cps =
     rfold (\<lambda>cp out. rbind (can_materialize_cutpoint gold_m cp True) (\<lambda>a.
       if \<not> a then Inr out
       else rmap (\<lambda>b. if b then out @ [cp] else out) (can_materialize_cutpoint gate_m cp False))) cps []"

section \<open>Cutting\<close>

record cut_state =
  cs_mod :: Module
  cut_cells :: "string list"
  cut_q_bits :: "SigBit list"
  pending_q_conns :: "SigSig list"

definition make_port_wire :: "Module \<Rightarrow> string \<Rightarrow> string \<Rightarrow> bool \<Rightarrow> bool \<Rightarrow> (Module \<times> string) result" where
  "make_port_wire m base sfx inp out =
     rbind (uniquify m (escape_id (strip_backslash base @ sfx))) (\<lambda>name.
       rmap (\<lambda>m. (set_wire_ports m name inp out, name)) (add_wire m name 1))"

definition find_ff_by_qbit :: "(SigBit \<Rightarrow> SigBit) \<Rightarrow> Module \<Rightarrow> SigBit \<Rightarrow> NCell option" where
  "find_ff_by_qbit sigmap m qbit =
     (if \<not> is_wire qbit then None
      else find (\<lambda>c. cell_has_ff_ports c \<and> qbit \<in> set (map sigmap (port_bits c (bs ''Q'')))) (iterate (m_cells m)))"

definition cut_ff :: "(SigBit \<Rightarrow> SigBit) \<Rightarrow> bool \<Rightarrow> Module \<Rightarrow> CutPoint \<Rightarrow> NCell option" where
  "cut_ff sigmap use_gold m cp =
     (case Option.bind (cp_ff use_gold cp) (module_cell m) of
        Some c \<Rightarrow> Some c
      | None \<Rightarrow> find_ff_by_qbit sigmap m (sigmap (q_bit use_gold cp)))"

definition cut_step :: "(SigBit \<Rightarrow> SigBit) \<Rightarrow> bool \<Rightarrow> CutPoint \<Rightarrow> cut_state \<Rightarrow> cut_state result" where
  "cut_step sigmap use_gold cp st =
     (if \<not> is_dff_cp cp \<or> \<not> wire_in_range use_gold (cs_mod st) cp then Inr st
      else case cut_ff sigmap use_gold (cs_mod st) cp of
        None \<Rightarrow> Inr st
      | Some c \<Rightarrow>
          let q = q_bit use_gold cp; qm = sigmap q
          in rbind (make_port_wire (cs_mod st) (cp_name cp) ''_pi'' True False) (\<lambda>(m, pi).
             let st = st\<lparr>cs_mod := m, cut_q_bits := op_insert (cut_q_bits st) qm, cut_cells := op_insert (cut_cells st) (c_name c),
                  pending_q_conns := pending_q_conns st @ ([q], [WireBit pi 0]) #
                    (if qm \<noteq> WireBit pi 0 then [([qm], [WireBit pi 0])] else [])\<rparr>
             in rbind (get_port c (bs ''Q'')) (\<lambda>qs. rbind (get_port c (bs ''D'')) (\<lambda>ds.
                case d_index (map sigmap qs) (length ds) qm (cp_index use_gold cp) of
                  None \<Rightarrow> Inr st
                | Some i \<Rightarrow> rbind (make_port_wire m (cp_name cp) ''_po'' False True) (\<lambda>(m, po).
                    rmap (\<lambda>m. st\<lparr>cs_mod := m\<rparr>) (connect m [WireBit po 0] [sigmap (ds ! i)]))))))"

fun keep_bits :: "(SigBit \<Rightarrow> SigBit) \<Rightarrow> SigBit list \<Rightarrow> SigSpec \<Rightarrow> SigSpec \<Rightarrow> (SigBit \<times> SigBit) list result" where
  "keep_bits sigmap cutq [] rs = Inr []"
| "keep_bits sigmap cutq (l # ls) rs =
     (if sigmap l \<in> set cutq then keep_bits sigmap cutq ls (tl rs)
      else case rs of [] \<Rightarrow> Inl OutOfRange | r # rs \<Rightarrow> rmap (\<lambda>ps. (l, r) # ps) (keep_bits sigmap cutq ls rs))"

definition drop_cut_conns :: "(SigBit \<Rightarrow> SigBit) \<Rightarrow> SigBit list \<Rightarrow> SigSig list \<Rightarrow> SigSig list result" where
  "drop_cut_conns sigmap cutq conns =
     rfold (\<lambda>(lhs, rhs) acc. rmap (\<lambda>ps. if ps = [] then acc else acc @ [(map fst ps, map snd ps)])
       (keep_bits sigmap cutq lhs rhs)) conns []"

definition cutpoints_to_pi_po :: "(string \<Rightarrow> nat) \<Rightarrow> Module \<Rightarrow> CutPoint list \<Rightarrow> bool \<Rightarrow> Module result" where
  "cutpoints_to_pi_po idx m cps use_gold =
     (let sigmap = module_sigmap m
      in rbind (rfold (cut_step sigmap use_gold) cps \<lparr>cs_mod = m, cut_cells = [], cut_q_bits = [], pending_q_conns = []\<rparr>) (\<lambda>st.
         rbind (if cut_q_bits st = [] then Inr (cs_mod st)
                else rmap (\<lambda>conns. (cs_mod st)\<lparr>m_connections := conns\<rparr>)
                       (drop_cut_conns sigmap (cut_q_bits st) (m_connections (cs_mod st)))) (\<lambda>m.
         rbind (rfold (\<lambda>(lhs, rhs) m. connect m lhs rhs) (pending_q_conns st) m) (\<lambda>m.
         rbind (rfold (\<lambda>c m. remove_cell m c) (iterate (cut_cells st)) m) (\<lambda>m.
         Inr (fixup_ports idx m))))))"

section \<open>One cut point per key\<close>

text \<open>The best cut point of its key: one of an inner flip-flop, if there is one.\<close>

definition best_cut :: "(SigBit \<Rightarrow> string) \<Rightarrow> CutPoint list \<Rightarrow> CutPoint \<Rightarrow> bool" where
  "best_cut ls xs c \<longleftrightarrow> c \<in> set xs \<and> (\<forall>c' \<in> set xs. cp_key_of ls c' = cp_key_of ls c \<and> cp_type c' = DFF \<longrightarrow> cp_type c = DFF)"

definition selects :: "(SigBit \<Rightarrow> string) \<Rightarrow> CutPoint list \<Rightarrow> (string, CutPoint) odict \<Rightarrow> bool" where
  "selects ls xs sel \<longleftrightarrow> (\<forall>k. case od_get sel k of
     None \<Rightarrow> k \<notin> cp_key_of ls ` set xs | Some c \<Rightarrow> cp_key_of ls c = k \<and> best_cut ls xs c)"

lemma select_cut_keeps:
  assumes "selects ls xs sel" "\<forall>c \<in> set xs. is_dff_cp c" "is_dff_cp x"
  shows "selects ls (xs @ [x]) (select_cut ls sel x)"
  unfolding selects_def
proof
  fix k
  have k: "case od_get sel k of None \<Rightarrow> k \<notin> cp_key_of ls ` set xs | Some c \<Rightarrow> cp_key_of ls c = k \<and> best_cut ls xs c"
    using assms(1) unfolding selects_def by blast
  show "case od_get (select_cut ls sel x) k of
     None \<Rightarrow> k \<notin> cp_key_of ls ` set (xs @ [x]) | Some c \<Rightarrow> cp_key_of ls c = k \<and> best_cut ls (xs @ [x]) c"
  proof (cases "k = cp_key_of ls x")
    case False
    then have "od_get (select_cut ls sel x) k = od_get sel k" by (simp add: select_cut_def od_get_set split: option.splits)
    then show ?thesis using k False by (auto simp: best_cut_def split: option.splits)
  next
    case True
    show ?thesis
    proof (cases "od_get sel k")
      case None
      then have "\<forall>c \<in> set xs. cp_key_of ls c \<noteq> k" using k by auto
      then show ?thesis using None True by (simp add: select_cut_def od_get_set best_cut_def)
    next
      case (Some cur)
      then have cur: "cp_key_of ls cur = k" "best_cut ls xs cur" "is_dff_cp cur" using k assms(2) by (auto simp: best_cut_def)
      then show ?thesis using Some True assms(3)
        by (cases "prefer_cut x cur") (auto simp: select_cut_def od_get_set prefer_cut_def best_cut_def is_dff_cp_def)
    qed
  qed
qed

lemma selected_cuts: "\<forall>c \<in> set cps. is_dff_cp c \<Longrightarrow> selects ls cps (foldl (select_cut ls) [] cps)"
proof (induction cps rule: rev_induct)
  case (snoc x xs)
  then show ?case by (simp add: select_cut_keeps)
qed (simp add: selects_def od_get_def)

lemma select_cut_distinct: "distinct (map fst sel) \<Longrightarrow> distinct (map fst (select_cut ls sel x))"
  by (auto simp: select_cut_def od_set_distinct split: option.splits)

lemma emit_cuts:
  assumes "distinct (map fst sel)" "\<forall>k c. od_get sel k = Some c \<longrightarrow> c \<in> set xs \<and> cp_key_of ls c = k"
  shows "\<exists>new sel'. foldl (emit_cut ls) (sel, out) xs = (sel', out @ new) \<and> subseq new xs \<and> distinct (map (cp_key_of ls) new) \<and>
    cp_key_of ls ` set new = fst ` set sel \<and> (\<forall>cp \<in> set new. \<exists>c. od_get sel (cp_key_of ls cp) = Some c \<and> cp_type cp = cp_type c)"
  using assms
proof (induction xs arbitrary: sel out)
  case Nil
  then have "map_of sel k = None" for k by (cases "map_of sel k") (auto simp: od_get_def)
  from this [of "fst (hd sel)"] have "sel = []" by (cases sel) auto
  then show ?case by simp
next
  case (Cons x xs)
  show ?case
  proof (cases "\<exists>cur. od_get sel (cp_key_of ls x) = Some cur \<and> cp_name cur = cp_name x \<and> cp_type cur = cp_type x")
    case False
    then have one: "emit_cut ls (sel, out) x = (sel, out)" by (auto simp: emit_cut_def split: option.splits)
    have "\<forall>k c. od_get sel k = Some c \<longrightarrow> c \<in> set xs \<and> cp_key_of ls c = k" using Cons.prems(2) False by fastforce
    then obtain new sel' where "foldl (emit_cut ls) (sel, out) xs = (sel', out @ new)" "subseq new xs"
        "distinct (map (cp_key_of ls) new)" "cp_key_of ls ` set new = fst ` set sel"
        "\<forall>cp \<in> set new. \<exists>c. od_get sel (cp_key_of ls cp) = Some c \<and> cp_type cp = cp_type c"
      using Cons.IH [OF Cons.prems(1)] by blast
    then show ?thesis unfolding foldl.simps one by blast
  next
    case True
    then obtain cur where cur: "od_get sel (cp_key_of ls x) = Some cur" "cp_name cur = cp_name x" "cp_type cur = cp_type x" by blast
    let ?sel = "erase_key fst (cp_key_of ls x) sel"
    have one: "emit_cut ls (sel, out) x = (?sel, out @ [x])" using cur by (simp add: emit_cut_def)
    have get: "od_get ?sel k = (if k = cp_key_of ls x then None else od_get sel k)" for k
      using Cons.prems(1) by (simp add: od_get_erase)
    have dist: "distinct (map fst ?sel)" using Cons.prems(1) by (simp add: erase_key_ok(2))
    have "\<forall>k c. od_get ?sel k = Some c \<longrightarrow> c \<in> set xs \<and> cp_key_of ls c = k" using Cons.prems(2) by (auto simp: get split: if_splits)
    then obtain new sel' where new: "foldl (emit_cut ls) (?sel, out @ [x]) xs = (sel', (out @ [x]) @ new)" "subseq new xs"
        "distinct (map (cp_key_of ls) new)" "cp_key_of ls ` set new = fst ` set ?sel"
        "\<forall>cp \<in> set new. \<exists>c. od_get ?sel (cp_key_of ls cp) = Some c \<and> cp_type cp = cp_type c"
      using Cons.IH [OF dist] by blast
    have keys: "fst ` set d = {k. od_get d k \<noteq> None}" for d :: "(string, CutPoint) odict"
      by (auto simp: od_get_def map_of_eq_None_iff)
    have "cp_key_of ls ` set (x # new) = fst ` set sel" using new(4) cur(1) by (auto simp: keys get)
    moreover have "distinct (map (cp_key_of ls) (x # new))" using new(3,4) by (auto simp: keys get)
    moreover have "\<forall>cp \<in> set (x # new). \<exists>c. od_get sel (cp_key_of ls cp) = Some c \<and> cp_type cp = cp_type c"
      using new(5) cur by (auto simp: get split: if_splits)
    ultimately show ?thesis using new(1,2) unfolding foldl.simps one by (intro exI [of _ "x # new"] exI [of _ sel']) auto
  qed
qed

lemma dedup_cuts_ok:
  assumes "\<forall>c \<in> set cps. is_dff_cp c"
  shows "subseq (dedup_local_dff_cutpoints ls cps) cps \<and> distinct (map (cp_key_of ls) (dedup_local_dff_cutpoints ls cps)) \<and>
    cp_key_of ls ` set (dedup_local_dff_cutpoints ls cps) = cp_key_of ls ` set cps \<and>
    (\<forall>cp \<in> set (dedup_local_dff_cutpoints ls cps). cp_type cp = DFF \<or> (\<forall>c \<in> set cps. cp_key_of ls c = cp_key_of ls cp \<longrightarrow> cp_type c = DFF_PO))"
proof -
  let ?sel = "foldl (select_cut ls) [] cps"
  have sel: "case od_get ?sel k of None \<Rightarrow> k \<notin> cp_key_of ls ` set cps | Some c \<Rightarrow> cp_key_of ls c = k \<and> best_cut ls cps c" for k
    using selected_cuts [OF assms, of ls] unfolding selects_def by blast
  have dist: "distinct (map fst ?sel)"
    by (rule foldl_keeps [where P = "\<lambda>d. distinct (map fst d)"]) (simp_all add: select_cut_distinct)
  have some: "c \<in> set cps \<and> cp_key_of ls c = k \<and> best_cut ls cps c" if "od_get ?sel k = Some c" for k c
    using sel [of k] that by (simp add: best_cut_def)
  then obtain new sel' where new: "foldl (emit_cut ls) (?sel, []) cps = (sel', new)" "subseq new cps"
      "distinct (map (cp_key_of ls) new)" "cp_key_of ls ` set new = fst ` set ?sel"
      "\<forall>cp \<in> set new. \<exists>c. od_get ?sel (cp_key_of ls cp) = Some c \<and> cp_type cp = cp_type c"
    using emit_cuts [OF dist, of cps ls "[]"] by auto
  have "k \<in> fst ` set ?sel \<longleftrightarrow> k \<in> cp_key_of ls ` set cps" for k
  proof (cases "od_get ?sel k")
    case None
    then have "k \<notin> fst ` set ?sel" by (simp add: od_get_def map_of_eq_None_iff)
    then show ?thesis using sel [of k] None by simp
  next
    case (Some c)
    then have "k \<in> fst ` set ?sel" unfolding od_get_def by (rule domI [THEN dom_map_of_conv_image_fst [THEN equalityD1, THEN subsetD]])
    moreover have "k \<in> cp_key_of ls ` set cps" using some [OF Some] by (intro rev_image_eqI [of c]) simp_all
    ultimately show ?thesis by simp
  qed
  then have keys: "fst ` set ?sel = cp_key_of ls ` set cps" by (rule set_eqI)
  have best: "cp_type cp = DFF \<or> (\<forall>c \<in> set cps. cp_key_of ls c = cp_key_of ls cp \<longrightarrow> cp_type c = DFF_PO)" if cp: "cp \<in> set new" for cp
  proof -
    obtain c where c: "od_get ?sel (cp_key_of ls cp) = Some c" "cp_type cp = cp_type c" using new(5) cp by blast
    have "\<forall>c' \<in> set cps. cp_key_of ls c' = cp_key_of ls cp \<longrightarrow> cp_type c' = DFF \<longrightarrow> cp_type c = DFF"
      using some [OF c(1)] unfolding best_cut_def by auto
    then show ?thesis using c(2) assms unfolding is_dff_cp_def by metis
  qed
  show ?thesis
    unfolding dedup_local_dff_cutpoints_def new(1) snd_conv by (intro conjI ballI new(2,3) trans [OF new(4) keys] best)
qed

section \<open>New port wires\<close>

lemma set_wire_ports_ids [simp]: "all_ids (set_wire_ports m name inp out) = all_ids m"
  by (simp add: all_ids_def set_wire_ports_def comp_def if_distrib cong: if_cong)

lemma uniquify_nonempty: "uniquify m name = Inr s \<Longrightarrow> name \<noteq> [] \<Longrightarrow> s \<noteq> []"
proof -
  have "s \<noteq> []" if "uniquify_loop m name k fuel = Inr s" for k fuel
    using that by (induction m name k fuel rule: uniquify_loop.induct) (auto simp: Let_def split: if_splits)
  then show "uniquify m name = Inr s \<Longrightarrow> name \<noteq> [] \<Longrightarrow> s \<noteq> []" by (auto simp: uniquify_def simp del: uniquify_loop.simps split: if_splits)
qed

lemma make_port_wire_ok:
  "\<exists>m' name. make_port_wire m base sfx inp out = Inr (m', name) \<and> name \<notin> set (all_ids m) \<and>
    m' = m\<lparr>m_wires := m_wires m @ [\<lparr>w_name = name, w_width = 1, port_id = 0, port_input = inp, port_output = out\<rparr>]\<rparr>"
  if "sfx \<noteq> []"
proof -
  obtain name where n: "uniquify m (escape_id (strip_backslash base @ sfx)) = Inr name" "name \<notin> set (all_ids m)" "count_id m name = 0"
    using uniquify_fresh by blast
  have "escape_id (strip_backslash base @ sfx) \<noteq> []" using that by (auto simp: escape_id_def split: list.splits)
  then have "name \<noteq> []" using n(1) uniquify_nonempty by blast
  moreover have "map (\<lambda>w. if w_name w = name then w\<lparr>port_input := inp, port_output := out\<rparr> else w) (m_wires m) = m_wires m"
    using n(2) by (intro map_idI) (auto simp: all_ids_def)
  ultimately show ?thesis using n by (simp add: make_port_wire_def add_wire_def set_wire_ports_def)
qed

section \<open>The state of the loop\<close>

text \<open>
  The module as it was, what is added to it and what is still to be done: the wires of the new ports,
  the connections of the new outputs, the flip-flops to remove and the bits to cut.
\<close>

definition new_input :: "Module \<Rightarrow> Module \<Rightarrow> SigBit \<Rightarrow> bool" where
  "new_input m0 m b \<longleftrightarrow> (\<exists>w \<in> set (m_wires m). b = WireBit (w_name w) 0 \<and> w_width w = 1 \<and> port_input w \<and> \<not> port_output w \<and>
     w_name w \<notin> set (all_ids m0))"

definition new_output :: "Module \<Rightarrow> Module \<Rightarrow> SigBit \<Rightarrow> bool" where
  "new_output m0 m b \<longleftrightarrow> (\<exists>w \<in> set (m_wires m). b = WireBit (w_name w) 0 \<and> w_width w = 1 \<and> \<not> port_input w \<and> port_output w \<and>
     w_name w \<notin> set (all_ids m0))"

definition bit_exists :: "Module \<Rightarrow> SigBit \<Rightarrow> bool" where
  "bit_exists m b = (case b of WireBit w _ \<Rightarrow> w \<in> w_name ` set (m_wires m) | ConstBit _ \<Rightarrow> True)"

text \<open>What the modules and cut points that the command works on have: cells are found by their names, connections
  join existing bits of equal number, and a cut point of a flip-flop names a bit of the module and a
  cell with both ports.\<close>

definition cut_fits :: "bool \<Rightarrow> Module \<Rightarrow> CutPoint list \<Rightarrow> bool" where
  "cut_fits use_gold m cps \<longleftrightarrow> distinct (map c_name (m_cells m)) \<and>
     list_all (\<lambda>(l, r). length l = length r \<and> list_all (bit_exists m) (l @ r)) (m_connections m) \<and>
     list_all (\<lambda>cp. is_dff_cp cp \<longrightarrow> wire_in_range use_gold m cp \<and>
       (case cut_ff (module_sigmap m) use_gold m cp of
          None \<Rightarrow> True | Some c \<Rightarrow> has_port c (bs ''Q'') \<and> has_port c (bs ''D''))) cps"

lemma join_all_range:
  assumes "\<forall>x. rp x = x \<or> x \<in> B \<and> rp x \<in> B" "\<forall>(a, b) \<in> set ps. a \<in> B \<and> b \<in> B"
  shows "join_all rp ps x = x \<or> x \<in> B \<and> join_all rp ps x \<in> B"
  using assms
proof (induction rp ps rule: join_all.induct)
  case (2 rp a b ps)
  note rp = 2(2) [rule_format]
  have ab: "rp a \<in> B" "rp b \<in> B" using rp [of a] rp [of b] 2(3) by auto
  have "join_reps rp a b y = y \<or> y \<in> B \<and> join_reps rp a b y \<in> B" for y
  proof (cases "rp y = rp a \<or> rp y = rp b")
    case True
    then have "y \<in> B" "rp y \<in> B" using ab rp [of y] by auto
    then show ?thesis using ab by (simp add: join_reps_def)
  qed (use rp [of y] in \<open>simp add: join_reps_def\<close>)
  then show ?case using 2(1,3) by simp
qed simp

lemma sigmap_exists: "cut_fits ug m cps \<Longrightarrow> bit_exists m b \<Longrightarrow> bit_exists m (module_sigmap m b)"
proof -
  assume fits: "cut_fits ug m cps" and b: "bit_exists m b"
  have "\<forall>(x, y) \<in> set (conn_bits m). bit_exists m x \<and> bit_exists m y"
    using fits unfolding cut_fits_def conn_bits_def list_all_iff by (fastforce dest: set_zip_leftD set_zip_rightD)
  then show ?thesis using join_all_range [of "\<lambda>x. x" "Collect (bit_exists m)" "conn_bits m" b] b
    unfolding module_sigmap_def by auto
qed

lemma sigmap_fresh: "cut_fits ug m cps \<Longrightarrow> \<not> bit_exists m b \<Longrightarrow> module_sigmap m b = b"
proof -
  assume fits: "cut_fits ug m cps" and b: "\<not> bit_exists m b"
  have "\<forall>(x, y) \<in> set (conn_bits m). bit_exists m x \<and> bit_exists m y"
    using fits unfolding cut_fits_def conn_bits_def list_all_iff by (fastforce dest: set_zip_leftD set_zip_rightD)
  then show ?thesis using join_all_range [of "\<lambda>x. x" "Collect (bit_exists m)" "conn_bits m" b] b
    unfolding module_sigmap_def by auto
qed

lemma fresh_not_exists: "w \<notin> set (all_ids m) \<Longrightarrow> \<not> bit_exists m (WireBit w i)"
  by (auto simp: bit_exists_def all_ids_def)

lemma q_bit_exists: "wire_in_range ug m cp \<Longrightarrow> bit_exists m (q_bit ug cp)"
  by (auto simp: wire_in_range_def bit_exists_def q_bit_def module_wire_def split: option.splits dest!: find_SomeD intro: rev_image_eqI)

text \<open>The cut points that are cut, and the bit of \<open>D\<close> that becomes an output.\<close>

definition sel_cuts :: "bool \<Rightarrow> Module \<Rightarrow> CutPoint list \<Rightarrow> CutPoint set" where
  "sel_cuts ug m cps = {cp \<in> set cps. is_dff_cp cp \<and> cut_ff (module_sigmap m) ug m cp \<noteq> None}"

definition cut_bits :: "bool \<Rightarrow> Module \<Rightarrow> CutPoint list \<Rightarrow> SigBit set" where
  "cut_bits ug m cps = (\<lambda>cp. module_sigmap m (q_bit ug cp)) ` sel_cuts ug m cps"

definition d_bit :: "bool \<Rightarrow> Module \<Rightarrow> CutPoint \<Rightarrow> SigBit option" where
  "d_bit ug m cp =
     (case cut_ff (module_sigmap m) ug m cp of
        None \<Rightarrow> None
      | Some c \<Rightarrow> map_option (\<lambda>i. module_sigmap m (port_bits c (bs ''D'') ! i))
          (d_index (map (module_sigmap m) (port_bits c (bs ''Q''))) (length (port_bits c (bs ''D'')))
            (module_sigmap m (q_bit ug cp)) (cp_index ug cp)))"

definition cut_inv :: "bool \<Rightarrow> Module \<Rightarrow> CutPoint list \<Rightarrow> cut_state \<Rightarrow> bool" where
  "cut_inv ug m cps st \<longleftrightarrow>
     (\<exists>new outs. cs_mod st = m\<lparr>m_wires := m_wires m @ new, m_connections := m_connections m @ outs\<rparr> \<and>
        (\<forall>(l, r) \<in> set outs. \<exists>b d. l = [b] \<and> r = [d] \<and> new_output m (cs_mod st) b) \<and>
        (\<forall>cp \<in> sel_cuts ug m cps. \<forall>d. d_bit ug m cp = Some d \<longrightarrow> (\<exists>p. new_output m (cs_mod st) p \<and> ([p], [d]) \<in> set outs))) \<and>
     distinct (cut_cells st) \<and>
     set (cut_cells st) = {c_name c |c cp. cp \<in> sel_cuts ug m cps \<and> cut_ff (module_sigmap m) ug m cp = Some c} \<and>
     set (cut_q_bits st) = cut_bits ug m cps \<and>
     (\<forall>(l, r) \<in> set (pending_q_conns st). \<exists>cp \<in> sel_cuts ug m cps. \<exists>p. new_input m (cs_mod st) p \<and> r = [p] \<and>
        (l = [q_bit ug cp] \<or> l = [module_sigmap m (q_bit ug cp)])) \<and>
     (\<forall>cp \<in> sel_cuts ug m cps. \<exists>p. new_input m (cs_mod st) p \<and> ([q_bit ug cp], [p]) \<in> set (pending_q_conns st) \<and>
        ([module_sigmap m (q_bit ug cp)], [p]) \<in> set (pending_q_conns st))"

lemma new_port_mono:
  "new_input m0 m b \<Longrightarrow> set (m_wires m) \<subseteq> set (m_wires m') \<Longrightarrow> new_input m0 m' b"
  "new_output m0 m b \<Longrightarrow> set (m_wires m) \<subseteq> set (m_wires m') \<Longrightarrow> new_output m0 m' b"
  unfolding new_input_def new_output_def by blast+

lemma sel_cuts_snoc:
  "sel_cuts ug m (cps @ [cp]) = sel_cuts ug m cps \<union> (if is_dff_cp cp \<and> cut_ff (module_sigmap m) ug m cp \<noteq> None then {cp} else {})"
  by (auto simp: sel_cuts_def)

lemma cut_inv_skip:
  assumes "cut_inv ug m cps st" "\<not> (is_dff_cp cp \<and> cut_ff (module_sigmap m) ug m cp \<noteq> None)"
  shows "cut_inv ug m (cps @ [cp]) st"
proof -
  have "sel_cuts ug m (cps @ [cp]) = sel_cuts ug m cps" using assms(2) by (auto simp: sel_cuts_snoc)
  then show ?thesis using assms(1) by (simp add: cut_inv_def cut_bits_def)
qed

lemma cut_inv_add:
  assumes inv: "cut_inv ug m cps st" and st: "cs_mod st = m\<lparr>m_wires := m_wires m @ new, m_connections := m_connections m @ outs\<rparr>"
    and outs: "\<forall>(l, r) \<in> set outs. \<exists>b d. l = [b] \<and> r = [d] \<and> new_output m (cs_mod st) b"
      "\<forall>cp \<in> sel_cuts ug m cps. \<forall>d. d_bit ug m cp = Some d \<longrightarrow> (\<exists>p. new_output m (cs_mod st) p \<and> ([p], [d]) \<in> set outs)"
    and cp: "is_dff_cp cp" "cut_ff (module_sigmap m) ug m cp = Some c"
    and m': "m' = m\<lparr>m_wires := m_wires m @ new @ ws, m_connections := m_connections m @ outs @ os\<rparr>"
    and p: "new_input m m' p" "module_sigmap m (q_bit ug cp) \<noteq> p"
    and os: "\<forall>(l, r) \<in> set os. \<exists>b d. l = [b] \<and> r = [d] \<and> new_output m m' b"
      "\<forall>d. d_bit ug m cp = Some d \<longrightarrow> (\<exists>b. new_output m m' b \<and> ([b], [d]) \<in> set os)"
  shows "cut_inv ug m (cps @ [cp]) (st\<lparr>cs_mod := m', cut_q_bits := op_insert (cut_q_bits st) (module_sigmap m (q_bit ug cp)),
      cut_cells := op_insert (cut_cells st) (c_name c),
      pending_q_conns := pending_q_conns st @ [([q_bit ug cp], [p]), ([module_sigmap m (q_bit ug cp)], [p])]\<rparr>)"
proof -
  let ?q = "q_bit ug cp" and ?qm = "module_sigmap m (q_bit ug cp)"
  have sel: "sel_cuts ug m (cps @ [cp]) = insert cp (sel_cuts ug m cps)" using cp by (simp add: sel_cuts_snoc)
  have mono: "new_input m (cs_mod st) b \<Longrightarrow> new_input m m' b" "new_output m (cs_mod st) b \<Longrightarrow> new_output m m' b" for b
    using new_port_mono [of m "cs_mod st" b m'] unfolding st m' by auto
  have cells: "set (op_insert (cut_cells st) (c_name c)) =
      {c_name c |c cp'. cp' \<in> insert cp (sel_cuts ug m cps) \<and> cut_ff (module_sigmap m) ug m cp' = Some c}"
    using inv cp(2) unfolding cut_inv_def op_insert_set by auto
  have bits: "set (op_insert (cut_q_bits st) ?qm) = cut_bits ug m (cps @ [cp])"
    using inv unfolding cut_inv_def cut_bits_def sel by auto
  have outs': "\<forall>(l, r) \<in> set (outs @ os). \<exists>b d. l = [b] \<and> r = [d] \<and> new_output m m' b"
    using outs(1) os(1) mono(2) by fastforce
  have dbits: "\<forall>cp' \<in> insert cp (sel_cuts ug m cps). \<forall>d. d_bit ug m cp' = Some d \<longrightarrow>
      (\<exists>b. new_output m m' b \<and> ([b], [d]) \<in> set (outs @ os))"
    using outs(2) os(2) mono(2) unfolding set_append by blast
  have pend: "\<forall>(l, r) \<in> set (pending_q_conns st @ [([?q], [p]), ([?qm], [p])]). \<exists>cp' \<in> insert cp (sel_cuts ug m cps). \<exists>p'.
      new_input m m' p' \<and> r = [p'] \<and> (l = [q_bit ug cp'] \<or> l = [module_sigmap m (q_bit ug cp')])"
    using inv p(1) mono(1) unfolding cut_inv_def by fastforce
  have each: "\<forall>cp' \<in> insert cp (sel_cuts ug m cps). \<exists>p'. new_input m m' p' \<and>
      ([q_bit ug cp'], [p']) \<in> set (pending_q_conns st @ [([?q], [p]), ([?qm], [p])]) \<and>
      ([module_sigmap m (q_bit ug cp')], [p']) \<in> set (pending_q_conns st @ [([?q], [p]), ([?qm], [p])])"
  proof
    fix cp' assume cp': "cp' \<in> insert cp (sel_cuts ug m cps)"
    have old: "\<forall>cp \<in> sel_cuts ug m cps. \<exists>p. new_input m (cs_mod st) p \<and> ([q_bit ug cp], [p]) \<in> set (pending_q_conns st) \<and>
        ([module_sigmap m (q_bit ug cp)], [p]) \<in> set (pending_q_conns st)"
      using inv unfolding cut_inv_def by (elim conjE)
    show "\<exists>p'. new_input m m' p' \<and> ([q_bit ug cp'], [p']) \<in> set (pending_q_conns st @ [([?q], [p]), ([?qm], [p])]) \<and>
        ([module_sigmap m (q_bit ug cp')], [p']) \<in> set (pending_q_conns st @ [([?q], [p]), ([?qm], [p])])"
    proof (cases "cp' = cp")
      case False
      then obtain p' where "new_input m (cs_mod st) p'" "([q_bit ug cp'], [p']) \<in> set (pending_q_conns st)"
          "([module_sigmap m (q_bit ug cp')], [p']) \<in> set (pending_q_conns st)"
        using cp' old by blast
      then show ?thesis using mono(1) by (intro exI [of _ p']) simp
    qed (use p(1) in \<open>auto intro: exI [of _ p]\<close>)
  qed
  have dist: "distinct (op_insert (cut_cells st) (c_name c))" using inv by (simp add: cut_inv_def)
  have mod: "m' = m\<lparr>m_wires := m_wires m @ new @ ws, m_connections := m_connections m @ outs @ os\<rparr>" using m' by simp
  define s where "s = st\<lparr>cs_mod := m', cut_q_bits := op_insert (cut_q_bits st) ?qm,
      cut_cells := op_insert (cut_cells st) (c_name c),
      pending_q_conns := pending_q_conns st @ [([?q], [p]), ([?qm], [p])]\<rparr>"
  have s: "cs_mod s = m'" "cut_q_bits s = op_insert (cut_q_bits st) ?qm" "cut_cells s = op_insert (cut_cells st) (c_name c)"
    "pending_q_conns s = pending_q_conns st @ [([?q], [p]), ([?qm], [p])]"
    by (simp_all add: s_def)
  have "cut_inv ug m (cps @ [cp]) s"
    unfolding cut_inv_def sel s using mod outs' dbits dist cells bits pend each by blast
  then show ?thesis by (simp add: s_def)
qed

lemma module_wire_append: "module_wire m name = Some w \<Longrightarrow> module_wire (m\<lparr>m_wires := m_wires m @ ws, m_connections := cs\<rparr>) name = Some w"
proof -
  have "find P xs = Some w \<Longrightarrow> find P (xs @ ws) = Some w" for P and xs :: "Wire list" by (induction xs) auto
  then show "module_wire m name = Some w \<Longrightarrow> ?thesis" by (simp add: module_wire_def)
qed

lemma wire_in_range_append:
  "wire_in_range ug m cp \<Longrightarrow> wire_in_range ug (m\<lparr>m_wires := m_wires m @ ws, m_connections := cs\<rparr>) cp"
  by (cases "module_wire m (cp_wire ug cp)") (auto simp: wire_in_range_def module_wire_append)

lemma cut_ff_cells: "m_cells m' = m_cells m \<Longrightarrow> cut_ff sm ug m' cp = cut_ff sm ug m cp"
proof -
  assume eq: "m_cells m' = m_cells m"
  have "module_cell m' = module_cell m" by (simp add: fun_eq_iff module_cell_def eq)
  moreover have "find_ff_by_qbit sm m' = find_ff_by_qbit sm m" by (simp add: fun_eq_iff find_ff_by_qbit_def eq)
  ultimately show ?thesis unfolding cut_ff_def by (simp split: option.split)
qed

lemma get_port_bits: "has_port c port \<Longrightarrow> get_port c port = Inr (port_bits c port)"
  by (auto simp: has_port_def get_port_def port_bits_def od_count_get split: option.splits)

lemma connect_bit: "connect m [WireBit w i] [b] = Inr (m\<lparr>m_connections := m_connections m @ [([WireBit w i], [b])]\<rparr>)"
  by (simp add: connect_def)

lemma cut_step_ok:
  assumes fits: "cut_fits ug m (cps @ cp # rest)" and inv: "cut_inv ug m cps st"
  shows "\<exists>st'. cut_step (module_sigmap m) ug cp st = Inr st' \<and> cut_inv ug m (cps @ [cp]) st'"
proof -
  let ?sm = "module_sigmap m" and ?q = "q_bit ug cp"
  obtain new outs where st: "cs_mod st = m\<lparr>m_wires := m_wires m @ new, m_connections := m_connections m @ outs\<rparr>"
    and outs: "\<forall>(l, r) \<in> set outs. \<exists>b d. l = [b] \<and> r = [d] \<and> new_output m (cs_mod st) b"
      "\<forall>cp \<in> sel_cuts ug m cps. \<forall>d. d_bit ug m cp = Some d \<longrightarrow> (\<exists>p. new_output m (cs_mod st) p \<and> ([p], [d]) \<in> set outs)"
    using inv unfolding cut_inv_def by (elim conjE exE) (rule that)
  have ff: "cut_ff ?sm ug (cs_mod st) cp = cut_ff ?sm ug m cp" by (rule cut_ff_cells) (simp add: st)
  show ?thesis
  proof (cases "is_dff_cp cp \<and> cut_ff ?sm ug m cp \<noteq> None")
    case False
    then have "cut_step ?sm ug cp st = Inr st" by (auto simp: cut_step_def ff)
    then show ?thesis using cut_inv_skip [OF inv False] by blast
  next
    case True
    then obtain c where c: "is_dff_cp cp" "cut_ff ?sm ug m cp = Some c" by auto
    have range: "wire_in_range ug m cp" and ports: "has_port c (bs ''Q'')" "has_port c (bs ''D'')"
      using fits c by (auto simp: cut_fits_def)
    have range': "wire_in_range ug (cs_mod st) cp" unfolding st using range by (rule wire_in_range_append)
    have ids: "set (all_ids m) \<subseteq> set (all_ids (cs_mod st))" by (auto simp: st all_ids_def)
    obtain m1 pi where pi: "make_port_wire (cs_mod st) (cp_name cp) ''_pi'' True False = Inr (m1, pi)" "pi \<notin> set (all_ids (cs_mod st))"
        "m1 = (cs_mod st)\<lparr>m_wires := m_wires (cs_mod st) @ [\<lparr>w_name = pi, w_width = 1, port_id = 0, port_input = True, port_output = False\<rparr>]\<rparr>"
      using make_port_wire_ok [of "''_pi''" "cs_mod st" "cp_name cp" True False] by auto
    have "bit_exists m (?sm ?q)" using sigmap_exists [OF fits q_bit_exists [OF range]] .
    moreover have pi': "pi \<notin> set (all_ids m)" using pi(2) ids by (meson subsetD)
    ultimately have fresh: "?sm ?q \<noteq> WireBit pi 0" using fresh_not_exists [of pi m 0] by (intro notI) simp
    let ?s = "\<lambda>m'. st\<lparr>cs_mod := m', cut_q_bits := op_insert (cut_q_bits st) (?sm ?q), cut_cells := op_insert (cut_cells st) (c_name c),
        pending_q_conns := pending_q_conns st @ [([?q], [WireBit pi 0]), ([?sm ?q], [WireBit pi 0])]\<rparr>"
    let ?i = "d_index (map ?sm (port_bits c (bs ''Q''))) (length (port_bits c (bs ''D''))) (?sm ?q) (cp_index ug cp)"
    show ?thesis
    proof (cases ?i)
      case None
      have run: "cut_step ?sm ug cp st = Inr (?s m1)"
        using c range' ports fresh None by (simp add: cut_step_def ff pi(1) Let_def get_port_bits)
      have "cut_inv ug m (cps @ [cp]) (?s m1)"
      proof (rule cut_inv_add [where os = "[]", OF inv st outs c _ _ fresh])
        show "m1 = m\<lparr>m_wires := m_wires m @ new @ [\<lparr>w_name = pi, w_width = 1, port_id = 0, port_input = True, port_output = False\<rparr>],
            m_connections := m_connections m @ outs @ []\<rparr>" by (simp add: pi(3) st)
        show "new_input m m1 (WireBit pi 0)" using pi' by (simp add: new_input_def pi(3))
      qed (simp_all add: d_bit_def c(2) None)
      with run show ?thesis by blast
    next
      case (Some i)
      let ?d = "?sm (port_bits c (bs ''D'') ! i)"
      obtain m2 po where po: "make_port_wire m1 (cp_name cp) ''_po'' False True = Inr (m2, po)" "po \<notin> set (all_ids m1)"
          "m2 = m1\<lparr>m_wires := m_wires m1 @ [\<lparr>w_name = po, w_width = 1, port_id = 0, port_input = False, port_output = True\<rparr>]\<rparr>"
        using make_port_wire_ok [of "''_po''" m1 "cp_name cp" False True] by auto
      define m3 where "m3 = m2\<lparr>m_connections := m_connections m2 @ [([WireBit po 0], [?d])]\<rparr>"
      have ids1: "set (all_ids m) \<subseteq> set (all_ids m1)" using ids by (auto simp: pi(3) all_ids_def)
      have run: "cut_step ?sm ug cp st = Inr (?s m3)"
        using c range' ports fresh Some by (simp add: cut_step_def ff pi(1) Let_def get_port_bits po(1) connect_bit m3_def)
      have "po \<notin> set (all_ids m)" using po(2) ids1 by (meson subsetD)
      then have out: "new_output m m3 (WireBit po 0)" by (simp add: new_output_def m3_def po(3))
      have "cut_inv ug m (cps @ [cp]) (?s m3)"
      proof (rule cut_inv_add [where os = "[([WireBit po 0], [?d])]", OF inv st outs c _ _ fresh])
        show "m3 = m\<lparr>m_wires := m_wires m @ new @ [\<lparr>w_name = pi, w_width = 1, port_id = 0, port_input = True, port_output = False\<rparr>,
            \<lparr>w_name = po, w_width = 1, port_id = 0, port_input = False, port_output = True\<rparr>],
            m_connections := m_connections m @ outs @ [([WireBit po 0], [?d])]\<rparr>" by (simp add: m3_def pi(3) po(3) st)
        show "new_input m m3 (WireBit pi 0)" using pi' by (simp add: new_input_def pi(3) po(3) m3_def)
      qed (use out in \<open>auto simp: d_bit_def c(2) Some\<close>)
      with run show ?thesis by blast
    qed
  qed
qed

lemma cut_loop_ok:
  assumes "cut_fits ug m (cps @ xs)" "cut_inv ug m cps st"
  shows "\<exists>st'. rfold (cut_step (module_sigmap m) ug) xs st = Inr st' \<and> cut_inv ug m (cps @ xs) st'"
  using assms
proof (induction xs arbitrary: cps st)
  case (Cons x xs)
  obtain st1 where "cut_step (module_sigmap m) ug x st = Inr st1" "cut_inv ug m (cps @ [x]) st1"
    using cut_step_ok [OF Cons.prems] by blast
  then show ?case using Cons.IH [of "cps @ [x]" st1] Cons.prems(1) by simp
qed simp

section \<open>The connections and cells that remain\<close>

abbreviation bits_of :: "SigSig list \<Rightarrow> (SigBit \<times> SigBit) list" where
  "bits_of conns \<equiv> concat (map (\<lambda>(l, r). zip l r) conns)"

lemma keep_bits_ok: "length ls = length rs \<Longrightarrow> keep_bits sm cutq ls rs = Inr (filter (\<lambda>(l, _). sm l \<notin> set cutq) (zip ls rs))"
  by (induction ls rs rule: list_induct2) auto

lemma drop_cut_conns_ok:
  assumes "\<forall>(l, r) \<in> set conns. length l = length r"
  shows "\<exists>cs. drop_cut_conns sm cutq conns = Inr cs \<and> bits_of cs = filter (\<lambda>(l, _). sm l \<notin> set cutq) (bits_of conns)"
proof -
  let ?f = "\<lambda>(lhs, rhs) acc. rmap (\<lambda>ps. if ps = [] then acc else acc @ [(map fst ps, map snd ps)]) (keep_bits sm cutq lhs rhs)"
  have "\<exists>cs. rfold ?f conns acc = Inr cs \<and> bits_of cs = bits_of acc @ filter (\<lambda>(l, _). sm l \<notin> set cutq) (bits_of conns)" for acc
    using assms
  proof (induction conns arbitrary: acc)
    case (Cons c conns)
    obtain l r where c: "c = (l, r)" by fastforce
    let ?ps = "filter (\<lambda>(l, _). sm l \<notin> set cutq) (zip l r)"
    let ?acc = "if ?ps = [] then acc else acc @ [(map fst ?ps, map snd ?ps)]"
    have "?f c acc = Inr ?acc" using Cons.prems by (simp add: c keep_bits_ok)
    moreover have "bits_of ?acc = bits_of acc @ ?ps" by (simp add: zip_map_fst_snd)
    ultimately show ?case using Cons.IH [of ?acc] Cons.prems by (simp add: c)
  qed simp
  from this [of "[]"] show ?thesis by (simp add: drop_cut_conns_def)
qed

lemma connect_pending:
  assumes "\<forall>(l, r) \<in> set ps. \<exists>b p. l = [b] \<and> r = [p]"
  shows "rfold (\<lambda>(lhs, rhs) m. connect m lhs rhs) ps m =
    Inr (m\<lparr>m_connections := m_connections m @ filter (\<lambda>(l, _). list_all is_wire l) ps\<rparr>)"
  using assms
proof (induction ps arbitrary: m)
  case (Cons c ps)
  obtain b p where c: "c = ([b], [p])" using Cons.prems by auto
  then show ?case using Cons by (cases "is_wire b") (simp_all add: connect_def)
qed simp

lemma remove_cells_ok:
  assumes "distinct (map c_name (m_cells m))" "distinct names" "set names \<subseteq> c_name ` set (m_cells m)"
  shows "\<exists>cs. rfold (\<lambda>c m. remove_cell m c) names m = Inr (m\<lparr>m_cells := cs\<rparr>) \<and> set cs = {c \<in> set (m_cells m). c_name c \<notin> set names}"
  using assms
proof (induction names arbitrary: m)
  case (Cons n names)
  let ?m = "m\<lparr>m_cells := erase_key c_name n (m_cells m)\<rparr>"
  note e = erase_key_ok [OF Cons.prems(1), of n]
  have "module_cell m n \<noteq> None" using Cons.prems(3) by (auto simp: module_cell_def find_none)
  then have one: "remove_cell m n = Inr ?m" by (simp add: remove_cell_def)
  have "\<exists>cs. rfold (\<lambda>c m. remove_cell m c) names ?m = Inr (?m\<lparr>m_cells := cs\<rparr>) \<and> set cs = {c \<in> set (m_cells ?m). c_name c \<notin> set names}"
  proof (rule Cons.IH)
    show "set names \<subseteq> c_name ` set (m_cells ?m)"
    proof
      fix x assume x: "x \<in> set names"
      then obtain c where "c \<in> set (m_cells m)" "x = c_name c" using Cons.prems(3) by auto
      then show "x \<in> c_name ` set (m_cells ?m)" using Cons.prems(2) x e(1) by auto
    qed
  qed (use Cons.prems e in simp_all)
  then show ?case using one e(1) by auto
next
  case Nil
  show ?case by (rule exI [of _ "m_cells m"]) simp
qed

lemma fixup_ports_keeps [simp]:
  "m_cells (fixup_ports idx m) = m_cells m" "m_connections (fixup_ports idx m) = m_connections m"
  by (simp_all add: fixup_ports_def Let_def)

lemma fixup_ports_new:
  "new_input m0 m b \<Longrightarrow> new_input m0 (fixup_ports idx m) b \<and> (\<exists>w. b = WireBit w 0 \<and> w \<in> set (m_ports (fixup_ports idx m)))"
  "new_output m0 m b \<Longrightarrow> new_output m0 (fixup_ports idx m) b \<and> (\<exists>w. b = WireBit w 0 \<and> w \<in> set (m_ports (fixup_ports idx m)))"
  unfolding new_input_def new_output_def fixup_ports_def Let_def by (auto simp: sort_by_set)

section \<open>Guarantees\<close>

text \<open>The module after the cut: \<open>sel_cuts\<close> are the cut points that were cut and \<open>cut_bits\<close> the classes of bits they cut.\<close>

definition cut_result :: "bool \<Rightarrow> Module \<Rightarrow> CutPoint list \<Rightarrow> Module \<Rightarrow> bool" where
  "cut_result ug m cps m' \<longleftrightarrow>
     set (m_cells m') = {c \<in> set (m_cells m). \<forall>cp \<in> sel_cuts ug m cps. cut_ff (module_sigmap m) ug m cp \<noteq> Some c} \<and>
     (\<forall>cp \<in> sel_cuts ug m cps. \<exists>w. new_input m m' (WireBit w 0) \<and> w \<in> set (m_ports m') \<and>
        (q_bit ug cp, WireBit w 0) \<in> set (conn_bits m')) \<and>
     (\<forall>cp \<in> sel_cuts ug m cps. \<forall>d. d_bit ug m cp = Some d \<longrightarrow>
        (\<exists>w. new_output m m' (WireBit w 0) \<and> w \<in> set (m_ports m') \<and> (WireBit w 0, d) \<in> set (conn_bits m'))) \<and>
     (\<forall>(l, r) \<in> set (conn_bits m). module_sigmap m l \<notin> cut_bits ug m cps \<longrightarrow> (l, r) \<in> set (conn_bits m')) \<and>
     (\<forall>(l, r) \<in> set (conn_bits m'). module_sigmap m l \<in> cut_bits ug m cps \<longrightarrow> new_input m m' r \<and>
        (\<exists>cp \<in> sel_cuts ug m cps. l = q_bit ug cp \<or> l = module_sigmap m (q_bit ug cp)))"

lemma cut_cells_gone:
  assumes "distinct (map c_name cs)" "\<And>cp c. cp \<in> S \<Longrightarrow> f cp = Some c \<Longrightarrow> c \<in> set cs"
  shows "{c \<in> set cs. c_name c \<notin> {c_name c |c cp. cp \<in> S \<and> f cp = Some c}} = {c \<in> set cs. \<forall>cp \<in> S. f cp \<noteq> Some c}"
proof -
  have inj: "inj_on c_name (set cs)" using assms(1) by (simp add: distinct_map)
  have "c_name c \<in> {c_name c |c cp. cp \<in> S \<and> f cp = Some c} \<longleftrightarrow> (\<exists>cp \<in> S. f cp = Some c)" if "c \<in> set cs" for c
    using assms(2) inj_onD [OF inj _ that] by blast
  then show ?thesis by blast
qed

lemma cut_ff_cell: "cut_ff sm ug m cp = Some c \<Longrightarrow> c \<in> set (m_cells m)"
  by (auto simp: cut_ff_def find_ff_by_qbit_def module_cell_def split: option.splits if_splits bind_splits dest!: find_SomeD)

lemma cut_finish:
  assumes fits: "cut_fits ug m cps" and inv: "cut_inv ug m cps st"
    and drop: "bits_of cs = filter (\<lambda>(l, _). module_sigmap m l \<notin> set (cut_q_bits st)) (conn_bits (cs_mod st))"
    and cells: "set cells = {c \<in> set (m_cells m). c_name c \<notin> set (cut_cells st)}"
    and m': "m' = fixup_ports idx ((cs_mod st)\<lparr>m_connections := cs @ filter (\<lambda>(l, _). list_all is_wire l) (pending_q_conns st), m_cells := cells\<rparr>)"
  shows "cut_result ug m cps m'"
proof -
  let ?sm = "module_sigmap m"
  obtain new outs where st: "cs_mod st = m\<lparr>m_wires := m_wires m @ new, m_connections := m_connections m @ outs\<rparr>"
    and outs: "\<forall>(l, r) \<in> set outs. \<exists>b d. l = [b] \<and> r = [d] \<and> new_output m (cs_mod st) b"
      "\<forall>cp \<in> sel_cuts ug m cps. \<forall>d. d_bit ug m cp = Some d \<longrightarrow> (\<exists>p. new_output m (cs_mod st) p \<and> ([p], [d]) \<in> set outs)"
    using inv unfolding cut_inv_def by (elim conjE exE) (rule that)
  note inv' = inv [unfolded cut_inv_def, THEN conjunct2]
  have bits: "conn_bits m' = bits_of cs @ bits_of (filter (\<lambda>(l, _). list_all is_wire l) (pending_q_conns st))"
    by (simp add: conn_bits_def m')
  have ports: "new_input m (cs_mod st) b \<Longrightarrow> new_input m m' b \<and> (\<exists>w. b = WireBit w 0 \<and> w \<in> set (m_ports m'))"
    "new_output m (cs_mod st) b \<Longrightarrow> new_output m m' b \<and> (\<exists>w. b = WireBit w 0 \<and> w \<in> set (m_ports m'))" for b
    unfolding m' by (rule fixup_ports_new; simp add: new_input_def new_output_def)+
  have cutq: "set (cut_q_bits st) = cut_bits ug m cps" using inv' by (elim conjE)
  have kept: "(l, r) \<in> set (conn_bits m')" if "(l, r) \<in> set (bits_of outs) \<union> set (conn_bits m)" "?sm l \<notin> cut_bits ug m cps" for l r
  proof -
    have "conn_bits (cs_mod st) = conn_bits m @ bits_of outs" by (simp add: conn_bits_def st)
    then show ?thesis using that unfolding bits drop cutq by auto
  qed
  have "m_cells m' = cells" by (simp add: m')
  moreover have "set (cut_cells st) = {c_name c |c cp. cp \<in> sel_cuts ug m cps \<and> cut_ff ?sm ug m cp = Some c}" using inv' by (elim conjE)
  moreover have "distinct (map c_name (m_cells m))" using fits by (simp add: cut_fits_def)
  ultimately have one: "set (m_cells m') = {c \<in> set (m_cells m). \<forall>cp \<in> sel_cuts ug m cps. cut_ff ?sm ug m cp \<noteq> Some c}"
    using cut_cells_gone [of "m_cells m" "sel_cuts ug m cps" "cut_ff ?sm ug m"] cut_ff_cell cells by simp
  have two: "\<exists>w. new_input m m' (WireBit w 0) \<and> w \<in> set (m_ports m') \<and> (q_bit ug cp, WireBit w 0) \<in> set (conn_bits m')"
    if cp: "cp \<in> sel_cuts ug m cps" for cp
  proof -
    obtain p where p: "new_input m (cs_mod st) p" "([q_bit ug cp], [p]) \<in> set (pending_q_conns st)" using inv' cp by blast
    then have "(q_bit ug cp, p) \<in> set (conn_bits m')" unfolding bits by (force simp: q_bit_def)
    then show ?thesis using ports(1) [OF p(1)] by auto
  qed
  have three: "\<exists>w. new_output m m' (WireBit w 0) \<and> w \<in> set (m_ports m') \<and> (WireBit w 0, d) \<in> set (conn_bits m')"
    if cp: "cp \<in> sel_cuts ug m cps" "d_bit ug m cp = Some d" for cp d
  proof -
    obtain p where p: "new_output m (cs_mod st) p" "([p], [d]) \<in> set outs" using outs(2) cp by blast
    have fresh: "\<not> bit_exists m p" using p(1) fresh_not_exists by (auto simp: new_output_def)
    have "bit_exists m b" if "b \<in> cut_bits ug m cps" for b
      using that fits sigmap_exists [OF fits] q_bit_exists by (auto simp: cut_bits_def sel_cuts_def cut_fits_def list_all_iff)
    then have "?sm p \<notin> cut_bits ug m cps" using fresh sigmap_fresh [OF fits fresh] by auto
    moreover have "(p, d) \<in> set (bits_of outs)" using p(2) by force
    ultimately have "(p, d) \<in> set (conn_bits m')" by (intro kept) simp_all
    then show ?thesis using ports(2) [OF p(1)] by auto
  qed
  have five: "new_input m m' r \<and> (\<exists>cp \<in> sel_cuts ug m cps. l = q_bit ug cp \<or> l = ?sm (q_bit ug cp))"
    if lr: "(l, r) \<in> set (conn_bits m')" "?sm l \<in> cut_bits ug m cps" for l r
  proof -
    obtain ls rs where pend: "(ls, rs) \<in> set (pending_q_conns st)" "(l, r) \<in> set (zip ls rs)"
      using lr unfolding bits drop cutq by auto
    have "\<forall>(l, r) \<in> set (pending_q_conns st). \<exists>cp \<in> sel_cuts ug m cps. \<exists>p. new_input m (cs_mod st) p \<and> r = [p] \<and>
        (l = [q_bit ug cp] \<or> l = [?sm (q_bit ug cp)])"
      using inv' by (elim conjE)
    from bspec [OF this pend(1)] obtain cp p where
      "cp \<in> sel_cuts ug m cps" "new_input m (cs_mod st) p" "rs = [p]" "ls = [q_bit ug cp] \<or> ls = [?sm (q_bit ug cp)]"
      by auto
    then show ?thesis using pend(2) ports(1) [of p] by auto
  qed
  show ?thesis unfolding cut_result_def using one two three kept five by blast
qed

text \<open>C6: Cutting a module at its matched flip-flops always succeeds. Exactly the flip-flops of the cut points are
  removed; the bit each cut point names is driven by a new input port and the data bit of its
  flip-flop by way of a new output port; every connection to a bit that is not cut stays; and nothing
  but new inputs drives a cut bit, and of its aliases only the named bit and the representative.\<close>

theorem cutpoints_become_ports:
  assumes "cut_fits use_gold m cps"
  shows "\<exists>m'. cutpoints_to_pi_po idx m cps use_gold = Inr m' \<and> cut_result use_gold m cps m'"
proof -
  let ?sm = "module_sigmap m"
  let ?init = "\<lparr>cs_mod = m, cut_cells = [], cut_q_bits = [], pending_q_conns = []\<rparr>"
  have "cut_inv use_gold m [] ?init"
    by (simp add: cut_inv_def sel_cuts_def cut_bits_def) (rule exI [of _ "[]"], simp, rule exI [of _ "[]"], simp)
  then obtain st where loop: "rfold (cut_step ?sm use_gold) cps ?init = Inr st" and inv: "cut_inv use_gold m cps st"
    using cut_loop_ok [of use_gold m "[]" cps ?init] assms by auto
  obtain new outs where st: "cs_mod st = m\<lparr>m_wires := m_wires m @ new, m_connections := m_connections m @ outs\<rparr>"
    and outs: "\<forall>(l, r) \<in> set outs. \<exists>b d. l = [b] \<and> r = [d] \<and> new_output m (cs_mod st) b"
    using inv unfolding cut_inv_def by (elim conjE exE) (rule that)
  have len: "\<forall>(l, r) \<in> set (m_connections (cs_mod st)). length l = length r"
    using assms outs by (fastforce simp: st cut_fits_def list_all_iff)
  obtain cs where cs: "(if cut_q_bits st = [] then Inr (cs_mod st)
        else rmap (\<lambda>conns. (cs_mod st)\<lparr>m_connections := conns\<rparr>) (drop_cut_conns ?sm (cut_q_bits st) (m_connections (cs_mod st))))
      = Inr ((cs_mod st)\<lparr>m_connections := cs\<rparr>)"
    "bits_of cs = filter (\<lambda>(l, _). ?sm l \<notin> set (cut_q_bits st)) (conn_bits (cs_mod st))"
  proof (cases "cut_q_bits st = []")
    case True
    then show ?thesis by (intro that [of "m_connections (cs_mod st)"]) (simp_all add: conn_bits_def)
  next
    case False
    obtain cs where "drop_cut_conns ?sm (cut_q_bits st) (m_connections (cs_mod st)) = Inr cs"
        "bits_of cs = filter (\<lambda>(l, _). ?sm l \<notin> set (cut_q_bits st)) (bits_of (m_connections (cs_mod st)))"
      using drop_cut_conns_ok [OF len] by blast
    then show ?thesis using False by (intro that [of cs]) (simp_all add: conn_bits_def)
  qed
  have "\<forall>(l, r) \<in> set (pending_q_conns st). \<exists>b p. l = [b] \<and> r = [p]" using inv unfolding cut_inv_def by fast
  note pend = connect_pending [OF this]
  let ?m = "(cs_mod st)\<lparr>m_connections := cs @ filter (\<lambda>(l, _). list_all is_wire l) (pending_q_conns st)\<rparr>"
  have "distinct (map c_name (m_cells ?m))" using assms by (simp add: cut_fits_def st)
  moreover have "distinct (iterate (cut_cells st))" using inv by (simp add: cut_inv_def)
  moreover have "set (iterate (cut_cells st)) \<subseteq> c_name ` set (m_cells ?m)"
    using inv cut_ff_cell by (auto simp: cut_inv_def st)
  ultimately obtain cells where cells: "rfold (\<lambda>c m. remove_cell m c) (iterate (cut_cells st)) ?m = Inr (?m\<lparr>m_cells := cells\<rparr>)"
      "set cells = {c \<in> set (m_cells ?m). c_name c \<notin> set (iterate (cut_cells st))}"
    using remove_cells_ok [of ?m "iterate (cut_cells st)"] by blast
  have "cutpoints_to_pi_po idx m cps use_gold = Inr (fixup_ports idx (?m\<lparr>m_cells := cells\<rparr>))"
    unfolding cutpoints_to_pi_po_def Let_def loop rbind_simps cs(1) pend using cells(1) by simp
  moreover have "cut_result use_gold m cps (fixup_ports idx (?m\<lparr>m_cells := cells\<rparr>))"
    using cells(2) by (intro cut_finish [OF assms inv cs(2), of cells]) (simp_all add: st)
  ultimately show ?thesis by blast
qed

text \<open>The cut points that are used for a pair are some of the given flip-flop cut points in their order. Of the cut
  points with one key, which is the pair of flip-flop cells when both are known and else the pair of
  signals, exactly one is kept, and one of an inner flip-flop before one of an output.\<close>

lemma local_cutpoints_distinct:
  assumes "all = filter is_dff_cp cps @ (case extra of
      Some cp \<Rightarrow> if is_dff_cp cp \<and> (\<forall>c \<in> set (filter is_dff_cp cps). cp_name c \<noteq> cp_name cp \<or> cp_type c \<noteq> cp_type cp) then [cp] else []
    | None \<Rightarrow> [])"
  shows "subseq (select_local_dff_cutpoints log_sig cps extra) all \<and>
    distinct (map (cp_key_of log_sig) (select_local_dff_cutpoints log_sig cps extra)) \<and>
    cp_key_of log_sig ` set (select_local_dff_cutpoints log_sig cps extra) = cp_key_of log_sig ` set all \<and>
    (\<forall>cp \<in> set (select_local_dff_cutpoints log_sig cps extra). cp_type cp = DFF \<or>
      (\<forall>c \<in> set all. cp_key_of log_sig c = cp_key_of log_sig cp \<longrightarrow> cp_type c = DFF_PO))"
proof -
  have eq: "select_local_dff_cutpoints log_sig cps extra = dedup_local_dff_cutpoints log_sig all"
    by (auto simp: select_local_dff_cutpoints_def assms Let_def list_ex_iff split: option.split)
  have "\<forall>c \<in> set all. is_dff_cp c" by (auto simp: assms split: option.splits)
  from dedup_cuts_ok [OF this] show ?thesis unfolding eq by blast
qed

section \<open>Concrete runs\<close>

text \<open>A flip-flop of two bits, both matched, whose low bit also drives an output.\<close>

definition ff_module :: Module where
  "ff_module = (witness_module ''m'')\<lparr>
     m_wires := [\<lparr>w_name = bs ''q'', w_width = 2, port_id = 0, port_input = False, port_output = False\<rparr>,
       \<lparr>w_name = bs ''d'', w_width = 2, port_id = 1, port_input = True, port_output = False\<rparr>,
       \<lparr>w_name = bs ''y'', w_width = 1, port_id = 2, port_input = False, port_output = True\<rparr>],
     m_cells := [\<lparr>c_name = bs ''f'', c_type = ''$dff'',
       c_conns = [(bs ''D'', [WireBit (bs ''d'') 0, WireBit (bs ''d'') 1]), (bs ''Q'', [WireBit (bs ''q'') 0, WireBit (bs ''q'') 1])],
       c_params = [], c_attrs = []\<rparr>],
     m_connections := [([WireBit (bs ''y'') 0], [WireBit (bs ''q'') 0])]\<rparr>"

definition ff_cut :: "int \<Rightarrow> CutPoint" where
  "ff_cut i = \<lparr>cp_name = bs ''q['' @ to_string i @ '']'', gold_sig = WireBit (bs ''q'') i, gate_sig = WireBit (bs ''q'') i, cp_type = DFF,
     gold_ff_cell = Some (bs ''f''), gate_ff_cell = Some (bs ''f''), gold_wire_name = bs ''q'', gold_bit_index = i,
     gate_wire_name = bs ''q'', gate_bit_index = i\<rparr>"

text \<open>Only one of the two cut points is kept, yet the whole flip-flop is removed: its second bit has no driver any more, and
  neither has the output that was an alias of the first.\<close>

lemma wide_ff_loses_bits:
  "select_local_dff_cutpoints (\<lambda>_. []) [ff_cut 0, ff_cut 1] None = [ff_cut 0]"
  "rmap (\<lambda>m'. (m_cells m', map fst (conn_bits m'))) (cutpoints_to_pi_po (\<lambda>_. 0) ff_module [ff_cut 0] True) =
    Inr ([], [WireBit (bs ''q[0]_po'') 0, WireBit (bs ''q'') 0, WireBit (bs ''q'') 0])"
  by code_simp+

theorem cutpoints_become_ports_witness:
  "\<exists>m'. cutpoints_to_pi_po (\<lambda>_. 0) ff_module [ff_cut 0, ff_cut 1] True = Inr m' \<and> cut_result True ff_module [ff_cut 0, ff_cut 1] m'"
proof (rule cutpoints_become_ports)
  show "cut_fits True ff_module [ff_cut 0, ff_cut 1]" by code_simp
qed

end
