(* ===== verification/Topo.thy ===== *)
theory Topo
  imports Odict "HOL-Library.List_Lexorder" "HOL-Library.Char_ord"
begin

text \<open>
  The topological sort of \<open>kernel/utils.h\<close> (\<open>class TopoSort\<close>): nodes are numbered in the order they are
  added, \<open>edges\<close> keeps for every node the numbers of the nodes that must come before it, and \<open>sort\<close>
  visits the nodes depth first. \<open>std::map\<close> and \<open>std::set\<close> are lists that their comparison keeps
  sorted. The set of loops is a list without duplicates: nothing depends on its order.
\<close>

section \<open>Ordered maps and sets\<close>

fun map_emplace :: "('a \<Rightarrow> 'a \<Rightarrow> bool) \<Rightarrow> 'a \<Rightarrow> 'b \<Rightarrow> ('a \<times> 'b) list \<Rightarrow> ('a \<times> 'b) list \<times> 'b \<times> bool" where
  "map_emplace lt k v [] = ([(k, v)], v, True)"
| "map_emplace lt k v ((k', v') # m) =
     (if lt k' k then (case map_emplace lt k v m of (m', w, new) \<Rightarrow> ((k', v') # m', w, new))
      else if lt k k' then ((k, v) # (k', v') # m, v, True)
      else ((k', v') # m, v', False))"

fun set_insert :: "('a \<Rightarrow> 'a \<Rightarrow> bool) \<Rightarrow> 'a \<Rightarrow> 'a list \<Rightarrow> 'a list" where
  "set_insert lt x [] = [x]"
| "set_insert lt x (y # ys) = (if lt y x then y # set_insert lt x ys else if lt x y then x # y # ys else y # ys)"

section \<open>The graph\<close>

record 'a TopoSort =
  analyze_loops :: bool
  node_to_index :: "('a \<times> nat) list"
  edges :: "nat list list"
  topo_sorted :: "'a list"
  loops :: "'a list list"
  found_loops :: bool
  nodes :: "'a list"

definition TopoSort_init :: "'a TopoSort" where
  "TopoSort_init = \<lparr>analyze_loops = True, node_to_index = [], edges = [], topo_sorted = [], loops = [], found_loops = False, nodes = []\<rparr>"

definition IndirectCmp :: "('a \<Rightarrow> 'a \<Rightarrow> bool) \<Rightarrow> 'a list \<Rightarrow> nat \<Rightarrow> nat \<Rightarrow> bool" where
  "IndirectCmp lt ns a b = lt (ns ! a) (ns ! b)"

definition topo_node :: "('a \<Rightarrow> 'a \<Rightarrow> bool) \<Rightarrow> 'a \<Rightarrow> 'a TopoSort \<Rightarrow> nat \<times> 'a TopoSort" where
  "topo_node lt n ts =
     (case map_emplace lt n (length (nodes ts)) (node_to_index ts) of (m, i, new) \<Rightarrow>
        (i, if new then ts\<lparr>node_to_index := m, nodes := nodes ts @ [n], edges := edges ts @ [[]]\<rparr> else ts))"

definition topo_edge_index :: "('a \<Rightarrow> 'a \<Rightarrow> bool) \<Rightarrow> nat \<Rightarrow> nat \<Rightarrow> 'a TopoSort \<Rightarrow> 'a TopoSort" where
  "topo_edge_index lt l r ts = ts\<lparr>edges := (edges ts)[r := set_insert (IndirectCmp lt (nodes ts)) l (edges ts ! r)]\<rparr>"

text \<open>The compiler may evaluate either argument first.\<close>

definition topo_edge :: "bool \<Rightarrow> ('a \<Rightarrow> 'a \<Rightarrow> bool) \<Rightarrow> 'a \<Rightarrow> 'a \<Rightarrow> 'a TopoSort \<Rightarrow> 'a TopoSort" where
  "topo_edge left_first lt left right ts =
     (if left_first
      then (case topo_node lt left ts of (l, ts) \<Rightarrow> case topo_node lt right ts of (r, ts) \<Rightarrow> topo_edge_index lt l r ts)
      else (case topo_node lt right ts of (r, ts) \<Rightarrow> case topo_node lt left ts of (l, ts) \<Rightarrow> topo_edge_index lt l r ts))"

definition has_node :: "'a TopoSort \<Rightarrow> 'a \<Rightarrow> bool" where
  "has_node ts n \<longleftrightarrow> n \<in> fst ` set (node_to_index ts)"

section \<open>Sorting\<close>

text \<open>
  The worker. Its active nodes are the argument \<open>act\<close>, the top of the stack first, since every call
  leaves them as it found them. The marked nodes are part of the state.
\<close>

record 'a sort_state =
  marked_cells :: "bool list"
  s_sorted :: "'a list"
  s_loops :: "'a list list"
  s_found :: bool

definition close_loop :: "'a TopoSort \<Rightarrow> nat list \<Rightarrow> nat \<Rightarrow> 'a sort_state \<Rightarrow> 'a sort_state" where
  "close_loop ts act root st = st\<lparr>s_found := True, s_loops :=
     (if analyze_loops ts
      then op_insert (s_loops st) (map ((!) (nodes ts)) (takeWhile (\<lambda>i. i \<noteq> root) act @ [root]))
      else s_loops st)\<rparr>"

definition finish_node :: "'a TopoSort \<Rightarrow> nat \<Rightarrow> 'a sort_state \<Rightarrow> 'a sort_state" where
  "finish_node ts root st = st\<lparr>marked_cells := (marked_cells st)[root := True], s_sorted := s_sorted st @ [nodes ts ! root]\<rparr>"

function (sequential) sort_worker :: "'a TopoSort \<Rightarrow> nat list \<Rightarrow> nat \<Rightarrow> 'a sort_state \<Rightarrow> 'a sort_state"
  and sort_lefts :: "'a TopoSort \<Rightarrow> nat list \<Rightarrow> nat list \<Rightarrow> 'a sort_state \<Rightarrow> 'a sort_state" where
  "sort_worker ts act root st =
     (if root \<in> set act then close_loop ts act root st
      else if length (edges ts) \<le> root \<or> marked_cells st ! root then st
      else finish_node ts root (if edges ts ! root = [] then st else sort_lefts ts (root # act) (edges ts ! root) st))"
| "sort_lefts ts act [] st = st"
| "sort_lefts ts act (l # ls) st = sort_lefts ts act ls (sort_worker ts act l st)"
  by pat_completeness auto

termination
proof (relation "measures [\<lambda>x. case x of Inl (ts, act, _, _) \<Rightarrow> card ({..<length (edges ts)} - set act)
      | Inr (ts, act, _, _) \<Rightarrow> card ({..<length (edges ts)} - set act),
    \<lambda>x. case x of Inl _ \<Rightarrow> 0 | Inr (_, _, ls, _) \<Rightarrow> Suc (length ls)]")
  fix ts :: "'a TopoSort" and act root and st :: "'a sort_state"
  assume "root \<notin> set act" "\<not> (length (edges ts) \<le> root \<or> marked_cells st ! root)"
  then have "root \<in> {..<length (edges ts)} - set act" by simp
  moreover have "{..<length (edges ts)} - set (root # act) = ({..<length (edges ts)} - set act) - {root}" by auto
  ultimately have "card ({..<length (edges ts)} - set (root # act)) < card ({..<length (edges ts)} - set act)"
    by (simp only: card_Diff1_less finite_Diff finite_lessThan)
  then show "(Inr (ts, root # act, edges ts ! root, st), Inl (ts, act, root, st)) \<in>
    measures [\<lambda>x. case x of Inl (ts, act, _, _) \<Rightarrow> card ({..<length (edges ts)} - set act)
      | Inr (ts, act, _, _) \<Rightarrow> card ({..<length (edges ts)} - set act),
    \<lambda>x. case x of Inl _ \<Rightarrow> 0 | Inr (_, _, ls, _) \<Rightarrow> Suc (length ls)]"
    by simp
qed simp_all

definition topo_sort :: "'a TopoSort \<Rightarrow> (bool \<times> 'a TopoSort) result" where
  "topo_sort ts =
     (if length (node_to_index ts) \<noteq> length (edges ts) \<or> length (nodes ts) \<noteq> length (edges ts) then Inl AssertFail
      else let st = foldl (\<lambda>st (_, i). sort_worker ts [] i st)
             \<lparr>marked_cells = replicate (length (edges ts)) False, s_sorted = [], s_loops = [], s_found = False\<rparr> (node_to_index ts)
           in if length (s_sorted st) \<noteq> length (nodes ts) then Inl AssertFail
              else Inr (\<not> s_found st, ts\<lparr>topo_sorted := s_sorted st, loops := s_loops st, found_loops := s_found st\<rparr>))"

definition get_database :: "('a \<Rightarrow> 'a \<Rightarrow> bool) \<Rightarrow> 'a TopoSort \<Rightarrow> ('a \<times> 'a list) list" where
  "get_database lt ts =
     foldl (\<lambda>db i. fst (map_emplace lt (nodes ts ! i) (foldl (\<lambda>s j. set_insert lt (nodes ts ! j) s) [] (edges ts ! i)) db))
       [] [0..<length (nodes ts)]"

declare sort_worker.simps [simp del]

section \<open>Cycles and orders\<close>

definition edge_rel :: "'a TopoSort \<Rightarrow> (nat \<times> nat) set" where
  "edge_rel ts = {(l, r). r < length (edges ts) \<and> l \<in> set (edges ts ! r)}"

definition graph_ok :: "'a TopoSort \<Rightarrow> bool" where
  "graph_ok ts \<longleftrightarrow> length (nodes ts) = length (edges ts) \<and> distinct (nodes ts) \<and>
     (\<forall>r < length (edges ts). \<forall>l \<in> set (edges ts ! r). l < length (edges ts))"

definition chain :: "('b \<times> 'b) set \<Rightarrow> 'b list \<Rightarrow> bool" where
  "chain E xs \<longleftrightarrow> (\<forall>i. Suc i < length xs \<longrightarrow> (xs ! i, xs ! Suc i) \<in> E)"

definition is_cycle :: "('b \<times> 'b) set \<Rightarrow> 'b list \<Rightarrow> bool" where
  "is_cycle E xs \<longleftrightarrow> xs \<noteq> [] \<and> chain E xs \<and> (last xs, hd xs) \<in> E"

definition ordered :: "('b \<times> 'b) set \<Rightarrow> 'b list \<Rightarrow> bool" where
  "ordered E xs \<longleftrightarrow> (\<forall>k < length xs. \<forall>l. (l, xs ! k) \<in> E \<longrightarrow> l \<in> set (take k xs))"

lemma ordered_snoc: "ordered E (xs @ [x]) \<longleftrightarrow> ordered E xs \<and> (\<forall>l. (l, x) \<in> E \<longrightarrow> l \<in> set xs)"
  by (auto simp: ordered_def nth_append less_Suc_eq)

lemma chain_Cons: "chain E (x # xs) \<longleftrightarrow> chain E xs \<and> (xs \<noteq> [] \<longrightarrow> (x, hd xs) \<in> E)"
  unfolding chain_def by (auto simp: hd_conv_nth nth_Cons split: nat.splits)

lemma chain_Nil [simp]: "chain E []"
  by (simp add: chain_def)

lemma chain_append1: "chain E (xs @ y # ys) \<Longrightarrow> chain E (xs @ [y])"
  by (induction xs) (auto simp: chain_Cons hd_append split: if_splits)

lemma stack_cycle:
  assumes "chain E act" "root \<in> set act" "(root, hd act) \<in> E"
  shows "is_cycle E (takeWhile (\<lambda>i. i \<noteq> root) act @ [root])"
proof -
  let ?p = "takeWhile (\<lambda>i. i \<noteq> root) act"
  have "dropWhile (\<lambda>i. i \<noteq> root) act = root # tl (dropWhile (\<lambda>i. i \<noteq> root) act)"
    using assms(2) hd_dropWhile [of "\<lambda>i. i \<noteq> root" act] by (cases "dropWhile (\<lambda>i. i \<noteq> root) act") auto
  then obtain rest where act: "act = ?p @ root # rest" by (metis takeWhile_dropWhile_id)
  have "hd (?p @ [root]) = hd act" by (subst (2) act) (simp add: hd_append)
  moreover have "chain E (?p @ [root])" using assms(1) by (subst (asm) act) (rule chain_append1)
  ultimately show ?thesis using assms(3) by (simp add: is_cycle_def)
qed

section \<open>The worker\<close>

definition sort_inv :: "'a TopoSort \<Rightarrow> 'a sort_state \<Rightarrow> nat list \<Rightarrow> bool" where
  "sort_inv ts st is \<longleftrightarrow> length (marked_cells st) = length (edges ts) \<and> distinct is \<and>
     set is = {i. i < length (edges ts) \<and> marked_cells st ! i} \<and> s_sorted st = map ((!) (nodes ts)) is \<and>
     (\<not> s_found st \<longrightarrow> ordered (edge_rel ts) is) \<and> (s_found st \<longrightarrow> (\<exists>c. is_cycle (edge_rel ts) c)) \<and>
     (\<forall>lp \<in> set (s_loops st). \<exists>c. is_cycle (edge_rel ts) c \<and> lp = map ((!) (nodes ts)) c) \<and>
     (s_found st \<and> analyze_loops ts \<longrightarrow> s_loops st \<noteq> [])"

lemma op_insert_not_Nil: "op_insert p x \<noteq> []"
  by (auto simp: op_insert_def)

lemma close_loop_inv:
  assumes "sort_inv ts st is" "chain (edge_rel ts) act" "root \<in> set act" "(root, hd act) \<in> edge_rel ts"
  shows "sort_inv ts (close_loop ts act root st) is"
  using assms(1) stack_cycle [OF assms(2-4)] unfolding sort_inv_def close_loop_def
  by (auto simp: op_insert_not_Nil)

lemma finish_node_inv:
  assumes "sort_inv ts st is" "root < length (edges ts)" "root \<notin> set is" "\<not> s_found st \<Longrightarrow> set (edges ts ! root) \<subseteq> set is"
  shows "sort_inv ts (finish_node ts root st) (is @ [root])"
proof -
  have "set (is @ [root]) = {i. i < length (edges ts) \<and> ((marked_cells st)[root := True]) ! i}"
    using assms(1,2) by (auto simp: sort_inv_def nth_list_update)
  moreover have "ordered (edge_rel ts) (is @ [root])" if "\<not> s_found st"
    using assms(1,2,4) that by (auto simp: sort_inv_def ordered_snoc edge_rel_def)
  ultimately show ?thesis using assms(1,3) by (simp add: sort_inv_def finish_node_def)
qed

lemma sort_worker_ok:
  "\<lbrakk>graph_ok ts; chain (edge_rel ts) act; root < length (edges ts); act \<noteq> [] \<longrightarrow> (root, hd act) \<in> edge_rel ts;
    sort_inv ts st is; set act \<inter> set is = {}\<rbrakk> \<Longrightarrow>
    \<exists>new. sort_inv ts (sort_worker ts act root st) (is @ new) \<and> set act \<inter> set (is @ new) = {} \<and>
      (root \<in> set (is @ new) \<or> root \<in> set act \<and> s_found (sort_worker ts act root st)) \<and>
      (s_found st \<longrightarrow> s_found (sort_worker ts act root st))"
  "\<lbrakk>graph_ok ts; chain (edge_rel ts) act; act \<noteq> []; \<forall>l \<in> set ls. (l, hd act) \<in> edge_rel ts;
    sort_inv ts st is; set act \<inter> set is = {}\<rbrakk> \<Longrightarrow>
    \<exists>new. sort_inv ts (sort_lefts ts act ls st) (is @ new) \<and> set act \<inter> set (is @ new) = {} \<and>
      (\<forall>l \<in> set ls. l \<in> set (is @ new) \<or> s_found (sort_lefts ts act ls st)) \<and>
      (s_found st \<longrightarrow> s_found (sort_lefts ts act ls st))"
proof (induction ts act root st and ts act ls st arbitrary: "is" and "is" rule: sort_worker_sort_lefts.induct)
  case (1 ts act root st)
  show ?case
  proof (cases "root \<in> set act")
    case True
    then have "act \<noteq> []" by auto
    then have "sort_inv ts (close_loop ts act root st) is" using close_loop_inv "1.prems" True by blast
    then show ?thesis using True "1.prems"(6) by (intro exI [of _ "[]"]) (simp add: sort_worker.simps close_loop_def)
  next
    case act: False
    show ?thesis
    proof (cases "marked_cells st ! root")
      case True
      then have "root \<in> set is" using "1.prems"(3,5) by (simp add: sort_inv_def)
      then show ?thesis using True act "1.prems"(5,6) by (intro exI [of _ "[]"]) (simp add: sort_worker.simps)
    next
      case False
      then have root: "root \<notin> set is" using "1.prems"(5) by (simp add: sort_inv_def)
      let ?st = "if edges ts ! root = [] then st else sort_lefts ts (root # act) (edges ts ! root) st"
      have "\<exists>new. sort_inv ts ?st (is @ new) \<and> set (root # act) \<inter> set (is @ new) = {} \<and>
          (\<forall>l \<in> set (edges ts ! root). l \<in> set (is @ new) \<or> s_found ?st) \<and> (s_found st \<longrightarrow> s_found ?st)"
      proof (cases "edges ts ! root = []")
        case True
        then show ?thesis using "1.prems"(5,6) root by (intro exI [of _ "[]"]) simp
      next
        case ne: False
        have "chain (edge_rel ts) (root # act)" using "1.prems"(2,4) by (simp add: chain_Cons)
        moreover have "\<forall>l \<in> set (edges ts ! root). (l, hd (root # act)) \<in> edge_rel ts" using "1.prems"(3) by (simp add: edge_rel_def)
        moreover have "set (root # act) \<inter> set is = {}" using root "1.prems"(6) by simp
        ultimately show ?thesis using "1.IH" [OF act _ ne "1.prems"(1) _ _ _ "1.prems"(5)] "1.prems"(3) False ne by simp
      qed
      then obtain new where new: "sort_inv ts ?st (is @ new)" "set (root # act) \<inter> set (is @ new) = {}"
          "\<forall>l \<in> set (edges ts ! root). l \<in> set (is @ new) \<or> s_found ?st" "s_found st \<longrightarrow> s_found ?st"
        by blast
      have run: "sort_worker ts act root st = finish_node ts root ?st"
        using act False "1.prems"(3) by (simp add: sort_worker.simps)
      have "sort_inv ts (finish_node ts root ?st) ((is @ new) @ [root])"
        using new "1.prems"(3) by (intro finish_node_inv) auto
      then show ?thesis using new(2,4) act unfolding run by (intro exI [of _ "new @ [root]"]) (simp add: finish_node_def)
    qed
  qed
next
  case (2 ts act st)
  then show ?case by (intro exI [of _ "[]"]) simp
next
  case (3 ts act l ls st)
  let ?st = "sort_worker ts act l st"
  have "l < length (edges ts)" using "3.prems"(1,4) by (auto simp: graph_ok_def edge_rel_def)
  then obtain new where new: "sort_inv ts ?st (is @ new)" "set act \<inter> set (is @ new) = {}"
      "l \<in> set (is @ new) \<or> l \<in> set act \<and> s_found ?st" "s_found st \<longrightarrow> s_found ?st"
    using "3.IH"(1) [OF "3.prems"(1,2) _ _ "3.prems"(5,6)] "3.prems"(4) by auto
  have "\<forall>l \<in> set ls. (l, hd act) \<in> edge_rel ts" using "3.prems"(4) by simp
  then obtain new' where new': "sort_inv ts (sort_lefts ts act ls ?st) ((is @ new) @ new')" "set act \<inter> set ((is @ new) @ new') = {}"
      "\<forall>l \<in> set ls. l \<in> set ((is @ new) @ new') \<or> s_found (sort_lefts ts act ls ?st)" "s_found ?st \<longrightarrow> s_found (sort_lefts ts act ls ?st)"
    using "3.IH"(2) [OF "3.prems"(1-3) _ new(1,2)] by auto
  then show ?case using new(3,4) by (intro exI [of _ "new @ new'"]) auto
qed

section \<open>Orders have no cycles\<close>

lemma ordered_acyclic:
  assumes "ordered E xs" "distinct xs" "\<forall>(l, r) \<in> E. r \<in> set xs"
  shows "\<not> is_cycle E c"
proof
  assume c: "is_cycle E c"
  define pos where "pos x = length (takeWhile (\<lambda>y. y \<noteq> x) xs)" for x
  have step: "pos l < pos r" if "(l, r) \<in> E" for l r
  proof -
    have r: "r \<in> set xs" using assms(3) that by blast
    then have len: "pos r < length xs" unfolding pos_def by (induction xs) auto
    then have "xs ! pos r = r" using nth_length_takeWhile [of "\<lambda>y. y \<noteq> r" xs] unfolding pos_def by auto
    then have "l \<in> set (take (pos r) xs)" using len assms(1) that unfolding ordered_def by auto
    then obtain j where j: "j < pos r" "xs ! j = l" "j < length xs" by (auto simp: in_set_conv_nth)
    have "pos l \<le> j" unfolding pos_def
    proof (rule ccontr)
      assume "\<not> length (takeWhile (\<lambda>y. y \<noteq> l) xs) \<le> j"
      then have "xs ! j \<noteq> l" using nth_mem [of j "takeWhile (\<lambda>y. y \<noteq> l) xs"] by (auto simp: takeWhile_nth dest: set_takeWhileD)
      then show False using j(2) by simp
    qed
    then show ?thesis using j(1) by simp
  qed
  have "pos (c ! 0) \<le> pos (c ! i)" if "i < length c" for i
    using that
  proof (induction i)
    case (Suc i)
    then have "(c ! i, c ! Suc i) \<in> E" using c by (simp add: is_cycle_def chain_def)
    then show ?case using Suc step [of "c ! i" "c ! Suc i"] by simp
  qed simp
  from this [of "length c - 1"] have "pos (hd c) \<le> pos (last c)" using c by (simp add: is_cycle_def hd_conv_nth last_conv_nth)
  then show False using step [of "last c" "hd c"] c by (simp add: is_cycle_def)
qed

lemma cycle_map: "is_cycle E c \<Longrightarrow> is_cycle (map_prod f f ` E) (map f c)"
  by (force simp: is_cycle_def chain_def hd_map last_map)

lemma ordered_map:
  assumes "ordered E xs" "inj_on f A" "set xs \<subseteq> A" "\<forall>(l, r) \<in> E. l \<in> A \<and> r \<in> A"
  shows "ordered (map_prod f f ` E) (map f xs)"
  unfolding ordered_def
proof (intro allI impI)
  fix k l assume k: "k < length (map f xs)" and "(l, map f xs ! k) \<in> map_prod f f ` E"
  then obtain a b where ab: "(a, b) \<in> E" "l = f a" "f (xs ! k) = f b" by auto
  then have "b = xs ! k" using assms(2-4) k by (auto dest!: inj_onD)
  then have "a \<in> set (take k xs)" using ab(1) assms(1) k by (simp add: ordered_def)
  then show "l \<in> set (take k (map f xs))" using ab(2) by (simp add: take_map)
qed

section \<open>Building and sorting a graph\<close>

definition node_edges :: "'a TopoSort \<Rightarrow> ('a \<times> 'a) set" where
  "node_edges ts = map_prod ((!) (nodes ts)) ((!) (nodes ts)) ` edge_rel ts"

definition topo_wf :: "('a \<Rightarrow> 'a \<Rightarrow> bool) \<Rightarrow> 'a TopoSort \<Rightarrow> bool" where
  "topo_wf lt ts \<longleftrightarrow> graph_ok ts \<and> sorted_wrt lt (map fst (node_to_index ts)) \<and>
     set (node_to_index ts) = (\<lambda>i. (nodes ts ! i, i)) ` {..<length (nodes ts)}"

lemma topo_wf_init: "topo_wf lt TopoSort_init"
  by (simp add: topo_wf_def TopoSort_init_def graph_ok_def)

lemma set_insert_set: "(\<And>y. y \<in> set ys \<Longrightarrow> \<not> lt y x \<Longrightarrow> \<not> lt x y \<Longrightarrow> y = x) \<Longrightarrow> set (set_insert lt x ys) = insert x (set ys)"
  by (induction ys) auto

text \<open>The comparison of a map or a set: a strict linear order.\<close>

locale topo_order =
  fixes lt :: "'a \<Rightarrow> 'a \<Rightarrow> bool"
  assumes irrefl: "\<not> lt a a"
    and trans: "lt a b \<Longrightarrow> lt b c \<Longrightarrow> lt a c"
    and total: "lt a b \<or> a = b \<or> lt b a"
begin

lemma emplace_ok:
  assumes "sorted_wrt lt (map fst m)" "map_emplace lt k v m = (m', w, new)"
  shows "sorted_wrt lt (map fst m')" "new = (k \<notin> fst ` set m)" "set m' = (if new then insert (k, v) (set m) else set m)"
    "(k, w) \<in> set m'" "new \<Longrightarrow> w = v"
proof -
  have "sorted_wrt lt (map fst m') \<and> new = (k \<notin> fst ` set m) \<and> set m' = (if new then insert (k, v) (set m) else set m) \<and>
      (k, w) \<in> set m' \<and> (new \<longrightarrow> w = v)"
    using assms
  proof (induction m arbitrary: m')
    case (Cons p m)
    obtain k' v' where p: "p = (k', v')" by fastforce
    consider "lt k' k" | "lt k k'" "\<not> lt k' k" | "k' = k" using total [of k k'] by blast
    then show ?case
    proof cases
      case 1
      obtain m1 w1 new1 where m1: "map_emplace lt k v m = (m1, w1, new1)" by (metis prod.exhaust)
      have eq: "m' = p # m1" "w = w1" "new = new1" using Cons.prems(2) 1 m1 by (simp_all add: p)
      have "sorted_wrt lt (map fst m)" using Cons.prems(1) by simp
      note IH = Cons.IH [OF this m1 [folded eq(2,3)]]
      have "\<forall>x \<in> fst ` set m1. lt k' x" using IH Cons.prems(1) 1 by (auto simp: p split: if_splits)
      moreover have "k \<noteq> k'" using 1 irrefl by auto
      ultimately show ?thesis using IH by (cases "k \<in> fst ` set m") (auto simp: eq(1) p)
    next
      case 2
      then have "\<forall>x \<in> fst ` set m. lt k x" using Cons.prems(1) trans [of k k'] by (auto simp: p)
      moreover have "k \<notin> fst ` set m" using calculation irrefl by blast
      ultimately show ?thesis using 2 Cons.prems irrefl by (auto simp: p)
    next
      case 3
      then show ?thesis using Cons.prems irrefl by (auto simp: p)
    qed
  qed auto
  then show "sorted_wrt lt (map fst m')" "new = (k \<notin> fst ` set m)" "set m' = (if new then insert (k, v) (set m) else set m)"
    "(k, w) \<in> set m'" "new \<Longrightarrow> w = v"
    by blast+
qed

lemma sorted_distinct: "sorted_wrt lt xs \<Longrightarrow> distinct xs"
  by (induction xs) (auto simp: irrefl)

lemma topo_node_ok:
  assumes "topo_wf lt ts" "topo_node lt n ts = (i, ts')"
  shows "topo_wf lt ts'" "i < length (nodes ts')" "nodes ts' ! i = n" "node_edges ts' = node_edges ts"
    "set (nodes ts') = insert n (set (nodes ts))" "\<exists>new. nodes ts' = nodes ts @ new"
    "analyze_loops ts' = analyze_loops ts"
proof -
  obtain m w new where m: "map_emplace lt n (length (nodes ts)) (node_to_index ts) = (m, w, new)" by (metis prod.exhaust)
  have sorted: "sorted_wrt lt (map fst (node_to_index ts))" and nti: "set (node_to_index ts) = (\<lambda>i. (nodes ts ! i, i)) ` {..<length (nodes ts)}"
    and ok: "graph_ok ts"
    using assms(1) by (simp_all add: topo_wf_def)
  note e = emplace_ok [OF sorted m]
  have keys: "fst ` set (node_to_index ts) = set (nodes ts)" unfolding nti by (auto simp: in_set_conv_nth image_iff)
  have i: "i = w" and ts': "ts' = (if new then ts\<lparr>node_to_index := m, nodes := nodes ts @ [n], edges := edges ts @ [[]]\<rparr> else ts)"
    using assms(2) m by (simp_all add: topo_node_def)
  have "topo_wf lt ts' \<and> i < length (nodes ts') \<and> nodes ts' ! i = n \<and> node_edges ts' = node_edges ts \<and>
    set (nodes ts') = insert n (set (nodes ts)) \<and> (\<exists>new. nodes ts' = nodes ts @ new) \<and> analyze_loops ts' = analyze_loops ts"
  proof (cases new)
    case False
    then have "(n, w) \<in> set (node_to_index ts)" using e(3,4) by simp
    then show ?thesis using False assms(1) by (auto simp: ts' i nti)
  next
    case True
    let ?ns = "nodes ts @ [n]" and ?es = "edges ts @ [[]]"
    have fresh: "n \<notin> set (nodes ts)" using True e(2) keys by simp
    have len: "length (nodes ts) = length (edges ts)" using ok by (simp add: graph_ok_def)
    have rel: "edge_rel ts' = edge_rel ts"
      using True len by (auto simp: edge_rel_def ts' nth_append less_Suc_eq)
    have "graph_ok ts'" using ok fresh True len by (auto simp: graph_ok_def ts' nth_append less_Suc_eq)
    moreover have "set m = (\<lambda>i. (?ns ! i, i)) ` {..<length ?ns}"
      using e(3) True unfolding nti by (auto simp: nth_append lessThan_Suc)
    moreover have "node_edges ts' = node_edges ts"
      unfolding node_edges_def rel using ok True
      by (intro image_cong) (auto simp: edge_rel_def graph_ok_def ts' nth_append)
    ultimately show ?thesis using True e(1,5) by (simp add: topo_wf_def ts' i)
  qed
  then show "topo_wf lt ts'" "i < length (nodes ts')" "nodes ts' ! i = n" "node_edges ts' = node_edges ts"
    "set (nodes ts') = insert n (set (nodes ts))" "\<exists>new. nodes ts' = nodes ts @ new" "analyze_loops ts' = analyze_loops ts"
    by simp_all
qed

lemma topo_edge_index_ok:
  assumes "topo_wf lt ts" "l < length (nodes ts)" "r < length (nodes ts)"
  shows "topo_wf lt (topo_edge_index lt l r ts)" "node_edges (topo_edge_index lt l r ts) = insert (nodes ts ! l, nodes ts ! r) (node_edges ts)"
    "nodes (topo_edge_index lt l r ts) = nodes ts"
proof -
  let ?ts = "topo_edge_index lt l r ts"
  have ok: "graph_ok ts" using assms(1) by (simp add: topo_wf_def)
  have len: "length (nodes ts) = length (edges ts)" and dist: "distinct (nodes ts)" using ok by (simp_all add: graph_ok_def)
  have es: "set (set_insert (IndirectCmp lt (nodes ts)) l (edges ts ! r)) = insert l (set (edges ts ! r))"
  proof (rule set_insert_set)
    fix y assume "y \<in> set (edges ts ! r)" "\<not> IndirectCmp lt (nodes ts) y l" "\<not> IndirectCmp lt (nodes ts) l y"
    then have "y < length (nodes ts)" "nodes ts ! y = nodes ts ! l"
      using ok assms(3) len total [of "nodes ts ! y" "nodes ts ! l"] by (auto simp: graph_ok_def IndirectCmp_def)
    then show "y = l" using dist assms(2) by (simp add: nth_eq_iff_index_eq)
  qed
  have rel: "edge_rel ?ts = insert (l, r) (edge_rel ts)"
    using assms(3) len by (auto simp: edge_rel_def topo_edge_index_def nth_list_update es split: if_splits)
  have "graph_ok ?ts" using ok assms len by (auto simp: graph_ok_def topo_edge_index_def nth_list_update es)
  then show "topo_wf lt ?ts" using assms(1) by (simp add: topo_wf_def topo_edge_index_def)
  show "nodes ?ts = nodes ts" by (simp add: topo_edge_index_def)
  then show "node_edges ?ts = insert (nodes ts ! l, nodes ts ! r) (node_edges ts)" unfolding node_edges_def rel by simp
qed

lemma two_nodes_ok:
  assumes "topo_wf lt ts" "topo_node lt a ts = (i, ts1)" "topo_node lt b ts1 = (j, ts2)"
  shows "topo_wf lt ts2 \<and> i < length (nodes ts2) \<and> j < length (nodes ts2) \<and> nodes ts2 ! i = a \<and> nodes ts2 ! j = b \<and>
    node_edges ts2 = node_edges ts \<and> set (nodes ts2) = insert a (insert b (set (nodes ts)))"
proof -
  note n1 = topo_node_ok [OF assms(1,2)]
  note n2 = topo_node_ok [OF n1(1) assms(3)]
  obtain new where "nodes ts2 = nodes ts1 @ new" using n2(6) by blast
  then show ?thesis using n1 n2 by (auto simp: nth_append)
qed

lemma edge_adds:
  assumes "topo_wf lt ts"
  shows "topo_wf lt (topo_edge lf lt l r ts) \<and> node_edges (topo_edge lf lt l r ts) = insert (l, r) (node_edges ts) \<and>
    set (nodes (topo_edge lf lt l r ts)) = insert l (insert r (set (nodes ts)))"
proof (cases lf)
  case True
  obtain i ts1 where 1: "topo_node lt l ts = (i, ts1)" by fastforce
  obtain j ts2 where 2: "topo_node lt r ts1 = (j, ts2)" by fastforce
  show ?thesis using two_nodes_ok [OF assms 1 2] topo_edge_index_ok [of ts2 i j] True 1 2 by (auto simp: topo_edge_def)
next
  case False
  obtain j ts1 where 1: "topo_node lt r ts = (j, ts1)" by fastforce
  obtain i ts2 where 2: "topo_node lt l ts1 = (i, ts2)" by fastforce
  show ?thesis using two_nodes_ok [OF assms 1 2] topo_edge_index_ok [of ts2 i j] False 1 2 by (auto simp: topo_edge_def)
qed

end

text \<open>The order of texts is such a comparison.\<close>

interpretation by_name: topo_order "(<) :: string \<Rightarrow> string \<Rightarrow> bool"
  by unfold_locales auto

lemma sort_all_ok:
  assumes "graph_ok ts" "set is \<subseteq> {..<length (edges ts)}"
    "sort_inv ts st js"
  shows "\<exists>new. sort_inv ts (foldl (\<lambda>st (_, i). sort_worker ts [] i st) st (map (\<lambda>i. (g i, i)) is)) (js @ new) \<and> set is \<subseteq> set (js @ new)"
  using assms(2,3)
proof (induction "is" arbitrary: st js)
  case (Cons i "is")
  obtain new where new: "sort_inv ts (sort_worker ts [] i st) (js @ new)" "i \<in> set (js @ new)"
    using sort_worker_ok(1) [of ts "[]" i st js] assms(1) Cons.prems by auto
  obtain new' where "sort_inv ts (foldl (\<lambda>st (_, i). sort_worker ts [] i st) (sort_worker ts [] i st) (map (\<lambda>i. (g i, i)) is)) ((js @ new) @ new')"
      "set is \<subseteq> set ((js @ new) @ new')"
    using Cons.IH [OF _ new(1)] Cons.prems(1) by auto
  then show ?case using new(2) by (intro exI [of _ "new @ new'"]) auto
qed (auto intro: exI [of _ "[]"])

section \<open>Guarantees\<close>

text \<open>Adding an edge to a graph keeps the numbering of the nodes consistent, adds the two nodes if they are new and adds
  exactly that edge, whichever of the two nodes the compiler numbers first.\<close>

lemma topo_edge_adds:
  assumes "topo_order lt" "topo_wf lt ts"
  shows "topo_wf lt (topo_edge left_first lt l r ts) \<and> node_edges (topo_edge left_first lt l r ts) = insert (l, r) (node_edges ts) \<and>
    set (nodes (topo_edge left_first lt l r ts)) = insert l (insert r (set (nodes ts)))"
  using assms by (rule topo_order.edge_adds)

lemma topo_sort_ok:
  assumes "topo_order lt" "topo_wf lt ts"
  shows "\<exists>ok ts'. topo_sort ts = Inr (ok, ts') \<and> distinct (topo_sorted ts') \<and> set (topo_sorted ts') = set (nodes ts) \<and>
    (ok \<longleftrightarrow> \<not> (\<exists>c. is_cycle (node_edges ts) c)) \<and> (ok \<longrightarrow> ordered (node_edges ts) (topo_sorted ts')) \<and>
    (\<forall>lp \<in> set (loops ts'). is_cycle (node_edges ts) lp) \<and> (\<not> ok \<and> analyze_loops ts \<longrightarrow> loops ts' \<noteq> [])"
proof -
  let ?n = "length (edges ts)" and ?f = "(!) (nodes ts)"
  let ?init = "\<lparr>marked_cells = replicate ?n False, s_sorted = [], s_loops = [], s_found = False\<rparr>"
  let ?st = "foldl (\<lambda>st (_, i). sort_worker ts [] i st) ?init (node_to_index ts)"
  have ok: "graph_ok ts" and nti: "set (node_to_index ts) = (\<lambda>i. (nodes ts ! i, i)) ` {..<length (nodes ts)}"
    using assms(2) by (simp_all add: topo_wf_def)
  have len: "length (nodes ts) = ?n" and inj: "inj_on ?f {..<?n}"
    using ok by (auto simp: graph_ok_def inj_on_def nth_eq_iff_index_eq)
  have "distinct (map fst (node_to_index ts))"
    using topo_order.sorted_distinct [OF assms(1)] assms(2) by (simp add: topo_wf_def)
  then have "length (node_to_index ts) = card (set (node_to_index ts))" by (simp add: distinct_map distinct_card)
  also have "\<dots> = ?n" unfolding nti len by (subst card_image) (auto simp: inj_on_def)
  finally have len': "length (node_to_index ts) = ?n" .
  let ?is = "map snd (node_to_index ts)"
  have eq: "node_to_index ts = map (\<lambda>i. (?f i, i)) ?is" using nti by (auto simp: map_idI [symmetric] comp_def intro!: map_idI [symmetric])
  have is_set: "set ?is = {..<?n}" using nti len by force
  have "sort_inv ts ?init []" by (simp add: sort_inv_def ordered_def)
  then obtain js where js: "sort_inv ts ?st js" "{..<?n} \<subseteq> set js"
    using sort_all_ok [OF ok, of ?is ?init "[]" ?f] is_set eq by auto
  have set_js: "set js = {..<?n}" using js by (auto simp: sort_inv_def)
  have srt: "s_sorted ?st = map ?f js" "distinct js" using js(1) by (simp_all add: sort_inv_def)
  have lens: "length (s_sorted ?st) = length (nodes ts)" using srt set_js len distinct_card [of js] by simp
  define ts' where "ts' = ts\<lparr>topo_sorted := s_sorted ?st, loops := s_loops ?st, found_loops := s_found ?st\<rparr>"
  have run: "topo_sort ts = Inr (\<not> s_found ?st, ts')" using len len' lens by (simp add: topo_sort_def Let_def ts'_def)
  have dist: "distinct (topo_sorted ts')" using srt inj set_js by (simp add: ts'_def distinct_map)
  have "?f ` {..<?n} = set (nodes ts)" using len by (auto simp: set_conv_nth)
  then have all: "set (topo_sorted ts') = set (nodes ts)" using srt(1) set_js by (simp add: ts'_def)
  have ord: "ordered (node_edges ts) (topo_sorted ts')" if "\<not> s_found ?st"
    unfolding node_edges_def ts'_def using js(1) that set_js ok
    by (auto simp: srt sort_inv_def edge_rel_def graph_ok_def intro!: ordered_map [OF _ inj])
  have "\<forall>(l, r) \<in> node_edges ts. r \<in> set (topo_sorted ts')" using all len by (auto simp: node_edges_def edge_rel_def)
  then have acyc: "\<not> is_cycle (node_edges ts) c" if "\<not> s_found ?st" for c using ordered_acyclic [OF ord [OF that] dist] by blast
  have cyc: "\<exists>c. is_cycle (node_edges ts) c" if "s_found ?st"
    using js(1) that cycle_map unfolding sort_inv_def node_edges_def by blast
  have lps: "\<forall>lp \<in> set (loops ts'). is_cycle (node_edges ts) lp"
    using js(1) cycle_map unfolding sort_inv_def node_edges_def ts'_def by fastforce
  have some: "s_found ?st \<and> analyze_loops ts \<longrightarrow> loops ts' \<noteq> []" using js(1) by (simp add: sort_inv_def ts'_def)
  show ?thesis using run dist all ord acyc cyc lps some by blast
qed

section \<open>Concrete runs\<close>

text \<open>Two modules, the second of which instantiates the first.\<close>

text \<open>C27: Sorting a graph always ends without a failed assertion and lists every node exactly once. It reports success exactly
  when the graph has no cycle, and then every node comes after all nodes it must follow. Every loop it
  records is a cycle of the graph, and with loops analysed a failure records at least one.\<close>

theorem topo_sort_correct:
  assumes "topo_order lt" "topo_wf lt ts"
  shows "\<exists>ok ts'. topo_sort ts = Inr (ok, ts') \<and> distinct (topo_sorted ts') \<and> set (topo_sorted ts') = set (nodes ts) \<and>
    (ok \<longleftrightarrow> \<not> (\<exists>c. is_cycle (node_edges ts) c)) \<and> (ok \<longrightarrow> ordered (node_edges ts) (topo_sorted ts')) \<and>
    (\<forall>lp \<in> set (loops ts'). is_cycle (node_edges ts) lp) \<and> (\<not> ok \<and> analyze_loops ts \<longrightarrow> loops ts' \<noteq> [])"
  using assms by (rule topo_sort_ok)

definition two_nodes :: "string TopoSort" where
  "two_nodes = topo_edge True (<) ''leaf'' ''parent'' TopoSort_init"

theorem topo_sort_correct_witness:
  "\<exists>ok ts'. topo_sort two_nodes = Inr (ok, ts') \<and> set (topo_sorted ts') = {''leaf'', ''parent''}"
proof -
  note e = by_name.edge_adds [OF topo_wf_init, of True "''leaf''" "''parent''"]
  have "topo_wf (<) two_nodes" "set (nodes two_nodes) = {''leaf'', ''parent''}"
    using e by (simp_all add: two_nodes_def TopoSort_init_def)
  then show ?thesis using topo_sort_correct [OF by_name.topo_order_axioms] by metis
qed

end
