(* ===== verification/Guide_Arith.thy ===== *)
theory Guide_Arith
  imports Guide_Hier "HOL-Library.Product_Lexorder"
begin

text \<open>
  Multipliers and dividers (\<open>passes/guide/check/retime_multi.cc\<close> and \<open>passes/guide/check/div_check.cc\<close>): finding
  the arithmetic cells of a pair of modules, pairing them by width and sign, checking the modules
  that implement them with an external tool and replacing the cells by stubs. The two files repeat
  each other; what they share is defined once, with the kind of cell as an argument, and the places
  where they differ are written out. A pointer to a module or cell is its name, and a null pointer is
  \<open>None\<close>. Reading a missing parameter gives the empty constant; the entry that the subscript adds is
  left out, as are timing and log lines. The tools, the AIG writer and the files are parameters.
\<close>

section \<open>Arithmetic cells\<close>

datatype arith = Mul | Div

fun arith_type :: "arith \<Rightarrow> string" where
  "arith_type Mul = ''$mul''" | "arith_type Div = ''$div''"

fun arith_attr :: "arith \<Rightarrow> string" where
  "arith_attr Mul = bs ''multiplier''" | "arith_attr Div = bs ''divider''"

fun stub_prefix :: "arith \<Rightarrow> string" where
  "stub_prefix Mul = ''__mul_comm_xor_''" | "stub_prefix Div = ''__div_xor_''"

definition valid_internal_cell :: "arith \<Rightarrow> NCell \<Rightarrow> bool result" where
  "valid_internal_cell k c =
     (if c_type c \<noteq> arith_type k then Inr False
      else rbind (get_port c (bs ''A'')) (\<lambda>a. rbind (get_port c (bs ''B'')) (\<lambda>b.
           rbind (if k = Mul then get_port c (bs ''Y'') else Inr []) (\<lambda>_.
             Inr (param_bool c (bs ''A_SIGNED'') = param_bool c (bs ''B_SIGNED'') \<and> length a = length b)))))"

definition is_arith_cell :: "arith \<Rightarrow> Design \<Rightarrow> NCell \<Rightarrow> bool result" where
  "is_arith_cell k d c =
     rmap (\<lambda>v. v \<or> cell_bool_attribute c (arith_attr k) \<or> module_flag d (arith_attr k) (c_type c)) (valid_internal_cell k c)"

definition is_multiplier_cell :: "Design \<Rightarrow> NCell \<Rightarrow> bool result" where
  "is_multiplier_cell = is_arith_cell Mul"

definition is_divider_cell :: "Design \<Rightarrow> NCell \<Rightarrow> bool result" where
  "is_divider_cell = is_arith_cell Div"

definition resize_u0 :: "SigSpec \<Rightarrow> nat \<Rightarrow> SigSpec" where
  "resize_u0 src width = (if length src < width then src @ replicate (width - length src) (ConstBit S0) else take width src)"

fun unique_cell_loop :: "Module \<Rightarrow> string \<Rightarrow> nat \<Rightarrow> nat \<Rightarrow> string result" where
  "unique_cell_loop m base i 0 = Inl NonTermination"
| "unique_cell_loop m base i (Suc fuel) =
     (let cand = escape_id (if i = 0 then base else base @ ''$'' @ to_string (int i))
      in if module_cell m cand = None then Inr cand else unique_cell_loop m base (Suc i) fuel)"

text \<open>One step more than there are cells is enough (\<open>unique_cell_fresh\<close>).\<close>

definition unique_cell_name :: "Module \<Rightarrow> string \<Rightarrow> string result" where
  "unique_cell_name m base = unique_cell_loop m base 0 (Suc (length (m_cells m)))"

definition ports_in_order :: "(Wire \<Rightarrow> bool) \<Rightarrow> Module \<Rightarrow> Wire list" where
  "ports_in_order sel sub = sort_by (\<lambda>a b. port_id a < port_id b) (filter (\<lambda>w. port_id w > 0 \<and> sel w) (iterate (m_wires sub)))"

definition cell_port :: "NCell \<Rightarrow> string \<Rightarrow> SigSpec" where
  "cell_port c port = (case get_port c port of Inr sig \<Rightarrow> sig | Inl _ \<Rightarrow> [])"

definition first_inputs :: "Design \<Rightarrow> NCell \<Rightarrow> SigSpec \<times> SigSpec" where
  "first_inputs d c =
     (case design_module d (c_type c) of
        None \<Rightarrow> ([], [])
      | Some sub \<Rightarrow> (case ports_in_order port_input sub of
          [] \<Rightarrow> ([], [])
        | [w] \<Rightarrow> (cell_port c (w_name w), [])
        | w # w' # _ \<Rightarrow> (cell_port c (w_name w), cell_port c (w_name w'))))"

definition pick_operands :: "arith \<Rightarrow> Design \<Rightarrow> NCell \<Rightarrow> (SigSpec \<times> SigSpec) result" where
  "pick_operands k d c =
     (if c_type c = arith_type k
      then rbind (get_port c (bs ''A'')) (\<lambda>a. rmap (\<lambda>b. (a, b)) (get_port c (bs ''B'')))
      else let (op1, op2) = first_inputs d c;
               op1 = (if op1 = [] then cell_port c (bs ''A'') else op1);
               op2 = (if op2 = [] then cell_port c (bs ''B'') else op2)
           in Inr (if op1 = [] \<and> op2 = [] then ([ConstBit S0], [ConstBit S0])
                   else if op2 = [] then (op1, op1) else if op1 = [] then (op2, op2) else (op1, op2)))"

definition pick_div_operands :: "Design \<Rightarrow> NCell \<Rightarrow> (SigSpec \<times> SigSpec) result" where
  "pick_div_operands = pick_operands Div"

definition get_width_sign :: "arith \<Rightarrow> Design \<Rightarrow> NCell \<Rightarrow> (nat \<times> bool) result" where
  "get_width_sign k d c =
     rbind (pick_operands k d c) (\<lambda>(op1, op2).
       if k = Mul \<and> length op1 \<noteq> length op2 then Inl AssertFail
       else rmap (\<lambda>sign. (length op1, sign))
         (if c_type c = arith_type k then Inr (param_bool c (bs ''A_SIGNED''))
          else (case design_module d (c_type c) of
            None \<Rightarrow> Inl AssertFail | Some sub \<Rightarrow> Inr (get_bool_attribute sub (bs ''is_signed'')))))"

definition get_multiplier_width_sign :: "Design \<Rightarrow> NCell \<Rightarrow> (nat \<times> bool) result" where
  "get_multiplier_width_sign = get_width_sign Mul"

definition get_divider_width_sign :: "Design \<Rightarrow> NCell \<Rightarrow> (nat \<times> bool) result" where
  "get_divider_width_sign = get_width_sign Div"

section \<open>Stubs\<close>

definition xor_stub :: "string \<Rightarrow> SigSpec \<Rightarrow> SigSpec \<Rightarrow> SigSpec \<Rightarrow> NCell" where
  "xor_stub name a b out_sig =
     (let w = length out_sig; wc = const_of_ll (of_nat w)
      in \<lparr>c_name = name, c_type = ''$xor'',
          c_conns = [(bs ''A'', resize_u0 a w), (bs ''B'', resize_u0 b w), (bs ''Y'', out_sig)],
          c_params = [(bs ''A_SIGNED'', const_of_ll 0), (bs ''B_SIGNED'', const_of_ll 0),
            (bs ''A_WIDTH'', wc), (bs ''B_WIDTH'', wc), (bs ''Y_WIDTH'', wc)], c_attrs = []\<rparr>)"

definition add_xor_driver :: "arith \<Rightarrow> SigSpec \<Rightarrow> SigSpec \<Rightarrow> SigSpec \<times> string \<Rightarrow> Module \<Rightarrow> Module result" where
  "add_xor_driver k a b = (\<lambda>(out_sig, tag) m.
     rbind (unique_cell_name m (stub_prefix k @ tag)) (\<lambda>name. add_cell m (xor_stub name a b out_sig)))"

definition stub_outputs :: "arith \<Rightarrow> Design \<Rightarrow> NCell \<Rightarrow> (SigSpec \<times> string) list" where
  "stub_outputs k d c =
     (case (if c_type c = arith_type k then None else design_module d (c_type c)) of
        None \<Rightarrow> if has_port c (bs ''Y'') then [(cell_port c (bs ''Y''), ''Y'')] else []
      | Some sub \<Rightarrow> map (\<lambda>w. (cell_port c (w_name w), strip_backslash (w_name w)))
          (filter (\<lambda>w. has_port c (w_name w)) (ports_in_order port_output sub)))"

definition replace_with_stub :: "arith \<Rightarrow> Design \<Rightarrow> NCell \<Rightarrow> Module \<Rightarrow> Module result" where
  "replace_with_stub k d c m =
     rbind (pick_operands k d c) (\<lambda>(a, b).
     rbind (rfold (add_xor_driver k a b) (stub_outputs k d c) m) (\<lambda>m. remove_cell m (c_name c)))"

definition replace_mul_with_commutative_stub :: "Design \<Rightarrow> NCell \<Rightarrow> Module \<Rightarrow> Module result" where
  "replace_mul_with_commutative_stub = replace_with_stub Mul"

definition replace_div_with_stub :: "Design \<Rightarrow> NCell \<Rightarrow> Module \<Rightarrow> Module result" where
  "replace_div_with_stub = replace_with_stub Div"

definition extract_cells :: "arith \<Rightarrow> (string \<Rightarrow> nat) \<Rightarrow> Design \<Rightarrow> Module \<Rightarrow> Module result" where
  "extract_cells k idx d m =
     rmap (fixup_ports idx) (rfold (\<lambda>c m. rbind (is_arith_cell k d c) (\<lambda>yes.
       if yes then replace_with_stub k d c m else Inr m)) (iterate (m_cells m)) m)"

definition extract_multi :: "(string \<Rightarrow> nat) \<Rightarrow> Design \<Rightarrow> Module \<Rightarrow> Module result" where
  "extract_multi = extract_cells Mul"

definition extract_div :: "(string \<Rightarrow> nat) \<Rightarrow> Design \<Rightarrow> Module \<Rightarrow> Module result" where
  "extract_div = extract_cells Div"

section \<open>Pairing the cells\<close>

record MultiMapEntry =
  e_gold_mod :: string
  e_gate_mod :: string
  e_gold_cell :: string
  e_gate_cell :: string
  is_multi_mod :: bool

type_synonym DivMapEntry = MultiMapEntry

record Multi =
  mu_width :: nat
  mu_sign :: bool
  mu_cell :: string

definition multi_less :: "Multi \<Rightarrow> Multi \<Rightarrow> bool" where
  "multi_less a b = (if mu_sign a \<noteq> mu_sign b then \<not> mu_sign a \<and> mu_sign b else mu_width a < mu_width b)"

definition param_equal :: "Multi \<Rightarrow> Multi \<Rightarrow> bool" where
  "param_equal a b \<longleftrightarrow> mu_width a = mu_width b \<and> mu_sign a = mu_sign b"

definition collect_cells :: "arith \<Rightarrow> Design \<Rightarrow> Module \<Rightarrow> Multi list result" where
  "collect_cells k d m =
     rfold (\<lambda>c acc. rbind (is_arith_cell k d c) (\<lambda>yes.
       if \<not> yes then Inr acc
       else rmap (\<lambda>(w, s). acc @ [\<lparr>mu_width = w, mu_sign = s, mu_cell = c_name c\<rparr>]) (get_width_sign k d c)))
       (iterate (m_cells m)) []"

text \<open>The entries up to the first pair with different parameters, and whether there was none.\<close>

fun pair_cells :: "string \<Rightarrow> string \<Rightarrow> Multi list \<Rightarrow> Multi list \<Rightarrow> MultiMapEntry list \<times> bool" where
  "pair_cells gold gate (g # gs) (k # ks) =
     (if \<not> param_equal g k then ([], False)
      else case pair_cells gold gate gs ks of (es, okay) \<Rightarrow>
        (\<lparr>e_gold_mod = gold, e_gate_mod = gate, e_gold_cell = mu_cell g, e_gate_cell = mu_cell k, is_multi_mod = False\<rparr> # es, okay))"
| "pair_cells gold gate _ _ = ([], True)"

definition map_cells :: "arith \<Rightarrow> Design \<Rightarrow> Module \<Rightarrow> Module \<Rightarrow> MultiMapEntry list result" where
  "map_cells k d gold_m gate_m =
     rbind (collect_cells k d gold_m) (\<lambda>gs. rbind (collect_cells k d gate_m) (\<lambda>ks.
       Inr (if length gs \<noteq> length ks \<or> gs = [] then []
            else case pair_cells (m_name gold_m) (m_name gate_m) (sort_by multi_less gs) (sort_by multi_less ks) of
              (es, okay) \<Rightarrow> if k = Mul \<and> \<not> okay then [] else es)))"

definition map_pair :: "arith \<Rightarrow> Design \<Rightarrow> string \<times> string \<Rightarrow> MultiMapEntry list \<Rightarrow> MultiMapEntry list result" where
  "map_pair k d = (\<lambda>(gold, gate) acc.
     case (design_module d gold, design_module d gate) of
       (Some gm, Some km) \<Rightarrow>
         let gold_is = get_bool_attribute gm (arith_attr k); gate_is = get_bool_attribute km (arith_attr k)
         in if gold_is \<or> gate_is
            then Inr (if gold_is \<and> gate_is
                      then acc @ [\<lparr>e_gold_mod = gold, e_gate_mod = gate, e_gold_cell = [], e_gate_cell = [], is_multi_mod = True\<rparr>]
                      else acc)
            else rmap (\<lambda>es. acc @ es) (map_cells k d gm km)
     | _ \<Rightarrow> if k = Mul then Inl AssertFail else Inr acc)"

definition get_multi_map :: "Design \<Rightarrow> ModMap \<Rightarrow> MultiMapEntry list result" where
  "get_multi_map d mm = rfold (map_pair Mul d) (iterate (mod_map_gold mm)) []"

definition get_div_map :: "Design \<Rightarrow> ModMap \<Rightarrow> DivMapEntry list result" where
  "get_div_map d mm = rfold (map_pair Div d) (iterate (mod_map_gold mm)) []"

section \<open>Checking the modules\<close>

text \<open>The AIG of a module, written by \<open>write_aig\<close> after the passes have flattened and mapped a copy of the design.\<close>

definition dump_aig ::
    "passes \<Rightarrow> (string \<Rightarrow> Design \<Rightarrow> 'w \<Rightarrow> 'w result) \<Rightarrow> Design \<Rightarrow> string \<Rightarrow> Module \<Rightarrow> string \<Rightarrow> 'w \<Rightarrow> (string \<times> 'w) result" where
  "dump_aig run_pass write_aig d dir_name m lib w =
     (let aig_file = dir_name @ ''/'' @ strip_backslash (m_name m) @ ''.aig''
      in rbind (clone_design_for_passes d) (\<lambda>d.
         rbind (rfold run_pass
           ((if lib = [] then [] else [''read_verilog -overwrite '' @ lib]) @
            [''hierarchy -top '' @ m_name m, ''flatten '' @ m_name m, ''opt'', ''setundef -undriven -zero'', ''opt_expr'',
             ''techmap'', ''opt_expr'', ''aigmap'']) d) (\<lambda>d.
         rmap (\<lambda>w. (aig_file, w)) (write_aig (''write_aiger '' @ aig_file) d w))))"

record ('w, 'd) arith_env =
  ae_tools :: "('w, 'd) tools"
  ae_fp :: "'d fp_ops"
  ae_aig :: "Design \<Rightarrow> string \<Rightarrow> Module \<Rightarrow> string \<Rightarrow> 'w \<Rightarrow> (string \<times> 'w) result"
  ae_verilog :: "Module \<Rightarrow> string \<Rightarrow> 'w \<Rightarrow> (string \<times> 'w) result"
  ae_dump :: MlDumpConfig
  ae_tempdir :: string
  ae_sig_dir :: string

definition blocked :: "int \<Rightarrow> string \<Rightarrow> 'd CommandResult \<Rightarrow> 'd CommandResult" where
  "blocked ret msg r = r\<lparr>cr_output := cr_output r @ msg @ [CHR 0x0A], raw_result_code := ret, result_code := ret, proof_outcome := ''blocked''\<rparr>"

text \<open>The names under which a check is reported: the pair, the gold and the gate module.\<close>

type_synonym report = "string \<times> string \<times> string"

definition amulet_commands :: "('w, 'd) arith_env \<Rightarrow> Module \<Rightarrow> string \<Rightarrow> string \<times> string" where
  "amulet_commands e m aig_file =
     (let base = ae_tempdir e @ ''/'' @ strip_backslash (m_name m);
          sgn = (if get_bool_attribute m (bs ''is_signed'') then '' -signed'' else [])
      in (''amulet -substitute '' @ aig_file @ '' '' @ base @ ''.miter.cnf '' @ base @ ''.rewritten.aig'' @ sgn,
          ''amulet -verify '' @ base @ ''.rewritten.aig'' @ sgn))"

definition check_multi :: "('w, 'd) arith_env \<Rightarrow> Design \<Rightarrow> Module \<Rightarrow> report \<Rightarrow> ('w, 'd) gstate \<Rightarrow> (bool \<times> ('w, 'd) gstate) result" where
  "check_multi e d m rep gs =
     (let (pair_id, gold, gate) = rep; tag = sanitize_filename (strip_backslash (m_name m))
      in if \<not> get_bool_attribute m (bs ''multiplier'') then Inl AssertFail
         else rbind (ae_aig e d (ae_tempdir e) m [] (world gs)) (\<lambda>(aig_file, w).
              let (sub_cmd, veri_cmd) = amulet_commands e m aig_file
              in rbind (failure_log_dir (ae_tools e) (ae_dump e) w) (\<lambda>(log_dir, w).
                 rbind (exec_cmd (ae_tools e) (ae_fp e) sub_cmd (ae_tempdir e) (''amulet-substitute-'' @ tag) log_dir w) (\<lambda>(_, _, w).
                 rbind (exec_cmd (ae_tools e) (ae_fp e) veri_cmd (ae_tempdir e) (''amulet-verify-'' @ tag) log_dir w) (\<lambda>(ret, r, w).
                 let gs = gs\<lparr>world := w\<rparr>
                 in if ret = 1 then Inr (True, gs)
                    else rmap (\<lambda>gs. (False, gs)) (emit_failure_packet_named (ae_tools e) (ae_dump e) pair_id ''AMULET'' ''amulet_verify''
                           gold gate (blocked ret ''Amulet Verify failed.'' r) gs))))))"

definition output_width :: "Module \<Rightarrow> nat" where
  "output_width m = (case find (\<lambda>w. port_id w > 0 \<and> port_output w) (iterate (m_wires m)) of None \<Rightarrow> 0 | Some w \<Rightarrow> w_width w)"

definition check_div :: "('w, 'd) arith_env \<Rightarrow> Module \<Rightarrow> report \<Rightarrow> ('w, 'd) gstate \<Rightarrow> (bool \<times> ('w, 'd) gstate) result" where
  "check_div e m rep gs =
     (let (pair_id, gold, gate) = rep
      in if \<not> get_bool_attribute m (bs ''divider'') then Inl AssertFail
         else rbind (ae_verilog e m (ae_tempdir e) (world gs)) (\<lambda>(v_file, w).
              let cmd = ''divVerify_fmcad22 '' @ v_file @ '' '' @ ae_sig_dir e @ ''/'' @ to_string (int (output_width m)) @ ''bitSignature.txt''
              in rbind (failure_log_dir (ae_tools e) (ae_dump e) w) (\<lambda>(log_dir, w).
                 rbind (exec_cmd (ae_tools e) (ae_fp e) cmd (ae_tempdir e)
                   (''divverify-'' @ sanitize_filename (strip_backslash (m_name m))) log_dir w) (\<lambda>(ret, r, w).
                 let gs = gs\<lparr>world := w\<rparr>
                 in if contains (cr_output r) ''VERIFICATION SUCCESSFUL'' then Inr (True, gs)
                    else rmap (\<lambda>gs. (False, gs)) (emit_failure_packet_named (ae_tools e) (ae_dump e) pair_id ''DIVVERIFY'' ''divverify_verify''
                           gold gate (blocked ret ''DivVerify failed.'' r) gs)))))"

definition check_arith :: "arith \<Rightarrow> ('w, 'd) arith_env \<Rightarrow> Design \<Rightarrow> Module \<Rightarrow> report \<Rightarrow> ('w, 'd) gstate \<Rightarrow> (bool \<times> ('w, 'd) gstate) result" where
  "check_arith k e d m rep gs = (case k of Mul \<Rightarrow> check_multi e d m rep gs | Div \<Rightarrow> check_div e m rep gs)"

section \<open>Checking and extracting\<close>

text \<open>What is to be done: the modules to check with the names to report, and those to extract from and to make black boxes.\<close>

record arith_plan =
  mod_to_check :: "string option list"
  mod_to_report :: "(string option, report) odict"
  mod_to_extract :: "string list"
  mod_to_blackbox :: "string option list"
  touched_mods :: "string list"

definition find_mod :: "Design \<Rightarrow> string \<Rightarrow> string option" where
  "find_mod d name = map_option m_name (design_module d name)"

definition to_check :: "report \<Rightarrow> string option \<Rightarrow> arith_plan \<Rightarrow> arith_plan" where
  "to_check rep m p = p\<lparr>mod_to_check := op_insert (mod_to_check p) m, mod_to_report := od_set (mod_to_report p) m rep\<rparr>"

definition to_blackbox :: "string option \<Rightarrow> arith_plan \<Rightarrow> arith_plan" where
  "to_blackbox m p = p\<lparr>mod_to_blackbox := op_insert (mod_to_blackbox p) m\<rparr>"

definition to_extract :: "string \<Rightarrow> arith_plan \<Rightarrow> arith_plan" where
  "to_extract m p = p\<lparr>mod_to_extract := op_insert (mod_to_extract p) m\<rparr>"

definition begins_with :: "string \<Rightarrow> string \<Rightarrow> bool" where
  "begins_with s pre \<longleftrightarrow> take (length pre) s = pre"

definition is_implemented :: "string \<Rightarrow> bool" where
  "is_implemented ty \<longleftrightarrow> begins_with ty [CHR 0x5C] \<or> begins_with ty ''$paramod''"

definition check_cell :: "arith \<Rightarrow> Design \<Rightarrow> report \<Rightarrow> NCell \<Rightarrow> arith_plan \<Rightarrow> arith_plan" where
  "check_cell k d rep c p =
     (if is_implemented (c_type c) \<and> (k = Mul \<or> design_module d (c_type c) \<noteq> None)
      then to_check rep (find_mod d (c_type c)) p else p)"

definition plan_entry :: "arith \<Rightarrow> Design \<Rightarrow> MultiMapEntry \<Rightarrow> arith_plan \<Rightarrow> arith_plan result" where
  "plan_entry k d e p =
     (let gold = e_gold_mod e; gate = e_gate_mod e; gm = find_mod d gold; km = find_mod d gate;
          rep = (get_pair_id gold gate, strip_backslash gold, strip_backslash gate);
          p = p\<lparr>touched_mods := op_insert (op_insert (touched_mods p) gold) gate\<rparr>
      in if is_multi_mod e
         then Inr (to_blackbox km (to_blackbox gm (to_check rep km (to_check rep gm p))))
         else case (design_module d gold, design_module d gate) of
           (Some g, Some k') \<Rightarrow>
             (case (module_cell g (e_gold_cell e), module_cell k' (e_gate_cell e)) of
                (Some gc, Some kc) \<Rightarrow> Inr (to_extract gate (to_extract gold (check_cell k d rep kc (check_cell k d rep gc p))))
              | _ \<Rightarrow> if k = Mul then Inl AssertFail else Inr p)
         | _ \<Rightarrow> if k = Mul then Inl AssertFail else Inr p)"

definition run_check ::
    "arith \<Rightarrow> ('w, 'd) arith_env \<Rightarrow> Design \<Rightarrow> arith_plan \<Rightarrow> string option \<Rightarrow> (string \<times> bool) list \<times> ('w, 'd) gstate \<Rightarrow>
     ((string \<times> bool) list \<times> ('w, 'd) gstate) result" where
  "run_check k e d p m = (\<lambda>(results, gs).
     case Option.bind m (design_module d) of
       None \<Rightarrow> if k = Mul then Inl Abort else Inr (results, gs)
     | Some mo \<Rightarrow> rbind (case od_get (mod_to_report p) m of None \<Rightarrow> Inr ([], [], []) | Some rep \<Rightarrow> Inr rep) (\<lambda>rep.
         rmap (\<lambda>(result, gs). (results @ [(m_name mo, result)], gs)) (check_arith k e d mo rep gs)))"

definition extract_module :: "arith \<Rightarrow> (string \<Rightarrow> nat) \<Rightarrow> string \<Rightarrow> Design \<Rightarrow> Design result" where
  "extract_module k idx name d =
     (case design_module d name of None \<Rightarrow> Inl Abort | Some m \<Rightarrow> rmap (design_update d) (extract_cells k idx d m))"

definition check_extract ::
    "arith \<Rightarrow> (string \<Rightarrow> nat) \<Rightarrow> ('w, 'd) arith_env \<Rightarrow> MultiMapEntry list \<Rightarrow> Design \<Rightarrow> ('w, 'd) gstate \<Rightarrow>
     ((string \<times> bool) list \<times> string list \<times> Design \<times> ('w, 'd) gstate) result" where
  "check_extract k idx e mm d gs =
     rbind (rfold (plan_entry k d) mm \<lparr>mod_to_check = [], mod_to_report = [], mod_to_extract = [], mod_to_blackbox = [], touched_mods = []\<rparr>) (\<lambda>p.
     rbind (rfold (run_check k e d p) (iterate (mod_to_check p)) ([], gs)) (\<lambda>(results, gs).
     rbind (rfold (extract_module k idx) (iterate (mod_to_extract p)) d) (\<lambda>d.
     rbind (rfold (\<lambda>m d. case m of None \<Rightarrow> Inl Abort
         | Some name \<Rightarrow> with_module (\<lambda>m. set_bool_attribute m (bs ''blackbox'') True) name d) (iterate (mod_to_blackbox p)) d) (\<lambda>d.
     Inr (results, touched_mods p, d, gs)))))"

definition check_extract_multi ::
    "(string \<Rightarrow> nat) \<Rightarrow> ('w, 'd) arith_env \<Rightarrow> MultiMapEntry list \<Rightarrow> Design \<Rightarrow> ('w, 'd) gstate \<Rightarrow>
     ((string \<times> bool) list \<times> string list \<times> Design \<times> ('w, 'd) gstate) result" where
  "check_extract_multi = check_extract Mul"

definition check_extract_div ::
    "(string \<Rightarrow> nat) \<Rightarrow> ('w, 'd) arith_env \<Rightarrow> DivMapEntry list \<Rightarrow> Design \<Rightarrow> ('w, 'd) gstate \<Rightarrow>
     ((string \<times> bool) list \<times> string list \<times> Design \<times> ('w, 'd) gstate) result" where
  "check_extract_div = check_extract Div"

section \<open>The Verilog text of a divider\<close>

record 'w text_files =
  read_text :: "string \<Rightarrow> 'w \<Rightarrow> string list option"
  write_text :: "string \<Rightarrow> string list \<Rightarrow> 'w \<Rightarrow> bool \<times> 'w"
  unlink :: "string \<Rightarrow> 'w \<Rightarrow> 'w"

definition source_path :: "string \<Rightarrow> string" where
  "source_path src = (let p = takeWhile (\<lambda>c. c \<noteq> CHR '':'') src in if p = src then [] else p)"

text \<open>
  Every \<open>1'h0\<close> (or \<open>1'h1\<close>) becomes \<open>1'b0\<close> (\<open>1'b1\<close>). The loop of the source replaces the first occurrence until
  there is none; the digit of one occurrence may begin the next one.
\<close>

function bit_literals :: "char \<Rightarrow> string \<Rightarrow> string" where
  "bit_literals b [] = []"
| "bit_literals b (c # s) =
     (if begins_with (c # s) (''1'h'' @ [b]) then ''1'b'' @ bit_literals b (drop 2 s) else c # bit_literals b s)"
  by pat_completeness auto

termination
  by (relation "measure (\<lambda>(_, s). length s)") auto

definition indent_of :: "string \<Rightarrow> nat option" where
  "indent_of line = find (\<lambda>i. line ! i \<noteq> CHR '' '' \<and> line ! i \<noteq> CHR 0x09) [0..<length line]"

definition rfind_before :: "string \<Rightarrow> char \<Rightarrow> nat \<Rightarrow> nat option" where
  "rfind_before s c n = find_last_of (take n s) c"

definition trim_end :: "string \<Rightarrow> string" where
  "trim_end s = rev (dropWhile (\<lambda>c. c = CHR '' '') (rev s))"

text \<open>The name a line declares as a wire.\<close>

definition declared_wire :: "string \<Rightarrow> string option" where
  "declared_wire line =
     (case indent_of line of
        None \<Rightarrow> None
      | Some p \<Rightarrow>
          if \<not> begins_with (drop p line) ''wire'' then None
          else case find_last_of line CHR '';'' of
            None \<Rightarrow> None
          | Some semi \<Rightarrow> (case rfind_before line CHR '' '' semi of
              None \<Rightarrow> None
            | Some ns \<Rightarrow>
                if ns \<le> p then None
                else let name = trim_end (take (semi - ns - 1) (drop (Suc ns) line))
                     in Some (if begins_with name [CHR 0x5C] then drop 1 name else name)))"

definition rewrite_line :: "string list \<Rightarrow> string \<Rightarrow> nat \<times> string list \<Rightarrow> nat \<times> string list" where
  "rewrite_line port_names line = (\<lambda>(node_id, out).
     if (case declared_wire line of None \<Rightarrow> False | Some name \<Rightarrow> name \<in> set port_names) then (node_id, out)
     else let p = indent_of line; line = bit_literals CHR ''1'' (bit_literals CHR ''0'' line)
          in case (p, find_last_of line CHR '';'') of
               (Some i, Some semi) \<Rightarrow>
                 if begins_with (drop i line) ''assign''
                 then (Suc node_id, out @ [take semi line @ '' /*'' @ to_string (int node_id) @ ''*/'' @ drop semi line])
                 else (node_id, out @ [line])
             | _ \<Rightarrow> (node_id, out @ [line]))"

definition rewrite_verilog :: "string list \<Rightarrow> string list \<Rightarrow> string list" where
  "rewrite_verilog port_names ls = snd (fold (rewrite_line port_names) ls (500, []))"

definition dump_verilog ::
    "'w text_files \<Rightarrow> (string \<Rightarrow> Design \<Rightarrow> 'w \<Rightarrow> 'w result) \<Rightarrow> Module \<Rightarrow> string \<Rightarrow> 'w \<Rightarrow> (string \<times> 'w) result" where
  "dump_verilog fl write_pass m dir_name w =
     (let base = strip_backslash (m_name m); v_file = dir_name @ ''/'' @ base @ ''.v''; raw_file = dir_name @ ''/_'' @ base @ ''.v'';
          src = (case od_get (m_attrs m) (bs ''src'') of None \<Rightarrow> [] | Some c \<Rightarrow> decode_string c); src_path = source_path src
      in if src_path \<noteq> []
         then (case read_text fl src_path w of
                 None \<Rightarrow> Inl Abort
               | Some ls \<Rightarrow> Inr (v_file, snd (write_text fl v_file ls w)))
         else rbind (write_pass (''write_verilog -noattr '' @ raw_file) [m] w) (\<lambda>w.
              let port_names = map (\<lambda>w. strip_backslash (w_name w)) (filter (\<lambda>w. port_id w > 0) (iterate (m_wires m)))
              in case read_text fl raw_file w of
                   None \<Rightarrow> Inr (v_file, snd (write_text fl v_file [] w))
                 | Some ls \<Rightarrow> (case write_text fl v_file (rewrite_verilog port_names ls) w of
                     (okay, w) \<Rightarrow> Inr (v_file, if okay then unlink fl raw_file w else w))))"

definition signature_range :: "Wire \<Rightarrow> string" where
  "signature_range w =
     strip_backslash (w_name w) @ '' = (0'' @ concat (map (\<lambda>i. '', '' @ to_string (int i)) [1..<w_width w]) @ '')'' @ [CHR 0x0A]"

definition nth_name :: "Wire list \<Rightarrow> nat \<Rightarrow> string \<Rightarrow> string" where
  "nth_name ws i dflt = (if i < length ws then strip_backslash (w_name (ws ! i)) else dflt)"

text \<open>The text of the signature file; not being able to open it is an error.\<close>

definition dump_signature ::
    "(string \<Rightarrow> string \<Rightarrow> 'w \<Rightarrow> 'w option) \<Rightarrow> Module \<Rightarrow> string \<Rightarrow> 'w \<Rightarrow> (string \<times> 'w) result" where
  "dump_signature write_file m dir_name w =
     (let sig_file = dir_name @ ''/'' @ strip_backslash (m_name m) @ ''.sig'';
          ins = ports_in_order port_input m; outs = ports_in_order port_output m; nl = [CHR 0x0A]
      in case write_file sig_file
           (''Signature:'' @ nl @ concat (map signature_range (ins @ outs)) @ nl @ ''Polynom Description:'' @ nl @
            nth_name outs 0 ''Y'' @ ''*'' @ nth_name ins 1 ''B'' @ '' + '' @ nth_name outs 1 ''R'' @ '' +- '' @ nth_name ins 0 ''A'' @ nl) w of
         None \<Rightarrow> Inl (LogError (''Cannot open signature file '' @ sig_file @ ''.'' @ nl))
       | Some w \<Rightarrow> Inr (sig_file, w))"

section \<open>Pairing by width and sign\<close>

abbreviation key :: "Multi \<Rightarrow> bool \<times> nat" where
  "key m \<equiv> (mu_sign m, mu_width m)"

lemma multi_less_key: "multi_less a b \<longleftrightarrow> key a < key b"
  by (auto simp: multi_less_def less_prod_def')

lemma insert_multi_keys: "map key (insert_by multi_less x ys) = insort (key x) (map key ys)"
proof (induction ys)
  case (Cons y ys)
  show ?case
  proof (cases "key y < key x")
    case True
    then have "\<not> key x \<le> key y" by (simp only: not_le)
    then show ?thesis using Cons True by (simp only: insert_by.simps list.map insort_key.simps multi_less_key if_True if_False)
  next
    case False
    then have "key x \<le> key y" by (simp only: not_less)
    then show ?thesis using False by (simp only: insert_by.simps list.map insort_key.simps multi_less_key if_True if_False)
  qed
qed simp

lemma sort_multi_keys: "map key (sort_by multi_less xs) = sort (map key xs)"
  by (induction xs) (simp_all only: sort_by_def foldr.simps o_apply id_apply list.map insert_multi_keys sort_key_simps sort_key_def)

lemma sort_eq_mset: "sort (xs :: ('a :: linorder) list) = sort ys \<longleftrightarrow> mset xs = mset ys"
  by (metis mset_sort properties_for_sort sorted_sort)

lemma pair_cells_ok:
  assumes "length gs = length ks" "pair_cells gold gate gs ks = (es, okay)"
  shows "okay = (map key gs = map key ks)" "length es \<le> length gs" "okay \<Longrightarrow> length es = length gs"
    "\<forall>i < length es. e_gold_mod (es ! i) = gold \<and> e_gate_mod (es ! i) = gate \<and> \<not> is_multi_mod (es ! i) \<and>
      e_gold_cell (es ! i) = mu_cell (gs ! i) \<and> e_gate_cell (es ! i) = mu_cell (ks ! i) \<and> param_equal (gs ! i) (ks ! i)"
proof -
  have "okay = (map key gs = map key ks) \<and> length es \<le> length gs \<and> (okay \<longrightarrow> length es = length gs) \<and>
    (\<forall>i < length es. e_gold_mod (es ! i) = gold \<and> e_gate_mod (es ! i) = gate \<and> \<not> is_multi_mod (es ! i) \<and>
      e_gold_cell (es ! i) = mu_cell (gs ! i) \<and> e_gate_cell (es ! i) = mu_cell (ks ! i) \<and> param_equal (gs ! i) (ks ! i))"
    using assms
  proof (induction gs ks arbitrary: es okay rule: list_induct2)
    case (Cons g gs k ks)
    obtain es1 ok1 where 1: "pair_cells gold gate gs ks = (es1, ok1)" by fastforce
    show ?case using Cons.IH [OF 1] Cons.prems 1
      by (auto simp: param_equal_def nth_Cons split: if_splits nat.splits)
  qed simp
  then show "okay = (map key gs = map key ks)" "length es \<le> length gs" "okay \<Longrightarrow> length es = length gs"
    "\<forall>i < length es. e_gold_mod (es ! i) = gold \<and> e_gate_mod (es ! i) = gate \<and> \<not> is_multi_mod (es ! i) \<and>
      e_gold_cell (es ! i) = mu_cell (gs ! i) \<and> e_gate_cell (es ! i) = mu_cell (ks ! i) \<and> param_equal (gs ! i) (ks ! i)"
    by blast+
qed

text \<open>The arithmetic cells of a module with their widths and signs.\<close>

definition arith_cells :: "arith \<Rightarrow> Design \<Rightarrow> Module \<Rightarrow> NCell list" where
  "arith_cells k d m = filter (\<lambda>c. is_arith_cell k d c = Inr True) (iterate (m_cells m))"

lemma collect_cells_ok:
  assumes "collect_cells k d m = Inr gs"
  shows "map mu_cell gs = map c_name (arith_cells k d m)"
    "map (\<lambda>c. get_width_sign k d c) (arith_cells k d m) = map (\<lambda>g. Inr (mu_width g, mu_sign g)) gs"
proof -
  let ?f = "\<lambda>c acc. rbind (is_arith_cell k d c) (\<lambda>yes.
       if \<not> yes then Inr acc
       else rmap (\<lambda>(w, s). acc @ [\<lparr>mu_width = w, mu_sign = s, mu_cell = c_name c\<rparr>]) (get_width_sign k d c))"
  have "\<exists>new. out = acc @ new \<and> map mu_cell new = map c_name (filter (\<lambda>c. is_arith_cell k d c = Inr True) cs) \<and>
      map (\<lambda>c. get_width_sign k d c) (filter (\<lambda>c. is_arith_cell k d c = Inr True) cs) = map (\<lambda>g. Inr (mu_width g, mu_sign g)) new"
    if "rfold ?f cs acc = Inr out" for cs acc out
    using that
  proof (induction cs arbitrary: acc)
    case (Cons c cs)
    obtain acc1 where one: "?f c acc = Inr acc1" "rfold ?f cs acc1 = Inr out" using Cons.prems by (auto simp: rbind_eq_Inr_iff)
    obtain new where new: "out = acc1 @ new" "map mu_cell new = map c_name (filter (\<lambda>c. is_arith_cell k d c = Inr True) cs)"
        "map (\<lambda>c. get_width_sign k d c) (filter (\<lambda>c. is_arith_cell k d c = Inr True) cs) = map (\<lambda>g. Inr (mu_width g, mu_sign g)) new"
      using Cons.IH [OF one(2)] by blast
    show ?case
    proof (cases "is_arith_cell k d c = Inr True")
      case True
      then obtain w s where "get_width_sign k d c = Inr (w, s)" "acc1 = acc @ [\<lparr>mu_width = w, mu_sign = s, mu_cell = c_name c\<rparr>]"
        using one(1) by (auto simp: rmap_eq_Inr_iff)
      then show ?thesis using new True by (intro exI [of _ "\<lparr>mu_width = w, mu_sign = s, mu_cell = c_name c\<rparr> # new"]) simp
    next
      case False
      then have "acc1 = acc" using one(1) by (auto simp: rbind_eq_Inr_iff split: if_splits)
      then show ?thesis using new False by auto
    qed
  qed simp
  from this [OF assms [unfolded collect_cells_def]] show "map mu_cell gs = map c_name (arith_cells k d m)"
    "map (\<lambda>c. get_width_sign k d c) (arith_cells k d m) = map (\<lambda>g. Inr (mu_width g, mu_sign g)) gs"
    by (auto simp: arith_cells_def)
qed

lemma nth_zip_image: "length xs = length es \<Longrightarrow> (\<And>i. i < length es \<Longrightarrow> f (es ! i) = g (xs ! i)) \<Longrightarrow> map f es = map g xs"
  by (rule nth_equalityI) auto

lemma map_cells_ok:
  assumes "collect_cells k d gm = Inr gs" "collect_cells k d km = Inr ks"
  shows "\<exists>es. map_cells k d gm km = Inr es \<and>
    (\<forall>e \<in> set es. \<exists>g \<in> set gs. \<exists>k' \<in> set ks. e_gold_cell e = mu_cell g \<and> e_gate_cell e = mu_cell k' \<and> param_equal g k' \<and>
      e_gold_mod e = m_name gm \<and> e_gate_mod e = m_name km \<and> \<not> is_multi_mod e) \<and>
    (mset (map key gs) = mset (map key ks) \<longrightarrow>
      mset (map e_gold_cell es) = mset (map mu_cell gs) \<and> mset (map e_gate_cell es) = mset (map mu_cell ks)) \<and>
    (k = Mul \<and> mset (map key gs) \<noteq> mset (map key ks) \<longrightarrow> es = [])"
proof (cases "length gs \<noteq> length ks \<or> gs = []")
  case True
  then have "map_cells k d gm km = Inr []" using assms by (simp add: map_cells_def)
  moreover have "gs = [] \<and> ks = []" if "mset (map key gs) = mset (map key ks)"
    using True that mset_eq_length [OF that] by auto
  ultimately show ?thesis by auto
next
  case False
  let ?gs = "sort_by multi_less gs" and ?ks = "sort_by multi_less ks"
  obtain es okay where p: "pair_cells (m_name gm) (m_name km) ?gs ?ks = (es, okay)" by fastforce
  have len: "length ?gs = length ?ks" using False by simp
  note ok = pair_cells_ok [OF len p]
  have run: "map_cells k d gm km = Inr (if k = Mul \<and> \<not> okay then [] else es)" using assms False p by (simp add: map_cells_def)
  have okay: "okay \<longleftrightarrow> mset (map key gs) = mset (map key ks)"
    unfolding ok(1) sort_multi_keys sort_eq_mset ..
  have each: "\<exists>g \<in> set gs. \<exists>k' \<in> set ks. e_gold_cell e = mu_cell g \<and> e_gate_cell e = mu_cell k' \<and> param_equal g k' \<and>
      e_gold_mod e = m_name gm \<and> e_gate_mod e = m_name km \<and> \<not> is_multi_mod e" if "e \<in> set es" for e
  proof -
    obtain i where i: "i < length es" "e = es ! i" using \<open>e \<in> set es\<close> by (auto simp: in_set_conv_nth)
    then have "?gs ! i \<in> set gs" "?ks ! i \<in> set ks" using ok(2) len nth_mem [of i ?gs] nth_mem [of i ?ks] by (simp_all add: sort_by_set)
    then show ?thesis using ok(4) i by blast
  qed
  have all: "mset (map e_gold_cell es) = mset (map mu_cell gs) \<and> mset (map e_gate_cell es) = mset (map mu_cell ks)" if okay
  proof -
    have "map e_gold_cell es = map mu_cell ?gs" "map e_gate_cell es = map mu_cell ?ks"
      using ok(3) [OF that] ok(4) len by (auto intro!: nth_zip_image)
    then show ?thesis by (metis mset_map sort_by_mset)
  qed
  show ?thesis using run okay each all by (intro exI [of _ "if k = Mul \<and> \<not> okay then [] else es"]) auto
qed

section \<open>Stub names\<close>

abbreviation stub_cand :: "string \<Rightarrow> nat \<Rightarrow> string" where
  "stub_cand base i \<equiv> escape_id (if i = 0 then base else base @ ''$'' @ to_string (int i))"

lemma stub_plain [simp]: "plain_prefix (stub_prefix k)"
  by (cases k) (simp_all add: plain_prefix_def)

lemma stub_cand_eq: "stub_cand (stub_prefix k @ tag) i = bs (stub_prefix k) @ tag @ (if i = 0 then [] else ''$'' @ to_string (int i))"
  using escape_plain [OF stub_plain, of k tag] escape_plain [OF stub_plain, of k "tag @ ''$'' @ to_string (int i)"] by simp

lemma module_cell_None: "module_cell m n = None \<longleftrightarrow> n \<notin> c_name ` set (m_cells m)"
  by (auto simp: module_cell_def find_none)

lemma unique_cell_loop_ends:
  assumes "i \<le> j" "j < i + fuel" "module_cell m (stub_cand base j) = None"
  shows "\<exists>j'. unique_cell_loop m base i fuel = Inr (stub_cand base j') \<and> module_cell m (stub_cand base j') = None"
  using assms
proof (induction fuel arbitrary: i)
  case (Suc fuel)
  show ?case
  proof (cases "module_cell m (stub_cand base i) = None")
    case False
    then have "Suc i \<le> j" using Suc.prems by (metis le_antisym not_less_eq_eq)
    then have "\<exists>j'. unique_cell_loop m base (Suc i) fuel = Inr (stub_cand base j') \<and> module_cell m (stub_cand base j') = None"
      using Suc.IH [of "Suc i"] Suc.prems by simp
    moreover have "unique_cell_loop m base i (Suc fuel) = unique_cell_loop m base (Suc i) fuel"
      using False by (simp only: unique_cell_loop.simps Let_def if_False)
    ultimately show ?thesis by (simp only:)
  next
    case True
    then have "unique_cell_loop m base i (Suc fuel) = Inr (stub_cand base i)"
      by (simp only: unique_cell_loop.simps Let_def if_True simp_thms)
    then show ?thesis using True by blast
  qed
qed simp

lemma unique_cell_fresh:
  "\<exists>rest. unique_cell_name m (stub_prefix k @ tag) = Inr (bs (stub_prefix k) @ rest) \<and>
     bs (stub_prefix k) @ rest \<notin> c_name ` set (m_cells m)"
proof -
  let ?c = "stub_cand (stub_prefix k @ tag)" and ?n = "length (m_cells m)"
  have inj: "inj_on ?c {..?n}" by (auto simp: inj_on_def stub_cand_eq to_string_inj)
  have "\<exists>j \<le> ?n. ?c j \<notin> c_name ` set (m_cells m)"
  proof (rule ccontr)
    assume "\<not> ?thesis"
    then have "?c ` {..?n} \<subseteq> c_name ` set (m_cells m)" by auto
    then have "card {..?n} \<le> card (c_name ` set (m_cells m))" by (intro card_inj_on_le [OF inj]) auto
    moreover have "card (c_name ` set (m_cells m)) \<le> ?n" by (metis card_length length_map set_map)
    ultimately show False by simp
  qed
  then obtain j where "j \<le> ?n" "module_cell m (?c j) = None" by (auto simp: module_cell_None)
  then obtain j' where "unique_cell_name m (stub_prefix k @ tag) = Inr (?c j')" "module_cell m (?c j') = None"
    using unique_cell_loop_ends [of 0 j "Suc ?n" m "stub_prefix k @ tag"] by (auto simp: unique_cell_name_def)
  then show ?thesis unfolding stub_cand_eq module_cell_None by blast
qed

section \<open>Replacing cells by stubs\<close>

text \<open>No wire, memory or process of the module has a name that a stub may be given.\<close>

definition stub_names_free :: "arith \<Rightarrow> Module \<Rightarrow> bool" where
  "stub_names_free k m \<longleftrightarrow> (\<forall>n \<in> set (map w_name (m_wires m) @ m_others m). \<not> begins_with n (bs (stub_prefix k)))"

abbreviation anon :: "NCell \<Rightarrow> NCell" where
  "anon c \<equiv> c\<lparr>c_name := []\<rparr>"

text \<open>The stubs that replace a cell, up to their names.\<close>

definition stubs_of :: "arith \<Rightarrow> Design \<Rightarrow> NCell \<Rightarrow> NCell list" where
  "stubs_of k d c = (case pick_operands k d c of Inl _ \<Rightarrow> []
     | Inr (a, b) \<Rightarrow> map (\<lambda>(out_sig, _). xor_stub [] a b out_sig) (stub_outputs k d c))"

lemma stub_name_unused:
  assumes "stub_names_free k m" "bs (stub_prefix k) @ rest \<notin> c_name ` set (m_cells m)"
  shows "count_id m (bs (stub_prefix k) @ rest) = 0"
proof -
  have "begins_with (bs (stub_prefix k) @ rest) (bs (stub_prefix k))" by (simp add: begins_with_def)
  then have "bs (stub_prefix k) @ rest \<notin> set (map w_name (m_wires m) @ m_others m)"
    using assms(1) unfolding stub_names_free_def by blast
  then show ?thesis using assms(2) by (simp add: count_id_zero all_ids_def)
qed

lemma add_xor_driver_ok:
  assumes "stub_names_free k m"
  shows "\<exists>s. add_xor_driver k a b out m = Inr (m\<lparr>m_cells := m_cells m @ [s]\<rparr>) \<and>
    anon s = xor_stub [] a b (fst out) \<and> c_name s \<notin> c_name ` set (m_cells m)"
proof (cases out)
  case (Pair out_sig tag)
  obtain rest where r: "unique_cell_name m (stub_prefix k @ tag) = Inr (bs (stub_prefix k) @ rest)"
      "bs (stub_prefix k) @ rest \<notin> c_name ` set (m_cells m)" using unique_cell_fresh by blast
  let ?s = "xor_stub (bs (stub_prefix k) @ rest) a b out_sig"
  have "add_cell m ?s = Inr (m\<lparr>m_cells := m_cells m @ [?s]\<rparr>)"
    using stub_name_unused [OF assms r(2)] by (simp add: add_cell_def xor_stub_def Let_def)
  then show ?thesis using r Pair by (intro exI [of _ ?s]) (simp add: add_xor_driver_def xor_stub_def Let_def)
qed

lemma stub_names_free_cells [simp]: "stub_names_free k (m\<lparr>m_cells := cs\<rparr>) = stub_names_free k m"
  by (simp add: stub_names_free_def)

lemma add_xor_drivers_ok:
  assumes "stub_names_free k m"
  shows "\<exists>ss. rfold (add_xor_driver k a b) outs m = Inr (m\<lparr>m_cells := m_cells m @ ss\<rparr>) \<and>
    map anon ss = map (\<lambda>(out_sig, _). xor_stub [] a b out_sig) outs \<and>
    distinct (map c_name ss) \<and> c_name ` set ss \<inter> c_name ` set (m_cells m) = {}"
  using assms
proof (induction outs arbitrary: m)
  case (Cons out outs)
  obtain s where s: "add_xor_driver k a b out m = Inr (m\<lparr>m_cells := m_cells m @ [s]\<rparr>)"
      "anon s = xor_stub [] a b (fst out)" "c_name s \<notin> c_name ` set (m_cells m)"
    using add_xor_driver_ok [OF Cons.prems] by blast
  let ?m = "m\<lparr>m_cells := m_cells m @ [s]\<rparr>"
  obtain ss where ss: "rfold (add_xor_driver k a b) outs ?m = Inr (?m\<lparr>m_cells := m_cells ?m @ ss\<rparr>)"
      "map anon ss = map (\<lambda>(out_sig, _). xor_stub [] a b out_sig) outs"
      "distinct (map c_name ss)" "c_name ` set ss \<inter> c_name ` set (m_cells ?m) = {}"
    using Cons.IH [of ?m] Cons.prems by auto
  show ?case using s ss by (intro exI [of _ "s # ss"]) (auto simp: case_prod_beta)
qed (simp add: exI [of _ "[]"])

lemma replace_with_stub_ok:
  assumes "stub_names_free k m" "distinct (map c_name (m_cells m))" "c \<in> set (m_cells m)" "pick_operands k d c = Inr ab"
  shows "\<exists>cs ss. replace_with_stub k d c m = Inr (m\<lparr>m_cells := cs\<rparr>) \<and> set cs = (set (m_cells m) - {c}) \<union> set ss \<and>
    distinct (map c_name cs) \<and> map anon ss = stubs_of k d c \<and>
    distinct (map c_name ss) \<and> c_name ` set ss \<inter> c_name ` set (m_cells m) = {}"
proof -
  obtain a b where ab: "ab = (a, b)" by fastforce
  obtain ss where ss: "rfold (add_xor_driver k a b) (stub_outputs k d c) m = Inr (m\<lparr>m_cells := m_cells m @ ss\<rparr>)"
      "map anon ss = map (\<lambda>(out_sig, _). xor_stub [] a b out_sig) (stub_outputs k d c)"
      "distinct (map c_name ss)" "c_name ` set ss \<inter> c_name ` set (m_cells m) = {}"
    using add_xor_drivers_ok [OF assms(1)] by blast
  let ?cs = "erase_key c_name (c_name c) (m_cells m @ ss)"
  have "distinct (map c_name (m_cells m @ ss))" using assms(2) ss(3,4) by auto
  note e = erase_key_ok [OF this, of "c_name c"]
  have "{p \<in> set (m_cells m). c_name p \<noteq> c_name c} = set (m_cells m) - {c}"
    using assms(2,3) by (auto simp: distinct_map inj_on_def)
  moreover have "{p \<in> set ss. c_name p \<noteq> c_name c} = set ss" using ss(4) assms(3) by auto
  ultimately have "set ?cs = (set (m_cells m) - {c}) \<union> set ss" using e(1) by auto
  moreover have "replace_with_stub k d c m = Inr (m\<lparr>m_cells := ?cs\<rparr>)"
    using ss(1) assms(3,4) ab by (auto simp: replace_with_stub_def remove_cell_def module_cell_None)
  ultimately show ?thesis using e(2) ss(2-4) assms(4) ab by (intro exI [of _ ?cs] exI [of _ ss]) (simp add: stubs_of_def)
qed

abbreviation arith_cell :: "arith \<Rightarrow> Design \<Rightarrow> NCell \<Rightarrow> bool" where
  "arith_cell k d c \<equiv> is_arith_cell k d c = Inr True"

text \<open>The internal cells have the ports that the code reads.\<close>

definition arith_ports :: "arith \<Rightarrow> NCell \<Rightarrow> bool" where
  "arith_ports k c \<longleftrightarrow> (c_type c = arith_type k \<longrightarrow> (\<forall>p \<in> {bs ''A'', bs ''B'', bs ''Y''}. has_port c p))"

lemma has_port_get: "has_port c p \<longleftrightarrow> (\<exists>sig. get_port c p = Inr sig)"
  by (auto simp: has_port_def get_port_def od_count_get split: option.splits)

lemma arith_ports_ok:
  assumes "arith_ports k c"
  shows "\<exists>yes. is_arith_cell k d c = Inr yes" and "\<exists>ab. pick_operands k d c = Inr ab"
proof -
  show "\<exists>yes. is_arith_cell k d c = Inr yes"
    using assms by (cases "c_type c = arith_type k") (auto simp: is_arith_cell_def valid_internal_cell_def arith_ports_def has_port_get)
  show "\<exists>ab. pick_operands k d c = Inr ab"
    using assms by (cases "c_type c = arith_type k") (auto simp: pick_operands_def arith_ports_def has_port_get Let_def split: prod.split)
qed

abbreviation stub_step :: "arith \<Rightarrow> Design \<Rightarrow> NCell \<Rightarrow> Module \<Rightarrow> Module result" where
  "stub_step k d c m \<equiv> rbind (is_arith_cell k d c) (\<lambda>yes. if yes then replace_with_stub k d c m else Inr m)"

lemma stub_fold_ok:
  assumes "stub_names_free k m" "distinct (map c_name (m_cells m))" "distinct cs" "set cs \<subseteq> set (m_cells m)"
    "\<forall>c \<in> set cs. arith_ports k c"
  shows "\<exists>cs' ss. rfold (stub_step k d) cs m = Inr (m\<lparr>m_cells := cs'\<rparr>) \<and>
    set cs' = (set (m_cells m) - {c \<in> set cs. arith_cell k d c}) \<union> set ss \<and> distinct (map c_name cs') \<and>
    map anon ss = concat (map (stubs_of k d) (filter (arith_cell k d) cs)) \<and> distinct (map c_name ss) \<and>
    c_name ` set ss \<inter> c_name ` (set (m_cells m) - {c \<in> set cs. arith_cell k d c}) = {}"
  using assms
proof (induction cs arbitrary: m)
  case (Cons c cs)
  obtain yes where yes: "is_arith_cell k d c = Inr yes" using arith_ports_ok(1) Cons.prems(5) by fastforce
  show ?case
  proof (cases yes)
    case False
    then have "stub_step k d c m = Inr m" "{x \<in> set (c # cs). arith_cell k d x} = {x \<in> set cs. arith_cell k d x}" using yes by auto
    then show ?thesis using Cons.IH [of m] Cons.prems yes False by simp
  next
    case True
    obtain ab where ab: "pick_operands k d c = Inr ab" using arith_ports_ok(2) Cons.prems(5) by fastforce
    have mem: "c \<in> set (m_cells m)" using Cons.prems(4) by simp
    obtain c1 s1 where one: "replace_with_stub k d c m = Inr (m\<lparr>m_cells := c1\<rparr>)" "set c1 = (set (m_cells m) - {c}) \<union> set s1"
        "distinct (map c_name c1)" "map anon s1 = stubs_of k d c" "distinct (map c_name s1)"
        "c_name ` set s1 \<inter> c_name ` set (m_cells m) = {}"
      using replace_with_stub_ok [OF Cons.prems(1,2) mem ab] by blast
    let ?m = "m\<lparr>m_cells := c1\<rparr>" and ?A = "{x \<in> set cs. arith_cell k d x}"
    have "set cs \<subseteq> set (m_cells ?m)" using Cons.prems(3,4) one(2) by auto
    then obtain c2 s2 where two: "rfold (stub_step k d) cs ?m = Inr (?m\<lparr>m_cells := c2\<rparr>)" "set c2 = (set c1 - ?A) \<union> set s2"
        "distinct (map c_name c2)" "map anon s2 = concat (map (stubs_of k d) (filter (arith_cell k d) cs))"
        "distinct (map c_name s2)" "c_name ` set s2 \<inter> c_name ` (set c1 - ?A) = {}"
      using Cons.IH [of ?m] Cons.prems one(3) by auto
    have new: "set s1 \<inter> ?A = {}" using one(6) Cons.prems(4) by auto
    have all: "{x \<in> set (c # cs). arith_cell k d x} = insert c ?A" using yes True by auto
    have kept: "set c1 - ?A = (set (m_cells m) - insert c ?A) \<union> set s1" using one(2) new by blast
    have cover: "set c2 = (set (m_cells m) - insert c ?A) \<union> set (s1 @ s2)" using two(2) kept by auto
    have dist: "distinct (map c_name (s1 @ s2))" using one(5) two(5,6) kept by auto
    have apart: "c_name ` set (s1 @ s2) \<inter> c_name ` (set (m_cells m) - insert c ?A) = {}" using one(6) two(6) kept by auto
    show ?thesis using one(1) two(1,3) yes True cover dist apart one(4) two(4)
      unfolding all by (intro exI [of _ c2] exI [of _ "s1 @ s2"]) simp
  qed
next
  case Nil
  then show ?case by (intro exI [of _ "m_cells m"] exI [of _ "[]"]) simp
qed

lemma extract_cells_ok:
  assumes "stub_names_free k m" "distinct (map c_name (m_cells m))" "\<forall>c \<in> set (m_cells m). arith_ports k c"
  shows "\<exists>cs ss. extract_cells k idx d m = Inr (fixup_ports idx (m\<lparr>m_cells := cs\<rparr>)) \<and>
    set cs = {c \<in> set (m_cells m). \<not> arith_cell k d c} \<union> set ss \<and> distinct (map c_name cs) \<and>
    map anon ss = concat (map (stubs_of k d) (filter (arith_cell k d) (iterate (m_cells m)))) \<and> distinct (map c_name ss) \<and>
    c_name ` set ss \<inter> c_name ` {c \<in> set (m_cells m). \<not> arith_cell k d c} = {}"
proof -
  have "distinct (iterate (m_cells m))" using assms(2) by (simp add: distinct_map)
  moreover have "set (m_cells m) - {c \<in> set (m_cells m). arith_cell k d c} = {c \<in> set (m_cells m). \<not> arith_cell k d c}" by auto
  ultimately show ?thesis using stub_fold_ok [OF assms(1,2), of "iterate (m_cells m)" d] assms(3) by (auto simp: extract_cells_def)
qed

section \<open>The order of the operands\<close>

definition swap_operands :: "NCell \<Rightarrow> NCell" where
  "swap_operands c =
     set_port (set_port c (bs ''A'') (cell_port c (bs ''B''))) (bs ''B'') (cell_port c (bs ''A''))"

text \<open>Whether the signal values satisfy a binary cell, by the evaluation of \<open>CellTypes\<close>.\<close>

definition cell_holds :: "(SigBit \<Rightarrow> State) \<Rightarrow> NCell \<Rightarrow> bool" where
  "cell_holds v c \<longleftrightarrow> eval_type (c_type c) (map v (cell_port c (bs ''A''))) (map v (cell_port c (bs ''B'')))
     (param_bool c (bs ''A_SIGNED'')) (param_bool c (bs ''B_SIGNED'')) (int (length (cell_port c (bs ''Y'')))) False =
     Inr (map v (cell_port c (bs ''Y'')), False)"

lemma cell_holds_anon [simp]: "cell_holds v (anon c) = cell_holds v c"
  by (simp add: cell_holds_def cell_port_def get_port_def param_bool_def)

lemma length_resize_u0 [simp]: "length (resize_u0 a n) = n"
  by (simp add: resize_u0_def)

lemma logic_xor_commute: "logic_xor a b = logic_xor b a"
  by (cases a; cases b) (simp_all add: logic_xor_def)

lemma const_xor_commute: "length a = length b \<Longrightarrow> const_xor a b s s n = const_xor b a s s n"
  by (simp add: const_xor_def logic_wrapper_def Let_def out_len_def logic_xor_commute)

lemma as_bool_zero: "\<not> as_bool (const_of_ll 0)"
  by code_simp

lemma xor_stub_holds:
  "cell_holds v (xor_stub name a b out_sig) \<longleftrightarrow>
     const_xor (map v (resize_u0 a (length out_sig))) (map v (resize_u0 b (length out_sig))) False False (int (length out_sig)) = map v out_sig"
  by (simp add: cell_holds_def xor_stub_def Let_def cell_port_def get_port_def od_get_def param_bool_def as_bool_zero
      eval_type_def eval_word_op_def keep_signs_def lift_ok_def)

lemma xor_stub_swap: "cell_holds v (xor_stub name a b out_sig) = cell_holds v (xor_stub name b a out_sig)"
  unfolding xor_stub_holds by (subst const_xor_commute) simp_all

lemma get_port_swap:
  assumes "has_port c (bs ''A'')" "has_port c (bs ''B'')"
  shows "get_port (swap_operands c) (bs ''A'') = get_port c (bs ''B'')"
    "get_port (swap_operands c) (bs ''B'') = get_port c (bs ''A'')"
    "p \<noteq> bs ''A'' \<Longrightarrow> p \<noteq> bs ''B'' \<Longrightarrow> get_port (swap_operands c) p = get_port c p"
    "c_type (swap_operands c) = c_type c" "c_name (swap_operands c) = c_name c"
    "c_params (swap_operands c) = c_params c" "c_attrs (swap_operands c) = c_attrs c"
  using assms by (auto simp: has_port_get swap_operands_def set_port_def get_port_def od_get_set cell_port_def)

lemma swap_ports [simp]: "has_port c (bs ''A'') \<Longrightarrow> has_port c (bs ''B'') \<Longrightarrow> has_port (swap_operands c) p = has_port c p"
  using get_port_swap(1,2) [of c] get_port_swap(3) [of c p] unfolding has_port_get by (cases "p = bs ''A''"; cases "p = bs ''B''") auto

lemma stubs_of_internal:
  assumes "c_type c = arith_type k" "get_port c (bs ''A'') = Inr a" "get_port c (bs ''B'') = Inr b" "get_port c (bs ''Y'') = Inr y"
  shows "stubs_of k d c = [xor_stub [] a b y]"
  using assms by (simp add: stubs_of_def pick_operands_def stub_outputs_def has_port_get cell_port_def)

lemma swap_internal:
  assumes "arith_ports k c" "valid_internal_cell k c = Inr True"
  shows "is_arith_cell k d (swap_operands c) = is_arith_cell k d c" "arith_ports k (swap_operands c)"
    "(\<forall>s \<in> set (stubs_of k d (swap_operands c)). cell_holds v s) = (\<forall>s \<in> set (stubs_of k d c). cell_holds v s)"
proof -
  have ty: "c_type c = arith_type k" using assms(2) by (auto simp: valid_internal_cell_def split: if_splits)
  then have ports: "has_port c (bs ''A'')" "has_port c (bs ''B'')" "has_port c (bs ''Y'')" using assms(1) by (simp_all add: arith_ports_def)
  then obtain a b y where abc: "get_port c (bs ''A'') = Inr a" "get_port c (bs ''B'') = Inr b" "get_port c (bs ''Y'') = Inr y"
    unfolding has_port_get by blast
  note sw = get_port_swap [OF ports(1,2)]
  have y: "get_port (swap_operands c) (bs ''Y'') = Inr y" using sw(3) [of "bs ''Y''"] abc by simp
  show "arith_ports k (swap_operands c)" using assms(1) ports by (simp add: arith_ports_def sw(4))
  have "valid_internal_cell k (swap_operands c) = valid_internal_cell k c"
    using abc y ty by (auto simp: valid_internal_cell_def sw param_bool_def)
  then show "is_arith_cell k d (swap_operands c) = is_arith_cell k d c"
    by (simp add: is_arith_cell_def cell_bool_attribute_def sw)
  have "stubs_of k d (swap_operands c) = [xor_stub [] b a y]" using abc y ty by (intro stubs_of_internal) (simp_all add: sw)
  moreover have "stubs_of k d c = [xor_stub [] a b y]" using abc ty by (intro stubs_of_internal)
  ultimately show "(\<forall>s \<in> set (stubs_of k d (swap_operands c)). cell_holds v s) = (\<forall>s \<in> set (stubs_of k d c). cell_holds v s)"
    using xor_stub_swap by simp
qed

lemma all_concat: "(\<forall>s \<in> set (concat (map S xs)). H s) \<longleftrightarrow> (\<forall>c \<in> set xs. \<forall>s \<in> set (S c). H s)"
  by auto

lemma filter_image_fixed:
  assumes "\<And>c. c \<in> A \<Longrightarrow> Q (f c) = Q c" "\<And>c. c \<in> A \<Longrightarrow> \<not> Q c \<Longrightarrow> f c = c"
  shows "{c \<in> f ` A. \<not> Q c} = {c \<in> A. \<not> Q c}"
    and "{c \<in> f ` A. Q c} = f ` {c \<in> A. Q c}"
  using assms by force+

section \<open>Claims\<close>

text \<open>C10: Extracting the multipliers or dividers of a module replaces exactly those cells. When the internal cells have
  their ports and no wire, memory or process has a name reserved for stubs, the extraction succeeds; every other cell is
  kept as it is, cell names stay distinct, and the new cells are, up to their names, the XOR stubs of the removed cells:
  one for every connected output, over the operands resized to its width. Wires change only in their port numbers.\<close>

theorem stubs_replace_arithmetic:
  assumes "stub_names_free k m" "distinct (map c_name (m_cells m))" "\<forall>c \<in> set (m_cells m). arith_ports k c"
  shows "\<exists>cs ss. extract_cells k idx d m = Inr (fixup_ports idx (m\<lparr>m_cells := cs\<rparr>)) \<and>
    set cs = {c \<in> set (m_cells m). \<not> arith_cell k d c} \<union> set ss \<and> distinct (map c_name cs) \<and>
    map anon ss = concat (map (stubs_of k d) (filter (arith_cell k d) (iterate (m_cells m)))) \<and> distinct (map c_name ss) \<and>
    c_name ` set ss \<inter> c_name ` {c \<in> set (m_cells m). \<not> arith_cell k d c} = {}"
  by (rule extract_cells_ok [OF assms])

abbreviation wire_bit :: "string \<Rightarrow> SigSpec" where
  "wire_bit n \<equiv> [WireBit (bs n) 0]"

definition div_cell :: "string \<Rightarrow> SigSpec \<Rightarrow> SigSpec \<Rightarrow> NCell" where
  "div_cell n a b = \<lparr>c_name = bs n, c_type = ''$div'', c_conns = [(bs ''A'', a), (bs ''B'', b), (bs ''Y'', wire_bit ''y'')],
     c_params = [], c_attrs = []\<rparr>"

definition div_module :: Module where
  "div_module = \<lparr>m_name = bs ''m'', m_wires = [], m_cells = [div_cell ''d'' (wire_bit ''a'') (wire_bit ''b'')],
     m_connections = [], m_others = [], m_ports = [], m_attrs = []\<rparr>"

lemma div_module_ok: "stub_names_free Div div_module" "distinct (map c_name (m_cells div_module))"
  "\<forall>c \<in> set (m_cells div_module). arith_ports Div c"
  "\<forall>c \<in> set (m_cells div_module). valid_internal_cell Div c = Inr True"
  by code_simp+

theorem stubs_replace_arithmetic_witness:
  "\<exists>cs ss. extract_cells Div (\<lambda>_. 0) [] div_module = Inr (fixup_ports (\<lambda>_. 0) (div_module\<lparr>m_cells := cs\<rparr>)) \<and>
    map anon ss = [xor_stub [] (wire_bit ''a'') (wire_bit ''b'') (wire_bit ''y'')]"
proof -
  have "concat (map (stubs_of Div []) (filter (arith_cell Div []) (iterate (m_cells div_module)))) =
    [xor_stub [] (wire_bit ''a'') (wire_bit ''b'') (wire_bit ''y'')]" by code_simp
  moreover obtain cs ss where "extract_cells Div (\<lambda>_. 0) [] div_module = Inr (fixup_ports (\<lambda>_. 0) (div_module\<lparr>m_cells := cs\<rparr>))"
      "map anon ss = concat (map (stubs_of Div []) (filter (arith_cell Div []) (iterate (m_cells div_module))))"
    using stubs_replace_arithmetic [OF div_module_ok(1-3), of "\<lambda>_. 0" "[]"] by (elim exE conjE) (rule that; assumption)
  ultimately show ?thesis by (intro exI conjI) (assumption, simp only:)
qed

text \<open>C11: Stubs forget the order of the operands. Take a module and exchange the operands of any of its internal
  multipliers (or dividers): both extractions succeed, keep the same other cells, and their stubs allow exactly the same
  signal values. For multipliers this is what makes the stubs sound for commuted operands; the same holds for dividers,
  so a module that computes a / b and one that computes b / a cannot be told apart after the extraction.\<close>

theorem operand_order_forgotten:
  assumes "stub_names_free k m" "distinct (map c_name (m_cells m))" "\<forall>c \<in> set (m_cells m). arith_ports k c"
    "\<forall>c \<in> set (m_cells m). P c \<longrightarrow> valid_internal_cell k c = Inr True"
    "m' = m\<lparr>m_cells := map (\<lambda>c. if P c then swap_operands c else c) (m_cells m)\<rparr>"
  shows "\<exists>cs ss cs' ss' rest. extract_cells k idx d m = Inr (fixup_ports idx (m\<lparr>m_cells := cs\<rparr>)) \<and>
    extract_cells k idx d m' = Inr (fixup_ports idx (m\<lparr>m_cells := cs'\<rparr>)) \<and>
    set cs = rest \<union> set ss \<and> set cs' = rest \<union> set ss' \<and> rest \<subseteq> set (m_cells m) \<and>
    (\<forall>v. (\<forall>s \<in> set ss. cell_holds v s) \<longleftrightarrow> (\<forall>s \<in> set ss'. cell_holds v s))"
proof -
  let ?f = "\<lambda>c. if P c then swap_operands c else c" and ?S = "stubs_of k d"
  have valid: "arith_ports k c" "P c \<Longrightarrow> valid_internal_cell k c = Inr True" if "c \<in> set (m_cells m)" for c using assms(3,4) that by auto
  have name: "c_name (?f c) = c_name c" for c by (simp add: swap_operands_def set_port_def)
  have same: "arith_cell k d (?f c) = arith_cell k d c" if "c \<in> set (m_cells m)" for c
    using swap_internal(1) [OF valid(1) [OF that]] valid(2) [OF that] by simp
  have fixed: "?f c = c" if "c \<in> set (m_cells m)" "\<not> arith_cell k d c" for c
    using valid(2) [OF that(1)] that(2) by (auto simp: is_arith_cell_def)
  have free': "stub_names_free k m'" using assms(1,5) by simp
  have names': "distinct (map c_name (m_cells m'))" using assms(2,5) by (simp add: o_def name)
  have ports': "\<forall>c \<in> set (m_cells m'). arith_ports k c" using valid swap_internal(2) assms(5) by auto
  have rest: "{c \<in> set (m_cells m'). \<not> arith_cell k d c} = {c \<in> set (m_cells m). \<not> arith_cell k d c}"
    using filter_image_fixed(1) [of "set (m_cells m)" "arith_cell k d" ?f] same fixed assms(5) by simp
  have agree: "(\<forall>s \<in> set (?S (?f c)). cell_holds v s) = (\<forall>s \<in> set (?S c). cell_holds v s)" if "c \<in> set (m_cells m)" for c v
    using swap_internal(3) [OF valid(1) [OF that]] valid(2) [OF that] by simp
  have arith': "set (filter (arith_cell k d) (iterate (m_cells m'))) = ?f ` set (filter (arith_cell k d) (iterate (m_cells m)))"
    using filter_image_fixed(2) [of "set (m_cells m)" "arith_cell k d" ?f] same fixed assms(5) by simp
  obtain cs ss where e: "extract_cells k idx d m = Inr (fixup_ports idx (m\<lparr>m_cells := cs\<rparr>))"
      "set cs = {c \<in> set (m_cells m). \<not> arith_cell k d c} \<union> set ss"
      "map anon ss = concat (map ?S (filter (arith_cell k d) (iterate (m_cells m))))"
    using extract_cells_ok [OF assms(1-3), of idx d] by blast
  obtain cs' ss' where e': "extract_cells k idx d m' = Inr (fixup_ports idx (m'\<lparr>m_cells := cs'\<rparr>))"
      "set cs' = {c \<in> set (m_cells m). \<not> arith_cell k d c} \<union> set ss'"
      "map anon ss' = concat (map ?S (filter (arith_cell k d) (iterate (m_cells m'))))"
    using extract_cells_ok [OF free' names' ports', of idx d] unfolding rest by blast
  have via: "(\<forall>s \<in> set ss. cell_holds v s) = (\<forall>s \<in> set (map anon ss). cell_holds v s)" for ss v by simp
  have "(\<forall>s \<in> set ss. cell_holds v s) = (\<forall>s \<in> set ss'. cell_holds v s)" for v
  proof -
    have "(\<forall>c \<in> set (filter (arith_cell k d) (iterate (m_cells m'))). \<forall>s \<in> set (?S c). cell_holds v s) =
        (\<forall>c \<in> set (filter (arith_cell k d) (iterate (m_cells m))). \<forall>s \<in> set (?S (?f c)). cell_holds v s)"
      unfolding arith' by (rule ball_simps)
    also have "\<dots> = (\<forall>c \<in> set (filter (arith_cell k d) (iterate (m_cells m))). \<forall>s \<in> set (?S c). cell_holds v s)"
      by (intro ball_cong refl agree) simp
    finally show ?thesis unfolding via [of ss] via [of ss'] e(3) e'(3) all_concat ..
  qed
  moreover have "m'\<lparr>m_cells := cs'\<rparr> = m\<lparr>m_cells := cs'\<rparr>" using assms(5) by simp
  ultimately show ?thesis using e(1,2) e'(1,2)
    by (intro exI [of _ cs] exI [of _ ss] exI [of _ cs'] exI [of _ ss'] exI [of _ "{c \<in> set (m_cells m). \<not> arith_cell k d c}"]) auto
qed

theorem operand_order_forgotten_witness:
  "\<exists>cs ss cs' ss' rest. extract_cells Div (\<lambda>_. 0) [] div_module = Inr (fixup_ports (\<lambda>_. 0) (div_module\<lparr>m_cells := cs\<rparr>)) \<and>
    extract_cells Div (\<lambda>_. 0) [] (div_module\<lparr>m_cells := [div_cell ''d'' (wire_bit ''b'') (wire_bit ''a'')]\<rparr>) =
      Inr (fixup_ports (\<lambda>_. 0) (div_module\<lparr>m_cells := cs'\<rparr>)) \<and>
    set cs = rest \<union> set ss \<and> set cs' = rest \<union> set ss' \<and> rest \<subseteq> set (m_cells div_module) \<and>
    (\<forall>v. (\<forall>s \<in> set ss. cell_holds v s) \<longleftrightarrow> (\<forall>s \<in> set ss'. cell_holds v s))"
proof -
  have "div_module\<lparr>m_cells := map (\<lambda>c. if True then swap_operands c else c) (m_cells div_module)\<rparr> =
    div_module\<lparr>m_cells := [div_cell ''d'' (wire_bit ''b'') (wire_bit ''a'')]\<rparr>" by code_simp
  then show ?thesis using operand_order_forgotten [OF div_module_ok(1-3) _ refl, of "\<lambda>_. True" "\<lambda>_. 0" "[]"] div_module_ok(4) by simp
qed

text \<open>C28: The pairing of multipliers and dividers is by width and sign. Every entry pairs a gold and a gate cell of the same
  width and sign; when the two modules have the same multiset of widths and signs, every arithmetic cell of either module
  is in exactly one entry; otherwise no multiplier of the two modules is paired.\<close>

theorem arithmetic_pairing:
  assumes "collect_cells k d gm = Inr gs" "collect_cells k d km = Inr ks"
  shows "\<exists>es. map_cells k d gm km = Inr es \<and>
    (\<forall>x \<in> set es. \<exists>g \<in> set gs. \<exists>h \<in> set ks. e_gold_cell x = mu_cell g \<and> e_gate_cell x = mu_cell h \<and> param_equal g h \<and>
      e_gold_mod x = m_name gm \<and> e_gate_mod x = m_name km \<and> \<not> is_multi_mod x) \<and>
    (mset (map key gs) = mset (map key ks) \<longrightarrow>
      mset (map e_gold_cell es) = mset (map c_name (arith_cells k d gm)) \<and>
      mset (map e_gate_cell es) = mset (map c_name (arith_cells k d km))) \<and>
    (k = Mul \<and> mset (map key gs) \<noteq> mset (map key ks) \<longrightarrow> es = [])"
  using map_cells_ok [OF assms] unfolding collect_cells_ok(1) [OF assms(1)] collect_cells_ok(1) [OF assms(2)] .

definition sized_cell :: "arith \<Rightarrow> string \<Rightarrow> nat \<Rightarrow> NCell" where
  "sized_cell k n w = \<lparr>c_name = bs n, c_type = arith_type k,
     c_conns = map (\<lambda>p. (bs p, replicate w (WireBit (bs p) 0))) [''A'', ''B'', ''Y''], c_params = [], c_attrs = []\<rparr>"

definition sized_module :: "string \<Rightarrow> NCell list \<Rightarrow> Module" where
  "sized_module n cs = \<lparr>m_name = bs n, m_wires = [], m_cells = cs, m_connections = [], m_others = [], m_ports = [], m_attrs = []\<rparr>"

theorem arithmetic_pairing_witness:
  "\<exists>es. map_cells Mul [] (sized_module ''g'' [sized_cell Mul ''p'' 2, sized_cell Mul ''q'' 1])
      (sized_module ''k'' [sized_cell Mul ''r'' 1, sized_cell Mul ''s'' 2]) = Inr es \<and>
    mset (map e_gold_cell es) = {#bs ''p'', bs ''q''#} \<and> mset (map e_gate_cell es) = {#bs ''r'', bs ''s''#}"
proof -
  let ?g = "sized_module ''g'' [sized_cell Mul ''p'' 2, sized_cell Mul ''q'' 1]"
  let ?k = "sized_module ''k'' [sized_cell Mul ''r'' 1, sized_cell Mul ''s'' 2]"
  let ?m = "\<lambda>w n. \<lparr>mu_width = w, mu_sign = False, mu_cell = bs n\<rparr>"
  have "collect_cells Mul [] ?g = Inr [?m 1 ''q'', ?m 2 ''p'']" "collect_cells Mul [] ?k = Inr [?m 2 ''s'', ?m 1 ''r'']" by code_simp+
  from arithmetic_pairing [OF this] obtain es where es: "map_cells Mul [] ?g ?k = Inr es"
      "mset (map e_gold_cell es) = mset (map c_name (arith_cells Mul [] ?g))"
      "mset (map e_gate_cell es) = mset (map c_name (arith_cells Mul [] ?k))" by auto
  moreover have "map c_name (arith_cells Mul [] ?g) = [bs ''q'', bs ''p'']" "map c_name (arith_cells Mul [] ?k) = [bs ''s'', bs ''r'']"
    by code_simp+
  ultimately show ?thesis by (intro exI [of _ es]) auto
qed

text \<open>
  On a mismatch \<open>get_multi_map\<close> skips the pair of modules, while \<open>get_div_map\<close> keeps the entries before the
  mismatch; \<open>extract_div\<close> then replaces all dividers of both modules.
\<close>

lemma div_pairs_survive_mismatch:
  "map_cells Div [] (sized_module ''g'' [sized_cell Div ''p'' 1, sized_cell Div ''q'' 2])
     (sized_module ''k'' [sized_cell Div ''r'' 1, sized_cell Div ''s'' 3]) =
   Inr [\<lparr>e_gold_mod = bs ''g'', e_gate_mod = bs ''k'', e_gold_cell = bs ''p'', e_gate_cell = bs ''r'', is_multi_mod = False\<rparr>]"
  "map_cells Mul [] (sized_module ''g'' [sized_cell Mul ''p'' 1, sized_cell Mul ''q'' 2])
     (sized_module ''k'' [sized_cell Mul ''r'' 1, sized_cell Mul ''s'' 3]) = Inr []"
  by code_simp+

section \<open>What is checked\<close>

text \<open>The modules an entry asks to check; \<open>None\<close> is a null pointer.\<close>

definition implemented :: "arith \<Rightarrow> Design \<Rightarrow> NCell \<Rightarrow> bool" where
  "implemented k d c \<longleftrightarrow> is_implemented (c_type c) \<and> (k = Mul \<or> design_module d (c_type c) \<noteq> None)"

definition entry_cells :: "Design \<Rightarrow> MultiMapEntry \<Rightarrow> NCell list" where
  "entry_cells d x =
     (case (design_module d (e_gold_mod x), design_module d (e_gate_mod x)) of
        (Some g, Some h) \<Rightarrow> (case (module_cell g (e_gold_cell x), module_cell h (e_gate_cell x)) of
           (Some gc, Some kc) \<Rightarrow> [gc, kc] | _ \<Rightarrow> [])
      | _ \<Rightarrow> [])"

definition entry_checks :: "arith \<Rightarrow> Design \<Rightarrow> MultiMapEntry \<Rightarrow> string option set" where
  "entry_checks k d x =
     (if is_multi_mod x then {find_mod d (e_gold_mod x), find_mod d (e_gate_mod x)}
      else (\<lambda>c. find_mod d (c_type c)) ` {c \<in> set (entry_cells d x). implemented k d c})"

definition entry_boxes :: "Design \<Rightarrow> MultiMapEntry \<Rightarrow> string option set" where
  "entry_boxes d x = (if is_multi_mod x then {find_mod d (e_gold_mod x), find_mod d (e_gate_mod x)} else {})"

lemma check_cell_checks: "set (mod_to_check (check_cell k d rep c p)) =
    set (mod_to_check p) \<union> (if implemented k d c then {find_mod d (c_type c)} else {})"
  "distinct (mod_to_check p) \<Longrightarrow> distinct (mod_to_check (check_cell k d rep c p))"
  "mod_to_blackbox (check_cell k d rep c p) = mod_to_blackbox p"
  by (auto simp: check_cell_def implemented_def to_check_def)

lemma plan_entry_ok:
  assumes "plan_entry k d x p = Inr p'"
  shows "set (mod_to_check p') = set (mod_to_check p) \<union> entry_checks k d x"
    "set (mod_to_blackbox p') = set (mod_to_blackbox p) \<union> entry_boxes d x"
    "distinct (mod_to_check p) \<Longrightarrow> distinct (mod_to_check p')"
  using assms by (auto simp: plan_entry_def Let_def entry_checks_def entry_boxes_def entry_cells_def to_check_def to_blackbox_def
      to_extract_def check_cell_checks split: if_splits option.splits)

lemma plan_ok:
  assumes "rfold (plan_entry k d) xs p = Inr p'"
  shows "set (mod_to_check p') = set (mod_to_check p) \<union> (\<Union>x \<in> set xs. entry_checks k d x) \<and>
    set (mod_to_blackbox p') = set (mod_to_blackbox p) \<union> (\<Union>x \<in> set xs. entry_boxes d x) \<and>
    (distinct (mod_to_check p) \<longrightarrow> distinct (mod_to_check p'))"
  using assms
proof (induction xs arbitrary: p)
  case (Cons x xs)
  then obtain p1 where p1: "plan_entry k d x p = Inr p1" "rfold (plan_entry k d) xs p1 = Inr p'" by (auto simp: rbind_eq_Inr_iff)
  show ?case using Cons.IH [OF p1(2)] plan_entry_ok [OF p1(1)] by auto
qed simp

lemma check_arith_flag:
  assumes "check_arith k e d m rep gs = Inr r"
  shows "get_bool_attribute m (arith_attr k)"
  using assms by (cases k) (auto simp: check_arith_def check_multi_def check_div_def Let_def split: prod.splits if_splits)

lemma run_checks_ok:
  assumes "rfold (run_check k e d p) ms (rs, gs) = Inr (rs', gs')" "\<forall>n. Some n \<in> set ms \<longrightarrow> design_module d n \<noteq> None"
  shows "map fst rs' = map fst rs @ map the (filter (\<lambda>m. m \<noteq> None) ms) \<and>
    (k = Mul \<longrightarrow> None \<notin> set ms) \<and> (\<forall>n. Some n \<in> set ms \<longrightarrow> module_flag d (arith_attr k) n)"
  using assms
proof (induction ms arbitrary: rs gs)
  case (Cons m ms)
  obtain rs1 gs1 where one: "run_check k e d p m (rs, gs) = Inr (rs1, gs1)" "rfold (run_check k e d p) ms (rs1, gs1) = Inr (rs', gs')"
    using Cons.prems(1) by (auto simp: rbind_eq_Inr_iff)
  note ih = Cons.IH [OF one(2)]
  show ?case
  proof (cases m)
    case None
    then show ?thesis using one(1) ih Cons.prems(2) by (auto simp: run_check_def split: if_splits)
  next
    case (Some n)
    then obtain mo where mo: "design_module d n = Some mo" using Cons.prems(2) by auto
    obtain rep v where v: "check_arith k e d mo rep gs = Inr (v, gs1)" "rs1 = rs @ [(m_name mo, v)]"
      using one(1) Some mo by (auto simp: run_check_def rmap_eq_Inr_iff split: option.splits)
    then show ?thesis using ih Cons.prems(2) Some mo check_arith_flag [OF v(1)] design_module_name [OF mo]
      by (auto simp: module_flag_def)
  qed
qed simp

text \<open>The tool was run on the module and confirmed it: \<open>amulet -verify\<close> exits with 1, \<open>divVerify\<close> prints its message.\<close>

definition tool_confirms :: "arith \<Rightarrow> ('w, 'd) arith_env \<Rightarrow> Module \<Rightarrow> bool" where
  "tool_confirms k e m \<longleftrightarrow> (\<exists>path log_dir tag w ret r w'. exec_cmd (ae_tools e) (ae_fp e)
     (case k of Mul \<Rightarrow> snd (amulet_commands e m path)
      | Div \<Rightarrow> ''divVerify_fmcad22 '' @ path @ '' '' @ ae_sig_dir e @ ''/'' @ to_string (int (output_width m)) @ ''bitSignature.txt'')
     (ae_tempdir e) tag log_dir w = Inr (ret, r, w') \<and>
     (case k of Mul \<Rightarrow> ret = 1 | Div \<Rightarrow> contains (cr_output r) ''VERIFICATION SUCCESSFUL''))"

lemma check_multi_confirms:
  assumes "check_multi e d m rep gs = Inr (True, gs')"
  shows "tool_confirms Mul e m"
proof -
  obtain pair_id gold gate where rep: "rep = (pair_id, gold, gate)" by (cases rep)
  obtain aig w1 where aig: "ae_aig e d (ae_tempdir e) m [] (world gs) = Inr (aig, w1)"
    using assms by (auto simp: check_multi_def rep Let_def rbind_eq_Inr_iff split: if_splits)
  obtain log_dir w2 where dir: "failure_log_dir (ae_tools e) (ae_dump e) w1 = Inr (log_dir, w2)"
    using assms aig by (auto simp: check_multi_def rep Let_def rbind_eq_Inr_iff split: if_splits prod.splits)
  let ?tag = "sanitize_filename (strip_backslash (m_name m))"
  obtain r0 s0 w3 where sub: "exec_cmd (ae_tools e) (ae_fp e) (fst (amulet_commands e m aig)) (ae_tempdir e) (''amulet-substitute-'' @ ?tag) log_dir w2 = Inr (r0, s0, w3)"
    using assms aig dir by (auto simp: check_multi_def rep Let_def rbind_eq_Inr_iff case_prod_beta split: if_splits)
  obtain ret r w4 where ver: "exec_cmd (ae_tools e) (ae_fp e) (snd (amulet_commands e m aig)) (ae_tempdir e) (''amulet-verify-'' @ ?tag) log_dir w3 = Inr (ret, r, w4)"
    using assms aig dir sub by (auto simp: check_multi_def rep Let_def rbind_eq_Inr_iff case_prod_beta split: if_splits)
  have "ret = 1" using assms aig dir sub ver by (auto simp: check_multi_def rep Let_def case_prod_beta rmap_eq_Inr_iff split: if_splits)
  with ver show ?thesis unfolding tool_confirms_def arith.case by blast
qed

lemma check_div_confirms:
  assumes "check_div e m rep gs = Inr (True, gs')"
  shows "tool_confirms Div e m"
proof -
  obtain pair_id gold gate where rep: "rep = (pair_id, gold, gate)" by (cases rep)
  obtain v w1 where v: "ae_verilog e m (ae_tempdir e) (world gs) = Inr (v, w1)"
    using assms by (auto simp: check_div_def rep Let_def rbind_eq_Inr_iff split: if_splits)
  obtain log_dir w2 where dir: "failure_log_dir (ae_tools e) (ae_dump e) w1 = Inr (log_dir, w2)"
    using assms v by (auto simp: check_div_def rep Let_def rbind_eq_Inr_iff split: if_splits)
  let ?cmd = "''divVerify_fmcad22 '' @ v @ '' '' @ ae_sig_dir e @ ''/'' @ to_string (int (output_width m)) @ ''bitSignature.txt''"
  obtain ret r w3 where ver: "exec_cmd (ae_tools e) (ae_fp e) ?cmd (ae_tempdir e)
      (''divverify-'' @ sanitize_filename (strip_backslash (m_name m))) log_dir w2 = Inr (ret, r, w3)"
    using assms v dir by (auto simp: check_div_def rep Let_def rbind_eq_Inr_iff split: if_splits)
  have "contains (cr_output r) ''VERIFICATION SUCCESSFUL''"
    using assms v dir ver by (auto simp: check_div_def rep Let_def rmap_eq_Inr_iff split: if_splits)
  with ver show ?thesis unfolding tool_confirms_def arith.case by blast
qed

lemma check_arith_confirms: "check_arith k e d m rep gs = Inr (True, gs') \<Longrightarrow> tool_confirms k e m"
  by (cases k) (auto simp: check_arith_def dest: check_multi_confirms check_div_confirms)

lemma run_checks_confirmed:
  assumes "rfold (run_check k e d p) ms (rs, gs) = Inr (rs', gs')"
    "\<forall>n. (n, True) \<in> set rs \<longrightarrow> (\<exists>m. design_module d n = Some m \<and> tool_confirms k e m)"
  shows "\<forall>n. (n, True) \<in> set rs' \<longrightarrow> (\<exists>m. design_module d n = Some m \<and> tool_confirms k e m)"
proof -
  have "(\<lambda>(rs, gs). \<forall>n. (n, True) \<in> set rs \<longrightarrow> (\<exists>m. design_module d n = Some m \<and> tool_confirms k e m)) (rs', gs')"
    using assms(1)
  proof (rule rfold_keeps)
    fix m s s'
    assume step: "run_check k e d p m s = Inr s'"
      and old: "(\<lambda>(rs, gs). \<forall>n. (n, True) \<in> set rs \<longrightarrow> (\<exists>m. design_module d n = Some m \<and> tool_confirms k e m)) s"
    obtain rs gs rs1 gs1 where s: "s = (rs, gs)" "s' = (rs1, gs1)" by (cases s, cases s')
    show "(\<lambda>(rs, gs). \<forall>n. (n, True) \<in> set rs \<longrightarrow> (\<exists>m. design_module d n = Some m \<and> tool_confirms k e m)) s'"
    proof (cases "Option.bind m (design_module d)")
      case None
      then show ?thesis using step old s by (auto simp: run_check_def split: if_splits)
    next
      case (Some mo)
      then obtain rep v where v: "check_arith k e d mo rep gs = Inr (v, gs1)" "rs1 = rs @ [(m_name mo, v)]"
        using step s by (auto simp: run_check_def rmap_eq_Inr_iff rbind_eq_Inr_iff)
      have "design_module d (m_name mo) = Some mo" using Some by (auto simp: bind_eq_Some_conv dest: design_module_name)
      then show ?thesis using v old s check_arith_confirms [of k e d mo rep gs gs1] by auto
    qed
  qed (use assms(2) in simp)
  then show ?thesis by simp
qed

lemma boxes_exist:
  assumes "rfold (\<lambda>m d. case m of None \<Rightarrow> Inl Abort | Some name \<Rightarrow> f name d) ms d = Inr d'"
  shows "None \<notin> set ms"
  using assms by (induction ms arbitrary: d) (auto simp: rbind_eq_Inr_iff split: option.splits)

lemma find_mod_iff: "find_mod d n = Some n' \<longleftrightarrow> n' = n \<and> design_module d n \<noteq> None" "Some n' = find_mod d n \<longleftrightarrow> n' = n \<and> design_module d n \<noteq> None"
  by (cases "design_module d n"; auto simp: find_mod_def dest: design_module_name)+

lemma check_extract_verdicts:
  assumes "check_extract k idx e mm d gs = Inr (results, touched, d', gs')"
  shows "distinct (map fst results)"
    and "\<forall>x \<in> set mm. is_multi_mod x \<longrightarrow> e_gold_mod x \<in> fst ` set results \<and> e_gate_mod x \<in> fst ` set results"
    and "\<forall>x \<in> set mm. \<forall>c \<in> set (entry_cells d x). \<not> is_multi_mod x \<longrightarrow> is_implemented (c_type c) \<longrightarrow>
      design_module d (c_type c) \<noteq> None \<longrightarrow> c_type c \<in> fst ` set results"
    and "\<forall>n \<in> fst ` set results. module_flag d (arith_attr k) n"
    and "\<forall>n. (n, True) \<in> set results \<longrightarrow> (\<exists>m. design_module d n = Some m \<and> tool_confirms k e m)"
proof -
  let ?p0 = "\<lparr>mod_to_check = [], mod_to_report = [], mod_to_extract = [], mod_to_blackbox = [], touched_mods = []\<rparr>"
  obtain p d1 where p: "rfold (plan_entry k d) mm ?p0 = Inr p"
    and run: "rfold (run_check k e d p) (iterate (mod_to_check p)) ([], gs) = Inr (results, gs')"
    and box: "rfold (\<lambda>m d. case m of None \<Rightarrow> Inl Abort
         | Some name \<Rightarrow> with_module (\<lambda>m. set_bool_attribute m (bs ''blackbox'') True) name d) (iterate (mod_to_blackbox p)) d1 = Inr d'"
    using assms by (auto simp: check_extract_def rbind_eq_Inr_iff)
  have checks: "set (mod_to_check p) = (\<Union>x \<in> set mm. entry_checks k d x)" "distinct (mod_to_check p)"
    and boxes: "set (mod_to_blackbox p) = (\<Union>x \<in> set mm. entry_boxes d x)" using plan_ok [OF p] by auto
  have found: "design_module d n \<noteq> None" if "Some n \<in> set (mod_to_check p)" for n
    using that unfolding checks by (auto simp: entry_checks_def find_mod_iff split: if_splits)
  have runs: "map fst results = map the (filter (\<lambda>m. m \<noteq> None) (iterate (mod_to_check p)))"
      "\<forall>n. Some n \<in> set (mod_to_check p) \<longrightarrow> module_flag d (arith_attr k) n"
    using run_checks_ok [OF run] found by simp_all
  have names: "fst ` set results = {n. Some n \<in> set (mod_to_check p)}" unfolding set_map [symmetric] runs(1) by force
  show "distinct (map fst results)" unfolding runs(1) using checks(2) by (auto simp: distinct_map inj_on_def)
  show "\<forall>n \<in> fst ` set results. module_flag d (arith_attr k) n" unfolding names using runs(2) by simp
  show "\<forall>n. (n, True) \<in> set results \<longrightarrow> (\<exists>m. design_module d n = Some m \<and> tool_confirms k e m)"
    by (rule run_checks_confirmed [OF run]) simp
  have "None \<notin> set (mod_to_blackbox p)" using boxes_exist [OF box] by simp
  then have some: "find_mod d (e_gold_mod x) = Some (e_gold_mod x) \<and> find_mod d (e_gate_mod x) = Some (e_gate_mod x)"
    if "x \<in> set mm" "is_multi_mod x" for x
    using that unfolding boxes by (auto simp: entry_boxes_def find_mod_def dest: design_module_name)
  show "\<forall>x \<in> set mm. is_multi_mod x \<longrightarrow> e_gold_mod x \<in> fst ` set results \<and> e_gate_mod x \<in> fst ` set results"
    unfolding names checks(1) using some by (auto simp: entry_checks_def)
  show "\<forall>x \<in> set mm. \<forall>c \<in> set (entry_cells d x). \<not> is_multi_mod x \<longrightarrow> is_implemented (c_type c) \<longrightarrow>
      design_module d (c_type c) \<noteq> None \<longrightarrow> c_type c \<in> fst ` set results"
    unfolding names checks(1)
    by (force simp: entry_checks_def implemented_def find_mod_iff)
qed


definition confirming_env :: "(unit, int) arith_env" where
  "confirming_env = \<lparr>ae_tools = witness_tools\<lparr>run_cmd := \<lambda>_ w. (Some (Some 1, [], 3), w)\<rparr>, ae_fp = int_fp,
     ae_aig = \<lambda>_ _ _ _ w. Inr (''m.aig'', w), ae_verilog = \<lambda>_ _ w. Inr (''m.v'', w), ae_dump = (dump_cfg witness_config)\<lparr>dump_fail := False\<rparr>,
     ae_tempdir = ''/tmp'', ae_sig_dir = ''/sig''\<rparr>"

definition mul_module :: "string \<Rightarrow> Module" where
  "mul_module n = (sized_module n [])\<lparr>m_attrs := [(bs ''multiplier'', const_of_ll 1)]\<rparr>"

definition mul_pair :: "MultiMapEntry list" where
  "mul_pair = [\<lparr>e_gold_mod = bs ''g'', e_gate_mod = bs ''k'', e_gold_cell = [], e_gate_cell = [], is_multi_mod = True\<rparr>]"

lemma tool_exits_one: "\<exists>r. exec_cmd (ae_tools confirming_env) (ae_fp confirming_env) cmd dir_name tag [] w = Inr (1, r, w)"
  by (simp add: exec_cmd_def exec_capture_def make_command_log_file_def confirming_env_def witness_tools_def CommandResult_init_def Let_def)

lemma confirmed_multi:
  assumes "get_bool_attribute m (bs ''multiplier'')"
  shows "check_multi confirming_env d m rep witness_state = Inr (True, witness_state)"
proof -
  have dir: "failure_log_dir (ae_tools confirming_env) (ae_dump confirming_env) w = Inr ([], w)" for w
    by (simp add: failure_log_dir_def confirming_env_def)
  have aig: "ae_aig confirming_env d dir_name m lib w = Inr (''m.aig'', w)" for d dir_name lib w by (simp add: confirming_env_def)
  obtain pair_id gold gate where rep: "rep = (pair_id, gold, gate)" by (cases rep)
  let ?run = "\<lambda>c t. exec_cmd (ae_tools confirming_env) (ae_fp confirming_env) c (ae_tempdir confirming_env) t [] ()"
  have "\<forall>c t. \<exists>r. ?run c t = Inr (1, r, ())" using tool_exits_one by blast
  then obtain f where f: "?run c t = Inr (1, f c t, ())" for c t by metis
  have "witness_state\<lparr>world := ()\<rparr> = witness_state" by simp
  then show ?thesis unfolding check_multi_def rep using assms by (simp add: aig dir f Let_def case_prod_beta del: append.simps)
qed

lemma confirmed_pair:
  "\<exists>d'. check_extract Mul (\<lambda>_. 0) confirming_env mul_pair [mul_module ''g'', mul_module ''k''] witness_state =
   Inr ([(bs ''k'', True), (bs ''g'', True)], [bs ''g'', bs ''k''], d', witness_state)"
proof -
  let ?d = "[mul_module ''g'', mul_module ''k'']"
  let ?rep = "(get_pair_id (bs ''g'') (bs ''k''), ''g'', ''k'')"
  have plan: "rfold (plan_entry Mul ?d) mul_pair
      \<lparr>mod_to_check = [], mod_to_report = [], mod_to_extract = [], mod_to_blackbox = [], touched_mods = []\<rparr> =
    Inr \<lparr>mod_to_check = [Some (bs ''g''), Some (bs ''k'')], mod_to_report = [(Some (bs ''g''), ?rep), (Some (bs ''k''), ?rep)],
      mod_to_extract = [], mod_to_blackbox = [Some (bs ''g''), Some (bs ''k'')], touched_mods = [bs ''g'', bs ''k'']\<rparr>" by code_simp
  have mods: "design_module ?d (bs n) = Some (mul_module n)" "get_bool_attribute (mul_module n) (bs ''multiplier'')"
      "m_name (mul_module n) = bs n" if "n = ''g'' \<or> n = ''k''" for n
    using that by (elim disjE; simp add: design_module_def mul_module_def sized_module_def get_bool_attribute_def od_get_def as_bool_one)+
  have "rmap (\<lambda>_. ()) (rfold (\<lambda>m d. case m of None \<Rightarrow> Inl Abort
         | Some name \<Rightarrow> with_module (\<lambda>m. set_bool_attribute m (bs ''blackbox'') True) name d) [Some (bs ''k''), Some (bs ''g'')] ?d) = Inr ()"
    by code_simp
  then obtain d' where "rfold (\<lambda>m d. case m of None \<Rightarrow> Inl Abort
         | Some name \<Rightarrow> with_module (\<lambda>m. set_bool_attribute m (bs ''blackbox'') True) name d) [Some (bs ''k''), Some (bs ''g'')] ?d = Inr d'"
    by (auto simp: rmap_eq_Inr_iff simp del: rfold.simps)
  then show ?thesis unfolding check_extract_def plan
    by (auto simp: run_check_def check_arith_def od_get_def mods [of "''g''", simplified] mods [of "''k''", simplified] confirmed_multi)
qed


end
