(* ===== verification/Guide_Retime.thy ===== *)
theory Guide_Retime
  imports Guide_Hier Topo
begin

text \<open>
  Retimed modules (\<open>passes/guide/check/retime_multi.cc\<close>): sorting the modules of a design so that
  every module follows those it instantiates, pairing the retimed modules by their names, checking
  the pairs by bounded model checking and induction, and making them black boxes. Modules are
  given by their names; the order of pointers and of identifiers is a parameter, and so is the order
  in which the compiler evaluates the two arguments of \<open>edge\<close>. Log lines and timing are left out.
\<close>

section \<open>Sorting the modules\<close>

text \<open>The modules that the cells of a module instantiate, in the order of the cells.\<close>

definition children :: "Design \<Rightarrow> string \<Rightarrow> string list" where
  "children d name = (case design_module d name of None \<Rightarrow> []
     | Some m \<Rightarrow> filter (\<lambda>t. design_module d t \<noteq> None) (map c_type (iterate (m_cells m))))"

definition module_graph ::
    "bool \<Rightarrow> (string \<Rightarrow> string \<Rightarrow> bool) \<Rightarrow> Design \<Rightarrow> (string \<Rightarrow> bool) \<Rightarrow> string list \<Rightarrow> string TopoSort" where
  "module_graph left_first lt d keep names =
     (let ts = fold (\<lambda>n ts. snd (topo_node lt n ts)) names TopoSort_init
      in fold (\<lambda>parent ts. fold (\<lambda>child ts. topo_edge left_first lt child parent ts) (filter keep (children d parent)) ts) names ts)"

definition topo_sort_modules :: "bool \<Rightarrow> (string \<Rightarrow> string \<Rightarrow> bool) \<Rightarrow> Design \<Rightarrow> string list result" where
  "topo_sort_modules left_first lt d =
     rmap (\<lambda>(_, ts). topo_sorted ts) (topo_sort (module_graph left_first lt d (\<lambda>_. True) (map m_name (design_modules d))))"

text \<open>The search \<open>dfs\<close>. The number of modules bounds its depth (\<open>related_ok\<close>).\<close>

primrec related :: "nat \<Rightarrow> (string \<Rightarrow> string \<Rightarrow> bool) \<Rightarrow> Design \<Rightarrow> string \<Rightarrow> string list \<Rightarrow> string list result" where
  "related 0 = (\<lambda>lt d name mods. Inl NonTermination)"
| "related (Suc fuel) = (\<lambda>lt d name mods.
     if name \<in> set mods then Inr mods else rfold (related fuel lt d) (children d name) (set_insert lt name mods))"

definition topo_sort_modules_root :: "bool \<Rightarrow> (string \<Rightarrow> string \<Rightarrow> bool) \<Rightarrow> Design \<Rightarrow> string \<Rightarrow> string list result" where
  "topo_sort_modules_root left_first lt d root =
     (if design_module d root = None then Inl (LogError ''Root Module not found in the design'')
      else rbind (related (Suc (length d)) lt d root []) (\<lambda>related_mods.
           rmap (\<lambda>(_, ts). topo_sorted ts) (topo_sort (module_graph left_first lt d (\<lambda>c. c \<in> set related_mods) related_mods))))"

section \<open>Checking\<close>

definition on_side :: "string \<Rightarrow> string \<Rightarrow> string \<Rightarrow> bool" where
  "on_side pre root name \<longleftrightarrow> prefix (escape_id pre) name \<or> name = root"

text \<open>The retimed gate modules and the gold modules.\<close>

definition retime_split :: "'d CheckConfig \<Rightarrow> string \<Rightarrow> string list \<times> string list \<Rightarrow> string list \<times> string list" where
  "retime_split conf name = (\<lambda>(gate_mods, gold_mods).
     if on_side (gate_prefix conf) (m_name (gate_mod conf)) name \<and> module_flag (cfg_design conf) (bs ''retime'') name
     then (gate_mods @ [name], gold_mods)
     else if on_side (gold_prefix conf) (m_name (gold_mod conf)) name then (gate_mods, op_insert gold_mods name)
     else (gate_mods, gold_mods))"

text \<open>The name under which the gold module of a retimed gate module is looked up.\<close>

definition retime_partner :: "'d CheckConfig \<Rightarrow> string \<Rightarrow> string result" where
  "retime_partner conf gate =
     rmap (\<lambda>original_name. if original_name = m_name (gold_mod conf) then m_name (gold_mod conf)
         else escape_id (gold_prefix conf @ original_name))
       (if gate = m_name (gate_mod conf) then Inr (unescape_id (m_name (gold_mod conf)))
        else if length (unescape_id gate) < length (gate_prefix conf) then Inl OutOfRange
        else Inr (drop (length (gate_prefix conf)) (unescape_id gate)))"

definition name_pair_less :: "(string \<Rightarrow> string \<Rightarrow> bool) \<Rightarrow> string \<times> string \<Rightarrow> string \<times> string \<Rightarrow> bool" where
  "name_pair_less lt p q \<longleftrightarrow> lt (fst p) (fst q) \<or> \<not> lt (fst q) (fst p) \<and> lt (snd p) (snd q)"

definition retime_pair ::
    "(string \<Rightarrow> string \<Rightarrow> bool) \<Rightarrow> 'd CheckConfig \<Rightarrow> string list \<Rightarrow> string \<Rightarrow> (string \<times> string) list \<Rightarrow> (string \<times> string) list result" where
  "retime_pair lt conf gold_mods gate ps =
     rbind (retime_partner conf gate) (\<lambda>gold.
       if gold \<in> set gold_mods then Inr (set_insert (name_pair_less lt) (gold, gate) ps)
       else Inl (LogError ''Can't find the corresponding gold module for gate module''))"

type_synonym ('w, 'd) retime_env = "('w, 'd) tools \<times> 'd fp_ops \<times> ('w, 'd) smt2_dumper"

definition retime_check ::
    "('w, 'd) retime_env \<Rightarrow> 'd CheckConfig \<Rightarrow> string \<times> string \<Rightarrow> (string \<times> bool) list \<times> ('w, 'd) gstate \<Rightarrow>
     ((string \<times> bool) list \<times> ('w, 'd) gstate) result" where
  "retime_check env conf p = (\<lambda>(results, st).
     case (design_module (cfg_design conf) (fst p), design_module (cfg_design conf) (snd p)) of
       (Some gold_m, Some gate_m) \<Rightarrow>
         (case env of (tls, fp, dump_smt2) \<Rightarrow>
           rbind (bmcinduct_check tls fp dump_smt2 (conf\<lparr>gold_mod := gold_m, gate_mod := gate_m, external_match_file := []\<rparr>) st) (\<lambda>(result, st).
             rmap (\<lambda>name. (results @ [(name, result)], st))
               (get_orignal_mod_name (m_name gold_m) (m_name (gold_mod conf)) (gold_prefix conf))))
     | _ \<Rightarrow> Inr (results, st))"

definition check_retime ::
    "('w, 'd) retime_env \<Rightarrow> bool \<Rightarrow> (string \<Rightarrow> string \<Rightarrow> bool) \<Rightarrow> (string \<Rightarrow> string \<Rightarrow> bool) \<Rightarrow> 'd CheckConfig \<Rightarrow> ('w, 'd) gstate \<Rightarrow>
     ((string \<times> bool) list \<times> (string \<times> string) list \<times> ('w, 'd) gstate) result" where
  "check_retime env left_first ptr_lt id_lt conf st =
     rbind (topo_sort_modules left_first ptr_lt (cfg_design conf)) (\<lambda>sorted_mods.
     case fold (retime_split conf) sorted_mods ([], []) of (gate_mods, gold_mods) \<Rightarrow>
     rbind (rfold (retime_pair id_lt conf gold_mods) gate_mods []) (\<lambda>ps.
     rmap (\<lambda>(results, st). (results, ps, st)) (rfold (retime_check env conf) ps ([], st))))"

section \<open>Black boxes\<close>

definition retime_note :: "string \<Rightarrow> ('w, 'd) gstate \<Rightarrow> ('w, 'd) gstate" where
  "retime_note name st = st\<lparr>telemetry := map_option (\<lambda>t. t\<lparr>retimed_mods := op_insert (retimed_mods t) name\<rparr>) (telemetry st)\<rparr>"

definition retime_box :: "string \<Rightarrow> string list \<times> Design \<times> ('w, 'd) gstate \<Rightarrow> string list \<times> Design \<times> ('w, 'd) gstate" where
  "retime_box name = (\<lambda>(boxes, d, st).
     case design_module d name of
       None \<Rightarrow> (boxes, d, retime_note name st)
     | Some m \<Rightarrow> (op_insert boxes name, design_update d (set_bool_attribute m (bs ''blackbox'') True), retime_note name st))"

definition box_cells :: "string list \<Rightarrow> Module \<Rightarrow> Module" where
  "box_cells boxes m = m\<lparr>m_cells :=
     map (\<lambda>c. if c_type c \<in> set boxes then set_cell_bool_attribute c (bs ''blackbox'') True else c) (m_cells m)\<rparr>"

definition check_extract_retime ::
    "('w, 'd) retime_env \<Rightarrow> bool \<Rightarrow> (string \<Rightarrow> string \<Rightarrow> bool) \<Rightarrow> (string \<Rightarrow> string \<Rightarrow> bool) \<Rightarrow> 'd CheckConfig \<Rightarrow> ('w, 'd) gstate \<Rightarrow>
     ((string \<times> bool) list \<times> Design \<times> ('w, 'd) gstate) result" where
  "check_extract_retime env left_first ptr_lt id_lt conf st =
     rmap (\<lambda>(results, ps, st).
       case fold retime_box (concat (map (\<lambda>(gold, gate). [gold, gate]) ps)) ([], cfg_design conf, st) of
         (boxes, d, st) \<Rightarrow> (results, map (box_cells boxes) d, st))
       (check_retime env left_first ptr_lt id_lt conf st)"

section \<open>Reachable modules\<close>

definition instantiates :: "Design \<Rightarrow> (string \<times> string) set" where
  "instantiates d = {(c, p). c \<in> set (children d p)}"

lemma children_exist: "c \<in> set (children d p) \<Longrightarrow> c \<in> m_name ` set d"
  using design_module_None [of d c] by (auto simp: children_def split: option.splits)

lemma is_cycle_mono: "is_cycle E c \<Longrightarrow> E \<subseteq> F \<Longrightarrow> is_cycle F c"
  unfolding is_cycle_def chain_def by blast

context topo_order
begin

lemma set_insert_elems: "set (set_insert lt x ys) = insert x (set ys)"
  using total by (intro set_insert_set) blast

lemma set_insert_sorted: "sorted_wrt lt ys \<Longrightarrow> sorted_wrt lt (set_insert lt x ys)"
  by (induction ys) (auto simp: set_insert_elems intro: trans)

end

text \<open>What sorting modules needs of the comparison of their pointers or names: it is a strict linear order.\<close>

locale module_order = topo_order lt for lt :: "string \<Rightarrow> string \<Rightarrow> bool"
begin

lemma fold_nodes:
  "topo_wf lt ts \<Longrightarrow> topo_wf lt (fold (\<lambda>n ts. snd (topo_node lt n ts)) names ts) \<and>
     node_edges (fold (\<lambda>n ts. snd (topo_node lt n ts)) names ts) = node_edges ts \<and>
     set (nodes (fold (\<lambda>n ts. snd (topo_node lt n ts)) names ts)) = set (nodes ts) \<union> set names"
proof (induction names arbitrary: ts)
  case (Cons n names)
  obtain i ts1 where 1: "topo_node lt n ts = (i, ts1)" by fastforce
  note ok = topo_node_ok [OF Cons.prems 1]
  show ?case using Cons.IH [OF ok(1)] ok(4,5) 1 by auto
qed simp

lemma fold_edges:
  "topo_wf lt ts \<Longrightarrow> p \<in> set (nodes ts) \<Longrightarrow> set cs \<subseteq> set (nodes ts) \<Longrightarrow>
     topo_wf lt (fold (\<lambda>c ts. topo_edge lf lt c p ts) cs ts) \<and>
     node_edges (fold (\<lambda>c ts. topo_edge lf lt c p ts) cs ts) = node_edges ts \<union> set cs \<times> {p} \<and>
     set (nodes (fold (\<lambda>c ts. topo_edge lf lt c p ts) cs ts)) = set (nodes ts)"
proof (induction cs arbitrary: ts)
  case (Cons c cs)
  note ok = edge_adds [OF Cons.prems(1), of lf c p]
  have "set (nodes (topo_edge lf lt c p ts)) = set (nodes ts)" using ok Cons.prems by auto
  then show ?case using Cons.IH [of "topo_edge lf lt c p ts"] ok Cons.prems by auto
qed simp

lemma module_graph_ok:
  assumes "\<And>p c. p \<in> set names \<Longrightarrow> c \<in> set (children d p) \<Longrightarrow> keep c \<Longrightarrow> c \<in> set names"
  shows "topo_wf lt (module_graph lf lt d keep names)" "set (nodes (module_graph lf lt d keep names)) = set names"
    "node_edges (module_graph lf lt d keep names) = {(c, p) \<in> instantiates d. p \<in> set names \<and> keep c}"
proof -
  let ?step = "\<lambda>parent ts. fold (\<lambda>child ts. topo_edge lf lt child parent ts) (filter keep (children d parent)) ts"
  have parents: "topo_wf lt (fold ?step ps ts) \<and> set (nodes (fold ?step ps ts)) = set (nodes ts) \<and>
      node_edges (fold ?step ps ts) = node_edges ts \<union> {(c, p) \<in> instantiates d. p \<in> set ps \<and> keep c}"
    if "topo_wf lt ts" "set (nodes ts) = set names" "set ps \<subseteq> set names" for ps ts
    using that
  proof (induction ps arbitrary: ts)
    case (Cons p ps)
    have kids: "set (filter keep (children d p)) \<subseteq> set (nodes ts)" using assms Cons.prems by auto
    note e = fold_edges [OF Cons.prems(1) _ kids, of p lf]
    have "p \<in> set (nodes ts)" using Cons.prems by simp
    with e Cons.IH [of "?step p ts"] Cons.prems show ?case by (auto simp: instantiates_def)
  qed simp
  have init: "topo_wf lt TopoSort_init" "node_edges (TopoSort_init :: string TopoSort) = {}" "set (nodes (TopoSort_init :: string TopoSort)) = {}"
    by (rule topo_wf_init) (simp_all add: node_edges_def edge_rel_def TopoSort_init_def)
  from fold_nodes [OF init(1), of names] parents [of "fold (\<lambda>n ts. snd (topo_node lt n ts)) names TopoSort_init" names] init(2,3)
  show "topo_wf lt (module_graph lf lt d keep names)" "set (nodes (module_graph lf lt d keep names)) = set names"
    "node_edges (module_graph lf lt d keep names) = {(c, p) \<in> instantiates d. p \<in> set names \<and> keep c}"
    by (simp_all add: module_graph_def)
qed

lemma sorted_graph:
  assumes "\<And>p c. p \<in> set names \<Longrightarrow> c \<in> set (children d p) \<Longrightarrow> keep c \<and> c \<in> set names"
  shows "\<exists>out. rmap (\<lambda>(_, ts). topo_sorted ts) (topo_sort (module_graph lf lt d keep names)) = Inr out \<and> distinct out \<and> set out = set names \<and>
    ((\<nexists>c. is_cycle (instantiates d) c) \<longrightarrow> (\<forall>i < length out. set (children d (out ! i)) \<subseteq> set (take i out)))"
proof -
  let ?ts = "module_graph lf lt d keep names"
  note g = module_graph_ok [of names d keep lf]
  have wf: "topo_wf lt ?ts" and ns: "set (nodes ?ts) = set names"
    and es: "node_edges ?ts = {(c, p) \<in> instantiates d. p \<in> set names \<and> keep c}" using g assms by auto
  obtain okay ts' where s: "topo_sort ?ts = Inr (okay, ts')" "distinct (topo_sorted ts')" "set (topo_sorted ts') = set names"
      "okay \<longleftrightarrow> \<not> (\<exists>c. is_cycle (node_edges ?ts) c)" "okay \<longrightarrow> ordered (node_edges ?ts) (topo_sorted ts')"
    using topo_sort_ok [OF topo_order_axioms wf] unfolding ns by blast
  have "set (children d (topo_sorted ts' ! i)) \<subseteq> set (take i (topo_sorted ts'))"
    if acyc: "\<nexists>c. is_cycle (instantiates d) c" and i: "i < length (topo_sorted ts')" for i
  proof
    fix c assume c: "c \<in> set (children d (topo_sorted ts' ! i))"
    have "node_edges ?ts \<subseteq> instantiates d" using es by auto
    then have "ordered (node_edges ?ts) (topo_sorted ts')" using s(4,5) acyc is_cycle_mono by blast
    moreover have "topo_sorted ts' ! i \<in> set names" using s(3) i nth_mem by blast
    ultimately show "c \<in> set (take i (topo_sorted ts'))" using c i assms unfolding ordered_def es by (auto simp: instantiates_def)
  qed
  then show ?thesis using s(1-3) by (intro exI [of _ "topo_sorted ts'"]) simp
qed

text \<open>The search from a module, when fewer modules are missing from the set than there is fuel.\<close>

lemma related_ok:
  assumes "name \<in> m_name ` set d" "set mods \<subseteq> m_name ` set d" "card (m_name ` set d - set mods) < fuel"
  shows "\<exists>out. related fuel lt d name mods = Inr out \<and> insert name (set mods) \<subseteq> set out \<and> set out \<subseteq> m_name ` set d \<and>
    (\<forall>p \<in> set out - set mods. set (children d p) \<subseteq> set out) \<and> (\<forall>n \<in> set out - set mods. (n, name) \<in> (instantiates d)\<^sup>*)"
  using assms
proof (induction fuel arbitrary: name mods)
  case (Suc fuel)
  let ?M = "m_name ` set d"
  show ?case
  proof (cases "name \<in> set mods")
    case False
    have each: "\<exists>out. rfold (related fuel lt d) cs ms = Inr out \<and> set cs \<union> set ms \<subseteq> set out \<and> set out \<subseteq> ?M \<and>
        (\<forall>p \<in> set out - set ms. set (children d p) \<subseteq> set out) \<and> (\<forall>n \<in> set out - set ms. (n, name) \<in> (instantiates d)\<^sup>*)"
      if "set cs \<subseteq> set (children d name)" "set ms \<subseteq> ?M" "card (?M - set ms) < fuel" for cs ms
      using that
    proof (induction cs arbitrary: ms)
      case (Cons c cs)
      have c: "c \<in> ?M" "(c, name) \<in> instantiates d" using Cons.prems children_exist by (auto simp: instantiates_def)
      obtain o1 where o1: "related fuel lt d c ms = Inr o1" "insert c (set ms) \<subseteq> set o1" "set o1 \<subseteq> ?M"
          "\<forall>p \<in> set o1 - set ms. set (children d p) \<subseteq> set o1" "\<forall>n \<in> set o1 - set ms. (n, c) \<in> (instantiates d)\<^sup>*"
        using Suc.IH [OF c(1) Cons.prems(2,3)] by blast
      have "card (?M - set o1) \<le> card (?M - set ms)" using o1(2) by (intro card_mono) auto
      then obtain o2 where o2: "rfold (related fuel lt d) cs o1 = Inr o2" "set cs \<union> set o1 \<subseteq> set o2" "set o2 \<subseteq> ?M"
          "\<forall>p \<in> set o2 - set o1. set (children d p) \<subseteq> set o2" "\<forall>n \<in> set o2 - set o1. (n, name) \<in> (instantiates d)\<^sup>*"
        using Cons.IH [of o1] Cons.prems o1(3) by auto
      have "set (children d p) \<subseteq> set o2" if "p \<in> set o2 - set ms" for p
      proof (cases "p \<in> set o1")
        case True
        then have "set (children d p) \<subseteq> set o1" using that o1(4) by blast
        then show ?thesis using o2(2) by blast
      qed (use that o2(4) in blast)
      moreover have "(n, name) \<in> (instantiates d)\<^sup>*" if "n \<in> set o2 - set ms" for n
        using that o1(5) o2(5) c(2) by (cases "n \<in> set o1") (auto intro: rtrancl_into_rtrancl)
      ultimately show ?case using o1(1,2) o2(1-3) by (intro exI [of _ o2]) auto
    qed simp
    let ?ms = "set_insert lt name mods"
    have ms: "set ?ms = insert name (set mods)" by (rule set_insert_elems)
    have "?M - insert name (set mods) \<subset> ?M - set mods" using False Suc.prems(1) by auto
    then have "card (?M - set ?ms) < card (?M - set mods)" unfolding ms by (intro psubset_card_mono) auto
    then have "card (?M - set ?ms) < fuel" "set ?ms \<subseteq> ?M" using Suc.prems ms by simp_all
    then obtain out where out: "rfold (related fuel lt d) (children d name) ?ms = Inr out" "set (children d name) \<union> set ?ms \<subseteq> set out"
        "set out \<subseteq> ?M" "\<forall>p \<in> set out - set ?ms. set (children d p) \<subseteq> set out" "\<forall>n \<in> set out - set ?ms. (n, name) \<in> (instantiates d)\<^sup>*"
      using each [OF order_refl] by blast
    have "\<forall>p \<in> set out - set mods. set (children d p) \<subseteq> set out" using out(2,4) unfolding ms by blast
    moreover have "\<forall>n \<in> set out - set mods. (n, name) \<in> (instantiates d)\<^sup>*" using out(5) unfolding ms by blast
    moreover have "related (Suc fuel) lt d name mods = Inr out" using out(1) False by simp
    moreover have "insert name (set mods) \<subseteq> set out" using out(2) unfolding ms by blast
    ultimately show ?thesis using out(3) by (intro exI [of _ out] conjI)
  qed (use Suc.prems in auto)
qed simp

lemma related_root:
  assumes "design_module d root \<noteq> None"
  shows "\<exists>out. related (Suc (length d)) lt d root [] = Inr out \<and> set out = {n. (n, root) \<in> (instantiates d)\<^sup>*}"
proof -
  have "root \<in> m_name ` set d" using assms design_module_None [of d root] by simp
  moreover have "card (m_name ` set d) < Suc (length d)" by (metis card_length le_imp_less_Suc length_map set_map)
  ultimately obtain out where out: "related (Suc (length d)) lt d root [] = Inr out" "root \<in> set out"
      "\<forall>p \<in> set out. set (children d p) \<subseteq> set out" "\<forall>n \<in> set out. (n, root) \<in> (instantiates d)\<^sup>*"
    using related_ok [of root d "[]" "Suc (length d)"] by auto
  have "n \<in> set out" if "(n, root) \<in> (instantiates d)\<^sup>*" for n
    using that by (induction rule: converse_rtrancl_induct) (use out(2,3) in \<open>auto simp: instantiates_def\<close>)
  then show ?thesis using out(1,4) by auto
qed

lemma sort_modules_ok:
  assumes "distinct (map m_name d)"
  shows "\<exists>out. topo_sort_modules lf lt d = Inr out \<and> distinct out \<and> set out = m_name ` set d"
proof -
  have "\<exists>out. topo_sort_modules lf lt d = Inr out \<and> distinct out \<and> set out = set (map m_name (design_modules d))"
    unfolding topo_sort_modules_def using sorted_graph [of "map m_name (design_modules d)" d "\<lambda>_. True" lf] children_exist
    by (auto simp: design_modules_def)
  then show ?thesis by (simp add: design_modules_def)
qed

end

interpretation mod_names: module_order "(<)"
  by unfold_locales

section \<open>Retimed pairs\<close>

text \<open>The gate modules that are to be checked as retimed.\<close>

definition retimed_gate :: "'d CheckConfig \<Rightarrow> string \<Rightarrow> bool" where
  "retimed_gate conf n \<longleftrightarrow> on_side (gate_prefix conf) (m_name (gate_mod conf)) n \<and> module_flag (cfg_design conf) (bs ''retime'') n"

lemma retime_split_ok:
  "fold (retime_split conf) ns (gates, golds) = (gates', golds') \<Longrightarrow>
     gates' = gates @ filter (retimed_gate conf) ns \<and>
     set golds' = set golds \<union> {n \<in> set ns. \<not> retimed_gate conf n \<and> on_side (gold_prefix conf) (m_name (gold_mod conf)) n}"
proof (induction ns arbitrary: gates golds)
  case (Cons n ns)
  have one: "retime_split conf n (gates, golds) = (if retimed_gate conf n then (gates @ [n], golds)
      else if on_side (gold_prefix conf) (m_name (gold_mod conf)) n then (gates, op_insert golds n) else (gates, golds))"
    by (simp add: retime_split_def retimed_gate_def)
  show ?case
  proof (cases "retimed_gate conf n")
    case True
    then show ?thesis using Cons.IH [of "gates @ [n]" golds] Cons.prems one by auto
  next
    case False
    then show ?thesis using Cons.IH [of gates golds] Cons.IH [of gates "op_insert golds n"] Cons.prems one
      by (cases "on_side (gold_prefix conf) (m_name (gold_mod conf)) n") auto
  qed
qed simp

lemma pair_order:
  assumes "topo_order lt"
  shows "topo_order (name_pair_less lt)"
proof -
  from assms have irr: "\<And>a. \<not> lt a a" and tra: "\<And>a b c. lt a b \<Longrightarrow> lt b c \<Longrightarrow> lt a c" and tot: "\<And>a b. lt a b \<or> a = b \<or> lt b a"
    by (auto simp: topo_order_def)
  have lex: "name_pair_less lt p q \<longleftrightarrow> lt (fst p) (fst q) \<or> fst p = fst q \<and> lt (snd p) (snd q)" for p q
    using irr tot [of "fst p" "fst q"] by (auto simp: name_pair_less_def)
  show ?thesis
  proof
    fix a b c :: "string \<times> string"
    show "\<not> name_pair_less lt a a" using irr by (simp add: lex)
    show "name_pair_less lt a b \<or> a = b \<or> name_pair_less lt b a"
      using tot [of "fst a" "fst b"] tot [of "snd a" "snd b"] by (auto simp: lex prod_eq_iff)
    show "name_pair_less lt a c" if "name_pair_less lt a b" "name_pair_less lt b c"
      using that tra [of "fst a" "fst b" "fst c"] tra [of "snd a" "snd b" "snd c"] by (auto simp: lex)
  qed
qed

lemma retime_pairs_ok:
  assumes "topo_order lt" "rfold (retime_pair lt conf golds) gates ps = Inr ps'" "sorted_wrt (name_pair_less lt) ps"
  shows "sorted_wrt (name_pair_less lt) ps' \<and> set ps' = set ps \<union> {(g, k). k \<in> set gates \<and> retime_partner conf k = Inr g} \<and>
    (\<forall>k \<in> set gates. \<exists>g \<in> set golds. retime_partner conf k = Inr g)"
  using assms(2,3)
proof (induction gates arbitrary: ps)
  case (Cons k gates)
  note order = topo_order.set_insert_elems [OF pair_order [OF assms(1)]] topo_order.set_insert_sorted [OF pair_order [OF assms(1)]]
  obtain ps1 where step: "retime_pair lt conf golds k ps = Inr ps1" "rfold (retime_pair lt conf golds) gates ps1 = Inr ps'"
    using Cons.prems(1) by (auto simp: rbind_eq_Inr_iff)
  obtain g where g: "retime_partner conf k = Inr g" "g \<in> set golds"
      "rfold (retime_pair lt conf golds) gates (set_insert (name_pair_less lt) (g, k) ps) = Inr ps'"
    using step(2) step(1) [unfolded retime_pair_def] by (auto simp: rbind_eq_Inr_iff split: if_splits)
  have "{(g', k'). k' \<in> set (k # gates) \<and> retime_partner conf k' = Inr g'} =
    insert (g, k) {(g', k'). k' \<in> set gates \<and> retime_partner conf k' = Inr g'}" using g(1) by auto
  then show ?case using Cons.IH [OF g(3) order(2) [OF Cons.prems(2)]] g(1,2) by (simp only: order(1)) auto
qed simp

lemma retime_checks_ok:
  assumes "rfold (retime_check (tls, fp, dump) conf) ps (rs, st) = Inr (rs', st')"
    "\<forall>(g, k) \<in> set ps. design_module (cfg_design conf) g \<noteq> None \<and> design_module (cfg_design conf) k \<noteq> None"
  shows "\<exists>new. rs' = rs @ new \<and> list_all2 (\<lambda>(g, k) (_, result). \<exists>gm km s s'. design_module (cfg_design conf) g = Some gm \<and>
    design_module (cfg_design conf) k = Some km \<and>
    bmcinduct_check tls fp dump (conf\<lparr>gold_mod := gm, gate_mod := km, external_match_file := []\<rparr>) s = Inr (result, s')) ps new"
  using assms
proof (induction ps arbitrary: rs st)
  case (Cons p ps)
  obtain g k where p: "p = (g, k)" by fastforce
  obtain gm km where m: "design_module (cfg_design conf) g = Some gm" "design_module (cfg_design conf) k = Some km"
    using Cons.prems(2) p by auto
  obtain rs1 s1 where step: "retime_check (tls, fp, dump) conf p (rs, st) = Inr (rs1, s1)"
      "rfold (retime_check (tls, fp, dump) conf) ps (rs1, s1) = Inr (rs', st')"
    using Cons.prems(1) by (auto simp: rbind_eq_Inr_iff)
  obtain name result where one: "bmcinduct_check tls fp dump (conf\<lparr>gold_mod := gm, gate_mod := km, external_match_file := []\<rparr>) st = Inr (result, s1)"
      "rfold (retime_check (tls, fp, dump) conf) ps (rs @ [(name, result)], s1) = Inr (rs', st')"
    using step(2) step(1) [unfolded p retime_check_def] m by (auto simp: rbind_eq_Inr_iff rmap_eq_Inr_iff)
  obtain new where new: "rs' = (rs @ [(name, result)]) @ new" "list_all2 (\<lambda>(g, k) (_, result). \<exists>gm km s s'. design_module (cfg_design conf) g = Some gm \<and>
    design_module (cfg_design conf) k = Some km \<and>
    bmcinduct_check tls fp dump (conf\<lparr>gold_mod := gm, gate_mod := km, external_match_file := []\<rparr>) s = Inr (result, s')) ps new"
    using Cons.IH [OF one(2)] Cons.prems(2) by auto
  then show ?case using one(1) m p by (intro exI [of _ "(name, result) # new"]) auto
qed simp

lemma get_set_bool_attribute:
  "get_bool_attribute (set_bool_attribute m a True) b = (b = a \<or> get_bool_attribute m b)"
  by (simp add: set_bool_attribute_def get_bool_attribute_def od_get_set as_bool_one)

lemma retime_boxes_ok:
  assumes "fold retime_box ns (boxes, d, st) = (boxes', d', st')" "set ns \<subseteq> m_name ` set d" "distinct (map m_name d)"
  shows "map m_name d' = map m_name d \<and> set boxes' = set boxes \<union> set ns \<and> map m_cells d' = map m_cells d \<and>
    (\<forall>n a. module_flag d' a n = (module_flag d a n \<or> a = bs ''blackbox'' \<and> n \<in> set ns))"
  using assms
proof (induction ns arbitrary: boxes d st)
  case (Cons n ns)
  obtain m where m: "design_module d n = Some m" using Cons.prems(2) design_module_None [of d n] by auto
  have mem: "m \<in> set d" "m_name m = n" using design_module_name [OF m] by simp_all
  let ?m = "set_bool_attribute m (bs ''blackbox'') True" and ?box = "bs ''blackbox''"
  let ?d = "design_update d ?m"
  have nm: "m_name ?m = n" "m_cells ?m = m_cells m" using mem by (simp_all add: set_bool_attribute_def)
  have uniq: "x = m" if "x \<in> set d" "m_name x = n" for x
    using Cons.prems(3) mem that by (auto simp: distinct_map inj_on_def)
  have names: "map m_name ?d = map m_name d" using nm by (auto simp: design_update_def)
  have "m_cells (if m_name x = m_name ?m then ?m else x) = m_cells x" if "x \<in> set d" for x
    using uniq [OF that] nm by (cases "m_name x = n") simp_all
  then have cells: "map m_cells ?d = map m_cells d" by (simp add: design_update_def)
  have "m_name ` set d = m_name ` set ?d" using arg_cong [OF names, of set] by simp
  then have rest: "set ns \<subseteq> m_name ` set ?d" "distinct (map m_name ?d)" using Cons.prems names by simp_all
  have flag: "module_flag ?d a x = (module_flag d a x \<or> a = ?box \<and> x = n)" for a x
    using design_update_module [of d ?m x] m by (auto simp: module_flag_def nm get_set_bool_attribute)
  have "retime_box n (boxes, d, st) = (op_insert boxes n, ?d, retime_note n st)" using m by (simp add: retime_box_def)
  then have "fold retime_box ns (op_insert boxes n, ?d, retime_note n st) = (boxes', d', st')" using Cons.prems(1) by simp
  from Cons.IH [OF this rest] show ?case using names cells flag by auto
qed simp

section \<open>Claims\<close>

text \<open>Sorting the modules below a root always ends. It lists exactly the modules that the root reaches through
  instances, each once; when no module instantiates itself, directly or through others, every module comes after the
  modules it instantiates. This holds for every strict linear order of the modules and either order of evaluation.\<close>

lemma modules_bottom_up:
  assumes "topo_order lt" "design_module d root \<noteq> None"
  shows "\<exists>names. topo_sort_modules_root left_first lt d root = Inr names \<and> distinct names \<and>
    set names = {n. (n, root) \<in> (instantiates d)\<^sup>*} \<and>
    ((\<nexists>c. is_cycle (instantiates d) c) \<longrightarrow> (\<forall>i < length names. set (children d (names ! i)) \<subseteq> set (take i names)))"
proof -
  have order: "module_order lt" using assms(1) by (rule module_order.intro)
  obtain rel where rel: "related (Suc (length d)) lt d root [] = Inr rel" "set rel = {n. (n, root) \<in> (instantiates d)\<^sup>*}"
    using module_order.related_root [OF order assms(2)] by blast
  have "c \<in> set rel" if "p \<in> set rel" "c \<in> set (children d p)" for p c
    using that unfolding rel(2) by (auto simp: instantiates_def intro: converse_rtrancl_into_rtrancl)
  from module_order.sorted_graph [OF order, of rel d "\<lambda>c. c \<in> set rel" left_first] this
  show ?thesis using rel assms(2) by (simp add: topo_sort_modules_root_def)
qed

definition retime_cell :: "string \<Rightarrow> NCell" where
  "retime_cell ty = \<lparr>c_name = bs ''u'', c_type = ty, c_conns = [], c_params = [], c_attrs = []\<rparr>"

definition retime_design :: Design where
  "retime_design = [(witness_module (bs ''top''))\<lparr>m_cells := [retime_cell (bs ''leaf'')]\<rparr>, witness_module (bs ''leaf'')]"

lemma retime_pairs_found:
  assumes "topo_order id_lt" "fold (retime_split conf) names ([], []) = (gates, golds)" "rfold (retime_pair id_lt conf golds) gates [] = Inr ps"
  shows "distinct ps" "set ps = {(g, k). k \<in> set names \<and> retimed_gate conf k \<and> retime_partner conf k = Inr g}"
    "fst ` set ps \<union> snd ` set ps \<subseteq> set names" "\<forall>k \<in> set names. retimed_gate conf k \<longrightarrow> k \<in> snd ` set ps"
proof -
  have gates: "set gates = {k \<in> set names. retimed_gate conf k}" and golds: "set golds \<subseteq> set names"
    using retime_split_ok [OF assms(2)] by auto
  have sorted: "sorted_wrt (name_pair_less id_lt) ps" and elems: "set ps = {(g, k). k \<in> set gates \<and> retime_partner conf k = Inr g}"
    and partner: "\<forall>k \<in> set gates. \<exists>g \<in> set golds. retime_partner conf k = Inr g"
    using retime_pairs_ok [OF assms(1,3)] by simp_all
  show "distinct ps" by (rule topo_order.sorted_distinct [OF pair_order [OF assms(1)] sorted])
  show "set ps = {(g, k). k \<in> set names \<and> retimed_gate conf k \<and> retime_partner conf k = Inr g}" unfolding elems gates by auto
  have "g \<in> set golds" if "k \<in> set gates" "retime_partner conf k = Inr g" for g k
    using partner that by (metis sum.inject(2))
  then show "fst ` set ps \<union> snd ` set ps \<subseteq> set names" using golds gates unfolding elems by auto
  show "\<forall>k \<in> set names. retimed_gate conf k \<longrightarrow> k \<in> snd ` set ps" using partner unfolding elems gates by force
qed

lemma box_cells_keep:
  "m_name (box_cells boxes m) = m_name m" "module_flag (map (box_cells boxes) d) a n = module_flag d a n"
proof -
  show name: "m_name (box_cells boxes m) = m_name m" for m by (simp add: box_cells_def)
  have "design_module (map (box_cells boxes) d) n = map_option (box_cells boxes) (design_module d n)"
    by (induction d) (auto simp: design_module_def name)
  then show "module_flag (map (box_cells boxes) d) a n = module_flag d a n"
    by (auto simp: module_flag_def box_cells_def get_bool_attribute_def split: option.splits)
qed

lemma retimed_pairs_verdicts:
  assumes "topo_order ptr_lt" "topo_order id_lt" "distinct (map m_name (cfg_design conf))"
    "check_extract_retime (tls, fp, dump) left_first ptr_lt id_lt conf st = Inr (results, d', st')"
  shows "\<exists>ps. distinct ps \<and>
    set ps = {(g, k). k \<in> m_name ` set (cfg_design conf) \<and> retimed_gate conf k \<and> retime_partner conf k = Inr g} \<and>
    (\<forall>k \<in> m_name ` set (cfg_design conf). retimed_gate conf k \<longrightarrow> k \<in> snd ` set ps) \<and>
    list_all2 (\<lambda>(g, k) (_, result). \<exists>gm km s s'. design_module (cfg_design conf) g = Some gm \<and>
      design_module (cfg_design conf) k = Some km \<and>
      bmcinduct_check tls fp dump (conf\<lparr>gold_mod := gm, gate_mod := km, external_match_file := []\<rparr>) s = Inr (result, s')) ps results \<and>
    map m_name d' = map m_name (cfg_design conf) \<and>
    (\<forall>n. module_flag d' (bs ''blackbox'') n \<longleftrightarrow>
      module_flag (cfg_design conf) (bs ''blackbox'') n \<or> n \<in> fst ` set ps \<union> snd ` set ps)"
proof -
  let ?d = "cfg_design conf"
  have order: "module_order ptr_lt" using assms(1) by (rule module_order.intro)
  obtain names where names: "topo_sort_modules left_first ptr_lt ?d = Inr names" "set names = m_name ` set ?d"
    using module_order.sort_modules_ok [OF order assms(3)] by blast
  obtain gates golds where sp: "fold (retime_split conf) names ([], []) = (gates, golds)" by fastforce
  obtain ps st1 rs where ps: "rfold (retime_pair id_lt conf golds) gates [] = Inr ps"
    and run: "rfold (retime_check (tls, fp, dump) conf) ps ([], st) = Inr (rs, st1)"
    and box: "(results, d', st') = (case fold retime_box (concat (map (\<lambda>(gold, gate). [gold, gate]) ps)) ([], ?d, st1) of
         (boxes, d, st) \<Rightarrow> (rs, map (box_cells boxes) d, st))"
    using assms(4) names(1) sp by (auto simp: check_extract_retime_def check_retime_def rmap_eq_Inr_iff rbind_eq_Inr_iff)
  note pairs = retime_pairs_found [OF assms(2) sp ps, unfolded names(2)]
  let ?ns = "concat (map (\<lambda>(gold, gate). [gold, gate]) ps)"
  have ns: "set ?ns = fst ` set ps \<union> snd ` set ps" by force
  obtain boxes d1 st2 where fb: "fold retime_box ?ns ([], ?d, st1) = (boxes, d1, st2)" by (metis prod_cases3)
  note b = retime_boxes_ok [OF fb pairs(3) [folded ns] assms(3)]
  have d': "d' = map (box_cells boxes) d1" and rs: "results = rs" using box fb by simp_all
  have "\<forall>(g, k) \<in> set ps. design_module ?d g \<noteq> None \<and> design_module ?d k \<noteq> None"
    using pairs(3) by (force simp: design_module_None)
  then have "list_all2 (\<lambda>(g, k) (_, result). \<exists>gm km s s'. design_module ?d g = Some gm \<and> design_module ?d k = Some km \<and>
      bmcinduct_check tls fp dump (conf\<lparr>gold_mod := gm, gate_mod := km, external_match_file := []\<rparr>) s = Inr (result, s')) ps results"
    using retime_checks_ok [OF run] rs by simp
  moreover have "map m_name d' = map m_name ?d" using b unfolding d' by (simp add: box_cells_keep o_def)
  moreover have "module_flag d' (bs ''blackbox'') n \<longleftrightarrow> module_flag ?d (bs ''blackbox'') n \<or> n \<in> fst ` set ps \<union> snd ` set ps" for n
    unfolding d' box_cells_keep using b ns by blast
  ultimately show ?thesis using pairs(1,2,4) by (intro exI [of _ ps] conjI) simp_all
qed

text \<open>C9: Retimed modules are checked before they become black boxes. When the extraction succeeds there is a list of
  pairs, one for every gate module with the \<open>retime\<close> attribute and its gold module of the corresponding name; each
  pair has a result, which is the verdict of bounded model checking and induction on that pair; and in the design returned
  a module is a black box exactly when it was one before or belongs to a pair, whatever the verdict was.\<close>

theorem retimed_pairs_checked:
  assumes "topo_order ptr_lt" "topo_order id_lt" "distinct (map m_name (cfg_design conf))"
    "check_extract_retime (tls, fp, dump) left_first ptr_lt id_lt conf st = Inr (results, d', st')"
  shows "\<exists>ps. distinct ps \<and>
    set ps = {(g, k). k \<in> m_name ` set (cfg_design conf) \<and> retimed_gate conf k \<and> retime_partner conf k = Inr g} \<and>
    (\<forall>k \<in> m_name ` set (cfg_design conf). retimed_gate conf k \<longrightarrow> k \<in> snd ` set ps) \<and>
    list_all2 (\<lambda>(g, k) (_, result). \<exists>gm km s s'. design_module (cfg_design conf) g = Some gm \<and>
      design_module (cfg_design conf) k = Some km \<and>
      bmcinduct_check tls fp dump (conf\<lparr>gold_mod := gm, gate_mod := km, external_match_file := []\<rparr>) s = Inr (result, s')) ps results \<and>
    map m_name d' = map m_name (cfg_design conf) \<and>
    (\<forall>n. module_flag d' (bs ''blackbox'') n \<longleftrightarrow>
      module_flag (cfg_design conf) (bs ''blackbox'') n \<or> n \<in> fst ` set ps \<union> snd ` set ps)"
  using assms by (rule retimed_pairs_verdicts)

text \<open>C29: The pair of top modules cannot be checked as retimed. The name of the gold top is compared with its backslash
  against a name without, so the partner of a retimed top gate module is looked up under the gold prefix; unless a module
  happens to have that name, the whole extraction stops with an error, although both tops are given.\<close>

theorem retimed_top_fails:
  assumes "topo_order ptr_lt" "distinct (map m_name (cfg_design conf))"
    "design_module (cfg_design conf) (m_name (gate_mod conf)) \<noteq> None" "module_flag (cfg_design conf) (bs ''retime'') (m_name (gate_mod conf))"
    "m_name (gold_mod conf) = bs g" "unescape_id (bs g) = g" "design_module (cfg_design conf) (escape_id (gold_prefix conf @ g)) = None"
  shows "\<exists>err. check_extract_retime env left_first ptr_lt id_lt conf st = Inl err"
proof -
  let ?k = "m_name (gate_mod conf)" and ?d = "cfg_design conf"
  have order: "module_order ptr_lt" using assms(1) by (rule module_order.intro)
  obtain names where names: "topo_sort_modules left_first ptr_lt ?d = Inr names" "set names = m_name ` set ?d"
    using module_order.sort_modules_ok [OF order assms(2)] by blast
  obtain gates golds where sp: "fold (retime_split conf) names ([], []) = (gates, golds)" by fastforce
  note split = retime_split_ok [OF sp]
  have "?k \<in> set names" using assms(3) names(2) design_module_None [of ?d ?k] by simp
  then have gate: "?k \<in> set gates" using split assms(4) by (simp add: retimed_gate_def on_side_def)
  have "escape_id (gold_prefix conf @ g) \<notin> set golds" using split names(2) assms(7) [unfolded design_module_None] by auto
  moreover have "retime_partner conf ?k = Inr (escape_id (gold_prefix conf @ g))"
    using assms(5,6) by (simp add: retime_partner_def)
  ultimately have "\<exists>err. retime_pair id_lt conf golds ?k ps = Inl err" for ps by (simp add: retime_pair_def)
  then obtain err where "rfold (retime_pair id_lt conf golds) gates [] = Inl err" using rfold_fails [OF gate, of "retime_pair id_lt conf golds" "[]"] by blast
  then show ?thesis using names(1) sp by (simp add: check_extract_retime_def check_retime_def)
qed

definition retime_config :: "int CheckConfig" where
  "retime_config = witness_config\<lparr>
     cfg_design := [witness_module (bs ''gold_x''), (witness_module (bs ''gate_x''))\<lparr>m_attrs := [(bs ''retime'', const_of_ll 1)]\<rparr>],
     dump_cfg := (dump_cfg witness_config)\<lparr>dump_fail := False\<rparr>\<rparr>"

definition retime_dump :: "(unit, int) smt2_dumper" where
  "retime_dump = (\<lambda>d dir m lib st. Inr (''x.smt2'', st))"

lemma retime_config_bmc:
  "dump_fail (dump_cfg conf) = False \<Longrightarrow> \<exists>b st'. bmcinduct_check proving_tools int_fp retime_dump conf st = Inr (b, st')"
  by (rule exI [of _ True]) (simp add: bmcinduct_check_def retime_dump_def Let_def failure_log_dir_def bmc_phase_def exec_cmd_def exec_capture_def
      make_command_log_file_def proving_tools_def witness_tools_def CommandResult_init_def)

lemma retime_config_runs:
  "\<exists>results d' st'. check_extract_retime (proving_tools, int_fp, retime_dump) True (<) (<) retime_config witness_state = Inr (results, d', st')"
proof -
  let ?d = "cfg_design retime_config" and ?p = "(bs ''gold_x'', bs ''gate_x'')"
  have names: "topo_sort_modules True (<) ?d = Inr [bs ''gate_x'', bs ''gold_x'']" by code_simp
  have split: "fold (retime_split retime_config) [bs ''gate_x'', bs ''gold_x''] ([], []) = ([bs ''gate_x''], [bs ''gold_x''])" by code_simp
  have ps: "rfold (retime_pair (<) retime_config [bs ''gold_x'']) [bs ''gate_x''] [] = Inr [?p]" by code_simp
  have nm: "get_orignal_mod_name (bs ''gold_x'') (m_name (gold_mod retime_config)) (gold_prefix retime_config) = Inr (bs ''x'')" by code_simp
  obtain gm km where m: "design_module ?d (bs ''gold_x'') = Some gm" "design_module ?d (bs ''gate_x'') = Some km" "m_name gm = bs ''gold_x''"
    by (simp add: retime_config_def design_module_def witness_module_def)
  obtain b st' where "bmcinduct_check proving_tools int_fp retime_dump (retime_config\<lparr>gold_mod := gm, gate_mod := km, external_match_file := []\<rparr>) witness_state = Inr (b, st')"
    using retime_config_bmc [of "retime_config\<lparr>gold_mod := gm, gate_mod := km, external_match_file := []\<rparr>" witness_state]
    by (auto simp: retime_config_def)
  then have "rfold (retime_check (proving_tools, int_fp, retime_dump) retime_config) [?p] ([], witness_state) = Inr ([(bs ''x'', b)], st')"
    using m nm by (simp add: retime_check_def)
  then have "check_retime (proving_tools, int_fp, retime_dump) True (<) (<) retime_config witness_state = Inr ([(bs ''x'', b)], [?p], st')"
    unfolding check_retime_def names rbind_simps split prod.case ps by simp
  then show ?thesis by (auto simp: check_extract_retime_def split: prod.split)
qed

theorem retimed_pairs_checked_witness:
  "\<exists>results d' st'. check_extract_retime (proving_tools, int_fp, retime_dump) True (<) (<) retime_config witness_state = Inr (results, d', st') \<and>
    module_flag d' (bs ''blackbox'') (bs ''gate_x'')"
proof -
  obtain results d' st' where run: "check_extract_retime (proving_tools, int_fp, retime_dump) True (<) (<) retime_config witness_state = Inr (results, d', st')"
    using retime_config_runs by blast
  have "distinct (map m_name (cfg_design retime_config))" "retimed_gate retime_config (bs ''gate_x'')"
      "bs ''gate_x'' \<in> m_name ` set (cfg_design retime_config)" by code_simp+
  with retimed_pairs_checked [OF by_name.topo_order_axioms by_name.topo_order_axioms _ run] have "module_flag d' (bs ''blackbox'') (bs ''gate_x'')"
    by blast
  then show ?thesis using run by blast
qed

definition retime_top :: "int CheckConfig" where
  "retime_top = retime_config\<lparr>gold_mod := witness_module (bs ''gold''), gate_mod := witness_module (bs ''gate''),
     cfg_design := [witness_module (bs ''gold''), (witness_module (bs ''gate''))\<lparr>m_attrs := [(bs ''retime'', const_of_ll 1)]\<rparr>]\<rparr>"

theorem retimed_top_fails_witness:
  "\<exists>err. check_extract_retime (proving_tools, int_fp, retime_dump) True (<) (<) retime_top witness_state = Inl err"
proof (rule retimed_top_fails [OF by_name.topo_order_axioms])
  show "distinct (map m_name (cfg_design retime_top))" by code_simp
  show "design_module (cfg_design retime_top) (m_name (gate_mod retime_top)) \<noteq> None" by code_simp
  show "module_flag (cfg_design retime_top) (bs ''retime'') (m_name (gate_mod retime_top))" by code_simp
  show "m_name (gold_mod retime_top) = bs ''gold''" by code_simp
  show "unescape_id (bs ''gold'') = ''gold''" by code_simp
  show "design_module (cfg_design retime_top) (escape_id (gold_prefix retime_top @ ''gold'')) = None" by code_simp
qed

end
