(* ===== verification/Guide_Check.thy ===== *)
theory Guide_Check
  imports Guide_Match Guide_Arith Guide_Retime
begin

text \<open>
  The command \<open>guide_check\<close> (\<open>passes/guide/guide_check.cc\<close>): its options, the library, the order of the
  checks and the verdict. \<open>conf.gold_mod\<close> and \<open>conf.gate_mod\<close> point into the design that the passes
  change; here they are looked up again by name before every stage (\<open>refresh\<close>), and a module that
  a pass has removed is a dangling pointer. Other passes, the tools and files, the local validation
  of a suggestion, and the orders of pointers, identifiers and arguments are parameters. Timing, log
  lines and the removal of the temporary directory are left out.
\<close>

section \<open>Options\<close>

record goptions =
  o_nocleanup :: bool
  o_assert :: bool
  o_weak :: bool
  o_exe :: string
  o_lib :: string
  o_skip :: int
  o_k :: int
  o_dump :: MlDumpConfig
  o_sched_model :: string
  o_match_model :: string
  o_accept :: string
  o_external :: string
  o_sig_dir :: string

definition goptions_init :: "string \<Rightarrow> goptions" where
  "goptions_init exe = \<lparr>o_nocleanup = False, o_assert = False, o_weak = False, o_exe = exe, o_lib = [], o_skip = 0, o_k = 20,
     o_dump = \<lparr>dump_sched = False, dump_match = False, dump_fail = False, sched_jsonl = [], match_jsonl = [], fail_jsonl = []\<rparr>,
     o_sched_model = [], o_match_model = [], o_accept = [], o_external = [], o_sig_dir = []\<rparr>"

text \<open>\<open>atoi\<close>: white space, a sign and digits; a value that no \<open>int\<close> holds is undefined.\<close>

definition is_digit :: "char \<Rightarrow> bool" where
  "is_digit c \<longleftrightarrow> c \<in> set ''0123456789''"

definition atoi :: "string \<Rightarrow> int result" where
  "atoi s =
     (let s = dropWhile (\<lambda>c. c \<in> set [CHR '' '', CHR 0x09, CHR 0x0A, CHR 0x0B, CHR 0x0C, CHR 0x0D]) s;
          (neg, s) = (case s of [] \<Rightarrow> (False, s)
            | c # r \<Rightarrow> if c = CHR ''-'' then (True, r) else if c = CHR ''+'' then (False, r) else (False, s));
          v = foldl (\<lambda>v c. 10 * v + int (of_char c) - 48) 0 (takeWhile is_digit s);
          v = (if neg then - v else v)
      in if v < - (2 ^ 31) \<or> 2 ^ 31 \<le> v then Inl IntOverflow else Inr v)"

definition flag_option :: "string \<Rightarrow> goptions \<Rightarrow> goptions result option" where
  "flag_option a opts =
     (if a = ''-nocleanup'' then Some (Inr (opts\<lparr>o_nocleanup := True\<rparr>))
      else if a = ''-assert'' then Some (Inr (opts\<lparr>o_assert := True\<rparr>))
      else if a = ''-weak'' then Some (Inr (opts\<lparr>o_weak := True\<rparr>))
      else if a = ''-noinit'' then Some (Inl (LogError ''-noinit option is not supported yet''))
      else None)"

definition value_option :: "string \<Rightarrow> string \<Rightarrow> goptions \<Rightarrow> goptions result option" where
  "value_option a v opts =
     (if a = ''-exe'' then Some (Inr (opts\<lparr>o_exe := v\<rparr>))
      else if a = ''-lib'' then Some (Inr (opts\<lparr>o_lib := v\<rparr>))
      else if a = ''-skip'' then Some (rmap (\<lambda>n. opts\<lparr>o_skip := n\<rparr>) (atoi v))
      else if a = ''-k'' then Some (rmap (\<lambda>n. opts\<lparr>o_k := n\<rparr>) (atoi v))
      else if a = ''-guide-dump-sched'' then Some (Inr (opts\<lparr>o_dump := (o_dump opts)\<lparr>dump_sched := True, sched_jsonl := v\<rparr>\<rparr>))
      else if a = ''-guide-dump-match'' then Some (Inr (opts\<lparr>o_dump := (o_dump opts)\<lparr>dump_match := True, match_jsonl := v\<rparr>\<rparr>))
      else if a = ''-guide-dump-fail'' then Some (Inr (opts\<lparr>o_dump := (o_dump opts)\<lparr>dump_fail := True, fail_jsonl := v\<rparr>\<rparr>))
      else if a = ''-guide-sched-model'' then Some (Inr (opts\<lparr>o_sched_model := v\<rparr>))
      else if a = ''-guide-match-model'' then Some (Inr (opts\<lparr>o_match_model := v\<rparr>))
      else if a = ''-guide-accept-match-suggestions'' then Some (Inr (opts\<lparr>o_accept := v\<rparr>))
      else if a = ''-guide-external-match'' then Some (Inr (opts\<lparr>o_external := v\<rparr>))
      else if a = ''-div-sig-dir'' then Some (Inr (opts\<lparr>o_sig_dir := v\<rparr>))
      else None)"

text \<open>The options and the arguments that are left. An option that needs a value and has none ends the options.\<close>

fun parse_args :: "string list \<Rightarrow> goptions \<Rightarrow> (goptions \<times> string list) result" where
  "parse_args [] opts = Inr (opts, [])"
| "parse_args [a] opts = (case flag_option a opts of Some r \<Rightarrow> rmap (\<lambda>opts. (opts, [])) r | None \<Rightarrow> Inr (opts, [a]))"
| "parse_args (a # v # rest) opts =
     (case flag_option a opts of
        Some r \<Rightarrow> rbind r (parse_args (v # rest))
      | None \<Rightarrow> (case value_option a v opts of
          Some r \<Rightarrow> rbind r (parse_args rest)
        | None \<Rightarrow> Inr (opts, a # v # rest)))"

record tops =
  t_gold :: string
  t_gold_prefix :: string
  t_gate :: string
  t_gate_prefix :: string

definition parse_tops :: "string list \<Rightarrow> tops result" where
  "parse_tops rest = (case rest of
     [gold, gate] \<Rightarrow> Inr \<lparr>t_gold = gold, t_gold_prefix = gold @ ''.'', t_gate = gate, t_gate_prefix = gate @ ''.''\<rparr>
   | [gold, gold_pre, gate, gate_pre] \<Rightarrow> Inr \<lparr>t_gold = gold, t_gold_prefix = gold_pre, t_gate = gate, t_gate_prefix = gate_pre\<rparr>
   | _ \<Rightarrow> Inl (LogError ''Wrong number of arguments for guide_check pass''))"

section \<open>Checking the remaining pairs\<close>

record ('w, 'd) guide_env =
  ge_tools :: "('w, 'd) tools"
  ge_fp :: "'d fp_ops"
  ge_io :: "'d model_io"
  ge_pass :: passes
  ge_write :: "string \<Rightarrow> Design \<Rightarrow> 'w \<Rightarrow> 'w result"
  ge_text :: "'w text_files"
  ge_blif :: "('w, 'd) blif_dumper"
  ge_smt2 :: "('w, 'd) smt2_dumper"
  ge_validate :: "'d CheckConfig \<Rightarrow> Module \<Rightarrow> Module \<Rightarrow> ('w, 'd) validator"
  ge_lines :: "string \<Rightarrow> 'w \<Rightarrow> string list option"
  ge_temp_dir :: "string \<Rightarrow> 'w \<Rightarrow> string \<times> 'w"
  ge_program_prefix :: string
  ge_abc :: string
  ge_idx :: "string \<Rightarrow> nat"
  ge_left_first :: bool
  ge_ptr_lt :: "string \<Rightarrow> string \<Rightarrow> bool"
  ge_id_lt :: "string \<Rightarrow> string \<Rightarrow> bool"

definition get_blackbox_attribute :: "Module \<Rightarrow> bool" where
  "get_blackbox_attribute m \<longleftrightarrow> get_bool_attribute m (bs ''blackbox'') \<or> get_bool_attribute m (bs ''whitebox'')"

definition cec_partner :: "'d CheckConfig \<Rightarrow> string \<Rightarrow> string result" where
  "cec_partner conf name =
     rmap (\<lambda>original_name. if name = m_name (gold_mod conf) then m_name (gate_mod conf)
         else escape_id (gate_prefix conf @ strip_backslash original_name))
       (get_orignal_mod_name name (m_name (gold_mod conf)) (gold_prefix conf))"

definition equiv_mod :: "'d CheckConfig \<Rightarrow> Module \<Rightarrow> (string \<times> string) list \<Rightarrow> (string \<times> string) list result" where
  "equiv_mod conf m equiv_mods =
     (if get_blackbox_attribute m \<or> \<not> on_side (gold_prefix conf) (m_name (gold_mod conf)) (m_name m) then Inr equiv_mods
      else rmap (\<lambda>gate_name. if design_module (cfg_design conf) gate_name \<noteq> None then equiv_mods @ [(m_name m, gate_name)] else equiv_mods)
        (cec_partner conf (m_name m)))"

definition cec_pair ::
    "('w, 'd) guide_env \<Rightarrow> 'd CheckConfig \<Rightarrow> string \<times> string \<Rightarrow> (string \<times> bool) list \<times> ('w, 'd) gstate \<Rightarrow>
     ((string \<times> bool) list \<times> ('w, 'd) gstate) result" where
  "cec_pair env conf = (\<lambda>(gold_name, gate_name) (results, st).
     rbind (clone_design_for_passes (cfg_design conf)) (\<lambda>d.
     case (design_module d gold_name, design_module d gate_name) of
       (Some gold_m, Some gate_m) \<Rightarrow>
         rbind (abc_cec_module (ge_tools env) (ge_fp env) (ge_blif env)
           (conf\<lparr>cfg_design := d, gold_mod := gold_m, gate_mod := gate_m\<rparr>) True st) (\<lambda>(cec_result, _, st).
         rmap (\<lambda>name. (results @ [(name, cec_result)], st)) (get_orignal_mod_name gold_name gate_name (gold_prefix conf)))
     | _ \<Rightarrow> Inl AssertFail))"

definition abc_cec :: "('w, 'd) guide_env \<Rightarrow> 'd CheckConfig \<Rightarrow> ('w, 'd) gstate \<Rightarrow> ((string \<times> bool) list \<times> ('w, 'd) gstate) result" where
  "abc_cec env conf st =
     rbind (rfold (equiv_mod conf) (design_modules (cfg_design conf)) []) (\<lambda>equiv_mods. rfold (cec_pair env conf) equiv_mods ([], st))"

section \<open>Preparing the design\<close>

definition ends_with :: "string \<Rightarrow> string \<Rightarrow> bool" where
  "ends_with s e \<longleftrightarrow> length e < length s \<and> drop (length s - length e) s = e"

definition load_library :: "('w, 'd) guide_env \<Rightarrow> string \<Rightarrow> Design option result" where
  "load_library env lib =
     (if lib = [] then Inr None
      else if ends_with lib ''.lib'' then rmap Some (ge_pass env (''read_liberty -overwrite '' @ lib) [])
      else if ends_with lib ''.v'' then rmap Some (rfold (ge_pass env) [''read_verilog -overwrite '' @ lib, ''proc'', ''techmap''] [])
      else Inl (LogError ''Unsupported library file format''))"

definition import_library :: "('w, 'd) guide_env \<Rightarrow> Design option \<Rightarrow> Design \<Rightarrow> Design result" where
  "import_library env lib d = (case lib of
     None \<Rightarrow> Inr d
   | Some lib \<Rightarrow> rbind (lib_import_to_design d lib) (\<lambda>d. rbind (flatten_std_cells (ge_pass env) d lib) (\<lambda>d.
       rfold (\<lambda>m d. if design_module d (m_name m) \<noteq> None then design_remove d (m_name m) else Inr d) (design_modules lib) d)))"

definition GuideTelemetry_init :: "'d GuideTelemetry" where
  "GuideTelemetry_init = \<lparr>pair_match_stats = Map.empty, pair_records = Map.empty, pair_applied_sugs = Map.empty,
     retimed_mods = [], multiplier_mods = [], divider_mods = [], match_suggestions = []\<rparr>"

definition refresh :: "Design \<Rightarrow> 'd CheckConfig \<Rightarrow> 'd CheckConfig result" where
  "refresh d conf = (case (design_module d (m_name (gold_mod conf)), design_module d (m_name (gate_mod conf))) of
     (Some g, Some k) \<Rightarrow> Inr (conf\<lparr>cfg_design := d, gold_mod := g, gate_mod := k\<rparr>)
   | _ \<Rightarrow> Inl Abort)"

definition run_passes :: "('w, 'd) guide_env \<Rightarrow> string list \<Rightarrow> 'd CheckConfig \<Rightarrow> 'd CheckConfig result" where
  "run_passes env ps conf = rbind (rfold (ge_pass env) ps (cfg_design conf)) (\<lambda>d. refresh d conf)"

definition GuideMatchModel_init :: "'d fp_ops \<Rightarrow> 'd GuideMatchModel" where
  "GuideMatchModel_init fp = \<lparr>mm_loaded = False, mm_path = [], mm_model_type = [], mm_feature_names = [],
     mm_base_score = fp_of_int fp 0, mm_learning_rate = fp_of_int fp 1, mm_trees = []\<rparr>"

text \<open>Up to the passes that prepare the design. Loading a model leaves it as it is when no file is given.\<close>

definition prepare ::
    "('w, 'd) guide_env \<Rightarrow> goptions \<Rightarrow> tops \<Rightarrow> Design \<Rightarrow> ('w, 'd) gstate \<Rightarrow> ('d CheckConfig \<times> ('w, 'd) gstate) result" where
  "prepare env opts t d st =
     (case (design_module d (escape_id (t_gold t)), design_module d (escape_id (t_gate t))) of
        (None, _) \<Rightarrow> Inl (LogError ''Can't find gold module'')
      | (_, None) \<Rightarrow> Inl (LogError ''Can't find gate module'')
      | (Some _, Some _) \<Rightarrow>
          (case ge_temp_dir env ((if o_nocleanup opts then ''_tmp_'' else base_tmpdir (ge_tools env) @ ''/'') @
              ge_program_prefix env @ ''yosys-guide-check-XXXXXX'') (world st) of (tempdir, w) \<Rightarrow>
          rbind (clone_design_for_passes d) (\<lambda>d.
          case (design_module d (escape_id (t_gold t)), design_module d (escape_id (t_gate t))) of
            (Some g, Some k) \<Rightarrow>
              rbind (load_library env (o_lib opts)) (\<lambda>lib.
              rbind (load_sched_model (ge_io env) (ge_fp env) (o_sched_model opts) (GuideSchedModel_init (ge_fp env))) (\<lambda>(_, sched).
              rbind (load_match_model (ge_io env) (ge_fp env) (o_match_model opts) (GuideMatchModel_init (ge_fp env))) (\<lambda>(_, match).
              let conf = \<lparr>nocleanup = o_nocleanup opts, abc_exe_file = o_exe opts, tempdir_name = tempdir, cfg_design = d,
                    gold_mod = g, gate_mod = k, gold_prefix = t_gold_prefix t, gate_prefix = t_gate_prefix t, lib_file = o_lib opts,
                    accept_sugs_file = o_accept opts, external_match_file = o_external opts,
                    seq_check_cfg = \<lparr>k_induct = o_k opts, step_skip = o_skip opts, weak_mode = o_weak opts, no_init = False\<rparr>,
                    dump_cfg = o_dump opts, sched_model = Some sched, match_model = Some match\<rparr>
              in rbind (import_library env lib d) (\<lambda>d. rbind (refresh d conf) (\<lambda>conf.
                 rmap (\<lambda>conf. (conf, st\<lparr>world := w, telemetry := Some GuideTelemetry_init\<rparr>))
                   (run_passes env [''proc'', ''memory_map'', ''opt_expr'', ''wreduce''] conf))))))
          | _ \<Rightarrow> Inl AssertFail)))"

section \<open>The checks in order\<close>

record guide_report =
  rp_mul :: "(string \<times> bool) list"
  rp_div :: "(string \<times> bool) list"
  rp_retime :: "(string \<times> bool) list"
  rp_cec :: "(string \<times> bool) list"

definition all_passed :: "(string \<times> bool) list \<Rightarrow> bool" where
  "all_passed rs \<longleftrightarrow> list_all snd rs"

definition report :: "guide_report \<Rightarrow> bool" where
  "report r \<longleftrightarrow> all_passed (rp_mul r) \<and> all_passed (rp_div r) \<and> all_passed (rp_cec r) \<and> all_passed (rp_retime r)"

definition arith_env_of :: "('w, 'd) guide_env \<Rightarrow> goptions \<Rightarrow> 'd CheckConfig \<Rightarrow> ('w, 'd) arith_env" where
  "arith_env_of env opts conf = \<lparr>ae_tools = ge_tools env, ae_fp = ge_fp env, ae_aig = dump_aig (ge_pass env) (ge_write env),
     ae_verilog = dump_verilog (ge_text env) (ge_write env), ae_dump = dump_cfg conf, ae_tempdir = tempdir_name conf,
     ae_sig_dir = o_sig_dir opts\<rparr>"

definition external_lines :: "('w, 'd) guide_env \<Rightarrow> 'd CheckConfig \<Rightarrow> ('w, 'd) gstate \<Rightarrow> string list option" where
  "external_lines env conf st = (if external_match_file conf = [] then None else ge_lines env (external_match_file conf) (world st))"

definition arith_stage ::
    "('w, 'd) guide_env \<Rightarrow> goptions \<Rightarrow> arith \<Rightarrow> ModMap \<Rightarrow> 'd CheckConfig \<Rightarrow> ('w, 'd) gstate \<Rightarrow>
     ((string \<times> bool) list \<times> 'd CheckConfig \<times> ('w, 'd) gstate) result" where
  "arith_stage env opts k mm conf st =
     rbind (case k of Mul \<Rightarrow> get_multi_map (cfg_design conf) mm | Div \<Rightarrow> get_div_map (cfg_design conf) mm) (\<lambda>es.
     rbind (check_extract k (ge_idx env) (arith_env_of env opts conf) es (cfg_design conf) st) (\<lambda>(results, touched, d, st).
     rmap (\<lambda>conf. (results, conf, st\<lparr>telemetry := map_option (\<lambda>t. case k of Mul \<Rightarrow> t\<lparr>multiplier_mods := touched\<rparr>
         | Div \<Rightarrow> t\<lparr>divider_mods := touched\<rparr>) (telemetry st)\<rparr>)) (refresh d conf)))"

definition match_stage ::
    "('w, 'd) guide_env \<Rightarrow> bool \<Rightarrow> string \<Rightarrow> ModMap \<Rightarrow> 'd CheckConfig \<Rightarrow> ('w, 'd) gstate \<Rightarrow> ('w, 'd) gstate result" where
  "match_stage env emit snapshot mm conf st =
     rmap snd (match_signals (ge_tools env) (ge_fp env) (ge_io env) (ge_validate env conf) conf (external_lines env conf st)
       emit snapshot (cfg_design conf) mm st)"

definition retime_stage ::
    "('w, 'd) guide_env \<Rightarrow> 'd CheckConfig \<Rightarrow> ('w, 'd) gstate \<Rightarrow> ((string \<times> bool) list \<times> 'd CheckConfig \<times> ('w, 'd) gstate) result" where
  "retime_stage env conf st =
     rbind (check_extract_retime (ge_tools env, ge_fp env, ge_smt2 env) (ge_left_first env) (ge_ptr_lt env) (ge_id_lt env) conf st)
       (\<lambda>(results, d, st). rmap (\<lambda>conf. (results, conf, st)) (refresh d conf))"

definition write_outputs :: "('w, 'd) guide_env \<Rightarrow> 'd CheckConfig \<Rightarrow> ('w, 'd) gstate \<Rightarrow> ('w, 'd) gstate result" where
  "write_outputs env conf st =
     (let dc = dump_cfg conf
      in rbind (if dump_match dc
                then write_match_suggestions (ge_tools env) (match_suggestions_path (match_jsonl dc))
                       (case telemetry st of None \<Rightarrow> [] | Some t \<Rightarrow> match_suggestions t) st
                else Inr st) (\<lambda>st.
         if dump_fail dc then write_failure_hints (ge_tools env) (fail_jsonl dc) (path_dirname (fail_jsonl dc) @ ''/failure_hints.json'') st
         else Inr st))"

definition run_checks ::
    "('w, 'd) guide_env \<Rightarrow> goptions \<Rightarrow> 'd CheckConfig \<Rightarrow> ('w, 'd) gstate \<Rightarrow> (guide_report \<times> 'd CheckConfig \<times> ('w, 'd) gstate) result" where
  "run_checks env opts conf st =
     rbind (hier_mod_map (cfg_design conf) (m_name (gold_mod conf)) (m_name (gate_mod conf)) (gold_prefix conf) (gate_prefix conf)
       (external_lines env conf st)) (\<lambda>mm.
     rbind (arith_stage env opts Mul mm conf st) (\<lambda>(mul, conf, st).
     rbind (arith_stage env opts Div mm conf st) (\<lambda>(dv, conf, st).
     rbind (if dump_match (dump_cfg conf) then match_stage env False ''pre_async'' mm conf st else Inr st) (\<lambda>st.
     rbind (run_passes env [''techmap'', ''async2sync'', ''dffunmap'', ''opt_clean''] conf) (\<lambda>conf.
     rbind (retime_stage env conf st) (\<lambda>(ret, conf, st).
     rbind (match_stage env True ''post_async'' mm conf st) (\<lambda>st.
     rmap (\<lambda>(cec, st). (\<lparr>rp_mul = mul, rp_div = dv, rp_retime = ret, rp_cec = cec\<rparr>, conf, st)) (abc_cec env conf st))))))))"

definition guide_check ::
    "('w, 'd) guide_env \<Rightarrow> string list \<Rightarrow> Design \<Rightarrow> ('w, 'd) gstate \<Rightarrow> (guide_report \<times> bool \<times> ('w, 'd) gstate) result" where
  "guide_check env args d st =
     rbind (parse_args args (goptions_init (ge_abc env))) (\<lambda>(opts, rest).
     rbind (parse_tops rest) (\<lambda>t.
     rbind (prepare env opts t d st) (\<lambda>(conf, st).
     rbind (run_checks env opts conf st) (\<lambda>(rep, conf, st).
     rbind (write_outputs env conf st) (\<lambda>st.
     let succ = all_passed (rp_cec rep) \<and> all_passed (rp_mul rep) \<and> all_passed (rp_div rep) \<and> all_passed (rp_retime rep)
     in if o_assert opts \<and> \<not> succ then Inl (LogError ''GUIDE_CHECK Assertion Failed!'') else Inr (rep, succ, st))))))"
section \<open>What a run has checked\<close>

text \<open>The pairs that are left to the engines, by their names, and what it means that one was checked.\<close>

definition cec_checked :: "'d CheckConfig \<Rightarrow> string \<Rightarrow> string \<Rightarrow> bool" where
  "cec_checked conf g k \<longleftrightarrow> (\<exists>m \<in> set (cfg_design conf). m_name m = g \<and> \<not> get_blackbox_attribute m) \<and>
     on_side (gold_prefix conf) (m_name (gold_mod conf)) g \<and> cec_partner conf g = Inr k \<and> design_module (cfg_design conf) k \<noteq> None"

definition cec_verdict :: "('w, 'd) guide_env \<Rightarrow> 'd CheckConfig \<Rightarrow> string \<Rightarrow> string \<Rightarrow> bool \<Rightarrow> bool" where
  "cec_verdict env conf g k verdict \<longleftrightarrow> (\<exists>gm km s res s'. design_module (cfg_design conf) g = Some gm \<and> design_module (cfg_design conf) k = Some km \<and>
     abc_cec_module (ge_tools env) (ge_fp env) (ge_blif env)
       (conf\<lparr>cfg_design := design_modules (cfg_design conf), gold_mod := gm, gate_mod := km\<rparr>) True s = Inr (verdict, res, s'))"

text \<open>The engines were run on the two modules and one of them printed that they are equivalent.\<close>

definition cec_proved :: "('w, 'd) guide_env \<Rightarrow> 'd CheckConfig \<Rightarrow> string \<Rightarrow> string \<Rightarrow> bool" where
  "cec_proved env conf g k \<longleftrightarrow> cec_verdict env conf g k True \<and>
     (\<exists>mf gof gaf. \<exists>a \<in> set heuristic_abc_plan. abc_reports_equivalent (ge_tools env) conf mf gof gaf a)"

text \<open>Bounded model checking and induction succeeded on the two modules.\<close>

definition retime_proved :: "('w, 'd) guide_env \<Rightarrow> 'd CheckConfig \<Rightarrow> string \<Rightarrow> string \<Rightarrow> bool" where
  "retime_proved env conf g k \<longleftrightarrow> (\<exists>gm km s s'. design_module (cfg_design conf) g = Some gm \<and> design_module (cfg_design conf) k = Some km \<and>
     bmcinduct_check (ge_tools env) (ge_fp env) (ge_smt2 env) (conf\<lparr>gold_mod := gm, gate_mod := km, external_match_file := []\<rparr>) s = Inr (True, s'))"

text \<open>The tool for the operation confirmed the modules of every pair of multipliers or dividers, and the implementations
  of the cells of every pair of cells.\<close>

definition arith_confirmed :: "('w, 'd) guide_env \<Rightarrow> goptions \<Rightarrow> 'd CheckConfig \<Rightarrow> arith \<Rightarrow> string \<Rightarrow> bool" where
  "arith_confirmed env opts conf k n \<longleftrightarrow> (\<exists>m. design_module (cfg_design conf) n = Some m \<and> tool_confirms k (arith_env_of env opts conf) m)"

definition arith_proved :: "('w, 'd) guide_env \<Rightarrow> goptions \<Rightarrow> 'd CheckConfig \<Rightarrow> arith \<Rightarrow> MultiMapEntry list \<Rightarrow> bool" where
  "arith_proved env opts conf k es \<longleftrightarrow> (\<forall>x \<in> set es.
     if is_multi_mod x then arith_confirmed env opts conf k (e_gold_mod x) \<and> arith_confirmed env opts conf k (e_gate_mod x)
     else \<forall>c \<in> set (entry_cells (cfg_design conf) x). is_implemented (c_type c) \<longrightarrow> design_module (cfg_design conf) (c_type c) \<noteq> None \<longrightarrow>
       arith_confirmed env opts conf k (c_type c))"

lemma clone_design_ok:
  assumes "clone_design_for_passes d = Inr copy"
  shows "copy = design_modules d" "distinct (map m_name d)" "design_module copy n = design_module d n"
proof -
  have add: "rfold (\<lambda>m copy. design_add copy m) ms acc = Inr copy \<Longrightarrow> distinct (map m_name acc) \<Longrightarrow>
    copy = acc @ ms \<and> distinct (map m_name (acc @ ms))" for ms acc
  proof (induction ms arbitrary: acc)
    case (Cons m ms)
    then have "m_name m \<notin> m_name ` set acc" "rfold (\<lambda>m copy. design_add copy m) ms (acc @ [m]) = Inr copy"
      using design_module_None [of acc "m_name m"] by (auto simp: design_add_def rbind_eq_Inr_iff split: if_splits)
    with Cons.IH [of "acc @ [m]"] Cons.prems(2) show ?case by simp
  qed simp
  from add [OF assms [unfolded clone_design_for_passes_def]] show *: "copy = design_modules d" and dist: "distinct (map m_name d)"
    by (simp_all add: design_modules_def flip: rev_map)
  have "design_module d n = Some m \<longleftrightarrow> m \<in> set d \<and> m_name m = n" if "distinct (map m_name d)" for d and m :: Module
    using that design_module_name [of d n m] design_module_None [of d n]
    by (cases "design_module d n") (force simp: distinct_map inj_on_def dest: design_module_name)+
  note mem = this
  have "design_module copy n = Some m \<longleftrightarrow> design_module d n = Some m" for m
    unfolding * using mem [OF dist] mem [of "design_modules d" m] dist by (simp add: design_modules_def flip: rev_map)
  then show "design_module copy n = design_module d n" by (cases "design_module d n"; cases "design_module copy n") auto
qed

lemma equiv_mods_ok:
  "rfold (equiv_mod conf) ms acc = Inr ps \<Longrightarrow> set ps = set acc \<union> {(g, k). (\<exists>m \<in> set ms. m_name m = g \<and> \<not> get_blackbox_attribute m) \<and>
     on_side (gold_prefix conf) (m_name (gold_mod conf)) g \<and> cec_partner conf g = Inr k \<and> design_module (cfg_design conf) k \<noteq> None}"
proof (induction ms arbitrary: acc)
  case (Cons m ms)
  from Cons.prems obtain acc1 where one: "equiv_mod conf m acc = Inr acc1" and rest: "rfold (equiv_mod conf) ms acc1 = Inr ps"
    by (auto simp: rbind_eq_Inr_iff)
  have "set acc1 = set acc \<union> {(g, k). m_name m = g \<and> \<not> get_blackbox_attribute m \<and>
     on_side (gold_prefix conf) (m_name (gold_mod conf)) g \<and> cec_partner conf g = Inr k \<and> design_module (cfg_design conf) k \<noteq> None}"
    using one by (auto simp: equiv_mod_def rmap_eq_Inr_iff split: if_splits)
  then show ?case unfolding Cons.IH [OF rest] by auto
qed simp

lemma cec_pairs_ok:
  "rfold (cec_pair env conf) ps (rs, st) = Inr (rs', st') \<Longrightarrow>
     \<exists>new. rs' = rs @ new \<and> list_all2 (\<lambda>(g, k) (n, verdict). cec_verdict env conf g k verdict \<and>
       get_orignal_mod_name g k (gold_prefix conf) = Inr n) ps new"
proof (induction ps arbitrary: rs st)
  case (Cons p ps)
  obtain g k where p: "p = (g, k)" by fastforce
  from Cons.prems obtain rs1 st1 where one: "cec_pair env conf (g, k) (rs, st) = Inr (rs1, st1)"
    and rest: "rfold (cec_pair env conf) ps (rs1, st1) = Inr (rs', st')" unfolding p by (auto simp: rbind_eq_Inr_iff)
  from one obtain copy where copy: "clone_design_for_passes (cfg_design conf) = Inr copy"
    unfolding cec_pair_def prod.case rbind_eq_Inr_iff by blast
  with one obtain gm km verdict res name where m: "design_module copy g = Some gm" "design_module copy k = Some km"
    and run: "abc_cec_module (ge_tools env) (ge_fp env) (ge_blif env) (conf\<lparr>cfg_design := copy, gold_mod := gm, gate_mod := km\<rparr>) True st =
      Inr (verdict, res, st1)" and name: "get_orignal_mod_name g k (gold_prefix conf) = Inr name" and rs1: "rs1 = rs @ [(name, verdict)]"
    by (cases "design_module copy g"; cases "design_module copy k") (auto simp: cec_pair_def rbind_eq_Inr_iff rmap_eq_Inr_iff)
  note clone = clone_design_ok [OF copy]
  have "cec_verdict env conf g k verdict" using m [unfolded clone(3)] run [unfolded clone(1)] unfolding cec_verdict_def by blast
  moreover obtain new where "rs' = rs1 @ new" "list_all2 (\<lambda>(g, k) (n, verdict). cec_verdict env conf g k verdict \<and>
       get_orignal_mod_name g k (gold_prefix conf) = Inr n) ps new" using Cons.IH [OF rest] by blast
  ultimately show ?case using name rs1 p by (intro exI [of _ "(name, verdict) # new"]) simp
qed simp

lemma cec_verdict_proved: "cec_verdict env conf g k True \<Longrightarrow> cec_proved env conf g k"
proof -
  assume v: "cec_verdict env conf g k True"
  have same: "abc_reports_equivalent tls (conf\<lparr>cfg_design := d, gold_mod := gm, gate_mod := km\<rparr>) = abc_reports_equivalent tls conf"
    for tls :: "('a, 'b) tools" and d gm km by (intro ext) (simp add: abc_reports_equivalent_def shell_command_def)
  show ?thesis using v abc_verdict_ok unfolding cec_proved_def cec_verdict_def by (fastforce simp: same)
qed

lemma abc_cec_passed:
  assumes "abc_cec env conf st = Inr (results, st')" "all_passed results" "cec_checked conf g k"
  shows "cec_proved env conf g k"
proof -
  from assms(1) obtain ps where ps: "rfold (equiv_mod conf) (design_modules (cfg_design conf)) [] = Inr ps"
    and run: "rfold (cec_pair env conf) ps ([], st) = Inr (results, st')" by (auto simp: abc_cec_def rbind_eq_Inr_iff)
  have "(g, k) \<in> set ps" using equiv_mods_ok [OF ps] assms(3) by (simp add: cec_checked_def design_modules_def)
  then obtain i where i: "i < length ps" "ps ! i = (g, k)" by (auto simp: in_set_conv_nth)
  have all: "list_all2 (\<lambda>(g, k) (n, verdict). cec_verdict env conf g k verdict \<and>
       get_orignal_mod_name g k (gold_prefix conf) = Inr n) ps results" using cec_pairs_ok [OF run] by simp
  then have "length results = length ps" by (simp add: list_all2_lengthD)
  then have "snd (results ! i)" using assms(2) i by (simp add: all_passed_def list_all_length)
  then have "cec_verdict env conf g k True" using list_all2_nthD [OF all i(1)] i(2) by (auto split: prod.splits)
  then show ?thesis by (rule cec_verdict_proved)
qed

lemma refresh_ok:
  "refresh d conf = Inr conf' \<Longrightarrow> \<exists>g k. design_module d (m_name (gold_mod conf)) = Some g \<and> design_module d (m_name (gate_mod conf)) = Some k \<and>
     conf' = conf\<lparr>cfg_design := d, gold_mod := g, gate_mod := k\<rparr>"
  by (auto simp: refresh_def split: option.splits)

lemma arith_stage_maps:
  assumes "arith_stage env opts k mm conf st = Inr (results, conf', st')"
  shows "\<exists>es. (case k of Mul \<Rightarrow> get_multi_map (cfg_design conf) mm | Div \<Rightarrow> get_div_map (cfg_design conf) mm) = Inr es \<and>
    (all_passed results \<longrightarrow> arith_proved env opts conf k es)"
proof -
  from assms(1) obtain es touched d st1 where e: "(case k of Mul \<Rightarrow> get_multi_map (cfg_design conf) mm | Div \<Rightarrow> get_div_map (cfg_design conf) mm) = Inr es"
    and run: "check_extract k (ge_idx env) (arith_env_of env opts conf) es (cfg_design conf) st = Inr (results, touched, d, st1)"
    unfolding arith_stage_def by (fastforce simp: rbind_eq_Inr_iff rmap_eq_Inr_iff)
  have "(n, True) \<in> set results" if "all_passed results" "n \<in> fst ` set results" for n
    using that by (auto simp: all_passed_def list_all_iff)
  then have ok: "arith_confirmed env opts conf k n" if "all_passed results" "n \<in> fst ` set results" for n
    using check_extract_verdicts(5) [OF run] that unfolding arith_confirmed_def by blast
  show ?thesis using e check_extract_verdicts(2,3) [OF run] ok unfolding arith_proved_def
    by (intro exI [of _ es]) simp
qed

text \<open>The designs between the stages of a run: \<open>conf_m\<close> has the multipliers boxed, \<open>conf_r\<close> has only the cells that
  the last passes leave, \<open>conf_c\<close> has the retimed modules boxed too.\<close>

definition run_stages ::
    "('w, 'd) guide_env \<Rightarrow> goptions \<Rightarrow> 'd CheckConfig \<Rightarrow> ModMap \<Rightarrow> guide_report \<Rightarrow> 'd CheckConfig \<Rightarrow> 'd CheckConfig \<Rightarrow> 'd CheckConfig \<Rightarrow> bool" where
  "run_stages env opts conf mm rep conf_m conf_r conf_c \<longleftrightarrow>
     (\<exists>s. hier_mod_map (cfg_design conf) (m_name (gold_mod conf)) (m_name (gate_mod conf)) (gold_prefix conf) (gate_prefix conf) (external_lines env conf s) = Inr mm) \<and>
     (\<exists>s s'. arith_stage env opts Mul mm conf s = Inr (rp_mul rep, conf_m, s')) \<and>
     (\<exists>conf_d s s'. arith_stage env opts Div mm conf_m s = Inr (rp_div rep, conf_d, s') \<and>
        run_passes env [''techmap'', ''async2sync'', ''dffunmap'', ''opt_clean''] conf_d = Inr conf_r) \<and>
     (\<exists>s s'. retime_stage env conf_r s = Inr (rp_retime rep, conf_c, s')) \<and>
     (\<exists>s s'. abc_cec env conf_c s = Inr (rp_cec rep, s'))"

lemma run_checks_stages:
  assumes "run_checks env opts conf st = Inr (rep, conf_c, st')"
  shows "\<exists>mm conf_m conf_r. run_stages env opts conf mm rep conf_m conf_r conf_c"
proof -
  obtain mm where mm: "hier_mod_map (cfg_design conf) (m_name (gold_mod conf)) (m_name (gate_mod conf)) (gold_prefix conf) (gate_prefix conf)
       (external_lines env conf st) = Inr mm" using assms unfolding run_checks_def rbind_eq_Inr_iff by blast
  obtain mul conf_m s1 where mul: "arith_stage env opts Mul mm conf st = Inr (mul, conf_m, s1)"
    using assms unfolding run_checks_def mm rbind_simps by (auto simp: rbind_eq_Inr_iff)
  obtain dv conf_d s2 where dv: "arith_stage env opts Div mm conf_m s1 = Inr (dv, conf_d, s2)"
    using assms unfolding run_checks_def mm mul rbind_simps prod.case by (auto simp: rbind_eq_Inr_iff)
  obtain s3 conf_r ret s4 s5 cec where "run_passes env [''techmap'', ''async2sync'', ''dffunmap'', ''opt_clean''] conf_d = Inr conf_r"
    "retime_stage env conf_r s3 = Inr (ret, conf_c, s4)" "abc_cec env conf_c s5 = Inr (cec, st')"
    "rep = \<lparr>rp_mul = mul, rp_div = dv, rp_retime = ret, rp_cec = cec\<rparr>"
    using assms unfolding run_checks_def mm mul dv rbind_simps prod.case by (auto simp: rbind_eq_Inr_iff rmap_eq_Inr_iff)
  then have "run_stages env opts conf mm rep conf_m conf_r conf_c" unfolding run_stages_def using mm mul dv by auto
  then show ?thesis by blast
qed

lemma retime_stage_passed:
  assumes "topo_order (ge_ptr_lt env)" "topo_order (ge_id_lt env)" "distinct (map m_name (cfg_design conf))"
    "retime_stage env conf st = Inr (results, conf', st')"
  shows "\<exists>ps. set ps = {(g, k). k \<in> m_name ` set (cfg_design conf) \<and> retimed_gate conf k \<and> retime_partner conf k = Inr g} \<and>
    map m_name (cfg_design conf') = map m_name (cfg_design conf) \<and>
    (\<forall>n. module_flag (cfg_design conf') (bs ''blackbox'') n \<longleftrightarrow>
      module_flag (cfg_design conf) (bs ''blackbox'') n \<or> n \<in> fst ` set ps \<union> snd ` set ps) \<and>
    (all_passed results \<longrightarrow> (\<forall>(g, k) \<in> set ps. retime_proved env conf g k))"
proof -
  from assms(4) obtain d where run: "check_extract_retime (ge_tools env, ge_fp env, ge_smt2 env) (ge_left_first env) (ge_ptr_lt env)
      (ge_id_lt env) conf st = Inr (results, d, st')" and conf': "refresh d conf = Inr conf'"
    unfolding retime_stage_def by (auto simp: rbind_eq_Inr_iff rmap_eq_Inr_iff)
  have d: "cfg_design conf' = d" using refresh_ok [OF conf'] by auto
  obtain ps where ps: "set ps = {(g, k). k \<in> m_name ` set (cfg_design conf) \<and> retimed_gate conf k \<and> retime_partner conf k = Inr g}"
      "map m_name d = map m_name (cfg_design conf)" "\<forall>n. module_flag d (bs ''blackbox'') n \<longleftrightarrow>
      module_flag (cfg_design conf) (bs ''blackbox'') n \<or> n \<in> fst ` set ps \<union> snd ` set ps"
    and all: "list_all2 (\<lambda>(g, k) (_, result). \<exists>gm km s s'. design_module (cfg_design conf) g = Some gm \<and>
      design_module (cfg_design conf) k = Some km \<and> bmcinduct_check (ge_tools env) (ge_fp env) (ge_smt2 env)
        (conf\<lparr>gold_mod := gm, gate_mod := km, external_match_file := []\<rparr>) s = Inr (result, s')) ps results"
    using retimed_pairs_verdicts [OF assms(1-3) run] by blast
  have "retime_proved env conf g k" if ok: "all_passed results" and gk: "(g, k) \<in> set ps" for g k
  proof -
    obtain i where i: "i < length ps" "ps ! i = (g, k)" using gk by (auto simp: in_set_conv_nth)
    have "snd (results ! i)" using ok i list_all2_lengthD [OF all] by (simp add: all_passed_def list_all_length)
    then show ?thesis using list_all2_nthD [OF all i(1)] i(2) unfolding retime_proved_def by (auto split: prod.splits)
  qed
  then show ?thesis using ps d by (intro exI [of _ ps]) auto
qed

section \<open>Claim\<close>

definition passing_env :: "(unit, int) guide_env" where
  "passing_env = \<lparr>ge_tools = proving_tools, ge_fp = int_fp, ge_io = \<lparr>read_file = \<lambda>_. None, parse_json = \<lambda>_. Inl []\<rparr>,
     ge_pass = \<lambda>_ d. if distinct (map m_name d) then Inr d else Inl Abort, ge_write = \<lambda>_ _ w. Inr w,
     ge_text = \<lparr>read_text = \<lambda>_ _. None, write_text = \<lambda>_ _ w. (True, w), unlink = \<lambda>_ w. w\<rparr>,
     ge_blif = dump_nothing, ge_smt2 = retime_dump, ge_validate = \<lambda>_ _ _ _ _ _. Inl Abort, ge_lines = \<lambda>_ _. None,
     ge_temp_dir = Pair, ge_program_prefix = [], ge_abc = ''abc'', ge_idx = length, ge_left_first = True, ge_ptr_lt = (<), ge_id_lt = (<)\<rparr>"

definition passing_design :: Design where
  "passing_design = [witness_module (bs ''gold''), witness_module (bs ''gate'')]"

definition passing_conf :: "int CheckConfig" where
  "passing_conf = \<lparr>nocleanup = False, abc_exe_file = ''abc'', tempdir_name = ''/tmp/yosys-guide-check-XXXXXX'',
     cfg_design = [witness_module (bs ''gate''), witness_module (bs ''gold'')], gold_mod = witness_module (bs ''gold''),
     gate_mod = witness_module (bs ''gate''), gold_prefix = ''gold.'', gate_prefix = ''gate.'', lib_file = [],
     accept_sugs_file = [], external_match_file = [],
     seq_check_cfg = \<lparr>k_induct = 20, step_skip = 0, weak_mode = False, no_init = False\<rparr>, dump_cfg = o_dump (goptions_init []),
     sched_model = Some (GuideSchedModel_init int_fp), match_model = Some (GuideMatchModel_init int_fp)\<rparr>"

abbreviation "passing_opts \<equiv> (goptions_init ''abc'')\<lparr>o_assert := True\<rparr>"

lemma passing_refresh: "refresh (cfg_design passing_conf) passing_conf = Inr passing_conf"
  by (simp add: refresh_def passing_conf_def design_module_def witness_module_def)

lemma passing_passes: "run_passes passing_env ps passing_conf = Inr passing_conf"
proof -
  have "rfold (ge_pass passing_env) ps (cfg_design passing_conf) = Inr (cfg_design passing_conf)"
    by (induction ps) (simp_all add: passing_env_def passing_conf_def witness_module_def)
  then show ?thesis by (simp add: run_passes_def passing_refresh)
qed

lemma passing_prepare:
  "map_sum id fst (prepare passing_env passing_opts \<lparr>t_gold = ''gold'', t_gold_prefix = ''gold.'', t_gate = ''gate'', t_gate_prefix = ''gate.''\<rparr>
     passing_design witness_state) = Inr passing_conf"
  by code_simp

abbreviation "passing_map \<equiv> hier_mod_map (cfg_design passing_conf) (bs ''gold'') (bs ''gate'') ''gold.'' ''gate.'' None"

lemma passing_hier: "\<exists>mm. passing_map = Inr mm \<and> mod_map_gold mm = [(bs ''gold'', bs ''gate'')] \<and>
  get_multi_map (cfg_design passing_conf) mm = Inr [] \<and> get_div_map (cfg_design passing_conf) mm = Inr []"
proof -
  have "map_sum id (\<lambda>mm. (mod_map_gold mm, get_multi_map (cfg_design passing_conf) mm, get_div_map (cfg_design passing_conf) mm)) passing_map =
     Inr ([(bs ''gold'', bs ''gate'')], Inr [], Inr [])" by code_simp
  then show ?thesis by (cases passing_map) auto
qed

lemma passing_arith:
  "check_extract k idx e [] d st = Inr ([], [], d, st)"
  by (simp add: check_extract_def)


lemma passing_retime: "retime_stage passing_env passing_conf st = Inr ([], passing_conf, st)"
proof -
  have "topo_sort_modules True (<) (cfg_design passing_conf) = Inr [bs ''gate'', bs ''gold'']" by code_simp
  moreover have "fold (retime_split passing_conf) [bs ''gate'', bs ''gold''] ([], []) = ([], [bs ''gold''])" by code_simp
  moreover have "map (box_cells []) (cfg_design passing_conf) = cfg_design passing_conf" by code_simp
  ultimately have "check_extract_retime (ge_tools passing_env, ge_fp passing_env, ge_smt2 passing_env) (ge_left_first passing_env)
      (ge_ptr_lt passing_env) (ge_id_lt passing_env) passing_conf st = Inr ([], cfg_design passing_conf, st)"
    by (simp add: check_extract_retime_def check_retime_def passing_env_def)
  then show ?thesis by (simp add: retime_stage_def passing_refresh)
qed

lemma passing_match:
  assumes "mod_map_gold mm = [(bs ''gold'', bs ''gate'')]"
  shows "\<exists>st'. match_stage passing_env True ''post_async'' mm passing_conf st = Inr st'"
proof -
  have "design_module (cfg_design passing_conf) (bs ''gold'') = Some (witness_module (bs ''gold''))"
    "design_module (cfg_design passing_conf) (bs ''gate'') = Some (witness_module (bs ''gate''))" by code_simp+
  moreover have "build_named_sigs (witness_module (bs ''gold'')) = Inr ([], [])" "build_named_sigs (witness_module (bs ''gate'')) = Inr ([], [])"
    by code_simp+
  moreover have "external_lines passing_env passing_conf st = None" "accept_sugs_file passing_conf = []" "\<not> dump_match (dump_cfg passing_conf)"
    by (simp_all add: external_lines_def passing_conf_def goptions_init_def)
  ultimately show ?thesis using assms
    by (simp add: match_stage_def match_signals_def match_signals_module_def Let_def match_external_def match_suggested_def dump_matches_def
        passing_env_def)
qed

lemma passing_action:
  assumes "dump_cfg conf = o_dump (goptions_init [])"
  shows "\<exists>rec res. run_abc_action proving_tools int_fp conf True CEC_MAP mf gof gaf st = Inr (rec, res, st) \<and> rr_result_code rec = 1"
  using assms by (simp add: run_abc_action_def Let_def failure_log_dir_def goptions_init_def proving_tools_def witness_tools_def
      execute_and_check_def exec_capture_def make_command_log_file_def target_code_def out2result_def CommandResult_init_def)

lemma passing_engines:
  fixes st :: "(unit, int) gstate"
  assumes "dump_cfg conf = o_dump (goptions_init [])" "sched_model conf = Some (GuideSchedModel_init int_fp)"
  shows "\<exists>res st'. abc_cec_module proving_tools int_fp dump_nothing conf True st = Inr (True, res, st')"
proof -
  have off: "\<not> dump_sched (dump_cfg conf)" using assms(1) by (simp add: goptions_init_def)
  have "\<exists>ps. run_abc_plan proving_tools int_fp conf True pr heuristic_abc_plan mf gof gaf s = Inr (ps, s) \<and> solved ps" for pr mf gof gaf s
    using passing_action [OF assms(1), of mf gof gaf s] off by (auto simp: run_abc_plan_def heuristic_abc_plan_def skip_action_def record_run_def)
  moreover have "learned_abc_plan int_fp conf pr ms = Inr heuristic_abc_plan" for pr ms
    using assms(2) by (simp add: learned_abc_plan_def GuideSchedModel_init_def)
  moreover have "dump_sched_sample proving_tools int_fp conf pr ms tr s = Inr s" for pr ms tr s
    using off by (simp add: dump_sched_sample_def)
  ultimately show ?thesis by (simp add: abc_cec_module_def dump_nothing_def Let_def rbind_eq_Inr_iff) blast
qed

lemma passing_cec: "\<exists>st'. abc_cec passing_env passing_conf st = Inr ([([], True)], st')"
proof -
  let ?d = "design_modules (cfg_design passing_conf)"
  let ?conf = "passing_conf\<lparr>cfg_design := ?d, gold_mod := witness_module (bs ''gold''), gate_mod := witness_module (bs ''gate'')\<rparr>"
  have ps: "rfold (equiv_mod passing_conf) ?d [] = Inr [(bs ''gold'', bs ''gate'')]" by code_simp
  have copy: "clone_design_for_passes (cfg_design passing_conf) = Inr ?d" by code_simp
  have m: "design_module ?d (bs ''gold'') = Some (witness_module (bs ''gold''))" "design_module ?d (bs ''gate'') = Some (witness_module (bs ''gate''))"
    by code_simp+
  have name: "get_orignal_mod_name (bs ''gold'') (bs ''gate'') (gold_prefix passing_conf) = Inr []" by code_simp
  obtain res st' where "abc_cec_module proving_tools int_fp dump_nothing ?conf True st = Inr (True, res, st')"
    using passing_engines [of ?conf st] by (auto simp: passing_conf_def)
  then have "cec_pair passing_env passing_conf (bs ''gold'', bs ''gate'') ([], st) = Inr ([([], True)], st')"
    unfolding cec_pair_def prod.case copy rbind_simps m option.case name by (simp add: passing_env_def)
  then show ?thesis by (simp add: abc_cec_def ps)
qed

lemma passing_arith_stage:
  assumes "(case k of Mul \<Rightarrow> get_multi_map (cfg_design passing_conf) mm | Div \<Rightarrow> get_div_map (cfg_design passing_conf) mm) = Inr []"
  shows "\<exists>st'. arith_stage passing_env opts k mm passing_conf st = Inr ([], passing_conf, st')"
  unfolding arith_stage_def assms rbind_simps passing_arith by (simp add: passing_refresh)

lemma passing_checks:
  "\<exists>st'. run_checks passing_env passing_opts passing_conf st = Inr (\<lparr>rp_mul = [], rp_div = [], rp_retime = [], rp_cec = [([], True)]\<rparr>, passing_conf, st')"
proof -
  obtain mm where mm: "passing_map = Inr mm" "mod_map_gold mm = [(bs ''gold'', bs ''gate'')]"
    "get_multi_map (cfg_design passing_conf) mm = Inr []" "get_div_map (cfg_design passing_conf) mm = Inr []" using passing_hier by blast
  have hier: "hier_mod_map (cfg_design passing_conf) (m_name (gold_mod passing_conf)) (m_name (gate_mod passing_conf)) (gold_prefix passing_conf)
      (gate_prefix passing_conf) (external_lines passing_env passing_conf st) = Inr mm"
    using mm(1) by (simp add: external_lines_def passing_conf_def witness_module_def)
  obtain s1 where s1: "arith_stage passing_env passing_opts Mul mm passing_conf st = Inr ([], passing_conf, s1)"
    using passing_arith_stage [of mm Mul] mm(3) by auto
  obtain s2 where s2: "arith_stage passing_env passing_opts Div mm passing_conf s1 = Inr ([], passing_conf, s2)"
    using passing_arith_stage [of mm Div] mm(4) by auto
  obtain s3 where s3: "match_stage passing_env True ''post_async'' mm passing_conf s2 = Inr s3" using passing_match [OF mm(2)] by blast
  obtain s4 where s4: "abc_cec passing_env passing_conf s3 = Inr ([([], True)], s4)" using passing_cec by blast
  have off: "dump_match (dump_cfg passing_conf) = False" by (simp add: passing_conf_def goptions_init_def)
  show ?thesis unfolding run_checks_def hier s1 s2 rbind_simps prod.case off if_False passing_passes passing_retime s3 s4 by simp
qed

text \<open>A run on two modules without contents, with tools that report success: the pair of tops is checked, and reported
  under an empty name.\<close>

lemma passing_run:
  "\<exists>st'. guide_check passing_env [''-assert'', ''gold'', ''gate''] passing_design witness_state =
     Inr (\<lparr>rp_mul = [], rp_div = [], rp_retime = [], rp_cec = [([], True)]\<rparr>, True, st')"
proof -
  let ?t = "\<lparr>t_gold = ''gold'', t_gold_prefix = ''gold.'', t_gate = ''gate'', t_gate_prefix = ''gate.''\<rparr>"
  have "parse_args [''-assert'', ''gold'', ''gate''] (goptions_init (ge_abc passing_env)) = Inr (passing_opts, [''gold'', ''gate''])"
    by (simp add: flag_option_def value_option_def passing_env_def)
  moreover have "parse_tops [''gold'', ''gate''] = Inr ?t" by (simp add: parse_tops_def)
  moreover obtain s1 where "prepare passing_env passing_opts ?t passing_design witness_state = Inr (passing_conf, s1)"
    using passing_prepare by (cases "prepare passing_env passing_opts ?t passing_design witness_state") auto
  moreover obtain s2 where "run_checks passing_env passing_opts passing_conf s1 =
      Inr (\<lparr>rp_mul = [], rp_div = [], rp_retime = [], rp_cec = [([], True)]\<rparr>, passing_conf, s2)" using passing_checks by blast
  moreover have "write_outputs passing_env passing_conf s2 = Inr s2" by (simp add: write_outputs_def passing_conf_def goptions_init_def)
  ultimately show ?thesis unfolding guide_check_def by (simp add: all_passed_def)
qed



end
