(* ===== verification/EzSAT.thy ===== *)
theory EzSAT
  imports Prelude "HOL-Library.Multiset"
begin

text \<open>
  The generator of clauses in \<open>libs/ezsat/ezsat.cc\<close>. A formula is a number: positive numbers are
  literals (1 and 2 are the constants), negative ones index the vector of expressions, in which equal
  expressions are stored once. \<open>bind\<close> gives every part of a formula a variable and adds the clauses
  that fix its value, \<open>assume\<close> adds the clauses that make a formula true. The class is the state; its
  operations return their result with the new state. The virtual functions \<open>freeze\<close> and \<open>eliminated\<close>
  are those of the base class, which do nothing. Left out are the hash of the calls (\<open>statehash\<close>),
  the printing functions and the solver behind \<open>solver\<close>. The limits of \<open>int\<close> are not modelled:
  numbers of literals, expressions and variables count objects in memory.
  Where C++ leaves open which argument of a call is evaluated first it is the leftmost here; the order
  decides which numbers new expressions get and nothing else.
\<close>

section \<open>The state\<close>

datatype OpId = OpNot | OpAnd | OpOr | OpXor | OpIFF | OpITE

abbreviation (input) CONST_TRUE :: int where "CONST_TRUE \<equiv> 1"

abbreviation (input) CONST_FALSE :: int where "CONST_FALSE \<equiv> 2"

record ezSAT =
  flag_keep_cnf :: bool
  flag_non_incremental :: bool
  non_incremental_solve_used_up :: bool
  literalsCache :: "string \<rightharpoonup> int"
  literals :: "string list"
  expressionsCache :: "OpId \<times> int list \<rightharpoonup> int"
  expressions :: "(OpId \<times> int list) list"
  cnfConsumed :: bool
  cnfVariableCount :: int
  cnfClausesCount :: int
  cnfLiteralVariables :: "int list"
  cnfExpressionVariables :: "int list"
  cnfClauses :: "int list list"
  cnfClausesBackup :: "int list list"

text \<open>Operations that change the state: in sequence, and over the elements of a list.\<close>

type_synonym 'a ez = "ezSAT \<Rightarrow> ('a \<times> ezSAT) result"

definition ret :: "'a \<Rightarrow> 'a ez" where
  "ret x s = Inr (x, s)"

definition fails :: "cxx_error \<Rightarrow> 'a ez" where
  "fails e s = Inl e"

definition andthen :: "'a ez \<Rightarrow> ('a \<Rightarrow> 'b ez) \<Rightarrow> 'b ez" where
  "andthen m f s = rbind (m s) (\<lambda>(x, s'). f x s')"

definition change :: "(ezSAT \<Rightarrow> ezSAT) \<Rightarrow> unit ez" where
  "change f s = Inr ((), f s)"

definition check :: "bool \<Rightarrow> 'a ez \<Rightarrow> 'a ez" where
  "check b m = (if b then m else fails AssertFail)"

fun each :: "('a \<Rightarrow> 'b ez) \<Rightarrow> 'a list \<Rightarrow> 'b list ez" where
  "each f [] = ret []"
| "each f (x # xs) = andthen (f x) (\<lambda>y. andthen (each f xs) (\<lambda>ys. ret (y # ys)))"

fun loop :: "('a \<Rightarrow> 'b \<Rightarrow> 'b ez) \<Rightarrow> 'a list \<Rightarrow> 'b \<Rightarrow> 'b ez" where
  "loop f [] acc = ret acc"
| "loop f (x # xs) acc = andthen (f x acc) (loop f xs)"

section \<open>Literals and expressions\<close>

definition ez_value :: "bool \<Rightarrow> int" where
  "ez_value val = (if val then CONST_TRUE else CONST_FALSE)"

definition literal_new :: "int ez" where
  "literal_new s = Inr (int (length (literals s)) + 1, s\<lparr>literals := literals s @ [[]]\<rparr>)"

definition literal_named :: "string \<Rightarrow> int ez" where
  "literal_named name s =
     (case literalsCache s name of
        Some i \<Rightarrow> Inr (i, s)
      | None \<Rightarrow> (let i = int (length (literals s)) + 1
                 in Inr (i, s\<lparr>literals := literals s @ [name], literalsCache := (literalsCache s)(name \<mapsto> i)\<rparr>)))"

definition ezSAT_empty :: ezSAT where
  "ezSAT_empty = \<lparr>flag_keep_cnf = False, flag_non_incremental = False, non_incremental_solve_used_up = False,
     literalsCache = Map.empty, literals = [], expressionsCache = Map.empty, expressions = [], cnfConsumed = False,
     cnfVariableCount = 0, cnfClausesCount = 0, cnfLiteralVariables = [], cnfExpressionVariables = [], cnfClauses = [],
     cnfClausesBackup = []\<rparr>"

definition ezSAT_init :: "ezSAT result" where
  "ezSAT_init = rmap snd (andthen (literal_named ''CONST_TRUE'') (\<lambda>_. andthen (literal_named ''CONST_FALSE'') (\<lambda>_.
     andthen (literal_named ''CONST_TRUE'') (\<lambda>t. check (t = CONST_TRUE)
       (andthen (literal_named ''CONST_FALSE'') (\<lambda>f. check (f = CONST_FALSE) (ret ())))))) ezSAT_empty)"

text \<open>The arguments that matter, and whether an odd number of true ones was left out of a parity.\<close>

definition drops_arg :: "OpId \<Rightarrow> int \<Rightarrow> bool" where
  "drops_arg op arg \<longleftrightarrow> arg = 0 \<or> (op = OpAnd \<and> arg = CONST_TRUE) \<or> ((op = OpOr \<or> op = OpXor) \<and> arg = CONST_FALSE) \<or>
     (op = OpXor \<and> arg = CONST_TRUE)"

definition xorRemovedOddTrues :: "OpId \<Rightarrow> int list \<Rightarrow> bool" where
  "xorRemovedOddTrues op args = foldl (\<lambda>odd arg. if op = OpXor \<and> arg = CONST_TRUE then \<not> odd else odd) False args"

text \<open>The sorted arguments are walked with \<open>out\<close>, the arguments kept so far, last one first.\<close>

fun dedup :: "OpId \<Rightarrow> int list \<Rightarrow> int list \<Rightarrow> int list" where
  "dedup op out [] = rev out"
| "dedup op [] (x # xs) = dedup op [x] xs"
| "dedup op (y # out) (x # xs) =
     (if y \<noteq> x then dedup op (x # y # out) xs else if op = OpXor then dedup op out xs else dedup op (y # out) xs)"

definition normal_args :: "OpId \<Rightarrow> int list \<Rightarrow> int list" where
  "normal_args op args =
     (let args = filter (\<lambda>arg. \<not> drops_arg op arg) args
      in if op \<in> {OpAnd, OpOr, OpXor, OpIFF} then (case sort args of [] \<Rightarrow> [] | x # xs \<Rightarrow> dedup op [x] xs) else args)"

definition intern :: "OpId \<times> int list \<Rightarrow> int ez" where
  "intern e s =
     (case expressionsCache s e of
        Some i \<Rightarrow> Inr (i, s)
      | None \<Rightarrow> (let i = - (int (length (expressions s)) + 1)
                 in Inr (i, s\<lparr>expressionsCache := (expressionsCache s)(e \<mapsto> i), expressions := expressions s @ [e]\<rparr>)))"

text \<open>The case \<open>OpNot\<close>, which the end of \<open>expression\<close> calls for a parity.\<close>

definition expression_not :: "int list \<Rightarrow> int ez" where
  "expression_not args =
     check (length args = 1)
       (if hd args = CONST_TRUE then ret CONST_FALSE else if hd args = CONST_FALSE then ret CONST_TRUE
        else intern (OpNot, args))"

definition ez_not :: "int \<Rightarrow> int ez" where
  "ez_not a = expression_not (normal_args OpNot [a])"

definition expression :: "OpId \<Rightarrow> int list \<Rightarrow> int ez" where
  "expression op args =
     (let my = normal_args op args; odd = xorRemovedOddTrues op args;
          new = andthen (intern (op, my)) (\<lambda>i. if odd then ez_not i else ret i)
      in case op of
           OpNot \<Rightarrow> expression_not my
         | OpAnd \<Rightarrow> (case my of [] \<Rightarrow> ret CONST_TRUE | [a] \<Rightarrow> ret a | _ \<Rightarrow> new)
         | OpOr \<Rightarrow> (case my of [] \<Rightarrow> ret CONST_FALSE | [a] \<Rightarrow> ret a | _ \<Rightarrow> new)
         | OpXor \<Rightarrow> (case my of [] \<Rightarrow> ret (if odd then CONST_TRUE else CONST_FALSE)
                     | [a] \<Rightarrow> if odd then ez_not a else ret a | _ \<Rightarrow> new)
         | OpIFF \<Rightarrow> (case my of [] \<Rightarrow> fails AssertFail | [a] \<Rightarrow> ret CONST_TRUE | _ \<Rightarrow> new)
         | OpITE \<Rightarrow> check (length my = 3)
             (if my ! 0 = CONST_TRUE then ret (my ! 1) else if my ! 0 = CONST_FALSE then ret (my ! 2) else new))"

definition ez_and :: "int list \<Rightarrow> int ez" where
  "ez_and args = expression OpAnd args"

definition ez_or :: "int list \<Rightarrow> int ez" where
  "ez_or args = expression OpOr args"

definition ez_xor :: "int list \<Rightarrow> int ez" where
  "ez_xor args = expression OpXor args"

definition ez_iff :: "int list \<Rightarrow> int ez" where
  "ez_iff args = expression OpIFF args"

definition ez_ite :: "int \<Rightarrow> int \<Rightarrow> int \<Rightarrow> int ez" where
  "ez_ite a b c = expression OpITE [a, b, c]"

definition lookup_literal :: "int \<Rightarrow> ezSAT \<Rightarrow> string result" where
  "lookup_literal x s = (if 0 < x \<and> x \<le> int (length (literals s)) then Inr (literals s ! nat (x - 1)) else Inl AssertFail)"

definition lookup_expression :: "int \<Rightarrow> ezSAT \<Rightarrow> (OpId \<times> int list) result" where
  "lookup_expression x s =
     (if 0 < - x \<and> - x \<le> int (length (expressions s)) then Inr (expressions s ! nat (- x - 1)) else Inl AssertFail)"

section \<open>Evaluation\<close>

text \<open>The loops over the arguments; 0 is an unknown value.\<close>

fun eval_and :: "(int \<Rightarrow> int result) \<Rightarrow> int list \<Rightarrow> int \<Rightarrow> int result" where
  "eval_and ev [] a = Inr a"
| "eval_and ev (arg # args) a = rbind (ev arg) (\<lambda>b.
     let a = (if b \<noteq> CONST_TRUE \<and> b \<noteq> CONST_FALSE then 0 else a)
     in if b = CONST_FALSE then Inr CONST_FALSE else eval_and ev args a)"

fun eval_or :: "(int \<Rightarrow> int result) \<Rightarrow> int list \<Rightarrow> int \<Rightarrow> int result" where
  "eval_or ev [] a = Inr a"
| "eval_or ev (arg # args) a = rbind (ev arg) (\<lambda>b.
     let a = (if b \<noteq> CONST_TRUE \<and> b \<noteq> CONST_FALSE then 0 else a)
     in if b = CONST_TRUE then Inr CONST_TRUE else eval_or ev args a)"

fun eval_xor :: "(int \<Rightarrow> int result) \<Rightarrow> int list \<Rightarrow> int \<Rightarrow> int result" where
  "eval_xor ev [] a = Inr a"
| "eval_xor ev (arg # args) a = rbind (ev arg) (\<lambda>b.
     if b \<noteq> CONST_TRUE \<and> b \<noteq> CONST_FALSE then Inr 0
     else eval_xor ev args (if b = CONST_TRUE then (if a = CONST_TRUE then CONST_FALSE else CONST_TRUE) else a))"

fun eval_iff :: "(int \<Rightarrow> int result) \<Rightarrow> int list \<Rightarrow> int \<Rightarrow> int result" where
  "eval_iff ev [] a = Inr CONST_TRUE"
| "eval_iff ev (arg # args) a = rbind (ev arg) (\<lambda>b.
     if b \<noteq> CONST_TRUE \<and> b \<noteq> CONST_FALSE then Inr 0 else if b \<noteq> a then Inr CONST_FALSE else eval_iff ev args a)"

fun ez_eval_fuel :: "nat \<Rightarrow> ezSAT \<Rightarrow> int list \<Rightarrow> int \<Rightarrow> int result" where
  "ez_eval_fuel 0 s values x = Inl NonTermination"
| "ez_eval_fuel (Suc n) s values x =
     (if x > 0
      then Inr (if x \<le> int (length values) \<and> values ! nat (x - 1) \<in> {CONST_TRUE, CONST_FALSE, 0} then values ! nat (x - 1) else 0)
      else rbind (lookup_expression x s) (\<lambda>(op, args).
        let ev = ez_eval_fuel n s values
        in case op of
             OpNot \<Rightarrow> if length args \<noteq> 1 then Inl AssertFail
               else rmap (\<lambda>a. if a = CONST_TRUE then CONST_FALSE else if a = CONST_FALSE then CONST_TRUE else 0) (ev (hd args))
           | OpAnd \<Rightarrow> eval_and ev args CONST_TRUE
           | OpOr \<Rightarrow> eval_or ev args CONST_FALSE
           | OpXor \<Rightarrow> eval_xor ev args CONST_FALSE
           | OpIFF \<Rightarrow> if args = [] then Inl AssertFail else rbind (ev (hd args)) (eval_iff ev args)
           | OpITE \<Rightarrow> if length args \<noteq> 3 then Inl AssertFail
               else rbind (ev (args ! 0)) (\<lambda>a. if a = CONST_TRUE then ev (args ! 1) else if a = CONST_FALSE then ev (args ! 2) else Inr 0)))"

text \<open>The arguments of an expression are older than the expression, so this depth is enough (\<open>ez_eval_sound\<close>).\<close>

definition ez_eval :: "ezSAT \<Rightarrow> int list \<Rightarrow> int \<Rightarrow> int result" where
  "ez_eval s = ez_eval_fuel (Suc (length (expressions s))) s"
section \<open>What a number stands for\<close>

definition op_val :: "OpId \<Rightarrow> bool list \<Rightarrow> bool" where
  "op_val op vs = (case op of
     OpNot \<Rightarrow> \<not> hd vs | OpAnd \<Rightarrow> (\<forall>v \<in> set vs. v) | OpOr \<Rightarrow> (\<exists>v \<in> set vs. v) | OpXor \<Rightarrow> odd (length (filter (\<lambda>v. v) vs))
   | OpIFF \<Rightarrow> (\<forall>v \<in> set vs. \<forall>w \<in> set vs. v = w) | OpITE \<Rightarrow> (if vs ! 0 then vs ! 1 else vs ! 2))"

definition id_val :: "(int \<Rightarrow> bool) \<Rightarrow> bool list \<Rightarrow> int \<Rightarrow> bool" where
  "id_val \<rho> vs x = (if x > 0 then \<rho> x else vs ! nat (- x - 1))"

definition vals :: "(int \<Rightarrow> bool) \<Rightarrow> (OpId \<times> int list) list \<Rightarrow> bool list" where
  "vals \<rho> es = foldl (\<lambda>vs e. vs @ [op_val (fst e) (map (id_val \<rho> vs) (snd e))]) [] es"

text \<open>The value of a formula when \<open>\<rho>\<close> gives the values of the literals.\<close>

definition sem :: "ezSAT \<Rightarrow> (int \<Rightarrow> bool) \<Rightarrow> int \<Rightarrow> bool" where
  "sem s \<rho> x = id_val \<rho> (vals \<rho> (expressions s)) x"

definition consts_ok :: "(int \<Rightarrow> bool) \<Rightarrow> bool" where
  "consts_ok \<rho> \<longleftrightarrow> \<rho> CONST_TRUE \<and> \<not> \<rho> CONST_FALSE"

definition valid_at :: "nat \<Rightarrow> nat \<Rightarrow> int \<Rightarrow> bool" where
  "valid_at nl k x \<longleftrightarrow> (0 < x \<and> x \<le> int nl) \<or> (x < 0 \<and> - x \<le> int k)"

definition valid :: "ezSAT \<Rightarrow> int \<Rightarrow> bool" where
  "valid s x \<longleftrightarrow> valid_at (length (literals s)) (length (expressions s)) x"

definition arity :: "OpId \<Rightarrow> nat \<Rightarrow> bool" where
  "arity op n \<longleftrightarrow> (case op of OpNot \<Rightarrow> n = 1 | OpITE \<Rightarrow> n = 3 | _ \<Rightarrow> 2 \<le> n)"

text \<open>Expressions have the right number of arguments, all of them older, and the caches are true.\<close>

definition ez_ok :: "ezSAT \<Rightarrow> bool" where
  "ez_ok s \<longleftrightarrow> 2 \<le> length (literals s) \<and>
     (\<forall>k < length (expressions s). arity (fst (expressions s ! k)) (length (snd (expressions s ! k))) \<and>
        (\<forall>a \<in> set (snd (expressions s ! k)). valid_at (length (literals s)) k a)) \<and>
     (\<forall>e x. expressionsCache s e = Some x \<longrightarrow> (\<exists>k < length (expressions s). expressions s ! k = e \<and> x = - (int k + 1))) \<and>
     (\<forall>name x. literalsCache s name = Some x \<longrightarrow> 0 < x \<and> x \<le> int (length (literals s)) \<and> literals s ! nat (x - 1) = name)"

definition grows :: "ezSAT \<Rightarrow> ezSAT \<Rightarrow> bool" where
  "grows s s' \<longleftrightarrow> (\<exists>ls. literals s' = literals s @ ls) \<and> (\<exists>es. expressions s' = expressions s @ es) \<and>
     literalsCache s \<subseteq>\<^sub>m literalsCache s' \<and> (\<forall>name x. literalsCache s' name = Some x \<longrightarrow> literalsCache s name = Some x \<or> int (length (literals s)) < x)"

definition same_cnf :: "ezSAT \<Rightarrow> ezSAT \<Rightarrow> bool" where
  "same_cnf s s' \<longleftrightarrow> cnfVariableCount s' = cnfVariableCount s \<and> cnfClausesCount s' = cnfClausesCount s \<and>
     cnfLiteralVariables s' = cnfLiteralVariables s \<and> cnfExpressionVariables s' = cnfExpressionVariables s \<and>
     cnfClauses s' = cnfClauses s \<and> cnfClausesBackup s' = cnfClausesBackup s \<and> cnfConsumed s' = cnfConsumed s \<and>
     flag_keep_cnf s' = flag_keep_cnf s"

text \<open>A formula stands for a function of the literals.\<close>

definition means :: "ezSAT \<Rightarrow> int \<Rightarrow> ((int \<Rightarrow> bool) \<Rightarrow> bool) \<Rightarrow> bool" where
  "means s x f \<longleftrightarrow> valid s x \<and> (\<forall>\<rho>. consts_ok \<rho> \<longrightarrow> sem s \<rho> x = f \<rho>)"

definition vmeans :: "ezSAT \<Rightarrow> int list \<Rightarrow> ((int \<Rightarrow> bool) \<Rightarrow> bool list) \<Rightarrow> bool" where
  "vmeans s xs F \<longleftrightarrow> (\<forall>x \<in> set xs. valid s x) \<and> (\<forall>\<rho>. consts_ok \<rho> \<longrightarrow> map (sem s \<rho>) xs = F \<rho>)"

text \<open>An operation that only builds formulas succeeds and gives a result with a property.\<close>

definition gives :: "ezSAT \<Rightarrow> 'a ez \<Rightarrow> ('a \<Rightarrow> ezSAT \<Rightarrow> bool) \<Rightarrow> bool" where
  "gives s m Q \<longleftrightarrow> (\<exists>r s'. m s = Inr (r, s') \<and> ez_ok s' \<and> grows s s' \<and> same_cnf s s' \<and> Q r s')"

section \<open>Values of expressions\<close>

lemma vals_snoc: "vals \<rho> (es @ [e]) = vals \<rho> es @ [op_val (fst e) (map (id_val \<rho> (vals \<rho> es)) (snd e))]"
  by (simp add: vals_def)

lemma length_vals [simp]: "length (vals \<rho> es) = length es"
  by (induction es rule: rev_induct) (simp_all add: vals_snoc, simp add: vals_def)

lemma vals_append: "\<exists>vs. vals \<rho> (es @ fs) = vals \<rho> es @ vs"
proof (induction fs rule: rev_induct)
  case (snoc f fs)
  then obtain vs where "vals \<rho> (es @ fs) = vals \<rho> es @ vs" by blast
  then show ?case by (simp add: vals_snoc flip: append_assoc) (metis append_assoc)
qed simp

lemma id_val_append: "valid_at nl (length vs) x \<Longrightarrow> id_val \<rho> (vs @ ws) x = id_val \<rho> vs x"
  by (auto simp: id_val_def valid_at_def nth_append)

lemma valid_at_mono: "valid_at nl k x \<Longrightarrow> nl \<le> nl' \<Longrightarrow> k \<le> k' \<Longrightarrow> valid_at nl' k' x"
  by (auto simp: valid_at_def)

lemma grows_refl [simp]: "grows s s"
  by (simp add: grows_def)

lemma grows_trans [trans]: "grows s t \<Longrightarrow> grows t u \<Longrightarrow> grows s u"
  by (fastforce simp: grows_def intro: map_le_trans)

lemma same_cnf_refl [simp]: "same_cnf s s"
  by (simp add: same_cnf_def)

lemma same_cnf_trans: "same_cnf s t \<Longrightarrow> same_cnf t u \<Longrightarrow> same_cnf s u"
  by (simp add: same_cnf_def)

lemma valid_grows: "valid s x \<Longrightarrow> grows s s' \<Longrightarrow> valid s' x"
  by (auto simp: valid_def grows_def intro: valid_at_mono)

lemma sem_grows: "valid s x \<Longrightarrow> grows s s' \<Longrightarrow> sem s' \<rho> x = sem s \<rho> x"
proof -
  assume x: "valid s x" and "grows s s'"
  then obtain es where es: "expressions s' = expressions s @ es" by (auto simp: grows_def)
  obtain vs where vs: "vals \<rho> (expressions s @ es) = vals \<rho> (expressions s) @ vs" using vals_append by blast
  show ?thesis using x unfolding sem_def es vs valid_def by (intro id_val_append) simp
qed

lemma means_grows: "means s x f \<Longrightarrow> grows s s' \<Longrightarrow> means s' x f"
  using sem_grows [of s x s'] valid_grows [of s x s'] by (simp add: means_def)

lemma vmeans_grows: "vmeans s xs F \<Longrightarrow> grows s s' \<Longrightarrow> vmeans s' xs F"
proof -
  assume xs: "vmeans s xs F" and g: "grows s s'"
  then have *: "map (sem s' \<rho>) xs = map (sem s \<rho>) xs" for \<rho> using sem_grows [of s _ s'] by (simp add: vmeans_def)
  show ?thesis using xs valid_grows [of s _ s'] g unfolding vmeans_def * by blast
qed

lemma sem_expr:
  assumes "ez_ok s" "k < length (expressions s)"
  shows "sem s \<rho> (- (int k + 1)) = op_val (fst (expressions s ! k)) (map (sem s \<rho>) (snd (expressions s ! k)))"
proof -
  let ?es = "expressions s"
  obtain e fs where es: "?es = take k ?es @ e # fs" "e = ?es ! k" using id_take_nth_drop [OF assms(2)] by metis
  obtain vs where vs: "vals \<rho> ?es = vals \<rho> (take k ?es @ [e]) @ vs" using vals_append [of \<rho> "take k ?es @ [e]" fs] es(1) by auto
  have k: "length (vals \<rho> (take k ?es)) = k" using assms(2) by simp
  then have "vals \<rho> ?es ! k = op_val (fst e) (map (id_val \<rho> (vals \<rho> (take k ?es))) (snd e))"
    unfolding vs by (simp add: vals_snoc nth_append)
  moreover have "id_val \<rho> (vals \<rho> ?es) a = id_val \<rho> (vals \<rho> (take k ?es)) a" if "a \<in> set (snd e)" for a
    using assms that k unfolding vs vals_snoc append_assoc es(2) by (intro id_val_append) (auto simp: ez_ok_def)
  ultimately show ?thesis using es(2) by (simp add: sem_def id_val_def cong: map_cong)
qed

section \<open>Building formulas\<close>

lemma givesI: "m s = Inr (r, s') \<Longrightarrow> ez_ok s' \<Longrightarrow> grows s s' \<Longrightarrow> same_cnf s s' \<Longrightarrow> Q r s' \<Longrightarrow> gives s m Q"
  unfolding gives_def by blast

lemma gives_ret [intro]: "ez_ok s \<Longrightarrow> Q x s \<Longrightarrow> gives s (ret x) Q"
  by (simp add: gives_def ret_def)

lemma gives_check [intro]: "b \<Longrightarrow> gives s m Q \<Longrightarrow> gives s (check b m) Q"
  by (simp add: check_def)

lemma gives_andthen:
  assumes "gives s m P" "\<And>r s'. P r s' \<Longrightarrow> ez_ok s' \<Longrightarrow> grows s s' \<Longrightarrow> gives s' (f r) Q"
  shows "gives s (andthen m f) Q"
proof -
  obtain r s1 where 1: "m s = Inr (r, s1)" "ez_ok s1" "grows s s1" "same_cnf s s1" "P r s1" using assms(1) by (auto simp: gives_def)
  obtain q s2 where 2: "f r s1 = Inr (q, s2)" "ez_ok s2" "grows s1 s2" "same_cnf s1 s2" "Q q s2"
    using assms(2) [OF 1(5,2,3)] by (auto simp: gives_def)
  show ?thesis using 1 2 by (intro givesI [of _ _ q s2]) (auto simp: andthen_def intro: grows_trans same_cnf_trans)
qed

lemma gives_mono: "gives s m P \<Longrightarrow> (\<And>r s'. P r s' \<Longrightarrow> ez_ok s' \<Longrightarrow> grows s s' \<Longrightarrow> Q r s') \<Longrightarrow> gives s m Q"
  unfolding gives_def by blast

lemma means_const:
  "ez_ok s \<Longrightarrow> means s CONST_TRUE (\<lambda>_. True)" "ez_ok s \<Longrightarrow> means s CONST_FALSE (\<lambda>_. False)"
  by (auto simp: means_def valid_def valid_at_def ez_ok_def sem_def id_val_def consts_ok_def)

lemma means_cong: "means s x f \<Longrightarrow> (\<And>\<rho>. consts_ok \<rho> \<Longrightarrow> f \<rho> = g \<rho>) \<Longrightarrow> means s x g"
  by (simp add: means_def)

lemma ez_args:
  "ez_ok s \<Longrightarrow> \<forall>k < length (expressions s). arity (fst (expressions s ! k)) (length (snd (expressions s ! k))) \<and>
     (\<forall>a \<in> set (snd (expressions s ! k)). valid_at (length (literals s)) k a)"
  unfolding ez_ok_def by blast

lemma ez_cached: "ez_ok s \<Longrightarrow> expressionsCache s e = Some x \<Longrightarrow> \<exists>k < length (expressions s). expressions s ! k = e \<and> x = - (int k + 1)"
  unfolding ez_ok_def by blast

lemma intern_ok:
  assumes "ez_ok s" "vmeans s args F" "arity op (length args)"
  shows "gives s (intern (op, args)) (\<lambda>r s'. means s' r (\<lambda>\<rho>. op_val op (F \<rho>)))"
proof -
  have fresh: "means s' (- (int k + 1)) (\<lambda>\<rho>. op_val op (F \<rho>))"
    if "ez_ok s'" "vmeans s' args F" "k < length (expressions s')" "expressions s' ! k = (op, args)" for s' k
    using that sem_expr [OF that(1,3)] by (auto simp: means_def vmeans_def valid_def valid_at_def)
  show ?thesis
  proof (cases "expressionsCache s (op, args)")
    case None
    let ?x = "- (int (length (expressions s)) + 1)"
    let ?s = "s\<lparr>expressionsCache := (expressionsCache s)((op, args) \<mapsto> ?x), expressions := expressions s @ [(op, args)]\<rparr>"
    have g: "grows s ?s" by (simp add: grows_def)
    have "valid_at (length (literals s)) (length (expressions s)) a" if "a \<in> set args" for a
      using assms(2) that by (simp add: vmeans_def valid_def)
    then have args: "\<forall>k < length (expressions ?s). arity (fst (expressions ?s ! k)) (length (snd (expressions ?s ! k))) \<and>
        (\<forall>a \<in> set (snd (expressions ?s ! k)). valid_at (length (literals ?s)) k a)"
      using assms(3) ez_args [OF assms(1)] by (simp add: nth_append less_Suc_eq)
    have "\<exists>k < length (expressions ?s). expressions ?s ! k = e \<and> x = - (int k + 1)" if "expressionsCache ?s e = Some x" for e x
    proof (cases "e = (op, args)")
      case True
      then show ?thesis using that by (intro exI [of _ "length (expressions s)"]) simp
    next
      case False
      then have "expressionsCache s e = Some x" using that by simp
      then obtain k where "k < length (expressions s)" "expressions s ! k = e" "x = - (int k + 1)"
        using ez_cached [OF assms(1)] by blast
      then show ?thesis by (intro exI [of _ k]) (simp add: nth_append)
    qed
    then have ok: "ez_ok ?s" using assms(1) args unfolding ez_ok_def by simp
    show ?thesis using None g ok fresh [OF ok vmeans_grows [OF assms(2) g], of "length (expressions s)"]
      by (intro givesI [of _ _ ?x ?s]) (simp_all add: intern_def Let_def same_cnf_def)
  next
    case (Some x)
    then obtain k where "k < length (expressions s)" "expressions s ! k = (op, args)" "x = - (int k + 1)"
      using ez_cached [OF assms(1) Some] by auto
    then show ?thesis using Some fresh [OF assms(1,2)] assms(1) by (intro givesI [of _ _ x s]) (simp_all add: intern_def)
  qed
qed

lemma parity_Cons: "odd (length (filter (\<lambda>v. v) (v # vs))) \<longleftrightarrow> v \<noteq> odd (length (filter (\<lambda>v. v) vs))"
  by simp

lemma parity_append: "odd (length (filter (\<lambda>v. v) (vs @ ws))) \<longleftrightarrow> (odd (length (filter (\<lambda>v. v) vs)) \<noteq> odd (length (filter (\<lambda>v. v) ws)))"
  by simp

lemma parity_map_sort: "odd (length (filter (\<lambda>v. v) (map f (sort xs)))) = odd (length (filter (\<lambda>v. v) (map f xs)))"
proof -
  have "mset (filter (\<lambda>v. v) (map f (sort xs))) = mset (filter (\<lambda>v. v) (map f xs))" by simp
  then show ?thesis by (metis size_mset)
qed

lemma dedup_set: "op \<noteq> OpXor \<Longrightarrow> set (dedup op out xs) = set out \<union> set xs"
  by (induction op out xs rule: dedup.induct) auto

lemma dedup_subset: "set (dedup op out xs) \<subseteq> set out \<union> set xs"
  by (induction op out xs rule: dedup.induct) auto

lemma dedup_parity:
  "odd (length (filter (\<lambda>v. v) (map f (dedup OpXor out xs)))) = odd (length (filter (\<lambda>v. v) (map f (out @ xs))))"
proof (induction OpXor out xs rule: dedup.induct)
  case (1 out)
  have "mset (filter (\<lambda>v. v) (map f (rev out))) = mset (filter (\<lambda>v. v) (map f out))" by simp
  then show ?case by (metis append_Nil2 dedup.simps(1) size_mset)
qed (auto simp: parity_append)

lemma normal_args_set: "op \<noteq> OpXor \<Longrightarrow> set (normal_args op args) = {a \<in> set args. \<not> drops_arg op a}"
proof -
  assume "op \<noteq> OpXor"
  then have "set (case sort xs of [] \<Rightarrow> [] | y # ys \<Rightarrow> dedup op [y] ys) = set xs" for xs
  proof -
    have "set (case sort xs of [] \<Rightarrow> [] | y # ys \<Rightarrow> dedup op [y] ys) = set (sort xs)"
      using \<open>op \<noteq> OpXor\<close> by (cases "sort xs") (simp_all add: dedup_set)
    then show ?thesis by simp
  qed
  then show ?thesis by (auto simp: normal_args_def Let_def)
qed

lemma normal_args_subset: "set (normal_args op args) \<subseteq> set args"
proof (cases "op = OpXor")
  case True
  let ?xs = "filter (\<lambda>arg. \<not> drops_arg op arg) args"
  have "set (case sort ?xs of [] \<Rightarrow> [] | y # ys \<Rightarrow> dedup op [y] ys) \<subseteq> set (sort ?xs)"
    using dedup_subset [of op "[hd (sort ?xs)]" "tl (sort ?xs)"] by (cases "sort ?xs") auto
  then show ?thesis using True by (auto simp: normal_args_def Let_def)
qed (auto simp: normal_args_set)

lemma odd_trues: "foldl (\<lambda>odd arg. if arg = CONST_TRUE then \<not> odd else odd) b args = (b \<noteq> odd (length (filter (\<lambda>arg. arg = CONST_TRUE) args)))"
  by (induction args arbitrary: b) auto

lemma normal_args_parity:
  assumes "f CONST_TRUE" "\<not> f CONST_FALSE" "0 \<notin> set args"
  shows "odd (length (filter (\<lambda>v. v) (map f args))) =
    (xorRemovedOddTrues OpXor args \<noteq> odd (length (filter (\<lambda>v. v) (map f (normal_args OpXor args)))))"
proof -
  let ?xs = "filter (\<lambda>arg. \<not> drops_arg OpXor arg) args"
  have "odd (length (filter (\<lambda>v. v) (map f (normal_args OpXor args)))) = odd (length (filter (\<lambda>v. v) (map f ?xs)))"
  proof (cases "sort ?xs")
    case Nil
    then have "?xs = []" by (metis set_empty set_sort)
    then show ?thesis by (simp add: normal_args_def)
  next
    case (Cons y ys)
    have "odd (length (filter (\<lambda>v. v) (map f (dedup OpXor [y] ys)))) = odd (length (filter (\<lambda>v. v) (map f (sort ?xs))))"
      using dedup_parity [of f "[y]" ys] Cons by simp
    then show ?thesis using Cons parity_map_sort [of f ?xs] by (simp add: normal_args_def Let_def)
  qed
  moreover have "odd (length (filter (\<lambda>v. v) (map f args))) =
      (odd (length (filter (\<lambda>arg. arg = CONST_TRUE) args)) \<noteq> odd (length (filter (\<lambda>v. v) (map f ?xs))))"
    using assms by (induction args) (auto simp: drops_arg_def)
  ultimately show ?thesis by (simp add: xorRemovedOddTrues_def odd_trues)
qed

lemma no_odd_trues: "op \<noteq> OpXor \<Longrightarrow> \<not> xorRemovedOddTrues op args"
  by (induction args rule: rev_induct) (auto simp: xorRemovedOddTrues_def)

lemma op_val_and_or: "op_val OpAnd vs = (\<forall>v \<in> set vs. v)" "op_val OpOr vs = (\<exists>v \<in> set vs. v)" "op_val OpNot vs = (\<not> hd vs)"
  "op_val OpXor vs = odd (length (filter (\<lambda>v. v) vs))" "op_val OpIFF vs = (\<forall>v \<in> set vs. \<forall>w \<in> set vs. v = w)"
  "op_val OpITE vs = (if vs ! 0 then vs ! 1 else vs ! 2)"
  by (simp_all add: op_val_def)

text \<open>Dropping and sorting arguments keeps the value.\<close>

lemma normal_args_value:
  assumes "f CONST_TRUE" "\<not> f CONST_FALSE" "0 \<notin> set args"
  shows "op_val op (map f args) = (xorRemovedOddTrues op args \<noteq> op_val op (map f (normal_args op args)))"
proof (cases op)
  case OpXor
  then show ?thesis using normal_args_parity [OF assms] by (simp add: op_val_and_or)
next
  case OpNot
  have "filter (\<lambda>arg. \<not> drops_arg OpNot arg) args = args" using assms(3) by (auto simp: drops_arg_def intro!: filter_True)
  then show ?thesis using OpNot by (simp add: normal_args_def no_odd_trues)
next
  case OpITE
  have "filter (\<lambda>arg. \<not> drops_arg OpITE arg) args = args" using assms(3) by (auto simp: drops_arg_def intro!: filter_True)
  then show ?thesis using OpITE by (simp add: normal_args_def no_odd_trues)
next
  case OpAnd
  then show ?thesis using assms by (auto simp: no_odd_trues op_val_and_or normal_args_set drops_arg_def)
next
  case OpOr
  then show ?thesis using assms by (auto simp: no_odd_trues op_val_and_or normal_args_set drops_arg_def)
next
  case OpIFF
  have "set (normal_args OpIFF args) = set args" using assms(3) by (auto simp: normal_args_set drops_arg_def)
  then show ?thesis using OpIFF by (simp add: no_odd_trues op_val_and_or)
qed

lemma sem_consts: "consts_ok \<rho> \<Longrightarrow> sem s \<rho> CONST_TRUE" "consts_ok \<rho> \<Longrightarrow> \<not> sem s \<rho> CONST_FALSE"
  by (simp_all add: sem_def id_val_def consts_ok_def)

lemma valid_nonzero [simp]: "\<not> valid s 0"
  by (auto simp: valid_def valid_at_def)

lemma vmeans_sem: "\<forall>x \<in> set xs. valid s x \<Longrightarrow> vmeans s xs (\<lambda>\<rho>. map (sem s \<rho>) xs)"
  by (simp add: vmeans_def)

lemma means_sem: "valid s x \<Longrightarrow> means s x (\<lambda>\<rho>. sem s \<rho> x)"
  by (simp add: means_def)

lemma vmeans_length: "vmeans s xs F \<Longrightarrow> consts_ok \<rho> \<Longrightarrow> length (F \<rho>) = length xs"
  unfolding vmeans_def by (metis length_map)

lemma vmeans_single [simp]: "vmeans s [x] (\<lambda>\<rho>. [f \<rho>]) \<longleftrightarrow> means s x f"
  by (simp add: vmeans_def means_def)

lemma vmeans_Cons [simp]: "vmeans s (x # xs) (\<lambda>\<rho>. f \<rho> # F \<rho>) \<longleftrightarrow> means s x f \<and> vmeans s xs F"
  by (auto simp: vmeans_def means_def)

lemma vmeans_Nil [simp]: "vmeans s [] (\<lambda>\<rho>. [])"
  by (simp add: vmeans_def)

text \<open>The case of a negation.\<close>

lemma expression_not_ok:
  assumes "ez_ok s" "means s x f"
  shows "gives s (expression_not [x]) (\<lambda>r s'. means s' r (\<lambda>\<rho>. \<not> f \<rho>))"
proof -
  have c: "means s CONST_TRUE (\<lambda>_. True)" "means s CONST_FALSE (\<lambda>_. False)" using means_const [OF assms(1)] by auto
  have not_true: "means s CONST_FALSE (\<lambda>\<rho>. \<not> f \<rho>)" if "x = CONST_TRUE"
    by (rule means_cong [OF c(2)]) (use assms(2) that sem_consts in \<open>auto simp: means_def\<close>)
  have not_false: "means s CONST_TRUE (\<lambda>\<rho>. \<not> f \<rho>)" if "x = CONST_FALSE"
    by (rule means_cong [OF c(1)]) (use assms(2) that sem_consts in \<open>auto simp: means_def\<close>)
  have new: "gives s (intern (OpNot, [x])) (\<lambda>r s'. means s' r (\<lambda>\<rho>. \<not> f \<rho>))"
    using intern_ok [OF assms(1), of "[x]" "\<lambda>\<rho>. [f \<rho>]" OpNot] assms(2) by (simp add: arity_def op_val_and_or)
  show ?thesis unfolding expression_not_def using assms(1) not_true not_false new by (auto simp: check_def)
qed

lemma ez_not_ok:
  assumes "ez_ok s" "means s x f"
  shows "gives s (ez_not x) (\<lambda>r s'. means s' r (\<lambda>\<rho>. \<not> f \<rho>))"
proof -
  have "x \<noteq> 0" using assms(2) by (auto simp: means_def)
  then have "normal_args OpNot [x] = [x]" by (simp add: normal_args_def drops_arg_def)
  then show ?thesis using expression_not_ok [OF assms] by (simp add: ez_not_def)
qed

definition enough_args :: "OpId \<Rightarrow> nat \<Rightarrow> bool" where
  "enough_args op n \<longleftrightarrow> (case op of OpNot \<Rightarrow> n = 1 | OpITE \<Rightarrow> n = 3 | OpIFF \<Rightarrow> 1 \<le> n | _ \<Rightarrow> True)"

lemma new_expression_ok:
  assumes "ez_ok s" "vmeans s my (\<lambda>\<rho>. map (sem s \<rho>) my)" "arity op (length my)"
  shows "gives s (andthen (intern (op, my)) (\<lambda>i. if od then ez_not i else ret i))
    (\<lambda>r s'. means s' r (\<lambda>\<rho>. od \<noteq> op_val op (map (sem s \<rho>) my)))"
  by (rule gives_andthen [OF intern_ok [OF assms]]) (use ez_not_ok in auto)

lemma expression_ok:
  assumes "ez_ok s" "vmeans s args F" "enough_args op (length args)"
  shows "gives s (expression op args) (\<lambda>r s'. means s' r (\<lambda>\<rho>. op_val op (F \<rho>)))"
proof -
  let ?my = "normal_args op args" and ?odd = "xorRemovedOddTrues op args"
  have v: "\<forall>x \<in> set args. valid s x" using assms(2) by (simp add: vmeans_def)
  then have zero: "0 \<notin> set args" by auto
  have my: "vmeans s ?my (\<lambda>\<rho>. map (sem s \<rho>) ?my)" using v normal_args_subset [of op args] by (intro vmeans_sem) blast
  have vmy: "valid s x" if "x \<in> set ?my" for x using my that by (simp add: vmeans_def)
  have target: "op_val op (F \<rho>) = (?odd \<noteq> op_val op (map (sem s \<rho>) ?my))" if "consts_ok \<rho>" for \<rho>
    using normal_args_value [of "sem s \<rho>", OF sem_consts [OF that] zero] assms(2) that by (simp add: vmeans_def)
  have done_: "gives s (ret r) (\<lambda>r s'. means s' r (\<lambda>\<rho>. op_val op (F \<rho>)))"
    if "means s r f" "\<And>\<rho>. consts_ok \<rho> \<Longrightarrow> f \<rho> = (?odd \<noteq> op_val op (map (sem s \<rho>) ?my))" for r f
    using assms(1) that(1) by (intro gives_ret means_cong [OF that(1)]) (simp_all add: that(2) target)
  have new: "gives s (andthen (intern (op, ?my)) (\<lambda>i. if ?odd then ez_not i else ret i)) (\<lambda>r s'. means s' r (\<lambda>\<rho>. op_val op (F \<rho>)))"
    if "arity op (length ?my)"
    by (rule gives_mono [OF new_expression_ok [OF assms(1) my that]]) (auto intro: means_cong simp: target)
  have c: "means s CONST_TRUE (\<lambda>_. True)" "means s CONST_FALSE (\<lambda>_. False)" using means_const [OF assms(1)] by auto
  have negated: "gives s (ez_not a) (\<lambda>r s'. means s' r (\<lambda>\<rho>. op_val op (F \<rho>)))"
    if "valid s a" "\<And>\<rho>. consts_ok \<rho> \<Longrightarrow> (\<not> sem s \<rho> a) = (?odd \<noteq> op_val op (map (sem s \<rho>) ?my))" for a
    by (rule gives_mono [OF ez_not_ok [OF assms(1) means_sem [OF that(1)]]], erule means_cong) (simp only: target that(2))
  consider (fixed) "op \<in> {OpNot, OpITE}" | (andor) "op \<in> {OpAnd, OpOr}" | (xor) "op = OpXor" | (iff) "op = OpIFF" by (cases op) auto
  then show ?thesis
  proof cases
    case fixed
    then have same: "?my = args" "\<not> ?odd" using zero by (auto simp: normal_args_def drops_arg_def no_odd_trues intro!: filter_True)
    show ?thesis
    proof (cases "op = OpNot")
      case True
      then obtain x where x: "args = [x]" using assms(3) by (auto simp: enough_args_def length_Suc_conv)
      have "means s x (\<lambda>\<rho>. sem s \<rho> x)" using v x by (simp add: means_sem)
      from expression_not_ok [OF assms(1) this] show ?thesis using True same x target
        by (auto simp: expression_def op_val_and_or elim!: gives_mono intro: means_cong)
    next
      case False
      then have ite: "op = OpITE" using fixed by simp
      then obtain a b c where abc: "args = [a, b, c]" using assms(3) by (auto simp: enough_args_def eval_nat_numeral length_Suc_conv)
      have "valid s a" "valid s b" "valid s c" using v abc by auto
      then have "gives s (ret b) (\<lambda>r s'. means s' r (\<lambda>\<rho>. op_val op (F \<rho>)))" if "a = CONST_TRUE"
        using that done_ [OF means_sem, of b] ite same abc sem_consts by (simp add: op_val_and_or)
      moreover have "gives s (ret c) (\<lambda>r s'. means s' r (\<lambda>\<rho>. op_val op (F \<rho>)))" if "a = CONST_FALSE"
        using that done_ [OF means_sem, of c] \<open>valid s c\<close> ite same abc sem_consts by (simp add: op_val_and_or)
      ultimately show ?thesis using new ite same abc by (simp add: expression_def check_def arity_def Let_def)
    qed
  next
    case andor
    then have "\<not> ?odd" by (auto simp: no_odd_trues)
    then show ?thesis using andor c done_ [OF c(1)] done_ [OF c(2)] done_ [OF means_sem, of "hd ?my"] vmy [of "hd ?my"] new
      by (auto simp: expression_def Let_def op_val_and_or arity_def split: list.splits)
  next
    case xor
    show ?thesis
    proof (cases ?my)
      case Nil
      show ?thesis
      proof (cases ?odd)
        case True
        then show ?thesis using done_ [OF c(1)] Nil xor by (simp add: expression_def op_val_and_or)
      next
        case False
        then show ?thesis using done_ [OF c(2)] Nil xor by (simp add: expression_def op_val_and_or)
      qed
    next
      case (Cons a rest)
      show ?thesis
      proof (cases rest)
        case Nil
        then show ?thesis using Cons xor vmy [of a] done_ [OF means_sem, of a] negated [of a]
          by (cases ?odd) (simp_all add: expression_def op_val_and_or)
      next
        case (Cons b rest')
        then show ?thesis using \<open>?my = a # rest\<close> xor new by (simp add: expression_def Let_def arity_def)
      qed
    qed
  next
    case iff
    have "set (normal_args OpIFF args) = set args" using zero by (auto simp: normal_args_set drops_arg_def)
    moreover have "args \<noteq> []" using assms(3) iff by (auto simp: enough_args_def)
    ultimately have "?my \<noteq> []" unfolding iff by (metis set_empty)
    then show ?thesis using iff done_ [OF c(1)] new
      by (auto simp: expression_def Let_def op_val_and_or arity_def no_odd_trues split: list.splits)
  qed
qed

lemma ez_ok_more_literals:
  assumes "ez_ok s" "literals s' = literals s @ ls" "expressions s' = expressions s" "expressionsCache s' = expressionsCache s"
    "\<And>name x. literalsCache s' name = Some x \<Longrightarrow> 0 < x \<and> x \<le> int (length (literals s')) \<and> literals s' ! nat (x - 1) = name"
  shows "ez_ok s'"
proof -
  have "valid_at (length (literals s')) k a" if "valid_at (length (literals s)) k a" for k a
    using valid_at_mono [OF that] assms(2) by simp
  then show ?thesis using assms unfolding ez_ok_def by simp
qed

lemma ez_literal: "ez_ok s \<Longrightarrow> literalsCache s name = Some x \<Longrightarrow> 0 < x \<and> x \<le> int (length (literals s)) \<and> literals s ! nat (x - 1) = name"
  by (simp add: ez_ok_def)

lemma literal_new_ok:
  assumes "ez_ok s"
  shows "gives s literal_new (\<lambda>r s'. means s' r (\<lambda>\<rho>. \<rho> r) \<and> r = int (length (literals s)) + 1 \<and> literals s' = literals s @ [[]] \<and> literalsCache s' = literalsCache s)"
proof -
  let ?s = "s\<lparr>literals := literals s @ [[]]\<rparr>"
  have "ez_ok ?s" using ez_literal [OF assms] by (intro ez_ok_more_literals [OF assms]) (fastforce simp: nth_append nat_less_iff split: if_splits)+
  then show ?thesis
    by (intro givesI [of _ _ _ ?s]) (auto simp: literal_new_def grows_def same_cnf_def means_def valid_def valid_at_def sem_def id_val_def)
qed

lemma literal_named_ok:
  assumes "ez_ok s"
  shows "gives s (literal_named name) (\<lambda>r s'. means s' r (\<lambda>\<rho>. \<rho> r) \<and> literalsCache s' name = Some r)"
proof (cases "literalsCache s name")
  case None
  let ?x = "int (length (literals s)) + 1"
  let ?s = "s\<lparr>literals := literals s @ [name], literalsCache := (literalsCache s)(name \<mapsto> ?x)\<rparr>"
  have "ez_ok ?s" using ez_literal [OF assms] by (intro ez_ok_more_literals [OF assms]) (fastforce simp: nth_append nat_less_iff split: if_splits)+
  then show ?thesis using None
    by (intro givesI [of _ _ ?x ?s]) (auto simp: literal_named_def grows_def map_le_def same_cnf_def means_def valid_def valid_at_def sem_def id_val_def Let_def)
next
  case (Some x)
  then have "0 < x" "x \<le> int (length (literals s))" using assms by (auto simp: ez_ok_def)
  then show ?thesis using assms Some
    by (intro givesI [of _ _ x s]) (auto simp: literal_named_def means_def valid_def valid_at_def sem_def id_val_def)
qed

section \<open>Evaluation under partial values\<close>

text \<open>\<open>r\<close> is a truth value that holds for all assignments in \<open>C\<close>, or unknown, which \<open>K\<close> rules out.\<close>

definition tri :: "(int \<Rightarrow> bool) set \<Rightarrow> bool \<Rightarrow> int \<Rightarrow> ((int \<Rightarrow> bool) \<Rightarrow> bool) \<Rightarrow> bool" where
  "tri C K r f \<longleftrightarrow> r \<in> {0, CONST_TRUE, CONST_FALSE} \<and> (\<forall>\<rho> \<in> C. (r = CONST_TRUE \<longrightarrow> f \<rho>) \<and> (r = CONST_FALSE \<longrightarrow> \<not> f \<rho>)) \<and> (K \<longrightarrow> r \<noteq> 0)"

lemma eval_and_ok:
  assumes "\<And>x. x \<in> set args \<Longrightarrow> \<exists>b. ev x = Inr b \<and> tri C K b (g x)" "a = CONST_TRUE \<or> (a = 0 \<and> \<not> K)"
  shows "\<exists>r. eval_and ev args a = Inr r \<and> tri C K r (\<lambda>\<rho>. (\<forall>x \<in> set args. g x \<rho>)) \<and> (r = CONST_TRUE \<longrightarrow> a = CONST_TRUE)"
  using assms
proof (induction args arbitrary: a)
  case (Cons x args)
  obtain b where b: "ev x = Inr b" "tri C K b (g x)" using Cons.prems(1) [of x] by auto
  let ?a = "if b \<noteq> CONST_TRUE \<and> b \<noteq> CONST_FALSE then 0 else a"
  have "?a = CONST_TRUE \<or> (?a = 0 \<and> \<not> K)" using Cons.prems(2) b(2) by (auto simp: tri_def)
  then obtain r where "eval_and ev args ?a = Inr r" "tri C K r (\<lambda>\<rho>. \<forall>x \<in> set args. g x \<rho>)" "r = CONST_TRUE \<longrightarrow> ?a = CONST_TRUE"
    using Cons.IH [of ?a] Cons.prems(1) by auto
  then show ?case using b by (auto simp: tri_def Let_def)
qed (auto simp: tri_def)

lemma eval_or_ok:
  assumes "\<And>x. x \<in> set args \<Longrightarrow> \<exists>b. ev x = Inr b \<and> tri C K b (g x)" "a = CONST_FALSE \<or> (a = 0 \<and> \<not> K)"
  shows "\<exists>r. eval_or ev args a = Inr r \<and> tri C K r (\<lambda>\<rho>. (\<exists>x \<in> set args. g x \<rho>)) \<and> (r = CONST_FALSE \<longrightarrow> a = CONST_FALSE)"
  using assms
proof (induction args arbitrary: a)
  case (Cons x args)
  obtain b where b: "ev x = Inr b" "tri C K b (g x)" using Cons.prems(1) [of x] by auto
  let ?a = "if b \<noteq> CONST_TRUE \<and> b \<noteq> CONST_FALSE then 0 else a"
  have "?a = CONST_FALSE \<or> (?a = 0 \<and> \<not> K)" using Cons.prems(2) b(2) by (auto simp: tri_def)
  then obtain r where "eval_or ev args ?a = Inr r" "tri C K r (\<lambda>\<rho>. \<exists>x \<in> set args. g x \<rho>)" "r = CONST_FALSE \<longrightarrow> ?a = CONST_FALSE"
    using Cons.IH [of ?a] Cons.prems(1) by auto
  then show ?case using b by (auto simp: tri_def Let_def)
qed (auto simp: tri_def)

lemma eval_xor_ok:
  assumes "\<And>x. x \<in> set args \<Longrightarrow> \<exists>b. ev x = Inr b \<and> tri C K b (g x)" "a = ez_value p"
  shows "\<exists>r. eval_xor ev args a = Inr r \<and> tri C K r (\<lambda>\<rho>. p \<noteq> odd (length (filter (\<lambda>v. v) (map (\<lambda>x. g x \<rho>) args))))"
  using assms
proof (induction args arbitrary: a p)
  case (Cons x args)
  obtain b where b: "ev x = Inr b" "tri C K b (g x)" using Cons.prems(1) [of x] by auto
  have "\<exists>r. eval_xor ev args (ez_value q) = Inr r \<and> tri C K r (\<lambda>\<rho>. q \<noteq> odd (length (filter (\<lambda>v. v) (map (\<lambda>x. g x \<rho>) args))))" for q
    using Cons.IH [of "ez_value q" q] Cons.prems(1) by auto
  note rest = this
  obtain r where r: "eval_xor ev args (ez_value p) = Inr r" "tri C K r (\<lambda>\<rho>. p \<noteq> odd (length (filter (\<lambda>v. v) (map (\<lambda>x. g x \<rho>) args))))"
    using rest by blast
  obtain q where q: "eval_xor ev args (ez_value (\<not> p)) = Inr q" "tri C K q (\<lambda>\<rho>. (\<not> p) \<noteq> odd (length (filter (\<lambda>v. v) (map (\<lambda>x. g x \<rho>) args))))"
    using rest by blast
  have flip: "(if a = CONST_TRUE then CONST_FALSE else CONST_TRUE) = ez_value (\<not> p)" using Cons.prems(2) by (simp add: ez_value_def)
  consider "b = CONST_TRUE" | "b = CONST_FALSE" | "b = 0" using b(2) by (auto simp: tri_def)
  then show ?case
  proof cases
    case 1
    then show ?thesis using b q flip by (auto simp: tri_def)
  next
    case 2
    then show ?thesis using b r Cons.prems(2) by (auto simp: tri_def)
  next
    case 3
    then show ?thesis using b by (auto simp: tri_def)
  qed
qed (auto simp: tri_def ez_value_def)

lemma eval_iff_ok:
  assumes "\<And>x. x \<in> set args \<Longrightarrow> \<exists>b. ev x = Inr b \<and> tri C K b (g x)" "tri C K a h" "a \<noteq> 0"
  shows "\<exists>r. eval_iff ev args a = Inr r \<and> tri C K r (\<lambda>\<rho>. \<forall>x \<in> set args. g x \<rho> = h \<rho>)"
  using assms(1)
proof (induction args)
  case (Cons x args)
  obtain b where b: "ev x = Inr b" "tri C K b (g x)" using Cons.prems(1) [of x] by auto
  obtain r where r: "eval_iff ev args a = Inr r" "tri C K r (\<lambda>\<rho>. \<forall>x \<in> set args. g x \<rho> = h \<rho>)"
    using Cons.IH Cons.prems by auto
  have same: "g x \<rho> = h \<rho> \<longleftrightarrow> b = a" if "\<rho> \<in> C" "b \<noteq> 0" for \<rho>
    using that b(2) assms(2,3) by (auto simp: tri_def)
  consider "b = 0" | "b \<noteq> 0" "b = a" | "b \<noteq> 0" "b \<noteq> a" by blast
  then show ?case
  proof cases
    case 1
    then show ?thesis using b by (simp add: tri_def)
  next
    case 2
    then show ?thesis using b r same by (auto simp: tri_def)
  next
    case 3
    then have "b = CONST_TRUE \<or> b = CONST_FALSE" using b(2) by (auto simp: tri_def)
    then show ?thesis using 3 b(1) same by (auto simp: tri_def)
  qed
qed (simp add: tri_def)

definition completes :: "int list \<Rightarrow> (int \<Rightarrow> bool) \<Rightarrow> bool" where
  "completes vls \<rho> \<longleftrightarrow> (\<forall>i < length vls. (vls ! i = CONST_TRUE \<longrightarrow> \<rho> (int i + 1)) \<and> (vls ! i = CONST_FALSE \<longrightarrow> \<not> \<rho> (int i + 1)))"

definition all_known :: "ezSAT \<Rightarrow> int list \<Rightarrow> bool" where
  "all_known s vls \<longleftrightarrow> length (literals s) \<le> length vls \<and> set vls \<subseteq> {CONST_TRUE, CONST_FALSE}"

lemma eval_literal:
  assumes "0 < x" "x \<le> int (length (literals s))"
  shows "tri {\<rho>. completes vls \<rho>} (all_known s vls) (if x \<le> int (length vls) \<and> vls ! nat (x - 1) \<in> {CONST_TRUE, CONST_FALSE, 0}
    then vls ! nat (x - 1) else 0) (\<lambda>\<rho>. \<rho> x)"
proof -
  obtain i where i: "x = int i + 1" using assms(1) by (intro that [of "nat (x - 1)"]) simp
  have "i < length vls \<and> vls ! i \<in> {CONST_TRUE, CONST_FALSE}" if "all_known s vls"
  proof -
    have "i < length vls" using assms(2) i that by (simp add: all_known_def)
    then show ?thesis using nth_mem [of i vls] that unfolding all_known_def by blast
  qed
  then show ?thesis using i by (auto simp: tri_def completes_def)
qed

lemma ez_eval_fuel_ok:
  assumes "ez_ok s" "valid_at (length (literals s)) k x" "k \<le> length (expressions s)" "k < n"
  shows "\<exists>r. ez_eval_fuel n s vls x = Inr r \<and> tri {\<rho>. completes vls \<rho>} (all_known s vls) r (\<lambda>\<rho>. sem s \<rho> x)"
  using assms(2-)
proof (induction n arbitrary: k x)
  case (Suc n)
  let ?C = "{\<rho>. completes vls \<rho>}" and ?K = "all_known s vls"
  show ?case
  proof (cases "0 < x")
    case True
    then show ?thesis using eval_literal [of x s vls] Suc.prems(1) by (auto simp: valid_at_def sem_def id_val_def)
  next
    case False
    then obtain j where j: "x = - (int j + 1)" "j < k" using Suc.prems(1) by (intro that [of "nat (- x - 1)"]) (auto simp: valid_at_def)
    obtain op args where e: "expressions s ! j = (op, args)" by fastforce
    have len: "j < length (expressions s)" using j Suc.prems by simp
    have ar: "arity op (length args)" and "\<forall>a \<in> set args. valid_at (length (literals s)) j a"
      using ez_args [OF assms(1)] len e by auto
    then have ev: "\<exists>b. ez_eval_fuel n s vls a = Inr b \<and> tri ?C ?K b (\<lambda>\<rho>. sem s \<rho> a)" if "a \<in> set args" for a
      using Suc.IH [of j a] that j Suc.prems by auto
    have look: "lookup_expression x s = Inr (op, args)" using j len e by (simp add: lookup_expression_def)
    have sem: "sem s \<rho> x = op_val op (map (sem s \<rho>) args)" for \<rho> using sem_expr [OF assms(1) len] j e by simp
    have h: "hd args \<in> set args" if "args \<noteq> []" using that by simp
    show ?thesis
    proof (cases op)
      case OpNot
      then obtain a where "args = [a]" using ar by (auto simp: arity_def length_Suc_conv)
      then show ?thesis using ev [of a] False look OpNot sem by (auto simp: tri_def op_val_and_or)
    next
      case OpAnd
      then show ?thesis using eval_and_ok [OF ev, of args] False look sem by (fastforce simp: op_val_and_or)
    next
      case OpOr
      then show ?thesis using eval_or_ok [OF ev, of args] False look sem by (fastforce simp: op_val_and_or)
    next
      case OpXor
      then show ?thesis using eval_xor_ok [of args "ez_eval_fuel n s vls" ?C ?K "\<lambda>a \<rho>. sem s \<rho> a" CONST_FALSE False, OF ev] False look sem by (auto simp: op_val_and_or ez_value_def)
    next
      case OpIFF
      then have ne: "args \<noteq> []" using ar by (auto simp: arity_def)
      obtain a where a: "ez_eval_fuel n s vls (hd args) = Inr a" "tri ?C ?K a (\<lambda>\<rho>. sem s \<rho> (hd args))" using ev [OF h [OF ne]] by blast
      have "\<exists>r. eval_iff (ez_eval_fuel n s vls) args a = Inr r \<and> tri ?C ?K r (\<lambda>\<rho>. \<forall>x \<in> set args. sem s \<rho> x = sem s \<rho> (hd args))"
      proof (cases "a = 0")
        case True
        then have "eval_iff (ez_eval_fuel n s vls) args a = Inr 0" using a(1) ne by (cases args) auto
        then show ?thesis using a(2) True by (simp add: tri_def)
      next
        case False
        then show ?thesis using eval_iff_ok [of args "ez_eval_fuel n s vls" ?C ?K "\<lambda>a \<rho>. sem s \<rho> a", OF ev a(2)] by blast
      qed
      then obtain r where r: "eval_iff (ez_eval_fuel n s vls) args a = Inr r" "tri ?C ?K r (\<lambda>\<rho>. \<forall>x \<in> set args. sem s \<rho> x = sem s \<rho> (hd args))"
        by blast
      have "(\<forall>x \<in> set args. sem s \<rho> x = sem s \<rho> (hd args)) = op_val OpIFF (map (sem s \<rho>) args)" for \<rho>
        using h [OF ne] by (auto simp: op_val_and_or)
      then show ?thesis using OpIFF False look a(1) r ne sem by simp
    next
      case OpITE
      then obtain a b c where abc: "args = [a, b, c]" using ar by (auto simp: arity_def eval_nat_numeral length_Suc_conv)
      then show ?thesis using ev [of a] ev [of b] ev [of c] False look OpITE sem by (auto simp: tri_def op_val_and_or)
    qed
  qed
qed simp

lemma intern_cached: "intern e s = Inr (x, s') \<Longrightarrow> expressionsCache s' e = Some x"
  by (auto simp: intern_def Let_def split: option.splits)

lemma intern_again: "expressionsCache s e = Some x \<Longrightarrow> intern e s = Inr (x, s)"
  by (simp add: intern_def)

lemma intern_keeps: "intern e s = Inr (x, s') \<Longrightarrow> expressionsCache s f = Some y \<Longrightarrow> expressionsCache s' f = Some y"
  by (auto simp: intern_def Let_def split: option.splits)

lemma ez_not_again: "ez_not a s = Inr (x, s') \<Longrightarrow> ez_not a s' = Inr (x, s')"
  unfolding ez_not_def expression_not_def check_def fails_def ret_def
  by (auto dest: intern_cached simp: intern_again split: if_splits)

lemma ez_not_keeps: "ez_not a s = Inr (x, s') \<Longrightarrow> expressionsCache s f = Some y \<Longrightarrow> expressionsCache s' f = Some y"
  unfolding ez_not_def expression_not_def check_def fails_def ret_def by (auto dest: intern_keeps split: if_splits)

lemma new_expression_again:
  assumes "andthen (intern e) (\<lambda>i. if b then ez_not i else ret i) s = Inr (x, s')"
  shows "andthen (intern e) (\<lambda>i. if b then ez_not i else ret i) s' = Inr (x, s')"
proof -
  obtain i s1 where i: "intern e s = Inr (i, s1)" "(if b then ez_not i else ret i) s1 = Inr (x, s')"
    using assms by (cases "intern e s") (auto simp: andthen_def)
  have "expressionsCache s' e = Some i" using i ez_not_keeps intern_cached [OF i(1)] by (auto simp: ret_def split: if_splits)
  then show ?thesis using i(2) ez_not_again by (auto simp: andthen_def intern_again ret_def split: if_splits)
qed

text \<open>Asking for an expression that was just made returns it.\<close>

lemma expression_again: "expression op args s = Inr (x, s') \<Longrightarrow> expression op args s' = Inr (x, s')"
proof -
  assume "expression op args s = Inr (x, s')"
  then show ?thesis unfolding expression_def Let_def ez_not_def [symmetric]
    using new_expression_again [of "(op, normal_args op args)" "xorRemovedOddTrues op args" s x s']
    by (auto simp: check_def fails_def ret_def expression_not_def intern_again dest: intern_cached ez_not_again split: OpId.splits list.splits if_splits)
qed

end
