(* ===== verification/EzSAT_Cnf.thy ===== *)
theory EzSAT_Cnf
  imports EzSAT
begin

text \<open>
  The clauses of \<open>ezSAT\<close>: \<open>bind\<close> gives the parts of a formula variables and the clauses that fix them,
  \<open>assume\<close> makes a formula true, \<open>consumeCnf\<close> hands the clauses to a solver. The clauses handed out and
  those still kept say what was assumed: \<open>cnf_ok\<close> is an invariant of all operations. \<open>bind\<close> is written
  with fuel, which is the depth of the formula after parities, equivalences and choices are expanded.
\<close>

section \<open>Clauses\<close>

definition ez_clear :: "ezSAT \<Rightarrow> ezSAT" where
  "ez_clear s = s\<lparr>cnfConsumed := False, cnfVariableCount := 0, cnfClausesCount := 0, cnfLiteralVariables := [],
     cnfExpressionVariables := [], cnfClauses := []\<rparr>"

definition add_clause :: "int list \<Rightarrow> unit ez" where
  "add_clause args = change (\<lambda>s. s\<lparr>cnfClauses := cnfClauses s @ [args], cnfClausesCount := cnfClausesCount s + 1\<rparr>)"

definition add_clause_polarity :: "int list \<Rightarrow> bool \<Rightarrow> int list \<Rightarrow> unit ez" where
  "add_clause_polarity args argsPolarity abc =
     add_clause (map (\<lambda>arg. if argsPolarity then arg else - arg) args @ filter (\<lambda>a. a \<noteq> 0) abc)"

definition add_clause_lits :: "int list \<Rightarrow> unit ez" where
  "add_clause_lits abc = add_clause (filter (\<lambda>a. a \<noteq> 0) abc)"

definition new_variable :: "int ez" where
  "new_variable s = (let idx = cnfVariableCount s + 1 in Inr (idx, s\<lparr>cnfVariableCount := idx\<rparr>))"

definition bind_cnf_not :: "int list \<Rightarrow> int ez" where
  "bind_cnf_not args = check (length args = 1) (ret (- hd args))"

definition bind_cnf_and :: "int list \<Rightarrow> int ez" where
  "bind_cnf_and args = check (2 \<le> length args) (andthen new_variable (\<lambda>idx.
     andthen (add_clause_polarity args False [idx]) (\<lambda>_.
     andthen (each (\<lambda>arg. add_clause_lits [- idx, arg]) args) (\<lambda>_. ret idx))))"

definition bind_cnf_or :: "int list \<Rightarrow> int ez" where
  "bind_cnf_or args = check (2 \<le> length args) (andthen new_variable (\<lambda>idx.
     andthen (add_clause_polarity args True [- idx]) (\<lambda>_.
     andthen (each (\<lambda>arg. add_clause_lits [idx, - arg]) args) (\<lambda>_. ret idx))))"

definition ez_bound :: "ezSAT \<Rightarrow> int \<Rightarrow> int" where
  "ez_bound s x =
     (if x > 0 \<and> x \<le> int (length (cnfLiteralVariables s)) then cnfLiteralVariables s ! nat (x - 1)
      else if - x > 0 \<and> - x \<le> int (length (cnfExpressionVariables s)) then cnfExpressionVariables s ! nat (- x - 1)
      else 0)"

definition resize :: "nat \<Rightarrow> int list \<Rightarrow> int list" where
  "resize n xs = take n xs @ replicate (n - length xs) 0"

definition bind_literal :: "int \<Rightarrow> int ez" where
  "bind_literal x s =
     (if \<not> (0 < x \<and> x \<le> int (length (literals s))) then Inl AssertFail
      else let i = nat (x - 1); s = s\<lparr>cnfLiteralVariables := resize (length (literals s)) (cnfLiteralVariables s)\<rparr>
           in if cnfLiteralVariables s ! i \<noteq> 0 then Inr (cnfLiteralVariables s ! i, s)
              else andthen new_variable (\<lambda>idx.
                andthen (change (\<lambda>s. s\<lparr>cnfLiteralVariables := (cnfLiteralVariables s)[i := idx]\<rparr>)) (\<lambda>_.
                andthen (if x = CONST_TRUE then add_clause_lits [idx] else ret ()) (\<lambda>_.
                andthen (if x = CONST_FALSE then add_clause_lits [- idx] else ret ()) (\<lambda>_. ret idx)))) s)"

text \<open>One pass of the loop that splits a parity, and the loop, which halves the arguments.\<close>

definition xor_pair :: "int \<Rightarrow> int \<Rightarrow> int ez" where
  "xor_pair a b = andthen (ez_not b) (\<lambda>nb. andthen (ez_and [a, nb]) (\<lambda>sub1.
     andthen (ez_not a) (\<lambda>na. andthen (ez_and [na, b]) (\<lambda>sub2. ez_or [sub1, sub2]))))"

fun xor_pairs :: "int list \<Rightarrow> int list ez" where
  "xor_pairs [] = ret []"
| "xor_pairs [a] = ret [a]"
| "xor_pairs (a # b # args) = andthen (xor_pair a b) (\<lambda>c. andthen (xor_pairs args) (\<lambda>rest. ret (c # rest)))"

fun xor_split :: "nat \<Rightarrow> int list \<Rightarrow> int list ez" where
  "xor_split 0 args = fails NonTermination"
| "xor_split (Suc n) args = (if 1 < length args then andthen (xor_pairs args) (xor_split n) else ret args)"

definition expand_expression :: "OpId \<times> int list \<Rightarrow> int ez" where
  "expand_expression e = (case e of
     (OpXor, args) \<Rightarrow> andthen (xor_split (Suc (length args)) args) (\<lambda>args. if args = [] then fails OutOfRange else ret (hd args))
   | (OpIFF, args) \<Rightarrow> andthen (each ez_not args) (\<lambda>invArgs. andthen (expression OpAnd args) (\<lambda>sub1.
       andthen (expression OpAnd invArgs) (\<lambda>sub2. ez_or [sub1, sub2])))
   | (_, args) \<Rightarrow> andthen (ez_and [args ! 0, args ! 1]) (\<lambda>sub1. andthen (ez_not (args ! 0)) (\<lambda>na.
       andthen (ez_and [na, args ! 2]) (\<lambda>sub2. ez_or [sub1, sub2]))))"

definition bind_cnf :: "OpId \<Rightarrow> int list \<Rightarrow> int ez" where
  "bind_cnf op args = (case op of OpNot \<Rightarrow> bind_cnf_not args | OpAnd \<Rightarrow> bind_cnf_and args | OpOr \<Rightarrow> bind_cnf_or args
     | _ \<Rightarrow> fails Abort)"

fun ez_bind_fuel :: "nat \<Rightarrow> int \<Rightarrow> int ez" where
  "ez_bind_fuel 0 x = fails NonTermination"
| "ez_bind_fuel (Suc n) x = (\<lambda>s.
     if x \<ge> 0 then bind_literal x s
     else rbind (lookup_expression x s) (\<lambda>(op, args).
       let i = nat (- x - 1); s = s\<lparr>cnfExpressionVariables := resize (length (expressions s)) (cnfExpressionVariables s)\<rparr>
       in if cnfExpressionVariables s ! i \<noteq> 0 then Inr (cnfExpressionVariables s ! i, s)
          else andthen (if op \<in> {OpXor, OpIFF, OpITE} then andthen (expand_expression (op, args)) (ez_bind_fuel n)
                        else andthen (each (ez_bind_fuel n) args) (bind_cnf op)) (\<lambda>idx.
               check (idx \<noteq> 0) (andthen (change (\<lambda>s. s\<lparr>cnfExpressionVariables := (cnfExpressionVariables s)[i := idx]\<rparr>)) (\<lambda>_.
               ret idx))) s))"

text \<open>How deep the calls of \<open>bind\<close> nest: parities, equivalences and choices are replaced by formulas of more levels.\<close>

definition op_depth :: "OpId \<times> int list \<Rightarrow> nat" where
  "op_depth e = (case e of (OpXor, args) \<Rightarrow> 4 * length args | (OpIFF, _) \<Rightarrow> 5 | (OpITE, _) \<Rightarrow> 5 | _ \<Rightarrow> 1)"

definition depth_of :: "nat list \<Rightarrow> int \<Rightarrow> nat" where
  "depth_of ds x = (if x < 0 \<and> nat (- x - 1) < length ds then ds ! nat (- x - 1) else 1)"

definition depths :: "(OpId \<times> int list) list \<Rightarrow> nat list" where
  "depths es = foldl (\<lambda>ds e. ds @ [op_depth e + foldr max (map (depth_of ds) (snd e)) 0]) [] es"

definition ez_bind :: "int \<Rightarrow> int ez" where
  "ez_bind x s = ez_bind_fuel (depth_of (depths (expressions s)) x) x s"

definition ez_assume :: "int \<Rightarrow> unit ez" where
  "ez_assume x s =
     (let unit_clause = (\<lambda>i. andthen (ez_bind i) (\<lambda>idx. add_clause [idx]))
      in if x < 0
         then rbind (lookup_expression x s) (\<lambda>(op, args).
           let s = s\<lparr>cnfExpressionVariables := resize (length (expressions s)) (cnfExpressionVariables s)\<rparr>
           in if cnfExpressionVariables s ! nat (- x - 1) \<noteq> 0 then unit_clause x s
              else case op of
                OpNot \<Rightarrow> andthen (ez_bind (hd args)) (\<lambda>idx. add_clause [- idx]) s
              | OpOr \<Rightarrow> andthen (each ez_bind args) add_clause s
              | OpAnd \<Rightarrow> andthen (each unit_clause args) (\<lambda>_. ret ()) s
              | _ \<Rightarrow> unit_clause x s)
         else unit_clause x s)"

definition ez_set :: "int \<Rightarrow> int \<Rightarrow> unit ez" where
  "ez_set a b = andthen (ez_iff [a, b]) ez_assume"

definition consumeCnf :: "int list list ez" where
  "consumeCnf s = Inr (cnfClauses s,
     (if flag_keep_cnf s then s\<lparr>cnfClausesBackup := cnfClausesBackup s @ cnfClauses s\<rparr> else s\<lparr>cnfConsumed := True\<rparr>)\<lparr>cnfClauses := []\<rparr>)"

definition getFullCnf :: "ezSAT \<Rightarrow> int list list" where
  "getFullCnf s = cnfClausesBackup s @ cnfClauses s"

definition preSolverCallback :: "unit ez" where
  "preSolverCallback s =
     (if non_incremental_solve_used_up s then Inl AssertFail
      else Inr ((), if flag_non_incremental s then s\<lparr>non_incremental_solve_used_up := True\<rparr> else s))"
section \<open>What the clauses say\<close>

definition lit_val :: "(int \<Rightarrow> bool) \<Rightarrow> int \<Rightarrow> bool" where
  "lit_val \<beta> l = (if l > 0 then \<beta> l else \<not> \<beta> (- l))"

definition models :: "(int \<Rightarrow> bool) \<Rightarrow> int list list \<Rightarrow> bool" where
  "models \<beta> cs \<longleftrightarrow> (\<forall>c \<in> set cs. \<exists>l \<in> set c. lit_val \<beta> l)"

text \<open>The variables of the literals have the values of the literals.\<close>

definition agrees :: "ezSAT \<Rightarrow> (int \<Rightarrow> bool) \<Rightarrow> (int \<Rightarrow> bool) \<Rightarrow> bool" where
  "agrees s \<beta> \<rho> \<longleftrightarrow> (\<forall>i < length (cnfLiteralVariables s). cnfLiteralVariables s ! i \<noteq> 0 \<longrightarrow> \<beta> (cnfLiteralVariables s ! i) = \<rho> (int i + 1))"

definition is_lit :: "ezSAT \<Rightarrow> int \<Rightarrow> bool" where
  "is_lit s l \<longleftrightarrow> l \<noteq> 0 \<and> \<bar>l\<bar> \<le> cnfVariableCount s"

text \<open>A variable or its negation that has the value of a formula in every model; \<open>C\<close> are clauses handed out before.\<close>

definition lit_means :: "int list list \<Rightarrow> ezSAT \<Rightarrow> int \<Rightarrow> int \<Rightarrow> bool" where
  "lit_means C s r x \<longleftrightarrow> is_lit s r \<and> (\<forall>\<beta> \<rho>. models \<beta> (C @ cnfClauses s) \<longrightarrow> agrees s \<beta> \<rho> \<longrightarrow> consts_ok \<rho> \<longrightarrow> lit_val \<beta> r = sem s \<rho> x)"

definition vars_ok :: "ezSAT \<Rightarrow> bool" where
  "vars_ok s \<longleftrightarrow> 0 \<le> cnfVariableCount s \<and> length (cnfLiteralVariables s) \<le> length (literals s) \<and>
     length (cnfExpressionVariables s) \<le> length (expressions s) \<and>
     (\<forall>v \<in> set (cnfLiteralVariables s). 0 \<le> v \<and> v \<le> cnfVariableCount s) \<and>
     (\<forall>i < length (cnfLiteralVariables s). \<forall>j < length (cnfLiteralVariables s).
        cnfLiteralVariables s ! i \<noteq> 0 \<longrightarrow> cnfLiteralVariables s ! i = cnfLiteralVariables s ! j \<longrightarrow> i = j)"

text \<open>The clauses give the variables of the constants their values.\<close>

definition consts_forced :: "int list list \<Rightarrow> ezSAT \<Rightarrow> bool" where
  "consts_forced C s \<longleftrightarrow> (\<forall>\<beta>. models \<beta> (C @ cnfClauses s) \<longrightarrow>
     (ez_bound s CONST_TRUE \<noteq> 0 \<longrightarrow> \<beta> (ez_bound s CONST_TRUE)) \<and> (ez_bound s CONST_FALSE \<noteq> 0 \<longrightarrow> \<not> \<beta> (ez_bound s CONST_FALSE)))"

text \<open>
  The clauses \<open>C\<close> handed out and those of the state are satisfied exactly by the assignments that make
  the assumed formulas \<open>A\<close> true, and the variables of literals and expressions have their values.
\<close>

definition cnf_ok :: "int list list \<Rightarrow> int set \<Rightarrow> ezSAT \<Rightarrow> bool" where
  "cnf_ok C A s \<longleftrightarrow> vars_ok s \<and> (\<forall>a \<in> A. valid s a) \<and> (\<forall>c \<in> set (C @ cnfClauses s). \<forall>l \<in> set c. is_lit s l) \<and>
     (\<forall>i < length (cnfExpressionVariables s). cnfExpressionVariables s ! i \<noteq> 0 \<longrightarrow> lit_means C s (cnfExpressionVariables s ! i) (- (int i + 1))) \<and>
     (\<forall>\<beta> \<rho>. models \<beta> (C @ cnfClauses s) \<longrightarrow> agrees s \<beta> \<rho> \<longrightarrow> consts_ok \<rho> \<longrightarrow> (\<forall>a \<in> A. sem s \<rho> a)) \<and>
     (\<forall>\<rho>. consts_ok \<rho> \<longrightarrow> (\<forall>a \<in> A. sem s \<rho> a) \<longrightarrow> (\<exists>\<beta>. models \<beta> (C @ cnfClauses s) \<and> agrees s \<beta> \<rho>)) \<and>
     consts_forced C s"

lemma cnf_okI:
  assumes "vars_ok s" "\<forall>a \<in> A. valid s a" "\<And>c l. c \<in> set (C @ cnfClauses s) \<Longrightarrow> l \<in> set c \<Longrightarrow> is_lit s l"
    "\<And>i. i < length (cnfExpressionVariables s) \<Longrightarrow> cnfExpressionVariables s ! i \<noteq> 0 \<Longrightarrow> lit_means C s (cnfExpressionVariables s ! i) (- (int i + 1))"
    "\<And>\<beta> \<rho>. models \<beta> (C @ cnfClauses s) \<Longrightarrow> agrees s \<beta> \<rho> \<Longrightarrow> consts_ok \<rho> \<Longrightarrow> \<forall>a \<in> A. sem s \<rho> a"
    "\<And>\<rho>. consts_ok \<rho> \<Longrightarrow> \<forall>a \<in> A. sem s \<rho> a \<Longrightarrow> \<exists>\<beta>. models \<beta> (C @ cnfClauses s) \<and> agrees s \<beta> \<rho>" "consts_forced C s"
  shows "cnf_ok C A s"
  unfolding cnf_ok_def using assms by blast

lemma cnf_okD:
  assumes "cnf_ok C A s"
  shows "vars_ok s" "\<forall>a \<in> A. valid s a" "\<And>c l. c \<in> set (C @ cnfClauses s) \<Longrightarrow> l \<in> set c \<Longrightarrow> is_lit s l"
    "\<And>i. i < length (cnfExpressionVariables s) \<Longrightarrow> cnfExpressionVariables s ! i \<noteq> 0 \<Longrightarrow> lit_means C s (cnfExpressionVariables s ! i) (- (int i + 1))"
    "\<And>\<beta> \<rho>. models \<beta> (C @ cnfClauses s) \<Longrightarrow> agrees s \<beta> \<rho> \<Longrightarrow> consts_ok \<rho> \<Longrightarrow> \<forall>a \<in> A. sem s \<rho> a"
    "\<And>\<rho>. consts_ok \<rho> \<Longrightarrow> \<forall>a \<in> A. sem s \<rho> a \<Longrightarrow> \<exists>\<beta>. models \<beta> (C @ cnfClauses s) \<and> agrees s \<beta> \<rho>" "consts_forced C s"
  using assms unfolding cnf_ok_def by blast+

definition cnf_grows :: "ezSAT \<Rightarrow> ezSAT \<Rightarrow> bool" where
  "cnf_grows s s' \<longleftrightarrow> grows s s' \<and> (\<exists>cs. cnfClauses s' = cnfClauses s @ cs) \<and> cnfVariableCount s \<le> cnfVariableCount s' \<and>
     (\<forall>i < length (cnfLiteralVariables s). cnfLiteralVariables s ! i \<noteq> 0 \<longrightarrow>
        i < length (cnfLiteralVariables s') \<and> cnfLiteralVariables s' ! i = cnfLiteralVariables s ! i) \<and>
     cnfClausesBackup s' = cnfClausesBackup s \<and> cnfConsumed s' = cnfConsumed s \<and> flag_keep_cnf s' = flag_keep_cnf s"

definition binds :: "int list list \<Rightarrow> int set \<Rightarrow> ezSAT \<Rightarrow> 'a ez \<Rightarrow> ('a \<Rightarrow> ezSAT \<Rightarrow> bool) \<Rightarrow> bool" where
  "binds C A s m Q \<longleftrightarrow> (\<exists>r s'. m s = Inr (r, s') \<and> ez_ok s' \<and> cnf_ok C A s' \<and> cnf_grows s s' \<and> Q r s')"

lemma models_append [simp]: "models \<beta> (cs @ ds) \<longleftrightarrow> models \<beta> cs \<and> models \<beta> ds"
  by (auto simp: models_def)

lemma models_Cons [simp]: "models \<beta> (c # cs) \<longleftrightarrow> (\<exists>l \<in> set c. lit_val \<beta> l) \<and> models \<beta> cs" "models \<beta> []"
  by (auto simp: models_def)

lemma cnf_grows_refl [simp]: "cnf_grows s s"
  by (simp add: cnf_grows_def)

lemma cnf_grows_trans: "cnf_grows s t \<Longrightarrow> cnf_grows t u \<Longrightarrow> cnf_grows s u"
  unfolding cnf_grows_def using grows_trans by auto

lemma agrees_grows: "cnf_grows s s' \<Longrightarrow> agrees s' \<beta> \<rho> \<Longrightarrow> agrees s \<beta> \<rho>"
  by (fastforce simp: cnf_grows_def agrees_def)

lemma is_lit_grows: "cnf_grows s s' \<Longrightarrow> is_lit s l \<Longrightarrow> is_lit s' l"
  by (auto simp: cnf_grows_def is_lit_def)

lemma lit_means_grows:
  assumes "lit_means C s r x" "cnf_grows s s'" "valid s x"
  shows "lit_means C s' r x"
proof -
  have "grows s s'" using assms(2) by (simp add: cnf_grows_def)
  then have "sem s' \<rho> x = sem s \<rho> x" for \<rho> using sem_grows [OF assms(3)] by blast
  moreover obtain cs where "cnfClauses s' = cnfClauses s @ cs" using assms(2) by (auto simp: cnf_grows_def)
  ultimately show ?thesis using assms(1) is_lit_grows [OF assms(2)] agrees_grows [OF assms(2)] unfolding lit_means_def by auto
qed

lemma bindsI: "m s = Inr (r, s') \<Longrightarrow> ez_ok s' \<Longrightarrow> cnf_ok C A s' \<Longrightarrow> cnf_grows s s' \<Longrightarrow> Q r s' \<Longrightarrow> binds C A s m Q"
  unfolding binds_def by blast

lemma binds_ret [intro]: "ez_ok s \<Longrightarrow> cnf_ok C A s \<Longrightarrow> Q x s \<Longrightarrow> binds C A s (ret x) Q"
  by (simp add: binds_def ret_def)

lemma binds_andthen:
  assumes "binds C A s m P" "\<And>r s'. P r s' \<Longrightarrow> ez_ok s' \<Longrightarrow> cnf_ok C A s' \<Longrightarrow> cnf_grows s s' \<Longrightarrow> binds C A s' (f r) Q"
  shows "binds C A s (andthen m f) Q"
proof -
  obtain r s1 where 1: "m s = Inr (r, s1)" "ez_ok s1" "cnf_ok C A s1" "cnf_grows s s1" "P r s1" using assms(1) by (auto simp: binds_def)
  obtain q s2 where 2: "f r s1 = Inr (q, s2)" "ez_ok s2" "cnf_ok C A s2" "cnf_grows s1 s2" "Q q s2"
    using assms(2) [OF 1(5,2,3,4)] by (auto simp: binds_def)
  show ?thesis using 1 2 by (intro bindsI [of _ _ q s2]) (auto simp: andthen_def intro: cnf_grows_trans)
qed

lemma binds_mono: "binds C A s m P \<Longrightarrow> (\<And>r s'. P r s' \<Longrightarrow> ez_ok s' \<Longrightarrow> cnf_ok C A s' \<Longrightarrow> cnf_grows s s' \<Longrightarrow> Q r s') \<Longrightarrow> binds C A s m Q"
  unfolding binds_def by blast

text \<open>Changing what is not looked at: more literals and expressions, longer vectors of variables.\<close>

lemma cnf_ok_view:
  assumes "cnf_ok C A s" "grows s s'" "cnfVariableCount s' = cnfVariableCount s" "cnfClauses s' = cnfClauses s"
    "length (cnfLiteralVariables s') \<le> length (literals s')" "length (cnfExpressionVariables s') \<le> length (expressions s')"
    "cnfLiteralVariables s' = cnfLiteralVariables s @ replicate k 0" "cnfExpressionVariables s' = cnfExpressionVariables s @ replicate m 0"
  shows "cnf_ok C A s'"
proof -
  have agr: "agrees s' \<beta> \<rho> = agrees s \<beta> \<rho>" for \<beta> \<rho> unfolding agrees_def assms(7) by (auto simp: nth_append)
  have lit: "is_lit s' l = is_lit s l" for l by (simp add: is_lit_def assms(3))
  have sem: "sem s' \<rho> a = sem s \<rho> a" if "valid s a" for \<rho> a using sem_grows [OF that assms(2)] .
  note ok = cnf_okD [OF assms(1)]
  have semA: "(\<forall>a \<in> A. sem s' \<rho> a) = (\<forall>a \<in> A. sem s \<rho> a)" for \<rho> using ok(2) sem by blast
  have lm: "lit_means C s' r x = lit_means C s r x" if "valid s x" for r x
    unfolding lit_means_def agr lit assms(4) sem [OF that] ..
  have bound: "ez_bound s' x = ez_bound s x" if "x \<in> {CONST_TRUE, CONST_FALSE}" for x
    using that unfolding ez_bound_def assms(7,8) by (auto simp: nth_append Suc_le_eq)
  show ?thesis
  proof (rule cnf_okI, unfold lit agr semA assms(4))
    show "vars_ok s'" using ok(1) assms(3,5,6) unfolding vars_ok_def assms(7) by (auto simp: nth_append split: if_splits)
    show "\<forall>a \<in> A. valid s' a" using ok(2) valid_grows [OF _ assms(2)] by blast
    show "lit_means C s' (cnfExpressionVariables s' ! i) (- (int i + 1))"
      if "i < length (cnfExpressionVariables s')" "cnfExpressionVariables s' ! i \<noteq> 0" for i
    proof -
      have i: "i < length (cnfExpressionVariables s)" using that unfolding assms(8) by (auto simp: nth_append split: if_splits)
      have "valid s (- (int i + 1))" using i ok(1) by (simp add: vars_ok_def valid_def valid_at_def)
      then show ?thesis using ok(4) [OF i] that(2) lm i unfolding assms(8) by (simp add: nth_append)
    qed
    show "consts_forced C s'" using ok(7) bound [of CONST_TRUE] bound [of CONST_FALSE] unfolding consts_forced_def assms(4) by simp
  qed (fact ok)+
qed

lemma gives_binds:
  assumes "gives s m Q" "cnf_ok C A s"
  shows "binds C A s m Q"
proof -
  obtain r s' where m: "m s = Inr (r, s')" "ez_ok s'" "grows s s'" "same_cnf s s'" "Q r s'" using assms(1) by (auto simp: gives_def)
  have "vars_ok s" by (rule cnf_okD [OF assms(2)])
  then have "length (cnfLiteralVariables s') \<le> length (literals s')" "length (cnfExpressionVariables s') \<le> length (expressions s')"
    using m(3,4) by (auto simp: vars_ok_def same_cnf_def grows_def)
  then have "cnf_ok C A s'" using m(3,4) by (intro cnf_ok_view [OF assms(2), where k = 0 and m = 0]) (simp_all add: same_cnf_def)
  then show ?thesis using m by (intro bindsI [of _ _ r s']) (auto simp: cnf_grows_def same_cnf_def)
qed

section \<open>New variables and clauses\<close>

lemma lit_val_uminus [simp]: "l \<noteq> 0 \<Longrightarrow> lit_val \<beta> (- l) = (\<not> lit_val \<beta> l)"
  by (auto simp: lit_val_def)

lemma lit_val_upd: "\<bar>l\<bar> < v \<Longrightarrow> lit_val (\<beta>(v := b)) l = lit_val \<beta> l"
  by (auto simp: lit_val_def)

lemma models_upd: "\<forall>c \<in> set cs. \<forall>l \<in> set c. \<bar>l\<bar> < v \<Longrightarrow> models (\<beta>(v := b)) cs = models \<beta> cs"
  unfolding models_def by (metis lit_val_upd)

lemma agrees_upd:
  assumes "vars_ok s" "cnfVariableCount s < v"
  shows "agrees s (\<beta>(v := b)) \<rho> = agrees s \<beta> \<rho>"
proof -
  have "cnfLiteralVariables s ! i \<noteq> v" if "i < length (cnfLiteralVariables s)" for i
    using assms nth_mem [OF that] by (auto simp: vars_ok_def)
  then show ?thesis by (simp add: agrees_def)
qed

lemma add_clause_run: "add_clause c s = Inr ((), s\<lparr>cnfClauses := cnfClauses s @ [c], cnfClausesCount := cnfClausesCount s + 1\<rparr>)"
  by (simp add: add_clause_def change_def)

lemma each_add_clause:
  "each (\<lambda>a. add_clause (f a)) xs s = Inr (map (\<lambda>_. ()) xs,
     s\<lparr>cnfClauses := cnfClauses s @ map f xs, cnfClausesCount := cnfClausesCount s + int (length xs)\<rparr>)"
  by (induction xs arbitrary: s) (simp_all add: ret_def andthen_def add_clause_def change_def)

text \<open>A state with one more variable and the clauses \<open>cs\<close> about it.\<close>

definition with_def :: "int list list \<Rightarrow> ezSAT \<Rightarrow> ezSAT" where
  "with_def cs s = s\<lparr>cnfVariableCount := cnfVariableCount s + 1, cnfClauses := cnfClauses s @ cs,
     cnfClausesCount := cnfClausesCount s + int (length cs)\<rparr>"

lemma with_def_fields [simp]:
  "literals (with_def cs s) = literals s" "expressions (with_def cs s) = expressions s" "expressionsCache (with_def cs s) = expressionsCache s"
  "literalsCache (with_def cs s) = literalsCache s" "cnfLiteralVariables (with_def cs s) = cnfLiteralVariables s"
  "cnfExpressionVariables (with_def cs s) = cnfExpressionVariables s" "cnfVariableCount (with_def cs s) = cnfVariableCount s + 1"
  "cnfClauses (with_def cs s) = cnfClauses s @ cs" "cnfClausesBackup (with_def cs s) = cnfClausesBackup s"
  "cnfConsumed (with_def cs s) = cnfConsumed s" "flag_keep_cnf (with_def cs s) = flag_keep_cnf s"
  by (simp_all add: with_def_def)

lemma same_tables:
  assumes "literals s' = literals s" "expressions s' = expressions s"
  shows "sem s' = sem s" "valid s' = valid s" "literalsCache s' = literalsCache s \<Longrightarrow> grows s s'"
  using assms by (auto simp: sem_def valid_def grows_def map_le_def fun_eq_iff)

lemma ez_ok_same:
  assumes "literals s' = literals s" "expressions s' = expressions s" "expressionsCache s' = expressionsCache s" "literalsCache s' = literalsCache s"
  shows "ez_ok s' = ez_ok s"
  using assms by (simp add: ez_ok_def)

lemma old_clauses_bounded:
  assumes "cnf_ok C A s"
  shows "\<forall>c \<in> set (C @ cnfClauses s). \<forall>l \<in> set c. \<bar>l\<bar> < cnfVariableCount s + 1"
  using cnf_okD(3) [OF assms] unfolding is_lit_def by (meson zle_add1_eq_le)

lemma with_def_ok:
  assumes "ez_ok s" "cnf_ok C A s" "\<forall>c \<in> set cs. \<forall>l \<in> set c. l \<noteq> 0 \<and> \<bar>l\<bar> \<le> cnfVariableCount s + 1"
    "\<And>\<beta> \<rho>. models \<beta> (C @ cnfClauses s) \<Longrightarrow> agrees s \<beta> \<rho> \<Longrightarrow> consts_ok \<rho> \<Longrightarrow> \<exists>b. models (\<beta>(cnfVariableCount s + 1 := b)) cs"
  shows "ez_ok (with_def cs s)" "cnf_ok C A (with_def cs s)" "cnf_grows s (with_def cs s)"
proof -
  let ?s = "with_def cs s" and ?v = "cnfVariableCount s + 1"
  note same = same_tables [of ?s s, simplified]
  show ok: "ez_ok ?s" using assms(1) ez_ok_same [of ?s s] by simp
  show grows: "cnf_grows s ?s" using same(3) by (auto simp: cnf_grows_def)
  note okD = cnf_okD [OF assms(2)]
  have agr: "agrees ?s = agrees s" by (simp add: agrees_def fun_eq_iff)
  show "cnf_ok C A ?s"
  proof (rule cnf_okI, unfold agr same(1,2))
    show "vars_ok ?s" using okD(1) by (fastforce simp: vars_ok_def)
    show "\<forall>a \<in> A. valid s a" by (fact okD)
    show "is_lit ?s l" if "c \<in> set (C @ cnfClauses ?s)" "l \<in> set c" for c l
    proof (cases "c \<in> set cs")
      case True
      then show ?thesis using assms(3) that(2) by (simp add: is_lit_def)
    next
      case False
      then show ?thesis using okD(3) [of c l] that by (auto simp: is_lit_def)
    qed
    show "lit_means C ?s (cnfExpressionVariables ?s ! i) (- (int i + 1))"
      if i: "i < length (cnfExpressionVariables ?s)" "cnfExpressionVariables ?s ! i \<noteq> 0" for i
    proof (rule lit_means_grows [OF _ grows])
      show "valid s (- (int i + 1))" using i okD(1) by (simp add: vars_ok_def valid_def valid_at_def)
      show "lit_means C s (cnfExpressionVariables ?s ! i) (- (int i + 1))" using okD(4) i by simp
    qed
    show "\<forall>a \<in> A. sem s \<rho> a" if "models \<beta> (C @ cnfClauses ?s)" "agrees s \<beta> \<rho>" "consts_ok \<rho>" for \<beta> \<rho>
      using okD(5) [of \<beta> \<rho>] that by simp
    show "\<exists>\<beta>. models \<beta> (C @ cnfClauses ?s) \<and> agrees s \<beta> \<rho>" if \<rho>: "consts_ok \<rho>" "\<forall>a \<in> A. sem s \<rho> a" for \<rho>
    proof -
      obtain \<beta> where \<beta>: "models \<beta> (C @ cnfClauses s)" "agrees s \<beta> \<rho>" using okD(6) [OF \<rho>] by blast
      then obtain b where b: "models (\<beta>(?v := b)) cs" using assms(4) \<rho>(1) by blast
      have "models (\<beta>(?v := b)) (C @ cnfClauses s)" using \<beta>(1) models_upd [OF old_clauses_bounded [OF assms(2)]] by blast
      then show ?thesis using b \<beta>(2) agrees_upd [OF okD(1), of ?v] by (intro exI [of _ "\<beta>(?v := b)"]) simp
    qed
    have "ez_bound ?s = ez_bound s" by (simp add: ez_bound_def fun_eq_iff)
    then show "consts_forced C ?s" using okD(7) unfolding consts_forced_def by auto
  qed
qed

lemma add_clause_lits_nonzero: "\<forall>l \<in> set ls. l \<noteq> 0 \<Longrightarrow> add_clause_lits ls = add_clause ls"
  by (simp add: add_clause_lits_def filter_id_conv)

lemma new_variable_pos: "vars_ok s \<Longrightarrow> 0 < cnfVariableCount s + 1"
  by (simp add: vars_ok_def)

lemma bind_cnf_and_run:
  assumes "2 \<le> length rs" "\<forall>r \<in> set rs. r \<noteq> 0" "0 < cnfVariableCount s + 1"
  defines "v \<equiv> cnfVariableCount s + 1"
  shows "bind_cnf_and rs s = Inr (v, with_def ((map uminus rs @ [v]) # map (\<lambda>r. [- v, r]) rs) s)"
proof -
  have "each (\<lambda>r. add_clause_lits [- v, r]) rs = each (\<lambda>r. add_clause [- v, r]) rs"
    using assms(2,3) unfolding v_def by (induction rs) (auto simp: add_clause_lits_nonzero)
  then show ?thesis using assms(1,3) unfolding v_def
    by (simp add: bind_cnf_and_def check_def andthen_def new_variable_def Let_def add_clause_polarity_def add_clause_run each_add_clause
        ret_def with_def_def)
qed

lemma bind_cnf_or_run:
  assumes "2 \<le> length rs" "\<forall>r \<in> set rs. r \<noteq> 0" "0 < cnfVariableCount s + 1"
  defines "v \<equiv> cnfVariableCount s + 1"
  shows "bind_cnf_or rs s = Inr (v, with_def ((rs @ [- v]) # map (\<lambda>r. [v, - r]) rs) s)"
proof -
  have "each (\<lambda>r. add_clause_lits [v, - r]) rs = each (\<lambda>r. add_clause [v, - r]) rs"
    using assms(2,3) unfolding v_def by (induction rs) (auto simp: add_clause_lits_nonzero)
  then show ?thesis using assms(1,3) unfolding v_def
    by (simp add: bind_cnf_or_def check_def andthen_def new_variable_def Let_def add_clause_polarity_def add_clause_run each_add_clause
        ret_def with_def_def)
qed

text \<open>The clauses of a conjunction and of a disjunction fix the new variable.\<close>

lemma and_clauses: "v > 0 \<Longrightarrow> \<forall>r \<in> set rs. r \<noteq> 0 \<Longrightarrow>
    models \<beta> ((map uminus rs @ [v]) # map (\<lambda>r. [- v, r]) rs) \<longleftrightarrow> (\<beta> v \<longleftrightarrow> (\<forall>r \<in> set rs. lit_val \<beta> r))"
  by (auto simp: models_def lit_val_def [of _ v])

lemma or_clauses: "v > 0 \<Longrightarrow> \<forall>r \<in> set rs. r \<noteq> 0 \<Longrightarrow>
    models \<beta> ((rs @ [- v]) # map (\<lambda>r. [v, - r]) rs) \<longleftrightarrow> (\<beta> v \<longleftrightarrow> (\<exists>r \<in> set rs. lit_val \<beta> r))"
  by (auto simp: models_def lit_val_def [of _ v])

lemma lit_means_list:
  assumes "list_all2 (lit_means C s) rs xs" "models \<beta> (C @ cnfClauses s)" "agrees s \<beta> \<rho>" "consts_ok \<rho>"
  shows "map (lit_val \<beta>) rs = map (sem s \<rho>) xs"
  using assms by (induction rule: list_all2_induct) (auto simp: lit_means_def)

lemma bind_cnf_ok:
  assumes "ez_ok s" "cnf_ok C A s" "list_all2 (lit_means C s) rs xs" "op \<in> {OpNot, OpAnd, OpOr}" "arity op (length xs)"
    "\<And>\<rho>. sem s \<rho> x = op_val op (map (sem s \<rho>) xs)"
  shows "binds C A s (bind_cnf op rs) (\<lambda>r s'. lit_means C s' r x)"
proof -
  let ?v = "cnfVariableCount s + 1"
  have len: "length rs = length xs" using assms(3) by (rule list_all2_lengthD)
  have lits: "\<forall>r \<in> set rs. is_lit s r" using assms(3) by (auto simp: list_all2_conv_all_nth in_set_conv_nth lit_means_def)
  then have nz: "\<forall>r \<in> set rs. r \<noteq> 0" and small: "\<forall>r \<in> set rs. \<bar>r\<bar> < ?v" by (auto simp: is_lit_def)
  have v: "0 < ?v" by (rule new_variable_pos [OF cnf_okD(1) [OF assms(2)]])
  have vals: "map (lit_val \<beta>) rs = map (sem s \<rho>) xs" if "models \<beta> (C @ cnfClauses s)" "agrees s \<beta> \<rho>" "consts_ok \<rho>" for \<beta> \<rho>
    by (rule lit_means_list [OF assms(3) that])
  have new: "binds C A s m (\<lambda>r s'. lit_means C s' r x)"
    if run: "m s = Inr (?v, with_def cs s)" and bnd: "\<forall>c \<in> set cs. \<forall>l \<in> set c. l \<noteq> 0 \<and> \<bar>l\<bar> \<le> ?v"
      and def: "\<And>\<beta>. models \<beta> cs \<longleftrightarrow> (\<beta> ?v \<longleftrightarrow> op_val op (map (lit_val \<beta>) rs))" for m cs
  proof -
    have upd: "map (lit_val (\<beta>(?v := b))) rs = map (lit_val \<beta>) rs" for \<beta> b using small by (simp add: lit_val_upd)
    have "\<exists>b. models (\<beta>(?v := b)) cs" for \<beta> unfolding def upd by auto
    note ok = with_def_ok [OF assms(1,2) bnd this]
    have "lit_val \<beta> ?v = sem s \<rho> x" if m: "models \<beta> (C @ cnfClauses s)" "models \<beta> cs" "agrees s \<beta> \<rho>" "consts_ok \<rho>" for \<beta> \<rho>
      using v def [of \<beta>] m(2) unfolding assms(6) vals [OF m(1,3,4), symmetric] by (simp add: lit_val_def [of _ ?v])
    moreover have "agrees (with_def cs s) = agrees s" by (simp add: agrees_def fun_eq_iff)
    ultimately have "lit_means C (with_def cs s) ?v x"
      using v same_tables(1) [of "with_def cs s" s] by (simp add: lit_means_def is_lit_def)
    then show ?thesis using run ok by (intro bindsI [of _ _ ?v "with_def cs s"]) auto
  qed
  consider "op = OpNot" | "op = OpAnd" | "op = OpOr" using assms(4) by blast
  then show ?thesis
  proof cases
    case 1
    then obtain a r where ar: "xs = [a]" "rs = [r]" using assms(5) len by (auto simp: arity_def length_Suc_conv)
    then have "lit_means C s (- r) x" using assms(3,6) 1 nz by (auto simp: lit_means_def is_lit_def op_val_and_or)
    then show ?thesis using assms(1,2) 1 ar by (auto simp: bind_cnf_def bind_cnf_not_def check_def)
  next
    case 2
    then have "2 \<le> length rs" using assms(5) len by (simp add: arity_def)
    then have run: "bind_cnf_and rs s = Inr (?v, with_def ((map uminus rs @ [?v]) # map (\<lambda>r. [- ?v, r]) rs) s)" by (rule bind_cnf_and_run [OF _ nz v])
    have "binds C A s (bind_cnf_and rs) (\<lambda>r s'. lit_means C s' r x)"
    proof (rule new [of "bind_cnf_and rs", OF run])
      show "models \<beta> ((map uminus rs @ [?v]) # map (\<lambda>r. [- ?v, r]) rs) \<longleftrightarrow> (\<beta> ?v \<longleftrightarrow> op_val op (map (lit_val \<beta>) rs))" for \<beta>
        unfolding and_clauses [OF v nz] by (simp add: 2 op_val_and_or)
    qed (use nz small v in auto)
    then show ?thesis using 2 by (simp add: bind_cnf_def)
  next
    case 3
    then have "2 \<le> length rs" using assms(5) len by (simp add: arity_def)
    then have run: "bind_cnf_or rs s = Inr (?v, with_def ((rs @ [- ?v]) # map (\<lambda>r. [?v, - r]) rs) s)" by (rule bind_cnf_or_run [OF _ nz v])
    have "binds C A s (bind_cnf_or rs) (\<lambda>r s'. lit_means C s' r x)"
    proof (rule new [of "bind_cnf_or rs", OF run])
      show "models \<beta> ((rs @ [- ?v]) # map (\<lambda>r. [?v, - r]) rs) \<longleftrightarrow> (\<beta> ?v \<longleftrightarrow> op_val op (map (lit_val \<beta>) rs))" for \<beta>
        unfolding or_clauses [OF v nz] by (simp add: 3 op_val_and_or)
    qed (use nz small v in auto)
    then show ?thesis using 3 by (simp add: bind_cnf_def)
  qed
qed

section \<open>Binding a literal\<close>

lemma resize_longer: "length xs \<le> n \<Longrightarrow> resize n xs = xs @ replicate (n - length xs) 0"
  by (simp add: resize_def)

lemma lit_val_pos: "0 < l \<Longrightarrow> lit_val \<beta> l = \<beta> l"
  by (simp add: lit_val_def)

lemma resized_ok:
  assumes "ez_ok s" "cnf_ok C A s"
  defines "s' \<equiv> s\<lparr>cnfLiteralVariables := resize (length (literals s)) (cnfLiteralVariables s)\<rparr>"
    and "s'' \<equiv> s\<lparr>cnfExpressionVariables := resize (length (expressions s)) (cnfExpressionVariables s)\<rparr>"
  shows "ez_ok s'" "cnf_ok C A s'" "cnf_grows s s'" "length (cnfLiteralVariables s') = length (literals s)"
    "ez_ok s''" "cnf_ok C A s''" "cnf_grows s s''" "length (cnfExpressionVariables s'') = length (expressions s)"
proof -
  have vars: "vars_ok s" by (rule cnf_okD [OF assms(2)])
  then have len: "length (cnfLiteralVariables s) \<le> length (literals s)" "length (cnfExpressionVariables s) \<le> length (expressions s)"
    by (simp_all add: vars_ok_def)
  show "ez_ok s'" "ez_ok s''" using assms(1) ez_ok_same [of s' s] ez_ok_same [of s'' s] by (simp_all add: s'_def s''_def)
  show "cnf_ok C A s'"
    using len by (intro cnf_ok_view [OF assms(2), where k = "length (literals s) - length (cnfLiteralVariables s)" and m = 0])
      (simp_all add: s'_def resize_longer same_tables)
  show "cnf_ok C A s''"
    using len by (intro cnf_ok_view [OF assms(2), where k = 0 and m = "length (expressions s) - length (cnfExpressionVariables s)"])
      (simp_all add: s''_def resize_longer same_tables)
  show "cnf_grows s s'" "cnf_grows s s''" using len by (auto simp: cnf_grows_def s'_def s''_def same_tables resize_longer nth_append)
  show "length (cnfLiteralVariables s') = length (literals s)" "length (cnfExpressionVariables s'') = length (expressions s)"
    using len by (simp_all add: s'_def s''_def resize_longer)
qed

definition const_clauses :: "int \<Rightarrow> int \<Rightarrow> int list list" where
  "const_clauses x v = (if x = CONST_TRUE then [[v]] else if x = CONST_FALSE then [[- v]] else [])"

lemma const_clauses_models: "0 < v \<Longrightarrow> models \<beta> (const_clauses x v) \<longleftrightarrow> (x = CONST_TRUE \<longrightarrow> \<beta> v) \<and> (x = CONST_FALSE \<longrightarrow> \<not> \<beta> v)"
  by (auto simp: const_clauses_def lit_val_def)

lemma agreesD: "agrees s \<beta> \<rho> \<Longrightarrow> i < length (cnfLiteralVariables s) \<Longrightarrow> cnfLiteralVariables s ! i \<noteq> 0 \<Longrightarrow>
    \<beta> (cnfLiteralVariables s ! i) = \<rho> (int i + 1)"
  by (simp add: agrees_def)

definition with_lit :: "nat \<Rightarrow> int \<Rightarrow> ezSAT \<Rightarrow> ezSAT" where
  "with_lit i x s = (with_def (const_clauses x (cnfVariableCount s + 1)) s)
     \<lparr>cnfLiteralVariables := (cnfLiteralVariables s)[i := cnfVariableCount s + 1]\<rparr>"

lemma bind_literal_run:
  assumes "0 < x" "x \<le> int (length (literals s))" "0 < cnfVariableCount s + 1"
  defines "s' \<equiv> s\<lparr>cnfLiteralVariables := resize (length (literals s)) (cnfLiteralVariables s)\<rparr>"
  shows "bind_literal x s = (if cnfLiteralVariables s' ! nat (x - 1) \<noteq> 0 then Inr (cnfLiteralVariables s' ! nat (x - 1), s')
    else Inr (cnfVariableCount s + 1, with_lit (nat (x - 1)) x s'))"
proof -
  have "add_clause_lits [v] = add_clause [v]" if "v \<noteq> 0" for v using that by (simp add: add_clause_lits_nonzero)
  then show ?thesis using assms(1-3) unfolding s'_def bind_literal_def
    by (simp add: Let_def andthen_def new_variable_def change_def ret_def add_clause_run with_lit_def with_def_def const_clauses_def)
qed

lemma with_lit_ok:
  assumes "ez_ok s" "cnf_ok C A s" "length (cnfLiteralVariables s) = length (literals s)" "i < length (literals s)"
    "cnfLiteralVariables s ! i = 0" "x = int i + 1"
  shows "ez_ok (with_lit i x s)" "cnf_ok C A (with_lit i x s)" "cnf_grows s (with_lit i x s)" "lit_means C (with_lit i x s) (cnfVariableCount s + 1) x"
proof -
  let ?s = "with_lit i x s" and ?v = "cnfVariableCount s + 1" and ?cs = "const_clauses x (cnfVariableCount s + 1)"
  note okD = cnf_okD [OF assms(2)]
  have f: "literals ?s = literals s" "expressions ?s = expressions s" "expressionsCache ?s = expressionsCache s" "literalsCache ?s = literalsCache s"
    "cnfLiteralVariables ?s = (cnfLiteralVariables s)[i := ?v]" "cnfExpressionVariables ?s = cnfExpressionVariables s"
    "cnfVariableCount ?s = ?v" "cnfClauses ?s = cnfClauses s @ ?cs" by (simp_all add: with_lit_def)
  note same = same_tables [OF f(1,2)]
  have v: "0 < ?v" by (rule new_variable_pos [OF okD(1)])
  have old: "cnfLiteralVariables s ! j < ?v" if "j < length (literals s)" for j
    using okD(1) nth_mem [of j "cnfLiteralVariables s"] that assms(3) by (fastforce simp: vars_ok_def)
  show "ez_ok ?s" using assms(1) ez_ok_same [OF f(1-4)] by simp
  have "cnfLiteralVariables ?s ! j = cnfLiteralVariables s ! j" if "cnfLiteralVariables s ! j \<noteq> 0" for j
    using that assms(5) f(5) by (cases "j = i") auto
  then show grows: "cnf_grows s ?s" using same(3) f by (auto simp: cnf_grows_def with_lit_def)
  have agr: "agrees ?s \<beta> \<rho> \<longleftrightarrow> agrees s \<beta> \<rho> \<and> \<beta> ?v = \<rho> x" for \<beta> \<rho>
    using assms(3-6) v unfolding agrees_def f(5) by (auto simp: nth_list_update)
  note cs = const_clauses_models [OF v]
  have sem: "sem s \<rho> x = \<rho> x" for \<rho> using assms(6) by (simp add: sem_def id_val_def)
  show "lit_means C ?s ?v x" using v agr same(1) sem by (simp add: lit_means_def is_lit_def f(7) lit_val_pos)
  show "cnf_ok C A ?s"
  proof (rule cnf_okI, unfold same(1,2) f(6))
    have range: "0 \<le> w \<and> w \<le> ?v" if "w \<in> set ((cnfLiteralVariables s)[i := ?v])" for w
    proof -
      have "w = ?v \<or> w \<in> set (cnfLiteralVariables s)" using that set_update_subset_insert [of "cnfLiteralVariables s" i ?v] by blast
      then show ?thesis using okD(1) v by (auto simp: vars_ok_def)
    qed
    have inj: "j = k" if "j < length (literals s)" "k < length (literals s)" "(cnfLiteralVariables s)[i := ?v] ! j \<noteq> 0"
      "(cnfLiteralVariables s)[i := ?v] ! j = (cnfLiteralVariables s)[i := ?v] ! k" for j k
    proof (cases "j = i \<or> k = i")
      case True
      then show ?thesis using that old [of j] old [of k] assms(3) by (auto simp: nth_list_update split: if_splits)
    next
      case False
      then show ?thesis using that okD(1) assms(3) by (simp add: vars_ok_def)
    qed
    show "vars_ok ?s" unfolding vars_ok_def f using okD(1) v assms(3) range inj by (simp add: vars_ok_def)
    show "\<forall>a \<in> A. valid s a" by (fact okD)
    show "is_lit ?s l" if "c \<in> set (C @ cnfClauses ?s)" "l \<in> set c" for c l
    proof (cases "c \<in> set ?cs")
      case True
      then show ?thesis using that(2) v by (auto simp: is_lit_def f(7) const_clauses_def split: if_splits)
    next
      case False
      then show ?thesis using okD(3) [of c l] that by (auto simp: is_lit_def f(7,8))
    qed
    show "lit_means C ?s (cnfExpressionVariables s ! j) (- (int j + 1))"
      if j: "j < length (cnfExpressionVariables s)" "cnfExpressionVariables s ! j \<noteq> 0" for j
    proof (rule lit_means_grows [OF okD(4) [OF j] grows])
      show "valid s (- (int j + 1))" using j okD(1) by (simp add: vars_ok_def valid_def valid_at_def)
    qed
    show "\<forall>a \<in> A. sem s \<rho> a" if "models \<beta> (C @ cnfClauses ?s)" "agrees ?s \<beta> \<rho>" "consts_ok \<rho>" for \<beta> \<rho>
      using okD(5) [of \<beta> \<rho>] that by (simp add: f(8) agr)
    show "\<exists>\<beta>. models \<beta> (C @ cnfClauses ?s) \<and> agrees ?s \<beta> \<rho>" if \<rho>: "consts_ok \<rho>" "\<forall>a \<in> A. sem s \<rho> a" for \<rho>
    proof -
      obtain \<beta> where \<beta>: "models \<beta> (C @ cnfClauses s)" "agrees s \<beta> \<rho>" using okD(6) [OF \<rho>] by blast
      let ?\<beta> = "\<beta>(?v := \<rho> x)"
      have "models ?\<beta> (C @ cnfClauses s)" using \<beta>(1) models_upd [OF old_clauses_bounded [OF assms(2)]] by blast
      moreover have "models ?\<beta> ?cs" using \<rho>(1) by (auto simp: cs consts_ok_def)
      moreover have "agrees ?s ?\<beta> \<rho>" using \<beta>(2) agrees_upd [OF okD(1), of ?v] by (simp add: agr)
      ultimately show ?thesis by (intro exI [of _ ?\<beta>]) (simp add: f(8))
    qed
    have two: "2 \<le> length (literals s)" using assms(1) by (simp add: ez_ok_def)
    then have "ez_bound ?s y = (if y = x then ?v else ez_bound s y)" if "y \<in> {CONST_TRUE, CONST_FALSE}" for y
      using that assms(3,4,6) unfolding ez_bound_def f(5,6) by (auto simp: nth_list_update)
    from this [of CONST_TRUE] this [of CONST_FALSE] show "consts_forced C ?s"
      using okD(7) unfolding consts_forced_def f(8) by (auto simp: cs)
  qed
qed

lemma bind_literal_ok:
  assumes "ez_ok s" "cnf_ok C A s" "0 < x" "x \<le> int (length (literals s))"
  shows "binds C A s (bind_literal x) (\<lambda>r s'. lit_means C s' r x)"
proof -
  let ?s = "s\<lparr>cnfLiteralVariables := resize (length (literals s)) (cnfLiteralVariables s)\<rparr>" and ?i = "nat (x - 1)"
  note r = resized_ok [OF assms(1,2)]
  have i: "?i < length (literals ?s)" "x = int ?i + 1" using assms(3,4) by auto
  note run = bind_literal_run [OF assms(3,4) new_variable_pos [OF cnf_okD(1) [OF assms(2)]]]
  show ?thesis
  proof (cases "cnfLiteralVariables ?s ! ?i = 0")
    case True
    note w = with_lit_ok [OF r(1,2) _ i(1) True i(2)]
    show ?thesis using run True r(4) w cnf_grows_trans [OF r(3)] by (intro bindsI [of _ _ "cnfVariableCount s + 1" "with_lit ?i x ?s"]) simp_all
  next
    case False
    let ?r = "cnfLiteralVariables ?s ! ?i"
    have "?r \<in> set (cnfLiteralVariables ?s)" using i(1) r(4) by (intro nth_mem) simp
    then have "0 < ?r" "?r \<le> cnfVariableCount ?s" using cnf_okD(1) [OF r(2)] False unfolding vars_ok_def by force+
    moreover have "\<beta> ?r = \<rho> x" if "agrees ?s \<beta> \<rho>" for \<beta> \<rho>
    proof -
      have "?i < length (cnfLiteralVariables ?s)" using i(1) unfolding r(4) by simp
      from agreesD [OF that this False] show ?thesis using i(2) by simp
    qed
    ultimately have "lit_means C ?s ?r x" using assms(3) by (simp add: lit_means_def is_lit_def lit_val_pos sem_def id_val_def)
    then show ?thesis using run False r by (intro bindsI [of _ _ ?r ?s]) simp_all
  qed
qed

section \<open>The depth of formulas\<close>

abbreviation depth :: "ezSAT \<Rightarrow> int \<Rightarrow> nat" where
  "depth s x \<equiv> depth_of (depths (expressions s)) x"

lemma depths_snoc: "depths (es @ [e]) = depths es @ [op_depth e + foldr max (map (depth_of (depths es)) (snd e)) 0]"
  by (simp add: depths_def)

lemma length_depths [simp]: "length (depths es) = length es"
  by (induction es rule: rev_induct) (simp_all add: depths_snoc, simp add: depths_def)

lemma depths_append: "\<exists>ds. depths (es @ fs) = depths es @ ds"
proof (induction fs rule: rev_induct)
  case (snoc f fs)
  then obtain ds where "depths (es @ fs) = depths es @ ds" by blast
  then show ?case by (simp add: depths_snoc flip: append_assoc) (metis append_assoc)
qed simp

lemma depth_of_append: "valid_at nl (length ds) x \<Longrightarrow> depth_of (ds @ ds') x = depth_of ds x"
  by (auto simp: depth_of_def valid_at_def nth_append)

lemma depth_grows:
  assumes "valid s x" "grows s s'"
  shows "depth s' x = depth s x"
proof -
  obtain es where es: "expressions s' = expressions s @ es" using assms(2) by (auto simp: grows_def)
  obtain ds where ds: "depths (expressions s @ es) = depths (expressions s) @ ds" using depths_append by blast
  show ?thesis using assms(1) unfolding es ds valid_def by (intro depth_of_append) simp
qed

lemma depth_expr:
  assumes "ez_ok s" "k < length (expressions s)"
  shows "depth s (- (int k + 1)) = op_depth (expressions s ! k) + foldr max (map (depth s) (snd (expressions s ! k))) 0"
proof -
  let ?es = "expressions s"
  obtain e fs where es: "?es = take k ?es @ e # fs" "e = ?es ! k" using id_take_nth_drop [OF assms(2)] by metis
  obtain ds where ds: "depths ?es = depths (take k ?es @ [e]) @ ds" using depths_append [of "take k ?es @ [e]" fs] es(1) by auto
  have k: "length (depths (take k ?es)) = k" using assms(2) by simp
  then have "depths ?es ! k = op_depth e + foldr max (map (depth_of (depths (take k ?es))) (snd e)) 0"
    unfolding ds by (simp add: depths_snoc nth_append)
  moreover have "depth_of (depths ?es) a = depth_of (depths (take k ?es)) a" if "a \<in> set (snd e)" for a
    using ez_args [OF assms(1)] assms(2) that k unfolding ds depths_snoc append_assoc es(2) by (intro depth_of_append) auto
  moreover have "depth s (- (int k + 1)) = depths ?es ! k" using assms(2) by (simp add: depth_of_def)
  ultimately show ?thesis using es(2) by (simp only: cong: map_cong)
qed

lemma foldr_max_le: "foldr max ns 0 \<le> (d :: nat) \<longleftrightarrow> (\<forall>n \<in> set ns. n \<le> d)"
  by (induction ns) auto

lemma foldr_max_ge: "n \<in> set ns \<Longrightarrow> (n :: nat) \<le> foldr max ns 0"
  by (induction ns) (auto simp: max_def)

lemma depth_pos:
  assumes "ez_ok s" "valid s x"
  shows "1 \<le> depth s x"
proof (cases "0 < x")
  case False
  then obtain k where k: "x = - (int k + 1)" "k < length (expressions s)"
    using assms(2) by (intro that [of "nat (- x - 1)"]) (auto simp: valid_def valid_at_def)
  have "1 \<le> op_depth (expressions s ! k)"
    using ez_args [OF assms(1)] k(2) by (cases "expressions s ! k"; cases "fst (expressions s ! k)") (auto simp: op_depth_def arity_def)
  then show ?thesis using depth_expr [OF assms(1) k(2)] k(1) by simp
qed (simp add: depth_of_def)

lemma intern_id:
  assumes "ez_ok s" "intern e s = Inr (r, s')"
  shows "\<exists>k < length (expressions s'). expressions s' ! k = e \<and> r = - (int k + 1)"
proof (cases "expressionsCache s e")
  case None
  then show ?thesis using assms(2) by (intro exI [of _ "length (expressions s)"]) (auto simp: intern_def Let_def)
next
  case (Some x)
  then show ?thesis using assms ez_cached [OF assms(1) Some] by (auto simp: intern_def)
qed

lemma gives_conj:
  assumes "gives s m P" "\<And>r s'. m s = Inr (r, s') \<Longrightarrow> ez_ok s' \<Longrightarrow> grows s s' \<Longrightarrow> R r s'"
  shows "gives s m (\<lambda>r s'. P r s' \<and> R r s')"
  using assms unfolding gives_def by blast

lemma expression_depth:
  assumes "ez_ok s" "ez_ok s'" "grows s s'" "expression op args s = Inr (r, s')" "op \<in> {OpNot, OpAnd, OpOr}"
    "\<forall>x \<in> set args. valid s x \<and> depth s x \<le> d" "1 \<le> d"
  shows "depth s' r \<le> Suc d"
proof -
  let ?my = "normal_args op args"
  have my: "\<forall>x \<in> set ?my. valid s x \<and> depth s x \<le> d" using assms(6) normal_args_subset [of op args] by blast
  then have my': "\<forall>x \<in> set ?my. depth s' x \<le> d" using depth_grows [OF _ assms(3)] by auto
  have od: "\<not> xorRemovedOddTrues op args" using assms(5) by (auto simp: no_odd_trues)
  have new: "depth s' r \<le> Suc d" if run: "intern (op, ?my) s = Inr (r, s')"
  proof -
    obtain k where k: "k < length (expressions s')" "expressions s' ! k = (op, ?my)" "r = - (int k + 1)" using intern_id [OF assms(1) run] by blast
    have "foldr max (map (depth s') ?my) 0 \<le> d" using my' by (simp add: foldr_max_le)
    then show ?thesis using depth_expr [OF assms(2) k(1)] k(2,3) assms(5) by (auto simp: op_depth_def)
  qed
  have const: "depth s' CONST_TRUE = 1" "depth s' CONST_FALSE = 1" by (simp_all add: depth_of_def)
  have andthen_ret: "andthen (intern e) ret = intern e" for e by (rule ext) (auto simp: andthen_def ret_def rbind_def split: sum.splits)
  show ?thesis
  proof (cases "op = OpNot")
    case True
    then show ?thesis using assms(4,7) new const
      by (auto simp: expression_def expression_not_def check_def fails_def ret_def Let_def split: if_splits)
  next
    case False
    then have r: "r \<in> {CONST_TRUE, CONST_FALSE} \<or> r \<in> set ?my \<or> intern (op, ?my) s = Inr (r, s')"
      using assms(4,5) od by (auto simp: expression_def Let_def andthen_ret ret_def split: list.splits)
    then show ?thesis using const my' new assms(7) by auto
  qed
qed

text \<open>Building one more level.\<close>

lemma build_ok:
  assumes "ez_ok s" "vmeans s args F" "enough_args op (length args)" "op \<in> {OpNot, OpAnd, OpOr}" "\<forall>x \<in> set args. depth s x \<le> d" "1 \<le> d"
  shows "gives s (expression op args) (\<lambda>r s'. means s' r (\<lambda>\<rho>. op_val op (F \<rho>)) \<and> depth s' r \<le> Suc d)"
proof (rule gives_conj [OF expression_ok [OF assms(1-3)]])
  fix r s' assume "expression op args s = Inr (r, s')" "ez_ok s'" "grows s s'"
  then show "depth s' r \<le> Suc d" using assms(2,5) by (intro expression_depth [OF assms(1) _ _ _ assms(4) _ assms(6)]) (auto simp: vmeans_def)
qed

lemma ez_not_expression: "ez_not x = expression OpNot [x]"
  by (simp add: ez_not_def expression_def)

definition level :: "ezSAT \<Rightarrow> nat \<Rightarrow> int \<Rightarrow> ((int \<Rightarrow> bool) \<Rightarrow> bool) \<Rightarrow> bool" where
  "level s d x f \<longleftrightarrow> means s x f \<and> depth s x \<le> d"

lemma level_valid: "level s d x f \<Longrightarrow> valid s x"
  by (simp add: level_def means_def)

lemma level_grows: "level s d x f \<Longrightarrow> grows s s' \<Longrightarrow> level s' d x f"
  using means_grows [of s x f s'] depth_grows [OF level_valid, of s d x f s'] by (simp add: level_def)

lemma level_mono: "level s d x f \<Longrightarrow> d \<le> d' \<Longrightarrow> level s d' x f"
  by (simp add: level_def)

lemma level_cong: "level s d x f \<Longrightarrow> (\<And>\<rho>. consts_ok \<rho> \<Longrightarrow> f \<rho> = g \<rho>) \<Longrightarrow> level s d x g"
  unfolding level_def using means_cong by blast

lemma level_sem: "valid s x \<Longrightarrow> depth s x \<le> d \<Longrightarrow> level s d x (\<lambda>\<rho>. sem s \<rho> x)"
  by (simp add: level_def means_sem)

lemma build_not:
  assumes "ez_ok s" "level s d x f"
  shows "gives s (ez_not x) (\<lambda>r s'. level s' (Suc d) r (\<lambda>\<rho>. \<not> f \<rho>))"
  using build_ok [OF assms(1), of "[x]" "\<lambda>\<rho>. [f \<rho>]" OpNot d] assms(2) depth_pos [OF assms(1), of x]
  by (simp add: ez_not_expression op_val_and_or enough_args_def means_def level_def)

lemma build_and:
  assumes "ez_ok s" "level s d x f" "level s d y g"
  shows "gives s (ez_and [x, y]) (\<lambda>r s'. level s' (Suc d) r (\<lambda>\<rho>. f \<rho> \<and> g \<rho>))"
  using build_ok [OF assms(1), of "[x, y]" "\<lambda>\<rho>. [f \<rho>, g \<rho>]" OpAnd d] assms(2,3) depth_pos [OF assms(1), of x]
  by (simp add: ez_and_def op_val_and_or enough_args_def means_def level_def)

lemma build_or:
  assumes "ez_ok s" "level s d x f" "level s d y g"
  shows "gives s (ez_or [x, y]) (\<lambda>r s'. level s' (Suc d) r (\<lambda>\<rho>. f \<rho> \<or> g \<rho>))"
  using build_ok [OF assms(1), of "[x, y]" "\<lambda>\<rho>. [f \<rho>, g \<rho>]" OpOr d] assms(2,3) depth_pos [OF assms(1), of x]
  by (simp add: ez_or_def op_val_and_or enough_args_def means_def level_def)

section \<open>Parities, equivalences and choices\<close>

lemma build_xor_pair:
  assumes "ez_ok s" "level s d a f" "level s d b g"
  shows "gives s (xor_pair a b) (\<lambda>r s'. level s' (d + 3) r (\<lambda>\<rho>. f \<rho> \<noteq> g \<rho>))"
  unfolding xor_pair_def
proof (rule gives_andthen [OF build_not [OF assms(1,3)]])
  fix nb s1 assume 1: "level s1 (Suc d) nb (\<lambda>\<rho>. \<not> g \<rho>)" "ez_ok s1" "grows s s1"
  have a1: "level s1 (Suc d) a f" and b1: "level s1 (Suc d) b g"
    using level_grows [OF assms(2) 1(3)] level_grows [OF assms(3) 1(3)] by (auto intro: level_mono)
  have a1': "level s1 d a f" by (rule level_grows [OF assms(2) 1(3)])
  show "gives s1 (andthen (ez_and [a, nb]) (\<lambda>sub1. andthen (ez_not a) (\<lambda>na. andthen (ez_and [na, b]) (\<lambda>sub2. ez_or [sub1, sub2]))))
      (\<lambda>r s'. level s' (d + 3) r (\<lambda>\<rho>. f \<rho> \<noteq> g \<rho>))"
  proof (rule gives_andthen [OF build_and [OF 1(2) a1 1(1)]])
    fix sub1 s2 assume 2: "level s2 (Suc (Suc d)) sub1 (\<lambda>\<rho>. f \<rho> \<and> \<not> g \<rho>)" "ez_ok s2" "grows s1 s2"
    show "gives s2 (andthen (ez_not a) (\<lambda>na. andthen (ez_and [na, b]) (\<lambda>sub2. ez_or [sub1, sub2]))) (\<lambda>r s'. level s' (d + 3) r (\<lambda>\<rho>. f \<rho> \<noteq> g \<rho>))"
    proof (rule gives_andthen [OF build_not [OF 2(2) level_grows [OF a1' 2(3)]]])
      fix na s3 assume 3: "level s3 (Suc d) na (\<lambda>\<rho>. \<not> f \<rho>)" "ez_ok s3" "grows s2 s3"
      have b3: "level s3 (Suc d) b g" using level_grows [OF b1] 2(3) 3(3) grows_trans by blast
      show "gives s3 (andthen (ez_and [na, b]) (\<lambda>sub2. ez_or [sub1, sub2])) (\<lambda>r s'. level s' (d + 3) r (\<lambda>\<rho>. f \<rho> \<noteq> g \<rho>))"
      proof (rule gives_andthen [OF build_and [OF 3(2,1) b3]])
        fix sub2 s4 assume 4: "level s4 (Suc (Suc d)) sub2 (\<lambda>\<rho>. \<not> f \<rho> \<and> g \<rho>)" "ez_ok s4" "grows s3 s4"
        have "level s4 (Suc (Suc d)) sub1 (\<lambda>\<rho>. f \<rho> \<and> \<not> g \<rho>)" using level_grows [OF 2(1)] 3(3) 4(3) grows_trans by blast
        from build_or [OF 4(2) this 4(1)] show "gives s4 (ez_or [sub1, sub2]) (\<lambda>r s'. level s' (d + 3) r (\<lambda>\<rho>. f \<rho> \<noteq> g \<rho>))"
          by (rule gives_mono) (auto simp: eval_nat_numeral elim!: level_cong)
      qed
    qed
  qed
qed

lemma build_ite:
  assumes "ez_ok s" "level s d a f" "level s d b g" "level s d c h"
  shows "gives s (andthen (ez_and [a, b]) (\<lambda>sub1. andthen (ez_not a) (\<lambda>na. andthen (ez_and [na, c]) (\<lambda>sub2. ez_or [sub1, sub2]))))
    (\<lambda>r s'. level s' (d + 3) r (\<lambda>\<rho>. if f \<rho> then g \<rho> else h \<rho>))"
proof (rule gives_andthen [OF build_and [OF assms(1-3)]])
  fix sub1 s1 assume 1: "level s1 (Suc d) sub1 (\<lambda>\<rho>. f \<rho> \<and> g \<rho>)" "ez_ok s1" "grows s s1"
  show "gives s1 (andthen (ez_not a) (\<lambda>na. andthen (ez_and [na, c]) (\<lambda>sub2. ez_or [sub1, sub2])))
      (\<lambda>r s'. level s' (d + 3) r (\<lambda>\<rho>. if f \<rho> then g \<rho> else h \<rho>))"
  proof (rule gives_andthen [OF build_not [OF 1(2) level_grows [OF assms(2) 1(3)]]])
    fix na s2 assume 2: "level s2 (Suc d) na (\<lambda>\<rho>. \<not> f \<rho>)" "ez_ok s2" "grows s1 s2"
    have c: "level s2 (Suc d) c h" using level_grows [OF assms(4), of s2] 1(3) 2(3) grows_trans level_mono by (metis le_SucI order_refl)
    show "gives s2 (andthen (ez_and [na, c]) (\<lambda>sub2. ez_or [sub1, sub2])) (\<lambda>r s'. level s' (d + 3) r (\<lambda>\<rho>. if f \<rho> then g \<rho> else h \<rho>))"
    proof (rule gives_andthen [OF build_and [OF 2(2,1) c]])
      fix sub2 s3 assume 3: "level s3 (Suc (Suc d)) sub2 (\<lambda>\<rho>. \<not> f \<rho> \<and> h \<rho>)" "ez_ok s3" "grows s2 s3"
      have "level s3 (Suc (Suc d)) sub1 (\<lambda>\<rho>. f \<rho> \<and> g \<rho>)" using level_grows [OF 1(1), of s3] 2(3) 3(3) grows_trans level_mono by (metis le_SucI order_refl)
      from build_or [OF 3(2) this 3(1)] show "gives s3 (ez_or [sub1, sub2]) (\<lambda>r s'. level s' (d + 3) r (\<lambda>\<rho>. if f \<rho> then g \<rho> else h \<rho>))"
        by (rule gives_mono) (auto simp: eval_nat_numeral elim!: level_cong)
    qed
  qed
qed

text \<open>The list \<open>ys\<close> has the parity of \<open>xs\<close>.\<close>

definition xor_of :: "ezSAT \<Rightarrow> int list \<Rightarrow> nat \<Rightarrow> int list \<Rightarrow> ezSAT \<Rightarrow> bool" where
  "xor_of s0 xs d ys s \<longleftrightarrow> (\<forall>y \<in> set ys. valid s y \<and> depth s y \<le> d) \<and>
     (\<forall>\<rho>. consts_ok \<rho> \<longrightarrow> op_val OpXor (map (sem s \<rho>) ys) = op_val OpXor (map (sem s0 \<rho>) xs))"

lemma op_val_xor_Cons: "op_val OpXor (v # vs) = (v \<noteq> op_val OpXor vs)" "op_val OpXor [] = False"
  by (simp_all add: op_val_def)

lemma xor_of_trans:
  assumes "xor_of s0 xs d ys s" "xor_of s ys d' zs s'"
  shows "xor_of s0 xs d' zs s'"
  using assms by (simp add: xor_of_def)

lemma xor_of_pair:
  assumes "level s1 d c (\<lambda>\<rho>. sem s \<rho> a \<noteq> sem s \<rho> b)" "xor_of s1 xs d ys s2" "grows s s1" "grows s1 s2" "\<forall>x \<in> set xs. valid s x"
  shows "xor_of s (a # b # xs) d (c # ys) s2"
proof -
  have c: "level s2 d c (\<lambda>\<rho>. sem s \<rho> a \<noteq> sem s \<rho> b)" by (rule level_grows [OF assms(1,4)])
  have "map (sem s1 \<rho>) xs = map (sem s \<rho>) xs" for \<rho> using assms(5) sem_grows [OF _ assms(3)] by simp
  then have "op_val OpXor (map (sem s1 \<rho>) xs) = op_val OpXor (map (sem s \<rho>) xs)" for \<rho> by (rule arg_cong)
  then show ?thesis using assms(2) c by (auto simp: xor_of_def op_val_xor_Cons level_def means_def)
qed

lemma xor_pairs_ok:
  assumes "ez_ok s" "\<forall>x \<in> set xs. valid s x \<and> depth s x \<le> d"
  shows "gives s (xor_pairs xs) (\<lambda>ys s'. xor_of s xs (d + 3) ys s' \<and> length ys = (length xs + 1) div 2)"
  using assms
proof (induction xs arbitrary: s rule: xor_pairs.induct)
  case (3 a b args)
  have ab: "level s d a (\<lambda>\<rho>. sem s \<rho> a)" "level s d b (\<lambda>\<rho>. sem s \<rho> b)" using 3(3) by (simp_all add: level_sem)
  show ?case unfolding xor_pairs.simps
  proof (rule gives_andthen [OF build_xor_pair [OF 3(2) ab]])
    fix c s1 assume 1: "level s1 (d + 3) c (\<lambda>\<rho>. sem s \<rho> a \<noteq> sem s \<rho> b)" "ez_ok s1" "grows s s1"
    have args: "\<forall>x \<in> set args. valid s x" using 3(3) by simp
    have "\<forall>x \<in> set args. valid s1 x \<and> depth s1 x \<le> d" using 3(3) valid_grows [OF _ 1(3)] depth_grows [OF _ 1(3)] by simp
    from 3(1) [OF 1(2) this]
    show "gives s1 (andthen (xor_pairs args) (\<lambda>rest. ret (c # rest))) (\<lambda>ys s'. xor_of s (a # b # args) (d + 3) ys s' \<and> length ys = (length (a # b # args) + 1) div 2)"
    proof (rule gives_andthen)
      fix rest s2 assume "xor_of s1 args (d + 3) rest s2 \<and> length rest = (length args + 1) div 2" "ez_ok s2" "grows s1 s2"
      then show "gives s2 (ret (c # rest)) (\<lambda>ys s'. xor_of s (a # b # args) (d + 3) ys s' \<and> length ys = (length (a # b # args) + 1) div 2)"
        using xor_of_pair [OF 1(1) _ 1(3) _ args] by (intro gives_ret) auto
    qed
  qed
qed (auto simp: xor_of_def)

lemma xor_split_ok:
  assumes "ez_ok s" "\<forall>x \<in> set xs. valid s x \<and> depth s x \<le> d" "xs \<noteq> []" "length xs \<le> n"
  shows "gives s (xor_split n xs) (\<lambda>ys s'. xor_of s xs (d + 3 * (length xs - 1)) ys s' \<and> length ys = 1)"
  using assms
proof (induction n arbitrary: s xs d)
  case (Suc n)
  show ?case
  proof (cases "1 < length xs")
    case False
    then have "length xs = 1" using Suc.prems(3) by (cases xs) auto
    then show ?thesis using Suc.prems by (auto simp: xor_of_def)
  next
    case True
    have "gives s (andthen (xor_pairs xs) (xor_split n)) (\<lambda>ys s'. xor_of s xs (d + 3 * (length xs - 1)) ys s' \<and> length ys = 1)"
    proof (rule gives_andthen [OF xor_pairs_ok [OF Suc.prems(1,2)]])
      fix ys s1 assume 1: "xor_of s xs (d + 3) ys s1 \<and> length ys = (length xs + 1) div 2" "ez_ok s1"
      then have len: "length ys \<le> length xs - 1" "1 \<le> length ys" "length ys \<le> n" using True Suc.prems(4) by auto
      then have ne: "ys \<noteq> []" by auto
      have "\<forall>y \<in> set ys. valid s1 y \<and> depth s1 y \<le> d + 3" using 1(1) by (simp add: xor_of_def)
      from Suc.IH [OF 1(2) this ne len(3)]
      show "gives s1 (xor_split n ys) (\<lambda>ys s'. xor_of s xs (d + 3 * (length xs - 1)) ys s' \<and> length ys = 1)"
      proof (rule gives_mono)
        fix zs s2 assume "xor_of s1 ys (d + 3 + 3 * (length ys - 1)) zs s2 \<and> length zs = 1"
        moreover have "d + 3 + 3 * (length ys - 1) \<le> d + 3 * (length xs - 1)" using len by simp
        ultimately show "xor_of s xs (d + 3 * (length xs - 1)) zs s2 \<and> length zs = 1"
          using xor_of_trans [of s xs "d + 3" ys s1] 1(1) unfolding xor_of_def by (meson le_trans)
      qed
    qed
    then show ?thesis using True by simp
  qed
qed simp
lemma gives_each:
  assumes "ez_ok s" "\<And>x s'. x \<in> set xs \<Longrightarrow> ez_ok s' \<Longrightarrow> grows s s' \<Longrightarrow> gives s' (f x) (Q x)"
    "\<And>x r s1 s2. Q x r s1 \<Longrightarrow> grows s1 s2 \<Longrightarrow> Q x r s2"
  shows "gives s (each f xs) (\<lambda>rs s'. list_all2 (\<lambda>x r. Q x r s') xs rs)"
  using assms(1,2)
proof (induction xs arbitrary: s)
  case (Cons x xs)
  have x: "gives s (f x) (Q x)" using Cons.prems by simp
  show ?case unfolding each.simps
  proof (rule gives_andthen [OF x])
    fix y s1 assume 1: "Q x y s1" "ez_ok s1" "grows s s1"
    have "gives s1 (each f xs) (\<lambda>rs s'. list_all2 (\<lambda>x r. Q x r s') xs rs)"
      using Cons.prems(2) grows_trans [OF 1(3)] by (intro Cons.IH [OF 1(2)]) simp
    then show "gives s1 (andthen (each f xs) (\<lambda>ys. ret (y # ys))) (\<lambda>rs s'. list_all2 (\<lambda>x r. Q x r s') (x # xs) rs)"
      by (rule gives_andthen) (use assms(3) [OF 1(1)] in auto)
  qed
qed auto

lemma build_nots:
  assumes "ez_ok s" "\<forall>x \<in> set xs. valid s x \<and> depth s x \<le> d"
  shows "gives s (each ez_not xs) (\<lambda>rs s'. vmeans s' rs (\<lambda>\<rho>. map (\<lambda>x. \<not> sem s \<rho> x) xs) \<and> (\<forall>r \<in> set rs. depth s' r \<le> Suc d))"
proof (rule gives_mono)
  show "gives s (each ez_not xs) (\<lambda>rs s'. list_all2 (\<lambda>x r. level s' (Suc d) r (\<lambda>\<rho>. \<not> sem s \<rho> x)) xs rs)"
    using assms(2) by (intro gives_each [OF assms(1)] build_not) (auto intro: level_grows level_sem)
next
  fix rs s' assume "list_all2 (\<lambda>x r. level s' (Suc d) r (\<lambda>\<rho>. \<not> sem s \<rho> x)) xs rs"
  then show "vmeans s' rs (\<lambda>\<rho>. map (\<lambda>x. \<not> sem s \<rho> x) xs) \<and> (\<forall>r \<in> set rs. depth s' r \<le> Suc d)"
    by (induction rule: list_all2_induct) (auto simp: level_def)
qed

lemma op_val_iff: "op_val OpIFF vs = ((\<forall>v \<in> set vs. v) \<or> (\<forall>v \<in> set vs. \<not> v))"
proof -
  have "(\<forall>v \<in> S. P v) = ((True \<in> S \<longrightarrow> P True) \<and> (False \<in> S \<longrightarrow> P False))" for S and P :: "bool \<Rightarrow> bool" by (metis (full_types))
  then show ?thesis unfolding op_val_and_or by (cases "True \<in> set vs") simp_all
qed

lemma build_iff:
  assumes "ez_ok s" "\<forall>x \<in> set xs. valid s x \<and> depth s x \<le> d" "xs \<noteq> []"
  shows "gives s (expand_expression (OpIFF, xs)) (\<lambda>r s'. level s' (d + 3) r (\<lambda>\<rho>. op_val OpIFF (map (sem s \<rho>) xs)))"
  unfolding expand_expression_def prod.case OpId.case
proof (rule gives_andthen [OF build_nots [OF assms(1,2)]])
  let ?F = "\<lambda>\<rho>. map (sem s \<rho>) xs" and ?G = "\<lambda>\<rho>. map (\<lambda>x. \<not> sem s \<rho> x) xs"
  fix rs s1 assume "vmeans s1 rs ?G \<and> (\<forall>r \<in> set rs. depth s1 r \<le> Suc d)" and 1: "ez_ok s1" "grows s s1"
  then have rs: "vmeans s1 rs ?G" "\<forall>r \<in> set rs. depth s1 r \<le> Suc d" by auto
  have d: "1 \<le> d" using assms(2,3) depth_pos [OF assms(1)] by (metis le_trans list.set_intros(1) neq_Nil_conv)
  have xs: "vmeans s1 xs ?F" using assms(2) by (intro vmeans_grows [OF vmeans_sem 1(2)]) simp
  have dx: "\<forall>x \<in> set xs. depth s1 x \<le> d" using assms(2) depth_grows [OF _ 1(2)] by simp
  show "gives s1 (andthen (expression OpAnd xs) (\<lambda>sub1. andthen (expression OpAnd rs) (\<lambda>sub2. ez_or [sub1, sub2])))
      (\<lambda>r s'. level s' (d + 3) r (\<lambda>\<rho>. op_val OpIFF (?F \<rho>)))"
  proof (rule gives_andthen [OF build_ok [OF 1(1) xs _ _ dx d]])
    fix sub1 s2 assume "means s2 sub1 (\<lambda>\<rho>. op_val OpAnd (?F \<rho>)) \<and> depth s2 sub1 \<le> Suc d" and 2: "ez_ok s2" "grows s1 s2"
    then have sub1: "level s2 (Suc (Suc d)) sub1 (\<lambda>\<rho>. op_val OpAnd (?F \<rho>))" by (simp add: level_def)
    have rs2: "vmeans s2 rs ?G" "\<forall>r \<in> set rs. depth s2 r \<le> Suc d"
      using vmeans_grows [OF rs(1) 2(2)] rs depth_grows [OF _ 2(2)] by (auto simp: vmeans_def)
    show "gives s2 (andthen (expression OpAnd rs) (\<lambda>sub2. ez_or [sub1, sub2])) (\<lambda>r s'. level s' (d + 3) r (\<lambda>\<rho>. op_val OpIFF (?F \<rho>)))"
    proof (rule gives_andthen [OF build_ok [OF 2(1) rs2(1) _ _ rs2(2)]])
      fix sub2 s3 assume "means s3 sub2 (\<lambda>\<rho>. op_val OpAnd (?G \<rho>)) \<and> depth s3 sub2 \<le> Suc (Suc d)" and 3: "ez_ok s3" "grows s2 s3"
      then have sub2: "level s3 (Suc (Suc d)) sub2 (\<lambda>\<rho>. op_val OpAnd (?G \<rho>))" by (simp add: level_def)
      from build_or [OF 3(1) level_grows [OF sub1 3(2)] sub2]
      show "gives s3 (ez_or [sub1, sub2]) (\<lambda>r s'. level s' (d + 3) r (\<lambda>\<rho>. op_val OpIFF (?F \<rho>)))"
        by (rule gives_mono) (auto simp: eval_nat_numeral op_val_iff op_val_and_or(1) elim!: level_cong)
    qed (auto simp: enough_args_def)
  qed (auto simp: enough_args_def)
qed

lemma expand_expression_ok:
  assumes "ez_ok s" "op \<in> {OpXor, OpIFF, OpITE}" "arity op (length xs)" "\<forall>x \<in> set xs. valid s x \<and> depth s x \<le> d"
  shows "gives s (expand_expression (op, xs)) (\<lambda>r s'. level s' (op_depth (op, xs) + d - 1) r (\<lambda>\<rho>. op_val op (map (sem s \<rho>) xs)))"
proof -
  have ne: "xs \<noteq> []" using assms(2,3) by (auto simp: arity_def)
  consider "op = OpXor" | "op = OpIFF" | a b c where "op = OpITE" "xs = [a, b, c]"
    using assms(2,3) by (auto simp: arity_def eval_nat_numeral length_Suc_conv)
  then show ?thesis
  proof cases
    case 1
    have "gives s (andthen (xor_split (Suc (length xs)) xs) (\<lambda>args. if args = [] then fails OutOfRange else ret (hd args)))
        (\<lambda>r s'. level s' (op_depth (op, xs) + d - 1) r (\<lambda>\<rho>. op_val op (map (sem s \<rho>) xs)))"
    proof (rule gives_andthen [OF xor_split_ok [OF assms(1,4) ne]])
      fix ys s1 assume ys: "xor_of s xs (d + 3 * (length xs - 1)) ys s1 \<and> length ys = 1" "ez_ok s1"
      then obtain y where y: "ys = [y]" by (auto simp: length_Suc_conv)
      have "d + 3 * (length xs - 1) \<le> op_depth (op, xs) + d - 1" using 1 ne by (cases xs) (auto simp: op_depth_def)
      then have "level s1 (op_depth (op, xs) + d - 1) y (\<lambda>\<rho>. op_val op (map (sem s \<rho>) xs))"
        using ys y 1 unfolding xor_of_def by (auto simp: level_def means_def op_val_xor_Cons)
      then show "gives s1 (if ys = [] then fails OutOfRange else ret (hd ys))
          (\<lambda>r s'. level s' (op_depth (op, xs) + d - 1) r (\<lambda>\<rho>. op_val op (map (sem s \<rho>) xs)))" using y ys(2) by auto
    qed simp
    then show ?thesis using 1 by (simp add: expand_expression_def)
  next
    case 2
    show ?thesis using build_iff [OF assms(1,4) ne] unfolding 2 by (rule gives_mono) (auto simp: op_depth_def intro: level_mono)
  next
    case 3
    have "level s d x (\<lambda>\<rho>. sem s \<rho> x)" if "x \<in> set xs" for x using assms(4) that by (simp add: level_sem)
    note build_ite [OF assms(1) this this this, of a b c]
    then have ite: "gives s (expand_expression (OpITE, [a, b, c])) (\<lambda>r s'. level s' (d + 3) r (\<lambda>\<rho>. if sem s \<rho> a then sem s \<rho> b else sem s \<rho> c))"
      using 3(2) by (simp add: expand_expression_def)
    show ?thesis unfolding 3
      by (rule gives_mono [OF ite]) (auto simp: op_depth_def op_val_and_or intro: level_mono elim!: level_cong [OF level_mono])
  qed
qed
section \<open>Binding and assuming formulas\<close>

lemma binds_each:
  assumes "ez_ok s" "cnf_ok C A s" "\<And>x s'. x \<in> set xs \<Longrightarrow> ez_ok s' \<Longrightarrow> cnf_ok C A s' \<Longrightarrow> cnf_grows s s' \<Longrightarrow> binds C A s' (f x) (Q x)"
    "\<And>x r s1 s2. x \<in> set xs \<Longrightarrow> Q x r s1 \<Longrightarrow> cnf_grows s s1 \<Longrightarrow> cnf_grows s1 s2 \<Longrightarrow> Q x r s2"
  shows "binds C A s (each f xs) (\<lambda>rs s'. list_all2 (\<lambda>r x. Q x r s') rs xs)"
  using assms
proof (induction xs arbitrary: s)
  case (Cons x xs)
  have x: "binds C A s (f x) (Q x)" using Cons.prems by simp
  show ?case unfolding each.simps
  proof (rule binds_andthen [OF x])
    fix y s1 assume 1: "Q x y s1" "ez_ok s1" "cnf_ok C A s1" "cnf_grows s s1"
    have "binds C A s1 (each f xs) (\<lambda>rs s'. list_all2 (\<lambda>r x. Q x r s') rs xs)"
      using Cons.prems(3,4) cnf_grows_trans [OF 1(4)] by (intro Cons.IH [OF 1(2,3)]) auto
    then show "binds C A s1 (andthen (each f xs) (\<lambda>ys. ret (y # ys))) (\<lambda>rs s'. list_all2 (\<lambda>r x. Q x r s') rs (x # xs))"
      by (rule binds_andthen) (use Cons.prems(4) [OF _ 1(1,4)] in auto)
  qed
qed auto

lemma binds_check [intro]: "b \<Longrightarrow> binds C A s m Q \<Longrightarrow> binds C A s (check b m) Q"
  by (simp add: check_def)

lemma set_var_ok:
  assumes "ez_ok s" "cnf_ok C A s" "lit_means C s r (- (int i + 1))"
  defines "s' \<equiv> s\<lparr>cnfExpressionVariables := (cnfExpressionVariables s)[i := r]\<rparr>"
  shows "ez_ok s'" "cnf_ok C A s'" "cnf_grows s s'" "lit_means C s' r' x = lit_means C s r' x"
proof -
  note ok = cnf_okD [OF assms(2)]
  have same: "literals s' = literals s" "expressions s' = expressions s" "expressionsCache s' = expressionsCache s" "literalsCache s' = literalsCache s"
    by (simp_all add: s'_def)
  show "ez_ok s'" using assms(1) ez_ok_same [OF same] by simp
  note tables = same_tables [OF same(1,2)]
  show "cnf_grows s s'" using tables(3) by (simp add: cnf_grows_def s'_def)
  have agr: "agrees s' = agrees s" and lit: "is_lit s' = is_lit s" and cls: "cnfClauses s' = cnfClauses s"
    by (simp_all add: agrees_def is_lit_def s'_def fun_eq_iff)
  have lm: "lit_means C s' = lit_means C s" by (simp add: lit_means_def fun_eq_iff agr lit cls tables(1))
  then show "lit_means C s' r' x = lit_means C s r' x" by simp
  have bound: "ez_bound s' x = ez_bound s x" if "0 < x" for x using that by (simp add: ez_bound_def s'_def)
  show "cnf_ok C A s'"
  proof (rule cnf_okI, unfold tables(1,2) agr lit cls lm)
    show "vars_ok s'" using ok(1) by (simp add: vars_ok_def s'_def)
    show "lit_means C s (cnfExpressionVariables s' ! j) (- (int j + 1))"
      if "j < length (cnfExpressionVariables s')" "cnfExpressionVariables s' ! j \<noteq> 0" for j
      using that ok(4) [of j] assms(3) by (cases "j = i") (simp_all add: s'_def)
    show "consts_forced C s'" using ok(7) by (simp add: consts_forced_def bound cls)
  qed (fact ok)+
qed

lemma resized_exprs_ok:
  assumes "ez_ok s" "cnf_ok C A s"
  defines "s' \<equiv> s\<lparr>cnfExpressionVariables := resize (length (expressions s)) (cnfExpressionVariables s)\<rparr>"
  shows "ez_ok s'" "cnf_ok C A s'" "cnf_grows s s'" "length (cnfExpressionVariables s') = length (expressions s')"
    "literals s' = literals s" "expressions s' = expressions s"
proof -
  show same: "literals s' = literals s" "expressions s' = expressions s" by (simp_all add: s'_def)
  show "ez_ok s'" using assms(1) ez_ok_same [of s' s] by (simp add: s'_def)
  note tables = same_tables [OF same]
  show "cnf_grows s s'" using tables(3) by (simp add: cnf_grows_def s'_def)
  have "vars_ok s" by (rule cnf_okD [OF assms(2)])
  then have len: "length (cnfExpressionVariables s) \<le> length (expressions s)" "length (cnfLiteralVariables s) \<le> length (literals s)" by (simp_all add: vars_ok_def)
  then show "length (cnfExpressionVariables s') = length (expressions s')" by (simp add: s'_def resize_longer)
  show "cnf_ok C A s'" using len tables(3)
    by (intro cnf_ok_view [OF assms(2), where k = 0 and m = "length (expressions s) - length (cnfExpressionVariables s)"]) (simp_all add: s'_def resize_longer)
qed

lemma lit_means_cong:
  assumes "lit_means C s r y" "\<And>\<rho>. consts_ok \<rho> \<Longrightarrow> sem s \<rho> y = sem s \<rho> x"
  shows "lit_means C s r x"
  using assms by (simp add: lit_means_def)

lemma valid_expr:
  assumes "valid s x" "\<not> 0 < x"
  obtains k where "x = - (int k + 1)" "k < length (expressions s)" "nat (- x - 1) = k"
  using assms by (intro that [of "nat (- x - 1)"]) (auto simp: valid_def valid_at_def)

lemma args_valid:
  assumes "ez_ok s" "k < length (expressions s)" "expressions s ! k = (op, args)"
  shows "\<forall>a \<in> set args. valid s a" "arity op (length args)"
  using ez_args [OF assms(1)] assms(2,3) valid_at_mono unfolding valid_def by fastforce+
text \<open>One step of \<open>bind\<close>, where \<open>f\<close> binds the formulas of smaller depth.\<close>

lemma bind_expanded_ok:
  assumes "ez_ok s" "cnf_ok C A s" "op \<in> {OpXor, OpIFF, OpITE}" "arity op (length args)"
    "\<forall>a \<in> set args. valid s a \<and> depth s a \<le> d" "op_depth (op, args) + d \<le> Suc n" "valid s x"
    "\<And>\<rho>. sem s \<rho> x = op_val op (map (sem s \<rho>) args)"
    "\<And>s' y. ez_ok s' \<Longrightarrow> cnf_ok C A s' \<Longrightarrow> valid s' y \<Longrightarrow> depth s' y \<le> n \<Longrightarrow> binds C A s' (f y) (\<lambda>r s''. lit_means C s'' r y)"
  shows "binds C A s (andthen (expand_expression (op, args)) f) (\<lambda>r s'. lit_means C s' r x)"
proof (rule binds_andthen [OF gives_binds [OF expand_expression_ok [OF assms(1,3-5)] assms(2)]])
  fix y s1 assume y: "level s1 (op_depth (op, args) + d - 1) y (\<lambda>\<rho>. op_val op (map (sem s \<rho>) args))"
    and 1: "ez_ok s1" "cnf_ok C A s1" "cnf_grows s s1"
  have "valid s1 y" "depth s1 y \<le> n" using y assms(6) level_valid by (auto simp: level_def)
  from assms(9) [OF 1(1,2) this] show "binds C A s1 (f y) (\<lambda>r s'. lit_means C s' r x)"
  proof (rule binds_mono)
    fix t s2 assume t: "lit_means C s2 t y" "cnf_grows s1 s2"
    then have "level s2 (op_depth (op, args) + d - 1) y (\<lambda>\<rho>. op_val op (map (sem s \<rho>) args))"
      using level_grows [OF y] by (simp add: cnf_grows_def)
    moreover have "grows s s2" using 1(3) t(2) grows_trans by (auto simp: cnf_grows_def)
    then have "sem s2 \<rho> x = op_val op (map (sem s \<rho>) args)" for \<rho> using assms(8) sem_grows [OF assms(7), of s2] by simp
    ultimately show "lit_means C s2 t x" by (intro lit_means_cong [OF t(1)]) (simp add: level_def means_def)
  qed
qed

lemma bind_all_ok:
  assumes "ez_ok s" "cnf_ok C A s" "\<forall>a \<in> set args. valid s a \<and> depth s a \<le> n"
    "\<And>s' y. ez_ok s' \<Longrightarrow> cnf_ok C A s' \<Longrightarrow> valid s' y \<Longrightarrow> depth s' y \<le> n \<Longrightarrow> binds C A s' (f y) (\<lambda>r s''. lit_means C s'' r y)"
  shows "binds C A s (each f args) (\<lambda>rs s'. list_all2 (lit_means C s') rs args)"
proof (rule binds_each [OF assms(1,2)])
  fix a s' assume a: "a \<in> set args" "ez_ok s'" "cnf_ok C A s'" "cnf_grows s s'"
  have g: "grows s s'" using a(4) by (simp add: cnf_grows_def)
  have "valid s' a" "depth s' a \<le> n" using assms(3) a(1) valid_grows [OF _ g] depth_grows [OF _ g] by auto
  then show "binds C A s' (f a) (\<lambda>r s'. lit_means C s' r a)" by (rule assms(4) [OF a(2,3)])
next
  fix a t s1 s2 assume "a \<in> set args" "lit_means C s1 t a" "cnf_grows s s1" "cnf_grows s1 s2"
  then show "lit_means C s2 t a" using assms(3) valid_grows by (intro lit_means_grows [of C s1 t a s2]) (auto simp: cnf_grows_def)
qed

lemma bind_args_ok:
  assumes "ez_ok s" "cnf_ok C A s" "op \<in> {OpNot, OpAnd, OpOr}" "arity op (length args)"
    "\<forall>a \<in> set args. valid s a \<and> depth s a \<le> n" "valid s x" "\<And>\<rho>. sem s \<rho> x = op_val op (map (sem s \<rho>) args)"
    "\<And>s' y. ez_ok s' \<Longrightarrow> cnf_ok C A s' \<Longrightarrow> valid s' y \<Longrightarrow> depth s' y \<le> n \<Longrightarrow> binds C A s' (f y) (\<lambda>r s''. lit_means C s'' r y)"
  shows "binds C A s (andthen (each f args) (bind_cnf op)) (\<lambda>r s'. lit_means C s' r x)"
proof (rule binds_andthen [OF bind_all_ok [OF assms(1,2,5,8)]])
  fix rs s1 assume rs: "list_all2 (lit_means C s1) rs args" and 1: "ez_ok s1" "cnf_ok C A s1" "cnf_grows s s1"
  have g: "grows s s1" using 1(3) by (simp add: cnf_grows_def)
  then have "map (sem s1 \<rho>) args = map (sem s \<rho>) args" for \<rho> using assms(5) sem_grows [OF _ g] by simp
  then show "binds C A s1 (bind_cnf op rs) (\<lambda>r s'. lit_means C s' r x)"
    using assms(7) sem_grows [OF assms(6) g] by (intro bind_cnf_ok [OF 1(1,2) rs assms(3,4)]) metis
qed

definition bind_step :: "(int \<Rightarrow> int ez) \<Rightarrow> OpId \<Rightarrow> int list \<Rightarrow> nat \<Rightarrow> int ez" where
  "bind_step f op args k = andthen
     (if op \<in> {OpXor, OpIFF, OpITE} then andthen (expand_expression (op, args)) f else andthen (each f args) (bind_cnf op))
     (\<lambda>idx. check (idx \<noteq> 0) (andthen (change (\<lambda>s. s\<lparr>cnfExpressionVariables := (cnfExpressionVariables s)[k := idx]\<rparr>)) (\<lambda>_. ret idx)))"

lemma bind_step_ok:
  assumes "ez_ok s" "cnf_ok C A s" "k < length (expressions s)" "expressions s ! k = (op, args)" "depth s (- (int k + 1)) \<le> Suc n"
    "\<And>s' y. ez_ok s' \<Longrightarrow> cnf_ok C A s' \<Longrightarrow> valid s' y \<Longrightarrow> depth s' y \<le> n \<Longrightarrow> binds C A s' (f y) (\<lambda>r s''. lit_means C s'' r y)"
  shows "binds C A s (bind_step f op args k) (\<lambda>r s'. lit_means C s' r (- (int k + 1)))"
  unfolding bind_step_def
proof (rule binds_andthen)
  let ?d = "foldr max (map (depth s) args) 0" and ?x = "- (int k + 1)"
  note args = args_valid [OF assms(1,3,4)]
  have d: "op_depth (op, args) + ?d \<le> Suc n" using assms(4,5) depth_expr [OF assms(1,3)] by simp
  have da: "\<forall>a \<in> set args. valid s a \<and> depth s a \<le> ?d" using args(1) by (simp add: foldr_max_ge)
  have x: "valid s ?x" using assms(3) by (simp add: valid_def valid_at_def)
  have sem: "sem s \<rho> ?x = op_val op (map (sem s \<rho>) args)" for \<rho> using sem_expr [OF assms(1,3)] assms(4) by simp
  show "binds C A s (if op \<in> {OpXor, OpIFF, OpITE} then andthen (expand_expression (op, args)) f else andthen (each f args) (bind_cnf op))
      (\<lambda>r s'. lit_means C s' r ?x)"
  proof (cases "op \<in> {OpXor, OpIFF, OpITE}")
    case True
    from bind_expanded_ok [OF assms(1,2) True args(2) da d x sem assms(6)] True show ?thesis by (simp only: if_True)
  next
    case False
    then have op: "op \<in> {OpNot, OpAnd, OpOr}" by (cases op) auto
    then have "?d \<le> n" using d by (auto simp: op_depth_def)
    with da have "\<forall>a \<in> set args. valid s a \<and> depth s a \<le> n" by (meson le_trans)
    from bind_args_ok [OF assms(1,2) op args(2) this x sem assms(6)] False show ?thesis by (simp only: if_False)
  qed
next
  fix t s1 assume t: "lit_means C s1 t (- (int k + 1))" and 1: "ez_ok s1" "cnf_ok C A s1"
  note v = set_var_ok [OF 1 t]
  have "t \<noteq> 0" using t by (simp add: lit_means_def is_lit_def)
  then show "binds C A s1 (check (t \<noteq> 0) (andthen (change (\<lambda>s. s\<lparr>cnfExpressionVariables := (cnfExpressionVariables s)[k := t]\<rparr>)) (\<lambda>_. ret t)))
      (\<lambda>r s'. lit_means C s' r (- (int k + 1)))"
    using v t by (intro binds_check bindsI [of _ _ t "s1\<lparr>cnfExpressionVariables := (cnfExpressionVariables s1)[k := t]\<rparr>"])
      (simp_all add: andthen_def change_def ret_def)
qed

lemma ez_bind_fuel_run:
  assumes "x = - (int k + 1)" "k < length (expressions s)" "expressions s ! k = (op, args)"
  defines "s' \<equiv> s\<lparr>cnfExpressionVariables := resize (length (expressions s)) (cnfExpressionVariables s)\<rparr>"
  shows "ez_bind_fuel (Suc n) x s = (if cnfExpressionVariables s' ! k \<noteq> 0 then Inr (cnfExpressionVariables s' ! k, s')
    else bind_step (ez_bind_fuel n) op args k s')"
proof -
  have "\<not> x \<ge> 0" "nat (- x - 1) = k" "lookup_expression x s = Inr (op, args)" using assms(1-3) by (auto simp: lookup_expression_def)
  then show ?thesis by (simp add: Let_def s'_def bind_step_def)
qed

lemma ez_bind_fuel_ok:
  assumes "ez_ok s" "cnf_ok C A s" "valid s x" "depth s x \<le> n"
  shows "binds C A s (ez_bind_fuel n x) (\<lambda>r s'. lit_means C s' r x)"
  using assms
proof (induction n arbitrary: s x)
  case 0
  then show ?case using depth_pos [OF 0(1,3)] by simp
next
  case (Suc n)
  show ?case
  proof (cases "0 < x")
    case True
    then show ?thesis using bind_literal_ok [OF Suc.prems(1,2) True] Suc.prems(3)
      by (simp add: binds_def valid_def valid_at_def)
  next
    case False
    from valid_expr [OF Suc.prems(3) False] obtain k where k: "x = - (int k + 1)" "k < length (expressions s)" .
    obtain op args where e: "expressions s ! k = (op, args)" by fastforce
    define s0 where "s0 = s\<lparr>cnfExpressionVariables := resize (length (expressions s)) (cnfExpressionVariables s)\<rparr>"
    note r = resized_exprs_ok [OF Suc.prems(1,2), folded s0_def] and run = ez_bind_fuel_run [OF k e, folded s0_def]
    show ?thesis
    proof (cases "cnfExpressionVariables s0 ! k = 0")
      case False
      then have "lit_means C s0 (cnfExpressionVariables s0 ! k) x" using cnf_okD(4) [OF r(2)] k r(4,6) by simp
      then show ?thesis using run False r(1-3) by (intro bindsI [of _ _ "cnfExpressionVariables s0 ! k" s0]) simp_all
    next
      case True
      have "binds C A s0 (bind_step (ez_bind_fuel n) op args k) (\<lambda>r s'. lit_means C s' r (- (int k + 1)))"
        using k e r(6) Suc.prems(4) by (intro bind_step_ok [OF r(1,2) _ _ _ Suc.IH]) simp_all
      then show ?thesis using run True r(3) cnf_grows_trans unfolding binds_def k(1) [symmetric] by (simp only: if_False simp_thms not_not) blast
    qed
  qed
qed

lemma ez_bind_ok:
  assumes "ez_ok s" "cnf_ok C A s" "valid s x"
  shows "binds C A s (ez_bind x) (\<lambda>r s'. lit_means C s' r x)"
  using ez_bind_fuel_ok [OF assms order_refl] by (simp add: binds_def ez_bind_def)
text \<open>An operation succeeds and the formulas \<open>X\<close> are assumed after it.\<close>

definition assumed :: "int list list \<Rightarrow> int set \<Rightarrow> ezSAT \<Rightarrow> 'a ez \<Rightarrow> int set \<Rightarrow> bool" where
  "assumed C A s m X \<longleftrightarrow> (\<exists>r s'. m s = Inr (r, s') \<and> ez_ok s' \<and> cnf_ok C (A \<union> X) s' \<and> cnf_grows s s')"

lemma assumedI: "m s = Inr (r, s') \<Longrightarrow> ez_ok s' \<Longrightarrow> cnf_ok C (A \<union> X) s' \<Longrightarrow> cnf_grows s s' \<Longrightarrow> assumed C A s m X"
  unfolding assumed_def by blast

lemma cnf_ok_same_assumed:
  assumes "cnf_ok C A s" "\<forall>b \<in> B. valid s b" "\<And>\<rho>. consts_ok \<rho> \<Longrightarrow> (\<forall>a \<in> A. sem s \<rho> a) = (\<forall>b \<in> B. sem s \<rho> b)"
  shows "cnf_ok C B s"
  using cnf_okD [OF assms(1)] assms(2,3) by (intro cnf_okI) auto

lemma binds_assumed:
  assumes "binds C A s m P" "\<And>r s'. P r s' \<Longrightarrow> ez_ok s' \<Longrightarrow> cnf_ok C A s' \<Longrightarrow> cnf_grows s s' \<Longrightarrow> assumed C A s' (f r) X"
  shows "assumed C A s (andthen m f) X"
proof -
  obtain r s1 where 1: "m s = Inr (r, s1)" "ez_ok s1" "cnf_ok C A s1" "cnf_grows s s1" "P r s1" using assms(1) by (auto simp: binds_def)
  then obtain q s2 where 2: "f r s1 = Inr (q, s2)" "ez_ok s2" "cnf_ok C (A \<union> X) s2" "cnf_grows s1 s2"
    using assms(2) [OF 1(5,2,3,4)] by (auto simp: assumed_def)
  show ?thesis using 1 2 cnf_grows_trans by (intro assumedI [of _ _ q s2]) (auto simp: andthen_def)
qed

lemma add_clause_ok:
  assumes "ez_ok s" "cnf_ok C A s" "valid s x" "\<forall>l \<in> set ls. is_lit s l"
    "\<And>\<beta> \<rho>. models \<beta> (C @ cnfClauses s) \<Longrightarrow> agrees s \<beta> \<rho> \<Longrightarrow> consts_ok \<rho> \<Longrightarrow> (\<exists>l \<in> set ls. lit_val \<beta> l) = sem s \<rho> x"
  shows "assumed C A s (add_clause ls) {x}"
proof (rule assumedI [OF add_clause_run])
  let ?s = "s\<lparr>cnfClauses := cnfClauses s @ [ls], cnfClausesCount := cnfClausesCount s + 1\<rparr>"
  note okD = cnf_okD [OF assms(2)]
  note tables = same_tables [of ?s s, simplified]
  show "ez_ok ?s" using assms(1) ez_ok_same [of ?s s] by simp
  show grows: "cnf_grows s ?s" using tables(3) by (auto simp: cnf_grows_def)
  have agr: "agrees ?s = agrees s" and lit: "is_lit ?s = is_lit s" by (simp_all add: agrees_def is_lit_def fun_eq_iff)
  show "cnf_ok C (A \<union> {x}) ?s"
  proof (rule cnf_okI, unfold agr lit tables(1,2))
    show "vars_ok ?s" using okD(1) by (simp add: vars_ok_def)
    show "\<forall>a \<in> A \<union> {x}. valid s a" using okD(2) assms(3) by simp
    show "is_lit s l" if "c \<in> set (C @ cnfClauses ?s)" "l \<in> set c" for c l
      using that okD(3) [of c l] assms(4) by auto
    show "lit_means C ?s (cnfExpressionVariables ?s ! i) (- (int i + 1))"
      if "i < length (cnfExpressionVariables ?s)" "cnfExpressionVariables ?s ! i \<noteq> 0" for i
      using that okD(1) okD(4) [of i] by (intro lit_means_grows [OF _ grows]) (simp_all add: vars_ok_def valid_def valid_at_def)
    show "\<forall>a \<in> A \<union> {x}. sem s \<rho> a" if "models \<beta> (C @ cnfClauses ?s)" "agrees s \<beta> \<rho>" "consts_ok \<rho>" for \<beta> \<rho>
      using that okD(5) [of \<beta> \<rho>] assms(5) [of \<beta> \<rho>] by simp
    show "\<exists>\<beta>. models \<beta> (C @ cnfClauses ?s) \<and> agrees s \<beta> \<rho>" if \<rho>: "consts_ok \<rho>" "\<forall>a \<in> A \<union> {x}. sem s \<rho> a" for \<rho>
    proof -
      obtain \<beta> where "models \<beta> (C @ cnfClauses s)" "agrees s \<beta> \<rho>" using okD(6) [OF \<rho>(1)] \<rho>(2) by auto
      then show ?thesis using assms(5) [of \<beta> \<rho>] \<rho> by (intro exI [of _ \<beta>]) simp
    qed
    have "ez_bound ?s = ez_bound s" by (simp add: ez_bound_def fun_eq_iff)
    then show "consts_forced C ?s" using okD(7) unfolding consts_forced_def by auto
  qed
qed

lemma unit_clause_ok:
  assumes "ez_ok s" "cnf_ok C A s" "valid s x"
  shows "assumed C A s (andthen (ez_bind x) (\<lambda>idx. add_clause [idx])) {x}"
proof (rule binds_assumed [OF ez_bind_ok [OF assms]])
  fix r s1 assume r: "lit_means C s1 r x" and 1: "ez_ok s1" "cnf_ok C A s1" "cnf_grows s s1"
  have "valid s1 x" using assms(3) valid_grows 1(3) by (auto simp: cnf_grows_def)
  then show "assumed C A s1 (add_clause [r]) {x}" using r by (intro add_clause_ok [OF 1(1,2)]) (simp_all add: lit_means_def)
qed

lemma each_assumed:
  assumes "ez_ok s" "cnf_ok C A s" "\<forall>x \<in> set xs. valid s x"
    "\<And>x s' A. ez_ok s' \<Longrightarrow> cnf_ok C A s' \<Longrightarrow> valid s' x \<Longrightarrow> assumed C A s' (f x) {x}"
  shows "assumed C A s (each f xs) (set xs)"
  using assms(1-3)
proof (induction xs arbitrary: s A)
  case Nil
  then show ?case by (intro assumedI [of _ _ "[]" s]) (simp_all add: ret_def)
next
  case (Cons x xs)
  obtain r s1 where 1: "f x s = Inr (r, s1)" "ez_ok s1" "cnf_ok C (A \<union> {x}) s1" "cnf_grows s s1"
    using assms(4) [OF Cons.prems(1,2), of x] Cons.prems(3) unfolding assumed_def by auto
  have "\<forall>y \<in> set xs. valid s1 y" using Cons.prems(3) 1(4) valid_grows by (auto simp: cnf_grows_def)
  then obtain rs s2 where 2: "each f xs s1 = Inr (rs, s2)" "ez_ok s2" "cnf_ok C (A \<union> {x} \<union> set xs) s2" "cnf_grows s1 s2"
    using Cons.IH [OF 1(2,3)] by (auto simp: assumed_def)
  have "A \<union> {x} \<union> set xs = A \<union> set (x # xs)" by auto
  then show ?case using 1 2 cnf_grows_trans by (intro assumedI [of _ _ "r # rs" s2]) (auto simp: andthen_def ret_def)
qed

lemma assume_not_ok:
  assumes "ez_ok s" "cnf_ok C A s" "valid s x" "valid s a" "\<And>\<rho>. sem s \<rho> x = (\<not> sem s \<rho> a)"
  shows "assumed C A s (andthen (ez_bind a) (\<lambda>idx. add_clause [- idx])) {x}"
proof (rule binds_assumed [OF ez_bind_ok [OF assms(1,2,4)]])
  fix r s1 assume r: "lit_means C s1 r a" and 1: "ez_ok s1" "cnf_ok C A s1" "cnf_grows s s1"
  have g: "grows s s1" using 1(3) by (simp add: cnf_grows_def)
  have "sem s1 \<rho> x = (\<not> sem s1 \<rho> a)" for \<rho> using assms(5) sem_grows [OF assms(3) g] sem_grows [OF assms(4) g] by simp
  then show "assumed C A s1 (add_clause [- r]) {x}" using r valid_grows [OF assms(3) g]
    by (intro add_clause_ok [OF 1(1,2)]) (simp_all add: lit_means_def is_lit_def)
qed

lemma assume_or_ok:
  assumes "ez_ok s" "cnf_ok C A s" "valid s x" "\<forall>a \<in> set args. valid s a" "\<And>\<rho>. sem s \<rho> x = (\<exists>a \<in> set args. sem s \<rho> a)"
  shows "assumed C A s (andthen (each ez_bind args) add_clause) {x}"
proof (rule binds_assumed)
  show "binds C A s (each ez_bind args) (\<lambda>rs s'. list_all2 (lit_means C s') rs args)"
    using assms(4) by (intro bind_all_ok [OF assms(1,2) _ ez_bind_ok, where n = "foldr max (map (depth s) args) 0"]) (simp_all add: foldr_max_ge)
next
  fix rs s1 assume rs: "list_all2 (lit_means C s1) rs args" and 1: "ez_ok s1" "cnf_ok C A s1" "cnf_grows s s1"
  have g: "grows s s1" using 1(3) by (simp add: cnf_grows_def)
  have sem: "sem s1 \<rho> x = (\<exists>a \<in> set args. sem s1 \<rho> a)" for \<rho> using assms(4,5) sem_grows [OF _ g] assms(3) by simp
  have "(\<exists>l \<in> set rs. lit_val \<beta> l) = sem s1 \<rho> x" if "models \<beta> (C @ cnfClauses s1)" "agrees s1 \<beta> \<rho>" "consts_ok \<rho>" for \<beta> \<rho>
  proof -
    have "set (map (lit_val \<beta>) rs) = set (map (sem s1 \<rho>) args)" using lit_means_list [OF rs that] by simp
    then have "True \<in> lit_val \<beta> ` set rs \<longleftrightarrow> True \<in> sem s1 \<rho> ` set args" by simp
    then show ?thesis unfolding sem by auto
  qed
  moreover have "\<forall>r \<in> set rs. is_lit s1 r" using rs by (auto simp: list_all2_conv_all_nth in_set_conv_nth lit_means_def)
  ultimately show "assumed C A s1 (add_clause rs) {x}" by (intro add_clause_ok [OF 1(1,2) valid_grows [OF assms(3) g]])
qed

lemma assume_and_ok:
  assumes "ez_ok s" "cnf_ok C A s" "valid s x" "\<forall>a \<in> set args. valid s a" "\<And>\<rho>. sem s \<rho> x = (\<forall>a \<in> set args. sem s \<rho> a)"
  shows "assumed C A s (andthen (each (\<lambda>i. andthen (ez_bind i) (\<lambda>idx. add_clause [idx])) args) (\<lambda>_. ret ())) {x}"
proof -
  obtain rs s1 where 1: "each (\<lambda>i. andthen (ez_bind i) (\<lambda>idx. add_clause [idx])) args s = Inr (rs, s1)" "ez_ok s1" "cnf_ok C (A \<union> set args) s1" "cnf_grows s s1"
    using each_assumed [OF assms(1,2,4) unit_clause_ok] by (auto simp: assumed_def)
  have g: "grows s s1" using 1(4) by (simp add: cnf_grows_def)
  have "sem s1 \<rho> x = (\<forall>a \<in> set args. sem s1 \<rho> a)" for \<rho> using assms(4,5) sem_grows [OF _ g] assms(3) by simp
  then have "cnf_ok C (A \<union> {x}) s1" using cnf_okD(2) [OF 1(3)] valid_grows [OF assms(3) g]
    by (intro cnf_ok_same_assumed [OF 1(3)]) auto
  then show ?thesis using 1 by (intro assumedI [of _ _ "()" s1]) (simp_all add: andthen_def ret_def)
qed

lemma ez_assume_ok:
  assumes "ez_ok s" "cnf_ok C A s" "valid s x"
  shows "assumed C A s (ez_assume x) {x}"
proof (cases "0 < x")
  case True
  then show ?thesis using unit_clause_ok [OF assms] by (simp add: assumed_def ez_assume_def)
next
  case False
  from valid_expr [OF assms(3) False] obtain k where k: "x = - (int k + 1)" "k < length (expressions s)" "nat (- x - 1) = k" .
  obtain op args where e: "expressions s ! k = (op, args)" by fastforce
  define s0 where "s0 = s\<lparr>cnfExpressionVariables := resize (length (expressions s)) (cnfExpressionVariables s)\<rparr>"
  note r = resized_exprs_ok [OF assms(1,2), folded s0_def]
  have e0: "k < length (expressions s0)" "expressions s0 ! k = (op, args)" using k(2) e r(6) by simp_all
  note args = args_valid [OF r(1) e0]
  have x: "valid s0 x" using k(1) e0(1) by (simp add: valid_def valid_at_def)
  have sem: "sem s0 \<rho> x = op_val op (map (sem s0 \<rho>) args)" for \<rho> using sem_expr [OF r(1) e0(1)] e0(2) k(1) by simp
  have look: "lookup_expression x s = Inr (op, args)" using k e by (simp add: lookup_expression_def)
  let ?unit = "\<lambda>i. andthen (ez_bind i) (\<lambda>idx. add_clause [idx])"
  let ?m = "if cnfExpressionVariables s0 ! k \<noteq> 0 then ?unit x else case op of OpNot \<Rightarrow> andthen (ez_bind (hd args)) (\<lambda>idx. add_clause [- idx])
    | OpOr \<Rightarrow> andthen (each ez_bind args) add_clause | OpAnd \<Rightarrow> andthen (each ?unit args) (\<lambda>_. ret ()) | _ \<Rightarrow> ?unit x"
  have run: "ez_assume x s = ?m s0" using False assms(3) look k(1,3)
    by (cases op) (simp_all add: ez_assume_def Let_def s0_def [symmetric] r(6) if_distrib [of "\<lambda>m. m s0"] cong: if_cong)
  have "assumed C A s0 (andthen (ez_bind (hd args)) (\<lambda>idx. add_clause [- idx])) {x}" if op: "op = OpNot"
  proof (rule assume_not_ok [OF r(1,2) x])
    have "args \<noteq> []" using args(2) op by (auto simp: arity_def)
    then show "valid s0 (hd args)" "sem s0 \<rho> x = (\<not> sem s0 \<rho> (hd args))" for \<rho> using args(1) op sem by (simp_all add: op_val_and_or list.map_sel)
  qed
  moreover have "assumed C A s0 (andthen (each ez_bind args) add_clause) {x}" if "op = OpOr"
    using assume_or_ok [OF r(1,2) x args(1)] that sem by (simp add: op_val_and_or)
  moreover have "assumed C A s0 (andthen (each ?unit args) (\<lambda>_. ret ())) {x}" if "op = OpAnd"
    using assume_and_ok [OF r(1,2) x args(1)] that sem by (simp add: op_val_and_or)
  ultimately have "assumed C A s0 ?m {x}" using unit_clause_ok [OF r(1,2) x] by (cases op) (simp_all del: not_gr_zero)
  then show ?thesis using run r(3) cnf_grows_trans unfolding assumed_def by auto
qed
section \<open>States that the operations reach\<close>

text \<open>\<open>C\<close> are the clauses handed out and \<open>A\<close> the formulas assumed since the last \<open>clear\<close>.\<close>

inductive ez_reach :: "int list list \<Rightarrow> int set \<Rightarrow> ezSAT \<Rightarrow> bool" where
  reach_init: "ezSAT_init = Inr s \<Longrightarrow> ez_reach [] {} s"
| reach_literal: "ez_reach C A s \<Longrightarrow> literal_new s = Inr (x, s') \<Longrightarrow> ez_reach C A s'"
| reach_named: "ez_reach C A s \<Longrightarrow> literal_named name s = Inr (x, s') \<Longrightarrow> ez_reach C A s'"
| reach_expression: "ez_reach C A s \<Longrightarrow> \<forall>a \<in> set args. valid s a \<Longrightarrow> expression op args s = Inr (x, s') \<Longrightarrow> ez_reach C A s'"
| reach_bind: "ez_reach C A s \<Longrightarrow> valid s x \<Longrightarrow> ez_bind x s = Inr (r, s') \<Longrightarrow> ez_reach C A s'"
| reach_assume: "ez_reach C A s \<Longrightarrow> valid s x \<Longrightarrow> ez_assume x s = Inr ((), s') \<Longrightarrow> ez_reach C (insert x A) s'"
| reach_consume: "ez_reach C A s \<Longrightarrow> consumeCnf s = Inr (cs, s') \<Longrightarrow> ez_reach (C @ cs) A s'"
| reach_clear: "ez_reach C A s \<Longrightarrow> ez_reach [] {} (ez_clear s)"
| reach_keep: "ez_reach C A s \<Longrightarrow> ez_reach C A (s\<lparr>flag_keep_cnf := True\<rparr>)"
| reach_solve: "ez_reach C A s \<Longrightarrow> preSolverCallback s = Inr ((), s') \<Longrightarrow> ez_reach C A s'"

lemma expression_enough_args:
  assumes "\<forall>a \<in> set args. valid s a" "expression op args s = Inr (x, s')"
  shows "enough_args op (length args)"
proof -
  have "0 \<notin> set args" using assms(1) valid_nonzero by metis
  then have "normal_args op args = args" if "op \<in> {OpNot, OpITE}" using that
    by (auto simp: normal_args_def Let_def drops_arg_def filter_id_conv)
  moreover have "args \<noteq> []" if "op = OpIFF" using assms(2) that by (auto simp: expression_def normal_args_def fails_def)
  ultimately show ?thesis using assms(2)
    by (cases op) (auto simp: expression_def expression_not_def check_def fails_def enough_args_def Let_def Suc_le_eq split: if_splits)
qed

lemma init_run:
  "ezSAT_init = Inr (ezSAT_empty\<lparr>literals := [''CONST_TRUE'', ''CONST_FALSE''],
     literalsCache := [''CONST_TRUE'' \<mapsto> CONST_TRUE, ''CONST_FALSE'' \<mapsto> CONST_FALSE]\<rparr>)"
  by (simp add: ezSAT_init_def literal_named_def andthen_def ret_def check_def ezSAT_empty_def Let_def)

lemma no_vars_cnf_ok:
  assumes "cnfLiteralVariables s = []" "cnfExpressionVariables s = []" "cnfVariableCount s = 0" "cnfClauses s = []"
  shows "cnf_ok [] {} s"
  using assms by (intro cnf_okI) (simp_all add: vars_ok_def agrees_def consts_forced_def ez_bound_def)

lemma cnf_ok_consumed:
  assumes "cnf_ok C A s" "cnfClauses s = cs @ cnfClauses s'" "literals s' = literals s" "expressions s' = expressions s" "cnfVariableCount s' = cnfVariableCount s"
    "cnfLiteralVariables s' = cnfLiteralVariables s" "cnfExpressionVariables s' = cnfExpressionVariables s"
  shows "cnf_ok (C @ cs) A s'"
proof -
  note ok = cnf_okD [OF assms(1)]
  note tables = same_tables [OF assms(3,4)]
  have agr: "agrees s' = agrees s" and lit: "is_lit s' = is_lit s" and bound: "ez_bound s' = ez_bound s"
    by (simp_all add: agrees_def is_lit_def ez_bound_def assms(5-7) fun_eq_iff)
  have cls: "(C @ cs) @ cnfClauses s' = C @ cnfClauses s" by (simp add: assms(2))
  have lm: "lit_means (C @ cs) s' = lit_means C s" unfolding lit_means_def fun_eq_iff agr lit tables(1) cls by simp
  show ?thesis
  proof (rule cnf_okI, unfold agr lit tables(1,2) cls lm assms(7))
    show "vars_ok s'" using ok(1) by (simp add: vars_ok_def assms)
    show "consts_forced (C @ cs) s'" using ok(7) unfolding consts_forced_def cls bound .
  qed (fact ok)+
qed

lemma ez_reach_ok:
  assumes "ez_reach C A s"
  shows "ez_ok s \<and> cnf_ok C A s"
  using assms
proof induction
  case (reach_init s)
  then have s: "s = ezSAT_empty\<lparr>literals := [''CONST_TRUE'', ''CONST_FALSE''], literalsCache := [''CONST_TRUE'' \<mapsto> CONST_TRUE, ''CONST_FALSE'' \<mapsto> CONST_FALSE]\<rparr>"
    by (simp add: init_run)
  have "ez_ok s" unfolding s by (auto simp: ez_ok_def ezSAT_empty_def split: if_splits)
  moreover have "cnf_ok [] {} s" unfolding s by (intro no_vars_cnf_ok) (simp_all add: ezSAT_empty_def)
  ultimately show ?case by simp
next
  case (reach_literal C A s x s')
  then show ?case using gives_binds [OF literal_new_ok] by (fastforce simp: binds_def)
next
  case (reach_named C A s name x s')
  then show ?case using gives_binds [OF literal_named_ok [of s name]] by (fastforce simp: binds_def)
next
  case (reach_expression C A s args op x s')
  then show ?case using gives_binds [OF expression_ok [OF _ vmeans_sem expression_enough_args]] by (fastforce simp: binds_def)
next
  case (reach_bind C A s x r s')
  then show ?case using ez_bind_ok [of s C A x] by (simp add: binds_def)
next
  case (reach_assume C A s x s')
  then show ?case using ez_assume_ok [of s C A x] by (simp add: assumed_def)
next
  case (reach_consume C A s cs s')
  then have "cnfClauses s = cs @ cnfClauses s'" "literals s' = literals s" "expressions s' = expressions s" "cnfVariableCount s' = cnfVariableCount s"
    "cnfLiteralVariables s' = cnfLiteralVariables s" "cnfExpressionVariables s' = cnfExpressionVariables s"
    "expressionsCache s' = expressionsCache s" "literalsCache s' = literalsCache s" by (auto simp: consumeCnf_def)
  then show ?case using reach_consume.IH cnf_ok_consumed [of C A s cs s'] ez_ok_same [of s' s] by simp
next
  case (reach_clear C A s)
  then show ?case using ez_ok_same [of "ez_clear s" s] by (simp add: no_vars_cnf_ok ez_clear_def)
next
  case (reach_keep C A s)
  then show ?case using cnf_ok_consumed [of C A s "[]" "s\<lparr>flag_keep_cnf := True\<rparr>"] ez_ok_same [of "s\<lparr>flag_keep_cnf := True\<rparr>" s] by simp
next
  case (reach_solve C A s s')
  then show ?case using cnf_ok_consumed [of C A s "[]" s'] ez_ok_same [of s' s] by (auto simp: preSolverCallback_def split: if_splits)
qed
lemmas reach_ez_ok = ez_reach_ok [THEN conjunct1] and reach_cnf_ok = ez_reach_ok [THEN conjunct2]

text \<open>The values of the literals in a model of the clauses.\<close>

definition model_values :: "ezSAT \<Rightarrow> (int \<Rightarrow> bool) \<Rightarrow> int \<Rightarrow> bool" where
  "model_values s \<beta> x = (if x = CONST_TRUE then True else if x = CONST_FALSE then False else \<beta> (ez_bound s x))"

lemma model_values_agrees:
  assumes "consts_forced C s" "models \<beta> (C @ cnfClauses s)"
  shows "agrees s \<beta> (model_values s \<beta>)"
  unfolding agrees_def
proof (intro allI impI)
  fix i assume i: "i < length (cnfLiteralVariables s)" "cnfLiteralVariables s ! i \<noteq> 0"
  then have b: "ez_bound s (int i + 1) = cnfLiteralVariables s ! i" by (simp add: ez_bound_def)
  have "ez_bound s CONST_TRUE \<noteq> 0 \<longrightarrow> \<beta> (ez_bound s CONST_TRUE)" "ez_bound s CONST_FALSE \<noteq> 0 \<longrightarrow> \<not> \<beta> (ez_bound s CONST_FALSE)"
    using assms unfolding consts_forced_def by blast+
  then show "\<beta> (cnfLiteralVariables s ! i) = model_values s \<beta> (int i + 1)" using b i(2) by (cases "i = 0"; cases "i = 1") (simp_all add: model_values_def)
qed

lemma bound_value:
  assumes "cnf_ok C A s" "models \<beta> (C @ cnfClauses s)" "agrees s \<beta> \<rho>" "consts_ok \<rho>" "valid s x" "ez_bound s x \<noteq> 0"
  shows "lit_val \<beta> (ez_bound s x) = sem s \<rho> x"
proof (cases "0 < x")
  case True
  then obtain i where i: "x = int i + 1" "i < length (cnfLiteralVariables s)" using assms(6)
    by (intro that [of "nat (x - 1)"]) (auto simp: ez_bound_def split: if_splits)
  then have b: "ez_bound s x = cnfLiteralVariables s ! i" by (simp add: ez_bound_def)
  have "0 < cnfLiteralVariables s ! i" using cnf_okD(1) [OF assms(1)] nth_mem [OF i(2)] assms(6) b by (fastforce simp: vars_ok_def)
  then show ?thesis using agreesD [OF assms(3) i(2)] True i(1) b by (simp add: lit_val_pos sem_def id_val_def)
next
  case False
  from valid_expr [OF assms(5) False] obtain k where k: "x = - (int k + 1)" "nat (- x - 1) = k" .
  then have len: "k < length (cnfExpressionVariables s)" "ez_bound s x = cnfExpressionVariables s ! k"
    using assms(6) by (auto simp: ez_bound_def split: if_splits)
  then show ?thesis using cnf_okD(4) [OF assms(1) len(1)] assms(2-4,6) k(1) by (simp add: lit_means_def)
qed

text \<open>C13: In every state that the operations of \<open>ezSAT\<close> reach, the clauses handed out together with those
  still kept are satisfiable exactly if the assumed formulas are. A model gives values of the literals that
  make every assumed formula true and give every formula that has a variable the value of the variable.\<close>

theorem ezSAT_equisatisfiable:
  assumes "ez_reach C A s"
  shows "((\<exists>\<beta>. models \<beta> (C @ cnfClauses s)) \<longleftrightarrow> (\<exists>\<rho>. consts_ok \<rho> \<and> (\<forall>a \<in> A. sem s \<rho> a))) \<and>
    (\<forall>\<beta>. models \<beta> (C @ cnfClauses s) \<longrightarrow> consts_ok (model_values s \<beta>) \<and> (\<forall>a \<in> A. sem s (model_values s \<beta>) a) \<and>
       (\<forall>x. valid s x \<longrightarrow> ez_bound s x \<noteq> 0 \<longrightarrow> lit_val \<beta> (ez_bound s x) = sem s (model_values s \<beta>) x))"
proof -
  note ok = reach_cnf_ok [OF assms]
  have c: "consts_ok (model_values s \<beta>)" for \<beta> by (simp add: consts_ok_def model_values_def)
  have agr: "agrees s \<beta> (model_values s \<beta>)" if "models \<beta> (C @ cnfClauses s)" for \<beta> by (rule model_values_agrees [OF cnf_okD(7) [OF ok] that])
  have A: "\<forall>a \<in> A. sem s (model_values s \<beta>) a" if "models \<beta> (C @ cnfClauses s)" for \<beta> by (rule cnf_okD(5) [OF ok that agr [OF that] c])
  then have "(\<exists>\<beta>. models \<beta> (C @ cnfClauses s)) \<longleftrightarrow> (\<exists>\<rho>. consts_ok \<rho> \<and> (\<forall>a \<in> A. sem s \<rho> a))" using c cnf_okD(6) [OF ok] by blast
  then show ?thesis using c A bound_value [OF ok _ agr c] by blast
qed

text \<open>C14: \<open>bind\<close> ends with a variable, or the negation of one, that has the value of the formula in every model
  of the clauses; the formulas that existed keep their values and nothing more is assumed.\<close>

theorem ez_bind_correct:
  assumes "ez_reach C A s" "valid s x"
  shows "\<exists>r s'. ez_bind x s = Inr (r, s') \<and> r \<noteq> 0 \<and> ez_reach C A s' \<and>
    (\<forall>\<beta>. models \<beta> (C @ cnfClauses s') \<longrightarrow> lit_val \<beta> r = sem s' (model_values s' \<beta>) x) \<and>
    (\<forall>y \<rho>. valid s y \<longrightarrow> valid s' y \<and> sem s' \<rho> y = sem s \<rho> y)"
proof -
  obtain r s' where r: "ez_bind x s = Inr (r, s')" "cnf_ok C A s'" "cnf_grows s s'" "lit_means C s' r x"
    using ez_bind_ok [OF reach_ez_ok [OF assms(1)] reach_cnf_ok [OF assms(1)] assms(2)] by (auto simp: binds_def)
  have "consts_ok (model_values s' \<beta>)" for \<beta> by (simp add: consts_ok_def model_values_def)
  then have "lit_val \<beta> r = sem s' (model_values s' \<beta>) x" if "models \<beta> (C @ cnfClauses s')" for \<beta>
    using r(4) that model_values_agrees [OF cnf_okD(7) [OF r(2)] that] by (simp add: lit_means_def)
  moreover have "grows s s'" using r(3) by (simp add: cnf_grows_def)
  moreover have "r \<noteq> 0" using r(4) by (simp add: lit_means_def is_lit_def)
  ultimately show ?thesis using r(1) reach_bind [OF assms r(1)] valid_grows [of s _ s'] sem_grows [of s _ s'] by blast
qed

text \<open>C15: \<open>expression\<close>, with its sorting, its removal of constants and repeated arguments and its table of
  expressions, returns a formula that has the value of the operation on the arguments. The formulas that existed
  keep their values. Asking again for the same expression changes nothing and returns the same formula.\<close>

theorem expression_correct:
  assumes "ez_reach C A s" "\<forall>a \<in> set args. valid s a" "enough_args op (length args)"
  shows "\<exists>x s'. expression op args s = Inr (x, s') \<and> ez_reach C A s' \<and> valid s' x \<and> expression op args s' = Inr (x, s') \<and>
    (\<forall>\<rho>. consts_ok \<rho> \<longrightarrow> sem s' \<rho> x = op_val op (map (sem s \<rho>) args)) \<and>
    (\<forall>y \<rho>. valid s y \<longrightarrow> valid s' y \<and> sem s' \<rho> y = sem s \<rho> y)"
proof -
  obtain x s' where x: "expression op args s = Inr (x, s')" "grows s s'" "means s' x (\<lambda>\<rho>. op_val op (map (sem s \<rho>) args))"
    using expression_ok [OF reach_ez_ok [OF assms(1)] vmeans_sem [OF assms(2)] assms(3)] by (auto simp: gives_def)
  show ?thesis using x reach_expression [OF assms(1,2) x(1)] expression_again [OF x(1)] valid_grows [of s _ s'] sem_grows [of s _ s']
    by (intro exI [of _ x] exI [of _ s']) (auto simp: means_def)
qed

text \<open>C16: \<open>eval\<close> ends. If it answers true or false then the formula has this value under all values of the
  literals that complete the given ones; if all literals are given it does not answer that it does not know.\<close>

theorem ez_eval_sound:
  assumes "ez_reach C A s" "valid s x"
  shows "\<exists>r. ez_eval s vls x = Inr r \<and> r \<in> {0, CONST_TRUE, CONST_FALSE} \<and>
    (\<forall>\<rho>. completes vls \<rho> \<longrightarrow> (r = CONST_TRUE \<longrightarrow> sem s \<rho> x) \<and> (r = CONST_FALSE \<longrightarrow> \<not> sem s \<rho> x)) \<and> (all_known s vls \<longrightarrow> r \<noteq> 0)"
  using ez_eval_fuel_ok [OF reach_ez_ok [OF assms(1)], of "length (expressions s)" x "Suc (length (expressions s))" vls] assms(2)
  unfolding ez_eval_def valid_def tri_def by auto
definition example_formula :: ezSAT where
  "example_formula = ezSAT_empty\<lparr>literals := [''CONST_TRUE'', ''CONST_FALSE'', ''a'', ''b''],
     literalsCache := [''CONST_TRUE'' \<mapsto> 1, ''CONST_FALSE'' \<mapsto> 2, ''a'' \<mapsto> 3, ''b'' \<mapsto> 4],
     expressions := [(OpAnd, [3, 4])], expressionsCache := [(OpAnd, [3, 4]) \<mapsto> -1]\<rparr>"

definition example_assumed :: ezSAT where
  "example_assumed = example_formula\<lparr>cnfVariableCount := 2, cnfClausesCount := 2, cnfLiteralVariables := [0, 0, 1, 2],
     cnfExpressionVariables := [0], cnfClauses := [[1], [2]]\<rparr>"

lemma example_formula_reach: "ez_reach [] {} example_formula"
proof -
  let ?s = "ezSAT_empty\<lparr>literals := [''CONST_TRUE'', ''CONST_FALSE'', ''a'', ''b''],
     literalsCache := [''CONST_TRUE'' \<mapsto> 1, ''CONST_FALSE'' \<mapsto> 2, ''a'' \<mapsto> 3, ''b'' \<mapsto> 4]\<rparr>"
  have "ez_reach [] {} (ezSAT_empty\<lparr>literals := [''CONST_TRUE'', ''CONST_FALSE'', ''a''],
     literalsCache := [''CONST_TRUE'' \<mapsto> 1, ''CONST_FALSE'' \<mapsto> 2, ''a'' \<mapsto> 3]\<rparr>)"
    by (rule reach_named [OF reach_init [OF init_run], of "''a''" 3]) (simp add: literal_named_def ezSAT_empty_def Let_def)
  then have "ez_reach [] {} ?s"
    by (rule reach_named [of _ _ _ "''b''" 4]) (simp add: literal_named_def ezSAT_empty_def Let_def)
  then show ?thesis
    by (rule reach_expression [where args = "[4, 1, 3, 4]" and op = OpAnd and x = "-1"])
      (simp_all add: expression_def normal_args_def drops_arg_def xorRemovedOddTrues_def intern_def andthen_def ret_def example_formula_def
        ezSAT_empty_def Let_def valid_def valid_at_def)
qed

lemma example_assumed_reach: "ez_reach [] {-1} example_assumed"
  by (rule reach_assume [OF example_formula_reach, where x = "-1"])
    (simp_all add: ez_assume_def lookup_expression_def resize_def ez_bind_def depth_of_def depths_def op_depth_def bind_literal_def andthen_def ret_def
      new_variable_def change_def add_clause_def add_clause_lits_def Let_def example_formula_def example_assumed_def ezSAT_empty_def valid_def valid_at_def)

theorem ezSAT_equisatisfiable_witness: "\<exists>\<rho>. consts_ok \<rho> \<and> sem example_assumed \<rho> (-1)"
proof -
  have "models (\<lambda>_. True) ([] @ cnfClauses example_assumed)" by (simp add: example_assumed_def lit_val_def)
  then show ?thesis using ezSAT_equisatisfiable [OF example_assumed_reach] by auto
qed

lemma example_valid: "valid example_formula x \<longleftrightarrow> x = -1 \<or> (0 < x \<and> x \<le> 4)"
  by (auto simp: valid_def valid_at_def example_formula_def)

theorem ez_bind_correct_witness:
  "\<exists>r s'. ez_bind (-1) example_formula = Inr (r, s') \<and> ez_reach [] {} s' \<and>
     (\<forall>\<beta>. models \<beta> (cnfClauses s') \<longrightarrow> lit_val \<beta> r = sem s' (model_values s' \<beta>) (-1))"
proof -
  have "valid example_formula (-1)" by (simp add: example_valid)
  from ez_bind_correct [OF example_formula_reach this] show ?thesis by auto
qed

theorem expression_correct_witness:
  "\<exists>x s'. expression OpXor [3, 4, 1] example_formula = Inr (x, s') \<and> (\<forall>\<rho>. consts_ok \<rho> \<longrightarrow> sem s' \<rho> x = (\<rho> 3 = \<rho> 4))"
proof -
  have "\<forall>a \<in> set [3, 4, 1]. valid example_formula a" "enough_args OpXor (length [3, 4, 1 :: int])" by (simp_all add: example_valid enough_args_def)
  from expression_correct [OF example_formula_reach this] obtain x s' where
    "expression OpXor [3, 4, 1] example_formula = Inr (x, s')" "\<forall>\<rho>. consts_ok \<rho> \<longrightarrow> sem s' \<rho> x = op_val OpXor (map (sem example_formula \<rho>) [3, 4, 1])" by blast
  then show ?thesis by (auto simp: op_val_xor_Cons sem_def id_val_def consts_ok_def)
qed

theorem ez_eval_sound_witness:
  "\<exists>r. ez_eval example_formula [1, 2, 2] (-1) = Inr r \<and> (\<forall>\<rho>. completes [1, 2, 2] \<rho> \<longrightarrow> (r = 2 \<longrightarrow> \<not> sem example_formula \<rho> (-1)))"
proof -
  have "valid example_formula (-1)" by (simp add: example_valid)
  from ez_eval_sound [OF example_formula_reach this, of "[1, 2, 2]"] show ?thesis by blast
qed

text \<open>
  In \<open>keep_cnf\<close> mode handing out the clauses does not change the full list, but \<open>clear\<close> leaves the old
  clauses in it: \<open>cnfClausesBackup\<close> is not cleared.
\<close>

lemma full_cnf_consume: "flag_keep_cnf s \<Longrightarrow> consumeCnf s = Inr (cs, s') \<Longrightarrow> getFullCnf s' = getFullCnf s"
  by (auto simp: consumeCnf_def getFullCnf_def)

lemma full_cnf_clear: "getFullCnf (ez_clear s) = cnfClausesBackup s" "cnfClausesCount (ez_clear s) = 0"
  by (simp_all add: getFullCnf_def ez_clear_def)

end
