(* ===== verification/EzSAT_Vec.thy ===== *)
theory EzSAT_Vec
  imports EzSAT_Cnf
begin

text \<open>
  Vectors of formulas in \<open>ezsat.cc\<close>: bitwise operations, adders, comparisons, shifts and counting,
  least significant bit first. Where the arguments of a call are calls themselves, they are made from
  left to right; C++ leaves the order open, and it changes the numbers of the formulas only. Calls
  with unused arguments pass zeros, which \<open>expression\<close> drops. Reads of variables that were never set
  and of elements outside a vector are the error \<open>OutOfRange\<close>, shifts by 64 or more of 64-bit numbers
  \<open>IntOverflow\<close>.
\<close>

unbundle bit_operations_syntax

section \<open>Operations on vectors\<close>

definition vec_const :: "bool list \<Rightarrow> int list" where
  "vec_const bits = map ez_value bits"

definition vec_const_signed :: "int \<Rightarrow> int \<Rightarrow> int list ez" where
  "vec_const_signed val numBits = (if 64 < numBits then fails IntOverflow else ret (vec_const (int_bits (nat numBits) val)))"

definition vec_const_unsigned :: "int \<Rightarrow> int \<Rightarrow> int list ez" where
  "vec_const_unsigned val numBits = (if 64 < numBits then fails IntOverflow else ret (vec_const (int_bits (nat numBits) val)))"

definition vec_var :: "int \<Rightarrow> int list ez" where
  "vec_var numBits = each (\<lambda>_. literal_new) [0..<nat numBits]"

definition vec_cast :: "int list \<Rightarrow> int \<Rightarrow> bool \<Rightarrow> int list ez" where
  "vec_cast vec1 toBits signExtend =
     (if signExtend \<and> vec1 = [] \<and> 0 < toBits then fails OutOfRange
      else ret (map (\<lambda>i. if length vec1 \<le> i then (if signExtend then last vec1 else CONST_FALSE) else vec1 ! i) [0..<nat toBits]))"

definition vec_not :: "int list \<Rightarrow> int list ez" where
  "vec_not vec1 = each ez_not vec1"

definition vec_and :: "int list \<Rightarrow> int list \<Rightarrow> int list ez" where
  "vec_and vec1 vec2 = check (length vec1 = length vec2) (each (\<lambda>(a, b). ez_and [a, b]) (zip vec1 vec2))"

definition vec_or :: "int list \<Rightarrow> int list \<Rightarrow> int list ez" where
  "vec_or vec1 vec2 = check (length vec1 = length vec2) (each (\<lambda>(a, b). ez_or [a, b]) (zip vec1 vec2))"

definition vec_xor :: "int list \<Rightarrow> int list \<Rightarrow> int list ez" where
  "vec_xor vec1 vec2 = check (length vec1 = length vec2) (each (\<lambda>(a, b). ez_xor [a, b]) (zip vec1 vec2))"

definition vec_iff :: "int list \<Rightarrow> int list \<Rightarrow> int list ez" where
  "vec_iff vec1 vec2 = check (length vec1 = length vec2) (each (\<lambda>(a, b). ez_iff [a, b]) (zip vec1 vec2))"

definition vec_ite_bits :: "int list \<Rightarrow> int list \<Rightarrow> int list \<Rightarrow> int list ez" where
  "vec_ite_bits vec1 vec2 vec3 = check (length vec1 = length vec2 \<and> length vec2 = length vec3)
     (each (\<lambda>(a, b, c). ez_ite a b c) (zip vec1 (zip vec2 vec3)))"

definition vec_ite :: "int \<Rightarrow> int list \<Rightarrow> int list \<Rightarrow> int list ez" where
  "vec_ite sel vec1 vec2 = check (length vec1 = length vec2) (each (\<lambda>(a, b). ez_ite sel a b) (zip vec1 vec2))"

text \<open>The carry and the sum.\<close>

definition fulladder :: "int \<Rightarrow> int \<Rightarrow> int \<Rightarrow> (int \<times> int) ez" where
  "fulladder a b c = andthen (ez_xor [a, b]) (\<lambda>tmp. andthen (ez_xor [tmp, c]) (\<lambda>x.
     andthen (ez_and [a, b]) (\<lambda>ab. andthen (ez_and [c, tmp]) (\<lambda>ct. andthen (ez_or [ab, ct]) (\<lambda>y. ret (y, x))))))"

definition halfadder :: "int \<Rightarrow> int \<Rightarrow> (int \<times> int) ez" where
  "halfadder a b = andthen (ez_xor [a, b]) (\<lambda>x. andthen (ez_and [a, b]) (\<lambda>y. ret (y, x)))"

fun add_loop :: "int list \<Rightarrow> int list \<Rightarrow> int \<Rightarrow> int list ez" where
  "add_loop (a # as) (b # bs) carry = andthen (fulladder a b carry) (\<lambda>(y, x). andthen (add_loop as bs y) (\<lambda>rest. ret (x # rest)))"
| "add_loop _ _ carry = ret []"

definition vec_add :: "int list \<Rightarrow> int list \<Rightarrow> int list ez" where
  "vec_add vec1 vec2 = check (length vec1 = length vec2) (add_loop vec1 vec2 CONST_FALSE)"

fun sub_loop :: "int list \<Rightarrow> int list \<Rightarrow> int \<Rightarrow> int list ez" where
  "sub_loop (a # as) (b # bs) carry = andthen (ez_not b) (\<lambda>nb. andthen (fulladder a nb carry) (\<lambda>(y, x).
     andthen (sub_loop as bs y) (\<lambda>rest. ret (x # rest))))"
| "sub_loop _ _ carry = ret []"

definition vec_sub :: "int list \<Rightarrow> int list \<Rightarrow> int list ez" where
  "vec_sub vec1 vec2 = check (length vec1 = length vec2) (sub_loop vec1 vec2 CONST_TRUE)"

definition vec_neg :: "int list \<Rightarrow> int list ez" where
  "vec_neg vec = vec_sub (replicate (length vec) CONST_FALSE) vec"

definition vec_reduce_and :: "int list \<Rightarrow> int ez" where
  "vec_reduce_and vec1 = expression OpAnd vec1"

definition vec_reduce_or :: "int list \<Rightarrow> int ez" where
  "vec_reduce_or vec1 = expression OpOr vec1"

text \<open>Counting: every bit runs as a carry through the sum.\<close>

fun count_bit :: "int \<Rightarrow> int list \<Rightarrow> (int \<times> int list) ez" where
  "count_bit carry [] = ret (carry, [])"
| "count_bit carry (b # bs) = andthen (halfadder carry b) (\<lambda>(y, x). andthen (count_bit y bs) (\<lambda>(c, rest). ret (c, x # rest)))"

fun count_loop :: "int list \<Rightarrow> int list \<Rightarrow> (int list \<times> int list) ez" where
  "count_loop [] acc = ret ([], acc)"
| "count_loop (v # vs) acc = andthen (count_bit v acc) (\<lambda>(c, acc'). andthen (count_loop vs acc') (\<lambda>(cs, acc''). ret (c # cs, acc'')))"

definition vec_count :: "int list \<Rightarrow> int \<Rightarrow> bool \<Rightarrow> int list ez" where
  "vec_count vec numBits clip = andthen (vec_const_unsigned 0 numBits) (\<lambda>zero. andthen (count_loop vec zero) (\<lambda>(carry_vector, acc).
     if clip then andthen (vec_reduce_or carry_vector) (\<lambda>overflow. andthen (vec_const_unsigned (2 ^ 64 - 1) numBits) (\<lambda>ones.
       vec_ite overflow ones acc)) else ret acc))"

text \<open>The loop of \<open>vec_cmp\<close> on carry, overflow, sign and zero.\<close>

fun cmp_loop :: "int list \<Rightarrow> int list \<Rightarrow> int \<times> int \<times> int \<times> int \<Rightarrow> (int \<times> int \<times> int \<times> int) ez" where
  "cmp_loop (a # as) (b # bs) (carry, overflow, sign, zero) = andthen (ez_not b) (\<lambda>nb. andthen (fulladder a nb carry) (\<lambda>(y, x).
     andthen (ez_or [zero, x]) (\<lambda>zero'. cmp_loop as bs (y, carry, x, zero'))))"
| "cmp_loop _ _ acc = ret acc"

definition vec_cmp :: "int list \<Rightarrow> int list \<Rightarrow> (int \<times> int \<times> int \<times> int) ez" where
  "vec_cmp vec1 vec2 = check (length vec1 = length vec2) (if vec1 = [] then fails OutOfRange else
     andthen (cmp_loop vec1 vec2 (CONST_TRUE, 0, 0, CONST_FALSE)) (\<lambda>(carry, overflow, sign, zero).
     andthen (ez_xor [overflow, carry]) (\<lambda>overflow. andthen (ez_not carry) (\<lambda>carry. andthen (ez_not zero) (\<lambda>zero.
     ret (carry, overflow, sign, zero))))))"

text \<open>The two halves of the signed comparisons: the arguments of their disjunction.\<close>

definition differ :: "int \<Rightarrow> int \<Rightarrow> (int \<times> int) ez" where
  "differ overflow sign = andthen (ez_not overflow) (\<lambda>no. andthen (ez_and [no, sign]) (\<lambda>p.
     andthen (ez_not sign) (\<lambda>ns. andthen (ez_and [overflow, ns]) (\<lambda>q. ret (p, q)))))"

definition agree :: "int \<Rightarrow> int \<Rightarrow> (int \<times> int) ez" where
  "agree overflow sign = andthen (ez_not overflow) (\<lambda>no. andthen (ez_not sign) (\<lambda>ns. andthen (ez_and [no, ns]) (\<lambda>p.
     andthen (ez_and [overflow, sign]) (\<lambda>q. ret (p, q)))))"

definition vec_lt_signed :: "int list \<Rightarrow> int list \<Rightarrow> int ez" where
  "vec_lt_signed vec1 vec2 = andthen (vec_cmp vec1 vec2) (\<lambda>(carry, overflow, sign, zero).
     andthen (differ overflow sign) (\<lambda>(p, q). ez_or [p, q]))"

definition vec_le_signed :: "int list \<Rightarrow> int list \<Rightarrow> int ez" where
  "vec_le_signed vec1 vec2 = andthen (vec_cmp vec1 vec2) (\<lambda>(carry, overflow, sign, zero).
     andthen (differ overflow sign) (\<lambda>(p, q). ez_or [p, q, zero]))"

definition vec_ge_signed :: "int list \<Rightarrow> int list \<Rightarrow> int ez" where
  "vec_ge_signed vec1 vec2 = andthen (vec_cmp vec1 vec2) (\<lambda>(carry, overflow, sign, zero).
     andthen (agree overflow sign) (\<lambda>(p, q). ez_or [p, q]))"

definition vec_gt_signed :: "int list \<Rightarrow> int list \<Rightarrow> int ez" where
  "vec_gt_signed vec1 vec2 = andthen (vec_cmp vec1 vec2) (\<lambda>(carry, overflow, sign, zero).
     andthen (agree overflow sign) (\<lambda>(p, q). andthen (ez_or [p, q]) (\<lambda>r. andthen (ez_not zero) (\<lambda>nz. ez_and [r, nz]))))"

definition vec_lt_unsigned :: "int list \<Rightarrow> int list \<Rightarrow> int ez" where
  "vec_lt_unsigned vec1 vec2 = andthen (vec_cmp vec1 vec2) (\<lambda>(carry, overflow, sign, zero). ret carry)"

definition vec_le_unsigned :: "int list \<Rightarrow> int list \<Rightarrow> int ez" where
  "vec_le_unsigned vec1 vec2 = andthen (vec_cmp vec1 vec2) (\<lambda>(carry, overflow, sign, zero). ez_or [carry, zero])"

definition vec_ge_unsigned :: "int list \<Rightarrow> int list \<Rightarrow> int ez" where
  "vec_ge_unsigned vec1 vec2 = andthen (vec_cmp vec1 vec2) (\<lambda>(carry, overflow, sign, zero). ez_not carry)"

definition vec_gt_unsigned :: "int list \<Rightarrow> int list \<Rightarrow> int ez" where
  "vec_gt_unsigned vec1 vec2 = andthen (vec_cmp vec1 vec2) (\<lambda>(carry, overflow, sign, zero).
     andthen (ez_not carry) (\<lambda>nc. andthen (ez_not zero) (\<lambda>nz. ez_and [nc, nz])))"

definition vec_eq :: "int list \<Rightarrow> int list \<Rightarrow> int ez" where
  "vec_eq vec1 vec2 = andthen (vec_iff vec1 vec2) vec_reduce_and"

definition vec_ne :: "int list \<Rightarrow> int list \<Rightarrow> int ez" where
  "vec_ne vec1 vec2 = andthen (vec_iff vec1 vec2) (\<lambda>vec. andthen (vec_reduce_and vec) ez_not)"

definition vec_shl :: "int list \<Rightarrow> int \<Rightarrow> bool \<Rightarrow> int list" where
  "vec_shl vec1 shift signExtend = map (\<lambda>i. let j = int i - shift in
     if int (length vec1) \<le> j then (if signExtend then last vec1 else CONST_FALSE) else if 0 \<le> j then vec1 ! nat j else CONST_FALSE) [0..<length vec1]"

text \<open>The loops of \<open>vec_srl\<close> bring the index into the vector, which is division with remainder.\<close>

definition vec_srl :: "int list \<Rightarrow> int \<Rightarrow> int list" where
  "vec_srl vec1 shift = map (\<lambda>i. vec1 ! nat ((int i - shift) mod int (length vec1))) [0..<length vec1]"

definition vec_shift :: "int list \<Rightarrow> int \<Rightarrow> int \<Rightarrow> int \<Rightarrow> int list" where
  "vec_shift vec1 shift extend_left extend_right = map (\<lambda>i. let j = int i + shift in
     if j < 0 then extend_right else if int (length vec1) \<le> j then extend_left else vec1 ! nat j) [0..<length vec1]"

function clog2_loop :: "int \<Rightarrow> int \<Rightarrow> int" where
  "clog2_loop x res = (if 0 < x then clog2_loop (x div 2) (res + 1) else res)"
  by pat_completeness auto

termination by (relation "measure (\<lambda>(x, _). nat x)") auto

declare clog2_loop.simps [simp del]

definition my_clog2 :: "int \<Rightarrow> int" where
  "my_clog2 x = clog2_loop (x - 1) 0"

definition shift_step :: "int \<Rightarrow> int \<Rightarrow> int \<times> int \<Rightarrow> int list \<Rightarrow> int list ez" where
  "shift_step extend_left extend_right = (\<lambda>(sel, shift) buffer. vec_ite sel (vec_shift buffer shift extend_left extend_right) buffer)"

definition vec_shift_right :: "int list \<Rightarrow> int list \<Rightarrow> bool \<Rightarrow> int \<Rightarrow> int \<Rightarrow> int list ez" where
  "vec_shift_right vec1 vec2 vec2_signed extend_left extend_right =
     (let vec2_bits = nat (min (my_clog2 (int (length vec1)) + of_bool vec2_signed) (int (length vec2)));
          overflow_bits = drop vec2_bits vec2
      in if vec2_signed \<and> vec2 = [] then fails OutOfRange else
         andthen (if vec2_signed
           then andthen (loop (\<lambda>bit overflow. andthen (ez_xor [bit, vec2 ! (vec2_bits - 1)]) (\<lambda>x. ez_or [overflow, x])) overflow_bits CONST_FALSE) (\<lambda>overflow.
             andthen (ez_not (last vec2)) (\<lambda>nl. andthen (ez_and [overflow, nl]) (\<lambda>l. andthen (ez_and [overflow, last vec2]) (\<lambda>r. ret (l, r)))))
           else andthen (vec_reduce_or overflow_bits) (\<lambda>l. ret (l, CONST_FALSE))) (\<lambda>(overflow_left, overflow_right).
         let buffer = vec1 @ replicate (if vec2_signed then 2 ^ vec2_bits else 0) extend_left;
             overflow_pattern_left = replicate (length buffer) extend_left
         in andthen (vec_ite overflow_left overflow_pattern_left buffer) (\<lambda>buffer.
            andthen (if vec2_signed then vec_ite overflow_right overflow_pattern_left buffer else ret buffer) (\<lambda>buffer.
            andthen (loop (shift_step extend_left extend_right)
              (map (\<lambda>i. (vec2 ! i, if vec2_signed \<and> i = vec2_bits - 1 then - (2 ^ i) else 2 ^ i)) (rev [0..<vec2_bits])) buffer) (\<lambda>buffer.
            ret (resize (length vec1) buffer))))))"

definition vec_shift_left :: "int list \<Rightarrow> int list \<Rightarrow> bool \<Rightarrow> int \<Rightarrow> int \<Rightarrow> int list ez" where
  "vec_shift_left vec1 vec2 vec2_signed extend_left extend_right = check (\<not> vec2_signed)
     (let vec2_bits = nat (min (my_clog2 (int (length vec1))) (int (length vec2)));
          overflow_bits = drop vec2_bits vec2
      in andthen (vec_reduce_or overflow_bits) (\<lambda>overflow.
         andthen (vec_ite overflow (replicate (length vec1) extend_right) vec1) (\<lambda>buffer.
         andthen (loop (shift_step extend_left extend_right) (map (\<lambda>i. (vec2 ! i, - (2 ^ i))) [0..<vec2_bits]) buffer) (\<lambda>buffer.
         ret (resize (length vec1) buffer)))))"

definition vec_append_signed :: "int list \<Rightarrow> int list \<Rightarrow> int \<Rightarrow> int list ez" where
  "vec_append_signed vec vec1 val = check (length vec1 \<le> 64)
     (andthen (each (\<lambda>(x, b). if b then ret x else ez_not x) (zip vec1 (int_bits (length vec1) val))) (\<lambda>more. ret (vec @ more)))"

definition vec_append_unsigned :: "int list \<Rightarrow> int list \<Rightarrow> int \<Rightarrow> int list ez" where
  "vec_append_unsigned vec vec1 val = check (length vec1 \<le> 64)
     (andthen (each (\<lambda>(x, b). if b then ret x else ez_not x) (zip vec1 (int_bits (length vec1) val))) (\<lambda>more. ret (vec @ more)))"

text \<open>The last value given for a formula counts.\<close>

definition modelMap :: "int list \<Rightarrow> bool list \<Rightarrow> int \<Rightarrow> bool result" where
  "modelMap modelExpressions modelValues x =
     (case map_of (rev (zip modelExpressions modelValues)) x of Some b \<Rightarrow> Inr b | None \<Rightarrow> Inl OutOfRange)"

fun get_loop :: "(int \<Rightarrow> bool result) \<Rightarrow> int list \<Rightarrow> nat \<Rightarrow> int \<Rightarrow> int result" where
  "get_loop m [] i val = Inr val"
| "get_loop m (x # xs) i val = rbind (m x) (\<lambda>b.
     if b then (if 64 \<le> i then Inl IntOverflow else get_loop m xs (Suc i) (val OR 2 ^ i)) else get_loop m xs (Suc i) val)"

definition vec_model_get_unsigned :: "int list \<Rightarrow> bool list \<Rightarrow> int list \<Rightarrow> int result" where
  "vec_model_get_unsigned modelExpressions modelValues vec1 =
     (if length modelExpressions \<noteq> length modelValues then Inl AssertFail
      else get_loop (modelMap modelExpressions modelValues) vec1 0 0)"

text \<open>The vector is continued with its last element; the 64 bits are read as an \<open>int64_t\<close>.\<close>

definition vec_model_get_signed :: "int list \<Rightarrow> bool list \<Rightarrow> int list \<Rightarrow> int result" where
  "vec_model_get_signed modelExpressions modelValues vec1 =
     (if length modelExpressions \<noteq> length modelValues then Inl AssertFail
      else if vec1 = [] then Inl OutOfRange
      else rmap (\<lambda>val. if 2 ^ 63 \<le> val then val - 2 ^ 64 else val)
        (get_loop (modelMap modelExpressions modelValues) (map (\<lambda>i. vec1 ! (if i < length vec1 then i else length vec1 - 1)) [0..<64]) 0 0))"

definition vec_set :: "int list \<Rightarrow> int list \<Rightarrow> unit ez" where
  "vec_set vec1 vec2 = check (length vec1 = length vec2) (andthen (each (\<lambda>(a, b). ez_set a b) (zip vec1 vec2)) (\<lambda>_. ret ()))"

definition vec_set_signed :: "int list \<Rightarrow> int \<Rightarrow> unit ez" where
  "vec_set_signed vec1 val = check (length vec1 \<le> 64)
     (andthen (each (\<lambda>(x, b). if b then ez_assume x else andthen (ez_not x) ez_assume) (zip vec1 (int_bits (length vec1) val))) (\<lambda>_. ret ()))"

definition vec_set_unsigned :: "int list \<Rightarrow> int \<Rightarrow> unit ez" where
  "vec_set_unsigned vec1 val = check (length vec1 \<le> 64)
     (andthen (each (\<lambda>(x, b). if b then ez_assume x else andthen (ez_not x) ez_assume) (zip vec1 (int_bits (length vec1) val))) (\<lambda>_. ret ()))"
section \<open>Single formulas\<close>

named_theorems builds

lemmas [builds] = ez_not_ok gives_ret

lemma expression_list_ok: "ez_ok s \<Longrightarrow> vmeans s xs F \<Longrightarrow> op \<in> {OpAnd, OpOr} \<Longrightarrow> gives s (expression op xs) (\<lambda>r s'. means s' r (\<lambda>\<rho>. op_val op (F \<rho>)))"
  by (rule expression_ok) (auto simp: enough_args_def)

lemma reduce_ok [builds]:
  "ez_ok s \<Longrightarrow> vmeans s xs F \<Longrightarrow> gives s (vec_reduce_and xs) (\<lambda>r s'. means s' r (\<lambda>\<rho>. \<forall>b \<in> set (F \<rho>). b))"
  "ez_ok s \<Longrightarrow> vmeans s xs F \<Longrightarrow> gives s (vec_reduce_or xs) (\<lambda>r s'. means s' r (\<lambda>\<rho>. \<exists>b \<in> set (F \<rho>). b))"
  using expression_list_ok [of s xs F OpAnd] expression_list_ok [of s xs F OpOr]
  by (simp_all add: vec_reduce_and_def vec_reduce_or_def op_val_and_or)

lemma binary_ok [builds]:
  assumes "ez_ok s" "means s x f" "means s y g"
  shows "gives s (ez_and [x, y]) (\<lambda>r s'. means s' r (\<lambda>\<rho>. f \<rho> \<and> g \<rho>))" "gives s (ez_or [x, y]) (\<lambda>r s'. means s' r (\<lambda>\<rho>. f \<rho> \<or> g \<rho>))"
    "gives s (ez_xor [x, y]) (\<lambda>r s'. means s' r (\<lambda>\<rho>. f \<rho> \<noteq> g \<rho>))" "gives s (ez_iff [x, y]) (\<lambda>r s'. means s' r (\<lambda>\<rho>. f \<rho> = g \<rho>))"
proof -
  have "gives s (expression op [x, y]) (\<lambda>r s'. means s' r (\<lambda>\<rho>. op_val op [f \<rho>, g \<rho>]))" if "op \<in> {OpAnd, OpOr, OpXor, OpIFF}" for op
    using that assms by (intro expression_ok) (auto simp: enough_args_def)
  note this [of OpAnd] this [of OpOr] this [of OpXor] this [of OpIFF]
  moreover have "op_val OpIFF [a, b] = (a = b)" for a b by (auto simp: op_val_iff)
  ultimately show "gives s (ez_and [x, y]) (\<lambda>r s'. means s' r (\<lambda>\<rho>. f \<rho> \<and> g \<rho>))" "gives s (ez_or [x, y]) (\<lambda>r s'. means s' r (\<lambda>\<rho>. f \<rho> \<or> g \<rho>))"
    "gives s (ez_xor [x, y]) (\<lambda>r s'. means s' r (\<lambda>\<rho>. f \<rho> \<noteq> g \<rho>))" "gives s (ez_iff [x, y]) (\<lambda>r s'. means s' r (\<lambda>\<rho>. f \<rho> = g \<rho>))"
    by (simp_all add: ez_and_def ez_or_def ez_xor_def ez_iff_def op_val_and_or(1,2) op_val_xor_Cons)
qed

lemma or3_ok [builds]:
  assumes "ez_ok s" "means s x f" "means s y g" "means s z h"
  shows "gives s (ez_or [x, y, z]) (\<lambda>r s'. means s' r (\<lambda>\<rho>. f \<rho> \<or> g \<rho> \<or> h \<rho>))"
  using expression_list_ok [of s "[x, y, z]" "\<lambda>\<rho>. [f \<rho>, g \<rho>, h \<rho>]" OpOr] assms by (simp add: ez_or_def op_val_and_or)

lemma gives_means_cong: "gives s m (\<lambda>r s'. means s' r f) \<Longrightarrow> (\<And>\<rho>. consts_ok \<rho> \<Longrightarrow> f \<rho> = g \<rho>) \<Longrightarrow> gives s m (\<lambda>r s'. means s' r g)"
  by (erule gives_mono) (auto elim: means_cong)

lemma ite_ok [builds]:
  assumes "ez_ok s" "means s x f" "means s y g" "means s z h"
  shows "gives s (ez_ite x y z) (\<lambda>r s'. means s' r (\<lambda>\<rho>. if f \<rho> then g \<rho> else h \<rho>))"
proof -
  have "gives s (expression OpITE [x, y, z]) (\<lambda>r s'. means s' r (\<lambda>\<rho>. op_val OpITE [f \<rho>, g \<rho>, h \<rho>]))"
    using assms by (intro expression_ok) (auto simp: enough_args_def)
  then show ?thesis unfolding ez_ite_def by (rule gives_means_cong) (simp add: op_val_def)
qed

text \<open>A step at a time; what the formulas mean is kept while the tables grow.\<close>

definition carry_bit :: "bool \<Rightarrow> bool \<Rightarrow> bool \<Rightarrow> bool" where
  "carry_bit a b c \<longleftrightarrow> (a \<and> b) \<or> (c \<and> a \<noteq> b)"

lemma fulladder_ok:
  assumes "ez_ok s" "means s a f" "means s b g" "means s c h"
  shows "gives s (fulladder a b c) (\<lambda>r s'. means s' (fst r) (\<lambda>\<rho>. carry_bit (f \<rho>) (g \<rho>) (h \<rho>)) \<and> means s' (snd r) (\<lambda>\<rho>. (f \<rho> \<noteq> g \<rho>) \<noteq> h \<rho>))"
  unfolding fulladder_def carry_bit_def using assms
  by - ((rule gives_andthen, (rule builds; assumption), (drule (1) means_grows)+)+, rule gives_ret, simp_all)

lemma halfadder_ok:
  assumes "ez_ok s" "means s a f" "means s b g"
  shows "gives s (halfadder a b) (\<lambda>r s'. means s' (fst r) (\<lambda>\<rho>. f \<rho> \<and> g \<rho>) \<and> means s' (snd r) (\<lambda>\<rho>. f \<rho> \<noteq> g \<rho>))"
  unfolding halfadder_def using assms
  by - ((rule gives_andthen, (rule builds; assumption), (drule (1) means_grows)+)+, rule gives_ret, simp_all)
section \<open>Bitwise operations\<close>

lemma vmeans_means: "vmeans s (x # xs) F \<Longrightarrow> means s x (\<lambda>\<rho>. hd (F \<rho>))"
  unfolding vmeans_def means_def by (metis list.map_sel(1) list.sel(1) list.set_intros(1) list.simps(3))

lemma vmeans_tl: "vmeans s (x # xs) F \<Longrightarrow> vmeans s xs (\<lambda>\<rho>. tl (F \<rho>))"
  unfolding vmeans_def by (metis list.sel(3) list.set_intros(2) list.simps(9))

lemma vmeans_ConsI:
  assumes "means s x f" "vmeans s xs F" "\<And>\<rho>. consts_ok \<rho> \<Longrightarrow> G \<rho> = f \<rho> # F \<rho>"
  shows "vmeans s (x # xs) G"
  using assms by (simp add: means_def vmeans_def)

lemma vmeans_hd_tl: "vmeans s (x # xs) F \<Longrightarrow> consts_ok \<rho> \<Longrightarrow> F \<rho> = hd (F \<rho>) # tl (F \<rho>)"
  unfolding vmeans_def by (metis list.collapse list.simps(9) list.distinct(1))

lemma vmeans_not_Nil: "vmeans s (x # xs) F \<Longrightarrow> consts_ok \<rho> \<Longrightarrow> F \<rho> \<noteq> []"
  unfolding vmeans_def by force

lemma vmeans_cong: "vmeans s xs F \<Longrightarrow> (\<And>\<rho>. consts_ok \<rho> \<Longrightarrow> F \<rho> = G \<rho>) \<Longrightarrow> vmeans s xs G"
  by (simp add: vmeans_def)

lemma vmeans_nil: "vmeans s [] F \<longleftrightarrow> (\<forall>\<rho>. consts_ok \<rho> \<longrightarrow> F \<rho> = [])"
  by (auto simp: vmeans_def)

lemma gives_vmeans_cong: "gives s m (\<lambda>r s'. vmeans s' r F) \<Longrightarrow> (\<And>\<rho>. consts_ok \<rho> \<Longrightarrow> F \<rho> = G \<rho>) \<Longrightarrow> gives s m (\<lambda>r s'. vmeans s' r G)"
  by (erule gives_mono) (auto elim: vmeans_cong)

text \<open>One operation per element.\<close>

lemma gives_Cons:
  assumes "gives s m (\<lambda>r s'. vmeans s' r G)" "means s x g" "\<And>\<rho>. consts_ok \<rho> \<Longrightarrow> H \<rho> = g \<rho> # G \<rho>"
  shows "gives s (andthen m (\<lambda>ys. ret (x # ys))) (\<lambda>r s'. vmeans s' r H)"
proof (rule gives_andthen [OF assms(1)], rule gives_ret, assumption)
  fix rs s2 assume "vmeans s2 rs G" "grows s s2"
  then show "vmeans s2 (x # rs) H" using means_grows [OF assms(2)] assms(3) by (intro vmeans_ConsI) auto
qed

lemma each_cons_ok:
  assumes "gives s (f x) (\<lambda>r s'. means s' r g)" "\<And>s'. ez_ok s' \<Longrightarrow> grows s s' \<Longrightarrow> gives s' (each f xs) (\<lambda>r s'. vmeans s' r G)"
    "\<And>\<rho>. consts_ok \<rho> \<Longrightarrow> H \<rho> = g \<rho> # G \<rho>"
  shows "gives s (each f (x # xs)) (\<lambda>r s'. vmeans s' r H)"
  unfolding each.simps by (rule gives_andthen [OF assms(1)]) (rule gives_Cons [OF assms(2) _ assms(3)])

lemma vec_not_ok [builds]:
  assumes "ez_ok s" "vmeans s xs F"
  shows "gives s (vec_not xs) (\<lambda>r s'. vmeans s' r (\<lambda>\<rho>. map Not (F \<rho>)))"
  unfolding vec_not_def using assms
proof (induction xs arbitrary: s F)
  case (Cons x xs)
  have "map Not (F \<rho>) = (\<not> hd (F \<rho>)) # map Not (tl (F \<rho>))" if "consts_ok \<rho>" for \<rho>
    using vmeans_hd_tl [OF Cons.prems(2) that] by (metis list.simps(9))
  moreover have "gives s' (each ez_not xs) (\<lambda>r s'. vmeans s' r (\<lambda>\<rho>. map Not (tl (F \<rho>))))" if "ez_ok s'" "grows s s'" for s'
    by (rule Cons.IH [OF that(1) vmeans_grows [OF vmeans_tl [OF Cons.prems(2)] that(2)]])
  ultimately show ?case by (intro each_cons_ok [where f = ez_not, OF ez_not_ok [OF Cons.prems(1) vmeans_means [OF Cons.prems(2)]]]) simp_all
qed (auto simp: vmeans_nil)

lemma zip_ok:
  assumes op: "\<And>s x y f g. P s \<Longrightarrow> ez_ok s \<Longrightarrow> means s x f \<Longrightarrow> means s y g \<Longrightarrow> gives s (op x y) (\<lambda>r s'. means s' r (\<lambda>\<rho>. h \<rho> (f \<rho>) (g \<rho>)))"
    and P: "\<And>s s'. P s \<Longrightarrow> grows s s' \<Longrightarrow> P s'"
    and "ez_ok s" "P s" "vmeans s xs F" "vmeans s ys G" "length xs = length ys"
  shows "gives s (each (\<lambda>(a, b). op a b) (zip xs ys)) (\<lambda>r s'. vmeans s' r (\<lambda>\<rho>. map2 (h \<rho>) (F \<rho>) (G \<rho>)))"
  using assms(3-)
proof (induction xs arbitrary: s F G ys)
  case (Cons x xs)
  then obtain y ys' where ys: "ys = y # ys'" by (cases ys) auto
  note vm = Cons.prems(3) Cons.prems(4) [unfolded ys]
  have "map2 (h \<rho>) (F \<rho>) (G \<rho>) = h \<rho> (hd (F \<rho>)) (hd (G \<rho>)) # map2 (h \<rho>) (tl (F \<rho>)) (tl (G \<rho>))" if "consts_ok \<rho>" for \<rho>
    using vmeans_hd_tl [OF vm(1) that] vmeans_hd_tl [OF vm(2) that] by (metis list.simps(9) zip_Cons_Cons case_prod_conv)
  moreover have "gives s (op x y) (\<lambda>r s'. means s' r (\<lambda>\<rho>. h \<rho> (hd (F \<rho>)) (hd (G \<rho>))))"
    using op [OF Cons.prems(2,1) vmeans_means [OF vm(1)] vmeans_means [OF vm(2)]] .
  moreover have "gives s' (each (\<lambda>(a, b). op a b) (zip xs ys')) (\<lambda>r s'. vmeans s' r (\<lambda>\<rho>. map2 (h \<rho>) (tl (F \<rho>)) (tl (G \<rho>))))"
    if "ez_ok s'" "grows s s'" for s'
    using Cons.prems(5) ys by (intro Cons.IH [OF that(1) P [OF Cons.prems(2) that(2)]] vmeans_grows [OF vmeans_tl [OF vm(1)] that(2)]
        vmeans_grows [OF vmeans_tl [OF vm(2)] that(2)]) simp
  ultimately show ?case unfolding ys zip_Cons_Cons by (intro each_cons_ok) simp_all
qed (auto simp: vmeans_nil)

text \<open>The interface of an operation on two formulas that computes \<open>h\<close>; applied element by element it computes \<open>map2 h\<close>.\<close>

locale bit_op =
  fixes op :: "int \<Rightarrow> int \<Rightarrow> int ez" and h :: "bool \<Rightarrow> bool \<Rightarrow> bool"
  assumes op_ok: "ez_ok s \<Longrightarrow> means s x f \<Longrightarrow> means s y g \<Longrightarrow> gives s (op x y) (\<lambda>r s'. means s' r (\<lambda>\<rho>. h (f \<rho>) (g \<rho>)))"
begin

lemma vector_ok:
  assumes "ez_ok s" "vmeans s xs F" "vmeans s ys G" "length xs = length ys"
  shows "gives s (check (length xs = length ys) (each (\<lambda>(a, b). op a b) (zip xs ys))) (\<lambda>r s'. vmeans s' r (\<lambda>\<rho>. map2 h (F \<rho>) (G \<rho>)))"
  by (rule gives_check [OF assms(4)], rule zip_ok [where P = "\<lambda>_. True" and h = "\<lambda>_. h"]) (use assms op_ok in simp_all)

end

interpretation and_op: bit_op "\<lambda>a b. ez_and [a, b]" "(\<and>)"
  by unfold_locales (rule binary_ok)

interpretation or_op: bit_op "\<lambda>a b. ez_or [a, b]" "(\<or>)"
  by unfold_locales (rule binary_ok)

interpretation xor_op: bit_op "\<lambda>a b. ez_xor [a, b]" "(\<noteq>)"
  by unfold_locales (rule binary_ok)

interpretation iff_op: bit_op "\<lambda>a b. ez_iff [a, b]" "(=)"
  by unfold_locales (rule binary_ok)

lemma vec_binary_ok [builds]:
  assumes "ez_ok s" "vmeans s xs F" "vmeans s ys G" "length xs = length ys"
  shows "gives s (vec_and xs ys) (\<lambda>r s'. vmeans s' r (\<lambda>\<rho>. map2 (\<and>) (F \<rho>) (G \<rho>)))"
    "gives s (vec_or xs ys) (\<lambda>r s'. vmeans s' r (\<lambda>\<rho>. map2 (\<or>) (F \<rho>) (G \<rho>)))"
    "gives s (vec_xor xs ys) (\<lambda>r s'. vmeans s' r (\<lambda>\<rho>. map2 (\<noteq>) (F \<rho>) (G \<rho>)))"
    "gives s (vec_iff xs ys) (\<lambda>r s'. vmeans s' r (\<lambda>\<rho>. map2 (=) (F \<rho>) (G \<rho>)))"
  unfolding vec_and_def vec_or_def vec_xor_def vec_iff_def
  by (rule and_op.vector_ok [OF assms] or_op.vector_ok [OF assms] xor_op.vector_ok [OF assms] iff_op.vector_ok [OF assms])+

lemma vec_ite_ok [builds]:
  assumes "ez_ok s" "means s x f" "vmeans s xs F" "vmeans s ys G" "length xs = length ys"
  shows "gives s (vec_ite x xs ys) (\<lambda>r s'. vmeans s' r (\<lambda>\<rho>. if f \<rho> then F \<rho> else G \<rho>))"
proof -
  have "gives s (vec_ite x xs ys) (\<lambda>r s'. vmeans s' r (\<lambda>\<rho>. map2 (\<lambda>b c. if f \<rho> then b else c) (F \<rho>) (G \<rho>)))"
    unfolding vec_ite_def by (rule gives_check [OF assms(5)], rule zip_ok [where P = "\<lambda>s. means s x f", OF ite_ok means_grows assms(1-5)]) simp_all
  moreover have "map2 (\<lambda>b c. if f \<rho> then b else c) (F \<rho>) (G \<rho>) = (if f \<rho> then F \<rho> else G \<rho>)" if "consts_ok \<rho>" for \<rho>
    using vmeans_length [OF assms(3) that] vmeans_length [OF assms(4) that] assms(5) by (simp add: list_eq_iff_nth_eq)
  ultimately show ?thesis by (rule gives_vmeans_cong)
qed
section \<open>Adders\<close>

text \<open>Addition of lists of truth values, the carry that leaves it, and their values.\<close>

fun add_bits :: "bool \<Rightarrow> bool list \<Rightarrow> bool list \<Rightarrow> bool list" where
  "add_bits c (a # as) (b # bs) = ((a \<noteq> b) \<noteq> c) # add_bits (carry_bit a b c) as bs"
| "add_bits c _ _ = []"

fun carry_out :: "bool \<Rightarrow> bool list \<Rightarrow> bool list \<Rightarrow> bool" where
  "carry_out c (a # as) (b # bs) = carry_out (carry_bit a b c) as bs"
| "carry_out c _ _ = c"

lemma length_add_bits [simp]: "length (add_bits c as bs) = min (length as) (length bs)"
  by (induction c as bs rule: add_bits.induct) auto

lemma add_bits_value:
  "length as = length bs \<Longrightarrow> uval (add_bits c as bs) + 2 ^ length as * of_bool (carry_out c as bs) = uval as + uval bs + of_bool c"
proof (induction c as bs rule: add_bits.induct)
  case (1 c a as b bs)
  then have "uval (add_bits (carry_bit a b c) as bs) + 2 ^ length as * of_bool (carry_out (carry_bit a b c) as bs) = uval as + uval bs + of_bool (carry_bit a b c)"
    by simp
  then show ?case by (cases a; cases b; cases c) (simp_all add: carry_bit_def algebra_simps)
qed auto

lemma add_bits_mod:
  assumes "length as = length bs"
  shows "uval (add_bits c as bs) = (uval as + uval bs + of_bool c) mod 2 ^ length as"
proof -
  have "(uval as + uval bs + of_bool c) mod 2 ^ length as = uval (add_bits c as bs) mod 2 ^ length as"
    unfolding add_bits_value [OF assms, symmetric] by simp
  then show ?thesis using uval_less [of "add_bits c as bs"] assms by simp
qed

lemma uval_complement: "uval (map Not bs) = 2 ^ length bs - 1 - uval bs"
  by (induction bs) (simp_all add: algebra_simps)

lemma sub_bits_mod:
  assumes "length as = length bs"
  shows "uval (add_bits True as (map Not bs)) = (uval as - uval bs) mod 2 ^ length as"
proof -
  have "uval as + uval (map Not bs) + of_bool True = uval as - uval bs + 2 ^ length as" using assms by (simp add: uval_complement)
  then show ?thesis using add_bits_mod [of as "map Not bs" True] assms by (simp only: length_map mod_add_self2)
qed

lemma sub_bits_carry:
  assumes "length as = length bs"
  shows "carry_out True as (map Not bs) \<longleftrightarrow> uval bs \<le> uval as"
proof -
  have "uval (add_bits True as (map Not bs)) + 2 ^ length as * of_bool (carry_out True as (map Not bs)) = uval as - uval bs + 2 ^ length as"
    using add_bits_value [of as "map Not bs" True] assms by (simp add: uval_complement)
  then show ?thesis using uval_less [of "add_bits True as (map Not bs)"] uval_nonneg [of "add_bits True as (map Not bs)"] assms
    by (cases "carry_out True as (map Not bs)") simp_all
qed

text \<open>One stage of an adder, where \<open>k\<close> adds the rest with the carry.\<close>

lemma adder_stage_ok:
  assumes "ez_ok s" "vmeans s (a # as) F" "means s b g" "means s c h"
    "\<And>s' y. ez_ok s' \<Longrightarrow> grows s s' \<Longrightarrow> means s' y (\<lambda>\<rho>. carry_bit (hd (F \<rho>)) (g \<rho>) (h \<rho>)) \<Longrightarrow>
      gives s' (k y) (\<lambda>r s''. vmeans s'' r (\<lambda>\<rho>. add_bits (carry_bit (hd (F \<rho>)) (g \<rho>) (h \<rho>)) (tl (F \<rho>)) (G \<rho>)))"
  shows "gives s (andthen (fulladder a b c) (\<lambda>(y, x). andthen (k y) (\<lambda>rest. ret (x # rest))))
    (\<lambda>r s'. vmeans s' r (\<lambda>\<rho>. add_bits (h \<rho>) (F \<rho>) (g \<rho> # G \<rho>)))"
proof (rule gives_andthen [OF fulladder_ok [OF assms(1) vmeans_means [OF assms(2)] assms(3,4)]])
  fix r s1 assume r: "means s1 (fst r) (\<lambda>\<rho>. carry_bit (hd (F \<rho>)) (g \<rho>) (h \<rho>)) \<and> means s1 (snd r) (\<lambda>\<rho>. (hd (F \<rho>) \<noteq> g \<rho>) \<noteq> h \<rho>)"
    and s1: "ez_ok s1" "grows s s1"
  have "add_bits (h \<rho>) (F \<rho>) (g \<rho> # G \<rho>) = ((hd (F \<rho>) \<noteq> g \<rho>) \<noteq> h \<rho>) # add_bits (carry_bit (hd (F \<rho>)) (g \<rho>) (h \<rho>)) (tl (F \<rho>)) (G \<rho>)"
    if "consts_ok \<rho>" for \<rho> using vmeans_hd_tl [OF assms(2) that] add_bits.simps(1) by metis
  from gives_Cons [OF assms(5) [OF s1 conjunct1 [OF r]] conjunct2 [OF r] this]
  show "gives s1 (case r of (y, x) \<Rightarrow> andthen (k y) (\<lambda>rest. ret (x # rest))) (\<lambda>r s'. vmeans s' r (\<lambda>\<rho>. add_bits (h \<rho>) (F \<rho>) (g \<rho> # G \<rho>)))"
    by (simp add: case_prod_unfold)
qed

lemma add_loop_ok:
  assumes "ez_ok s" "vmeans s xs F" "vmeans s ys G" "means s c h" "length xs = length ys"
  shows "gives s (add_loop xs ys c) (\<lambda>r s'. vmeans s' r (\<lambda>\<rho>. add_bits (h \<rho>) (F \<rho>) (G \<rho>)))"
  using assms
proof (induction xs ys c arbitrary: s F G h rule: add_loop.induct)
  case (1 a as b bs c)
  have "gives s (add_loop (a # as) (b # bs) c) (\<lambda>r s'. vmeans s' r (\<lambda>\<rho>. add_bits (h \<rho>) (F \<rho>) (hd (G \<rho>) # tl (G \<rho>))))"
    unfolding add_loop.simps using 1(6)
    by (intro adder_stage_ok [OF 1(2,3) vmeans_means [OF 1(4)] 1(5)] 1(1) vmeans_grows [OF vmeans_tl [OF 1(3)]]
        vmeans_grows [OF vmeans_tl [OF 1(4)]]) simp_all
  then show ?case by (rule gives_vmeans_cong) (use vmeans_hd_tl [OF 1(4)] in metis)
qed (auto simp: vmeans_nil)

lemma sub_loop_ok:
  assumes "ez_ok s" "vmeans s xs F" "vmeans s ys G" "means s c h" "length xs = length ys"
  shows "gives s (sub_loop xs ys c) (\<lambda>r s'. vmeans s' r (\<lambda>\<rho>. add_bits (h \<rho>) (F \<rho>) (map Not (G \<rho>))))"
  using assms
proof (induction xs ys c arbitrary: s F G h rule: sub_loop.induct)
  case (1 a as b bs c)
  have "gives s (sub_loop (a # as) (b # bs) c) (\<lambda>r s'. vmeans s' r (\<lambda>\<rho>. add_bits (h \<rho>) (F \<rho>) ((\<not> hd (G \<rho>)) # map Not (tl (G \<rho>)))))"
    unfolding sub_loop.simps
  proof (rule gives_andthen [OF ez_not_ok [OF 1(2) vmeans_means [OF 1(4)]]])
    fix nb s1 assume nb: "means s1 nb (\<lambda>\<rho>. \<not> hd (G \<rho>))" and s1: "ez_ok s1" "grows s s1"
    note g = vmeans_grows [OF 1(3) s1(2)] vmeans_grows [OF 1(4) s1(2)] means_grows [OF 1(5) s1(2)]
    show "gives s1 (andthen (fulladder a nb c) (\<lambda>(y, x). andthen (sub_loop as bs y) (\<lambda>rest. ret (x # rest))))
        (\<lambda>r s'. vmeans s' r (\<lambda>\<rho>. add_bits (h \<rho>) (F \<rho>) ((\<not> hd (G \<rho>)) # map Not (tl (G \<rho>)))))"
      using 1(6) by (intro adder_stage_ok [OF s1(1) g(1) nb g(3)] 1(1) vmeans_grows [OF vmeans_tl [OF g(1)]]
          vmeans_grows [OF vmeans_tl [OF g(2)]]) simp_all
  qed
  then show ?case by (rule gives_vmeans_cong) (use vmeans_hd_tl [OF 1(4)] in \<open>metis list.simps(9)\<close>)
qed (auto simp: vmeans_nil)

lemma vec_add_ok [builds]:
  assumes "ez_ok s" "vmeans s xs F" "vmeans s ys G" "length xs = length ys"
  shows "gives s (vec_add xs ys) (\<lambda>r s'. vmeans s' r (\<lambda>\<rho>. add_bits False (F \<rho>) (G \<rho>)))"
  unfolding vec_add_def by (rule gives_check [OF assms(4) add_loop_ok [OF assms(1-3) means_const(2) assms(4)]]) (rule assms)

lemma vec_sub_ok [builds]:
  assumes "ez_ok s" "vmeans s xs F" "vmeans s ys G" "length xs = length ys"
  shows "gives s (vec_sub xs ys) (\<lambda>r s'. vmeans s' r (\<lambda>\<rho>. add_bits True (F \<rho>) (map Not (G \<rho>))))"
  unfolding vec_sub_def by (rule gives_check [OF assms(4) sub_loop_ok [OF assms(1-3) means_const(1) assms(4)]]) (rule assms)

lemma vmeans_replicate: "means s x f \<Longrightarrow> vmeans s (replicate n x) (\<lambda>\<rho>. replicate n (f \<rho>))"
  by (auto simp: vmeans_def means_def)

lemma vec_neg_ok [builds]:
  assumes "ez_ok s" "vmeans s xs F"
  shows "gives s (vec_neg xs) (\<lambda>r s'. vmeans s' r (\<lambda>\<rho>. add_bits True (replicate (length xs) False) (map Not (F \<rho>))))"
  unfolding vec_neg_def using assms by (intro vec_sub_ok vmeans_replicate means_const) simp_all
section \<open>Comparisons\<close>

fun cmp_bits :: "bool list \<Rightarrow> bool list \<Rightarrow> bool \<times> bool \<times> bool \<times> bool \<Rightarrow> bool \<times> bool \<times> bool \<times> bool" where
  "cmp_bits (a # as) (b # bs) (c, v, g, z) = cmp_bits as bs (carry_bit a b c, c, (a \<noteq> b) \<noteq> c, z \<or> ((a \<noteq> b) \<noteq> c))"
| "cmp_bits _ _ acc = acc"

lemma cmp_bits_eq:
  assumes "length as = length bs" "as \<noteq> []"
  shows "cmp_bits as bs (c, v, g, z) = (carry_out c as bs, carry_out c (butlast as) (butlast bs), last (add_bits c as bs), z \<or> (\<exists>b \<in> set (add_bits c as bs). b))"
  using assms
proof (induction as arbitrary: bs c v g z)
  case (Cons a as)
  then obtain b bs' where bs: "bs = b # bs'" by (cases bs) auto
  show ?case
  proof (cases as)
    case Nil
    then show ?thesis using Cons.prems bs by simp
  next
    case (Cons a' as')
    then obtain b' bs'' where bs': "bs' = b' # bs''" using Cons.prems(1) bs by (cases bs') auto
    have "cmp_bits as bs' (carry_bit a b c, c, (a \<noteq> b) \<noteq> c, z \<or> ((a \<noteq> b) \<noteq> c)) =
        (carry_out (carry_bit a b c) as bs', carry_out (carry_bit a b c) (butlast as) (butlast bs'), last (add_bits (carry_bit a b c) as bs'),
          (z \<or> ((a \<noteq> b) \<noteq> c)) \<or> (\<exists>b \<in> set (add_bits (carry_bit a b c) as bs'). b))"
      using Cons.prems bs \<open>as = a' # as'\<close> by (intro Cons.IH) simp_all
    then show ?thesis unfolding bs by (simp add: \<open>as = a' # as'\<close> bs' del: cmp_bits.simps(1)) auto
  qed
qed simp

lemma carry_out_snoc: "length as = length bs \<Longrightarrow> carry_out c (as @ [a]) (bs @ [b]) = carry_bit a b (carry_out c as bs)"
  by (induction c as bs rule: carry_out.induct) auto

lemma add_bits_snoc: "length as = length bs \<Longrightarrow> add_bits c (as @ [a]) (bs @ [b]) = add_bits c as bs @ [(a \<noteq> b) \<noteq> carry_out c as bs]"
  by (induction c as bs rule: carry_out.induct) auto

text \<open>The flags of the difference: borrow, overflow, sign and whether it is zero.\<close>

definition flags :: "bool list \<Rightarrow> bool list \<Rightarrow> bool \<times> bool \<times> bool \<times> bool" where
  "flags as bs = (let (c, v, g, z) = cmp_bits as (map Not bs) (True, undefined, undefined, False) in (\<not> c, v \<noteq> c, g, \<not> z))"

lemma uval_zero: "uval bs = 0 \<longleftrightarrow> (\<forall>b \<in> set bs. \<not> b)"
proof (induction bs)
  case (Cons b bs)
  then show ?case using uval_nonneg [of bs] by (cases b) auto
qed simp

lemma flags_value:
  assumes "length as = length bs" "as \<noteq> []" "flags as bs = (c, v, g, z)"
  shows "c \<longleftrightarrow> uval as < uval bs" "z \<longleftrightarrow> as = bs" "(v \<noteq> g) \<longleftrightarrow> sval as < sval bs"
proof -
  have cmp: "cmp_bits as (map Not bs) (True, undefined, undefined, False) = (carry_out True as (map Not bs),
      carry_out True (butlast as) (butlast (map Not bs)), last (add_bits True as (map Not bs)), False \<or> (\<exists>b \<in> set (add_bits True as (map Not bs)). b))"
    using assms(1,2) by (intro cmp_bits_eq) simp_all
  then have f: "c = (\<not> carry_out True as (map Not bs))" "v = (carry_out True (butlast as) (butlast (map Not bs)) \<noteq> carry_out True as (map Not bs))"
    "g = last (add_bits True as (map Not bs))" "z = (\<forall>b \<in> set (add_bits True as (map Not bs)). \<not> b)"
    using assms(3) by (auto simp: flags_def Let_def)
  show "c \<longleftrightarrow> uval as < uval bs" using sub_bits_carry [OF assms(1)] f(1) by auto
  have "z \<longleftrightarrow> (uval as - uval bs) mod 2 ^ length as = 0" using f(4) sub_bits_mod [OF assms(1)] uval_zero by metis
  also have "\<dots> \<longleftrightarrow> uval as = uval bs"
  proof -
    have "\<bar>uval as - uval bs\<bar> < 2 ^ length as"
      using uval_less [of as] uval_less [of bs, folded assms(1)] uval_nonneg [of as] uval_nonneg [of bs] unfolding abs_less_iff by linarith
    then show ?thesis using zdvd_imp_le [of "2 ^ length as" "\<bar>uval as - uval bs\<bar>"] by (auto simp: mod_eq_0_iff_dvd)
  qed
  finally show "z \<longleftrightarrow> as = bs" using uval_inj [OF assms(1)] by auto
  obtain as' a where as: "as = as' @ [a]" using assms(2) by (cases as rule: rev_exhaust) auto
  obtain bs' b where bs: "bs = bs' @ [b]" using assms(1,2) as by (cases bs rule: rev_exhaust) auto
  have len: "length as' = length bs'" using assms(1) as bs by simp
  have k: "carry_out True as' (map Not bs') \<longleftrightarrow> uval bs' \<le> uval as'" by (rule sub_bits_carry [OF len])
  have "v = (carry_out True as' (map Not bs') \<noteq> carry_bit a (\<not> b) (carry_out True as' (map Not bs')))" "g = ((a \<noteq> (\<not> b)) \<noteq> carry_out True as' (map Not bs'))"
    unfolding f as bs using len by (simp_all add: carry_out_snoc add_bits_snoc butlast_append)
  moreover have "uval as' - 2 ^ length bs' < uval bs'" "uval bs' - 2 ^ length bs' < uval as'"
    using uval_less [of as', unfolded len] uval_less [of bs'] uval_nonneg [of as'] uval_nonneg [of bs'] by linarith+
  ultimately show "(v \<noteq> g) \<longleftrightarrow> sval as < sval bs" unfolding k as bs using len
    by (cases a; cases b; cases "uval bs' \<le> uval as'") (simp_all add: sval_def uval_append carry_bit_def)
qed

definition means4 :: "ezSAT \<Rightarrow> int \<times> int \<times> int \<times> int \<Rightarrow> ((int \<Rightarrow> bool) \<Rightarrow> bool \<times> bool \<times> bool \<times> bool) \<Rightarrow> bool" where
  "means4 s r H \<longleftrightarrow> means s (fst r) (\<lambda>\<rho>. fst (H \<rho>)) \<and> means s (fst (snd r)) (\<lambda>\<rho>. fst (snd (H \<rho>))) \<and>
     means s (fst (snd (snd r))) (\<lambda>\<rho>. fst (snd (snd (H \<rho>)))) \<and> means s (snd (snd (snd r))) (\<lambda>\<rho>. snd (snd (snd (H \<rho>))))"

lemma means4_cong: "means4 s r H \<Longrightarrow> (\<And>\<rho>. consts_ok \<rho> \<Longrightarrow> H \<rho> = K \<rho>) \<Longrightarrow> means4 s r K"
  by (simp add: means4_def means_def)

lemma cmp_stage_ok:
  assumes "ez_ok s" "means s a f" "means s b g" "means s c h" "means s z w"
    "\<And>s' y x z'. ez_ok s' \<Longrightarrow> grows s s' \<Longrightarrow> means s' y (\<lambda>\<rho>. carry_bit (f \<rho>) (\<not> g \<rho>) (h \<rho>)) \<Longrightarrow> means s' x (\<lambda>\<rho>. (f \<rho> \<noteq> (\<not> g \<rho>)) \<noteq> h \<rho>) \<Longrightarrow>
      means s' z' (\<lambda>\<rho>. w \<rho> \<or> ((f \<rho> \<noteq> (\<not> g \<rho>)) \<noteq> h \<rho>)) \<Longrightarrow> gives s' (k y x z') Q"
  shows "gives s (andthen (ez_not b) (\<lambda>nb. andthen (fulladder a nb c) (\<lambda>(y, x). andthen (ez_or [z, x]) (k y x)))) Q"
proof (rule gives_andthen [OF ez_not_ok [OF assms(1,3)]])
  fix nb s1 assume nb: "means s1 nb (\<lambda>\<rho>. \<not> g \<rho>)" and s1: "ez_ok s1" "grows s s1"
  show "gives s1 (andthen (fulladder a nb c) (\<lambda>(y, x). andthen (ez_or [z, x]) (k y x))) Q"
  proof (rule gives_andthen [OF fulladder_ok [OF s1(1) means_grows [OF assms(2) s1(2)] nb means_grows [OF assms(4) s1(2)]]])
    fix r s2 assume r: "means s2 (fst r) (\<lambda>\<rho>. carry_bit (f \<rho>) (\<not> g \<rho>) (h \<rho>)) \<and> means s2 (snd r) (\<lambda>\<rho>. (f \<rho> \<noteq> (\<not> g \<rho>)) \<noteq> h \<rho>)"
      and s2: "ez_ok s2" "grows s1 s2"
    have z: "means s2 z w" using means_grows [OF means_grows [OF assms(5) s1(2)] s2(2)] .
    have "gives s2 (andthen (ez_or [z, snd r]) (k (fst r) (snd r))) Q"
    proof (rule gives_andthen [OF binary_ok(2) [OF s2(1) z conjunct2 [OF r]]])
      fix z' s3 assume "means s3 z' (\<lambda>\<rho>. w \<rho> \<or> ((f \<rho> \<noteq> (\<not> g \<rho>)) \<noteq> h \<rho>))" and s3: "ez_ok s3" "grows s2 s3"
      then show "gives s3 (k (fst r) (snd r) z') Q"
        using grows_trans [OF grows_trans [OF s1(2) s2(2)] s3(2)] means_grows [OF conjunct1 [OF r] s3(2)] means_grows [OF conjunct2 [OF r] s3(2)]
        by (intro assms(6))
    qed
    then show "gives s2 (case r of (y, x) \<Rightarrow> andthen (ez_or [z, x]) (k y x)) Q" by (simp add: case_prod_unfold)
  qed
qed

lemma cmp_loop_ok:
  assumes "ez_ok s" "vmeans s xs F" "vmeans s ys G" "length xs = length ys" "means s c (\<lambda>\<rho>. fst (H \<rho>))" "means s z (\<lambda>\<rho>. snd (snd (snd (H \<rho>))))"
    "xs \<noteq> [] \<or> means s v (\<lambda>\<rho>. fst (snd (H \<rho>))) \<and> means s g (\<lambda>\<rho>. fst (snd (snd (H \<rho>))))"
  shows "gives s (cmp_loop xs ys (c, v, g, z)) (\<lambda>r s'. means4 s' r (\<lambda>\<rho>. cmp_bits (F \<rho>) (map Not (G \<rho>)) (H \<rho>)))"
  using assms
proof (induction xs arbitrary: s F G H ys c v g z)
  case Nil
  then show ?case by (auto simp: vmeans_nil means4_def means_def)
next
  case (Cons a as)
  then obtain b bs where ys: "ys = b # bs" by (cases ys) auto
  note F = Cons.prems(2) and G = Cons.prems(3) [unfolded ys]
  let ?x = "\<lambda>\<rho>. (hd (F \<rho>) \<noteq> (\<not> hd (G \<rho>))) \<noteq> fst (H \<rho>)"
  let ?H = "\<lambda>\<rho>. (carry_bit (hd (F \<rho>)) (\<not> hd (G \<rho>)) (fst (H \<rho>)), fst (H \<rho>), ?x \<rho>, snd (snd (snd (H \<rho>))) \<or> ?x \<rho>)"
  have eq: "cmp_bits (F \<rho>) (map Not (G \<rho>)) (H \<rho>) = cmp_bits (tl (F \<rho>)) (map Not (tl (G \<rho>))) (?H \<rho>)" if "consts_ok \<rho>" for \<rho>
    using vmeans_not_Nil [OF F that] vmeans_not_Nil [OF G that] by (cases "F \<rho>"; cases "G \<rho>"; cases "H \<rho>") auto
  have g: "gives s (cmp_loop (a # as) ys (c, v, g, z)) (\<lambda>r s'. means4 s' r (\<lambda>\<rho>. cmp_bits (tl (F \<rho>)) (map Not (tl (G \<rho>))) (?H \<rho>)))"
    unfolding ys cmp_loop.simps
  proof (rule cmp_stage_ok [OF Cons.prems(1) vmeans_means [OF F] vmeans_means [OF G] Cons.prems(5,6)], rule Cons.IH)
    show "vmeans s' as (\<lambda>\<rho>. tl (F \<rho>))" "vmeans s' bs (\<lambda>\<rho>. tl (G \<rho>))" if "grows s s'" for s'
      using vmeans_grows [OF vmeans_tl [OF F] that] vmeans_grows [OF vmeans_tl [OF G] that] by auto
  qed (use Cons.prems(4,5) ys means_grows in auto)
  show ?case by (rule gives_mono [OF g], erule means4_cong, rule eq [symmetric])
qed

lemma vec_cmp_ok:
  assumes "ez_ok s" "vmeans s xs F" "vmeans s ys G" "length xs = length ys" "xs \<noteq> []"
  shows "gives s (vec_cmp xs ys) (\<lambda>r s'. means4 s' r (\<lambda>\<rho>. flags (F \<rho>) (G \<rho>)))"
proof -
  let ?c = "\<lambda>\<rho>. cmp_bits (F \<rho>) (map Not (G \<rho>)) (True, undefined, undefined, False)"
  have loop: "gives s (cmp_loop xs ys (CONST_TRUE, 0, 0, CONST_FALSE)) (\<lambda>r s'. means4 s' r ?c)"
    using assms by (intro cmp_loop_ok) (simp_all add: means_const)
  have "gives s (andthen (cmp_loop xs ys (CONST_TRUE, 0, 0, CONST_FALSE)) (\<lambda>r. andthen (ez_xor [fst (snd r), fst r]) (\<lambda>ov. andthen (ez_not (fst r)) (\<lambda>nc.
      andthen (ez_not (snd (snd (snd r)))) (\<lambda>nz. ret (nc, ov, fst (snd (snd r)), nz)))))) (\<lambda>r s'. means4 s' r (\<lambda>\<rho>. flags (F \<rho>) (G \<rho>)))"
    by (rule gives_andthen [OF loop], unfold means4_def, elim conjE,
        (rule gives_andthen, (rule builds; assumption), (drule (1) means_grows)+)+, rule gives_ret)
      (simp_all add: means4_def flags_def case_prod_unfold Let_def)
  then show ?thesis using assms(4,5) by (simp add: vec_cmp_def check_def case_prod_unfold)
qed
text \<open>The comparisons made of the flags.\<close>

lemma flags_values:
  assumes "length as = length bs" "as \<noteq> []"
  shows "fst (flags as bs) \<longleftrightarrow> uval as < uval bs" "snd (snd (snd (flags as bs))) \<longleftrightarrow> as = bs"
    "fst (snd (flags as bs)) \<noteq> fst (snd (snd (flags as bs))) \<longleftrightarrow> sval as < sval bs"
proof -
  obtain c v g z where f: "flags as bs = (c, v, g, z)" by (cases "flags as bs")
  show "fst (flags as bs) \<longleftrightarrow> uval as < uval bs" "snd (snd (snd (flags as bs))) \<longleftrightarrow> as = bs"
    "fst (snd (flags as bs)) \<noteq> fst (snd (snd (flags as bs))) \<longleftrightarrow> sval as < sval bs"
    using flags_value [OF assms f] by (simp_all add: f)
qed

lemma sval_inj: "length as = length bs \<Longrightarrow> sval as = sval bs \<Longrightarrow> as = bs"
  by (metis sval_mod uval_inj)

lemma vec_compare_ok:
  assumes "ez_ok s" "vmeans s xs F" "vmeans s ys G" "length xs = length ys" "xs \<noteq> []"
    "\<And>r s'. ez_ok s' \<Longrightarrow> means s' (fst r) (\<lambda>\<rho>. uval (F \<rho>) < uval (G \<rho>)) \<Longrightarrow> means s' (snd (snd (snd r))) (\<lambda>\<rho>. F \<rho> = G \<rho>) \<Longrightarrow>
      means s' (fst (snd r)) v \<Longrightarrow> means s' (fst (snd (snd r))) g \<Longrightarrow>
      (\<And>\<rho>. consts_ok \<rho> \<Longrightarrow> (v \<rho> \<noteq> g \<rho>) = (sval (F \<rho>) < sval (G \<rho>))) \<Longrightarrow> gives s' (k r) Q"
    "v = (\<lambda>\<rho>. fst (snd (flags (F \<rho>) (G \<rho>))))" "g = (\<lambda>\<rho>. fst (snd (snd (flags (F \<rho>) (G \<rho>)))))"
  shows "gives s (andthen (vec_cmp xs ys) k) Q"
proof (rule gives_andthen [OF vec_cmp_ok [OF assms(1-5)]])
  fix r s1 assume r: "means4 s1 r (\<lambda>\<rho>. flags (F \<rho>) (G \<rho>))" "ez_ok s1"
  have val: "length (F \<rho>) = length (G \<rho>)" "F \<rho> \<noteq> []" if "consts_ok \<rho>" for \<rho>
    using vmeans_length [OF assms(2) that] vmeans_length [OF assms(3) that] assms(4,5) by auto
  show "gives s1 (k r) Q"
  proof (rule assms(6) [OF r(2)])
    show "means s1 (fst r) (\<lambda>\<rho>. uval (F \<rho>) < uval (G \<rho>))" "means s1 (snd (snd (snd r))) (\<lambda>\<rho>. F \<rho> = G \<rho>)" "means s1 (fst (snd r)) v" "means s1 (fst (snd (snd r))) g"
      using r(1) flags_values(1,2) [OF val] unfolding means4_def means_def assms(7,8) by auto
    show "(v \<rho> \<noteq> g \<rho>) = (sval (F \<rho>) < sval (G \<rho>))" if "consts_ok \<rho>" for \<rho> using flags_values(3) [OF val [OF that]] by (simp add: assms(7,8))
  qed
qed

lemma differ_ok [builds]:
  assumes "ez_ok s" "means s v f" "means s g h"
  shows "gives s (differ v g) (\<lambda>r s'. means s' (fst r) (\<lambda>\<rho>. \<not> f \<rho> \<and> h \<rho>) \<and> means s' (snd r) (\<lambda>\<rho>. f \<rho> \<and> \<not> h \<rho>))"
  unfolding differ_def using assms
  by - ((rule gives_andthen, (rule builds; assumption), (drule (1) means_grows)+)+, rule gives_ret, simp_all)

lemma agree_ok [builds]:
  assumes "ez_ok s" "means s v f" "means s g h"
  shows "gives s (agree v g) (\<lambda>r s'. means s' (fst r) (\<lambda>\<rho>. \<not> f \<rho> \<and> \<not> h \<rho>) \<and> means s' (snd r) (\<lambda>\<rho>. f \<rho> \<and> h \<rho>))"
  unfolding agree_def using assms
  by - ((rule gives_andthen, (rule builds; assumption), (drule (1) means_grows)+)+, rule gives_ret, simp_all)

lemma vec_compare_unsigned_ok [builds]:
  assumes "ez_ok s" "vmeans s xs F" "vmeans s ys G" "length xs = length ys" "xs \<noteq> []"
  shows "gives s (vec_lt_unsigned xs ys) (\<lambda>r s'. means s' r (\<lambda>\<rho>. uval (F \<rho>) < uval (G \<rho>)))"
    "gives s (vec_le_unsigned xs ys) (\<lambda>r s'. means s' r (\<lambda>\<rho>. uval (F \<rho>) \<le> uval (G \<rho>)))"
    "gives s (vec_ge_unsigned xs ys) (\<lambda>r s'. means s' r (\<lambda>\<rho>. uval (F \<rho>) \<ge> uval (G \<rho>)))"
    "gives s (vec_gt_unsigned xs ys) (\<lambda>r s'. means s' r (\<lambda>\<rho>. uval (F \<rho>) > uval (G \<rho>)))"
proof -
  have len: "length (F \<rho>) = length (G \<rho>)" if "consts_ok \<rho>" for \<rho>
    using vmeans_length [OF assms(2) that] vmeans_length [OF assms(3) that] assms(4) by simp
  have eq: "(uval (F \<rho>) < uval (G \<rho>) \<or> F \<rho> = G \<rho>) = (uval (F \<rho>) \<le> uval (G \<rho>))"
    "(\<not> uval (F \<rho>) < uval (G \<rho>) \<and> F \<rho> \<noteq> G \<rho>) = (uval (G \<rho>) < uval (F \<rho>))" if "consts_ok \<rho>" for \<rho>
    using uval_inj [OF len [OF that]] by (auto simp: le_less not_less)
  show "gives s (vec_lt_unsigned xs ys) (\<lambda>r s'. means s' r (\<lambda>\<rho>. uval (F \<rho>) < uval (G \<rho>)))"
    unfolding vec_lt_unsigned_def case_prod_unfold by (rule vec_compare_ok [OF assms _ refl refl]) (rule gives_ret)
  show "gives s (vec_le_unsigned xs ys) (\<lambda>r s'. means s' r (\<lambda>\<rho>. uval (F \<rho>) \<le> uval (G \<rho>)))"
    unfolding vec_le_unsigned_def case_prod_unfold
    by (rule vec_compare_ok [OF assms _ refl refl], rule gives_means_cong [OF binary_ok(2)], assumption+, rule eq)
  show "gives s (vec_ge_unsigned xs ys) (\<lambda>r s'. means s' r (\<lambda>\<rho>. uval (F \<rho>) \<ge> uval (G \<rho>)))"
    unfolding vec_ge_unsigned_def case_prod_unfold
    by (rule vec_compare_ok [OF assms _ refl refl], rule gives_means_cong [OF ez_not_ok], assumption+) auto
  show "gives s (vec_gt_unsigned xs ys) (\<lambda>r s'. means s' r (\<lambda>\<rho>. uval (F \<rho>) > uval (G \<rho>)))"
    unfolding vec_gt_unsigned_def case_prod_unfold
    by (rule vec_compare_ok [OF assms _ refl refl], (rule gives_andthen, (rule builds; assumption), (drule (1) means_grows)+)+,
        rule gives_means_cong [OF binary_ok(1)], assumption+, rule eq)
qed

lemma vec_compare_signed_ok [builds]:
  assumes "ez_ok s" "vmeans s xs F" "vmeans s ys G" "length xs = length ys" "xs \<noteq> []"
  shows "gives s (vec_lt_signed xs ys) (\<lambda>r s'. means s' r (\<lambda>\<rho>. sval (F \<rho>) < sval (G \<rho>)))"
    "gives s (vec_le_signed xs ys) (\<lambda>r s'. means s' r (\<lambda>\<rho>. sval (F \<rho>) \<le> sval (G \<rho>)))"
    "gives s (vec_ge_signed xs ys) (\<lambda>r s'. means s' r (\<lambda>\<rho>. sval (F \<rho>) \<ge> sval (G \<rho>)))"
    "gives s (vec_gt_signed xs ys) (\<lambda>r s'. means s' r (\<lambda>\<rho>. sval (F \<rho>) > sval (G \<rho>)))"
proof -
  have len: "length (F \<rho>) = length (G \<rho>)" if "consts_ok \<rho>" for \<rho>
    using vmeans_length [OF assms(2) that] vmeans_length [OF assms(3) that] assms(4) by simp
  have le: "(sval (F \<rho>) < sval (G \<rho>) \<or> F \<rho> = G \<rho>) = (sval (F \<rho>) \<le> sval (G \<rho>))" if "consts_ok \<rho>" for \<rho>
    using sval_inj [OF len [OF that]] by (auto simp: le_less)
  show "gives s (vec_lt_signed xs ys) (\<lambda>r s'. means s' r (\<lambda>\<rho>. sval (F \<rho>) < sval (G \<rho>)))"
    unfolding vec_lt_signed_def case_prod_unfold
    by (rule vec_compare_ok [OF assms _ refl refl], rule gives_andthen, rule differ_ok, assumption+, elim conjE,
        rule gives_means_cong [OF binary_ok(2)], assumption+) blast
  show "gives s (vec_le_signed xs ys) (\<lambda>r s'. means s' r (\<lambda>\<rho>. sval (F \<rho>) \<le> sval (G \<rho>)))"
    unfolding vec_le_signed_def case_prod_unfold
    by (rule vec_compare_ok [OF assms _ refl refl], rule gives_andthen, rule differ_ok, assumption+, (drule (1) means_grows)+, elim conjE,
        rule gives_means_cong [OF or3_ok], assumption+) (use le in blast)
  show "gives s (vec_ge_signed xs ys) (\<lambda>r s'. means s' r (\<lambda>\<rho>. sval (F \<rho>) \<ge> sval (G \<rho>)))"
    unfolding vec_ge_signed_def case_prod_unfold
    by (rule vec_compare_ok [OF assms _ refl refl], rule gives_andthen, rule agree_ok, assumption+, elim conjE,
        rule gives_means_cong [OF binary_ok(2)], assumption+) (metis linorder_not_less)
  show "gives s (vec_gt_signed xs ys) (\<lambda>r s'. means s' r (\<lambda>\<rho>. sval (F \<rho>) > sval (G \<rho>)))"
    unfolding vec_gt_signed_def case_prod_unfold
    by (rule vec_compare_ok [OF assms _ refl refl], rule gives_andthen, rule agree_ok, assumption+, (drule (1) means_grows)+, elim conjE,
        (rule gives_andthen, (rule builds; assumption), (drule (1) means_grows)+)+,
        rule gives_means_cong [OF binary_ok(1)], assumption+) (metis le linorder_not_le)
qed

lemma vec_eq_ok [builds]:
  assumes "ez_ok s" "vmeans s xs F" "vmeans s ys G" "length xs = length ys"
  shows "gives s (vec_eq xs ys) (\<lambda>r s'. means s' r (\<lambda>\<rho>. F \<rho> = G \<rho>))" "gives s (vec_ne xs ys) (\<lambda>r s'. means s' r (\<lambda>\<rho>. F \<rho> \<noteq> G \<rho>))"
proof -
  have eq: "(\<forall>b \<in> set (map2 (=) (F \<rho>) (G \<rho>)). b) = (F \<rho> = G \<rho>)" if "consts_ok \<rho>" for \<rho>
    using vmeans_length [OF assms(2) that] vmeans_length [OF assms(3) that] assms(4) by (auto simp: set_zip list_eq_iff_nth_eq)
  have and': "gives s1 (vec_reduce_and r) (\<lambda>r s'. means s' r (\<lambda>\<rho>. F \<rho> = G \<rho>))" if "vmeans s1 r (\<lambda>\<rho>. map2 (=) (F \<rho>) (G \<rho>))" "ez_ok s1" for r s1
    by (rule gives_means_cong [OF reduce_ok(1) [OF that(2,1)] eq])
  show "gives s (vec_eq xs ys) (\<lambda>r s'. means s' r (\<lambda>\<rho>. F \<rho> = G \<rho>))"
    unfolding vec_eq_def by (rule gives_andthen [OF vec_binary_ok(4) [OF assms] and'])
  show "gives s (vec_ne xs ys) (\<lambda>r s'. means s' r (\<lambda>\<rho>. F \<rho> \<noteq> G \<rho>))"
    unfolding vec_ne_def by (rule gives_andthen [OF vec_binary_ok(4) [OF assms] gives_andthen [OF and' ez_not_ok]])
qed
section \<open>Shifts\<close>

text \<open>A vector continued to the left and to the right, and a shift of it.\<close>

definition ext :: "'a list \<Rightarrow> 'a \<Rightarrow> 'a \<Rightarrow> int \<Rightarrow> 'a" where
  "ext as l r j = (if j < 0 then r else if int (length as) \<le> j then l else as ! nat j)"

definition shift_bits :: "'a list \<Rightarrow> int \<Rightarrow> 'a \<Rightarrow> 'a \<Rightarrow> 'a list" where
  "shift_bits as k l r = map (\<lambda>i. ext as l r (int i + k)) [0..<length as]"

lemma length_shift_bits [simp]: "length (shift_bits as k l r) = length as"
  by (simp add: shift_bits_def)

lemma ext_shift_bits: "0 \<le> j \<Longrightarrow> ext (shift_bits as k l r) l r j = (if j < int (length as) then ext as l r (j + k) else l)"
  by (auto simp: ext_def shift_bits_def)

lemma ext_neg: "j < 0 \<Longrightarrow> ext as l r j = r"
  by (simp add: ext_def)

lemma ext_ge: "0 \<le> j \<Longrightarrow> int (length as) \<le> j \<Longrightarrow> ext as l r j = l"
  by (simp add: ext_def)

lemma ext_nth: "i < length as \<Longrightarrow> ext as l r (int i) = as ! i"
  by (simp add: ext_def)

definition shift_fold :: "bool list \<Rightarrow> (nat \<Rightarrow> int) \<Rightarrow> 'a \<Rightarrow> 'a \<Rightarrow> nat list \<Rightarrow> 'a list \<Rightarrow> 'a list" where
  "shift_fold bs sh l r is as = fold (\<lambda>i as. if bs ! i then shift_bits as (sh i) l r else as) is as"

lemma length_shift_fold [simp]: "length (shift_fold bs sh l r is as) = length as"
  unfolding shift_fold_def by (induction "is" arbitrary: as) simp_all

lemma uval_take_Suc: "b < length bs \<Longrightarrow> uval (take (Suc b) bs) = uval (take b bs) + (if bs ! b then 2 ^ b else 0)"
  by (simp add: take_Suc_conv_app_nth uval_append)

lemma shift_right_fold:
  assumes "\<And>j. 0 \<le> j \<Longrightarrow> ext buf l r j = ext as l r (j + t)" "int (length as) \<le> int (length buf) + t" "b \<le> length bs" "0 \<le> j"
  shows "ext (shift_fold bs (\<lambda>i. 2 ^ i) l r (rev [0..<b]) buf) l r j = ext as l r (j + t + uval (take b bs))"
  using assms
proof (induction b arbitrary: buf t)
  case 0
  then show ?case by (simp add: shift_fold_def)
next
  case (Suc b)
  let ?buf = "if bs ! b then shift_bits buf (2 ^ b) l r else buf" and ?t = "t + (if bs ! b then 2 ^ b else 0)"
  have pos: "(0 :: int) \<le> 2 ^ b" by simp
  have "ext ?buf l r j = ext as l r (j + ?t)" if "0 \<le> j" for j
  proof (cases "bs ! b")
    case True
    have "ext as l r (j + 2 ^ b + t) = l" if "int (length buf) \<le> j"
    proof (rule ext_ge)
      show "int (length as) \<le> j + 2 ^ b + t" using Suc.prems(2) that pos by linarith
      then show "0 \<le> j + 2 ^ b + t" by linarith
    qed
    then show ?thesis using that True Suc.prems(1) [of "j + 2 ^ b"] by (simp add: ext_shift_bits algebra_simps)
  qed (use Suc.prems(1) that in simp)
  moreover have "int (length as) \<le> int (length buf) + (t + 2 ^ b)" using Suc.prems(2) pos by linarith
  then have "int (length as) \<le> int (length ?buf) + ?t" using Suc.prems(2) by simp
  ultimately have "ext (shift_fold bs (\<lambda>i. 2 ^ i) l r (rev [0..<b]) ?buf) l r j = ext as l r (j + ?t + uval (take b bs))"
    using Suc.prems(3,4) by (intro Suc.IH) simp_all
  then show ?case using Suc.prems(3) by (simp add: shift_fold_def uval_take_Suc algebra_simps split: if_splits)
qed

lemma shift_left_fold:
  assumes "b \<le> length bs" "j < int (length as)"
  shows "ext (shift_fold bs (\<lambda>i. - (2 ^ i)) l r [0..<b] as) l r j = ext as l r (j - uval (take b bs))"
  using assms
proof (induction b arbitrary: j)
  case 0
  then show ?case by (simp add: shift_fold_def)
next
  case (Suc b)
  let ?buf = "shift_fold bs (\<lambda>i. - (2 ^ i)) l r [0..<b] as"
  have step: "shift_fold bs (\<lambda>i. - (2 ^ i)) l r [0..<Suc b] as = (if bs ! b then shift_bits ?buf (- (2 ^ b)) l r else ?buf)"
    by (simp add: shift_fold_def)
  have IH: "ext ?buf l r k = ext as l r (k - uval (take b bs))" if "k < int (length as)" for k using Suc that by simp
  consider "j < 0" | "0 \<le> j" "bs ! b" | "0 \<le> j" "\<not> bs ! b" by linarith
  then show ?case
  proof cases
    case 1
    moreover have "j - uval (take (Suc b) bs) < 0" using 1 uval_nonneg [of "take (Suc b) bs"] by linarith
    ultimately show ?thesis by (simp add: ext_neg)
  next
    case 2
    have "j - 2 ^ b < int (length as)" using Suc.prems(2) zero_le_power [of "2 :: int" b] by linarith
    then show ?thesis using 2 IH [of "j - 2 ^ b"] Suc.prems unfolding step by (simp add: ext_shift_bits uval_take_Suc algebra_simps)
  next
    case 3
    then show ?thesis using IH [OF Suc.prems(2)] Suc.prems unfolding step by (simp add: uval_take_Suc)
  qed
qed

text \<open>Shifts by a number: what is expected of the two routines.\<close>

lemma clog2_loop_ge: "2 ^ nat res * (x + 1) \<le> 2 ^ nat (clog2_loop x res) \<and> res \<le> clog2_loop x res" if "0 \<le> res" "0 \<le> x"
  using that
proof (induction x res rule: clog2_loop.induct)
  case (1 x res)
  show ?case
  proof (cases "0 < x")
    case True
    have "nat (res + 1) = Suc (nat res)" using 1(2) by simp
    moreover have "x + 1 \<le> 2 * (x div 2 + 1)" by simp
    then have "2 ^ nat res * (x + 1) \<le> 2 ^ nat res * (2 * (x div 2 + 1))" by (intro mult_left_mono) simp_all
    ultimately show ?thesis using 1(1) [OF True] 1(2,3) True by (simp add: clog2_loop.simps [of x res] algebra_simps)
  next
    case False
    then have "clog2_loop x res = res" "x = 0" using 1(3) by (subst clog2_loop.simps, simp_all)
    then show ?thesis by simp
  qed
qed

lemma my_clog2_ge: "0 \<le> my_clog2 (int n)" "int n \<le> 2 ^ nat (my_clog2 (int n))"
proof -
  have "clog2_loop (-1) 0 = 0" by (simp add: clog2_loop.simps)
  then show "0 \<le> my_clog2 (int n)" "int n \<le> 2 ^ nat (my_clog2 (int n))"
    using clog2_loop_ge [of 0 "int n - 1"] by (cases n; simp add: my_clog2_def)+
qed

lemma ext_replicate: "ext (replicate n l) l l j = l"
  by (simp add: ext_def)

lemma shift_bits_same: "shift_bits (replicate n e) k e e = replicate n e"
  by (simp add: shift_bits_def ext_replicate map_replicate_const)

lemma shift_fold_same: "shift_fold bs sh e e is (replicate n e) = replicate n e"
  unfolding shift_fold_def by (induction "is") (simp_all add: shift_bits_same)

lemma uval_drop: "uval bs = uval (take b bs) + 2 ^ min (length bs) b * uval (drop b bs)"
  using uval_append [of "take b bs" "drop b bs"] by simp

lemma uval_ge_overflow:
  assumes "\<exists>x \<in> set (drop b bs). x"
  shows "2 ^ b \<le> uval bs"
proof -
  have "b < length bs" using assms by (cases "b < length bs") auto
  moreover have "uval (drop b bs) \<noteq> 0" using assms uval_zero [of "drop b bs"] by blast
  then have "1 \<le> uval (drop b bs)" using uval_nonneg [of "drop b bs"] by linarith
  then have "2 ^ b * 1 \<le> (2 ^ b * uval (drop b bs) :: int)" by (intro mult_left_mono) simp_all
  ultimately have "uval bs = uval (take b bs) + 2 ^ b * uval (drop b bs)" "2 ^ b \<le> 2 ^ b * uval (drop b bs)" using uval_drop [of bs b] by simp_all
  then show ?thesis using uval_nonneg [of "take b bs"] by linarith
qed
lemma vmeans_nth: "vmeans s ys G \<Longrightarrow> i < length ys \<Longrightarrow> means s (ys ! i) (\<lambda>\<rho>. G \<rho> ! i)"
  unfolding vmeans_def means_def by (metis nth_map nth_mem)

lemma vmeans_list:
  assumes "\<And>i. i < length xs \<Longrightarrow> means s (xs ! i) (f i)" "\<And>\<rho>. consts_ok \<rho> \<Longrightarrow> F \<rho> = map (\<lambda>i. f i \<rho>) [0..<length xs]"
  shows "vmeans s xs F"
proof -
  have "\<forall>x \<in> set xs. valid s x" using assms(1) by (auto simp: in_set_conv_nth means_def)
  moreover have "map (sem s \<rho>) xs = F \<rho>" if "consts_ok \<rho>" for \<rho>
    using assms that by (intro nth_equalityI) (simp_all add: means_def)
  ultimately show ?thesis by (simp add: vmeans_def)
qed

lemma vec_shift_shift_bits: "vec_shift xs k l r = shift_bits xs k l r"
  by (simp add: vec_shift_def shift_bits_def ext_def Let_def)

lemma vec_shift_ok:
  assumes "vmeans s xs F" "means s l f" "means s r g"
  shows "vmeans s (vec_shift xs k l r) (\<lambda>\<rho>. shift_bits (F \<rho>) k (f \<rho>) (g \<rho>))"
  unfolding vec_shift_shift_bits
proof (rule vmeans_list)
  fix i assume "i < length (shift_bits xs k l r)"
  then have "i < length xs" by simp
  then show "means s (shift_bits xs k l r ! i) (\<lambda>\<rho>. if int i + k < 0 then g \<rho> else if int (length xs) \<le> int i + k then f \<rho> else F \<rho> ! nat (int i + k))"
    using assms(2,3) vmeans_nth [OF assms(1)] by (auto simp: shift_bits_def ext_def)
next
  fix \<rho> assume \<rho>: "consts_ok \<rho>"
  show "shift_bits (F \<rho>) k (f \<rho>) (g \<rho>) = map (\<lambda>i. if int i + k < 0 then g \<rho> else if int (length xs) \<le> int i + k then f \<rho> else F \<rho> ! nat (int i + k))
      [0..<length (shift_bits xs k l r)]"
    by (simp add: shift_bits_def ext_def vmeans_length [OF assms(1) \<rho>])
qed

lemma shift_loop_ok:
  assumes "ez_ok s" "vmeans s xs F" "vmeans s ys G" "means s l f" "means s r g" "\<forall>i \<in> set is. i < length ys"
  shows "gives s (loop (shift_step l r) (map (\<lambda>i. (ys ! i, sh i)) is) xs)
    (\<lambda>zs s'. vmeans s' zs (\<lambda>\<rho>. shift_fold (G \<rho>) sh (f \<rho>) (g \<rho>) is (F \<rho>)))"
  using assms
proof (induction "is" arbitrary: s xs F)
  case Nil
  then show ?case by (auto simp: shift_fold_def)
next
  case (Cons i "is")
  have "gives s (shift_step l r (ys ! i, sh i) xs) (\<lambda>zs s'. vmeans s' zs (\<lambda>\<rho>. if G \<rho> ! i then shift_bits (F \<rho>) (sh i) (f \<rho>) (g \<rho>) else F \<rho>))"
    unfolding shift_step_def prod.case using Cons.prems
    by (intro vec_ite_ok vmeans_nth vec_shift_ok) (simp_all add: vec_shift_def)
  then show ?case unfolding list.map loop.simps
  proof (rule gives_andthen)
    fix zs s1 assume zs: "vmeans s1 zs (\<lambda>\<rho>. if G \<rho> ! i then shift_bits (F \<rho>) (sh i) (f \<rho>) (g \<rho>) else F \<rho>)" and s1: "ez_ok s1" "grows s s1"
    from Cons.IH [OF s1(1) zs vmeans_grows [OF Cons.prems(3) s1(2)] means_grows [OF Cons.prems(4) s1(2)] means_grows [OF Cons.prems(5) s1(2)]] Cons.prems(6)
    show "gives s1 (loop (shift_step l r) (map (\<lambda>i. (ys ! i, sh i)) is) zs) (\<lambda>zs s'. vmeans s' zs (\<lambda>\<rho>. shift_fold (G \<rho>) sh (f \<rho>) (g \<rho>) (i # is) (F \<rho>)))"
      by (simp add: shift_fold_def)
  qed
qed

lemma vmeans_drop: "vmeans s ys G \<Longrightarrow> vmeans s (drop b ys) (\<lambda>\<rho>. drop b (G \<rho>))"
  unfolding vmeans_def by (metis drop_map in_set_dropD)

lemma vmeans_append: "vmeans s xs F \<Longrightarrow> vmeans s ys G \<Longrightarrow> vmeans s (xs @ ys) (\<lambda>\<rho>. F \<rho> @ G \<rho>)"
  by (auto simp: vmeans_def)

lemma vmeans_resize: "vmeans s xs F \<Longrightarrow> n \<le> length xs \<Longrightarrow> vmeans s (resize n xs) (\<lambda>\<rho>. take n (F \<rho>))"
  unfolding vmeans_def resize_def by (auto simp flip: take_map dest: in_set_takeD)

text \<open>The last part of both routines: the loop over the bits of the shift and the cut to the old length.\<close>

lemma shift_tail_ok:
  assumes "vmeans s2 buf B" "ez_ok s2" "vmeans s ys G" "means s l f" "means s r g" "grows s s2" "\<forall>i \<in> set is. i < length ys"
    "\<And>\<rho>. consts_ok \<rho> \<Longrightarrow> n \<le> length (B \<rho>)"
  shows "gives s2 (andthen (loop (shift_step l r) (map (\<lambda>i. (ys ! i, sh i)) is) buf) (\<lambda>buffer. ret (resize n buffer)))
    (\<lambda>zs s'. vmeans s' zs (\<lambda>\<rho>. take n (shift_fold (G \<rho>) sh (f \<rho>) (g \<rho>) is (B \<rho>))))"
proof (rule gives_andthen [OF shift_loop_ok [OF assms(2,1)]])
  fix zs s3 assume zs: "vmeans s3 zs (\<lambda>\<rho>. shift_fold (G \<rho>) sh (f \<rho>) (g \<rho>) is (B \<rho>))" "ez_ok s3"
  have "consts_ok (\<lambda>x. x = CONST_TRUE)" by (simp add: consts_ok_def)
  from vmeans_length [OF zs(1) this] assms(8) [OF this] have "n \<le> length zs" by simp
  then show "gives s3 (ret (resize n zs)) (\<lambda>zs s'. vmeans s' zs (\<lambda>\<rho>. take n (shift_fold (G \<rho>) sh (f \<rho>) (g \<rho>) is (B \<rho>))))"
    by (intro gives_ret zs(2) vmeans_resize [OF zs(1)])
qed (use vmeans_grows [OF assms(3,6)] means_grows [OF assms(4,6)] means_grows [OF assms(5,6)] assms(7) in auto)

lemma clog2_overflow:
  assumes "b = nat (min (my_clog2 (int n) + int k) (int (length bs)))" "b < length bs"
  shows "b = nat (my_clog2 (int n)) + k" "int n \<le> 2 ^ nat (my_clog2 (int n))"
  using assms my_clog2_ge [of n] by (simp_all add: nat_add_distrib)

lemma uval_no_overflow: "\<not> (\<exists>x \<in> set (drop b bs). x) \<Longrightarrow> uval (take b bs) = uval bs"
  using uval_drop [of bs b] uval_zero [of "drop b bs"] by auto

lemma take_eq_shift_bits:
  assumes "length as = n" "n \<le> length buf" "\<And>i. i < n \<Longrightarrow> ext buf l r (int i) = ext as l r (int i + k)"
  shows "take n buf = shift_bits as k l r"
  using assms by (intro nth_equalityI) (simp_all add: shift_bits_def flip: ext_nth [of _ buf l r])

lemma shift_left_value:
  assumes "b = nat (min (my_clog2 (int (length as))) (int (length bs)))"
  defines "ov \<equiv> \<exists>x \<in> set (drop b bs). x"
  shows "take (length as) (shift_fold bs (\<lambda>i. - (2 ^ i)) l r [0..<b] (if ov then replicate (length as) r else as)) = shift_bits as (- uval bs) l r"
    (is "take _ (?R (if ov then ?P else as)) = _")
proof (rule take_eq_shift_bits)
  fix i assume i: "i < length as"
  have b: "b \<le> length bs" by (simp add: assms(1))
  show "ext (?R (if ov then ?P else as)) l r (int i) = ext as l r (int i + - uval bs)"
  proof (cases ov)
    case True
    then have "b < length bs" unfolding ov_def by (cases "b < length bs") auto
    from clog2_overflow [of b "length as" 0 bs, OF _ this] assms(1) have "int (length as) \<le> 2 ^ b" by simp
    then have "int i + - uval bs < 0" using i uval_ge_overflow [OF True [unfolded ov_def]] by linarith
    moreover have "ext (?R ?P) l r (int i) = ext ?P l r (int i - uval (take b bs))" using i b by (intro shift_left_fold) simp_all
    moreover have "int i - uval (take b bs) < int (length as)" using i uval_nonneg [of "take b bs"] by linarith
    then have "ext ?P l r (int i - uval (take b bs)) = r" by (simp add: ext_def)
    ultimately show ?thesis using True by (simp add: ext_neg)
  next
    case False
    then have "uval (take b bs) = uval bs" unfolding ov_def by (rule uval_no_overflow)
    then show ?thesis using False shift_left_fold [OF b, of "int i" as l r] i by simp
  qed
qed simp_all

lemma shift_right_value:
  assumes "b = nat (min (my_clog2 (int (length as))) (int (length bs)))"
  defines "ov \<equiv> \<exists>x \<in> set (drop b bs). x"
  shows "take (length as) (shift_fold bs (\<lambda>i. 2 ^ i) l r (rev [0..<b]) (if ov then replicate (length as) l else as)) = shift_bits as (uval bs) l r"
    (is "take _ (?R (if ov then ?P else as)) = _")
proof (rule take_eq_shift_bits)
  fix i assume i: "i < length as"
  have b: "b \<le> length bs" by (simp add: assms(1))
  show "ext (?R (if ov then ?P else as)) l r (int i) = ext as l r (int i + uval bs)"
  proof (cases ov)
    case True
    then have "b < length bs" unfolding ov_def by (cases "b < length bs") auto
    from clog2_overflow [of b "length as" 0 bs, OF _ this] assms(1) have "int (length as) \<le> 2 ^ b" by simp
    then have "int (length as) \<le> int i + uval bs" using i uval_ge_overflow [OF True [unfolded ov_def]] by linarith
    moreover have "ext (?R ?P) l r (int i) = ext ?P l r (int i + 0 + uval (take b bs))" using b by (intro shift_right_fold) simp_all
    moreover have "\<not> int i + 0 + uval (take b bs) < 0" using uval_nonneg [of "take b bs"] by linarith
    then have "ext ?P l r (int i + 0 + uval (take b bs)) = l" by (simp add: ext_def)
    ultimately show ?thesis using True by (simp add: ext_ge)
  next
    case False
    have "ext (?R as) l r (int i) = ext as l r (int i + 0 + uval (take b bs))" using b by (intro shift_right_fold) simp_all
    moreover have "uval (take b bs) = uval bs" using False unfolding ov_def by (rule uval_no_overflow)
    ultimately show ?thesis using False by simp
  qed
qed simp_all

lemma vec_shift_left_ok [builds]:
  assumes "ez_ok s" "vmeans s xs F" "vmeans s ys G" "means s l f" "means s r g"
  shows "gives s (vec_shift_left xs ys False l r) (\<lambda>zs s'. vmeans s' zs (\<lambda>\<rho>. shift_bits (F \<rho>) (- uval (G \<rho>)) (f \<rho>) (g \<rho>)))"
proof -
  define b where "b = nat (min (my_clog2 (int (length xs))) (int (length ys)))"
  have b: "b \<le> length ys" by (simp add: b_def)
  let ?ov = "\<lambda>\<rho>. \<exists>x \<in> set (drop b (G \<rho>)). x"
  let ?B = "\<lambda>\<rho>. if ?ov \<rho> then replicate (length xs) (g \<rho>) else F \<rho>"
  let ?R = "\<lambda>\<rho>. shift_fold (G \<rho>) (\<lambda>i. - (2 ^ i)) (f \<rho>) (g \<rho>) [0..<b] (?B \<rho>)"
  note lenF = vmeans_length [OF assms(2)] vmeans_length [OF assms(3)]
  have b_def': "b = nat (min (my_clog2 (int (length (F \<rho>)))) (int (length (G \<rho>))))" if "consts_ok \<rho>" for \<rho> using lenF that by (simp add: b_def)
  have "gives s (vec_shift_left xs ys False l r) (\<lambda>zs s'. vmeans s' zs (\<lambda>\<rho>. take (length xs) (?R \<rho>)))"
    unfolding vec_shift_left_def b_def [symmetric] Let_def
  proof (intro gives_check gives_andthen [OF reduce_ok(2) [OF assms(1) vmeans_drop [OF assms(3)]]])
    fix ov s1 assume ov: "means s1 ov ?ov" and s1: "ez_ok s1" "grows s s1"
    note g1 = vmeans_grows [OF assms(2) s1(2)] vmeans_grows [OF assms(3) s1(2)] means_grows [OF assms(4) s1(2)] means_grows [OF assms(5) s1(2)]
    show "gives s1 (andthen (vec_ite ov (replicate (length xs) r) xs) (\<lambda>buffer. andthen (loop (shift_step l r) (map (\<lambda>i. (ys ! i, - (2 ^ i))) [0..<b]) buffer)
        (\<lambda>buffer. ret (resize (length xs) buffer)))) (\<lambda>zs s'. vmeans s' zs (\<lambda>\<rho>. take (length xs) (?R \<rho>)))"
      using b lenF(1) by (intro gives_andthen [OF vec_ite_ok [OF s1(1) ov vmeans_replicate [OF g1(4)] g1(1)] shift_tail_ok [OF _ _ g1(2-4)]]) simp_all
  qed simp
  then show ?thesis by (rule gives_vmeans_cong) (use shift_left_value [OF b_def'] lenF(1) in \<open>simp only:\<close>)
qed

lemma vec_shift_right_ok [builds]:
  assumes "ez_ok s" "vmeans s xs F" "vmeans s ys G" "means s l f" "means s r g"
  shows "gives s (vec_shift_right xs ys False l r) (\<lambda>zs s'. vmeans s' zs (\<lambda>\<rho>. shift_bits (F \<rho>) (uval (G \<rho>)) (f \<rho>) (g \<rho>)))"
proof -
  define b where "b = nat (min (my_clog2 (int (length xs))) (int (length ys)))"
  have b: "b \<le> length ys" by (simp add: b_def)
  let ?ov = "\<lambda>\<rho>. \<exists>x \<in> set (drop b (G \<rho>)). x"
  let ?B = "\<lambda>\<rho>. if ?ov \<rho> then replicate (length xs) (f \<rho>) else F \<rho>"
  let ?R = "\<lambda>\<rho>. shift_fold (G \<rho>) (\<lambda>i. 2 ^ i) (f \<rho>) (g \<rho>) (rev [0..<b]) (?B \<rho>)"
  note lenF = vmeans_length [OF assms(2)] vmeans_length [OF assms(3)]
  have b_def': "b = nat (min (my_clog2 (int (length (F \<rho>)))) (int (length (G \<rho>))))" if "consts_ok \<rho>" for \<rho> using lenF that by (simp add: b_def)
  have "gives s (andthen (vec_reduce_or (drop b ys)) (\<lambda>ov. andthen (vec_ite ov (replicate (length xs) l) xs) (\<lambda>buffer.
      andthen (loop (shift_step l r) (map (\<lambda>i. (ys ! i, 2 ^ i)) (rev [0..<b])) buffer) (\<lambda>buffer. ret (resize (length xs) buffer)))))
      (\<lambda>zs s'. vmeans s' zs (\<lambda>\<rho>. take (length xs) (?R \<rho>)))"
  proof (rule gives_andthen [OF reduce_ok(2) [OF assms(1) vmeans_drop [OF assms(3)]]])
    fix ov s1 assume ov: "means s1 ov ?ov" and s1: "ez_ok s1" "grows s s1"
    note g1 = vmeans_grows [OF assms(2) s1(2)] vmeans_grows [OF assms(3) s1(2)] means_grows [OF assms(4) s1(2)] means_grows [OF assms(5) s1(2)]
    show "gives s1 (andthen (vec_ite ov (replicate (length xs) l) xs) (\<lambda>buffer. andthen (loop (shift_step l r) (map (\<lambda>i. (ys ! i, 2 ^ i)) (rev [0..<b])) buffer)
        (\<lambda>buffer. ret (resize (length xs) buffer)))) (\<lambda>zs s'. vmeans s' zs (\<lambda>\<rho>. take (length xs) (?R \<rho>)))"
      using b lenF(1) by (intro gives_andthen [OF vec_ite_ok [OF s1(1) ov vmeans_replicate [OF g1(3)] g1(1)] shift_tail_ok [OF _ _ g1(2-4)]]) simp_all
  qed
  moreover have "andthen (andthen m (\<lambda>l. ret (l, c))) k = andthen m (\<lambda>l. k (l, c))" for m :: "int ez" and c :: int and k :: "int \<times> int \<Rightarrow> int list ez"
    by (rule ext) (auto simp: andthen_def ret_def rbind_def split: sum.splits)
  moreover have "andthen (ret x) k = k x" for x and k :: "int list \<Rightarrow> int list ez" by (rule ext) (simp add: andthen_def ret_def)
  ultimately have "gives s (vec_shift_right xs ys False l r) (\<lambda>zs s'. vmeans s' zs (\<lambda>\<rho>. take (length xs) (?R \<rho>)))"
    by (simp add: vec_shift_right_def Let_def b_def [symmetric])
  then show ?thesis by (rule gives_vmeans_cong) (use shift_right_value [OF b_def'] lenF(1) in \<open>simp only:\<close>)
qed
text \<open>A signed shift: the top bit used shifts to the left first.\<close>

lemma sval_take:
  assumes "0 < b" "b \<le> length bs" "\<not> (\<exists>x \<in> set (drop b bs). x \<noteq> bs ! (b - 1))"
  shows "sval (take b bs) = sval bs"
proof (rule bit_eqI)
  fix i :: nat
  have rest: "bs ! j = bs ! (b - 1)" if "b \<le> j" "j < length bs" for j
  proof -
    have "drop b bs ! (j - b) = bs ! j" using that by simp
    then have "bs ! j \<in> set (drop b bs)" using that nth_mem [of "j - b" "drop b bs"] by simp
    then show ?thesis using assms(3) by blast
  qed
  have "last bs = bs ! (length bs - 1)" using assms(1,2) by (intro last_conv_nth) auto
  then have "last bs = bs ! (b - 1)" using assms(1,2) rest [of "length bs - 1"] by (cases "b = length bs") auto
  moreover have "last (take b bs) = bs ! (b - 1)" using assms(1,2) by (subst last_conv_nth) auto
  ultimately show "bit (sval (take b bs)) i = bit (sval bs) i"
    using assms(1,2) rest [of i] by (auto simp: bit_sval not_less)
qed

lemma sval_take_value: "0 < b \<Longrightarrow> b \<le> length bs \<Longrightarrow> sval (take b bs) = uval (take (b - 1) bs) - (if bs ! (b - 1) then 2 ^ (b - 1) else 0)"
proof -
  assume b: "0 < b" "b \<le> length bs"
  then have "take b bs = take (b - 1) bs @ [bs ! (b - 1)]" using take_Suc_conv_app_nth [of "b - 1" bs] by simp
  then show ?thesis using b by (simp add: sval_def uval_append power_eq_if)
qed

lemma sval_overflow:
  assumes "0 < b" "\<exists>x \<in> set (drop b bs). x \<noteq> bs ! (b - 1)"
  shows "2 ^ (b - 1) \<le> sval bs \<or> sval bs < - (2 ^ (b - 1))"
proof (rule ccontr)
  assume "\<not> ?thesis"
  then have "signed_take_bit (b - 1) (sval bs) = sval bs" by (intro signed_take_bit_int_eq_self) auto
  then have same: "bit (sval bs) i = bit (sval bs) (b - 1)" if "b \<le> i" for i
    using that assms(1) bit_signed_take_bit_iff [of "b - 1" "sval bs" i] by (simp add: min_def)
  obtain j where j: "j < length bs - b" "bs ! (b + j) \<noteq> bs ! (b - 1)" using assms(2) by (auto simp: in_set_conv_nth)
  then have "b + j < length bs" "b - 1 < length bs" by auto
  then show False using same [of "b + j"] j(2) by (simp add: bit_sval)
qed

lemma shift_signed_value:
  assumes "bs \<noteq> []" "b = nat (min (my_clog2 (int (length as)) + 1) (int (length bs)))"
  defines "ov \<equiv> \<exists>x \<in> set (drop b bs). x \<noteq> bs ! (b - 1)" and "sh \<equiv> (\<lambda>i. if i = b - 1 then - (2 ^ i) else 2 ^ i)"
  shows "take (length as) (shift_fold bs sh e e (rev [0..<b]) (if ov then replicate (length as + 2 ^ b) e else as @ replicate (2 ^ b) e)) = shift_bits as (sval bs) e e"
proof (rule take_eq_shift_bits)
  fix i assume i: "i < length as"
  have b: "0 < b" "b \<le> length bs" using assms(1) my_clog2_ge(1) [of "length as"] by (auto simp: assms(2))
  show "ext (shift_fold bs sh e e (rev [0..<b]) (if ov then replicate (length as + 2 ^ b) e else as @ replicate (2 ^ b) e)) e e (int i) = ext as e e (int i + sval bs)"
  proof (cases ov)
    case True
    then have "b < length bs" unfolding ov_def by (cases "b < length bs") auto
    from clog2_overflow [of b "length as" 1 bs, OF _ this] assms(2) have "b = nat (my_clog2 (int (length as))) + 1" "int (length as) \<le> 2 ^ nat (my_clog2 (int (length as)))" by simp_all
    then have "int (length as) \<le> 2 ^ (b - 1)" by simp
    then have "int (length as) \<le> int i + sval bs \<or> int i + sval bs < 0" using i sval_overflow [OF b(1) True [unfolded ov_def]] by linarith
    then have "ext as e e (int i + sval bs) = e" by (auto simp: ext_def)
    then show ?thesis using True by (simp add: shift_fold_same ext_replicate)
  next
    case False
    let ?h = "2 ^ (b - 1) :: int" and ?as = "as @ replicate (2 ^ b) e" and ?t = "if bs ! (b - 1) then - (2 ^ (b - 1)) else 0 :: int"
    let ?buf = "if bs ! (b - 1) then shift_bits ?as (- ?h) e e else ?as"
    have h: "2 * ?h = 2 ^ b" "0 \<le> ?h" using b(1) by (simp_all flip: power_Suc)
    have same: "ext ?as e e j = ext as e e j" for j
    proof (cases "0 \<le> j \<and> j < int (length as)")
      case False
      have "?as ! nat j = e" if "\<not> j < int (length as)" "j < int (length ?as)"
      proof -
        have "length as \<le> nat j" "nat j < length ?as" using that by linarith+
        then show ?thesis by (simp add: nth_append)
      qed
      then show ?thesis using False by (auto simp: ext_def)
    next
      case True
      moreover have "int (length as) \<le> int (length ?as)" by (simp only: of_nat_le_iff length_append le_add1)
      ultimately have "nat j < length as" "\<not> int (length ?as) \<le> j" by linarith+
      then show ?thesis using True unfolding ext_def by (simp only: nth_append if_True if_False) simp
    qed
    have "ext ?buf e e j = ext as e e (j + ?t)" if "0 \<le> j" for j
    proof (cases "bs ! (b - 1)")
      case True
      have "ext as e e (j - ?h) = e" if "int (length as) + 2 ^ b \<le> j" using that h by (intro ext_ge) linarith+
      then show ?thesis using True that same by (simp add: ext_shift_bits)
    qed (use same in simp)
    moreover have "int (length as) \<le> int (length ?buf) + ?t" using h by simp
    ultimately have "ext (shift_fold bs (\<lambda>i. 2 ^ i) e e (rev [0..<b - 1]) ?buf) e e (int i) = ext as e e (int i + ?t + uval (take (b - 1) bs))"
      using b by (intro shift_right_fold) simp_all
    moreover have "shift_fold bs sh e e (rev [0..<b]) ?as = shift_fold bs (\<lambda>i. 2 ^ i) e e (rev [0..<b - 1]) ?buf"
    proof -
      have "rev [0..<b] = (b - 1) # rev [0..<b - 1]" using b(1) by (cases b) simp_all
      then show ?thesis unfolding shift_fold_def by (auto simp: sh_def intro!: fold_cong)
    qed
    moreover have "sval bs = ?t + uval (take (b - 1) bs)" using sval_take [OF b False [unfolded ov_def]] sval_take_value [OF b] by (auto split: if_splits)
    ultimately show ?thesis using False by (simp add: algebra_simps)
  qed
qed simp_all

lemma overflow_loop_ok:
  assumes "ez_ok s" "vmeans s xs F" "means s y g" "means s c h"
  shows "gives s (loop (\<lambda>bit overflow. andthen (ez_xor [bit, y]) (\<lambda>x. ez_or [overflow, x])) xs c)
    (\<lambda>r s'. means s' r (\<lambda>\<rho>. h \<rho> \<or> (\<exists>x \<in> set (F \<rho>). x \<noteq> g \<rho>)))"
  using assms
proof (induction xs arbitrary: s F c h)
  case Nil
  then show ?case by (auto simp: vmeans_nil means_def)
next
  case (Cons x xs)
  let ?x = "\<lambda>\<rho>. hd (F \<rho>) \<noteq> g \<rho>"
  have "gives s (andthen (ez_xor [x, y]) (\<lambda>x. ez_or [c, x])) (\<lambda>r s'. means s' r (\<lambda>\<rho>. h \<rho> \<or> ?x \<rho>))"
    using means_grows [OF Cons.prems(4)] by (intro gives_andthen [OF binary_ok(3) [OF Cons.prems(1) vmeans_means [OF Cons.prems(2)] Cons.prems(3)]] binary_ok(2))
  then have "gives s (loop (\<lambda>bit overflow. andthen (ez_xor [bit, y]) (\<lambda>x. ez_or [overflow, x])) (x # xs) c)
      (\<lambda>r s'. means s' r (\<lambda>\<rho>. (h \<rho> \<or> ?x \<rho>) \<or> (\<exists>x \<in> set (tl (F \<rho>)). x \<noteq> g \<rho>)))" unfolding loop.simps
    by (rule gives_andthen) (intro Cons.IH vmeans_grows [OF vmeans_tl [OF Cons.prems(2)]] means_grows [OF Cons.prems(3)])
  then show ?case
  proof (rule gives_means_cong)
    fix \<rho> assume "consts_ok \<rho>"
    from vmeans_not_Nil [OF Cons.prems(2) this] show "((h \<rho> \<or> ?x \<rho>) \<or> (\<exists>x \<in> set (tl (F \<rho>)). x \<noteq> g \<rho>)) = (h \<rho> \<or> (\<exists>x \<in> set (F \<rho>). x \<noteq> g \<rho>))"
      by (cases "F \<rho>") auto
  qed
qed

lemma overflow_flags_ok:
  assumes "ez_ok s" "vmeans s xs F" "means s y g" "means s z h"
  shows "gives s (andthen (loop (\<lambda>bit overflow. andthen (ez_xor [bit, y]) (\<lambda>x. ez_or [overflow, x])) xs CONST_FALSE) (\<lambda>overflow.
      andthen (ez_not z) (\<lambda>nl. andthen (ez_and [overflow, nl]) (\<lambda>l. andthen (ez_and [overflow, z]) (\<lambda>r. ret (l, r))))))
    (\<lambda>lr s'. means s' (fst lr) (\<lambda>\<rho>. (\<exists>x \<in> set (F \<rho>). x \<noteq> g \<rho>) \<and> \<not> h \<rho>) \<and> means s' (snd lr) (\<lambda>\<rho>. (\<exists>x \<in> set (F \<rho>). x \<noteq> g \<rho>) \<and> h \<rho>))"
proof -
  have "gives s (loop (\<lambda>bit overflow. andthen (ez_xor [bit, y]) (\<lambda>x. ez_or [overflow, x])) xs CONST_FALSE) (\<lambda>r s'. means s' r (\<lambda>\<rho>. \<exists>x \<in> set (F \<rho>). x \<noteq> g \<rho>))"
    using overflow_loop_ok [OF assms(1-3) means_const(2)] assms(1) by simp
  then show ?thesis using assms(4)
    by - (rule gives_andthen, assumption, (drule (1) means_grows)+, (rule gives_andthen, (rule builds; assumption), (drule (1) means_grows)+)+, rule gives_ret, simp_all)
qed

lemma vec_shift_right_signed_ok [builds]:
  assumes "ez_ok s" "vmeans s xs F" "vmeans s ys G" "means s l f" "means s r f" "ys \<noteq> []"
  shows "gives s (vec_shift_right xs ys True l r) (\<lambda>zs s'. vmeans s' zs (\<lambda>\<rho>. shift_bits (F \<rho>) (sval (G \<rho>)) (f \<rho>) (f \<rho>)))"
proof -
  define b where "b = nat (min (my_clog2 (int (length xs)) + 1) (int (length ys)))"
  have b: "0 < b" "b \<le> length ys" using assms(6) my_clog2_ge(1) [of "length xs"] by (auto simp: b_def)
  let ?ov = "\<lambda>\<rho>. \<exists>x \<in> set (drop b (G \<rho>)). x \<noteq> G \<rho> ! (b - 1)" and ?la = "\<lambda>\<rho>. G \<rho> ! (length ys - 1)"
  let ?n = "length xs + 2 ^ b" and ?buf = "xs @ replicate (2 ^ b) l" and ?sh = "\<lambda>i. if i = b - 1 then - (2 ^ i) else 2 ^ i"
  let ?E = "\<lambda>\<rho>. F \<rho> @ replicate (2 ^ b) (f \<rho>)"
  let ?B = "\<lambda>\<rho>. if ?ov \<rho> \<and> ?la \<rho> then replicate ?n (f \<rho>) else if ?ov \<rho> \<and> \<not> ?la \<rho> then replicate ?n (f \<rho>) else ?E \<rho>"
  let ?R = "\<lambda>\<rho>. shift_fold (G \<rho>) ?sh (f \<rho>) (f \<rho>) (rev [0..<b]) (?B \<rho>)"
  note lenF = vmeans_length [OF assms(2)] vmeans_length [OF assms(3)]
  have b_def': "b = nat (min (my_clog2 (int (length (F \<rho>))) + 1) (int (length (G \<rho>))))" if "consts_ok \<rho>" for \<rho> using lenF that by (simp add: b_def)
  have "means s (ys ! (b - 1)) (\<lambda>\<rho>. G \<rho> ! (b - 1))" "means s (last ys) ?la" using vmeans_nth [OF assms(3)] b assms(6) by (simp_all add: last_conv_nth)
  note flags = overflow_flags_ok [OF assms(1) vmeans_drop [OF assms(3), of b] this]
  have run: "vec_shift_right xs ys True l r = andthen (andthen (loop (\<lambda>bit overflow. andthen (ez_xor [bit, ys ! (b - 1)]) (\<lambda>x. ez_or [overflow, x])) (drop b ys) CONST_FALSE) (\<lambda>overflow.
      andthen (ez_not (last ys)) (\<lambda>nl. andthen (ez_and [overflow, nl]) (\<lambda>l. andthen (ez_and [overflow, last ys]) (\<lambda>r. ret (l, r)))))) (\<lambda>lr.
      andthen (vec_ite (fst lr) (replicate (length ?buf) l) ?buf) (\<lambda>buffer. andthen (vec_ite (snd lr) (replicate (length ?buf) l) buffer) (\<lambda>buffer.
        andthen (loop (shift_step l r) (map (\<lambda>i. (ys ! i, ?sh i)) (rev [0..<b])) buffer) (\<lambda>buffer. ret (resize (length xs) buffer)))))"
    using assms(6) by (simp add: vec_shift_right_def Let_def b_def case_prod_unfold)
  have "gives s (vec_shift_right xs ys True l r) (\<lambda>zs s'. vmeans s' zs (\<lambda>\<rho>. take (length xs) (?R \<rho>)))"
    unfolding run
  proof (rule gives_andthen [OF flags])
    fix lr s1 assume lr: "means s1 (fst lr) (\<lambda>\<rho>. ?ov \<rho> \<and> \<not> ?la \<rho>) \<and> means s1 (snd lr) (\<lambda>\<rho>. ?ov \<rho> \<and> ?la \<rho>)" and s1: "ez_ok s1" "grows s s1"
    note g1 = vmeans_grows [OF assms(2) s1(2)] vmeans_grows [OF assms(3) s1(2)] means_grows [OF assms(4) s1(2)] means_grows [OF assms(5) s1(2)]
    have buf: "vmeans s1 ?buf ?E" using vmeans_append [OF g1(1) vmeans_replicate [OF g1(3)]] .
    have pat: "vmeans s1 (replicate (length ?buf) l) (\<lambda>\<rho>. replicate ?n (f \<rho>))" using vmeans_replicate [OF g1(3), of ?n] by simp
    show "gives s1 (andthen (vec_ite (fst lr) (replicate (length ?buf) l) ?buf) (\<lambda>buffer. andthen (vec_ite (snd lr) (replicate (length ?buf) l) buffer) (\<lambda>buffer.
        andthen (loop (shift_step l r) (map (\<lambda>i. (ys ! i, ?sh i)) (rev [0..<b])) buffer) (\<lambda>buffer. ret (resize (length xs) buffer)))))
        (\<lambda>zs s'. vmeans s' zs (\<lambda>\<rho>. take (length xs) (?R \<rho>)))"
    proof (rule gives_andthen [OF vec_ite_ok [OF s1(1) conjunct1 [OF lr] pat buf]])
      fix buf2 s2 assume buf2: "vmeans s2 buf2 (\<lambda>\<rho>. if ?ov \<rho> \<and> \<not> ?la \<rho> then replicate ?n (f \<rho>) else ?E \<rho>)" and s2: "ez_ok s2" "grows s1 s2"
      have "consts_ok (\<lambda>x. x = CONST_TRUE)" by (simp add: consts_ok_def)
      from vmeans_length [OF buf2 this] lenF(1) [OF this] have len: "length (replicate (length ?buf) l) = length buf2" by (simp split: if_splits)
      show "gives s2 (andthen (vec_ite (snd lr) (replicate (length ?buf) l) buf2) (\<lambda>buffer. andthen (loop (shift_step l r) (map (\<lambda>i. (ys ! i, ?sh i)) (rev [0..<b])) buffer)
          (\<lambda>buffer. ret (resize (length xs) buffer)))) (\<lambda>zs s'. vmeans s' zs (\<lambda>\<rho>. take (length xs) (?R \<rho>)))"
        using b lenF(1) s2(2) grows_trans
        by (intro gives_andthen [OF vec_ite_ok [OF s2(1) means_grows [OF conjunct2 [OF lr] s2(2)] vmeans_grows [OF pat s2(2)] buf2 len]
            shift_tail_ok [OF _ _ g1(2-4)]]) auto
    qed simp
  qed
  moreover have "take (length xs) (?R \<rho>) = shift_bits (F \<rho>) (sval (G \<rho>)) (f \<rho>) (f \<rho>)" if "consts_ok \<rho>" for \<rho>
  proof -
    have "?B \<rho> = (if ?ov \<rho> then replicate ?n (f \<rho>) else ?E \<rho>)" by simp
    moreover have "G \<rho> \<noteq> []" using lenF(2) [OF that] assms(6) by auto
    ultimately show ?thesis using shift_signed_value [OF \<open>G \<rho> \<noteq> []\<close> b_def' [OF that], of "f \<rho>"] by (simp only: lenF(1) [OF that])
  qed
  ultimately show ?thesis by (rule gives_vmeans_cong)
qed
section \<open>Constants, widths and counting\<close>

lemma vec_const_ok: "ez_ok s \<Longrightarrow> vmeans s (vec_const bits) (\<lambda>_. bits)"
  unfolding vec_const_def by (induction bits) (auto simp: ez_value_def means_const)

lemma vec_const_unsigned_ok [builds]:
  "ez_ok s \<Longrightarrow> n \<le> 64 \<Longrightarrow> gives s (vec_const_unsigned v n) (\<lambda>r s'. vmeans s' r (\<lambda>_. int_bits (nat n) v))"
  "ez_ok s \<Longrightarrow> n \<le> 64 \<Longrightarrow> gives s (vec_const_signed v n) (\<lambda>r s'. vmeans s' r (\<lambda>_. int_bits (nat n) v))"
  by (auto simp: vec_const_unsigned_def vec_const_signed_def intro: vec_const_ok)

text \<open>The value is kept when a vector becomes wider.\<close>

lemma vec_cast_ok [builds]:
  assumes "ez_ok s" "vmeans s xs F" "signExtend \<longrightarrow> xs \<noteq> []" "length xs \<le> nat n"
  shows "gives s (vec_cast xs n signExtend) (\<lambda>r s'. vmeans s' r (\<lambda>\<rho>. int_bits (nat n) (if signExtend then sval (F \<rho>) else uval (F \<rho>))))"
proof -
  let ?x = "\<lambda>i. if length xs \<le> i then (if signExtend then last xs else CONST_FALSE) else xs ! i"
  let ?f = "\<lambda>i \<rho>. if length xs \<le> i then signExtend \<and> last (F \<rho>) else F \<rho> ! i"
  have ne: "F \<rho> \<noteq> []" "last (F \<rho>) = F \<rho> ! (length xs - 1)" if "consts_ok \<rho>" "xs \<noteq> []" for \<rho>
    using vmeans_length [OF assms(2) that(1)] that(2) last_conv_nth [of "F \<rho>"] by force+
  have last: "means s (last xs) (\<lambda>\<rho>. last (F \<rho>))" if "xs \<noteq> []"
    using vmeans_nth [OF assms(2), of "length xs - 1"] that ne(2) by (auto simp: last_conv_nth means_def)
  have "vmeans s (map ?x [0..<nat n]) (\<lambda>\<rho>. int_bits (nat n) (if signExtend then sval (F \<rho>) else uval (F \<rho>)))"
  proof (rule vmeans_list)
    fix i assume "i < length (map ?x [0..<nat n])"
    then show "means s (map ?x [0..<nat n] ! i) (?f i)" using vmeans_nth [OF assms(2), of i] last assms(3) means_const(2) [OF assms(1)] by auto
  next
    fix \<rho> assume \<rho>: "consts_ok \<rho>"
    show "int_bits (nat n) (if signExtend then sval (F \<rho>) else uval (F \<rho>)) = map (\<lambda>i. ?f i \<rho>) [0..<length (map ?x [0..<nat n])]"
      using vmeans_length [OF assms(2) \<rho>] ne(1) [OF \<rho>] assms(3) by (auto simp: int_bits_def bit_sval bit_uval)
  qed
  moreover have "vec_cast xs n signExtend = ret (map ?x [0..<nat n])" using assms(3) by (auto simp: vec_cast_def)
  ultimately show ?thesis using assms(1) by (simp only: gives_ret)
qed

fun count_bits :: "bool \<Rightarrow> bool list \<Rightarrow> bool list" where
  "count_bits c [] = []"
| "count_bits c (b # bs) = (c \<noteq> b) # count_bits (c \<and> b) bs"

fun count_carry :: "bool \<Rightarrow> bool list \<Rightarrow> bool" where
  "count_carry c [] = c"
| "count_carry c (b # bs) = count_carry (c \<and> b) bs"

lemma length_count_bits [simp]: "length (count_bits c bs) = length bs"
  by (induction c bs rule: count_bits.induct) auto

lemma count_bits_value: "uval (count_bits c bs) + 2 ^ length bs * of_bool (count_carry c bs) = uval bs + of_bool c"
proof (induction c bs rule: count_bits.induct)
  case (2 c b bs)
  then show ?case by (cases b; cases c) (simp_all add: algebra_simps)
qed simp

fun count_all :: "bool list \<Rightarrow> bool list \<Rightarrow> bool list \<times> bool list" where
  "count_all [] acc = ([], acc)"
| "count_all (v # vs) acc = (let (cs, acc') = count_all vs (count_bits v acc) in (count_carry v acc # cs, acc'))"

lemma length_count_all: "length (snd (count_all vs acc)) = length acc"
  by (induction vs arbitrary: acc) (simp_all add: case_prod_unfold Let_def)

lemma count_all_value:
  "uval (snd (count_all vs acc)) + 2 ^ length acc * int (length (filter (\<lambda>c. c) (fst (count_all vs acc)))) = uval acc + int (length (filter (\<lambda>v. v) vs))"
proof (induction vs arbitrary: acc)
  case (Cons v vs)
  show ?case using Cons [of "count_bits v acc"] count_bits_value [of v acc]
    by (cases v; cases "count_carry v acc") (simp_all add: case_prod_unfold Let_def algebra_simps)
qed simp

lemma count_bit_ok:
  assumes "ez_ok s" "means s c h" "vmeans s xs F"
  shows "gives s (count_bit c xs) (\<lambda>r s'. means s' (fst r) (\<lambda>\<rho>. count_carry (h \<rho>) (F \<rho>)) \<and> vmeans s' (snd r) (\<lambda>\<rho>. count_bits (h \<rho>) (F \<rho>)))"
  using assms
proof (induction xs arbitrary: s c h F)
  case Nil
  then show ?case by (auto simp: vmeans_nil means_def)
next
  case (Cons x xs)
  note F = Cons.prems(3)
  let ?c = "\<lambda>\<rho>. h \<rho> \<and> hd (F \<rho>)" and ?x = "\<lambda>\<rho>. h \<rho> \<noteq> hd (F \<rho>)"
  have eq: "count_carry (h \<rho>) (F \<rho>) = count_carry (?c \<rho>) (tl (F \<rho>))" "count_bits (h \<rho>) (F \<rho>) = ?x \<rho> # count_bits (?c \<rho>) (tl (F \<rho>))" if "consts_ok \<rho>" for \<rho>
    using vmeans_not_Nil [OF F that] by (cases "F \<rho>"; simp)+
  show ?case unfolding count_bit.simps case_prod_unfold
  proof (rule gives_andthen [OF halfadder_ok [OF Cons.prems(1,2) vmeans_means [OF F]]])
    fix r s1 assume r: "means s1 (fst r) ?c \<and> means s1 (snd r) ?x" and s1: "ez_ok s1" "grows s s1"
    show "gives s1 (andthen (count_bit (fst r) xs) (\<lambda>q. ret (fst q, snd r # snd q)))
        (\<lambda>r s'. means s' (fst r) (\<lambda>\<rho>. count_carry (h \<rho>) (F \<rho>)) \<and> vmeans s' (snd r) (\<lambda>\<rho>. count_bits (h \<rho>) (F \<rho>)))"
    proof (rule gives_andthen [OF Cons.IH [OF s1(1) conjunct1 [OF r] vmeans_grows [OF vmeans_tl [OF F] s1(2)]]])
      fix q s2 assume q: "means s2 (fst q) (\<lambda>\<rho>. count_carry (?c \<rho>) (tl (F \<rho>))) \<and> vmeans s2 (snd q) (\<lambda>\<rho>. count_bits (?c \<rho>) (tl (F \<rho>)))"
        and s2: "ez_ok s2" "grows s1 s2"
      show "gives s2 (ret (fst q, snd r # snd q)) (\<lambda>r s'. means s' (fst r) (\<lambda>\<rho>. count_carry (h \<rho>) (F \<rho>)) \<and> vmeans s' (snd r) (\<lambda>\<rho>. count_bits (h \<rho>) (F \<rho>)))"
        using means_cong [OF conjunct1 [OF q], OF eq(1) [symmetric]] vmeans_ConsI [OF means_grows [OF conjunct2 [OF r] s2(2)] conjunct2 [OF q], OF eq(2)]
        by (intro gives_ret [OF s2(1)]) simp
    qed
  qed
qed

lemma count_loop_ok:
  assumes "ez_ok s" "vmeans s xs F" "vmeans s acc G"
  shows "gives s (count_loop xs acc) (\<lambda>r s'. vmeans s' (fst r) (\<lambda>\<rho>. fst (count_all (F \<rho>) (G \<rho>))) \<and> vmeans s' (snd r) (\<lambda>\<rho>. snd (count_all (F \<rho>) (G \<rho>))))"
  using assms
proof (induction xs arbitrary: s acc F G)
  case Nil
  then show ?case by (auto simp: vmeans_nil vmeans_def)
next
  case (Cons x xs)
  note F = Cons.prems(2)
  let ?c = "\<lambda>\<rho>. count_carry (hd (F \<rho>)) (G \<rho>)" and ?G = "\<lambda>\<rho>. count_bits (hd (F \<rho>)) (G \<rho>)"
  have eq: "fst (count_all (F \<rho>) (G \<rho>)) = ?c \<rho> # fst (count_all (tl (F \<rho>)) (?G \<rho>))" "snd (count_all (F \<rho>) (G \<rho>)) = snd (count_all (tl (F \<rho>)) (?G \<rho>))"
    if "consts_ok \<rho>" for \<rho> using vmeans_not_Nil [OF F that] by (cases "F \<rho>"; simp add: case_prod_unfold Let_def)+
  show ?case unfolding count_loop.simps case_prod_unfold
  proof (rule gives_andthen [OF count_bit_ok [OF Cons.prems(1) vmeans_means [OF F] Cons.prems(3)]])
    fix r s1 assume r: "means s1 (fst r) ?c \<and> vmeans s1 (snd r) ?G" and s1: "ez_ok s1" "grows s s1"
    show "gives s1 (andthen (count_loop xs (snd r)) (\<lambda>q. ret (fst r # fst q, snd q)))
        (\<lambda>r s'. vmeans s' (fst r) (\<lambda>\<rho>. fst (count_all (F \<rho>) (G \<rho>))) \<and> vmeans s' (snd r) (\<lambda>\<rho>. snd (count_all (F \<rho>) (G \<rho>))))"
    proof (rule gives_andthen [OF Cons.IH [OF s1(1) vmeans_grows [OF vmeans_tl [OF F] s1(2)] conjunct2 [OF r]]])
      fix q s2 assume q: "vmeans s2 (fst q) (\<lambda>\<rho>. fst (count_all (tl (F \<rho>)) (?G \<rho>))) \<and> vmeans s2 (snd q) (\<lambda>\<rho>. snd (count_all (tl (F \<rho>)) (?G \<rho>)))"
        and s2: "ez_ok s2" "grows s1 s2"
      show "gives s2 (ret (fst r # fst q, snd q)) (\<lambda>r s'. vmeans s' (fst r) (\<lambda>\<rho>. fst (count_all (F \<rho>) (G \<rho>))) \<and> vmeans s' (snd r) (\<lambda>\<rho>. snd (count_all (F \<rho>) (G \<rho>))))"
        using vmeans_cong [OF conjunct2 [OF q], OF eq(2) [symmetric]] vmeans_ConsI [OF means_grows [OF conjunct1 [OF r] s2(2)] conjunct1 [OF q], OF eq(1)]
        by (intro gives_ret [OF s2(1)]) simp
    qed
  qed
qed
lemma count_all_result:
  fixes clip vs N
  defines "k \<equiv> int (length (filter (\<lambda>v. v) vs))"
  assumes "N \<le> 64"
  shows "(if clip \<and> (\<exists>c \<in> set (fst (count_all vs (int_bits N 0))). c) then int_bits N (2 ^ 64 - 1) else snd (count_all vs (int_bits N 0))) =
    int_bits N (if clip then min k (2 ^ N - 1) else k)"
proof -
  let ?acc = "snd (count_all vs (int_bits N 0))" and ?cs = "fst (count_all vs (int_bits N 0))"
  let ?m = "int (length (filter (\<lambda>c. c) ?cs))"
  have len: "length ?acc = N" by (simp add: length_count_all)
  have val: "uval ?acc + 2 ^ N * ?m = k" using count_all_value [of vs "int_bits N 0"] by (simp add: uval_int_bits k_def)
  have bnd: "0 \<le> uval ?acc" "uval ?acc < 2 ^ N" using uval_less [of ?acc] len by simp_all
  have acc: "?acc = int_bits N k"
  proof (rule uval_inj)
    have "k mod 2 ^ N = uval ?acc" unfolding val [symmetric] using bnd by simp
    then show "uval ?acc = uval (int_bits N k)" by (simp add: uval_int_bits)
  qed (simp add: len)
  have ov: "(\<exists>c \<in> set ?cs. c) \<longleftrightarrow> 2 ^ N \<le> k"
  proof -
    have "(\<exists>c \<in> set ?cs. c) \<longleftrightarrow> 0 < ?m" by (simp add: filter_empty_conv)
    moreover have "2 ^ N \<le> k" if "0 < ?m"
    proof -
      have "2 ^ N * 1 \<le> (2 ^ N * ?m :: int)" using that by (intro mult_left_mono) (auto simp: Suc_le_eq)
      then show ?thesis using val bnd by linarith
    qed
    moreover have "k < 2 ^ N" if "\<not> 0 < ?m" using that val bnd by simp
    ultimately show ?thesis by linarith
  qed
  have "int_bits N (mask 64) = int_bits N (mask N)" using assms(2) by (intro nth_equalityI) (simp_all add: bit_mask_iff)
  then have "int_bits N (2 ^ 64 - 1) = int_bits N (2 ^ N - 1)" unfolding mask_eq_exp_minus_1 .
  then show ?thesis using ov acc by (auto simp: min_def)
qed

lemma vec_count_ok [builds]:
  assumes "ez_ok s" "vmeans s xs F" "0 \<le> n" "n \<le> 64"
  shows "gives s (vec_count xs n clip) (\<lambda>r s'. vmeans s' r (\<lambda>\<rho>. int_bits (nat n)
    (let k = int (length (filter (\<lambda>v. v) (F \<rho>))) in if clip then min k (2 ^ nat n - 1) else k)))"
proof -
  let ?c = "\<lambda>\<rho>. count_all (F \<rho>) (int_bits (nat n) 0)"
  let ?r = "\<lambda>\<rho>. if clip \<and> (\<exists>c \<in> set (fst (?c \<rho>)). c) then int_bits (nat n) (2 ^ 64 - 1) else snd (?c \<rho>)"
  have "gives s (vec_count xs n clip) (\<lambda>r s'. vmeans s' r ?r)" unfolding vec_count_def case_prod_unfold
  proof (rule gives_andthen [OF vec_const_unsigned_ok(1) [OF assms(1,4)]])
    fix zero s1 assume zero: "vmeans s1 zero (\<lambda>_. int_bits (nat n) 0)" and s1: "ez_ok s1" "grows s s1"
    show "gives s1 (andthen (count_loop xs zero) (\<lambda>q. if clip then andthen (vec_reduce_or (fst q)) (\<lambda>overflow.
        andthen (vec_const_unsigned (2 ^ 64 - 1) n) (\<lambda>ones. vec_ite overflow ones (snd q))) else ret (snd q))) (\<lambda>r s'. vmeans s' r ?r)"
    proof (rule gives_andthen [OF count_loop_ok [OF s1(1) vmeans_grows [OF assms(2) s1(2)] zero]])
      fix q s2 assume q: "vmeans s2 (fst q) (\<lambda>\<rho>. fst (?c \<rho>)) \<and> vmeans s2 (snd q) (\<lambda>\<rho>. snd (?c \<rho>))" and s2: "ez_ok s2" "grows s1 s2"
      have "gives s2 (andthen (vec_reduce_or (fst q)) (\<lambda>overflow. andthen (vec_const_unsigned (2 ^ 64 - 1) n) (\<lambda>ones. vec_ite overflow ones (snd q))))
          (\<lambda>r s'. vmeans s' r (\<lambda>\<rho>. if \<exists>c \<in> set (fst (?c \<rho>)). c then int_bits (nat n) (2 ^ 64 - 1) else snd (?c \<rho>)))"
      proof (rule gives_andthen [OF reduce_ok(2) [OF s2(1) conjunct1 [OF q]]])
        fix overflow s3 assume o3: "means s3 overflow (\<lambda>\<rho>. \<exists>c \<in> set (fst (?c \<rho>)). c)" and s3: "ez_ok s3" "grows s2 s3"
        show "gives s3 (andthen (vec_const_unsigned (2 ^ 64 - 1) n) (\<lambda>ones. vec_ite overflow ones (snd q)))
            (\<lambda>r s'. vmeans s' r (\<lambda>\<rho>. if \<exists>c \<in> set (fst (?c \<rho>)). c then int_bits (nat n) (2 ^ 64 - 1) else snd (?c \<rho>)))"
        proof (rule gives_andthen [OF vec_const_unsigned_ok(1) [OF s3(1) assms(4)]])
          fix ones s4 assume ones: "vmeans s4 ones (\<lambda>_. int_bits (nat n) (2 ^ 64 - 1))" and s4: "ez_ok s4" "grows s3 s4"
          have sum: "vmeans s4 (snd q) (\<lambda>\<rho>. snd (?c \<rho>))" using vmeans_grows [OF vmeans_grows [OF conjunct2 [OF q] s3(2)] s4(2)] .
          have "consts_ok (\<lambda>x. x = CONST_TRUE)" by (simp add: consts_ok_def)
          then have "length ones = length (snd q)" using vmeans_length [OF ones] vmeans_length [OF sum] by (metis length_count_all length_int_bits)
          then show "gives s4 (vec_ite overflow ones (snd q)) (\<lambda>r s'. vmeans s' r (\<lambda>\<rho>. if \<exists>c \<in> set (fst (?c \<rho>)). c then int_bits (nat n) (2 ^ 64 - 1) else snd (?c \<rho>)))"
            by (rule vec_ite_ok [OF s4(1) means_grows [OF o3 s4(2)] ones sum])
        qed
      qed
      then show "gives s2 (if clip then andthen (vec_reduce_or (fst q)) (\<lambda>overflow. andthen (vec_const_unsigned (2 ^ 64 - 1) n) (\<lambda>ones. vec_ite overflow ones (snd q)))
          else ret (snd q)) (\<lambda>r s'. vmeans s' r ?r)" using s2(1) conjunct2 [OF q] by (cases clip) auto
    qed
  qed
  then show ?thesis using assms(4) by (rule_tac gives_vmeans_cong) (simp_all only: count_all_result Let_def nat_le_iff of_nat_numeral)
qed

section \<open>What the vector operations compute\<close>

lemma add_bits_int: "length as = length bs \<Longrightarrow> add_bits False as bs = int_bits (length as) (uval as + uval bs)"
  by (rule uval_inj) (simp_all add: add_bits_mod uval_int_bits)

lemma sub_bits_int: "length as = length bs \<Longrightarrow> add_bits True as (map Not bs) = int_bits (length as) (uval as - uval bs)"
  by (rule uval_inj) (simp_all add: sub_bits_mod uval_int_bits)

text \<open>In a reachable state the operation succeeds, the clauses still say the same, and the result has the value \<open>F\<close>.\<close>

lemma reach_vector:
  assumes "ez_reach C A s" "gives s m (\<lambda>r s'. vmeans s' r F)"
  shows "\<exists>r s'. m s = Inr (r, s') \<and> cnf_ok C A s' \<and> (\<forall>\<rho>. consts_ok \<rho> \<longrightarrow> map (sem s' \<rho>) r = F \<rho>)"
  using gives_binds [OF assms(2) reach_cnf_ok [OF assms(1)]] by (auto simp: binds_def vmeans_def)

lemma reach_formula:
  assumes "ez_reach C A s" "gives s m (\<lambda>r s'. means s' r f)"
  shows "\<exists>r s'. m s = Inr (r, s') \<and> cnf_ok C A s' \<and> (\<forall>\<rho>. consts_ok \<rho> \<longrightarrow> sem s' \<rho> r = f \<rho>)"
  using gives_binds [OF assms(2) reach_cnf_ok [OF assms(1)]] by (auto simp: binds_def means_def)

text \<open>C17: Addition and subtraction of vectors of formulas give vectors that stand for the sum and the difference modulo
  a power of two. The clauses still say exactly what is assumed.\<close>

theorem vec_add_sub_correct:
  assumes "ez_reach C A s" "\<forall>x \<in> set xs \<union> set ys. valid s x" "length xs = length ys"
  defines "U \<equiv> (\<lambda>\<rho> zs. uval (map (sem s \<rho>) zs))"
  shows "(\<exists>r s'. vec_add xs ys s = Inr (r, s') \<and> cnf_ok C A s' \<and>
      (\<forall>\<rho>. consts_ok \<rho> \<longrightarrow> map (sem s' \<rho>) r = int_bits (length xs) (U \<rho> xs + U \<rho> ys))) \<and>
    (\<exists>r s'. vec_sub xs ys s = Inr (r, s') \<and> cnf_ok C A s' \<and>
      (\<forall>\<rho>. consts_ok \<rho> \<longrightarrow> map (sem s' \<rho>) r = int_bits (length xs) (U \<rho> xs - U \<rho> ys)))"
proof -
  have vm: "vmeans s xs (\<lambda>\<rho>. map (sem s \<rho>) xs)" "vmeans s ys (\<lambda>\<rho>. map (sem s \<rho>) ys)" using assms(2) by (simp_all add: vmeans_sem)
  have "add_bits False (map (sem s \<rho>) xs) (map (sem s \<rho>) ys) = int_bits (length xs) (U \<rho> xs + U \<rho> ys)"
    "add_bits True (map (sem s \<rho>) xs) (map Not (map (sem s \<rho>) ys)) = int_bits (length xs) (U \<rho> xs - U \<rho> ys)" for \<rho>
    using add_bits_int [of "map (sem s \<rho>) xs" "map (sem s \<rho>) ys"] sub_bits_int [of "map (sem s \<rho>) xs" "map (sem s \<rho>) ys"] assms(3) by (simp_all add: U_def)
  then show ?thesis
    using reach_vector [OF assms(1) vec_add_ok [OF reach_ez_ok [OF assms(1)] vm assms(3)]]
      reach_vector [OF assms(1) vec_sub_ok [OF reach_ez_ok [OF assms(1)] vm assms(3)]] by simp
qed

text \<open>C18: The eight comparisons of two vectors of the same length, which is not zero, are the comparisons of the unsigned
  and of the two's complement values.\<close>

theorem vec_compare_correct:
  assumes "ez_reach C A s" "\<forall>x \<in> set xs \<union> set ys. valid s x" "length xs = length ys" "xs \<noteq> []"
    "(op, R) \<in> {(vec_lt_unsigned, \<lambda>a b. uval a < uval b), (vec_le_unsigned, \<lambda>a b. uval a \<le> uval b), (vec_ge_unsigned, \<lambda>a b. uval a \<ge> uval b),
      (vec_gt_unsigned, \<lambda>a b. uval a > uval b), (vec_lt_signed, \<lambda>a b. sval a < sval b), (vec_le_signed, \<lambda>a b. sval a \<le> sval b),
      (vec_ge_signed, \<lambda>a b. sval a \<ge> sval b), (vec_gt_signed, \<lambda>a b. sval a > sval b)}"
  shows "\<exists>r s'. op xs ys s = Inr (r, s') \<and> cnf_ok C A s' \<and>
    (\<forall>\<rho>. consts_ok \<rho> \<longrightarrow> sem s' \<rho> r = R (map (sem s \<rho>) xs) (map (sem s \<rho>) ys))"
proof -
  have vm: "vmeans s xs (\<lambda>\<rho>. map (sem s \<rho>) xs)" "vmeans s ys (\<lambda>\<rho>. map (sem s \<rho>) ys)" using assms(2) by (simp_all add: vmeans_sem)
  have "gives s (op xs ys) (\<lambda>r s'. means s' r (\<lambda>\<rho>. R (map (sem s \<rho>) xs) (map (sem s \<rho>) ys)))"
    using assms(5) vec_compare_unsigned_ok [OF reach_ez_ok [OF assms(1)] vm assms(3,4)] vec_compare_signed_ok [OF reach_ez_ok [OF assms(1)] vm assms(3,4)] by auto
  then show ?thesis by (rule reach_formula [OF assms(1)])
qed

text \<open>C19: The shifts by a vector. To the left and to the right by an unsigned number the result holds the element that many
  places away, or the formula given for the side it lies on; to the right by a two's complement number this holds if the same
  formula is given for both sides.\<close>

theorem vec_shift_correct:
  assumes "ez_reach C A s" "\<forall>x \<in> set xs \<union> set ys \<union> {l, r}. valid s x"
  defines "V \<equiv> (\<lambda>\<rho> zs. map (sem s \<rho>) zs)"
  shows "(\<exists>zs s'. vec_shift_left xs ys False l r s = Inr (zs, s') \<and> cnf_ok C A s' \<and>
      (\<forall>\<rho>. consts_ok \<rho> \<longrightarrow> map (sem s' \<rho>) zs = map (\<lambda>i. ext (V \<rho> xs) (sem s \<rho> l) (sem s \<rho> r) (int i - uval (V \<rho> ys))) [0..<length xs])) \<and>
    (\<exists>zs s'. vec_shift_right xs ys False l r s = Inr (zs, s') \<and> cnf_ok C A s' \<and>
      (\<forall>\<rho>. consts_ok \<rho> \<longrightarrow> map (sem s' \<rho>) zs = map (\<lambda>i. ext (V \<rho> xs) (sem s \<rho> l) (sem s \<rho> r) (int i + uval (V \<rho> ys))) [0..<length xs])) \<and>
    (ys \<noteq> [] \<longrightarrow> (\<exists>zs s'. vec_shift_right xs ys True l l s = Inr (zs, s') \<and> cnf_ok C A s' \<and>
      (\<forall>\<rho>. consts_ok \<rho> \<longrightarrow> map (sem s' \<rho>) zs = map (\<lambda>i. ext (V \<rho> xs) (sem s \<rho> l) (sem s \<rho> l) (int i + sval (V \<rho> ys))) [0..<length xs])))"
proof -
  have vm: "vmeans s xs (\<lambda>\<rho>. V \<rho> xs)" "vmeans s ys (\<lambda>\<rho>. V \<rho> ys)" "means s l (\<lambda>\<rho>. sem s \<rho> l)" "means s r (\<lambda>\<rho>. sem s \<rho> r)"
    using assms(2) by (simp_all add: vmeans_sem means_sem V_def)
  note ok = reach_ez_ok [OF assms(1)]
  have "length (V \<rho> xs) = length xs" for \<rho> by (simp add: V_def)
  then show ?thesis
    using reach_vector [OF assms(1) vec_shift_left_ok [OF ok vm]] reach_vector [OF assms(1) vec_shift_right_ok [OF ok vm]]
      reach_vector [OF assms(1) vec_shift_right_signed_ok [OF ok vm(1-3) vm(3)]]
    by (simp add: shift_bits_def)
qed

text \<open>
  With different formulas for the two sides a signed shift that is too large goes wrong: the
  overflow to the right uses the pattern of the left side, and both patterns are shifted once more.
  Shifting \<open>0000\<close> by \<open>-9\<close> should give the formula of the right side four times.
\<close>

lemma shift_right_large_negative:
  "rbind ezSAT_init (\<lambda>s. rmap fst (vec_shift_right [2, 2, 2, 2] [1, 1, 1, 2, 1, 1, 1, 1] True CONST_TRUE CONST_FALSE s)) = Inr [2, 1, 1, 1]"
  by code_simp

theorem vec_add_sub_correct_witness:
  "\<exists>r s'. vec_add [3, 4] [4, 4] example_formula = Inr (r, s') \<and> cnf_ok [] {} s' \<and>
     (\<forall>\<rho>. consts_ok \<rho> \<longrightarrow> map (sem s' \<rho>) r = int_bits (length [3, 4 :: int]) (uval (map (sem example_formula \<rho>) [3, 4]) + uval (map (sem example_formula \<rho>) [4, 4])))"
proof -
  have "\<forall>x \<in> set [3, 4] \<union> set [4, 4]. valid example_formula x" "length [3, 4 :: int] = length [4, 4 :: int]" by (simp_all add: example_valid)
  from vec_add_sub_correct [OF example_formula_reach this] show ?thesis by (rule conjunct1)
qed

theorem vec_compare_correct_witness:
  "\<exists>r s'. vec_lt_signed [3, 4] [4, 2] example_formula = Inr (r, s') \<and> cnf_ok [] {} s' \<and>
     (\<forall>\<rho>. consts_ok \<rho> \<longrightarrow> sem s' \<rho> r = (sval (map (sem example_formula \<rho>) [3, 4]) < sval (map (sem example_formula \<rho>) [4, 2])))"
proof -
  have "\<forall>x \<in> set [3, 4] \<union> set [4, 2]. valid example_formula x" "length [3, 4 :: int] = length [4, 2 :: int]" "[3, 4 :: int] \<noteq> []" by (simp_all add: example_valid)
  from vec_compare_correct [OF example_formula_reach this, of vec_lt_signed "\<lambda>a b. sval a < sval b"] show ?thesis by simp
qed

theorem vec_shift_correct_witness:
  "\<exists>zs s'. vec_shift_right [3, 4, 3] [4, 4] False 2 1 example_formula = Inr (zs, s') \<and> cnf_ok [] {} s' \<and>
     (\<forall>\<rho>. consts_ok \<rho> \<longrightarrow> map (sem s' \<rho>) zs = map (\<lambda>i. ext (map (sem example_formula \<rho>) [3, 4, 3]) (sem example_formula \<rho> 2) (sem example_formula \<rho> 1)
        (int i + uval (map (sem example_formula \<rho>) [4, 4]))) [0..<length [3, 4, 3 :: int]])"
proof -
  have "\<forall>x \<in> set [3, 4, 3] \<union> set [4, 4] \<union> {2, 1}. valid example_formula x" by (simp add: example_valid)
  from vec_shift_correct [OF example_formula_reach this] show ?thesis by (rule conjunct1 [OF conjunct2])
qed

end
